(* ===== verification/Prelude.thy ===== *)
theory Prelude
  imports Main "HOL-Library.Word"
begin

unbundle bit_operations_syntax

text \<open>
  What every component shares: bytes and buffers, the outcomes of C code that can crash,
  the loops over byte arrays (\<open>xor\<close>, \<open>memcpy\<close>) and the numbers that byte strings denote.

  A C function that can dereference a null pointer, read or write past a buffer, divide by
  zero inside a library, fail an assertion or loop for ever returns an \<open>outcome\<close>: \<open>Inl\<close> with
  the reason, or \<open>Inr\<close> with the value. A buffer is the list of its bytes; a write returns the
  updated buffer and is \<open>OutOfBounds\<close> when it does not fit.
\<close>

named_theorems len_simps \<open>lengths of the buffers the operations return\<close>
named_theorems run_simps \<open>evaluation of outcomes\<close>

type_synonym byte = "8 word"
type_synonym bytes = "8 word list"

datatype crash = NullDeref | OutOfBounds | DivByZero | NoReturn | AssertFail

type_synonym 'a outcome = "crash + 'a"

definition bindO :: "'a outcome \<Rightarrow> ('a \<Rightarrow> 'b outcome) \<Rightarrow> 'b outcome" where
  "bindO r f = (case r of Inl c \<Rightarrow> Inl c | Inr x \<Rightarrow> f x)"

lemma bindO_Inl [simp, run_simps]: "bindO (Inl c) f = Inl c"
  by (simp add: bindO_def)

lemma bindO_Inr [simp, run_simps]: "bindO (Inr x) f = f x"
  by (simp add: bindO_def)

lemma bindO_eq_InrE:
  assumes "bindO r f = Inr y"
  obtains x where "r = Inr x" and "f x = Inr y"
  using assms by (cases r) auto

lemma bindO_cong [fundef_cong]:
  assumes "r = r'" and "\<And>x. r' = Inr x \<Longrightarrow> f x = g x"
  shows "bindO r f = bindO r' g"
  using assms by (cases r') auto

lemma bindO_assoc: "bindO (bindO r f) g = bindO r (\<lambda>x. bindO (f x) g)"
  by (cases r) simp_all

subsection \<open>Buffers\<close>

definition buf_read :: "bytes \<Rightarrow> nat \<Rightarrow> nat \<Rightarrow> bytes outcome" where
  "buf_read buf off n =
     (if off + n \<le> length buf then Inr (take n (drop off buf)) else Inl OutOfBounds)"

definition buf_write :: "bytes \<Rightarrow> nat \<Rightarrow> bytes \<Rightarrow> bytes outcome" where
  "buf_write buf off xs =
     (if off + length xs \<le> length buf
      then Inr (take off buf @ xs @ drop (off + length xs) buf) else Inl OutOfBounds)"

lemma buf_write_length:
  assumes "buf_write buf off xs = Inr buf'"
  shows "length buf' = length buf"
  using assms by (auto simp: buf_write_def split: if_splits)

lemma buf_write_fits [simp]:
  assumes "off + length xs \<le> length buf"
  shows "buf_write buf off xs = Inr (take off buf @ xs @ drop (off + length xs) buf)"
  using assms by (simp add: buf_write_def)

lemma buf_write_mid:
  "length xs = off \<Longrightarrow> length ys = length zs \<Longrightarrow> buf_write (xs @ ys @ ws) off zs = Inr (xs @ zs @ ws)"
  by simp

text \<open>\<open>for (i = 0; i < n; i++) a[i] = a[i] ^ b[i];\<close>\<close>

definition xor_loop :: "nat \<Rightarrow> bytes \<Rightarrow> bytes \<Rightarrow> bytes" where
  "xor_loop n a b = map (\<lambda>i. a ! i XOR b ! i) [0..<n] @ drop n a"

lemma xor_loop_length [simp, len_simps]: "n \<le> length a \<Longrightarrow> length (xor_loop n a b) = length a"
  by (simp add: xor_loop_def)

lemma xor_loop_nth:
  assumes "i < length a" and "n \<le> length a"
  shows "xor_loop n a b ! i = (if i < n then a ! i XOR b ! i else a ! i)"
  using assms by (simp add: xor_loop_def nth_append)

lemma xor_loop_involutive:
  assumes "n \<le> length a"
  shows "xor_loop n (xor_loop n a b) b = a"
  using assms by (intro nth_equalityI) (auto simp: xor_loop_nth xor.assoc)

lemma xor_loop_swap:
  assumes "length a = n" and "length b = n"
  shows "xor_loop n a (xor_loop n a b) = b"
  using assms
  by (intro nth_equalityI) (auto simp: xor_loop_nth xor.assoc [symmetric])

lemma xor_loop_cong:
  assumes "length a = length a'" and "n \<le> length a"
    and "\<And>i. i < length a \<Longrightarrow> a ! i = a' ! i" and "\<And>i. i < n \<Longrightarrow> b ! i = b' ! i"
  shows "xor_loop n a b = xor_loop n a' b'"
  using assms by (intro nth_equalityI) (auto simp: xor_loop_nth)

lemma nth_overwrite:
  assumes "r \<le> length b" and "r \<le> i" and "i < length B"
  shows "(take r b @ drop r (B @ T)) ! i = B ! i"
proof -
  have "(take r b @ drop r (B @ T)) ! i = drop r (B @ T) ! (i - r)"
    using assms by (simp add: nth_append)
  also have "\<dots> = (B @ T) ! i"
    using assms by (subst nth_drop) simp_all
  finally show ?thesis
    using assms by (simp add: nth_append)
qed

subsection \<open>Numbers of byte strings\<close>

text \<open>
  The big-endian value of a byte string: what \<open>mpz_import (a, n, 1, 1, 0, 0, h)\<close> stores
  (most significant word first, words of one byte).
\<close>

fun be_val_acc :: "nat \<Rightarrow> bytes \<Rightarrow> nat" where
  "be_val_acc v [] = v"
| "be_val_acc v (b # bs) = be_val_acc (v * 256 + unat b) bs"

definition be_val :: "bytes \<Rightarrow> nat" where
  "be_val bs = be_val_acc 0 bs"

lemma unat_byte_less [simp]: "unat (b :: byte) < 256"
proof -
  have "unat b < 2 ^ LENGTH(8)"
    by (rule unsigned_less)
  then show ?thesis by simp
qed

lemma be_val_acc_eq: "be_val_acc v bs = v * 256 ^ length bs + be_val bs"
proof (induction bs arbitrary: v)
  case Nil
  then show ?case by (simp add: be_val_def)
next
  case (Cons b bs)
  show ?case
    using Cons.IH [of "v * 256 + unat b"] Cons.IH [of "unat b"]
    by (simp add: be_val_def algebra_simps)
qed

lemma be_val_Nil [simp]: "be_val [] = 0"
  by (simp add: be_val_def)

lemma be_val_Cons: "be_val (b # bs) = unat b * 256 ^ length bs + be_val bs"
  using be_val_acc_eq [of "unat b" bs] by (simp add: be_val_def)

lemma be_val_append: "be_val (xs @ ys) = be_val xs * 256 ^ length ys + be_val ys"
  by (induction xs) (simp_all add: be_val_Cons power_add algebra_simps)

lemma be_val_bound: "be_val bs < 256 ^ length bs"
proof (induction bs)
  case Nil
  then show ?case by simp
next
  case (Cons b bs)
  have "unat b * 256 ^ length bs + be_val bs < (unat b + 1) * 256 ^ length bs"
    using Cons by simp
  also have "\<dots> \<le> 256 * 256 ^ length bs"
    using unat_byte_less [of b] by (intro mult_right_mono) linarith+
  finally show ?case by (simp add: be_val_Cons)
qed

subsection \<open>Lists\<close>

lemma replicate_split:
  assumes "xs @ ys = replicate n c"
  shows "xs = replicate (length xs) c" and "ys = replicate (length ys) c"
    and "length xs + length ys = n"
proof -
  have "\<forall>x\<in>set (xs @ ys). x = c" unfolding assms by simp
  then show "xs = replicate (length xs) c" and "ys = replicate (length ys) c"
    by (simp_all add: replicate_length_same)
  show "length xs + length ys = n"
    using arg_cong [OF assms, of length] by simp
qed

subsection \<open>Ring buffers\<close>

lemma mod_window_neq:
  fixes i j n :: nat
  assumes "j < i" and "i < j + n"
  shows "j mod n \<noteq> i mod n"
proof
  assume "j mod n = i mod n"
  then have "n dvd i - j"
    using assms(1) mod_eq_dvd_iff_nat [of j i n] by simp
  then have "n \<le> i - j"
    using assms(1) by (intro dvd_imp_le) simp_all
  then show False using assms by simp
qed

subsection \<open>Counted loops\<close>

text \<open>\<open>for (i = m; i < n; i++)\<close> as a \<open>fold\<close>: an invariant indexed by the counter.\<close>

lemma fold_upt_invariant:
  assumes "P m s" and "\<And>i s. m \<le> i \<Longrightarrow> i < n \<Longrightarrow> P i s \<Longrightarrow> P (Suc i) (f i s)" and "m \<le> n"
  shows "P n (fold f [m..<n] s)"
  using assms(3,2)
proof (induction n)
  case 0
  then show ?case using assms(1) by simp
next
  case (Suc n)
  show ?case
  proof (cases "m = Suc n")
    case True
    then show ?thesis using assms(1) by simp
  next
    case False
    then have le: "m \<le> n" using Suc.prems by simp
    then have "P n (fold f [m..<n] s)"
      using Suc by simp
    then show ?thesis using le Suc.prems(2) [of n] by simp
  qed
qed

text \<open>The little-endian value of a byte string, and the bytes of a number.\<close>

fun le_bytes :: "nat \<Rightarrow> nat \<Rightarrow> bytes" where
  "le_bytes 0 n = []"
| "le_bytes (Suc k) n = of_nat n # le_bytes k (n div 256)"

fun le_val :: "bytes \<Rightarrow> nat" where
  "le_val [] = 0"
| "le_val (b # bs) = unat b + 256 * le_val bs"

lemma length_le_bytes [simp]: "length (le_bytes k n) = k"
  by (induction k arbitrary: n) simp_all

lemma le_val_bytes: "n < 256 ^ k \<Longrightarrow> le_val (le_bytes k n) = n"
proof (induction k arbitrary: n)
  case 0
  then show ?case by simp
next
  case (Suc k)
  have "n div 256 < 256 ^ k"
    using Suc.prems by (simp add: less_mult_imp_div_less mult.commute)
  then have "le_val (le_bytes k (n div 256)) = n div 256" by (rule Suc.IH)
  moreover have "unat (of_nat n :: byte) = n mod 256" by (simp add: unat_of_nat)
  ultimately show ?case by simp
qed

lemma le_val_bound: "le_val bs < 256 ^ length bs"
proof (induction bs)
  case (Cons b bs)
  have "unat b < 256" by (rule unat_byte_less)
  with Cons have "unat b + 256 * le_val bs < 256 * 256 ^ length bs" by linarith
  then show ?case by simp
qed simp

end
