(* ===== verification/Bf_Types.thy ===== *)
theory Bf_Types
  imports Prelude
begin

text \<open>
  The data of bfibe (\<open>bfibe/include/bfibe.h\<close>), the security levels
  (\<open>bfibe/src/security.c\<close>) and the interface to the libraries bfibe calls.

  PBC (curves and pairings) and the generated OpenSSL headers are not in the repository: what
  bfibe uses of them is the record \<open>lib\<close>, one field per library function, an argument of every
  definition that calls one. Random draws are arguments too (the record \<open>draws\<close>): the values the
  library's random functions return during the call. What the proofs rely on of the library are
  the predicates \<open>hash_laws\<close>, \<open>pairing_laws\<close>, \<open>wire_laws\<close> and \<open>text_laws\<close>.
\<close>

subsection \<open>Hash functions\<close>

text \<open>\<open>HashFn\<close> values: the five OpenSSL one-shot functions the code stores in the struct.\<close>

datatype hash_id = SHA1 | SHA224 | SHA256 | SHA384 | SHA512

text \<open>The \<open>SHA*_DIGEST_LENGTH\<close> constants.\<close>

fun digest_length :: "hash_id \<Rightarrow> nat" where
  "digest_length SHA1 = 20"
| "digest_length SHA224 = 28"
| "digest_length SHA256 = 32"
| "digest_length SHA384 = 48"
| "digest_length SHA512 = 64"

lemma digest_length_pos [simp]: "0 < digest_length h"
  by (cases h) simp_all

subsection \<open>The libraries\<close>

text \<open>
  \<open>'par\<close> is a \<open>pbc_param_t\<close> (and the \<open>pairing_t\<close> initialised from it), \<open>'g1\<close>, \<open>'g2\<close>, \<open>'gt\<close> are
  the elements of the three groups, \<open>'pp\<close> is a \<open>pairing_pp_t\<close>. Fields:
  \<^item> \<open>hash_fn\<close>: the digest the OpenSSL function writes;
  \<^item> \<open>par_r\<close>, \<open>par_h\<close>: the fields \<open>r\<close> (group order) and \<open>h\<close> (cofactor) of a type A parameter;
  \<^item> \<open>g1_*\<close>, \<open>g2_*\<close>, \<open>gt_*\<close>: \<open>element_mul_mpz\<close>, \<open>element_add\<close>, \<open>element_is0\<close>, \<open>element_cmp\<close>,
    \<open>element_pow_mpz\<close>, \<open>element_length_in_bytes\<close>, \<open>element_to_bytes\<close>, \<open>element_from_bytes\<close> (with
    the number of bytes it read), \<open>element_from_hash\<close>, the text of \<open>%B\<close> and of
    \<open>element_snprint\<close>, and \<open>element_set_str\<close> (0 and any element when it fails);
  \<^item> \<open>e_pair\<close>: \<open>element_pairing\<close>; \<open>pp_init\<close>, \<open>pp_apply\<close>: \<open>pairing_pp_init\<close>, \<open>pairing_pp_apply\<close>;
  \<^item> \<open>par_out_str\<close>, \<open>par_set_str\<close>: \<open>pbc_param_out_str\<close>, \<open>pbc_param_init_set_str\<close>.
\<close>

record ('par, 'g1, 'g2, 'gt, 'pp) lib =
  hash_fn :: "hash_id \<Rightarrow> bytes \<Rightarrow> bytes"
  par_r :: "'par \<Rightarrow> int"
  par_h :: "'par \<Rightarrow> int"
  g1_mul :: "'par \<Rightarrow> 'g1 \<Rightarrow> int \<Rightarrow> 'g1"
  g1_add :: "'par \<Rightarrow> 'g1 \<Rightarrow> 'g1 \<Rightarrow> 'g1"
  g1_is0 :: "'par \<Rightarrow> 'g1 \<Rightarrow> bool"
  g1_cmp :: "'par \<Rightarrow> 'g1 \<Rightarrow> 'g1 \<Rightarrow> int"
  g1_length :: "'par \<Rightarrow> nat"
  g1_to_bytes :: "'par \<Rightarrow> 'g1 \<Rightarrow> bytes"
  g1_from_bytes :: "'par \<Rightarrow> bytes \<Rightarrow> 'g1 \<times> nat"
  g1_str :: "'par \<Rightarrow> 'g1 \<Rightarrow> string"
  g1_set_str :: "'par \<Rightarrow> string \<Rightarrow> int \<Rightarrow> nat \<times> 'g1"
  g2_mul :: "'par \<Rightarrow> 'g2 \<Rightarrow> int \<Rightarrow> 'g2"
  g2_add :: "'par \<Rightarrow> 'g2 \<Rightarrow> 'g2 \<Rightarrow> 'g2"
  g2_from_hash :: "'par \<Rightarrow> bytes \<Rightarrow> 'g2"
  g2_str :: "'par \<Rightarrow> 'g2 \<Rightarrow> string"
  g2_set_str :: "'par \<Rightarrow> string \<Rightarrow> int \<Rightarrow> nat \<times> 'g2"
  gt_pow :: "'par \<Rightarrow> 'gt \<Rightarrow> int \<Rightarrow> 'gt"
  gt_to_bytes :: "'par \<Rightarrow> 'gt \<Rightarrow> bytes"
  e_pair :: "'par \<Rightarrow> 'g1 \<Rightarrow> 'g2 \<Rightarrow> 'gt"
  pp_init :: "'par \<Rightarrow> 'g1 \<Rightarrow> 'pp"
  pp_apply :: "'par \<Rightarrow> 'g2 \<Rightarrow> 'pp \<Rightarrow> 'gt"
  par_out_str :: "'par \<Rightarrow> string"
  par_set_str :: "string \<Rightarrow> 'par option"

text \<open>
  The random draws of a call: \<open>pbc_param_init_a_gen (rbits, qbits)\<close>, the successive results of
  \<open>element_random\<close>, \<open>pbc_mpz_random (limit)\<close>, and the return code of \<open>RAND_bytes\<close> with what it
  left in the buffer.
\<close>

record ('par, 'g1) draws =
  d_param :: "nat \<Rightarrow> nat \<Rightarrow> 'par"
  d_point :: "'par \<Rightarrow> nat \<Rightarrow> 'g1"
  d_mpz :: "int \<Rightarrow> int"
  d_bytes :: "nat \<Rightarrow> int \<times> bytes"

subsection \<open>The structs of bfibe.h\<close>

text \<open>\<open>BFSecurityLevel\<close>; \<open>hashfcn\<close> is \<open>None\<close> when the pointer is null (a zeroed struct).\<close>

record BFSecurityLevel =
  sec_level :: "8 word"
  n_p :: "32 word"
  n_q :: "32 word"
  hashlen :: nat
  hashfcn :: "hash_id option"

text \<open>
  \<open>BFPublicParameters\<close>; \<open>pairing\<close> is the \<open>pairing_t\<close>, kept as the parameter it was initialised
  from.
\<close>

record ('par, 'g1, 'pp) BFPublicParameters =
  security :: BFSecurityLevel
  pbc_par :: 'par
  pairing :: 'par
  bp_P :: 'g1
  bp_P_pub :: 'g1
  P_pub_precomp :: 'pp
  bp_q :: int

text \<open>\<open>BFMessage\<close>\<close>

record 'g1 BFMessage =
  msg_length :: nat
  msg_U :: 'g1
  msg_V :: bytes
  msg_W :: bytes

subsection \<open>security.c\<close>

text \<open>The struct the code gets from \<open>calloc\<close>.\<close>

definition zero_security :: BFSecurityLevel where
  "zero_security = \<lparr>sec_level = 0, n_p = 0, n_q = 0, hashlen = 0, hashfcn = None\<rparr>"

text \<open>
  \<open>setup_security\<close>: stores the level first, then the four fields of that level; an unknown level
  returns false with only the level stored.
\<close>

definition setup_security :: "BFSecurityLevel \<Rightarrow> 8 word \<Rightarrow> bool \<times> BFSecurityLevel" where
  "setup_security s level =
     (let s = s\<lparr>sec_level := level\<rparr> in
      if level = 1 then
        (True, s\<lparr>n_p := 512, n_q := 160, hashlen := digest_length SHA1, hashfcn := Some SHA1\<rparr>)
      else if level = 2 then
        (True, s\<lparr>n_p := 1024, n_q := 224, hashlen := digest_length SHA224,
                hashfcn := Some SHA224\<rparr>)
      else if level = 3 then
        (True, s\<lparr>n_p := 1536, n_q := 256, hashlen := digest_length SHA256,
                hashfcn := Some SHA256\<rparr>)
      else if level = 4 then
        (True, s\<lparr>n_p := 3840, n_q := 384, hashlen := digest_length SHA384,
                hashfcn := Some SHA384\<rparr>)
      else if level = 5 then
        (True, s\<lparr>n_p := 7680, n_q := 512, hashlen := digest_length SHA512,
                hashfcn := Some SHA512\<rparr>)
      else (False, s))"

text \<open>A security record that a successful \<open>setup_security\<close> produces.\<close>

definition sec_wf :: "BFSecurityLevel \<Rightarrow> bool" where
  "sec_wf s \<longleftrightarrow> (\<exists>h. hashfcn s = Some h \<and> hashlen s = digest_length h \<and>
      unat (n_q s) \<le> 8 * digest_length h \<and> n_q s < n_p s \<and> sec_level s \<in> {1, 2, 3, 4, 5})"

lemma sec_wfE:
  assumes "sec_wf s"
  obtains h where "hashfcn s = Some h" and "hashlen s = digest_length h" and "0 < hashlen s"
  using assms by (auto simp: sec_wf_def)

lemma setup_security_wf:
  assumes "setup_security s level = (True, s')"
  shows "sec_wf s'" and "sec_level s' = level"
  using assms by (auto simp: setup_security_def sec_wf_def Let_def split: if_splits)

lemma setup_security_fails:
  "fst (setup_security s level) = False \<longleftrightarrow> level \<notin> {1, 2, 3, 4, 5}"
  by (auto simp: setup_security_def Let_def)

text \<open>The result depends on the level alone, so reloading a level restores the whole record.\<close>

lemma setup_security_canonical:
  assumes "setup_security s level = (True, s')" and "setup_security t level = (True, t')"
    and "BFSecurityLevel.more s = BFSecurityLevel.more t"
  shows "s' = t'"
  using assms
  by (auto simp: setup_security_def Let_def split: if_splits intro!: BFSecurityLevel.equality)

subsection \<open>What is assumed of the libraries\<close>

text \<open>Every hash function writes exactly its digest length.\<close>

definition hash_laws :: "('par, 'g1, 'g2, 'gt, 'pp) lib \<Rightarrow> bool" where
  "hash_laws L \<longleftrightarrow> (\<forall>h x. length (hash_fn L h x) = digest_length h)"

text \<open>
  The pairing of one parameter: bilinearity for the scalar multiplications the code performs,
  the preprocessed pairing computes the pairing, and \<open>element_cmp\<close> is 0 exactly on equal
  elements.
\<close>

definition pairing_laws :: "('par, 'g1, 'g2, 'gt, 'pp) lib \<Rightarrow> 'par \<Rightarrow> bool" where
  "pairing_laws L c \<longleftrightarrow>
     (\<forall>X Y n. 0 \<le> n \<longrightarrow> e_pair L c (g1_mul L c X n) Y = gt_pow L c (e_pair L c X Y) n) \<and>
     (\<forall>X Y n. 0 \<le> n \<longrightarrow> e_pair L c X (g2_mul L c Y n) = gt_pow L c (e_pair L c X Y) n) \<and>
     (\<forall>X Y. pp_apply L c Y (pp_init L c X) = e_pair L c X Y) \<and>
     (\<forall>X Y. g1_cmp L c X Y = 0 \<longleftrightarrow> X = Y)"

lemma pairing_lawsD:
  assumes "pairing_laws L c"
  shows "0 \<le> n \<Longrightarrow> e_pair L c (g1_mul L c X n) Y = gt_pow L c (e_pair L c X Y) n"
    and "0 \<le> n \<Longrightarrow> e_pair L c X (g2_mul L c Y n) = gt_pow L c (e_pair L c X Y) n"
    and "pp_apply L c Y (pp_init L c X) = e_pair L c X Y"
    and "g1_cmp L c X Z = 0 \<longleftrightarrow> X = Z"
  using assms by (simp_all add: pairing_laws_def)

lemma hash_lawsD: "hash_laws L \<Longrightarrow> length (hash_fn L h x) = digest_length h"
  by (simp add: hash_laws_def)

end
