(* ===== verification/Bf_Sample.thy ===== *)
theory Bf_Sample
  imports Bf_Types
begin

text \<open>
  A concrete instance of the libraries, small enough to compute with, on which the witnesses of
  the properties are evaluated: the three groups are the bytes under addition (so the pairing is
  multiplication modulo 256), the digests are checksums padded to their length, and elements are
  printed as two hexadecimal digits. It satisfies every law the properties assume.
\<close>

definition sample_digest :: "hash_id \<Rightarrow> bytes \<Rightarrow> bytes" where
  "sample_digest h x =
     (let v = foldl (\<lambda>a b. 3 * a + b) (7 + of_nat (length x)) x
      in map (\<lambda>i. v + of_nat i) [0..<digest_length h])"

definition nibble_char :: "nat \<Rightarrow> char" where
  "nibble_char k = char_of (if k < 10 then 48 + k else 87 + k)"

definition char_nibble :: "char \<Rightarrow> nat" where
  "char_nibble c = (let k = of_char c in if k < 58 then k - 48 else k - 87)"

definition sample_str :: "unit \<Rightarrow> byte \<Rightarrow> string" where
  "sample_str c x = [nibble_char (unat x div 16), nibble_char (unat x mod 16)]"

definition sample_set_str :: "unit \<Rightarrow> string \<Rightarrow> int \<Rightarrow> nat \<times> byte" where
  "sample_set_str c s base =
     (case s of a # b # _ \<Rightarrow> (2, of_nat (char_nibble a * 16 + char_nibble b)) | _ \<Rightarrow> (0, 0))"

definition sample_lib :: "(unit, byte, byte, byte, byte) lib" where
  "sample_lib = \<lparr>hash_fn = sample_digest, par_r = (\<lambda>_. 251), par_h = (\<lambda>_. 12),
     g1_mul = (\<lambda>_ x n. x * of_int n), g1_add = (\<lambda>_ x y. x + y), g1_is0 = (\<lambda>_ x. x = 0),
     g1_cmp = (\<lambda>_ x y. if x = y then 0 else 1), g1_length = (\<lambda>_. 1), g1_to_bytes = (\<lambda>_ x. [x]),
     g1_from_bytes = (\<lambda>_ bs. (case bs of [] \<Rightarrow> 0 | b # _ \<Rightarrow> b, 1)),
     g1_str = sample_str, g1_set_str = sample_set_str,
     g2_mul = (\<lambda>_ x n. x * of_int n), g2_add = (\<lambda>_ x y. x + y),
     g2_from_hash = (\<lambda>_ bs. case bs of [] \<Rightarrow> 1 | b # _ \<Rightarrow> b),
     g2_str = sample_str, g2_set_str = sample_set_str,
     gt_pow = (\<lambda>_ x n. x * of_int n), gt_to_bytes = (\<lambda>_ x. [x, x]),
     e_pair = (\<lambda>_ x y. x * y), pp_init = (\<lambda>_ x. x), pp_apply = (\<lambda>_ y p. p * y),
     par_out_str = (\<lambda>_. ''type a''), par_set_str = (\<lambda>s. if s = [] then None else Some ())\<rparr>"

definition sample_draws :: "(unit, byte) draws" where
  "sample_draws = \<lparr>d_param = (\<lambda>_ _. ()), d_point = (\<lambda>_ i. of_nat i), d_mpz = (\<lambda>n. if 3 < n then 3 else 0),
     d_bytes = (\<lambda>n. (1, map of_nat [0..<n]))\<rparr>"

definition sample_security :: "BFSecurityLevel" where
  "sample_security = snd (setup_security zero_security 1)"

definition sample_params :: "(unit, byte, byte) BFPublicParameters" where
  "sample_params = \<lparr>security = sample_security, pbc_par = (), pairing = (), bp_P = 12,
     bp_P_pub = 60, P_pub_precomp = 60, bp_q = 251\<rparr>"

lemma sample_hash_laws: "hash_laws sample_lib"
  by (simp add: hash_laws_def sample_lib_def sample_digest_def Let_def)

lemma sample_pairing_laws: "pairing_laws sample_lib c"
  by (simp add: pairing_laws_def sample_lib_def mult.assoc mult.commute mult.left_commute)

lemma sample_security_simps [simp]:
  "hashfcn sample_security = Some SHA1" "hashlen sample_security = 20"
  "sec_level sample_security = 1" "sec_wf sample_security"
  by (simp_all add: sample_security_def setup_security_def zero_security_def sec_wf_def)

lemma sample_params_simps [simp]:
  "security sample_params = sample_security" "pbc_par sample_params = ()"
  "pairing sample_params = ()" "bp_P sample_params = 12" "bp_P_pub sample_params = 60"
  "P_pub_precomp sample_params = 60" "bp_q sample_params = 251"
  by (simp_all add: sample_params_def)

lemma sample_lib_simps [simp]:
  "par_r sample_lib c = 251" "par_h sample_lib c = 12"
  "g1_mul sample_lib c x n = x * of_int n" "g1_add sample_lib c x y = x + y"
  "g1_is0 sample_lib c x \<longleftrightarrow> x = 0" "g1_cmp sample_lib c x y = (if x = y then 0 else 1)"
  "g1_length sample_lib c = 1" "g1_to_bytes sample_lib c x = [x]"
  "g2_mul sample_lib c x n = x * of_int n" "g2_add sample_lib c x y = x + y"
  "gt_pow sample_lib c x n = x * of_int n" "gt_to_bytes sample_lib c x = [x, x]"
  "e_pair sample_lib c x y = x * y" "pp_init sample_lib c x = x" "pp_apply sample_lib c y x = x * y"
  "hash_fn sample_lib = sample_digest"
  by (simp_all add: sample_lib_def)

lemma sample_draws_simps [simp]:
  "d_bytes sample_draws n = (1, map of_nat [0..<n])"
  "d_mpz sample_draws z = (if 3 < z then 3 else 0)" "d_point sample_draws c i = of_nat i"
  by (simp_all add: sample_draws_def)

end
