(* ===== verification/Bf_Hash.thy ===== *)
theory Bf_Hash
  imports Bf_Types Bf_Sample
begin

text \<open>
  \<open>bfibe/src/hash.c\<close>: the three hash functions of RFC 5091 that bfibe builds on a digest, with
  their buffers. \<open>hash_to_bytes\<close> is modelled on the caller's buffer, since its last block is
  copied to the start of that buffer and not behind the blocks already there.
  The locale \<open>digest_fn\<close> is the interface of a digest (a fixed, positive output length); the
  reference functions \<open>range_spec\<close> and \<open>bytes_spec\<close> are RFC 5091's HashToRange and HashBytes.
\<close>

subsection \<open>The code\<close>

text \<open>
  \<open>hashfcn (input, len, buf)\<close>: the digest is written to the start of \<open>buf\<close>; the pointer may be
  null, and the buffer may be too short for the digest.
\<close>

definition hash_into ::
  "('par, 'g1, 'g2, 'gt, 'pp) lib \<Rightarrow> BFSecurityLevel \<Rightarrow> bytes \<Rightarrow> bytes \<Rightarrow> bytes outcome" where
  "hash_into L s buf input =
     (case hashfcn s of None \<Rightarrow> Inl NullDeref | Some h \<Rightarrow> buf_write buf 0 (hash_fn L h input))"

text \<open>A local array \<open>uint8_t a[n]\<close>; its initial bytes are never read before they are written.\<close>

definition local_buf :: "nat \<Rightarrow> bytes" where
  "local_buf n = replicate n 0"

definition hash_to_point ::
  "('par, 'g1, 'g2, 'gt, 'pp) lib \<Rightarrow> ('par, 'g1, 'pp) BFPublicParameters \<Rightarrow> bytes \<Rightarrow> 'g2 outcome"
where
  "hash_to_point L params input =
     bindO (hash_into L (security params) (local_buf (hashlen (security params))) input)
       (\<lambda>md. Inr (g2_from_hash L (pairing params) md))"

text \<open>The loop of \<open>hash_to_range\<close>, \<open>k\<close> iterations to go; \<open>mpz_import\<close> is \<open>be_val\<close>.\<close>

fun hash_range_loop ::
  "('par, 'g1, 'g2, 'gt, 'pp) lib \<Rightarrow> BFSecurityLevel \<Rightarrow> bytes \<Rightarrow> nat \<Rightarrow> bytes \<Rightarrow> int \<Rightarrow> int outcome"
where
  "hash_range_loop L s input 0 h v = Inr v"
| "hash_range_loop L s input (Suc k) h v =
     bindO (hash_into L s h (take (hashlen s) h @ input))
       (\<lambda>h. hash_range_loop L s input k h
              (v * 256 ^ hashlen s + int (be_val (take (hashlen s) h))))"

text \<open>\<open>mpz_mod\<close> aborts on a zero modulus and otherwise returns the non-negative remainder.\<close>

definition mpz_mod_int :: "int \<Rightarrow> int \<Rightarrow> int outcome" where
  "mpz_mod_int v q = (if q = 0 then Inl DivByZero else Inr (v mod \<bar>q\<bar>))"

definition hash_to_range ::
  "('par, 'g1, 'g2, 'gt, 'pp) lib \<Rightarrow> ('par, 'g1, 'pp) BFPublicParameters \<Rightarrow> bytes \<Rightarrow> int \<Rightarrow>
     int outcome"
where
  "hash_to_range L params input q =
     (let s = security params in
      bindO (hash_range_loop L s input 2 (replicate (hashlen s) 0) 0) (\<lambda>v. mpz_mod_int v q))"

text \<open>
  The loop of \<open>hash_to_bytes\<close>. With a hash length of 0 and bytes still to produce, an iteration
  changes nothing and the C loop never ends (\<open>NoReturn\<close>).
\<close>

function hash_bytes_loop ::
  "('par, 'g1, 'g2, 'gt, 'pp) lib \<Rightarrow> BFSecurityLevel \<Rightarrow> bytes \<Rightarrow> bytes \<Rightarrow> bytes \<Rightarrow> bytes \<Rightarrow> nat \<Rightarrow>
     nat \<Rightarrow> bytes outcome"
where
  "hash_bytes_loop L s K h r result copied remaining =
     (if remaining = 0 then Inr result
      else bindO (hash_into L s h h) (\<lambda>h.
           bindO (hash_into L s r (take (hashlen s) h @ take (hashlen s) K)) (\<lambda>r.
           if remaining > hashlen s then
             (if hashlen s = 0 then Inl NoReturn
              else bindO (buf_write result copied (take (hashlen s) r)) (\<lambda>result.
                   hash_bytes_loop L s K h r result (copied + hashlen s)
                     (remaining - hashlen s)))
           else
             bindO (buf_write result 0 (take remaining r)) (\<lambda>result.
             hash_bytes_loop L s K h r result (copied + remaining) 0))))"
  by pat_completeness auto
termination
  by (relation "measure (\<lambda>(L, s, K, h, r, result, copied, remaining). remaining)") auto

declare hash_bytes_loop.simps [simp del]

definition hash_to_bytes ::
  "('par, 'g1, 'g2, 'gt, 'pp) lib \<Rightarrow> ('par, 'g1, 'pp) BFPublicParameters \<Rightarrow> bytes \<Rightarrow> nat \<Rightarrow> bytes \<Rightarrow>
     bytes outcome"
where
  "hash_to_bytes L params result outlen seed =
     (let s = security params in
      bindO (hash_into L s (local_buf (hashlen s)) seed) (\<lambda>K.
      hash_bytes_loop L s K (replicate (hashlen s) 0) (local_buf (hashlen s)) result 0 outlen))"

subsection \<open>RFC 5091\<close>

text \<open>HashToRange with a digest \<open>H\<close> of \<open>n\<close> bytes: two rounds, accumulated in base \<open>256 ^ n\<close>.\<close>

definition range_spec :: "(bytes \<Rightarrow> bytes) \<Rightarrow> nat \<Rightarrow> bytes \<Rightarrow> int \<Rightarrow> int" where
  "range_spec H n input q =
     (let h1 = H (replicate n 0 @ input); h2 = H (h1 @ input)
      in int (be_val (h1 @ h2)) mod \<bar>q\<bar>)"

text \<open>HashBytes: the chain \<open>h_i\<close>, the blocks \<open>r_i = H (h_i @ K)\<close>, and their concatenation.\<close>

fun hb_chain :: "(bytes \<Rightarrow> bytes) \<Rightarrow> nat \<Rightarrow> nat \<Rightarrow> bytes" where
  "hb_chain H n 0 = replicate n 0"
| "hb_chain H n (Suc i) = H (hb_chain H n i)"

definition hb_block :: "(bytes \<Rightarrow> bytes) \<Rightarrow> nat \<Rightarrow> bytes \<Rightarrow> nat \<Rightarrow> bytes" where
  "hb_block H n K i = H (hb_chain H n (Suc i) @ K)"

definition hb_blocks :: "(bytes \<Rightarrow> bytes) \<Rightarrow> nat \<Rightarrow> bytes \<Rightarrow> nat \<Rightarrow> nat \<Rightarrow> bytes" where
  "hb_blocks H n K i k = concat (map (hb_block H n K) [i..<i + k])"

definition bytes_spec :: "(bytes \<Rightarrow> bytes) \<Rightarrow> nat \<Rightarrow> bytes \<Rightarrow> nat \<Rightarrow> bytes" where
  "bytes_spec H n seed outlen = take outlen (hb_blocks H n (H seed) 0 (outlen div n + 1))"

text \<open>
  What the code leaves in \<open>result\<close>: all blocks but the last in their places, then the last one
  over the start. \<open>full_blocks\<close> is the number of blocks that the loop copies to their places.
\<close>

definition full_blocks :: "nat \<Rightarrow> nat \<Rightarrow> nat" where
  "full_blocks n outlen = (outlen - 1) div n"

definition overwritten :: "(bytes \<Rightarrow> bytes) \<Rightarrow> nat \<Rightarrow> bytes \<Rightarrow> bytes \<Rightarrow> nat \<Rightarrow> bytes" where
  "overwritten H n K result outlen =
     (let m = full_blocks n outlen; rest = outlen - m * n
      in take rest (hb_block H n K m) @ drop rest (hb_blocks H n K 0 m @ drop (m * n) result))"

subsection \<open>The digest interface\<close>

locale digest_fn =
  fixes H :: "bytes \<Rightarrow> bytes" and n :: nat
  assumes digest_len: "length (H x) = n" and digest_pos: "0 < n"
begin

lemma length_hb_chain: "length (hb_chain H n i) = n"
  by (cases i) (simp_all add: digest_len)

lemma length_hb_block: "length (hb_block H n K i) = n"
  by (simp add: hb_block_def digest_len)

lemma length_hb_blocks: "length (hb_blocks H n K i k) = k * n"
  by (induction k) (simp_all add: hb_blocks_def length_hb_block)

lemma hb_blocks_Suc: "hb_blocks H n K i (Suc k) = hb_block H n K i @ hb_blocks H n K (Suc i) k"
proof -
  have "[i..<i + Suc k] = i # [Suc i..<Suc i + k]"
    by (simp add: upt_conv_Cons del: upt_Suc)
  then show ?thesis by (simp only: hb_blocks_def list.map concat.simps)
qed

lemma hb_blocks_0: "hb_blocks H n K i 0 = []"
  by (simp add: hb_blocks_def)

lemma hb_blocks_add: "hb_blocks H n K i (k + m) = hb_blocks H n K i k @ hb_blocks H n K (i + k) m"
proof (induction k arbitrary: i)
  case 0
  then show ?case by (simp add: hb_blocks_0)
next
  case (Suc k)
  then show ?case by (simp add: hb_blocks_Suc)
qed

lemma length_bytes_spec: "length (bytes_spec H n seed k) = k"
proof -
  have "k mod n < n" and "k div n * n + k mod n = k"
    using digest_pos by simp_all
  then have "k \<le> (k div n + 1) * n"
    unfolding add_mult_distrib by linarith
  then show ?thesis
    by (simp add: bytes_spec_def length_hb_blocks)
qed

lemma range_spec_bounds: "q \<noteq> 0 \<Longrightarrow> 0 \<le> range_spec H n x q \<and> range_spec H n x q < \<bar>q\<bar>"
  by (simp add: range_spec_def Let_def)

lemma full_blocks_small: "k \<le> n \<Longrightarrow> full_blocks n k = 0"
  using digest_pos by (auto simp: full_blocks_def div_eq_0_iff)

lemma full_blocks_step: "n < k \<Longrightarrow> full_blocks n k = Suc (full_blocks n (k - n))"
proof -
  assume "n < k"
  then have k: "k - 1 = (k - n - 1) + n" by linarith
  have "(k - n - 1 + n) div n = (k - n - 1) div n + 1"
    by (rule div_add_self2) (use digest_pos in simp)
  then show ?thesis unfolding full_blocks_def k by simp
qed

text \<open>The last block holds between 1 and \<open>n\<close> bytes.\<close>

lemma full_blocks_rest:
  assumes "0 < k"
  shows "full_blocks n k * n < k" and "k \<le> full_blocks n k * n + n"
proof -
  have "(k - 1) div n * n \<le> k - 1" by simp
  then show "full_blocks n k * n < k"
    unfolding full_blocks_def using assms by linarith
  have "k - 1 = (k - 1) div n * n + (k - 1) mod n" and "(k - 1) mod n < n"
    using digest_pos by simp_all
  then show "k \<le> full_blocks n k * n + n"
    unfolding full_blocks_def using assms by linarith
qed

lemma overwritten_small:
  assumes "0 < k" and "k \<le> n" and "length result = k"
  shows "overwritten H n (H seed) result k = bytes_spec H n seed k"
proof -
  have "take k (hb_blocks H n (H seed) 0 (k div n + 1)) = take k (hb_block H n (H seed) 0)"
    using assms(2) by (simp add: hb_blocks_Suc length_hb_block)
  then show ?thesis
    using assms by (simp add: overwritten_def bytes_spec_def full_blocks_small hb_blocks_0)
qed

lemma length_overwritten:
  assumes "k \<le> length result"
  shows "length (overwritten H n K result k) = length result"
proof (cases "k = 0")
  case True
  then show ?thesis by (simp add: overwritten_def full_blocks_def hb_blocks_def)
next
  case False
  with full_blocks_rest [of k] assms show ?thesis
    by (simp add: overwritten_def Let_def length_hb_block length_hb_blocks)
qed

text \<open>Between the overwritten start and the last full block the bytes are those of HashBytes.\<close>

lemma overwritten_middle:
  assumes "length result = k" and "k - full_blocks n k * n \<le> i" and "i < full_blocks n k * n"
    and "full_blocks n k * n < k" and "k \<le> full_blocks n k * n + n"
  shows "overwritten H n (H seed) result k ! i = bytes_spec H n seed k ! i"
proof -
  define m where "m = full_blocks n k"
  have i: "k - m * n \<le> i" "i < m * n" and m: "m * n < k" "k \<le> m * n + n"
    using assms(2-5) by (simp_all add: m_def)
  have q: "m \<le> k div n + 1"
    using m(1) digest_pos div_le_mono [of "m * n" k n] by simp
  then obtain j where j: "k div n + 1 = m + j"
    using le_Suc_ex by blast
  have "overwritten H n (H seed) result k ! i = hb_blocks H n (H seed) 0 m ! i"
    unfolding overwritten_def Let_def m_def [symmetric]
    by (rule nth_overwrite) (use i m in \<open>simp_all add: length_hb_block length_hb_blocks\<close>)
  moreover have "bytes_spec H n seed k ! i = hb_blocks H n (H seed) 0 m ! i"
    using i m unfolding bytes_spec_def j hb_blocks_add
    by (simp add: nth_append length_hb_blocks)
  ultimately show ?thesis by simp
qed

text \<open>For at most one block the old contents of the buffer do not matter.\<close>

lemma overwritten_one_block:
  assumes "k \<le> n" and "length result = k" and "length result' = k"
  shows "overwritten H n K result k = overwritten H n K result' k"
  using assms by (simp add: overwritten_def full_blocks_small hb_blocks_0)

lemma overwritten_tail:
  assumes "n < k"
  shows "drop (full_blocks n k * n) (overwritten H n K result k) = drop (full_blocks n k * n) result"
proof -
  define m where "m = full_blocks n k"
  have m: "n \<le> m * n" and rest: "k - m * n \<le> n"
    using full_blocks_step [OF assms] full_blocks_rest [of k] assms by (simp_all add: m_def)
  then have le: "k - m * n \<le> m * n" by linarith
  have "length (take (k - m * n) (hb_block H n K m)) = k - m * n"
    using rest by (simp add: length_hb_block)
  moreover have "length (hb_blocks H n K 0 m) = m * n"
    by (rule length_hb_blocks)
  ultimately show ?thesis
    unfolding overwritten_def Let_def m_def [symmetric] using le by (simp add: drop_drop)
qed

end

lemma digest_fn_lib:
  assumes "hash_laws L"
  shows "digest_fn (hash_fn L h) (digest_length h)"
  using assms by unfold_locales (simp_all add: hash_laws_def)

subsection \<open>The code computes these functions\<close>

lemma hash_into_ok:
  assumes "hash_laws L" and "hashfcn s = Some h" and "hashlen s = digest_length h"
    and "length buf = hashlen s"
  shows "hash_into L s buf x = Inr (hash_fn L h x)"
  using assms by (simp add: hash_into_def hash_lawsD)

lemma hash_range_loop_two:
  assumes "hash_laws L" and "hashfcn s = Some h" and "hashlen s = digest_length h"
  shows "hash_range_loop L s x 2 (replicate (hashlen s) 0) 0 =
    (let h1 = hash_fn L h (replicate (hashlen s) 0 @ x); h2 = hash_fn L h (h1 @ x)
     in Inr (int (be_val (h1 @ h2))))"
  using assms
  by (simp add: numeral_2_eq_2 hash_into_ok hash_lawsD Let_def be_val_append)

lemma hash_to_range_eq:
  assumes "hash_laws L" and "hashfcn (security params) = Some h"
    and "hashlen (security params) = digest_length h"
  shows "hash_to_range L params x q =
    (if q = 0 then Inl DivByZero
     else Inr (range_spec (hash_fn L h) (digest_length h) x q))"
  using hash_range_loop_two [OF assms]
  by (simp add: hash_to_range_def assms range_spec_def mpz_mod_int_def Let_def)

lemma hash_bytes_loop_eq:
  assumes L: "hash_laws L" and s: "hashfcn s = Some hid" "hashlen s = digest_length hid"
    and H: "H = hash_fn L hid" and n: "n = digest_length hid"
    and K: "length K = n"
  shows "length r = n \<Longrightarrow> copied + remaining \<le> length result \<Longrightarrow> 0 < remaining \<Longrightarrow>
    hash_bytes_loop L s K (hb_chain H n i) r result copied remaining =
    (let m = full_blocks n remaining; rest = remaining - m * n
     in Inr (take rest (hb_block H n K (i + m)) @
          drop rest (take copied result @ hb_blocks H n K i m @ drop (copied + m * n) result)))"
proof (induction remaining arbitrary: i r result copied rule: less_induct)
  case (less remaining)
  have D: "digest_fn H n"
    using L digest_fn_lib [of L hid] by (simp add: H n)
  note len = digest_fn.length_hb_chain [OF D] digest_fn.length_hb_block [OF D]
    digest_fn.length_hb_blocks [OF D]
  have n0: "0 < n" and sn: "hashlen s = n" by (simp_all add: n s)
  have ok: "hash_into L s buf x = Inr (H x)" if "length buf = n" for buf x
    using hash_into_ok [OF L s] that by (simp add: s H n)
  have step: "hash_into L s (hb_chain H n i) (hb_chain H n i) = Inr (hb_chain H n (Suc i))"
    using ok by (simp add: len)
  have block: "hash_into L s r (take n (hb_chain H n (Suc i)) @ take n K) =
      Inr (hb_block H n K i)"
    using ok less.prems(1) K by (simp add: len hb_block_def del: hb_chain.simps)
  show ?case
  proof (cases "n < remaining")
    case False
    then have fb: "full_blocks n remaining = 0"
      by (simp add: digest_fn.full_blocks_small [OF D])
    have "buf_write result 0 (take remaining (hb_block H n K i)) =
        Inr (take remaining (hb_block H n K i) @ drop remaining result)"
      using False less.prems(2) by (simp add: len)
    then show ?thesis
      using False less.prems(3)
      by (subst hash_bytes_loop.simps)
         (simp add: step block sn fb digest_fn.hb_blocks_0 [OF D] hash_bytes_loop.simps [of _ _ _ _ _ _ _ 0]
           del: hb_chain.simps drop_append)
  next
    case True
    define result' where "result' = take copied result @ hb_block H n K i @ drop (copied + n) result"
    define m where "m = full_blocks n (remaining - n)"
    have w: "buf_write result copied (take n (hb_block H n K i)) = Inr result'"
      using True less.prems(2) by (simp add: len result'_def)
    have fb: "full_blocks n remaining = Suc m"
      using True by (simp add: m_def digest_fn.full_blocks_step [OF D])
    have IH: "hash_bytes_loop L s K (hb_chain H n (Suc i)) (hb_block H n K i) result'
          (copied + n) (remaining - n) =
        (let m = full_blocks n (remaining - n); rest = remaining - n - m * n
         in Inr (take rest (hb_block H n K (Suc i + m)) @
              drop rest (take (copied + n) result' @ hb_blocks H n K (Suc i) m @
                drop (copied + n + m * n) result')))"
      using True n0 less.prems(2)
      by (intro less.IH) (simp_all add: len result'_def)
    have t: "take (copied + n) result' = take copied result @ hb_block H n K i"
      and d: "drop (copied + n + m * n) result' = drop (copied + Suc m * n) result"
      using True less.prems(2) by (simp_all add: result'_def len ac_simps)
    have E: "take (copied + n) result' @ hb_blocks H n K (Suc i) m @
          drop (copied + n + m * n) result' =
        take copied result @ hb_blocks H n K i (Suc m) @ drop (copied + Suc m * n) result"
      unfolding t d digest_fn.hb_blocks_Suc [OF D] by simp
    have k: "remaining - n - m * n = remaining - Suc m * n" and si: "Suc i + m = i + Suc m"
      by simp_all
    note IH' = IH [unfolded Let_def, folded m_def, unfolded E k si]
    show ?thesis
      using True n0 less.prems(3)
      by (subst hash_bytes_loop.simps)
         (simp add: step block sn w fb IH' Let_def
           del: hb_chain.simps drop_append drop_drop mult_Suc add_Suc_right)
  qed
qed

lemma overwritten_0: "overwritten H n K result 0 = result"
  by (simp add: overwritten_def full_blocks_def hb_blocks_def)

lemma hash_to_bytes_eq:
  assumes "hash_laws L" and "hashfcn (security params) = Some h"
    and "hashlen (security params) = digest_length h" and "outlen \<le> length result"
  shows "hash_to_bytes L params result outlen seed =
    Inr (overwritten (hash_fn L h) (digest_length h) (hash_fn L h seed) result outlen)"
proof (cases "outlen = 0")
  case True
  then show ?thesis
    using hash_into_ok [OF assms(1-3), of "local_buf (hashlen (security params))"]
    by (simp add: hash_to_bytes_def local_buf_def Let_def overwritten_0
      hash_bytes_loop.simps [of _ _ _ _ _ _ _ 0])
next
  case False
  have K: "length (hash_fn L h seed) = digest_length h"
    using assms(1) by (rule hash_lawsD)
  have "hash_bytes_loop L (security params) (hash_fn L h seed)
      (hb_chain (hash_fn L h) (digest_length h) 0) (local_buf (digest_length h)) result 0 outlen =
      Inr (overwritten (hash_fn L h) (digest_length h) (hash_fn L h seed) result outlen)"
    using hash_bytes_loop_eq [OF assms(1-3) refl refl K, where r = "local_buf (digest_length h)"
        and copied = 0 and remaining = outlen and result = result and i = 0] assms(4) False
    by (simp add: overwritten_def Let_def local_buf_def)
  then show ?thesis
    using hash_into_ok [OF assms(1-3), of "local_buf (digest_length h)"]
    by (simp add: hash_to_bytes_def assms(3) local_buf_def)
qed

subsection \<open>Properties\<close>

text \<open>
  C20: \<open>hash_to_range\<close> is HashToRange of RFC 5091 (two rounds of the digest, accumulated in base
  \<open>256 ^ hashlen\<close>, reduced modulo \<open>q\<close>): for a non-zero modulus the result is in the range and for
  the zero modulus the call divides by zero. (The modulus is the group order, which is positive.)
\<close>

theorem hash_to_range_rfc5091:
  assumes "hash_laws L" and "hashfcn (security params) = Some h"
    and "hashlen (security params) = digest_length h"
  shows "(q = 0 \<longrightarrow> hash_to_range L params x q = Inl DivByZero) \<and>
    (q \<noteq> 0 \<longrightarrow> hash_to_range L params x q = Inr (range_spec (hash_fn L h) (digest_length h) x q) \<and>
       0 \<le> range_spec (hash_fn L h) (digest_length h) x q \<and>
       range_spec (hash_fn L h) (digest_length h) x q < \<bar>q\<bar>)"
  using hash_to_range_eq [OF assms]
    digest_fn.range_spec_bounds [OF digest_fn_lib [OF assms(1), of h], of q x]
  by simp

theorem hash_to_range_rfc5091_witness:
  "hash_to_range sample_lib sample_params [1, 2, 3] 251 =
     Inr (range_spec (sample_digest SHA1) 20 [1, 2, 3] 251) \<and>
   range_spec (sample_digest SHA1) 20 [1, 2, 3] 251 < 251"
  using hash_to_range_rfc5091 [of sample_lib sample_params SHA1 251 "[1, 2, 3]"]
  by (simp add: sample_hash_laws)

text \<open>
  C18: what \<open>hash_to_bytes\<close> leaves in the caller's buffer. Up to one digest of output it is HashBytes
  of RFC 5091. Beyond that the blocks
  before the last one are copied to their places, but the last block overwrites the start of the buffer, and the
  bytes behind the last full block keep what the caller had there.
\<close>

theorem hash_to_bytes_blocks:
  assumes "hash_laws L" and "hashfcn (security params) = Some h"
    and "hashlen (security params) = digest_length h" and "length result = outlen" and "0 < outlen"
  shows "\<exists>r. hash_to_bytes L params result outlen seed = Inr r \<and> length r = outlen \<and>
    (if outlen \<le> digest_length h
     then r = bytes_spec (hash_fn L h) (digest_length h) seed outlen
     else let m = full_blocks (digest_length h) outlen; rest = outlen - m * digest_length h;
              K = hash_fn L h seed
          in take rest r = take rest (hb_block (hash_fn L h) (digest_length h) K m) \<and>
             (\<forall>i. rest \<le> i \<and> i < m * digest_length h \<longrightarrow>
                r ! i = bytes_spec (hash_fn L h) (digest_length h) seed outlen ! i) \<and>
             drop (m * digest_length h) r = drop (m * digest_length h) result)"
proof -
  define H n where "H = hash_fn L h" and "n = digest_length h"
  define m where "m = full_blocks n outlen"
  define r where "r = overwritten H n (H seed) result outlen"
  have D: "digest_fn H n"
    using digest_fn_lib [OF assms(1)] by (simp add: H_def n_def)
  have eq: "hash_to_bytes L params result outlen seed = Inr r"
    using hash_to_bytes_eq [OF assms(1-3)] assms(4) by (simp add: r_def H_def n_def)
  have len: "length r = outlen"
    using digest_fn.length_overwritten [OF D] assms(4) by (simp add: r_def)
  note rest = digest_fn.full_blocks_rest [OF D assms(5), folded m_def]
  have head: "take (outlen - m * n) r = take (outlen - m * n) (hb_block H n (H seed) m)"
    using rest by (simp add: r_def overwritten_def m_def [symmetric] Let_def
        digest_fn.length_hb_block [OF D])
  have small: "r = bytes_spec H n seed outlen" if "outlen \<le> n"
    using digest_fn.overwritten_small [OF D assms(5) that assms(4)] by (simp add: r_def)
  have mid: "r ! i = bytes_spec H n seed outlen ! i"
    if i: "outlen - m * n \<le> i" "i < m * n" for i
    using digest_fn.overwritten_middle [OF D assms(4), folded m_def, of i seed] i rest
    by (simp add: r_def)
  have tail: "drop (m * n) r = drop (m * n) result" if "n < outlen"
    using digest_fn.overwritten_tail [OF D that] by (simp add: r_def m_def)
  show ?thesis
    using eq len head small mid tail
    unfolding H_def [symmetric] n_def [symmetric] m_def [symmetric] Let_def
    by (intro exI [of _ r]) auto
qed

theorem hash_to_bytes_blocks_witness:
  "\<exists>r. hash_to_bytes sample_lib sample_params (replicate 30 7) 30 [5] = Inr r \<and> drop 20 r = replicate 10 7"
proof -
  have "full_blocks 20 30 = 1" by (simp add: full_blocks_def)
  then show ?thesis
    using hash_to_bytes_blocks [of sample_lib sample_params SHA1 "replicate 30 7" 30 "[5]"]
    by (auto simp: sample_hash_laws Let_def)
qed

end
