(* ===== verification/Bf_Ibe.thy ===== *)
theory Bf_Ibe
  imports Bf_Hash Bf_Sample
begin

text \<open>
  \<open>bfibe/src/bfibe.c\<close>: setup, shards, keys, encryption and decryption of the Boneh-Franklin
  scheme, each function with the branches of the code. Elements and parameters are values of the
  library (\<open>lib\<close>); the fields of a struct that a call does not write keep their incoming value.
\<close>

subsection \<open>Setup\<close>

text \<open>
  The \<open>do ... while\<close> loop of \<open>bf_setup\<close>: \<open>i\<close> counts the calls of \<open>element_random\<close>. Nothing bounds
  the number of iterations, so the loop is a partial function.
\<close>

partial_function (option) find_generator ::
  "('par, 'g1, 'g2, 'gt, 'pp) lib \<Rightarrow> ('par, 'g1) draws \<Rightarrow> 'par \<Rightarrow> nat \<Rightarrow> 'g1 option"
where
  "find_generator L D c i =
     (let X = g1_mul L c (d_point D c i) (par_h L c)
      in if g1_is0 L c X then find_generator L D c (Suc i) else Some X)"

text \<open>\<open>bf_generate_shard\<close>: returns the updated parameters and the secret \<open>s\<close>.\<close>

definition bf_generate_shard ::
  "('par, 'g1, 'g2, 'gt, 'pp) lib \<Rightarrow> ('par, 'g1) draws \<Rightarrow> ('par, 'g1, 'pp) BFPublicParameters \<Rightarrow>
     ('par, 'g1, 'pp) BFPublicParameters \<times> int"
where
  "bf_generate_shard L D params =
     (let smax = bp_q params - 2;
          s = d_mpz D smax + 2;
          pub = g1_mul L (pairing params) (bp_P params) s
      in (params\<lparr>bp_P_pub := pub, P_pub_precomp := pp_init L (pairing params) pub\<rparr>, s))"

text \<open>
  \<open>bf_setup\<close>: the outer option is \<open>None\<close> when the search for a generator never ends; otherwise the
  return value, the parameters and the secret (the incoming one when the call fails).
\<close>

definition bf_setup ::
  "('par, 'g1, 'g2, 'gt, 'pp) lib \<Rightarrow> ('par, 'g1) draws \<Rightarrow> ('par, 'g1, 'pp) BFPublicParameters \<Rightarrow>
     int \<Rightarrow> 8 word \<Rightarrow> (bool \<times> ('par, 'g1, 'pp) BFPublicParameters \<times> int) option"
where
  "bf_setup L D params s security_level =
     (case setup_security (security params) security_level of
        (False, sec) \<Rightarrow> Some (False, params\<lparr>security := sec\<rparr>, s)
      | (True, sec) \<Rightarrow>
          (let c = d_param D (unat (n_q sec)) (unat (n_p sec));
               params = params\<lparr>security := sec, pbc_par := c, pairing := c, bp_q := par_r L c\<rparr>
           in case find_generator L D c 0 of
                None \<Rightarrow> None
              | Some X \<Rightarrow>
                  (let (params, s) = bf_generate_shard L D (params\<lparr>bp_P := X\<rparr>)
                   in Some (True, params, s))))"

subsection \<open>Keys\<close>

text \<open>\<open>char *\<close> identifiers: \<open>strlen\<close> and the bytes up to the terminating zero.\<close>

definition bf_generate_public_key ::
  "('par, 'g1, 'g2, 'gt, 'pp) lib \<Rightarrow> ('par, 'g1, 'pp) BFPublicParameters \<Rightarrow> bytes \<Rightarrow> 'g2 outcome"
where
  "bf_generate_public_key L params identifier = hash_to_point L params identifier"

definition bf_generate_private_key ::
  "('par, 'g1, 'g2, 'gt, 'pp) lib \<Rightarrow> ('par, 'g1, 'pp) BFPublicParameters \<Rightarrow> int \<Rightarrow> bytes \<Rightarrow>
     'g2 outcome"
where
  "bf_generate_private_key L params s identifier =
     bindO (hash_to_point L params identifier) (\<lambda>k. Inr (g2_mul L (pairing params) k s))"

subsection \<open>Encryption\<close>

text \<open>
  \<open>bf_encrypt\<close> on the message \<open>m\<close> (its length is \<open>len\<close>). \<open>Inr None\<close> is the null pointer returned
  when \<open>RAND_bytes\<close> returns 0; any other return code is taken as success.
\<close>

definition bf_encrypt ::
  "('par, 'g1, 'g2, 'gt, 'pp) lib \<Rightarrow> ('par, 'g1) draws \<Rightarrow> ('par, 'g1, 'pp) BFPublicParameters \<Rightarrow>
     'g2 \<Rightarrow> bytes \<Rightarrow> 'g1 BFMessage option outcome"
where
  "bf_encrypt L D params public_key m =
     (let sec = security params; c = pairing params; len = length m; hlen = hashlen sec;
          (rc, rho) = d_bytes D hlen
      in if rc = 0 then Inr None
         else
           bindO (hash_into L sec (local_buf hlen) m) (\<lambda>t.
           bindO (hash_to_range L params (take hlen rho @ take hlen t) (bp_q params)) (\<lambda>l.
           let U = g1_mul L c (bp_P params) l;
               theta = gt_pow L c (pp_apply L c public_key (P_pub_precomp params)) l;
               z = gt_to_bytes L c theta
           in bindO (hash_into L sec (replicate hlen 0) z) (\<lambda>V.
              bindO (hash_to_bytes L params (replicate len 0) len (take hlen rho)) (\<lambda>W.
              Inr (Some \<lparr>msg_length = len, msg_U = U, msg_V = xor_loop hlen V rho,
                         msg_W = xor_loop len W m\<rparr>))))))"

subsection \<open>Decryption\<close>

text \<open>
  \<open>bf_decrypt\<close> on the caller's buffer \<open>out\<close>: the return value and the buffer. The check of step 9
  clears the buffer when it fails.
\<close>

definition bf_decrypt ::
  "('par, 'g1, 'g2, 'gt, 'pp) lib \<Rightarrow> bytes \<Rightarrow> ('par, 'g1, 'pp) BFPublicParameters \<Rightarrow> 'g2 \<Rightarrow>
     'g1 BFMessage \<Rightarrow> (bool \<times> bytes) outcome"
where
  "bf_decrypt L out params private_key message =
     (let sec = security params; c = pairing params; hlen = hashlen sec; len = msg_length message;
          theta = e_pair L c (msg_U message) private_key;
          z = gt_to_bytes L c theta
      in bindO (hash_into L sec (local_buf hlen) z) (\<lambda>w.
         let w = xor_loop hlen w (msg_V message)
         in bindO (hash_to_bytes L params out len w) (\<lambda>out.
            let out = xor_loop len out (msg_W message)
            in bindO (hash_into L sec (local_buf hlen) (take len out)) (\<lambda>t.
               bindO (hash_to_range L params (take hlen w @ take hlen t) (bp_q params)) (\<lambda>l.
               let lP = g1_mul L c (bp_P params) l
               in if g1_cmp L c (msg_U message) lP \<noteq> 0
                  then Inr (False, replicate len 0 @ drop len out)
                  else Inr (True, out))))))"

subsection \<open>Well-formed parameters and messages\<close>

text \<open>What \<open>bf_setup\<close>, \<open>bf_generate_shard\<close> and the importers establish.\<close>

definition params_wf ::
  "('par, 'g1, 'g2, 'gt, 'pp) lib \<Rightarrow> ('par, 'g1, 'pp) BFPublicParameters \<Rightarrow> bool"
where
  "params_wf L params \<longleftrightarrow> sec_wf (security params) \<and> pairing params = pbc_par params \<and>
     bp_q params = par_r L (pbc_par params) \<and>
     P_pub_precomp params = pp_init L (pairing params) (bp_P_pub params)"

definition msg_wf ::
  "('par, 'g1, 'pp) BFPublicParameters \<Rightarrow> 'g1 BFMessage \<Rightarrow> bool"
where
  "msg_wf params msg \<longleftrightarrow> length (msg_V msg) = hashlen (security params) \<and>
     length (msg_W msg) = msg_length msg"

lemma params_wfE:
  assumes "params_wf L params"
  obtains h where "hashfcn (security params) = Some h"
    and "hashlen (security params) = digest_length h" and "0 < hashlen (security params)"
    and "P_pub_precomp params = pp_init L (pairing params) (bp_P_pub params)"
  using assms by (auto simp: params_wf_def elim: sec_wfE)

subsection \<open>Closed forms\<close>

text \<open>
  The scalar, the mask and the ciphertext that the session randomness \<open>rho\<close> determines, in terms
  of RFC 5091's functions and of the buffer that \<open>hash_to_bytes\<close> leaves.
\<close>

definition scalar_of ::
  "('par, 'g1, 'g2, 'gt, 'pp) lib \<Rightarrow> ('par, 'g1, 'pp) BFPublicParameters \<Rightarrow> hash_id \<Rightarrow> bytes \<Rightarrow>
     bytes \<Rightarrow> int"
where
  "scalar_of L params h rho m =
     range_spec (hash_fn L h) (digest_length h) (rho @ hash_fn L h m) (bp_q params)"

definition mask_of ::
  "('par, 'g1, 'g2, 'gt, 'pp) lib \<Rightarrow> hash_id \<Rightarrow> bytes \<Rightarrow> bytes \<Rightarrow> nat \<Rightarrow> bytes"
where
  "mask_of L h rho buf len =
     overwritten (hash_fn L h) (digest_length h) (hash_fn L h rho) buf len"

definition ct_of ::
  "('par, 'g1, 'g2, 'gt, 'pp) lib \<Rightarrow> ('par, 'g1, 'pp) BFPublicParameters \<Rightarrow> hash_id \<Rightarrow> 'g2 \<Rightarrow>
     bytes \<Rightarrow> bytes \<Rightarrow> 'g1 BFMessage"
where
  "ct_of L params h pk rho m =
     (let c = pairing params; l = scalar_of L params h rho m;
          z = gt_to_bytes L c (gt_pow L c (pp_apply L c pk (P_pub_precomp params)) l)
      in \<lparr>msg_length = length m, msg_U = g1_mul L c (bp_P params) l,
          msg_V = xor_loop (digest_length h) (hash_fn L h z) rho,
          msg_W = xor_loop (length m) (mask_of L h rho (replicate (length m) 0) (length m)) m\<rparr>)"

lemma scalar_of_nonneg: "bp_q params \<noteq> 0 \<Longrightarrow> 0 \<le> scalar_of L params h rho m"
  by (simp add: scalar_of_def range_spec_def Let_def)

lemma length_mask_of:
  "hash_laws L \<Longrightarrow> len \<le> length buf \<Longrightarrow> length (mask_of L h rho buf len) = length buf"
  by (simp add: mask_of_def digest_fn.length_overwritten [OF digest_fn_lib])

lemma bf_encrypt_eq:
  assumes L: "hash_laws L" and h: "hashfcn (security params) = Some h"
    "hashlen (security params) = digest_length h" and q: "bp_q params \<noteq> 0"
    and d: "d_bytes D (digest_length h) = (rc, rho)" and rho: "length rho = digest_length h"
  shows "bf_encrypt L D params pk m =
    (if rc = 0 then Inr None else Inr (Some (ct_of L params h pk rho m)))"
  using hash_into_ok [OF L h] hash_to_range_eq [OF L h] hash_to_bytes_eq [OF L h]
  by (simp add: bf_encrypt_def Let_def h d rho q local_buf_def hash_lawsD [OF L] ct_of_def
      scalar_of_def mask_of_def)

lemma bf_decrypt_eq:
  assumes L: "hash_laws L" and h: "hashfcn (security params) = Some h"
    "hashlen (security params) = digest_length h" and q: "bp_q params \<noteq> 0"
    and out: "length out = msg_length msg"
  shows "bf_decrypt L out params sk msg =
    (let c = pairing params; len = msg_length msg;
         rho = xor_loop (digest_length h)
                 (hash_fn L h (gt_to_bytes L c (e_pair L c (msg_U msg) sk))) (msg_V msg);
         m = xor_loop len (mask_of L h rho out len) (msg_W msg)
     in if g1_cmp L c (msg_U msg) (g1_mul L c (bp_P params) (scalar_of L params h rho m)) \<noteq> 0
        then Inr (False, replicate len 0) else Inr (True, m))"
proof -
  have len: "length (mask_of L h rho out (msg_length msg)) = msg_length msg" for rho
    using out by (simp add: length_mask_of [OF L])
  show ?thesis
    using hash_into_ok [OF L h] hash_to_range_eq [OF L h] hash_to_bytes_eq [OF L h] len out
    by (simp add: bf_decrypt_def Let_def h q local_buf_def hash_lawsD [OF L] scalar_of_def
        mask_of_def)
qed

subsection \<open>The search for a generator\<close>

lemma find_generator_Some:
  assumes ret: "find_generator L D c i = Some X"
  shows "\<exists>j\<ge>i. X = g1_mul L c (d_point D c j) (par_h L c) \<and> \<not> g1_is0 L c X"
proof (rule find_generator.raw_induct [where
      P = "\<lambda>L D c i X. \<exists>j\<ge>i. X = g1_mul L c (d_point D c j) (par_h L c) \<and> \<not> g1_is0 L c X",
      OF _ ret])
  fix f L D c i X
  assume IH: "\<And>L D c i X. f L D c i = Some X \<Longrightarrow>
      \<exists>j\<ge>i. X = g1_mul L c (d_point D c j) (par_h L c) \<and> \<not> g1_is0 L c X"
    and eq: "(let X = g1_mul L c (d_point D c i) (par_h L c)
      in if g1_is0 L c X then f L D c (Suc i) else Some X) = Some X"
  show "\<exists>j\<ge>i. X = g1_mul L c (d_point D c j) (par_h L c) \<and> \<not> g1_is0 L c X"
  proof (cases "g1_is0 L c (g1_mul L c (d_point D c i) (par_h L c))")
    case True
    then have "f L D c (Suc i) = Some X"
      using eq by (simp add: Let_def)
    then have "\<exists>j\<ge>Suc i. X = g1_mul L c (d_point D c j) (par_h L c) \<and> \<not> g1_is0 L c X"
      by (rule IH)
    then show ?thesis
      by (metis Suc_leD)
  next
    case False
    then show ?thesis
      using eq by (auto simp: Let_def)
  qed
qed

lemma find_generator_returns:
  assumes "i \<le> j" and "\<not> g1_is0 L c (g1_mul L c (d_point D c j) (par_h L c))"
  shows "\<exists>X. find_generator L D c i = Some X"
  using assms
proof (induction "j - i" arbitrary: i)
  case 0
  then show ?case by (subst find_generator.simps) (simp add: Let_def)
next
  case (Suc k)
  from Suc.hyps(2) have "k = j - Suc i" and "Suc i \<le> j" by simp_all
  then have "\<exists>X. find_generator L D c (Suc i) = Some X"
    using Suc.prems(2) by (rule Suc.hyps(1))
  then show ?case by (subst find_generator.simps) (simp add: Let_def)
qed

lemma find_generator_None:
  "find_generator L D c i = None \<longleftrightarrow>
     (\<forall>j\<ge>i. g1_is0 L c (g1_mul L c (d_point D c j) (par_h L c)))"
proof
  assume "find_generator L D c i = None"
  then show "\<forall>j\<ge>i. g1_is0 L c (g1_mul L c (d_point D c j) (par_h L c))"
    using find_generator_returns [of i _ L c D] by fastforce
next
  assume all: "\<forall>j\<ge>i. g1_is0 L c (g1_mul L c (d_point D c j) (par_h L c))"
  show "find_generator L D c i = None"
  proof (cases "find_generator L D c i")
    case (Some X)
    with find_generator_Some [OF Some] all show ?thesis by blast
  qed simp
qed

lemma bf_setup_cases:
  "bf_setup L D params s level =
    (let sec = snd (setup_security (security params) level);
         c = d_param D (unat (n_q sec)) (unat (n_p sec))
     in if level \<notin> {1, 2, 3, 4, 5} then Some (False, params\<lparr>security := sec\<rparr>, s)
        else map_option (\<lambda>X. (True, bf_generate_shard L D
               (params\<lparr>security := sec, pbc_par := c, pairing := c, bp_q := par_r L c, bp_P := X\<rparr>)))
             (find_generator L D c 0))"
proof -
  obtain b sec where b: "setup_security (security params) level = (b, sec)"
    by (cases "setup_security (security params) level")
  have "b \<longleftrightarrow> level \<in> {1, 2, 3, 4, 5}"
    using setup_security_fails [of "security params" level] b by auto
  then show ?thesis
    unfolding bf_setup_def b
    by (cases b) (auto simp: Let_def split: option.split prod.split)
qed

lemma bf_generate_shard_wf:
  assumes "bf_generate_shard L D params = (params', s)"
    and "sec_wf (security params)" and "pairing params = pbc_par params"
    and "bp_q params = par_r L (pbc_par params)"
  shows "params_wf L params'" and "bp_P params' = bp_P params" and "bp_q params' = bp_q params"
    and "security params' = security params" and "pairing params' = pairing params"
    and "bp_P_pub params' = g1_mul L (pairing params) (bp_P params) s"
    and "s = d_mpz D (bp_q params - 2) + 2"
  using assms by (auto simp: bf_generate_shard_def params_wf_def Let_def)

subsection \<open>Keys and session keys\<close>

definition id_point ::
  "('par, 'g1, 'g2, 'gt, 'pp) lib \<Rightarrow> ('par, 'g1, 'pp) BFPublicParameters \<Rightarrow> hash_id \<Rightarrow> bytes \<Rightarrow> 'g2"
where
  "id_point L params h ident = g2_from_hash L (pairing params) (hash_fn L h ident)"

lemma hash_to_point_eq:
  assumes "hash_laws L" and "hashfcn (security params) = Some h"
    and "hashlen (security params) = digest_length h"
  shows "hash_to_point L params ident = Inr (id_point L params h ident)"
  using hash_into_ok [OF assms] by (simp add: hash_to_point_def local_buf_def id_point_def)

lemma session_key_agrees:
  assumes "pairing_laws L (pairing params)"
    and "P_pub_precomp params = pp_init L (pairing params) (bp_P_pub params)"
    and "bp_P_pub params = g1_mul L (pairing params) (bp_P params) s"
    and "0 \<le> s" and "0 \<le> l"
  shows "e_pair L (pairing params) (g1_mul L (pairing params) (bp_P params) l)
      (g2_mul L (pairing params) Q s) =
    gt_pow L (pairing params) (pp_apply L (pairing params) Q (P_pub_precomp params)) l"
proof -
  let ?c = "pairing params"
  note laws = pairing_lawsD [OF assms(1)]
  have "e_pair L ?c (g1_mul L ?c (bp_P params) l) (g2_mul L ?c Q s) =
      gt_pow L ?c (gt_pow L ?c (e_pair L ?c (bp_P params) Q) s) l"
    by (subst laws(1) [OF assms(5)], subst laws(2) [OF assms(4)], rule refl)
  moreover have "pp_apply L ?c Q (P_pub_precomp params) =
      gt_pow L ?c (e_pair L ?c (bp_P params) Q) s"
    unfolding assms(2,3) laws(3) laws(1) [OF assms(4)] ..
  ultimately show ?thesis by simp
qed

text \<open>
  The buffer into which \<open>bf_decrypt\<close> writes must be zero behind the blocks that
  \<open>hash_to_bytes\<close> copies to their places; that is no condition for at most one block.
\<close>

definition clean_buffer :: "nat \<Rightarrow> bytes \<Rightarrow> bool" where
  "clean_buffer n out \<longleftrightarrow> length out \<le> n \<or> out = replicate (length out) 0"

lemma mask_of_clean:
  assumes "hash_laws L" and "clean_buffer (digest_length h) out"
  shows "mask_of L h rho out (length out) =
    mask_of L h rho (replicate (length out) 0) (length out)"
proof (cases "length out \<le> digest_length h")
  case True
  show ?thesis
    unfolding mask_of_def
    by (rule digest_fn.overwritten_one_block [OF digest_fn_lib [OF assms(1)] True]) simp_all
next
  case False
  with assms(2) have "replicate (length out) 0 = out"
    by (simp add: clean_buffer_def)
  then show ?thesis by simp
qed

text \<open>Decrypting a ciphertext of known session randomness.\<close>

lemma bf_decrypt_ct_of:
  assumes L: "hash_laws L" and pl: "pairing_laws L (pairing params)"
    and wf: "params_wf L params" and q: "bp_q params \<noteq> 0"
    and pub: "bp_P_pub params = g1_mul L (pairing params) (bp_P params) s" and s: "0 \<le> s"
    and h: "hashfcn (security params) = Some h"
    and rho: "length rho = digest_length h"
    and out: "length out = length m" "clean_buffer (digest_length h) out"
  shows "bf_decrypt L out params (g2_mul L (pairing params) Q s) (ct_of L params h Q rho m) =
    Inr (True, m)"
proof -
  have hl: "hashlen (security params) = digest_length h"
    and pre: "P_pub_precomp params = pp_init L (pairing params) (bp_P_pub params)"
    using wf h by (auto elim: params_wfE)
  note agree = session_key_agrees [OF pl pre pub s scalar_of_nonneg [OF q]]
  have key: "xor_loop (digest_length h) (hash_fn L h z)
      (xor_loop (digest_length h) (hash_fn L h z) rho) = rho" for z
    using rho by (intro xor_loop_swap) (simp_all add: hash_lawsD [OF L])
  have mask: "mask_of L h rho out (length m) = mask_of L h rho (replicate (length m) 0) (length m)"
    using mask_of_clean [OF L out(2)] out(1) by simp
  have plain: "xor_loop (length m) (mask_of L h rho (replicate (length m) 0) (length m))
      (xor_loop (length m) (mask_of L h rho (replicate (length m) 0) (length m)) m) = m"
    by (intro xor_loop_swap) (simp_all add: length_mask_of [OF L])
  show ?thesis
    using out(1)
    by (subst bf_decrypt_eq [OF L h hl q])
       (simp_all add: ct_of_def Let_def key mask plain agree pairing_lawsD(4) [OF pl])
qed

text \<open>What an accepted ciphertext looks like.\<close>

lemma bf_decrypt_accepted:
  assumes L: "hash_laws L" and pl: "pairing_laws L (pairing params)"
    and wf: "params_wf L params" and q: "bp_q params \<noteq> 0"
    and pub: "bp_P_pub params = g1_mul L (pairing params) (bp_P params) s" and s: "0 \<le> s"
    and h: "hashfcn (security params) = Some h" and msg: "msg_wf params msg"
    and out: "length out = msg_length msg" "clean_buffer (digest_length h) out"
    and acc: "bf_decrypt L out params (g2_mul L (pairing params) Q s) msg = Inr (True, m)"
  obtains rho where "length rho = digest_length h" and "msg = ct_of L params h Q rho m"
proof -
  have hl: "hashlen (security params) = digest_length h"
    and pre: "P_pub_precomp params = pp_init L (pairing params) (bp_P_pub params)"
    using wf h by (auto elim: params_wfE)
  define c where "c = pairing params"
  define z where "z = gt_to_bytes L c (e_pair L c (msg_U msg) (g2_mul L c Q s))"
  define rho where "rho = xor_loop (digest_length h) (hash_fn L h z) (msg_V msg)"
  have V: "length (msg_V msg) = digest_length h" and W: "length (msg_W msg) = msg_length msg"
    using msg hl by (simp_all add: msg_wf_def)
  have m: "m = xor_loop (msg_length msg) (mask_of L h rho out (msg_length msg)) (msg_W msg)"
    and U: "msg_U msg = g1_mul L c (bp_P params) (scalar_of L params h rho m)"
    using acc unfolding bf_decrypt_eq [OF L h hl q out(1)]
    by (auto simp: Let_def c_def rho_def z_def pairing_lawsD(4) [OF pl] split: if_splits)
  have lm: "length m = msg_length msg"
    using out(1) by (simp add: m length_mask_of [OF L])
  have z': "z = gt_to_bytes L c (gt_pow L c (pp_apply L c Q (P_pub_precomp params))
      (scalar_of L params h rho m))"
    using session_key_agrees [OF pl pre pub s scalar_of_nonneg [OF q, of L h rho m], of Q]
    by (simp add: z_def U c_def)
  have "xor_loop (digest_length h) (hash_fn L h z) rho = msg_V msg"
    unfolding rho_def using V by (intro xor_loop_swap) (simp_all add: hash_lawsD [OF L])
  moreover have "xor_loop (length m) (mask_of L h rho (replicate (length m) 0) (length m)) m =
      msg_W msg"
  proof -
    have "mask_of L h rho (replicate (length m) 0) (length m) = mask_of L h rho out (msg_length msg)"
      using mask_of_clean [OF L out(2), of rho] out(1) lm by simp
    moreover have "xor_loop (msg_length msg) (mask_of L h rho out (msg_length msg))
        (xor_loop (msg_length msg) (mask_of L h rho out (msg_length msg)) (msg_W msg)) = msg_W msg"
      using W out(1) by (intro xor_loop_swap) (simp_all add: length_mask_of [OF L])
    ultimately show ?thesis by (simp add: lm m [symmetric])
  qed
  ultimately have "msg = ct_of L params h Q rho m"
    using lm U by (intro BFMessage.equality) (simp_all add: ct_of_def Let_def c_def [symmetric] z')
  moreover have "length rho = digest_length h"
    by (simp add: rho_def hash_lawsD [OF L])
  ultimately show ?thesis by (rule that [rotated])
qed

subsection \<open>Properties\<close>

lemma sample_params_wf: "params_wf sample_lib sample_params"
  by (simp add: params_wf_def)

lemma sample_encrypt:
  "bf_encrypt sample_lib sample_draws sample_params pk m =
    Inr (Some (ct_of sample_lib sample_params SHA1 pk (map of_nat [0..<20]) m))"
  by (subst bf_encrypt_eq [OF sample_hash_laws, where h = SHA1 and rc = 1])
     simp_all

lemma msg_wf_ct_of:
  assumes "hash_laws L" and "hashlen (security params) = digest_length h"
  shows "msg_wf params (ct_of L params h Q rho m)" and "msg_length (ct_of L params h Q rho m) = length m"
  using assms by (simp_all add: msg_wf_def ct_of_def Let_def hash_lawsD length_mask_of)

text \<open>
  C1: decryption inverts encryption. For parameters whose \<open>P_pub\<close> is \<open>[s]P\<close>, a private key made
  from the secret \<open>s\<close> for an identifier opens whatever \<open>bf_encrypt\<close> made for that identifier's public
  key: \<open>bf_decrypt\<close> returns true and the output buffer holds the message. The buffer has the
  message's length and, for messages longer than one hash block, is zeroed by the caller.
\<close>

theorem bf_decrypt_encrypt:
  assumes "hash_laws L" and "pairing_laws L (pairing params)" and "params_wf L params"
    and "bp_q params \<noteq> 0"
    and "bp_P_pub params = g1_mul L (pairing params) (bp_P params) s" and "0 \<le> s"
    and "bf_generate_public_key L params ident = Inr pk"
    and "bf_generate_private_key L params s ident = Inr sk"
    and "length (snd (d_bytes D (hashlen (security params)))) = hashlen (security params)"
    and "bf_encrypt L D params pk m = Inr (Some msg)"
    and "length out = length m" and "clean_buffer (hashlen (security params)) out"
  shows "bf_decrypt L out params sk msg = Inr (True, m)"
proof -
  obtain h where h: "hashfcn (security params) = Some h"
    "hashlen (security params) = digest_length h"
    using assms(3) by (rule params_wfE)
  have "sk = g2_mul L (pairing params) pk s"
    using assms(7,8) hash_to_point_eq [OF assms(1) h]
    by (simp add: bf_generate_public_key_def bf_generate_private_key_def)
  moreover obtain rc rho where d: "d_bytes D (digest_length h) = (rc, rho)"
    by (cases "d_bytes D (digest_length h)")
  moreover have rho: "length rho = digest_length h"
    using assms(9) d h by simp
  moreover have "msg = ct_of L params h pk rho m"
    using assms(10) bf_encrypt_eq [OF assms(1) h assms(4) d rho] by (auto split: if_splits)
  ultimately show ?thesis
    using bf_decrypt_ct_of [OF assms(1-6) h(1) rho assms(11)] assms(12) h by simp
qed

theorem bf_decrypt_encrypt_witness:
  "bf_decrypt sample_lib (replicate 30 0) sample_params
     (g2_mul sample_lib () (id_point sample_lib sample_params SHA1 [97, 98]) 5)
     (ct_of sample_lib sample_params SHA1 (id_point sample_lib sample_params SHA1 [97, 98])
       (map of_nat [0..<20]) (replicate 30 7)) = Inr (True, replicate 30 7)"
  by (rule bf_decrypt_encrypt [OF sample_hash_laws sample_pairing_laws sample_params_wf,
        where ident = "[97, 98]" and s = 5 and D = sample_draws
          and pk = "id_point sample_lib sample_params SHA1 [97, 98]"])
     (simp_all add: bf_generate_public_key_def bf_generate_private_key_def
       hash_to_point_eq [OF sample_hash_laws] sample_encrypt clean_buffer_def)

text \<open>
  C3: for a message longer than the digest, the end of the ciphertext body \<open>W\<close> is the plaintext
  itself: the bytes from the last block boundary on are not masked, since \<open>hash_to_bytes\<close> copies the
  last block over the start of its buffer. At least one byte leaks.
\<close>

theorem bf_encrypt_leaks_tail:
  assumes "hash_laws L" and "params_wf L params" and "bp_q params \<noteq> 0"
    and "length (snd (d_bytes D (hashlen (security params)))) = hashlen (security params)"
    and "bf_encrypt L D params pk m = Inr (Some msg)"
    and "hashlen (security params) < length m"
  shows "let k = full_blocks (hashlen (security params)) (length m) * hashlen (security params)
    in drop k (msg_W msg) = drop k m \<and> k < length m"
proof -
  obtain h where h: "hashfcn (security params) = Some h"
    "hashlen (security params) = digest_length h"
    using assms(2) by (rule params_wfE)
  obtain rc rho where d: "d_bytes D (digest_length h) = (rc, rho)"
    by (cases "d_bytes D (digest_length h)")
  then have rho: "length rho = digest_length h"
    using assms(4) h by simp
  have msg: "msg = ct_of L params h pk rho m"
    using assms(5) bf_encrypt_eq [OF assms(1) h assms(3) d rho] by (auto split: if_splits)
  note D = digest_fn_lib [OF assms(1), of h]
  define k where "k = full_blocks (digest_length h) (length m) * digest_length h"
  have lt: "digest_length h < length m" and pos: "0 < length m"
    using assms(6) h by auto
  have "drop k (mask_of L h rho (replicate (length m) 0) (length m)) = replicate (length m - k) 0"
    using digest_fn.overwritten_tail [OF D lt, of "hash_fn L h rho" "replicate (length m) 0"]
    by (simp add: mask_of_def k_def)
  then have "mask_of L h rho (replicate (length m) 0) (length m) ! (k + i) = 0"
    if "k + i < length m" for i
    using nth_drop [of k "mask_of L h rho (replicate (length m) 0) (length m)" i] that
    by (simp add: length_mask_of [OF assms(1)])
  then have "drop k (msg_W msg) = drop k m"
    by (intro nth_equalityI)
       (auto simp: msg ct_of_def Let_def xor_loop_nth length_mask_of [OF assms(1)])
  moreover have "k < length m"
    using digest_fn.full_blocks_rest(1) [OF D pos] by (simp add: k_def)
  ultimately show ?thesis
    by (simp add: Let_def k_def h)
qed

theorem bf_encrypt_leaks_tail_witness:
  "let k = full_blocks 20 30 * 20
   in drop k (msg_W (ct_of sample_lib sample_params SHA1 9 (map of_nat [0..<20]) (replicate 30 7))) =
      drop k (replicate 30 7) \<and> k < 30"
  using bf_encrypt_leaks_tail [OF sample_hash_laws sample_params_wf, where D = sample_draws,
      OF _ _ sample_encrypt [of 9 "replicate 30 7"]]
  by simp

text \<open>
  C5: decryption accepts nothing but encryptions. A ciphertext of the right shape that
  \<open>bf_decrypt\<close> accepts with the private key \<open>[s]Q\<close>, into a zeroed buffer, is exactly what \<open>bf_encrypt\<close>
  makes of the returned plaintext for the public key \<open>Q\<close> with some session randomness.
\<close>

theorem bf_decrypt_accepts_encryptions:
  assumes "hash_laws L" and "pairing_laws L (pairing params)" and "params_wf L params"
    and "bp_q params \<noteq> 0"
    and "bp_P_pub params = g1_mul L (pairing params) (bp_P params) s" and "0 \<le> s"
    and "msg_wf params msg"
    and "bf_decrypt L (replicate (msg_length msg) 0) params (g2_mul L (pairing params) Q s) msg =
      Inr (True, m)"
  shows "\<exists>rho. length rho = hashlen (security params) \<and>
    (\<forall>D. d_bytes D (hashlen (security params)) = (1, rho) \<longrightarrow>
       bf_encrypt L D params Q m = Inr (Some msg))"
proof -
  obtain h where h: "hashfcn (security params) = Some h"
    "hashlen (security params) = digest_length h"
    using assms(3) by (rule params_wfE)
  obtain rho where rho: "length rho = digest_length h" "msg = ct_of L params h Q rho m"
    using bf_decrypt_accepted [OF assms(1-6) h(1) assms(7) _ _ assms(8)]
    by (auto simp: clean_buffer_def)
  have "bf_encrypt L D params Q m = Inr (Some msg)" if "d_bytes D (digest_length h) = (1, rho)" for D
    using bf_encrypt_eq [OF assms(1) h assms(4) that rho(1)] rho(2) by simp
  then show ?thesis using rho(1) h(2) by auto
qed

theorem bf_decrypt_accepts_encryptions_witness:
  "\<exists>rho. length rho = (20 :: nat) \<and> (\<forall>D. d_bytes D (20 :: nat) = (1, rho) \<longrightarrow>
     bf_encrypt sample_lib D sample_params 9 [1, 2, 3] =
       Inr (Some (ct_of sample_lib sample_params SHA1 9 (replicate 20 4) [1, 2, 3])))"
proof -
  let ?msg = "ct_of sample_lib sample_params SHA1 9 (replicate 20 4) [1, 2, 3]"
  note wf = msg_wf_ct_of [OF sample_hash_laws, of sample_params SHA1 9 "replicate 20 4" "[1, 2, 3]"]
  have "bf_decrypt sample_lib (replicate 3 0) sample_params (g2_mul sample_lib () 9 5) ?msg =
      Inr (True, [1, 2, 3])"
    using bf_decrypt_ct_of [OF sample_hash_laws sample_pairing_laws sample_params_wf, of 5 SHA1
        "replicate 20 4" "replicate 3 0" "[1, 2, 3]" 9]
    by (simp add: clean_buffer_def)
  then show ?thesis
    using bf_decrypt_accepts_encryptions [OF sample_hash_laws sample_pairing_laws sample_params_wf,
        of 5 ?msg 9 "[1, 2, 3]"] wf
    by (simp add: numeral_3_eq_3)
qed

text \<open>
  C7: the check of step 9, exactly. On a ciphertext of any shape, with \<open>h\<close> the hash function of the level,
  \<open>bf_decrypt\<close> recovers the session randomness \<open>rho = V xor h (e (U, S))\<close> and the candidate plaintext \<open>m = W xor mask\<close>,
  whose mask it makes from \<open>rho\<close>, recomputes the scalar \<open>l\<close> of RFC 5091 from \<open>rho\<close> and \<open>h m\<close>, and accepts if and
  only if \<open>U = [l]P\<close>: then it returns true and \<open>m\<close>, otherwise false and a buffer of zeros, so
  that a rejected ciphertext leaves nothing of the plaintext behind.
\<close>

theorem bf_decrypt_rejects:
  assumes "hash_laws L" and "params_wf L params" and "bp_q params \<noteq> 0"
    and "length out = msg_length msg" and "hashfcn (security params) = Some h"
  shows "let c = pairing params; H = hash_fn L h; n = digest_length h; len = msg_length msg;
      rho = xor_loop n (H (gt_to_bytes L c (e_pair L c (msg_U msg) sk))) (msg_V msg);
      m = xor_loop len (overwritten H n (H rho) out len) (msg_W msg);
      l = range_spec H n (rho @ H m) (bp_q params)
    in bf_decrypt L out params sk msg =
         Inr (if g1_cmp L c (msg_U msg) (g1_mul L c (bp_P params) l) = 0 then (True, m) else (False, replicate len 0)) \<and>
       0 \<le> l \<and> l < \<bar>bp_q params\<bar>"
proof -
  have "hashlen (security params) = digest_length h"
    using assms(2,5) by (metis option.inject params_wfE)
  then show ?thesis
    using bf_decrypt_eq [OF assms(1,5) _ assms(3,4), of sk]
      digest_fn.range_spec_bounds [OF digest_fn_lib [OF assms(1)] assms(3)]
    by (simp add: Let_def scalar_of_def mask_of_def)
qed

text \<open>A \<open>U\<close> outside of the subgroup of \<open>P\<close> is rejected, whatever the rest of the ciphertext is.\<close>

theorem bf_decrypt_rejects_witness:
  "bf_decrypt sample_lib [7, 7] sample_params 4
      \<lparr>msg_length = 2, msg_U = 1, msg_V = replicate 20 1, msg_W = [5, 6]\<rparr> = Inr (False, [0, 0])"
proof -
  have "12 * w \<noteq> (1 :: byte)" for w
  proof
    assume "12 * w = 1"
    then have "64 * (12 * w) = (64 :: byte)" by simp
    moreover have "(64 * 12 :: byte) = 0" by simp
    then have "64 * (12 * w) = 0" unfolding mult.assoc [symmetric] by (simp only: mult_zero_left)
    ultimately show False by simp
  qed
  then show ?thesis
    using bf_decrypt_rejects [OF sample_hash_laws sample_params_wf, of "[7, 7]"
        "\<lparr>msg_length = 2, msg_U = 1, msg_V = replicate 20 1, msg_W = [5, 6]\<rparr>" SHA1 4]
    by (simp add: Let_def numeral_2_eq_2 eq_commute [of 1])
qed

text \<open>
  C8: setup. When \<open>bf_setup\<close> returns, it returns true exactly for the levels 1 to 5; the parameters
  are then well formed for that level, \<open>P\<close> is a non-zero multiple of the cofactor, \<open>q\<close> is the group
  order, and the secret lies between 2 and \<open>q - 1\<close> with \<open>P_pub = [s]P\<close>. On failure only the level
  byte of the parameters has changed and the secret is untouched.
\<close>

theorem bf_setup_sound:
  assumes "bf_setup L D params s level = Some (ok, params', s')"
    and "\<And>n. 0 < n \<Longrightarrow> 0 \<le> d_mpz D n \<and> d_mpz D n < n" and "\<And>c. 2 < par_r L c"
  shows "(ok \<longleftrightarrow> level \<in> {1, 2, 3, 4, 5}) \<and>
    (if ok then params_wf L params' \<and> sec_level (security params') = level \<and>
         \<not> g1_is0 L (pairing params') (bp_P params') \<and>
         (\<exists>X. bp_P params' = g1_mul L (pairing params') X (par_h L (pairing params'))) \<and>
         bp_P_pub params' = g1_mul L (pairing params') (bp_P params') s' \<and>
         2 \<le> s' \<and> s' \<le> bp_q params' - 1
     else s' = s \<and> params' = params\<lparr>security := (security params)\<lparr>sec_level := level\<rparr>\<rparr>)"
proof (cases "level \<in> {1, 2, 3, 4, 5}")
  case False
  then show ?thesis
    using assms(1) by (auto simp: bf_setup_cases Let_def setup_security_def)
next
  case True
  define sec where "sec = snd (setup_security (security params) level)"
  define c where "c = d_param D (unat (n_q sec)) (unat (n_p sec))"
  have sec: "setup_security (security params) level = (True, sec)"
    using setup_security_fails [of "security params" level] True
    by (cases "setup_security (security params) level") (auto simp: sec_def)
  obtain X where X: "find_generator L D c 0 = Some X" and ok: "ok"
    and sh: "bf_generate_shard L D
        (params\<lparr>security := sec, pbc_par := c, pairing := c, bp_q := par_r L c, bp_P := X\<rparr>) =
        (params', s')"
    using assms(1) True unfolding bf_setup_cases sec_def [symmetric] Let_def c_def [symmetric]
    by auto
  note shard = bf_generate_shard_wf [OF sh]
  have "s' = d_mpz D (par_r L c - 2) + 2"
    using shard(7) setup_security_wf [OF sec] by simp
  then have "2 \<le> s' \<and> s' \<le> par_r L c - 1"
    using assms(2) [of "par_r L c - 2"] assms(3) [of c] by simp
  then show ?thesis
    using shard setup_security_wf [OF sec] find_generator_Some [OF X] True ok by auto
qed

lemma sample_find_generator: "find_generator sample_lib sample_draws () 0 = Some 12"
  by (subst find_generator.simps, simp add: Let_def, subst find_generator.simps, simp add: Let_def)

theorem bf_setup_sound_witness:
  "case bf_setup sample_lib sample_draws sample_params 0 2 of None \<Rightarrow> False
   | Some (ok, params', s') \<Rightarrow> ok \<and> params_wf sample_lib params' \<and> bp_P_pub params' = bp_P params' * of_int s'"
proof -
  obtain r where r: "bf_setup sample_lib sample_draws sample_params 0 2 = Some r"
    by (simp add: bf_setup_cases Let_def sample_find_generator)
  then show ?thesis
    using bf_setup_sound [of sample_lib sample_draws sample_params 0 2 "fst r" "fst (snd r)"
        "snd (snd r)"]
    by (auto simp: bf_setup_cases Let_def sample_find_generator)
qed

text \<open>
  C9: \<open>bf_setup\<close> fails to return exactly when, at a level it knows, every random point is killed
  by the multiplication with the cofactor: nothing else bounds its search for a generator.
\<close>

theorem bf_setup_returns:
  "bf_setup L D params s level = None \<longleftrightarrow> level \<in> {1, 2, 3, 4, 5} \<and>
    (let sec = snd (setup_security (security params) level);
         c = d_param D (unat (n_q sec)) (unat (n_p sec))
     in \<forall>j. g1_is0 L c (g1_mul L c (d_point D c j) (par_h L c)))"
proof -
  define sec where "sec = snd (setup_security (security params) level)"
  define c where "c = d_param D (unat (n_q sec)) (unat (n_p sec))"
  have "find_generator L D c 0 = None \<longleftrightarrow>
      (\<forall>j. g1_is0 L c (g1_mul L c (d_point D c j) (par_h L c)))"
    using find_generator_None [of L D c 0] by simp
  then show ?thesis
    unfolding bf_setup_cases sec_def [symmetric] Let_def c_def [symmetric] by auto
qed

end
