(* ===== verification/Bf_Message.thy ===== *)
theory Bf_Message
  imports Bf_Ibe
begin

text \<open>
  The binary form of a ciphertext: \<open>bf_message_to_bytes\<close> and \<open>bf_message_from_bytes\<close>
  (\<open>bfibe/src/export.c\<close>). The fields are the length as the machine stores a \<open>size_t\<close> (eight bytes,
  little-endian), the security level, the point \<open>U\<close> in the format of the library, \<open>V\<close> and \<open>W\<close>.
  Writes go through the allocated buffer, reads through the caller's buffer, so running past either
  is an outcome. \<open>element_from_bytes\<close> reads the number of bytes that \<open>element_length_in_bytes\<close> tells.
\<close>

subsection \<open>Codes that can be read from the front\<close>

text \<open>
  An encoding whose decoder takes its bytes from the front of a buffer and tells how many. Decoding
  what was encoded gives the value back whatever follows, so no encoding is a prefix of another.
\<close>

locale front_codec =
  fixes ok :: "'a \<Rightarrow> bool"
    and enc :: "'a \<Rightarrow> bytes"
    and dec :: "bytes \<Rightarrow> 'b outcome"
    and result :: "'a \<Rightarrow> 'b"
  assumes dec_enc: "ok x \<Longrightarrow> dec (enc x @ rest) = Inr (result x)"
    and result_inj: "ok x \<Longrightarrow> ok y \<Longrightarrow> result x = result y \<Longrightarrow> x = y"
begin

lemma prefix_free:
  assumes "ok x" and "ok y" and "enc x @ r = enc y @ s"
  shows "x = y \<and> r = s"
proof -
  have "result x = result y"
    using dec_enc [OF assms(1), of r] dec_enc [OF assms(2), of s] assms(3) by simp
  then have "x = y" by (rule result_inj [OF assms(1,2)])
  then show ?thesis using assms(3) by simp
qed

lemma enc_inj: "ok x \<Longrightarrow> ok y \<Longrightarrow> enc x = enc y \<Longrightarrow> x = y"
  using prefix_free [of x y "[]" "[]"] by simp

end

subsection \<open>A size in memory\<close>

definition SIZEOF_SIZE_T :: nat where
  "SIZEOF_SIZE_T = 8"

text \<open>\<open>memcpy (&n, in, sizeof (size_t))\<close>\<close>

definition read_size :: "bytes \<Rightarrow> nat outcome" where
  "read_size inp = bindO (buf_read inp 0 SIZEOF_SIZE_T) (\<lambda>s. Inr (le_val s))"

interpretation size_codec: front_codec "\<lambda>n. n < 2 ^ 64" "le_bytes SIZEOF_SIZE_T" read_size "\<lambda>n. n"
  by unfold_locales (simp_all add: read_size_def buf_read_def SIZEOF_SIZE_T_def le_val_bytes)

subsection \<open>Conversions\<close>

text \<open>\<open>int\<close> to \<open>size_t\<close>, \<open>size_t\<close> to \<open>int\<close> and \<open>int\<close> to \<open>uint8_t\<close>.\<close>

definition size_of_int :: "int \<Rightarrow> nat" where
  "size_of_int n = nat (n mod 2 ^ 64)"

definition int_of_size :: "nat \<Rightarrow> int" where
  "int_of_size n = sint (of_nat n :: 32 word)"

definition byte_of_int :: "int \<Rightarrow> 8 word" where
  "byte_of_int n = word_of_int n"

lemma size_of_int_nat [simp]: "n < 2 ^ 64 \<Longrightarrow> size_of_int (int n) = n"
  by (simp add: size_of_int_def)

lemma int_of_size_small:
  assumes "n < 2 ^ 31"
  shows "int_of_size n = int n"
  using assms by (simp add: int_of_size_def signed_of_nat signed_take_bit_int_eq_self)

subsection \<open>The functions\<close>

definition bf_message_to_bytes ::
  "('par, 'g1, 'g2, 'gt, 'pp) lib \<Rightarrow> (nat \<Rightarrow> bytes) \<Rightarrow> ('par, 'g1, 'pp) BFPublicParameters \<Rightarrow>
     'g1 BFMessage \<Rightarrow> bytes outcome"
where
  "bf_message_to_bytes L malloc params msg =
     (let hlen = hashlen (security params); elen = g1_length L (pairing params);
          e = g1_to_bytes L (pairing params) (msg_U msg);
          out = malloc (SIZEOF_SIZE_T + 1 + elen + hlen + msg_length msg); w = 0
      in bindO (buf_write out w (le_bytes SIZEOF_SIZE_T (msg_length msg))) (\<lambda>out.
         let w = w + SIZEOF_SIZE_T
         in bindO (buf_write out w [sec_level (security params)]) (\<lambda>out.
         let w = w + 1
         in bindO (buf_write out w e) (\<lambda>out.
         let w = w + length e
         in bindO (buf_read (msg_V msg) 0 hlen) (\<lambda>V.
            bindO (buf_write out w V) (\<lambda>out.
         let w = w + hlen
         in bindO (buf_read (msg_W msg) 0 (msg_length msg)) (\<lambda>W.
            buf_write out w W)))))))"

text \<open>\<open>bf_message_from_bytes\<close>: the return value and the message; a wrong level leaves the rest.\<close>

definition bf_message_from_bytes ::
  "('par, 'g1, 'g2, 'gt, 'pp) lib \<Rightarrow> bytes \<Rightarrow> ('par, 'g1, 'pp) BFPublicParameters \<Rightarrow>
     'g1 BFMessage \<Rightarrow> (bool \<times> 'g1 BFMessage) outcome"
where
  "bf_message_from_bytes L inp params msg =
     (let hlen = hashlen (security params); c = pairing params
      in bindO (read_size inp) (\<lambda>len.
         let msg = msg\<lparr>msg_length := len\<rparr>; r = SIZEOF_SIZE_T
         in bindO (buf_read inp r 1) (\<lambda>level.
            if hd level \<noteq> sec_level (security params) then Inr (False, msg)
            else
              let r = r + 1
              in bindO (buf_read inp r (g1_length L c)) (\<lambda>e.
                 let (U, ele_bytes) = g1_from_bytes L c e; r = r + ele_bytes
                 in bindO (buf_read inp r hlen) (\<lambda>V.
                    let r = r + hlen
                    in bindO (buf_read inp r len) (\<lambda>W.
                       Inr (True, msg\<lparr>msg_U := U, msg_V := V, msg_W := W\<rparr>)))))))"

subsection \<open>What is assumed of the library\<close>

text \<open>
  The byte format of the points: a fixed number of bytes, always consumed, and points other than
  the neutral one (whose coordinates carry no value) are read back.
\<close>

definition wire_laws :: "('par, 'g1, 'g2, 'gt, 'pp) lib \<Rightarrow> 'par \<Rightarrow> bool" where
  "wire_laws L c \<longleftrightarrow>
     (\<forall>X. length (g1_to_bytes L c X) = g1_length L c) \<and>
     (\<forall>X. \<not> g1_is0 L c X \<longrightarrow> fst (g1_from_bytes L c (g1_to_bytes L c X)) = X) \<and>
     (\<forall>bs. length bs = g1_length L c \<longrightarrow> snd (g1_from_bytes L c bs) = g1_length L c)"

lemma wire_lawsD:
  assumes "wire_laws L c"
  shows "length (g1_to_bytes L c X) = g1_length L c"
    and "\<not> g1_is0 L c X \<Longrightarrow> g1_from_bytes L c (g1_to_bytes L c X) = (X, g1_length L c)"
    and "length bs = g1_length L c \<Longrightarrow> snd (g1_from_bytes L c bs) = g1_length L c"
  using assms by (simp_all add: wire_laws_def prod_eq_iff)

subsection \<open>Closed forms\<close>

text \<open>The bytes of a message.\<close>

definition wire ::
  "('par, 'g1, 'g2, 'gt, 'pp) lib \<Rightarrow> ('par, 'g1, 'pp) BFPublicParameters \<Rightarrow> 'g1 BFMessage \<Rightarrow> bytes"
where
  "wire L params msg = le_bytes SIZEOF_SIZE_T (msg_length msg) @ [sec_level (security params)] @
     g1_to_bytes L (pairing params) (msg_U msg) @ msg_V msg @ msg_W msg"

lemma length_wire:
  "wire_laws L (pairing params) \<Longrightarrow> msg_wf params msg \<Longrightarrow>
    length (wire L params msg) = 9 + g1_length L (pairing params) + hashlen (security params) + msg_length msg"
  by (simp add: wire_def msg_wf_def SIZEOF_SIZE_T_def wire_lawsD)

text \<open>Writing at the end of what has been written.\<close>

lemma buf_write_next:
  assumes "length xs \<le> length rest" and "w = length pre"
  shows "buf_write (pre @ rest) w xs = Inr ((pre @ xs) @ drop (length xs) rest)"
  using assms by simp

lemma bf_message_to_bytes_eq:
  assumes L: "wire_laws L (pairing params)" and wf: "msg_wf params msg"
    and malloc: "\<And>n. length (malloc n) = n"
  shows "bf_message_to_bytes L malloc params msg = Inr (wire L params msg)"
proof -
  define out where "out = malloc (9 + g1_length L (pairing params) + hashlen (security params) + msg_length msg)"
  have out: "length out = 9 + g1_length L (pairing params) + hashlen (security params) + msg_length msg"
    by (simp add: out_def malloc)
  define e where "e = g1_to_bytes L (pairing params) (msg_U msg)"
  have e: "length e = g1_length L (pairing params)"
    using L by (simp add: e_def wire_lawsD)
  have V: "length (msg_V msg) = hashlen (security params)" and W: "length (msg_W msg) = msg_length msg"
    using wf by (simp_all add: msg_wf_def)
  have steps:
    "buf_write out 0 (le_bytes 8 (msg_length msg)) = Inr (le_bytes 8 (msg_length msg) @ drop 8 out)"
    "buf_write (le_bytes 8 (msg_length msg) @ drop 8 out) 8 [sec_level (security params)] =
      Inr ((le_bytes 8 (msg_length msg) @ [sec_level (security params)]) @ drop 9 out)"
    "buf_write ((le_bytes 8 (msg_length msg) @ [sec_level (security params)]) @ drop 9 out) 9 e =
      Inr ((le_bytes 8 (msg_length msg) @ [sec_level (security params)] @ e) @ drop (9 + length e) out)"
    "buf_write ((le_bytes 8 (msg_length msg) @ [sec_level (security params)] @ e) @ drop (9 + length e) out)
        (9 + length e) (msg_V msg) =
      Inr ((le_bytes 8 (msg_length msg) @ [sec_level (security params)] @ e @ msg_V msg) @
        drop (9 + length e + length (msg_V msg)) out)"
    "buf_write ((le_bytes 8 (msg_length msg) @ [sec_level (security params)] @ e @ msg_V msg) @
        drop (9 + length e + length (msg_V msg)) out) (9 + length e + length (msg_V msg)) (msg_W msg) =
      Inr (le_bytes 8 (msg_length msg) @ [sec_level (security params)] @ e @ msg_V msg @ msg_W msg)"
    using out e V W by (simp_all add: buf_write_next add.commute)
  show ?thesis
    using steps out_def e V W
    by (simp add: bf_message_to_bytes_def Let_def SIZEOF_SIZE_T_def e_def [symmetric] buf_read_def wire_def
        add.assoc del: buf_write_fits)
qed

lemma bf_message_from_bytes_eq:
  assumes "wire_laws L (pairing params)"
  shows "bf_message_from_bytes L inp params msg =
    (let e = g1_length L (pairing params); h = hashlen (security params); len = le_val (take 8 inp)
     in if length inp < 9 then Inl OutOfBounds
        else if inp ! 8 \<noteq> sec_level (security params) then Inr (False, msg\<lparr>msg_length := len\<rparr>)
        else if length inp < 9 + e + h + len then Inl OutOfBounds
        else Inr (True, msg\<lparr>msg_length := len,
               msg_U := fst (g1_from_bytes L (pairing params) (take e (drop 9 inp))),
               msg_V := take h (drop (9 + e) inp), msg_W := take len (drop (9 + e + h) inp)\<rparr>))"
proof -
  have hd: "hd (take 1 (drop 8 inp)) = inp ! 8" if "9 \<le> length inp"
    using that by (simp add: hd_drop_conv_nth take_Suc_conv_app_nth)
  have snd: "snd (g1_from_bytes L (pairing params) (take (g1_length L (pairing params)) (drop 9 inp))) =
      g1_length L (pairing params)" if "9 + g1_length L (pairing params) \<le> length inp"
    using that assms by (simp add: wire_lawsD)
  show ?thesis
    using hd snd
    by (auto simp: bf_message_from_bytes_def read_size_def buf_read_def SIZEOF_SIZE_T_def Let_def
        case_prod_beta)
qed

lemma wire_parts:
  assumes "wire_laws L (pairing params)" and "msg_wf params msg" and "msg_length msg < 2 ^ 64"
  defines "e \<equiv> g1_length L (pairing params)" and "h \<equiv> hashlen (security params)"
  shows "take 8 (wire L params msg @ rest) = le_bytes 8 (msg_length msg)"
    and "(wire L params msg @ rest) ! 8 = sec_level (security params)"
    and "take e (drop 9 (wire L params msg @ rest)) = g1_to_bytes L (pairing params) (msg_U msg)"
    and "take h (drop (9 + e) (wire L params msg @ rest)) = msg_V msg"
    and "take (msg_length msg) (drop (9 + e + h) (wire L params msg @ rest)) = msg_W msg"
  using assms by (simp_all add: wire_def SIZEOF_SIZE_T_def msg_wf_def wire_lawsD nth_append)

definition sendable ::
  "('par, 'g1, 'g2, 'gt, 'pp) lib \<Rightarrow> ('par, 'g1, 'pp) BFPublicParameters \<Rightarrow> 'g1 BFMessage \<Rightarrow> bool"
where
  "sendable L params msg \<longleftrightarrow> wire_laws L (pairing params) \<and> msg_wf params msg \<and>
     msg_length msg < 2 ^ 64 \<and> \<not> g1_is0 L (pairing params) (msg_U msg)"

lemma bf_message_from_wire:
  assumes "sendable L params msg"
  shows "bf_message_from_bytes L (wire L params msg @ rest) params msg0 = Inr (True, msg)"
proof -
  have L: "wire_laws L (pairing params)" and wf: "msg_wf params msg" and n: "msg_length msg < 2 ^ 64"
    and U: "\<not> g1_is0 L (pairing params) (msg_U msg)"
    using assms by (simp_all add: sendable_def)
  have len: "le_val (le_bytes 8 (msg_length msg)) = msg_length msg"
    using n by (simp add: le_val_bytes)
  show ?thesis
    unfolding bf_message_from_bytes_eq [OF L] Let_def wire_parts [OF L wf n] len
    using length_wire [OF L wf] wire_lawsD(2) [OF L U] by simp
qed

interpretation message_codec: front_codec "sendable L params" "wire L params"
    "\<lambda>inp. bf_message_from_bytes L inp params msg0" "\<lambda>msg. (True, msg)" for L params msg0
  by unfold_locales (simp_all add: bf_message_from_wire)

subsection \<open>Properties\<close>

text \<open>
  C11: the binary form of a message, with anything behind it, is read back as the message. The
  encoder fills the buffer it allocated and stays inside it; the decoder reads no further than the
  message.
\<close>

theorem bf_message_roundtrip:
  assumes "wire_laws L (pairing params)" and "msg_wf params msg" and "msg_length msg < 2 ^ 64"
    and "\<not> g1_is0 L (pairing params) (msg_U msg)" and "\<And>n. length (malloc n) = n"
  shows "\<exists>bs. bf_message_to_bytes L malloc params msg = Inr bs \<and>
    (\<forall>rest. bf_message_from_bytes L (bs @ rest) params msg0 = Inr (True, msg))"
proof -
  have "sendable L params msg" using assms by (simp add: sendable_def)
  then show ?thesis
    using bf_message_to_bytes_eq [OF assms(1,2,5)] message_codec.dec_enc by auto
qed

lemma sample_wire_laws: "wire_laws sample_lib c"
  by (simp add: wire_laws_def) (simp add: sample_lib_def)

theorem bf_message_roundtrip_witness:
  "\<exists>bs. bf_message_to_bytes sample_lib (\<lambda>n. replicate n 0) sample_params
      \<lparr>msg_length = 2, msg_U = 9, msg_V = replicate 20 1, msg_W = [5, 6]\<rparr> = Inr bs \<and>
    (\<forall>rest. bf_message_from_bytes sample_lib (bs @ rest) sample_params
      \<lparr>msg_length = 0, msg_U = 0, msg_V = [], msg_W = []\<rparr> =
      Inr (True, \<lparr>msg_length = 2, msg_U = 9, msg_V = replicate 20 1, msg_W = [5, 6]\<rparr>))"
  by (rule bf_message_roundtrip [OF sample_wire_laws]) (simp_all add: msg_wf_def)

text \<open>
  Two messages whose binary forms, followed by anything, are the same bytes are the same message:
  no ciphertext is a prefix of another.
\<close>

theorem bf_message_prefix_free:
  assumes "wire_laws L (pairing params)"
    and "msg_wf params m1" and "msg_length m1 < 2 ^ 64" and "\<not> g1_is0 L (pairing params) (msg_U m1)"
    and "msg_wf params m2" and "msg_length m2 < 2 ^ 64" and "\<not> g1_is0 L (pairing params) (msg_U m2)"
    and "\<And>n. length (malloc n) = n"
    and "bf_message_to_bytes L malloc params m1 = Inr b1"
    and "bf_message_to_bytes L malloc params m2 = Inr b2" and "b1 @ r1 = b2 @ r2"
  shows "m1 = m2 \<and> r1 = r2"
proof -
  have ok: "sendable L params m1" "sendable L params m2" using assms by (simp_all add: sendable_def)
  have "b1 = wire L params m1" "b2 = wire L params m2"
    using assms(9,10) bf_message_to_bytes_eq [OF assms(1) assms(2,8)]
      bf_message_to_bytes_eq [OF assms(1) assms(5,8)] by simp_all
  then show ?thesis
    using message_codec.prefix_free [OF ok] assms(11) by simp
qed

theorem bf_message_prefix_free_witness:
  "\<lparr>msg_length = 1, msg_U = 9, msg_V = replicate 20 1, msg_W = [5]\<rparr> =
   \<lparr>msg_length = 1, msg_U = (9 :: byte), msg_V = replicate 20 1, msg_W = [5]\<rparr> \<and> [3] = ([3] :: bytes)"
  by (rule bf_message_prefix_free [where L = sample_lib and params = sample_params
        and malloc = "\<lambda>n. replicate n 0", OF sample_wire_laws _ _ _ _ _ _ _
          bf_message_to_bytes_eq bf_message_to_bytes_eq])
     (simp_all add: msg_wf_def sample_wire_laws)

text \<open>
  C13: \<open>bf_message_from_bytes\<close> trusts the length in its input: it reads past the buffer exactly when
  the buffer is shorter than nine bytes or, at the right security level, than the fields it
  announces; a wrong level alone is reported, with only the length stored.
\<close>

theorem bf_message_from_bytes_overreads:
  fixes inp :: bytes
  assumes "wire_laws L (pairing params)"
  defines "len \<equiv> le_val (take 8 inp)"
  shows "(bf_message_from_bytes L inp params msg = Inl OutOfBounds \<longleftrightarrow>
      length inp < 9 \<or> inp ! 8 = sec_level (security params) \<and>
        length inp < 9 + g1_length L (pairing params) + hashlen (security params) + len) \<and>
    (\<forall>msg'. bf_message_from_bytes L inp params msg = Inr (False, msg') \<longleftrightarrow>
      9 \<le> length inp \<and> inp ! 8 \<noteq> sec_level (security params) \<and> msg' = msg\<lparr>msg_length := len\<rparr>)"
  unfolding bf_message_from_bytes_eq [OF assms(1)] Let_def len_def by auto

theorem bf_message_from_bytes_overreads_witness:
  "bf_message_from_bytes sample_lib ([255, 0, 0, 0, 0, 0, 0, 0, 1] @ replicate 60 7) sample_params
      \<lparr>msg_length = 0, msg_U = 0, msg_V = [], msg_W = []\<rparr> = Inl OutOfBounds"
  using bf_message_from_bytes_overreads [of sample_lib sample_params
      "[255, 0, 0, 0, 0, 0, 0, 0, 1] @ replicate 60 7" "\<lparr>msg_length = 0, msg_U = 0, msg_V = [], msg_W = []\<rparr>"]
  by (simp add: sample_wire_laws)

end
