(* ===== verification/C_Stdio.thy ===== *)
theory C_Stdio
  imports Prelude
begin

text \<open>
  The part of the C library's stdio that bfibe uses on text files: streams, character input, the
  one \<open>fscanf\<close> format of \<open>export.c\<close>, \<open>fgets\<close>, \<open>fread\<close>, and seeking. A stream is what has been read
  and what is still to come; \<open>None\<close> stands for \<open>EOF\<close>. Text is ASCII, one \<open>char\<close> per byte.
\<close>

text \<open>The bytes of a text and the text of bytes.\<close>

definition char_bytes :: "string \<Rightarrow> bytes" where
  "char_bytes s = map of_char s"

definition bytes_text :: "bytes \<Rightarrow> string" where
  "bytes_text s = map (\<lambda>c. char_of (unat c)) s"

lemma char_bytes_text [simp]: "char_bytes (bytes_text s) = s"
proof -
  have "of_char (char_of (unat c) :: char) = c" for c :: byte
  proof -
    have "of_char (char_of (unat c) :: char) = (of_nat (of_char (char_of (unat c) :: char)) :: byte)"
      by (simp only: of_nat_of_char)
    also have "\<dots> = c" by (simp add: unat_byte_less)
    finally show ?thesis .
  qed
  then show ?thesis by (simp add: char_bytes_def bytes_text_def comp_def map_idI)
qed

record FILE =
  f_before :: string
  f_rest :: string

definition stream_of :: "string \<Rightarrow> FILE" where
  "stream_of s = \<lparr>f_before = [], f_rest = s\<rparr>"

text \<open>Consume the stream down to the given rest.\<close>

definition upto_rest :: "FILE \<Rightarrow> string \<Rightarrow> FILE" where
  "upto_rest f s =
     \<lparr>f_before = f_before f @ take (length (f_rest f) - length s) (f_rest f), f_rest = s\<rparr>"

definition ftell :: "FILE \<Rightarrow> nat" where
  "ftell f = length (f_before f)"

definition fseek_end :: "FILE \<Rightarrow> FILE" where
  "fseek_end f = \<lparr>f_before = f_before f @ f_rest f, f_rest = []\<rparr>"

definition fseek_set :: "FILE \<Rightarrow> nat \<Rightarrow> FILE" where
  "fseek_set f n = (let s = f_before f @ f_rest f in \<lparr>f_before = take n s, f_rest = drop n s\<rparr>)"

text \<open>\<open>isspace\<close> in the C locale.\<close>

definition isspace :: "char \<Rightarrow> bool" where
  "isspace c = (let k = of_char c :: nat in k = 32 \<or> (9 \<le> k \<and> k \<le> 13))"

definition isdigit :: "char \<Rightarrow> bool" where
  "isdigit c = (let k = of_char c :: nat in 48 \<le> k \<and> k \<le> 57)"

definition newline :: char where
  "newline = CHR 0x0A"

text \<open>\<open>fgets (buf, n, in)\<close>: up to \<open>n - 1\<close> characters, ending with the first newline.\<close>

fun line_of :: "nat \<Rightarrow> string \<Rightarrow> string" where
  "line_of 0 s = []"
| "line_of (Suc n) [] = []"
| "line_of (Suc n) (c # cs) = (if c = newline then [c] else c # line_of n cs)"

definition fgets :: "nat \<Rightarrow> FILE \<Rightarrow> string option \<times> FILE" where
  "fgets n f =
     (if f_rest f = [] then (None, f)
      else let s = line_of (n - 1) (f_rest f)
           in (Some s, upto_rest f (drop (length s) (f_rest f))))"

definition fread :: "nat \<Rightarrow> FILE \<Rightarrow> string \<times> FILE" where
  "fread n f = (take n (f_rest f), upto_rest f (drop n (f_rest f)))"

text \<open>
  \<open>fscanf (in, "security %hhu\n", &level)\<close>. A white-space directive skips any white space. A
  literal character that does not match stops the call with the conversions made so far; the end of
  the input before the first conversion makes it return \<open>EOF\<close> (-1). The conversion reads an
  optional sign and decimal digits and stores the value, clamped to 64 bits as \<open>strtoul\<close> does,
  modulo 256. The result is the return value, the byte stored (if any) and the rest of the input.
\<close>

datatype scan = Matched string | Mismatch string | AtEof

fun scan_literal :: "string \<Rightarrow> string \<Rightarrow> scan" where
  "scan_literal [] s = Matched s"
| "scan_literal (l # ls) s =
     (if isspace l then scan_literal ls (dropWhile isspace s)
      else case s of [] \<Rightarrow> AtEof
           | c # cs \<Rightarrow> if c = l then scan_literal ls cs else Mismatch s)"

definition decimal :: "string \<Rightarrow> nat" where
  "decimal s = foldl (\<lambda>v c. v * 10 + (of_char c - 48)) 0 s"

definition strtoul_clamp :: "nat \<Rightarrow> nat" where
  "strtoul_clamp v = min v (2 ^ 64 - 1)"

definition scan_hhu :: "string \<Rightarrow> int \<times> 8 word option \<times> string" where
  "scan_hhu s =
     (let s = dropWhile isspace s in
      if s = [] then (-1, None, s)
      else let neg = hd s = CHR ''-'';
               t = (if hd s = CHR ''-'' \<or> hd s = CHR ''+'' then tl s else s);
               ds = takeWhile isdigit t
           in if ds = [] then (0, None, t)
              else let v = strtoul_clamp (decimal ds)
                   in (1, Some (if neg \<and> decimal ds < 2 ^ 64 then - of_nat v else of_nat v),
                       dropWhile isdigit t))"

definition fscanf_security :: "FILE \<Rightarrow> int \<times> 8 word option \<times> FILE" where
  "fscanf_security f =
     (case scan_literal ''security '' (f_rest f) of
        AtEof \<Rightarrow> (-1, None, upto_rest f [])
      | Mismatch s \<Rightarrow> (0, None, upto_rest f s)
      | Matched s \<Rightarrow>
          (case scan_hhu s of (ret, v, s) \<Rightarrow>
             (ret, v, upto_rest f (if ret = 1 then dropWhile isspace s else s))))"

subsection \<open>Lemmas\<close>

lemma f_rest_upto_rest [simp]: "f_rest (upto_rest f s) = s"
  by (simp add: upto_rest_def)

lemma upto_rest_suffix:
  "f_rest f = xs @ ys \<Longrightarrow> upto_rest f ys = \<lparr>f_before = f_before f @ xs, f_rest = ys\<rparr>"
  by (simp add: upto_rest_def)

lemma fseek_there_and_back: "fseek_set (fseek_end f) (ftell f) = \<lparr>f_before = f_before f, f_rest = f_rest f\<rparr>"
  by (simp add: fseek_set_def fseek_end_def ftell_def)

lemma line_of_append:
  assumes "newline \<notin> set xs" and "length xs < n"
  shows "line_of n (xs @ newline # ys) = xs @ [newline]"
  using assms
proof (induction xs arbitrary: n)
  case Nil
  then show ?case by (cases n) simp_all
next
  case (Cons x xs)
  then show ?case by (cases n) auto
qed

lemma fgets_line:
  assumes "f_rest f = xs @ newline # ys" and "newline \<notin> set xs" and "length xs + 1 < n"
  shows "fgets n f = (Some (xs @ [newline]),
    \<lparr>f_before = f_before f @ xs @ [newline], f_rest = ys\<rparr>)"
proof -
  have "line_of (n - 1) (f_rest f) = xs @ [newline]"
    using assms line_of_append [of xs "n - 1" ys] by simp
  moreover have "upto_rest f ys = \<lparr>f_before = f_before f @ (xs @ [newline]), f_rest = ys\<rparr>"
    using assms(1) by (intro upto_rest_suffix) simp
  ultimately show ?thesis
    using assms(1) by (simp add: fgets_def Let_def)
qed

lemma scan_literal_self: "list_all (\<lambda>c. \<not> isspace c) ls \<Longrightarrow> scan_literal ls (ls @ s) = Matched s"
  by (induction ls) auto

text \<open>Reading back the level that \<open>fprintf\<close> prints with \<open>%hhu\<close>, for the levels of the code.\<close>

definition level_text :: "8 word \<Rightarrow> string" where
  "level_text level =
     (let k = unat level
      in (if k < 100 then [] else [char_of (48 + k div 100)]) @
         (if k < 10 then [] else [char_of (48 + k div 10 mod 10)]) @ [char_of (48 + k mod 10)])"

end
