(* ===== verification/Gmp_Text.thy ===== *)
theory Gmp_Text
  imports C_Stdio
begin

text \<open>
  How GMP reads and writes numbers as text: \<open>mpz_set_str\<close>, \<open>mpz_get_str\<close>, \<open>mpz_inp_str\<close> and
  \<open>mpz_out_str\<close> (\<open>gmp-6.2.1/mpz\<close>) and the digit table (\<open>mp_dv_tab.c\<close>). A number is its value, an
  \<open>int\<close>; \<open>mpn_get_str\<close> and \<open>mpn_set_str\<close>, which these functions call on the limbs, are the digits
  of a number and the number of the digits. A \<open>char *\<close> is the list of its characters before the
  terminating zero, and the zero is \<open>None\<close> when a character is read; so is \<open>EOF\<close>.
\<close>

subsection \<open>Digits\<close>

definition digit_value_tab :: "nat list" where
  "digit_value_tab = [
     255, 255, 255, 255, 255, 255, 255, 255, 255, 255, 255, 255, 255, 255, 255, 255,
     255, 255, 255, 255, 255, 255, 255, 255, 255, 255, 255, 255, 255, 255, 255, 255,
     255, 255, 255, 255, 255, 255, 255, 255, 255, 255, 255, 255, 255, 255, 255, 255,
     0, 1, 2, 3, 4, 5, 6, 7, 8, 9, 255, 255, 255, 255, 255, 255,
     255, 10, 11, 12, 13, 14, 15, 16, 17, 18, 19, 20, 21, 22, 23, 24,
     25, 26, 27, 28, 29, 30, 31, 32, 33, 34, 35, 255, 255, 255, 255, 255,
     255, 10, 11, 12, 13, 14, 15, 16, 17, 18, 19, 20, 21, 22, 23, 24,
     25, 26, 27, 28, 29, 30, 31, 32, 33, 34, 35, 255, 255, 255, 255, 255,
     255, 255, 255, 255, 255, 255, 255, 255, 255, 255, 255, 255, 255, 255, 255, 255,
     255, 255, 255, 255, 255, 255, 255, 255, 255, 255, 255, 255, 255, 255, 255, 255,
     255, 255, 255, 255, 255, 255, 255, 255, 255, 255, 255, 255, 255, 255, 255, 255,
     255, 255, 255, 255, 255, 255, 255, 255, 255, 255, 255, 255, 255, 255, 255, 255,
     255, 255, 255, 255, 255, 255, 255, 255, 255, 255, 255, 255, 255, 255, 255, 255,
     255, 255, 255, 255, 255, 255, 255, 255, 255, 255, 255, 255, 255, 255, 255, 255,
     255, 255, 255, 255, 255, 255, 255, 255, 255, 255, 255, 255, 255, 255, 255, 255,
     255, 255, 255, 255, 255, 255, 255, 255, 255, 255, 255, 255, 255, 255, 255, 255,
     0, 1, 2, 3, 4, 5, 6, 7, 8, 9, 255, 255, 255, 255, 255, 255,
     255, 10, 11, 12, 13, 14, 15, 16, 17, 18, 19, 20, 21, 22, 23, 24,
     25, 26, 27, 28, 29, 30, 31, 32, 33, 34, 35, 255, 255, 255, 255, 255,
     255, 36, 37, 38, 39, 40, 41, 42, 43, 44, 45, 46, 47, 48, 49, 50,
     51, 52, 53, 54, 55, 56, 57, 58, 59, 60, 61, 255, 255, 255, 255, 255,
     255, 255, 255, 255, 255, 255, 255, 255, 255, 255, 255, 255, 255, 255, 255, 255,
     255, 255, 255, 255, 255, 255, 255, 255, 255, 255, 255, 255, 255, 255, 255, 255,
     255, 255, 255, 255, 255, 255, 255, 255, 255, 255, 255, 255, 255, 255, 255, 255,
     255, 255, 255, 255, 255, 255, 255, 255, 255, 255, 255, 255, 255, 255, 255, 255,
     255, 255, 255, 255, 255, 255, 255, 255, 255, 255, 255, 255, 255, 255, 255, 255,
     255, 255, 255, 255, 255, 255, 255, 255, 255, 255, 255, 255, 255, 255, 255, 255,
     255, 255, 255, 255, 255, 255, 255, 255, 255, 255, 255, 255, 255, 255, 255, 255,
     255, 255, 255, 255, 255, 255, 255, 255, 255, 255, 255, 255, 255, 255, 255, 255]"

text \<open>\<open>digit_value[c]\<close>, with \<open>digit_value\<close> at the given offset of the table.\<close>

definition digit_value :: "nat \<Rightarrow> char \<Rightarrow> nat" where
  "digit_value off c = digit_value_tab ! (off + of_char c)"

text \<open>What \<open>mpn_get_str\<close> writes, most significant digit first (one digit for 0).\<close>

function digits_be :: "nat \<Rightarrow> nat \<Rightarrow> nat list" where
  "digits_be b n = (if b < 2 \<or> n < b then [n] else digits_be b (n div b) @ [n mod b])"
  by pat_completeness auto
termination
  by (relation "measure snd") auto

declare digits_be.simps [simp del]

text \<open>What \<open>mpn_set_str\<close> computes.\<close>

definition digits_val :: "nat \<Rightarrow> nat list \<Rightarrow> nat" where
  "digits_val b ds = foldl (\<lambda>v d. v * b + d) 0 ds"

definition alphabet36 :: string where
  "alphabet36 = ''0123456789abcdefghijklmnopqrstuvwxyz''"

definition alphabet62 :: string where
  "alphabet62 = ''0123456789ABCDEFGHIJKLMNOPQRSTUVWXYZabcdefghijklmnopqrstuvwxyz''"

subsection \<open>Writing\<close>

text \<open>The choice of \<open>num_to_text\<close> and of the base, which both output functions start with.\<close>

definition output_base :: "int \<Rightarrow> (string \<times> nat) option" where
  "output_base base =
     (if base > 1 then
        (if base \<le> 36 then Some (alphabet36, nat base)
         else if base > 62 then None else Some (alphabet62, nat base))
      else if base > -2 then Some (alphabet62, 10)
      else if - base > 36 then None else Some (alphabet62, nat (- base)))"

definition number_text :: "string \<times> nat \<Rightarrow> int \<Rightarrow> string" where
  "number_text = (\<lambda>(num_to_text, base) x.
     (if x < 0 then ''-'' else []) @ map (\<lambda>d. num_to_text ! d) (digits_be base (nat \<bar>x\<bar>)))"

text \<open>\<open>mpz_get_str (NULL, base, x)\<close>; \<open>None\<close> is the null pointer.\<close>

definition mpz_get_str :: "int \<Rightarrow> int \<Rightarrow> string option" where
  "mpz_get_str base x = map_option (\<lambda>nb. number_text nb x) (output_base base)"

text \<open>\<open>mpz_out_str (stream, base, x)\<close>: the number of characters written, and the characters.\<close>

definition mpz_out_str :: "int \<Rightarrow> int \<Rightarrow> nat \<times> string" where
  "mpz_out_str base x =
     (case output_base base of
        None \<Rightarrow> (0, [])
      | Some nb \<Rightarrow> (let s = number_text nb x in (length s, s)))"

subsection \<open>Reading a string\<close>

fun next_char :: "string \<Rightarrow> char option \<times> string" where
  "next_char [] = (None, [])"
| "next_char (c # s) = (Some c, s)"

definition is_ch :: "char option \<Rightarrow> char \<Rightarrow> bool" where
  "is_ch c d = (c = Some d)"

text \<open>The value of a character in the table; the terminating zero has the value 255.\<close>

definition dig_of :: "nat \<Rightarrow> char option \<Rightarrow> nat" where
  "dig_of off c = (case c of None \<Rightarrow> digit_value_tab ! off | Some c \<Rightarrow> digit_value off c)"

text \<open>The base that the first characters tell when the caller passes 0.\<close>

definition detect_base :: "char option \<Rightarrow> string \<Rightarrow> int \<times> char option \<times> string" where
  "detect_base c str =
     (if is_ch c (CHR ''0'') then
        (let (c, str) = next_char str
         in if is_ch c (CHR ''x'') \<or> is_ch c (CHR ''X'') then
              (let (c, str) = next_char str in (16, c, str))
            else if is_ch c (CHR ''b'') \<or> is_ch c (CHR ''B'') then
              (let (c, str) = next_char str in (2, c, str))
            else (8, c, str))
      else (10, c, str))"

text \<open>The loop that drops white space and collects the digits; \<open>None\<close> on a character that is none.\<close>

fun collect_digits :: "nat \<Rightarrow> int \<Rightarrow> string \<Rightarrow> nat list option" where
  "collect_digits off base [] = Some []"
| "collect_digits off base (c # s) =
     (if isspace c then collect_digits off base s
      else let dig = digit_value off c
           in if int dig \<ge> base then None
              else map_option (\<lambda>ds. dig # ds) (collect_digits off base s))"

text \<open>\<open>mpz_set_str (x, str, base)\<close>: the return value and the number, the old one on an error.\<close>

definition mpz_set_str :: "int \<Rightarrow> string \<Rightarrow> int \<Rightarrow> int \<times> int" where
  "mpz_set_str x str base =
     (let off = (if base > 36 then 208 else 0)
      in if base > 62 then (-1, x)
         else
           let (c, str) = next_char (dropWhile isspace str);
               negative = is_ch c (CHR ''-'');
               (c, str) = (if negative then next_char str else (c, str))
           in if int (dig_of off c) \<ge> (if base = 0 then 10 else base) then (-1, x)
              else
                let (base, c, str) = (if base = 0 then detect_base c str else (base, c, str));
                    rest = dropWhile (\<lambda>c. c = CHR ''0'' \<or> isspace c)
                             ((case c of None \<Rightarrow> [] | Some c \<Rightarrow> [c]) @ str)
                in if rest = [] then (0, 0)
                   else case collect_digits off base rest of
                          None \<Rightarrow> (-1, x)
                        | Some ds \<Rightarrow>
                            let v = int (digits_val (nat base) ds)
                            in (0, if negative then - v else v))"

subsection \<open>Reading a stream\<close>

text \<open>The first loop of \<open>mpz_inp_str\<close>; the character it ends with may be \<open>EOF\<close>.\<close>

fun skip_space :: "string \<Rightarrow> nat \<Rightarrow> char option \<times> string \<times> nat" where
  "skip_space [] nread = (None, [], nread + 1)"
| "skip_space (c # s) nread =
     (if isspace c then skip_space s (nread + 1) else (Some c, s, nread + 1))"

fun skip_zeros :: "char \<Rightarrow> string \<Rightarrow> nat \<Rightarrow> char option \<times> string \<times> nat" where
  "skip_zeros c [] nread = (if c = CHR ''0'' then (None, [], nread + 1) else (Some c, [], nread))"
| "skip_zeros c (d # s) nread =
     (if c = CHR ''0'' then skip_zeros d s (nread + 1) else (Some c, d # s, nread))"

text \<open>The loop that reads digits: the digits, the character that ended it and the rest.\<close>

fun read_digits :: "nat \<Rightarrow> int \<Rightarrow> char \<Rightarrow> string \<Rightarrow> nat list \<times> char option \<times> string" where
  "read_digits off base c [] =
     (if int (digit_value off c) \<ge> base then ([], Some c, []) else ([digit_value off c], None, []))"
| "read_digits off base c (d # s) =
     (if int (digit_value off c) \<ge> base then ([], Some c, d # s)
      else let (ds, e, r) = read_digits off base d s in (digit_value off c # ds, e, r))"

definition ungetc :: "char option \<Rightarrow> string \<Rightarrow> string" where
  "ungetc c s = (case c of None \<Rightarrow> s | Some c \<Rightarrow> c # s)"

definition detect_base_n :: "char option \<Rightarrow> string \<Rightarrow> nat \<Rightarrow> int \<times> char option \<times> string \<times> nat" where
  "detect_base_n c s nread =
     (if is_ch c (CHR ''0'') then
        (let (c, s) = next_char s; nread = nread + 1
         in if is_ch c (CHR ''x'') \<or> is_ch c (CHR ''X'') then
              (let (c, s) = next_char s in (16, c, s, nread + 1))
            else if is_ch c (CHR ''b'') \<or> is_ch c (CHR ''B'') then
              (let (c, s) = next_char s in (2, c, s, nread + 1))
            else (8, c, s, nread))
      else (10, c, s, nread))"

text \<open>
  \<open>mpz_inp_str_nowhite (x, stream, base, c, nread)\<close>: the return value (0 on an error), the number
  and what the stream still holds.
\<close>

definition mpz_inp_str_nowhite ::
  "int \<Rightarrow> string \<Rightarrow> int \<Rightarrow> char option \<Rightarrow> nat \<Rightarrow> nat \<times> int \<times> string"
where
  "mpz_inp_str_nowhite x s base c nread =
     (let off = (if base > 36 then 208 else 0)
      in if base > 62 then (0, x, s)
         else
           let negative = is_ch c (CHR ''-'');
               (c, s, nread) =
                 (if negative then let (c, s) = next_char s in (c, s, nread + 1) else (c, s, nread))
           in if c = None \<or> int (dig_of off c) \<ge> (if base = 0 then 10 else base) then (0, x, s)
              else
                let (base, c, s, nread) =
                      (if base = 0 then detect_base_n c s nread else (base, c, s, nread));
                    (c, s, nread) =
                      (case c of None \<Rightarrow> (None, s, nread) | Some c \<Rightarrow> skip_zeros c s nread);
                    (ds, c, s) =
                      (case c of None \<Rightarrow> ([], None, s) | Some c \<Rightarrow> read_digits off base c s);
                    nread = nread + length ds - 1;
                    v = (if ds = [] then 0 else int (digits_val (nat base) ds))
                in (nread, if negative then - v else v, ungetc c s))"

definition mpz_inp_str :: "int \<Rightarrow> FILE \<Rightarrow> int \<Rightarrow> nat \<times> int \<times> FILE" where
  "mpz_inp_str x stream base =
     (let (c, s, nread) = skip_space (f_rest stream) 0;
          (ret, v, s) = mpz_inp_str_nowhite x s base c nread
      in (ret, v, upto_rest stream s))"

subsection \<open>Digits of numbers\<close>

lemma digits_val_append: "digits_val b (xs @ [d]) = digits_val b xs * b + d"
  by (simp add: digits_val_def)

lemma digits_val_digits_be: "2 \<le> b \<Longrightarrow> digits_val b (digits_be b n) = n"
proof (induction b n rule: digits_be.induct)
  case (1 b n)
  show ?case
  proof (cases "n < b")
    case True
    then show ?thesis by (subst digits_be.simps) (simp add: digits_val_def)
  next
    case False
    then show ?thesis
      using 1 by (subst digits_be.simps) (simp add: digits_val_append)
  qed
qed

lemma digits_be_less: "2 \<le> b \<Longrightarrow> d \<in> set (digits_be b n) \<Longrightarrow> d < b"
proof (induction b n rule: digits_be.induct)
  case (1 b n)
  have "d \<in> set (if b < 2 \<or> n < b then [n] else digits_be b (n div b) @ [n mod b])"
    using "1.prems"(2) by (simp only: digits_be.simps [of b n])
  then show ?case
    using 1 by (auto split: if_splits)
qed

text \<open>The leading digit is 0 only for 0.\<close>

lemma digits_be_leading:
  "2 \<le> b \<Longrightarrow> \<exists>d ds. digits_be b n = d # ds \<and> (n = 0 \<longrightarrow> d = 0 \<and> ds = []) \<and> (0 < n \<longrightarrow> 0 < d)"
proof (induction b n rule: digits_be.induct)
  case (1 b n)
  show ?case
  proof (cases "n < b")
    case True
    then show ?thesis by (subst digits_be.simps) simp
  next
    case False
    then have "0 < n div b" and "0 < n"
      using "1.prems" by (simp_all add: div_greater_zero_iff)
    then show ?thesis
      using 1 False by (subst digits_be.simps) auto
  qed
qed

subsection \<open>The table\<close>

definition alphabet :: "nat \<Rightarrow> string" where
  "alphabet b = (if b \<le> 36 then alphabet36 else alphabet62)"

definition table_offset :: "nat \<Rightarrow> nat" where
  "table_offset b = (if b > 36 then 208 else 0)"

definition digit_ok :: "nat \<Rightarrow> string \<Rightarrow> nat \<Rightarrow> bool" where
  "digit_ok off abc d \<longleftrightarrow> digit_value off (abc ! d) = d \<and> \<not> isspace (abc ! d) \<and>
     abc ! d \<noteq> CHR ''-'' \<and> (abc ! d = CHR ''0'' \<longrightarrow> d = 0)"

text \<open>The characters of the alphabets and the parts of the table that they select.\<close>

lemma codes_36: "map of_char alphabet36 = [48..<58] @ [97..<123 :: nat]"
  by code_simp

lemma codes_62: "map of_char alphabet62 = [48..<58] @ [65..<91] @ [97..<123 :: nat]"
  by code_simp

lemma upt_0_10: "[0..<10] = [0, 1, 2, 3, 4, 5, 6, 7, 8, 9 :: nat]"
  by (simp add: upt_rec eval_nat_numeral)

lemma table_parts:
  "take 10 (drop 48 digit_value_tab) = [0..<10]" "take 26 (drop 97 digit_value_tab) = [10..<36]"
  "take 10 (drop 256 digit_value_tab) = [0..<10]" "take 26 (drop 273 digit_value_tab) = [10..<36]"
  "take 26 (drop 305 digit_value_tab) = [36..<62]" "length digit_value_tab = 464"
  by (simp_all add: digit_value_tab_def upt_0_10)

lemma table_nth:
  assumes "take k (drop s digit_value_tab) = [m..<m + k]" and "i < k" and "s + k \<le> 464"
  shows "digit_value_tab ! (s + i) = m + i"
proof -
  have "digit_value_tab ! (s + i) = take k (drop s digit_value_tab) ! i"
    using assms(2,3) table_parts(6) by simp
  then show ?thesis using assms(1,2) by simp
qed

lemma table_digits:
  "d < 10 \<Longrightarrow> digit_value_tab ! (48 + d) = d" "d < 26 \<Longrightarrow> digit_value_tab ! (97 + d) = 10 + d"
  "d < 10 \<Longrightarrow> digit_value_tab ! (256 + d) = d" "d < 26 \<Longrightarrow> digit_value_tab ! (273 + d) = 10 + d"
  "d < 26 \<Longrightarrow> digit_value_tab ! (305 + d) = 36 + d"
  using table_nth [of 10 48 0 d] table_nth [of 26 97 10 d] table_nth [of 10 256 0 d]
    table_nth [of 26 273 10 d] table_nth [of 26 305 36 d] table_parts by simp_all

lemma code_nth:
  assumes "map of_char abc = (cs :: nat list)" and "d < length cs"
  shows "(of_char (abc ! d) :: nat) = cs ! d"
  using assms by (metis length_map nth_map)

lemma digit_okI:
  assumes "(of_char (abc ! d) :: nat) = k" and "digit_value_tab ! (off + k) = d"
    and "48 \<le> k" and "k = 48 \<longrightarrow> d = 0"
  shows "digit_ok off abc d"
  using assms by (auto simp: digit_ok_def digit_value_def isspace_def Let_def)

lemma digits_ok_36: "d < 36 \<Longrightarrow> digit_ok 0 alphabet36 d"
  using code_nth [OF codes_36, of d] table_digits(1) [of d] table_digits(2) [of "d - 10"]
  by (cases "d < 10") (auto intro!: digit_okI simp: nth_append simp del: upt_rec_numeral)

lemma digits_ok_62:
  assumes "d < 62"
  shows "digit_ok 208 alphabet62 d"
proof -
  consider "d < 10" | e where "d = 10 + e" "e < 26" | e where "d = 36 + e" "e < 26"
    using assms that(1) that(2) [of "d - 10"] that(3) [of "d - 36"] by linarith
  then show ?thesis
  proof cases
    case 1
    then show ?thesis
      using code_nth [OF codes_62, of d] table_digits(3) [of d]
      by (intro digit_okI [of _ _ "48 + d"]) (simp_all add: nth_append del: upt_rec_numeral)
  next
    case (2 e)
    then show ?thesis
      using code_nth [OF codes_62, of d] table_digits(4) [of e]
      by (intro digit_okI [of _ _ "65 + e"]) (simp_all add: nth_append del: upt_rec_numeral)
  next
    case (3 e)
    then show ?thesis
      using code_nth [OF codes_62, of d] table_digits(5) [of e]
      by (intro digit_okI [of _ _ "97 + e"]) (simp_all add: nth_append del: upt_rec_numeral)
  qed
qed

lemma digit_ok_alphabet:
  assumes "d < b" and "b \<le> 62"
  shows "digit_ok (table_offset b) (alphabet b) d"
  using assms digits_ok_36 digits_ok_62
  by (auto simp: alphabet_def table_offset_def)

subsection \<open>Round trips\<close>

definition digit_text :: "nat \<Rightarrow> nat list \<Rightarrow> string" where
  "digit_text b ds = map (\<lambda>d. alphabet b ! d) ds"

lemma digit_char:
  assumes "d < b" and "b \<le> 62"
  shows "digit_value (table_offset b) (alphabet b ! d) = d" and "\<not> isspace (alphabet b ! d)"
    and "alphabet b ! d \<noteq> CHR ''-''" and "alphabet b ! d = CHR ''0'' \<Longrightarrow> d = 0"
  using digit_ok_alphabet [OF assms] by (simp_all add: digit_ok_def)

lemma zero_char: "alphabet b ! 0 = CHR ''0''"
  by (simp add: alphabet_def alphabet36_def alphabet62_def)

lemma output_base_plain:
  assumes "2 \<le> b" and "b \<le> 62"
  shows "output_base (int b) = Some (alphabet b, b)"
  using assms by (auto simp: output_base_def alphabet_def)

lemma number_text_plain:
  "number_text (alphabet b, b) x =
    (if x < 0 then [CHR ''-''] else []) @ digit_text b (digits_be b (nat \<bar>x\<bar>))"
  by (simp add: number_text_def digit_text_def)

lemma collect_digits_text:
  assumes "\<forall>d\<in>set ds. d < b" and "b \<le> 62"
  shows "collect_digits (table_offset b) (int b) (digit_text b ds) = Some ds"
  using assms(1)
  by (induction ds) (simp_all add: digit_text_def digit_char [OF _ assms(2)] Let_def)

lemma mpz_set_get:
  assumes b: "2 \<le> b" "b \<le> 62"
  shows "\<exists>s. mpz_get_str (int b) x = Some s \<and> mpz_set_str y s (int b) = (0, x)"
proof -
  define n where "n = nat \<bar>x\<bar>"
  obtain d ds where ds: "digits_be b n = d # ds" and zero: "n = 0 \<longrightarrow> d = 0 \<and> ds = []"
    and pos: "0 < n \<longrightarrow> 0 < d"
    using digits_be_leading [OF b(1)] by blast
  have less: "\<forall>e\<in>set (d # ds). e < b"
    using digits_be_less [OF b(1)] ds by metis
  have dc: "digit_value (table_offset b) (alphabet b ! d) = d" "\<not> isspace (alphabet b ! d)"
    "alphabet b ! d \<noteq> CHR ''-''" "alphabet b ! d = CHR ''0'' \<longleftrightarrow> d = 0"
    using digit_char [of d b] less b(2) zero_char by auto
  have off: "(if 36 < int b then 208 else 0) = table_offset b"
    using b by (simp add: table_offset_def)
  have neg: "\<not> isspace (CHR ''-'')" by (simp add: isspace_def)
  have val: "int (digits_val b (d # ds)) = \<bar>x\<bar>"
    using digits_val_digits_be [OF b(1), of n] unfolding ds by (simp add: n_def)
  have rest: "dropWhile (\<lambda>c. c = CHR ''0'' \<or> isspace c) (alphabet b ! d # digit_text b ds) =
      (if n = 0 then [] else digit_text b (d # ds))"
    using dc zero pos by (auto simp: digit_text_def)
  have r: "mpz_get_str (int b) x = Some (number_text (alphabet b, b) x)"
    using output_base_plain [OF b] by (simp add: mpz_get_str_def)
  have "mpz_set_str y (number_text (alphabet b, b) x) (int b) = (0, x)"
  proof (cases "x = 0")
    case True
    then have "d = 0" "ds = []" using zero by (simp_all add: n_def)
    then show ?thesis
      using b dc neg True zero_char [of b]
      unfolding mpz_set_str_def number_text_plain n_def [symmetric] ds Let_def off
      by (simp add: digit_text_def dig_of_def is_ch_def)
  next
    case False
    then have "d \<noteq> 0" "n \<noteq> 0" using pos by (simp_all add: n_def)
    then show ?thesis
      using b dc(1-3) dc(4) less val neg rest collect_digits_text [OF less b(2)]
      unfolding mpz_set_str_def number_text_plain n_def [symmetric] ds Let_def off
      by (simp add: digit_text_def dig_of_def is_ch_def)
  qed
  with r show ?thesis by blast
qed

text \<open>What follows the number on the stream cannot be taken for one of its digits.\<close>

definition stops :: "nat \<Rightarrow> string \<Rightarrow> bool" where
  "stops b t = (case t of [] \<Rightarrow> True | c # _ \<Rightarrow> b \<le> digit_value (table_offset b) c)"

lemma skip_space_spaces:
  assumes "list_all isspace ws" and "\<not> isspace c"
  shows "skip_space (ws @ c # s) n = (Some c, s, n + length ws + 1)"
  using assms by (induction ws arbitrary: n) simp_all

lemma read_digits_stop:
  assumes "b \<le> digit_value (table_offset b) c"
  shows "read_digits (table_offset b) (int b) c s = ([], Some c, s)"
  using assms by (cases s) simp_all

lemma read_digits_text:
  assumes "\<forall>e\<in>set (d # ds). e < b" and "b \<le> 62" and "stops b t"
  shows "\<exists>e r. read_digits (table_offset b) (int b) (alphabet b ! d) (digit_text b ds @ t) =
    (d # ds, e, r) \<and> ungetc e r = t"
  using assms(1)
proof (induction ds arbitrary: d)
  case Nil
  then show ?case
    using digit_char(1) [of d b] assms(2,3)
    by (cases t) (auto simp: digit_text_def ungetc_def stops_def read_digits_stop)
next
  case (Cons a ds)
  obtain e r where "read_digits (table_offset b) (int b) (alphabet b ! a) (digit_text b ds @ t) =
    (a # ds, e, r)" "ungetc e r = t"
    using Cons.IH [of a] Cons.prems by auto
  then show ?case
    using digit_char(1) [of d b] Cons.prems assms(2) by (simp add: digit_text_def)
qed

lemma mpz_inp_out:
  assumes b: "2 \<le> b" "b \<le> 62" and f: "f_rest f = ws @ snd (mpz_out_str (int b) x) @ t"
    and ws: "list_all isspace ws" and t: "stops b t"
  shows "mpz_inp_str y f (int b) =
    (length ws + fst (mpz_out_str (int b) x), x,
     \<lparr>f_before = f_before f @ ws @ snd (mpz_out_str (int b) x), f_rest = t\<rparr>)"
proof -
  define n where "n = nat \<bar>x\<bar>"
  obtain d ds where ds: "digits_be b n = d # ds" and zero: "n = 0 \<longrightarrow> d = 0 \<and> ds = []"
    and pos: "0 < n \<longrightarrow> 0 < d"
    using digits_be_leading [OF b(1)] by blast
  have less: "\<forall>e\<in>set (d # ds). e < b"
    using digits_be_less [OF b(1)] ds by metis
  have dc: "digit_value (table_offset b) (alphabet b ! d) = d" "\<not> isspace (alphabet b ! d)"
    "alphabet b ! d \<noteq> CHR ''-''" "alphabet b ! d = CHR ''0'' \<longleftrightarrow> d = 0" "d < b"
    using digit_char [of d b] less b(2) zero_char by auto
  have off: "(if 36 < int b then 208 else 0) = table_offset b"
    using b by (simp add: table_offset_def)
  have neg: "\<not> isspace (CHR ''-'')" by (simp add: isspace_def)
  have val: "int (digits_val b (d # ds)) = \<bar>x\<bar>"
    using digits_val_digits_be [OF b(1), of n] unfolding ds by (simp add: n_def)
  have out: "mpz_out_str (int b) x = (length (number_text (alphabet b, b) x), number_text (alphabet b, b) x)"
    using output_base_plain [OF b] by (simp add: mpz_out_str_def Let_def)
  have tx: "number_text (alphabet b, b) x =
      (if x < 0 then [CHR ''-''] else []) @ alphabet b ! d # digit_text b ds"
    unfolding number_text_plain n_def [symmetric] ds by (simp add: digit_text_def)
  obtain e r where er: "read_digits (table_offset b) (int b) (alphabet b ! d) (digit_text b ds @ t) =
      (d # ds, e, r)" "ungetc e r = t"
    using read_digits_text [OF less b(2) t] by blast
  have nz: "x \<noteq> 0 \<Longrightarrow> skip_zeros (alphabet b ! d) s k = (Some (alphabet b ! d), s, k)" for s k
    using dc(4) pos by (cases s) (simp_all add: n_def)
  have zeros: "\<exists>c u. skip_zeros (CHR ''0'') t k = (c, u, k + 1) \<and>
      (case c of None \<Rightarrow> ([], None, u) | Some c \<Rightarrow> read_digits (table_offset b) (int b) c u) = ([], c, u) \<and>
      ungetc c u = t" for k
  proof (cases t)
    case Nil
    then show ?thesis by (simp add: ungetc_def)
  next
    case (Cons c u)
    then have "b \<le> digit_value (table_offset b) c" using t by (simp add: stops_def)
    moreover have "c \<noteq> CHR ''0''"
      using calculation digit_char(1) [of 0 b] zero_char [of b] b by auto
    moreover have "skip_zeros c u (k + 1) = (Some c, u, k + 1)"
      using calculation(2) by (cases u) simp_all
    ultimately show ?thesis
      by (simp add: Cons ungetc_def read_digits_stop)
  qed
  have "mpz_inp_str_nowhite y (tl (number_text (alphabet b, b) x @ t)) (int b)
      (Some (hd (number_text (alphabet b, b) x))) k =
      (k + length (number_text (alphabet b, b) x) - 1, x, t)" for k
  proof (cases "x = 0")
    case True
    then have "d = 0" "ds = []" using zero by (simp_all add: n_def)
    then show ?thesis
      using b dc zeros [of k] True zero_char [of b]
      unfolding mpz_inp_str_nowhite_def tx Let_def off
      by (auto simp: digit_text_def dig_of_def is_ch_def)
  next
    case False
    then show ?thesis
      using b dc val er nz
      unfolding mpz_inp_str_nowhite_def tx Let_def off
      by (simp add: digit_text_def dig_of_def is_ch_def)
  qed
  moreover have "skip_space (ws @ number_text (alphabet b, b) x @ t) 0 =
      (Some (hd (number_text (alphabet b, b) x)), tl (number_text (alphabet b, b) x @ t), length ws + 1)"
    using skip_space_spaces [OF ws] neg dc(2) by (auto simp: tx)
  moreover have "upto_rest f t = \<lparr>f_before = f_before f @ ws @ number_text (alphabet b, b) x, f_rest = t\<rparr>"
    using f by (intro upto_rest_suffix) (simp add: out)
  ultimately show ?thesis
    using f by (simp add: mpz_inp_str_def out)
qed

subsection \<open>What a text denotes\<close>

definition text_digits :: "nat \<Rightarrow> string \<Rightarrow> nat list" where
  "text_digits b s = map (digit_value (table_offset b)) (filter (\<lambda>c. \<not> isspace c) s)"

text \<open>
  White space, an optional minus sign directly followed by a digit, then digits of the base with
  white space anywhere between and behind them.
\<close>

definition number_of_text :: "nat \<Rightarrow> string \<Rightarrow> int option" where
  "number_of_text b s =
     (let t = dropWhile isspace s;
          neg = (t \<noteq> [] \<and> hd t = CHR ''-'');
          u = (if neg then tl t else t);
          v = int (digits_val b (text_digits b u))
      in if u \<noteq> [] \<and> digit_value (table_offset b) (hd u) < b \<and> list_all (\<lambda>d. d < b) (text_digits b u)
         then Some (if neg then - v else v) else None)"

lemma collect_digits_filter:
  "collect_digits (table_offset b) (int b) s =
    (if list_all (\<lambda>d. d < b) (text_digits b s) then Some (text_digits b s) else None)"
  by (induction s) (auto simp: text_digits_def Let_def)

lemma digit_value_zero: "b \<le> 62 \<Longrightarrow> 0 < b \<Longrightarrow> digit_value (table_offset b) (CHR ''0'') = 0"
  using digit_char(1) [of 0 b] zero_char [of b] by simp

lemma drop_zeros:
  assumes "0 < b" and "b \<le> 62"
  defines "rest \<equiv> \<lambda>u. dropWhile (\<lambda>c. c = CHR ''0'' \<or> isspace c) u"
  shows "digits_val b (text_digits b (rest u)) = digits_val b (text_digits b u)"
    and "list_all (\<lambda>d. d < b) (text_digits b (rest u)) = list_all (\<lambda>d. d < b) (text_digits b u)"
proof -
  have z: "digit_value (table_offset b) (CHR ''0'') = 0"
    using digit_value_zero assms by simp
  have v: "digits_val b (0 # ds) = digits_val b ds" for ds
    by (simp add: digits_val_def)
  show "digits_val b (text_digits b (rest u)) = digits_val b (text_digits b u)"
    unfolding rest_def by (induction u) (auto simp: text_digits_def z v)
  show "list_all (\<lambda>d. d < b) (text_digits b (rest u)) = list_all (\<lambda>d. d < b) (text_digits b u)"
    unfolding rest_def using assms by (induction u) (auto simp: text_digits_def z)
qed

lemma table_end: "digit_value_tab ! 0 = 255" "digit_value_tab ! 208 = 255"
  by (simp_all add: digit_value_tab_def)

lemma mpz_set_str_eq:
  assumes b: "2 \<le> b" "b \<le> 62"
  shows "mpz_set_str x s (int b) = (case number_of_text b s of None \<Rightarrow> (-1, x) | Some v \<Rightarrow> (0, v))"
proof -
  define t where "t = dropWhile isspace s"
  define u where "u = (if t \<noteq> [] \<and> hd t = CHR ''-'' then tl t else t)"
  define rest where "rest = dropWhile (\<lambda>c. c = CHR ''0'' \<or> isspace c) u"
  have off: "(if 36 < int b then 208 else 0) = table_offset b"
    using b by (simp add: table_offset_def)
  have none: "b \<le> dig_of (table_offset b) None"
    using b table_end by (simp add: dig_of_def table_offset_def)
  have empty: "text_digits b [] = []" "digits_val b [] = 0"
    by (simp_all add: text_digits_def digits_val_def)
  have "collect_digits (table_offset b) (int b) rest =
      (if list_all (\<lambda>d. d < b) (text_digits b u) then Some (text_digits b rest) else None)"
    using drop_zeros(2) [of b u] b by (simp add: collect_digits_filter rest_def)
  moreover have "digits_val b (text_digits b rest) = digits_val b (text_digits b u)"
    using drop_zeros(1) [of b u] b by (simp add: rest_def)
  moreover have "list_all (\<lambda>d. d < b) (text_digits b u)" "digits_val b (text_digits b u) = 0"
    if "rest = []"
    using drop_zeros [of b u, folded rest_def] b that by (simp_all add: empty)
  moreover have "mpz_set_str x s (int b) =
    (if u = [] \<or> b \<le> digit_value (table_offset b) (hd u) then (-1, x)
     else if rest = [] then (0, 0)
     else case collect_digits (table_offset b) (int b) rest of None \<Rightarrow> (-1, x)
       | Some ds \<Rightarrow> let v = int (digits_val b ds)
            in (0, if t \<noteq> [] \<and> hd t = CHR ''-'' then - v else v))"
  proof (cases t)
    case Nil
    then show ?thesis
      using b none unfolding mpz_set_str_def Let_def off t_def [symmetric]
      by (simp add: u_def is_ch_def)
  next
    case (Cons c v)
    show ?thesis
    proof (cases "c = CHR ''-''")
      case True
      then show ?thesis
        using b none Cons unfolding mpz_set_str_def Let_def off t_def [symmetric] rest_def
        by (cases v) (simp_all add: u_def is_ch_def dig_of_def cong: option.case_cong if_cong
            del: dropWhile.simps dropWhile_eq_Nil_conv collect_digits.simps)
    next
      case False
      then show ?thesis
        using b none Cons unfolding mpz_set_str_def Let_def off t_def [symmetric] rest_def
        by (simp add: u_def is_ch_def dig_of_def cong: option.case_cong if_cong
            del: dropWhile.simps dropWhile_eq_Nil_conv collect_digits.simps)
    qed
  qed
  ultimately show ?thesis
    unfolding number_of_text_def Let_def t_def [symmetric] u_def [symmetric] by auto
qed

subsection \<open>Properties\<close>

text \<open>
  C31: numbers survive the trip through text. In every base from 2 to 62 \<open>mpz_get_str\<close> returns a
  string that \<open>mpz_set_str\<close> accepts and reads back as the same number.
\<close>

theorem mpz_text_roundtrip:
  assumes "2 \<le> b" and "b \<le> 62"
  shows "\<exists>s. mpz_get_str (int b) x = Some s \<and> mpz_set_str y s (int b) = (0, x)"
  using assms by (rule mpz_set_get)

theorem mpz_text_roundtrip_witness:
  "\<exists>s. mpz_get_str 36 (- 71) = Some s \<and> mpz_set_str 5 s 36 = (0, - 71)"
  using mpz_text_roundtrip [of 36 "- 71" 5] by simp

text \<open>
  C33: which strings \<open>mpz_set_str\<close> accepts and what they denote: it succeeds exactly on the texts of
  \<open>number_of_text\<close>, with their value, and otherwise returns -1 and leaves the number alone.
\<close>

theorem mpz_set_str_accepts:
  assumes "2 \<le> b" and "b \<le> 62"
  shows "mpz_set_str x s (int b) =
    (case number_of_text b s of None \<Rightarrow> (-1, x) | Some v \<Rightarrow> (0, v))"
  using assms by (rule mpz_set_str_eq)

theorem mpz_set_str_accepts_witness:
  "mpz_set_str 9 '' '' 36 = (-1, 9)"
  using mpz_set_str_accepts [of 36 9 "'' ''"]
  by (simp add: number_of_text_def isspace_def Let_def)

text \<open>
  C32: \<open>mpz_inp_str\<close> reads what \<open>mpz_out_str\<close> wrote, behind any white space and before any character
  that is no digit of the base: it returns the number of characters it consumed and leaves the
  stream right behind the number.
\<close>

theorem mpz_stream_roundtrip:
  assumes "2 \<le> b" and "b \<le> 62" and "f_rest f = ws @ snd (mpz_out_str (int b) x) @ t"
    and "list_all isspace ws" and "stops b t"
  shows "mpz_inp_str y f (int b) =
    (length ws + fst (mpz_out_str (int b) x), x,
     \<lparr>f_before = f_before f @ ws @ snd (mpz_out_str (int b) x), f_rest = t\<rparr>)"
  using assms by (rule mpz_inp_out)

theorem mpz_stream_roundtrip_witness:
  "fst (snd (mpz_inp_str 0 (stream_of ('' '' @ snd (mpz_out_str 36 251) @ [newline])) 36)) = 251"
proof -
  have "of_char newline = (10 :: nat)" by (simp add: newline_def)
  then have "stops 36 [newline]"
    by (simp add: stops_def digit_value_def table_offset_def digit_value_tab_def)
  moreover have "list_all isspace '' ''" by (simp add: isspace_def)
  ultimately show ?thesis
    using mpz_stream_roundtrip [of 36 "stream_of ('' '' @ snd (mpz_out_str 36 251) @ [newline])"
        "'' ''" 251 "[newline]" 0]
    by (simp add: stream_of_def)
qed

end
