(* ===== verification/Bf_Export.thy ===== *)
theory Bf_Export
  imports Bf_Ibe Gmp_Text
begin

text \<open>
  The text form of the public parameters: \<open>bf_params_to_file\<close>, \<open>bf_params_from_file\<close> and their string
  versions (\<open>bfibe/src/export.c\<close>). Streams and \<open>fscanf\<close> are those of \<open>C_Stdio\<close>, the group order \<open>q\<close>
  goes through the model of GMP's text functions. Buffers that the library reads as strings end at
  the first zero character.
\<close>

definition MPZ_OUTPUT_BASE :: int where "MPZ_OUTPUT_BASE = 36"
definition BUFFER_SIZE :: nat where "BUFFER_SIZE = 8192"

definition NUL :: char where "NUL = CHR 0x00"

definition c_string :: "string \<Rightarrow> string" where
  "c_string s = takeWhile (\<lambda>c. c \<noteq> NUL) s"

definition bf_params_to_file ::
  "('par, 'g1, 'g2, 'gt, 'pp) lib \<Rightarrow> ('par, 'g1, 'pp) BFPublicParameters \<Rightarrow> string"
where
  "bf_params_to_file L params =
     ''security '' @ level_text (sec_level (security params)) @ [newline] @
     g1_str L (pairing params) (bp_P params) @ [newline] @
     g1_str L (pairing params) (bp_P_pub params) @ [newline] @
     snd (mpz_out_str MPZ_OUTPUT_BASE (bp_q params)) @ [newline] @
     par_out_str L (pbc_par params)"

text \<open>
  \<open>bf_params_from_file\<close>: the return value and the parameters. \<open>garbage\<close> is what the uninitialised
  \<open>security_level\<close> holds; it is used when \<open>fscanf\<close> returns \<open>EOF\<close>, which \<open>!fscanf (..)\<close> takes for
  success. The result of \<open>setup_security\<close> is not looked at.
\<close>

definition bf_params_from_file ::
  "('par, 'g1, 'g2, 'gt, 'pp) lib \<Rightarrow> 8 word \<Rightarrow> FILE \<Rightarrow> ('par, 'g1, 'pp) BFPublicParameters \<Rightarrow>
     bool \<times> ('par, 'g1, 'pp) BFPublicParameters"
where
  "bf_params_from_file L garbage inp params =
     (let (ret, v, inp) = fscanf_security inp; security_level = case_option garbage id v
      in if ret = 0 then (False, params)
         else
           let params = params\<lparr>security := snd (setup_security (security params) security_level)\<rparr>;
               (P_buf, inp) = fgets BUFFER_SIZE inp
           in case P_buf of None \<Rightarrow> (False, params) | Some P_buf \<Rightarrow>
           let (P_pub_buf, inp) = fgets BUFFER_SIZE inp
           in case P_pub_buf of None \<Rightarrow> (False, params) | Some P_pub_buf \<Rightarrow>
           let (nread, q, inp) = mpz_inp_str 0 inp MPZ_OUTPUT_BASE; params = params\<lparr>bp_q := q\<rparr>
           in if nread = 0 then (False, params)
              else
                let current_pos = ftell inp; inp = fseek_end inp; param_len = ftell inp - current_pos + 1;
                    inp = fseek_set inp current_pos;
                    (param_buf, inp) = fread param_len inp
                in if param_buf = [] then (False, params)
                   else case par_set_str L (c_string param_buf) of
                     None \<Rightarrow> (False, params)
                   | Some c \<Rightarrow>
                     let params = params\<lparr>pbc_par := c, pairing := c\<rparr>;
                         (nP, P) = g1_set_str L c (c_string P_buf) 10; params = params\<lparr>bp_P := P\<rparr>
                     in if nP = 0 then (False, params)
                        else
                          let (nP_pub, P_pub) = g1_set_str L c (c_string P_pub_buf) 10;
                              params = params\<lparr>bp_P_pub := P_pub\<rparr>
                          in if nP_pub = 0 then (False, params)
                             else (True, params\<lparr>P_pub_precomp := pp_init L c P_pub\<rparr>))"

text \<open>
  \<open>bf_params_to_string\<close> returns the text and its length through \<open>open_memstream\<close>;
  \<open>bf_params_from_string\<close> opens the string with \<open>fmemopen\<close>. Whether that works for length 0 differs
  between C libraries (\<open>empty_ok\<close>); where it does not, the stream is the null pointer.
\<close>

definition bf_params_to_string ::
  "('par, 'g1, 'g2, 'gt, 'pp) lib \<Rightarrow> ('par, 'g1, 'pp) BFPublicParameters \<Rightarrow> nat \<times> string"
where
  "bf_params_to_string L params = (let s = bf_params_to_file L params in (length s, s))"

definition bf_params_from_string ::
  "('par, 'g1, 'g2, 'gt, 'pp) lib \<Rightarrow> bool \<Rightarrow> 8 word \<Rightarrow> string \<Rightarrow> ('par, 'g1, 'pp) BFPublicParameters \<Rightarrow>
     (bool \<times> ('par, 'g1, 'pp) BFPublicParameters) outcome"
where
  "bf_params_from_string L empty_ok garbage s params =
     (if s = [] \<and> \<not> empty_ok then Inl NullDeref else Inr (bf_params_from_file L garbage (stream_of s) params))"

subsection \<open>What is assumed of the library\<close>

text \<open>
  The text of points and parameters: points print on one line that fits the reader's buffer and are
  read back from that line, parameters are read back from their text behind the line feed.
\<close>

definition text_laws :: "('par, 'g1, 'g2, 'gt, 'pp) lib \<Rightarrow> 'par \<Rightarrow> bool" where
  "text_laws L c \<longleftrightarrow>
     (\<forall>X. newline \<notin> set (g1_str L c X) \<and> NUL \<notin> set (g1_str L c X) \<and>
        length (g1_str L c X) + 1 < BUFFER_SIZE \<and> g1_str L c X \<noteq> [] \<and> \<not> isspace (hd (g1_str L c X)) \<and>
        fst (g1_set_str L c (g1_str L c X @ [newline]) 10) \<noteq> 0 \<and>
        snd (g1_set_str L c (g1_str L c X @ [newline]) 10) = X) \<and>
     NUL \<notin> set (par_out_str L c) \<and> par_set_str L (newline # par_out_str L c) = Some c"

subsection \<open>The level\<close>

lemma digit_char_code: "(d :: nat) < 10 \<Longrightarrow> (of_char (char_of (48 + d) :: char) :: nat) = 48 + d"
  by simp

lemma isdigit_char: "(d :: nat) < 10 \<Longrightarrow> isdigit (char_of (48 + d))"
  by (simp add: isdigit_def digit_char_code Let_def)

lemma level_text_digits:
  "list_all isdigit (level_text v)" "level_text v \<noteq> []" "decimal (level_text v) = unat v"
proof -
  define k where "k = unat v"
  have k: "k < 256" by (simp add: k_def)
  have d: "k div 100 < 10" "k div 10 mod 10 < 10" "k mod 10 < 10" using k by simp_all
  have t: "level_text v = (if k < 100 then [] else [char_of (48 + k div 100)]) @
      (if k < 10 then [] else [char_of (48 + k div 10 mod 10)]) @ [char_of (48 + k mod 10)]"
    by (simp add: level_text_def k_def Let_def)
  show "list_all isdigit (level_text v)" "level_text v \<noteq> []"
    using d by (simp_all add: t isdigit_char)
  have "decimal (level_text v) = k"
  proof -
    consider "k < 10" | "10 \<le> k" "k < 100" | "100 \<le> k" by linarith
    then show ?thesis
    proof cases
      case 2
      then have "k div 10 mod 10 = k div 10" by simp
      then show ?thesis
        using 2 d by (simp add: t decimal_def digit_char_code)
    next
      case 3
      have "k div 100 * 10 + k div 10 mod 10 = k div 10"
        by (simp add: div_mult2_eq [of k 10 10, simplified])
      then show ?thesis
        using 3 d by (simp add: t decimal_def digit_char_code algebra_simps)
    qed (use d in \<open>simp add: t decimal_def digit_char_code\<close>)
  qed
  then show "decimal (level_text v) = unat v" by (simp add: k_def)
qed

lemma isdigit_facts: "isdigit c \<Longrightarrow> \<not> isspace c" "isdigit c \<Longrightarrow> c \<noteq> CHR ''-''" "isdigit c \<Longrightarrow> c \<noteq> CHR ''+''"
  "\<not> isdigit newline" "isspace newline"
  by (auto simp: isdigit_def isspace_def newline_def Let_def)

lemma fscanf_security_text:
  assumes "f_rest f = ''security '' @ level_text v @ newline # c # t" and "\<not> isspace c"
  shows "fscanf_security f = (1, Some v,
    \<lparr>f_before = f_before f @ ''security '' @ level_text v @ [newline], f_rest = c # t\<rparr>)"
proof -
  obtain d ds where ds: "level_text v = d # ds" using level_text_digits(2) by (cases "level_text v") auto
  have dig: "isdigit d" "list_all isdigit ds" using level_text_digits(1) [of v] by (simp_all add: ds)
  have lit: "scan_literal ''security '' (f_rest f) = Matched (level_text v @ newline # c # t)"
    using isdigit_facts(1) [OF dig(1)] by (simp add: assms(1) ds isspace_def)
  have tw: "takeWhile isdigit (level_text v @ newline # c # t) = level_text v"
    "dropWhile isdigit (level_text v @ newline # c # t) = newline # c # t"
    using level_text_digits(1) [of v] isdigit_facts(4)
    by (simp_all add: takeWhile_append2 dropWhile_append2 list_all_iff)
  have "unat v \<le> 2 ^ 64 - 1"
    by (rule order.trans [OF less_imp_le [OF unat_byte_less]]) simp
  then have val: "strtoul_clamp (decimal (level_text v)) = unat v"
    unfolding level_text_digits strtoul_clamp_def by (rule min.absorb1)
  have "scan_hhu (level_text v @ newline # c # t) = (1, Some v, newline # c # t)"
    using tw val isdigit_facts(1-3) [OF dig(1)] by (simp add: scan_hhu_def Let_def ds)
  then show ?thesis
    using lit assms isdigit_facts(5) upto_rest_suffix [of f "''security '' @ level_text v @ [newline]" "c # t"]
    by (simp add: fscanf_security_def)
qed

subsection \<open>Reading back\<close>

text \<open>The parameters that the code makes: the security record is that of its level.\<close>

definition canonical :: "('par, 'g1, 'g2, 'gt, 'pp) lib \<Rightarrow> ('par, 'g1, 'pp) BFPublicParameters \<Rightarrow> bool" where
  "canonical L params \<longleftrightarrow> pairing params = pbc_par params \<and>
     P_pub_precomp params = pp_init L (pairing params) (bp_P_pub params) \<and>
     setup_security zero_security (sec_level (security params)) = (True, security params)"

lemma text_lawsD:
  assumes "text_laws L c"
  shows "newline \<notin> set (g1_str L c X)" "length (g1_str L c X) + 1 < BUFFER_SIZE"
    "\<exists>a t. g1_str L c X = a # t \<and> \<not> isspace a"
    "\<exists>n. n \<noteq> 0 \<and> g1_set_str L c (c_string (g1_str L c X @ [newline])) 10 = (n, X)"
    "par_set_str L (c_string (newline # par_out_str L c)) = Some c"
proof -
  have laws: "newline \<notin> set (g1_str L c X)" "NUL \<notin> set (g1_str L c X)"
      "length (g1_str L c X) + 1 < BUFFER_SIZE" "g1_str L c X \<noteq> []" "\<not> isspace (hd (g1_str L c X))"
      "fst (g1_set_str L c (g1_str L c X @ [newline]) 10) \<noteq> 0"
      "snd (g1_set_str L c (g1_str L c X @ [newline]) 10) = X"
      "NUL \<notin> set (par_out_str L c)" "par_set_str L (newline # par_out_str L c) = Some c"
    using assms by (simp_all add: text_laws_def)
  show "newline \<notin> set (g1_str L c X)" "length (g1_str L c X) + 1 < BUFFER_SIZE"
    using laws by simp_all
  show "\<exists>a t. g1_str L c X = a # t \<and> \<not> isspace a"
    using laws(4,5) by (cases "g1_str L c X") auto
  have whole: "c_string s = s" if "NUL \<notin> set s" for s
    using that by (induction s) (auto simp: c_string_def)
  have nl: "NUL \<noteq> newline" by (simp add: NUL_def newline_def)
  show "\<exists>n. n \<noteq> 0 \<and> g1_set_str L c (c_string (g1_str L c X @ [newline])) 10 = (n, X)"
    using laws nl whole [of "g1_str L c X @ [newline]"]
    by (intro exI [of _ "fst (g1_set_str L c (g1_str L c X @ [newline]) 10)"]) (simp add: prod_eq_iff)
  show "par_set_str L (c_string (newline # par_out_str L c)) = Some c"
    using laws nl whole [of "newline # par_out_str L c"] by simp
qed

lemma stops_newline: "stops 36 (newline # t)"
proof -
  have "of_char newline = (10 :: nat)" by (simp add: newline_def)
  then show ?thesis
    by (simp add: stops_def digit_value_def table_offset_def digit_value_tab_def)
qed

lemma mpz_out_str_start:
  "snd (mpz_out_str 36 x) \<noteq> []"
  using output_base_plain [of 36] digits_be_leading [of 36 "nat \<bar>x\<bar>"]
  by (auto simp: mpz_out_str_def Let_def number_text_def)

lemma params_file_read:
  assumes T: "text_laws L (pbc_par params)"
    and can: "pairing params = pbc_par params"
      "P_pub_precomp params = pp_init L (pairing params) (bp_P_pub params)"
    and f: "f_rest f = bf_params_to_file L params"
  shows "bf_params_from_file L garbage f params0 =
    (True, params\<lparr>security := snd (setup_security (security params0) (sec_level (security params)))\<rparr>)"
proof -
  define c where "c = pbc_par params"
  define lv where "lv = sec_level (security params)"
  define ln where "ln = (\<lambda>X. g1_str L c X @ [newline])"
  define qs where "qs = snd (mpz_out_str 36 (bp_q params))"
  define tail where "tail = newline # par_out_str L c"
  have pc: "pairing params = c" using can by (simp add: c_def)
  define sec where "sec = snd (setup_security (security params0) lv)"
  note laws = text_lawsD [OF T [folded c_def]]
  obtain a t where at: "g1_str L c (bp_P params) = a # t" "\<not> isspace a" using laws(3) by blast
  define f1 where "f1 = \<lparr>f_before = f_before f @ ''security '' @ level_text lv @ [newline],
    f_rest = ln (bp_P params) @ ln (bp_P_pub params) @ qs @ tail\<rparr>"
  have rest: "f_rest f = ''security '' @ level_text lv @ newline # f_rest f1"
    using f by (simp add: bf_params_to_file_def f1_def ln_def qs_def tail_def pc lv_def c_def MPZ_OUTPUT_BASE_def)
  have scan: "fscanf_security f = (1, Some lv, f1)"
    using fscanf_security_text [of f lv a "t @ newline # ln (bp_P_pub params) @ qs @ tail"] rest at
    by (simp add: f1_def ln_def)
  define f2 where "f2 = \<lparr>f_before = f_before f1 @ ln (bp_P params), f_rest = ln (bp_P_pub params) @ qs @ tail\<rparr>"
  have get1: "fgets BUFFER_SIZE f1 = (Some (ln (bp_P params)), f2)"
    using fgets_line [of f1 "g1_str L c (bp_P params)" "ln (bp_P_pub params) @ qs @ tail"] laws(1,2)
    by (simp add: f1_def f2_def ln_def)
  define f3 where "f3 = \<lparr>f_before = f_before f2 @ ln (bp_P_pub params), f_rest = qs @ tail\<rparr>"
  have get2: "fgets BUFFER_SIZE f2 = (Some (ln (bp_P_pub params)), f3)"
    using fgets_line [of f2 "g1_str L c (bp_P_pub params)" "qs @ tail"] laws(1,2)
    by (simp add: f2_def f3_def ln_def)
  define f4 where "f4 = \<lparr>f_before = f_before f3 @ qs, f_rest = tail\<rparr>"
  have inp: "mpz_inp_str 0 f3 36 = (length qs, bp_q params, f4)"
    using mpz_inp_out [of 36 f3 "[]" "bp_q params" tail 0] stops_newline
    by (simp add: f3_def f4_def qs_def tail_def mpz_out_str_def split: option.split) (simp add: Let_def)
  have qs: "qs \<noteq> []" using mpz_out_str_start by (simp add: qs_def)
  have bck: "fseek_set (fseek_end f4) (ftell f4) = f4"
    by (simp add: fseek_there_and_back f4_def)
  have plen: "ftell (fseek_end f4) - ftell f4 = length tail"
    by (simp add: ftell_def fseek_end_def f4_def)
  have read: "fst (fread (Suc (length tail)) f4) = tail"
    by (simp add: fread_def f4_def)
  obtain n1 where n1: "g1_set_str L c (c_string (ln (bp_P params))) 10 = (n1, bp_P params)" "n1 \<noteq> 0"
    using laws(4) unfolding ln_def by blast
  obtain n2 where n2: "g1_set_str L c (c_string (ln (bp_P_pub params))) 10 = (n2, bp_P_pub params)" "n2 \<noteq> 0"
    using laws(4) unfolding ln_def by blast
  have par: "par_set_str L (c_string tail) = Some c" using laws(5) by (simp add: tail_def)
  have tl: "tail \<noteq> []" by (simp add: tail_def)
  obtain f5 where rd: "fread (Suc (length tail)) f4 = (tail, f5)"
    using read by (cases "fread (Suc (length tail)) f4") simp
  have final: "params0\<lparr>security := sec, bp_q := bp_q params, pbc_par := c, pairing := c,
      bp_P := bp_P params, bp_P_pub := bp_P_pub params, P_pub_precomp := pp_init L c (bp_P_pub params)\<rparr> =
    params\<lparr>security := sec\<rparr>"
    using can pc by (simp add: c_def)
  show ?thesis
    unfolding bf_params_from_file_def MPZ_OUTPUT_BASE_def
    by (simp add: Let_def scan sec_def [symmetric] lv_def [symmetric] get1 get2 inp qs bck plen rd tl
        par n1 n2 final)
qed

lemma canonical_security:
  "canonical L params \<Longrightarrow>
    snd (setup_security (security params0) (sec_level (security params))) = security params"
  using setup_security_fails [of "security params0" "sec_level (security params)"]
    setup_security_fails [of zero_security "sec_level (security params)"]
    setup_security_canonical [of "security params0" "sec_level (security params)" _ zero_security]
  by (cases "setup_security (security params0) (sec_level (security params))") (auto simp: canonical_def)

lemma params_file_roundtrip:
  assumes T: "text_laws L (pbc_par params)" and can: "canonical L params"
    and f: "f_rest f = bf_params_to_file L params"
  shows "bf_params_from_file L garbage f params0 = (True, params)"
  using params_file_read [OF T _ _ f, of garbage params0] can canonical_security [OF can, of params0]
  by (simp add: canonical_def)

lemma params_text_not_empty: "bf_params_to_file L params \<noteq> []"
  by (simp add: bf_params_to_file_def)

subsection \<open>Properties\<close>

lemma canonical_setup:
  assumes "bf_setup L D params s level = Some (True, params', s')"
  shows "canonical L params'"
proof -
  obtain sec where sec: "setup_security (security params) level = (True, sec)"
    using assms by (auto simp: bf_setup_def split: prod.splits bool.splits)
  have "snd (setup_security zero_security level) = sec" "fst (setup_security zero_security level)"
    using sec setup_security_fails [of zero_security level] setup_security_fails [of "security params" level]
      setup_security_canonical [of zero_security level _ "security params" sec]
    by (cases "setup_security zero_security level"; auto)+
  then have "setup_security zero_security level = (True, sec)" by (simp add: prod_eq_iff)
  then show ?thesis
    using assms sec setup_security_wf(2) [OF sec]
    by (auto simp: bf_setup_def bf_generate_shard_def canonical_def Let_def split: option.splits)
qed

text \<open>
  C14: public parameters survive their text form: \<open>bf_params_from_string\<close> reads what
  \<open>bf_params_to_string\<close> wrote as the same parameters, whatever the struct held before.
\<close>

theorem params_string_roundtrip:
  assumes "text_laws L (pbc_par params)" and "canonical L params"
  shows "bf_params_from_string L empty_ok garbage (snd (bf_params_to_string L params)) params0 =
    Inr (True, params)"
  using params_file_roundtrip [OF assms, of "stream_of (bf_params_to_file L params)" garbage params0]
    params_text_not_empty [of L params]
  by (simp add: bf_params_from_string_def bf_params_to_string_def Let_def stream_of_def)

lemma nibble_code:
  assumes "k < 16"
  shows "(of_char (nibble_char k) :: nat) = (if k < 10 then 48 + k else 87 + k)" "char_nibble (nibble_char k) = k"
proof -
  show code: "(of_char (nibble_char k) :: nat) = (if k < 10 then 48 + k else 87 + k)"
    using assms by (simp add: nibble_char_def)
  show "char_nibble (nibble_char k) = k"
    unfolding char_nibble_def Let_def code using assms by simp
qed

lemma nibble_char_ok:
  assumes "k < 16"
  shows "nibble_char k \<noteq> newline" "nibble_char k \<noteq> NUL" "\<not> isspace (nibble_char k)"
proof -
  have "(of_char (nibble_char k) :: nat) \<noteq> of_char newline" "(of_char (nibble_char k) :: nat) \<noteq> of_char NUL"
    using nibble_code(1) [OF assms] by (auto simp: newline_def NUL_def)
  then show "nibble_char k \<noteq> newline" "nibble_char k \<noteq> NUL" by auto
  show "\<not> isspace (nibble_char k)"
    using nibble_code(1) [OF assms] by (simp add: isspace_def Let_def)
qed

lemma sample_text_laws: "text_laws sample_lib ()"
proof -
  have hex: "unat x div 16 < 16" "unat x mod 16 < 16" for x :: byte
    using unat_byte_less [of x] by linarith+
  have join: "(of_nat (unat x div 16 * 16 + unat x mod 16) :: byte) = x" for x :: byte
    unfolding div_mult_mod_eq by simp
  have "sample_set_str () (sample_str () x @ [newline]) 10 = (2, x)" for x
    using nibble_code(2) [OF hex(1) [of x]] nibble_code(2) [OF hex(2) [of x]] join [of x]
    by (simp add: sample_set_str_def sample_str_def del: of_nat_add of_nat_mult)
  moreover have "NUL \<notin> set ''type a''" by (simp add: NUL_def)
  ultimately show ?thesis
    using nibble_char_ok [OF hex(1)] nibble_char_ok [OF hex(2)]
      nibble_char_ok(1,2) [OF hex(1), symmetric] nibble_char_ok(1,2) [OF hex(2), symmetric]
    by (auto simp: text_laws_def sample_lib_def sample_str_def BUFFER_SIZE_def)
qed

theorem params_string_roundtrip_witness:
  "bf_params_from_string sample_lib False 0 (snd (bf_params_to_string sample_lib sample_params)) sample_params =
    Inr (True, sample_params)"
  by (rule params_string_roundtrip)
     (simp_all add: sample_text_laws canonical_def, simp add: sample_security_def setup_security_def zero_security_def)

text \<open>
  An unknown security level in the file goes unnoticed: \<open>bf_params_from_file\<close> returns true, with
  only the level of the security record set. In a struct that was zeroed before, the hash function is
  then the null pointer and the first use of the parameters calls it.
\<close>

theorem params_file_unknown_level:
  assumes "text_laws L (pbc_par params)" and "pairing params = pbc_par params"
    and "P_pub_precomp params = pp_init L (pairing params) (bp_P_pub params)"
    and "sec_level (security params) \<notin> {1, 2, 3, 4, 5}" and "security params0 = zero_security"
  shows "\<exists>params'. bf_params_from_file L garbage (stream_of (bf_params_to_file L params)) params0 =
      (True, params') \<and> hashfcn (security params') = None \<and>
    bf_generate_public_key L params' ident = Inl NullDeref"
proof -
  define params' where "params' = params\<lparr>security := zero_security\<lparr>sec_level := sec_level (security params)\<rparr>\<rparr>"
  have "snd (setup_security zero_security (sec_level (security params))) =
      zero_security\<lparr>sec_level := sec_level (security params)\<rparr>"
    using assms(4) by (simp add: setup_security_def Let_def)
  then have "bf_params_from_file L garbage (stream_of (bf_params_to_file L params)) params0 = (True, params')"
    using params_file_read [OF assms(1-3), of "stream_of (bf_params_to_file L params)" garbage params0] assms(5)
    by (simp add: stream_of_def params'_def)
  moreover have "hashfcn (security params') = None" by (simp add: params'_def zero_security_def)
  ultimately show ?thesis
    by (auto simp: bf_generate_public_key_def hash_to_point_def hash_into_def)
qed

theorem params_file_unknown_level_witness:
  "\<exists>params'. bf_params_from_file sample_lib 0
      (stream_of (bf_params_to_file sample_lib (sample_params\<lparr>security := zero_security\<lparr>sec_level := 9\<rparr>\<rparr>)))
      (sample_params\<lparr>security := zero_security\<rparr>) = (True, params') \<and> hashfcn (security params') = None \<and>
    bf_generate_public_key sample_lib params' [97] = Inl NullDeref"
  by (rule params_file_unknown_level) (simp_all add: sample_text_laws)

end
