(* ===== verification/Bf_Api.thy ===== *)
theory Bf_Api
  imports Bf_Message Bf_Export
begin

text \<open>
  The entry points of bfibe: the C interface (\<open>bfibe/src/api.c\<close>), the JNI wrapper
  (\<open>bfibe/jni/bfibejni.c\<close>) and the two command line programs (\<open>bfibe/app/genibe.c\<close>,
  \<open>bfibe/app/genprivatekey.c\<close>). A handle (\<open>void *\<close>) is the value it points to, a null result is
  \<open>None\<close>. \<open>zeroed\<close> is the struct that \<open>calloc\<close> returns, \<open>garbage\<close> and \<open>stack\<close> are what uninitialised
  variables and arrays hold, \<open>empty_ok\<close> is the behaviour of \<open>fmemopen\<close> on the empty string.
\<close>

subsection \<open>Text forms\<close>

definition BIGINT_STRING_BASE :: int where "BIGINT_STRING_BASE = 36"

definition format_system_params ::
  "('par, 'g1, 'g2, 'gt, 'pp) lib \<Rightarrow> ('par, 'g1, 'pp) BFPublicParameters \<Rightarrow> string"
where
  "format_system_params L system = snd (bf_params_to_string L system)"

definition parse_system_params ::
  "('par, 'g1, 'g2, 'gt, 'pp) lib \<Rightarrow> bool \<Rightarrow> 8 word \<Rightarrow> ('par, 'g1, 'pp) BFPublicParameters \<Rightarrow> string \<Rightarrow>
     ('par, 'g1, 'pp) BFPublicParameters outcome"
where
  "parse_system_params L empty_ok garbage zeroed param_string =
     bindO (bf_params_from_string L empty_ok garbage param_string zeroed) (\<lambda>(_, params). Inr params)"

definition copy_params ::
  "('par, 'g1, 'g2, 'gt, 'pp) lib \<Rightarrow> bool \<Rightarrow> 8 word \<Rightarrow> ('par, 'g1, 'pp) BFPublicParameters \<Rightarrow>
     ('par, 'g1, 'pp) BFPublicParameters \<Rightarrow> ('par, 'g1, 'pp) BFPublicParameters outcome"
where
  "copy_params L empty_ok garbage zeroed params =
     (let param_str = format_system_params L params
      in parse_system_params L empty_ok garbage zeroed param_str)"

definition format_system_secret :: "int \<Rightarrow> string option" where
  "format_system_secret s = mpz_get_str BIGINT_STRING_BASE s"

definition parse_system_secret :: "string \<Rightarrow> int option" where
  "parse_system_secret secret_string =
     (let (error, s) = mpz_set_str 0 secret_string BIGINT_STRING_BASE
      in if error \<noteq> 0 then None else Some s)"

text \<open>\<open>element_snprint (buf, n, e)\<close>: the length of the text and what fits before the final zero.\<close>

definition element_snprint :: "nat \<Rightarrow> string \<Rightarrow> nat \<times> string" where
  "element_snprint n s = (length s, take (n - 1) s)"

definition format_private_key :: "('par, 'g1, 'g2, 'gt, 'pp) lib \<Rightarrow> 'par \<Rightarrow> 'g2 \<Rightarrow> string" where
  "format_private_key L c private_key =
     (let s = g2_str L c private_key; char_count = fst (element_snprint 5 s) + 1
      in snd (element_snprint char_count s))"

definition parse_private_key ::
  "('par, 'g1, 'g2, 'gt, 'pp) lib \<Rightarrow> ('par, 'g1, 'pp) BFPublicParameters \<Rightarrow> string \<Rightarrow> 'g2"
where
  "parse_private_key L params key_string = snd (g2_set_str L (pairing params) key_string 10)"

subsection \<open>Systems and shards\<close>

text \<open>The result of \<open>bf_setup\<close> is not looked at; \<open>None\<close> when \<open>bf_setup\<close> does not return.\<close>

definition generate_system ::
  "('par, 'g1, 'g2, 'gt, 'pp) lib \<Rightarrow> ('par, 'g1) draws \<Rightarrow> ('par, 'g1, 'pp) BFPublicParameters \<Rightarrow>
     int \<Rightarrow> (('par, 'g1, 'pp) BFPublicParameters \<times> int) option"
where
  "generate_system L D zeroed security_level =
     map_option snd (bf_setup L D zeroed 0 (byte_of_int security_level))"

definition generate_shard ::
  "('par, 'g1, 'g2, 'gt, 'pp) lib \<Rightarrow> ('par, 'g1) draws \<Rightarrow> bool \<Rightarrow> 8 word \<Rightarrow>
     ('par, 'g1, 'pp) BFPublicParameters \<Rightarrow> ('par, 'g1, 'pp) BFPublicParameters \<Rightarrow>
     (('par, 'g1, 'pp) BFPublicParameters \<times> int) outcome"
where
  "generate_shard L D empty_ok garbage zeroed base_system =
     bindO (copy_params L empty_ok garbage zeroed base_system) (\<lambda>params_out.
     Inr (bf_generate_shard L D params_out))"

definition generate_private_key ::
  "('par, 'g1, 'g2, 'gt, 'pp) lib \<Rightarrow> ('par, 'g1, 'pp) BFPublicParameters \<Rightarrow> int \<Rightarrow> bytes \<Rightarrow> string outcome"
where
  "generate_private_key L params system_secret address =
     bindO (bf_generate_private_key L params system_secret address) (\<lambda>private_key.
     Inr (format_private_key L (pairing params) private_key))"

definition add_public ::
  "('par, 'g1, 'g2, 'gt, 'pp) lib \<Rightarrow> bool \<Rightarrow> 8 word \<Rightarrow> ('par, 'g1, 'pp) BFPublicParameters \<Rightarrow>
     ('par, 'g1, 'pp) BFPublicParameters \<Rightarrow> ('par, 'g1, 'pp) BFPublicParameters \<Rightarrow>
     ('par, 'g1, 'pp) BFPublicParameters option outcome"
where
  "add_public L empty_ok garbage zeroed params1 params2 =
     (if sec_level (security params1) \<noteq> sec_level (security params2) \<or> bp_q params1 \<noteq> bp_q params2
      then Inr None
      else
        bindO (copy_params L empty_ok garbage zeroed params1) (\<lambda>params_result.
        let P_pub = g1_add L (pairing params_result) (bp_P_pub params1) (bp_P_pub params2)
        in Inr (Some (params_result\<lparr>bp_P_pub := P_pub,
                                    P_pub_precomp := pp_init L (pairing params_result) P_pub\<rparr>))))"

definition add_secret ::
  "('par, 'g1, 'g2, 'gt, 'pp) lib \<Rightarrow> ('par, 'g1, 'pp) BFPublicParameters \<Rightarrow> string \<Rightarrow> string \<Rightarrow> string"
where
  "add_secret L params secret1 secret2 =
     (let s1 = parse_private_key L params secret1; s2 = parse_private_key L params secret2
      in format_private_key L (pairing params) (g2_add L (pairing params) s1 s2))"

subsection \<open>Encryption and decryption\<close>

text \<open>
  The bytes returned and \<open>*out_length\<close>. \<open>bf_encrypt\<close> may return the null pointer, which is not
  tested before it is followed.
\<close>

definition encrypt_ibe ::
  "('par, 'g1, 'g2, 'gt, 'pp) lib \<Rightarrow> ('par, 'g1) draws \<Rightarrow> (nat \<Rightarrow> bytes) \<Rightarrow>
     ('par, 'g1, 'pp) BFPublicParameters \<Rightarrow> bytes \<Rightarrow> bytes \<Rightarrow> int \<Rightarrow> (bytes \<times> int) outcome"
where
  "encrypt_ibe L D malloc params address message message_len =
     bindO (bf_generate_public_key L params address) (\<lambda>public_key.
     bindO (buf_read message 0 (size_of_int message_len)) (\<lambda>m.
     bindO (bf_encrypt L D params public_key m) (\<lambda>ciphertext.
     case ciphertext of
       None \<Rightarrow> Inl NullDeref
     | Some ciphertext \<Rightarrow>
         bindO (bf_message_to_bytes L malloc params ciphertext) (\<lambda>cipher_bytes.
         Inr (cipher_bytes, int_of_size (length cipher_bytes))))))"

text \<open>\<open>ciphertext_len\<close> is not used; the return value of \<open>bf_decrypt\<close> is not looked at.\<close>

definition decrypt_ibe ::
  "('par, 'g1, 'g2, 'gt, 'pp) lib \<Rightarrow> 'g1 BFMessage \<Rightarrow> ('par, 'g1, 'pp) BFPublicParameters \<Rightarrow> 'g2 \<Rightarrow>
     bytes \<Rightarrow> int \<Rightarrow> (bytes \<times> int) option outcome"
where
  "decrypt_ibe L msg params private_key ciphertext ciphertext_len =
     bindO (bf_message_from_bytes L ciphertext params msg) (\<lambda>(ok, msg).
     if \<not> ok then Inr None
     else
       bindO (bf_decrypt L (replicate (msg_length msg) 0) params private_key msg) (\<lambda>(_, msg_bytes).
       Inr (Some (msg_bytes, int_of_size (msg_length msg)))))"

subsection \<open>The JNI wrapper\<close>

text \<open>The Java object holds the two handles; the null handle is \<open>None\<close>.\<close>

record ('par, 'g1, 'g2, 'pp) BonehFranklin =
  systemParamHandle :: "('par, 'g1, 'pp) BFPublicParameters option"
  privateKeyHandle :: "'g2 option"

text \<open>
  \<open>parseSystemParams\<close> and \<open>parsePrivateKey\<close> return the handle that the Java side stores; an existing
  struct is overwritten in place.
\<close>

definition jni_parseSystemParams ::
  "('par, 'g1, 'g2, 'gt, 'pp) lib \<Rightarrow> bool \<Rightarrow> 8 word \<Rightarrow> ('par, 'g1, 'pp) BFPublicParameters \<Rightarrow>
     ('par, 'g1, 'g2, 'pp) BonehFranklin \<Rightarrow> string \<Rightarrow> ('par, 'g1, 'g2, 'pp) BonehFranklin outcome"
where
  "jni_parseSystemParams L empty_ok garbage zeroed this str =
     (let params = case_option zeroed (\<lambda>p. p) (systemParamHandle this)
      in bindO (bf_params_from_string L empty_ok garbage str params) (\<lambda>(_, params).
         Inr (this\<lparr>systemParamHandle := Some params\<rparr>)))"

definition jni_parsePrivateKey ::
  "('par, 'g1, 'g2, 'gt, 'pp) lib \<Rightarrow> ('par, 'g1, 'g2, 'pp) BonehFranklin \<Rightarrow> string \<Rightarrow>
     ('par, 'g1, 'g2, 'pp) BonehFranklin outcome"
where
  "jni_parsePrivateKey L this str =
     (case systemParamHandle this of None \<Rightarrow> Inl NullDeref
      | Some params \<Rightarrow>
          Inr (this\<lparr>privateKeyHandle := Some (snd (g2_set_str L (pairing params) str 10))\<rparr>))"

definition jni_encryptIBE ::
  "('par, 'g1, 'g2, 'gt, 'pp) lib \<Rightarrow> ('par, 'g1) draws \<Rightarrow> (nat \<Rightarrow> bytes) \<Rightarrow>
     ('par, 'g1, 'g2, 'pp) BonehFranklin \<Rightarrow> bytes \<Rightarrow> bytes \<Rightarrow> bytes outcome"
where
  "jni_encryptIBE L D malloc this recipient message =
     (case systemParamHandle this of None \<Rightarrow> Inl NullDeref
      | Some params \<Rightarrow>
          bindO (bf_generate_public_key L params recipient) (\<lambda>publicKey.
          bindO (bf_encrypt L D params publicKey message) (\<lambda>cipherText.
          case cipherText of
            None \<Rightarrow> Inl NullDeref
          | Some cipherText \<Rightarrow> bf_message_to_bytes L malloc params cipherText)))"

text \<open>The plaintext goes to an array on the stack, which is not cleared before.\<close>

definition jni_decryptIBE ::
  "('par, 'g1, 'g2, 'gt, 'pp) lib \<Rightarrow> 'g1 BFMessage \<Rightarrow> (nat \<Rightarrow> bytes) \<Rightarrow>
     ('par, 'g1, 'g2, 'pp) BonehFranklin \<Rightarrow> bytes \<Rightarrow> bytes option outcome"
where
  "jni_decryptIBE L msg stack this cipherText =
     (case systemParamHandle this of None \<Rightarrow> Inl NullDeref
      | Some params \<Rightarrow>
          bindO (bf_message_from_bytes L cipherText params msg) (\<lambda>(ok, msg).
          if \<not> ok then Inr None
          else
            case privateKeyHandle this of None \<Rightarrow> Inl NullDeref
            | Some privateKey \<Rightarrow>
                bindO (bf_decrypt L (stack (msg_length msg)) params privateKey msg) (\<lambda>(_, msgBytes).
                Inr (Some msgBytes))))"

subsection \<open>The command line programs\<close>

type_synonym files = "string \<Rightarrow> string option"

text \<open>
  \<open>main\<close> of genibe: the files it writes, or \<open>None\<close> when \<open>bf_setup\<close> does not return. A level that
  \<open>sscanf\<close> cannot read stays 3. \<open>fresh\<close> is the struct on the stack.
\<close>

definition genibe_main ::
  "('par, 'g1, 'g2, 'gt, 'pp) lib \<Rightarrow> ('par, 'g1) draws \<Rightarrow> ('par, 'g1, 'pp) BFPublicParameters \<Rightarrow>
     files \<Rightarrow> string list \<Rightarrow> files option"
where
  "genibe_main L D fresh fs argv =
     (let security = (if length argv > 1
                      then (case scan_hhu (argv ! 1) of (_, v, _) \<Rightarrow> case_option 3 id v) else 3)
      in case bf_setup L D fresh 0 security of
           None \<Rightarrow> None
         | Some (_, params, s) \<Rightarrow>
             Some (fs(''param.txt'' \<mapsto> bf_params_to_file L params,
                      ''secret.txt'' \<mapsto> snd (mpz_out_str 36 s))))"

text \<open>
  \<open>main\<close> of genprivatekey: the exit code and what the last line prints. A wrong number of arguments
  is reported and the program goes on; a file that cannot be opened is a null stream.
\<close>

definition genprivatekey_main ::
  "('par, 'g1, 'g2, 'gt, 'pp) lib \<Rightarrow> 8 word \<Rightarrow> ('par, 'g1, 'pp) BFPublicParameters \<Rightarrow>
     files \<Rightarrow> string list \<Rightarrow> (int \<times> string) outcome"
where
  "genprivatekey_main L garbage fresh fs argv =
     (case fs ''param.txt'' of None \<Rightarrow> Inl NullDeref
      | Some s \<Rightarrow>
          let (ok, params) = bf_params_from_file L garbage (stream_of s) fresh
          in if \<not> ok then Inr (1, [])
             else
               case fs ''secret.txt'' of None \<Rightarrow> Inl NullDeref
               | Some s \<Rightarrow>
                   let (nread, secret, _) = mpz_inp_str 0 (stream_of s) 36
                   in if nread = 0 then Inr (1, [])
                      else if length argv < 2 then Inl NullDeref
                      else
                        bindO (bf_generate_private_key L params secret (char_bytes (argv ! 1))) (\<lambda>k.
                        Inr (0, argv ! 1 @ [newline] @ g2_str L (pairing params) k @ [newline])))"

subsection \<open>What is assumed of the groups\<close>

text \<open>Adding multiples of one point, and reading back the text of a private key.\<close>

definition group_laws :: "('par, 'g1, 'g2, 'gt, 'pp) lib \<Rightarrow> 'par \<Rightarrow> bool" where
  "group_laws L c \<longleftrightarrow>
     (\<forall>X a b. 0 \<le> a \<longrightarrow> 0 \<le> b \<longrightarrow> g1_add L c (g1_mul L c X a) (g1_mul L c X b) = g1_mul L c X (a + b)) \<and>
     (\<forall>Y a b. 0 \<le> a \<longrightarrow> 0 \<le> b \<longrightarrow> g2_add L c (g2_mul L c Y a) (g2_mul L c Y b) = g2_mul L c Y (a + b))"

definition key_text_laws :: "('par, 'g1, 'g2, 'gt, 'pp) lib \<Rightarrow> 'par \<Rightarrow> bool" where
  "key_text_laws L c \<longleftrightarrow> (\<forall>Y. snd (g2_set_str L c (g2_str L c Y) 10) = Y)"

subsection \<open>Lemmas\<close>

lemma format_private_key_eq: "format_private_key L c k = g2_str L c k"
  by (simp add: format_private_key_def element_snprint_def Let_def)

lemma parse_format_private_key:
  "key_text_laws L (pairing params) \<Longrightarrow>
    parse_private_key L params (format_private_key L (pairing params) k) = k"
  by (simp add: parse_private_key_def format_private_key_eq key_text_laws_def)

lemma copy_params_canonical:
  assumes "text_laws L (pbc_par params)" and "canonical L params"
  shows "copy_params L empty_ok garbage zeroed params = Inr params"
  using params_file_roundtrip [OF assms, of "stream_of (bf_params_to_file L params)" garbage zeroed]
    params_text_not_empty [of L params]
  by (simp add: copy_params_def parse_system_params_def format_system_params_def bf_params_to_string_def
      bf_params_from_string_def Let_def stream_of_def)

lemma canonical_wf: "canonical L params \<Longrightarrow> bp_q params = par_r L (pbc_par params) \<Longrightarrow> params_wf L params"
  using setup_security_wf(1) by (auto simp: canonical_def params_wf_def)

lemma encrypt_ibe_ok:
  assumes "encrypt_ibe L D malloc params address message message_len = Inr (bs, n)"
  obtains pk m ct where "bf_generate_public_key L params address = Inr pk"
    and "buf_read message 0 (size_of_int message_len) = Inr m"
    and "bf_encrypt L D params pk m = Inr (Some ct)"
    and "bf_message_to_bytes L malloc params ct = Inr bs"
  using assms
  by (auto simp: encrypt_ibe_def elim!: bindO_eq_InrE split: option.splits)

text \<open>Parameters, keys and session randomness that fit together, and the ciphertext they make.\<close>

definition session ::
  "('par, 'g1, 'g2, 'gt, 'pp) lib \<Rightarrow> ('par, 'g1) draws \<Rightarrow> ('par, 'g1, 'pp) BFPublicParameters \<Rightarrow> int \<Rightarrow>
     bytes \<Rightarrow> 'g2 \<Rightarrow> bool"
where
  "session L D params s address sk \<longleftrightarrow>
     hash_laws L \<and> pairing_laws L (pairing params) \<and> params_wf L params \<and> bp_q params \<noteq> 0 \<and>
     bp_P_pub params = g1_mul L (pairing params) (bp_P params) s \<and> 0 \<le> s \<and>
     bf_generate_private_key L params s address = Inr sk \<and>
     length (snd (d_bytes D (hashlen (security params)))) = hashlen (security params)"

lemma session_ct:
  assumes S: "session L D params s address sk"
    and enc: "bf_generate_public_key L params address = Inr pk" "bf_encrypt L D params pk m = Inr (Some ct)"
  obtains h rho where "hashfcn (security params) = Some h" and "hashlen (security params) = digest_length h"
    and "length rho = digest_length h" and "sk = g2_mul L (pairing params) pk s"
    and "ct = ct_of L params h pk rho m"
proof -
  have L: "hash_laws L" and wf: "params_wf L params" and q: "bp_q params \<noteq> 0"
    using S by (simp_all add: session_def)
  obtain h where h: "hashfcn (security params) = Some h" "hashlen (security params) = digest_length h"
    using wf by (rule params_wfE)
  obtain rc rho where d: "d_bytes D (digest_length h) = (rc, rho)"
    by (cases "d_bytes D (digest_length h)")
  then have rho: "length rho = digest_length h" using S h by (simp add: session_def)
  have "sk = g2_mul L (pairing params) pk s"
    using S enc(1) hash_to_point_eq [OF L h]
    by (simp add: session_def bf_generate_public_key_def bf_generate_private_key_def)
  moreover have "ct = ct_of L params h pk rho m"
    using enc(2) bf_encrypt_eq [OF L h q d rho] by (auto split: if_splits)
  ultimately show ?thesis using that h rho by blast
qed

lemma session_ct_wf:
  assumes "session L D params s address sk"
    and "bf_generate_public_key L params address = Inr pk" "bf_encrypt L D params pk m = Inr (Some ct)"
  shows "msg_wf params ct" and "msg_length ct = length m"
proof -
  obtain h rho where h: "hashlen (security params) = digest_length h" and ct: "ct = ct_of L params h pk rho m"
    using session_ct [OF assms] by metis
  have L: "hash_laws L" using assms(1) by (simp add: session_def)
  show "msg_wf params ct" and "msg_length ct = length m"
    unfolding ct by (rule msg_wf_ct_of [OF L h])+
qed

lemma decrypt_clean:
  assumes S: "session L D params s address sk"
    and enc: "bf_generate_public_key L params address = Inr pk" "bf_encrypt L D params pk m = Inr (Some ct)"
  shows "bf_decrypt L (replicate (length m) 0) params sk ct = Inr (True, m)"
proof -
  obtain h rho where "hashfcn (security params) = Some h" "length rho = digest_length h"
      "sk = g2_mul L (pairing params) pk s" "ct = ct_of L params h pk rho m"
    using session_ct [OF S enc] by metis
  then show ?thesis
    using bf_decrypt_ct_of [of L params s h rho "replicate (length m) 0" m pk] S
    by (simp add: session_def clean_buffer_def)
qed

text \<open>Into a buffer that is not cleared: what comes out behind the blocks, when anything does.\<close>

lemma decrypt_dirty:
  assumes S: "session L D params s address sk"
    and enc: "bf_generate_public_key L params address = Inr pk" "bf_encrypt L D params pk m = Inr (Some ct)"
    and out: "length out = length m" and lt: "hashlen (security params) < length m"
    and i: "full_blocks (hashlen (security params)) (length m) * hashlen (security params) \<le> i" "i < length m"
  shows "\<exists>ok a. bf_decrypt L out params sk ct = Inr (ok, a) \<and>
    (a = replicate (length m) 0 \<or> length a = length m \<and> a ! i = m ! i XOR out ! i)"
proof -
  obtain h rho where h: "hashfcn (security params) = Some h" "hashlen (security params) = digest_length h"
    and rho: "length rho = digest_length h" and sk: "sk = g2_mul L (pairing params) pk s"
    and ct: "ct = ct_of L params h pk rho m"
    using session_ct [OF S enc] by metis
  have L: "hash_laws L" and q: "bp_q params \<noteq> 0" and len: "msg_length ct = length m"
    using S session_ct_wf(2) [OF S enc] by (simp_all add: session_def)
  note D = digest_fn_lib [OF L, of h]
  define k where "k = full_blocks (digest_length h) (length m) * digest_length h"
  have tail: "mask_of L h r b (length m) ! i = b ! i" if "length b = length m" for r b
  proof -
    have "drop k (mask_of L h r b (length m)) ! (i - k) = drop k b ! (i - k)"
      using digest_fn.overwritten_tail [OF D, of "length m" "hash_fn L h r" b] lt h that
      by (simp add: mask_of_def k_def)
    then show ?thesis
      using i h that length_mask_of [OF L, of "length m" b h r] by (simp add: k_def)
  qed
  define r where "r = xor_loop (digest_length h)
      (hash_fn L h (gt_to_bytes L (pairing params) (e_pair L (pairing params) (msg_U ct) sk))) (msg_V ct)"
  define a where "a = xor_loop (length m) (mask_of L h r out (length m)) (msg_W ct)"
  have W: "msg_W ct ! i = m ! i"
    using tail [of "replicate (length m) 0" rho] i(2)
    by (simp add: ct ct_of_def Let_def xor_loop_nth length_mask_of [OF L])
  have "a ! i = m ! i XOR out ! i"
    using tail [OF out, of r] W i(2) out
    by (simp add: a_def xor_loop_nth length_mask_of [OF L] xor.commute)
  moreover have "length a = length m"
    using out by (simp add: a_def length_mask_of [OF L])
  moreover have "bf_decrypt L out params sk ct = Inr (False, replicate (length m) 0) \<or>
      bf_decrypt L out params sk ct = Inr (True, a)"
    using bf_decrypt_eq [OF L h q, of out ct sk] out len
    by (auto simp: Let_def r_def a_def)
  ultimately show ?thesis by blast
qed

subsection \<open>A library for the witnesses\<close>

text \<open>The sample library with a test for the neutral element that no point meets.\<close>

definition plain_lib :: "(unit, byte, byte, byte, byte) lib" where
  "plain_lib = sample_lib\<lparr>g1_is0 := \<lambda>_ _. False\<rparr>"

lemma plain_lib_simps [simp]:
  "g1_is0 plain_lib c x = False" "hash_fn plain_lib = sample_digest"
  "g1_length plain_lib c = 1" "g1_to_bytes plain_lib c x = [x]"
  "g2_mul plain_lib c y n = y * of_int n" "g1_mul plain_lib c x n = x * of_int n"
  by (simp_all add: plain_lib_def)

lemma plain_laws: "hash_laws plain_lib" "pairing_laws plain_lib c" "wire_laws plain_lib c"
  "params_wf plain_lib sample_params"
  using sample_hash_laws sample_pairing_laws [of c]
  by (simp_all add: plain_lib_def hash_laws_def pairing_laws_def wire_laws_def params_wf_def)
    (simp add: sample_lib_def)

lemma plain_session:
  "session plain_lib sample_draws sample_params 5 ident (id_point plain_lib sample_params SHA1 ident * 5)"
  using hash_to_point_eq [OF plain_laws(1), of sample_params SHA1 ident]
  by (simp add: session_def plain_laws bf_generate_private_key_def)

lemma plain_encrypt:
  "bf_generate_public_key plain_lib sample_params ident = Inr (id_point plain_lib sample_params SHA1 ident)"
  "bf_encrypt plain_lib sample_draws sample_params pk m =
    Inr (Some (ct_of plain_lib sample_params SHA1 pk (map of_nat [0..<20]) m))"
  using hash_to_point_eq [OF plain_laws(1), of sample_params SHA1 ident]
  by (simp add: bf_generate_public_key_def,
      subst bf_encrypt_eq [OF plain_laws(1), where h = SHA1 and rc = 1]) simp_all

lemma plain_to_bytes:
  "length m < 2 ^ 31 \<Longrightarrow> bf_message_to_bytes plain_lib (\<lambda>n. replicate n 0) sample_params
      (ct_of plain_lib sample_params SHA1 pk rho m) =
    Inr (wire plain_lib sample_params (ct_of plain_lib sample_params SHA1 pk rho m))"
  by (rule bf_message_to_bytes_eq) (simp_all add: plain_laws msg_wf_ct_of)

subsection \<open>Properties\<close>

text \<open>
  C2: the C interface. With parameters and a private key that belong together, \<open>decrypt_ibe\<close> returns
  from the bytes of \<open>encrypt_ibe\<close>, with anything behind them and whatever length is announced, the
  message and its length, provided the random point of the ciphertext is not the neutral element.
\<close>

theorem ibe_api_roundtrip:
  assumes "session L D params s address sk" and "wire_laws L (pairing params)"
    and "\<And>n. length (malloc n) = n" and "length m < 2 ^ 31"
    and "encrypt_ibe L D malloc params address (m @ behind) (int (length m)) = Inr (bs, n)"
    and "\<And>pk ct. bf_generate_public_key L params address = Inr pk \<Longrightarrow>
      bf_encrypt L D params pk m = Inr (Some ct) \<Longrightarrow> \<not> g1_is0 L (pairing params) (msg_U ct)"
  shows "decrypt_ibe L msg0 params sk (bs @ rest) k = Inr (Some (m, int (length m)))"
proof -
  have sz: "size_of_int (int (length m)) = length m" using assms(4) by simp
  obtain pk m' ct where e: "bf_generate_public_key L params address = Inr pk"
    "buf_read (m @ behind) 0 (size_of_int (int (length m))) = Inr m'"
    "bf_encrypt L D params pk m' = Inr (Some ct)" "bf_message_to_bytes L malloc params ct = Inr bs"
    using assms(5) by (rule encrypt_ibe_ok)
  have m': "m' = m" using e(2) by (simp add: sz buf_read_def)
  note wf = session_ct_wf [OF assms(1) e(1) e(3) [unfolded m']]
  have "sendable L params ct"
    using assms(2,4) assms(6) [OF e(1) e(3) [unfolded m']] wf by (simp add: sendable_def)
  moreover have "bs = wire L params ct"
    using e(4) bf_message_to_bytes_eq [OF assms(2) wf(1) assms(3)] by simp
  ultimately have "bf_message_from_bytes L (bs @ rest) params msg0 = Inr (True, ct)"
    using message_codec.dec_enc by blast
  then show ?thesis
    using decrypt_clean [OF assms(1) e(1) e(3) [unfolded m']] wf(2) int_of_size_small [OF assms(4)]
    by (simp add: decrypt_ibe_def)
qed

theorem ibe_api_roundtrip_witness:
  "\<exists>bs n. encrypt_ibe plain_lib sample_draws (\<lambda>n. replicate n 0) sample_params [97] [1, 2, 3] 3 = Inr (bs, n) \<and>
    decrypt_ibe plain_lib \<lparr>msg_length = 0, msg_U = 0, msg_V = [], msg_W = []\<rparr> sample_params
      (id_point plain_lib sample_params SHA1 [97] * 5) bs 0 = Inr (Some ([1, 2, 3], 3))"
proof -
  obtain bs n where e: "encrypt_ibe plain_lib sample_draws (\<lambda>n. replicate n 0) sample_params [97] [1, 2, 3] 3 =
      Inr (bs, n)"
    by (simp add: encrypt_ibe_def plain_encrypt plain_to_bytes size_of_int_def buf_read_def)
  show ?thesis
    using ibe_api_roundtrip [OF plain_session [of "[97]"] plain_laws(3), where m = "[1, 2, 3]" and behind = "[]" and
        malloc = "\<lambda>n. replicate n 0" and rest = "[]" and bs = bs and n = n] e
    by simp
qed

text \<open>
  \<open>decrypt_ibe\<close> hides a failed decryption: a ciphertext that is too mangled to be decrypted, but has
  the right level and size, makes it return a buffer of zeros with its length, not the null pointer.
\<close>

theorem decrypt_ibe_hides_failure:
  assumes "bf_message_from_bytes L ciphertext params msg0 = Inr (True, msg)"
    and "bf_decrypt L (replicate (msg_length msg) 0) params sk msg = Inr (False, out)"
    and "hash_laws L" and "params_wf L params" and "bp_q params \<noteq> 0"
  shows "decrypt_ibe L msg0 params sk ciphertext n =
    Inr (Some (replicate (msg_length msg) 0, int_of_size (msg_length msg)))"
proof -
  obtain h where h: "hashfcn (security params) = Some h" "hashlen (security params) = digest_length h"
    using assms(4) by (rule params_wfE)
  have "out = replicate (msg_length msg) 0"
    using assms(2) bf_decrypt_eq [OF assms(3) h assms(5), of "replicate (msg_length msg) 0" msg sk]
    by (auto simp: Let_def split: if_splits)
  then show ?thesis using assms(1,2) by (simp add: decrypt_ibe_def)
qed

theorem decrypt_ibe_hides_failure_witness:
  "decrypt_ibe (sample_lib\<lparr>g1_cmp := \<lambda>_ _ _. 1\<rparr>) \<lparr>msg_length = 0, msg_U = 0, msg_V = [], msg_W = []\<rparr>
      sample_params 0 ([2, 0, 0, 0, 0, 0, 0, 0, 1, 9] @ replicate 20 1 @ [5, 6]) 0 = Inr (Some ([0, 0], int_of_size 2))"
proof -
  define L where "L = sample_lib\<lparr>g1_cmp := \<lambda>_ _ _. 1\<rparr>"
  define msg :: "byte BFMessage" where
    "msg = \<lparr>msg_length = 2, msg_U = 9, msg_V = replicate 20 1, msg_W = [5, 6]\<rparr>"
  have size_2: "le_bytes SIZEOF_SIZE_T 2 = [2, 0, 0, 0, 0, 0, 0, 0]"
    unfolding SIZEOF_SIZE_T_def by code_simp
  have laws: "hash_laws L" "wire_laws L ()" "params_wf L sample_params"
    using sample_hash_laws sample_wire_laws [of "()"]
    by (simp_all add: L_def hash_laws_def wire_laws_def params_wf_def)
  have "[2, 0, 0, 0, 0, 0, 0, 0, 1, 9] @ replicate 20 1 @ [5, 6] = wire L sample_params msg"
    by (simp add: wire_def msg_def L_def size_2)
  moreover have "bf_message_from_bytes L (wire L sample_params msg) sample_params msg0 = Inr (True, msg)" for msg0
    using bf_message_from_wire [of L sample_params msg "[]" msg0] laws
    by (simp add: sendable_def msg_wf_def msg_def L_def)
  moreover have "bf_decrypt L (replicate 2 0) sample_params 0 msg = Inr (False, replicate 2 0)"
    using bf_decrypt_eq [OF laws(1), of sample_params SHA1 "replicate 2 0" msg 0]
    by (simp add: msg_def L_def Let_def)
  ultimately have "decrypt_ibe L \<lparr>msg_length = 0, msg_U = 0, msg_V = [], msg_W = []\<rparr> sample_params 0
      ([2, 0, 0, 0, 0, 0, 0, 0, 1, 9] @ replicate 20 1 @ [5, 6]) 0 =
      Inr (Some (replicate (msg_length msg) 0, int_of_size (msg_length msg)))"
    using laws by (intro decrypt_ibe_hides_failure [where out = "replicate 2 0"]) (simp_all add: msg_def)
  then show ?thesis by (simp add: L_def msg_def numeral_2_eq_2)
qed

text \<open>
  C4: the JNI wrapper loses long messages: it decrypts into an array it does not clear. When the
  message is longer than the digest and the array holds a byte other than zero behind the blocks that
  \<open>hash_to_bytes\<close> puts in place, what \<open>decryptIBE\<close> returns is not the message (nor an error), unless
  the message is all zeros.
\<close>

theorem jni_decrypt_loses_long_messages:
  assumes "session L D params s address sk" and "wire_laws L (pairing params)"
    and "systemParamHandle this = Some params" and "privateKeyHandle this = Some sk"
    and "jni_encryptIBE L D malloc this address m = Inr bs"
    and "\<And>n. length (malloc n) = n" and "\<And>n. length (stack n) = n" and "length m < 2 ^ 31"
    and "\<And>pk ct. bf_generate_public_key L params address = Inr pk \<Longrightarrow>
      bf_encrypt L D params pk m = Inr (Some ct) \<Longrightarrow> \<not> g1_is0 L (pairing params) (msg_U ct)"
    and "hashlen (security params) < length m" and "m \<noteq> replicate (length m) 0"
    and "full_blocks (hashlen (security params)) (length m) * hashlen (security params) \<le> i"
    and "i < length m" and "stack (length m) ! i \<noteq> 0"
  shows "\<exists>a. jni_decryptIBE L msg0 stack this bs = Inr (Some a) \<and> length a = length m \<and> a \<noteq> m"
proof -
  obtain pk ct where e: "bf_generate_public_key L params address = Inr pk"
    "bf_encrypt L D params pk m = Inr (Some ct)" "bf_message_to_bytes L malloc params ct = Inr bs"
    using assms(5) by (auto simp: jni_encryptIBE_def assms(3) elim!: bindO_eq_InrE split: option.splits)
  note wf = session_ct_wf [OF assms(1) e(1,2)]
  have "sendable L params ct"
    using assms(2,8) assms(9) [OF e(1,2)] wf by (simp add: sendable_def)
  moreover have "bs = wire L params ct"
    using e(3) bf_message_to_bytes_eq [OF assms(2) wf(1) assms(6)] by simp
  ultimately have rd: "bf_message_from_bytes L bs params msg0 = Inr (True, ct)"
    using bf_message_from_wire [of L params ct "[]"] by simp
  obtain ok a where a: "bf_decrypt L (stack (length m)) params sk ct = Inr (ok, a)"
    "a = replicate (length m) 0 \<or> length a = length m \<and> a ! i = m ! i XOR stack (length m) ! i"
    using decrypt_dirty [OF assms(1) e(1,2) assms(7,10,12,13)] by blast
  have "m ! i XOR stack (length m) ! i \<noteq> m ! i"
    using assms(14) by (metis xor.assoc xor.left_neutral xor_self_eq)
  then have "a \<noteq> m" "length a = length m" using a(2) assms(11) by auto
  then show ?thesis
    using rd a(1) wf(2) assms(3,4) by (simp add: jni_decryptIBE_def)
qed

theorem jni_decrypt_loses_long_messages_witness:
  "\<exists>bs a. jni_encryptIBE plain_lib sample_draws (\<lambda>n. replicate n 0)
      \<lparr>systemParamHandle = Some sample_params, privateKeyHandle = Some (id_point plain_lib sample_params SHA1 [97] * 5)\<rparr>
      [97] (replicate 21 7) = Inr bs \<and>
    jni_decryptIBE plain_lib \<lparr>msg_length = 0, msg_U = 0, msg_V = [], msg_W = []\<rparr> (\<lambda>n. replicate n 1)
      \<lparr>systemParamHandle = Some sample_params, privateKeyHandle = Some (id_point plain_lib sample_params SHA1 [97] * 5)\<rparr>
      bs = Inr (Some a) \<and> a \<noteq> replicate 21 7"
proof -
  define obj where "obj = \<lparr>systemParamHandle = Some sample_params,
    privateKeyHandle = Some (id_point plain_lib sample_params SHA1 [97] * 5)\<rparr>"
  obtain bs where e: "jni_encryptIBE plain_lib sample_draws (\<lambda>n. replicate n 0) obj [97] (replicate 21 7) = Inr bs"
    by (simp add: jni_encryptIBE_def obj_def plain_encrypt plain_to_bytes)
  have "full_blocks 20 21 = 1" by (simp add: full_blocks_def)
  then show ?thesis
    using jni_decrypt_loses_long_messages [OF plain_session [of "[97]"] plain_laws(3), where this = obj and
        malloc = "\<lambda>n. replicate n 0" and stack = "\<lambda>n. replicate n 1" and m = "replicate 21 7" and i = 20
        and bs = bs and ?msg0.0 = "\<lparr>msg_length = 0, msg_U = 0, msg_V = [], msg_W = []\<rparr>"] e
    by (auto simp: obj_def)
qed

text \<open>
  C6: shards combine. From one base system, with its secret, and a shard made of it, \<open>add_public\<close>
  gives well-formed parameters whose \<open>P_pub\<close> belongs to the sum of the two secrets, and the private keys
  that the two hold for an address add up (\<open>add_secret\<close>) to the key that the sum of the secrets gives.
\<close>

theorem shards_combine:
  assumes "hash_laws L" and "group_laws L (pbc_par base)" and "text_laws L (pbc_par base)"
    and "key_text_laws L (pbc_par base)" and "canonical L base" and "bp_q base = par_r L (pbc_par base)"
    and "bp_P_pub base = g1_mul L (pbc_par base) (bp_P base) s0" and "0 \<le> s0"
    and "2 < bp_q base" and "\<And>n. 0 < n \<Longrightarrow> 0 \<le> d_mpz D n \<and> d_mpz D n < n"
    and "generate_shard L D empty_ok garbage zeroed base = Inr (shard, s1)"
    and "generate_private_key L base s0 address = Inr k0"
    and "generate_private_key L shard s1 address = Inr k1"
  shows "\<exists>joint. add_public L empty_ok garbage zeroed base shard = Inr (Some joint) \<and>
    params_wf L joint \<and> canonical L joint \<and>
    bp_P_pub joint = g1_mul L (pairing joint) (bp_P joint) (s0 + s1) \<and>
    generate_private_key L joint (s0 + s1) address = Inr (add_secret L joint k0 k1)"
proof -
  define c where "c = pbc_par base"
  have pc: "pairing base = c" using assms(5) by (simp add: canonical_def c_def)
  have "copy_params L empty_ok garbage zeroed base = Inr base"
    by (rule copy_params_canonical [OF assms(3,5)])
  then have shard: "bf_generate_shard L D base = (shard, s1)"
    using assms(11) by (simp add: generate_shard_def)
  have s1: "0 \<le> s1" using shard assms(9) assms(10) [of "bp_q base - 2"]
    by (auto simp: bf_generate_shard_def Let_def)
  have sh: "bp_P_pub shard = g1_mul L c (bp_P base) s1" "security shard = security base" "bp_q shard = bp_q base"
    "pairing shard = c"
    using shard pc by (auto simp: bf_generate_shard_def Let_def)
  define joint where "joint = base\<lparr>bp_P_pub := g1_mul L c (bp_P base) (s0 + s1),
    P_pub_precomp := pp_init L c (g1_mul L c (bp_P base) (s0 + s1))\<rparr>"
  have "g1_add L c (bp_P_pub base) (bp_P_pub shard) = g1_mul L c (bp_P base) (s0 + s1)"
    using assms(2,7,8) s1 sh(1) by (simp add: group_laws_def c_def)
  then have "add_public L empty_ok garbage zeroed base shard = Inr (Some joint)"
    using copy_params_canonical [OF assms(3,5)] sh pc by (simp add: add_public_def joint_def Let_def)
  moreover have can: "canonical L joint"
    using assms(5) pc by (simp add: canonical_def joint_def)
  moreover have "params_wf L joint"
    using canonical_wf [OF can] assms(6) by (simp add: joint_def)
  moreover have "bp_P_pub joint = g1_mul L (pairing joint) (bp_P joint) (s0 + s1)"
    using pc by (simp add: joint_def)
  moreover have "generate_private_key L joint (s0 + s1) address = Inr (add_secret L joint k0 k1)"
  proof -
    obtain h where h: "hashfcn (security base) = Some h" "hashlen (security base) = digest_length h"
      using canonical_wf [OF assms(5,6)] by (rule params_wfE)
    define Q where "Q = g2_from_hash L c (hash_fn L h address)"
    have pt: "hash_to_point L p address = Inr Q" if "security p = security base" "pairing p = c" for p
      using hash_to_point_eq [OF assms(1), of p h] h that by (simp add: id_point_def Q_def)
    have k: "k0 = format_private_key L c (g2_mul L c Q s0)" "k1 = format_private_key L c (g2_mul L c Q s1)"
      using assms(12,13) pt [of base] pt [of shard] pc sh
      by (simp_all add: generate_private_key_def bf_generate_private_key_def)
    have jc: "pairing joint = c" "security joint = security base" using pc by (simp_all add: joint_def)
    have "g2_add L c (g2_mul L c Q s0) (g2_mul L c Q s1) = g2_mul L c Q (s0 + s1)"
      using assms(2,8) s1 by (simp add: group_laws_def c_def)
    then show ?thesis
      using pt [of joint] jc k parse_format_private_key [of L joint] assms(4)
      by (simp add: generate_private_key_def bf_generate_private_key_def add_secret_def Let_def c_def)
  qed
  ultimately show ?thesis by blast
qed

lemma sample_canonical: "canonical sample_lib sample_params"
  by (simp add: canonical_def) (simp add: sample_security_def setup_security_def zero_security_def)

lemma sample_key_laws: "group_laws sample_lib ()" "key_text_laws sample_lib ()"
proof -
  show "group_laws sample_lib ()" by (simp add: group_laws_def distrib_left)
  have "sample_set_str () (sample_str () y) 10 = (2, y)" for y
  proof -
    have "unat y div 16 < 16" "unat y mod 16 < 16" using unat_byte_less [of y] by linarith+
    moreover have "(of_nat (unat y div 16 * 16 + unat y mod 16) :: byte) = y"
      unfolding div_mult_mod_eq by simp
    ultimately show ?thesis
      by (simp add: sample_set_str_def sample_str_def nibble_code(2) del: of_nat_add of_nat_mult)
  qed
  then show "key_text_laws sample_lib ()" by (simp add: key_text_laws_def) (simp add: sample_lib_def)
qed

theorem shards_combine_witness:
  "\<exists>shard s1 k0 k1 joint. generate_shard sample_lib sample_draws False 0 sample_params sample_params = Inr (shard, s1) \<and>
    generate_private_key sample_lib sample_params 5 [97] = Inr k0 \<and>
    generate_private_key sample_lib shard s1 [97] = Inr k1 \<and>
    add_public sample_lib False 0 sample_params sample_params shard = Inr (Some joint) \<and>
    generate_private_key sample_lib joint (5 + s1) [97] = Inr (add_secret sample_lib joint k0 k1)"
proof -
  have cp: "copy_params sample_lib False 0 sample_params sample_params = Inr sample_params"
    by (rule copy_params_canonical) (simp_all add: sample_text_laws sample_canonical)
  have draws: "0 \<le> d_mpz sample_draws n \<and> d_mpz sample_draws n < n" if "0 < n" for n
    using that by simp
  obtain shard s1 where sh: "generate_shard sample_lib sample_draws False 0 sample_params sample_params = Inr (shard, s1)"
    by (simp add: generate_shard_def cp) (metis prod.exhaust)
  then have sec: "security shard = sample_security"
    by (auto simp: generate_shard_def cp bf_generate_shard_def Let_def)
  obtain k0 where k0: "generate_private_key sample_lib sample_params 5 [97] = Inr k0"
    using hash_to_point_eq [OF sample_hash_laws, of sample_params SHA1 "[97]"]
    by (simp add: generate_private_key_def bf_generate_private_key_def)
  obtain k1 where k1: "generate_private_key sample_lib shard s1 [97] = Inr k1"
    using hash_to_point_eq [OF sample_hash_laws, of shard SHA1 "[97]"] sec
    by (simp add: generate_private_key_def bf_generate_private_key_def)
  show ?thesis
    using shards_combine [OF sample_hash_laws _ _ _ sample_canonical _ _ _ _ draws sh k0 k1]
      sh k0 k1 sample_key_laws sample_text_laws by auto
qed

lemma bf_setup_made:
  assumes st: "bf_setup L D params s level = Some (ok, params', s')"
    and d: "\<And>n. 0 < n \<Longrightarrow> 0 \<le> d_mpz D n \<and> d_mpz D n < n" and r: "\<And>c. 2 < par_r L c"
    and lv: "level \<in> {1, 2, 3, 4, 5}"
  shows "ok" "params_wf L params'" "sec_level (security params') = level"
    "bp_P_pub params' = g1_mul L (pairing params') (bp_P params') s'" "2 \<le> s'" "s' \<le> bp_q params' - 1"
proof -
  obtain sec where sec: "setup_security (security params) level = (True, sec)"
    using lv setup_security_fails [of "security params" level]
    by (cases "setup_security (security params) level") auto
  define c where "c = d_param D (unat (n_q sec)) (unat (n_p sec))"
  obtain X where ok: "ok"
    and sh: "bf_generate_shard L D
        (params\<lparr>security := sec, pbc_par := c, pairing := c, bp_q := par_r L c, bp_P := X\<rparr>) = (params', s')"
    using st sec by (auto simp: bf_setup_def Let_def c_def split: option.splits prod.splits)
  show ok by (rule ok)
  note shard = bf_generate_shard_wf [OF sh]
  show "params_wf L params'" "sec_level (security params') = level"
    "bp_P_pub params' = g1_mul L (pairing params') (bp_P params') s'"
    using shard setup_security_wf [OF sec] by auto
  have "s' = d_mpz D (par_r L c - 2) + 2" "bp_q params' = par_r L c"
    using sh by (auto simp: bf_generate_shard_def Let_def)
  then show "2 \<le> s'" "s' \<le> bp_q params' - 1"
    using d [of "par_r L c - 2"] r [of c] by simp_all
qed

lemma scan_hhu_level: "scan_hhu (level_text v) = (1, Some v, [])"
proof -
  obtain d ds where ds: "level_text v = d # ds" using level_text_digits(2) by (cases "level_text v") auto
  have dig: "isdigit d" "list_all isdigit ds" using level_text_digits(1) [of v] by (simp_all add: ds)
  have tw: "takeWhile isdigit (level_text v) = level_text v" "dropWhile isdigit (level_text v) = []"
    using level_text_digits(1) [of v] by (simp_all add: list_all_iff takeWhile_eq_all_conv)
  have "unat v \<le> 2 ^ 64 - 1"
    by (rule order.trans [OF less_imp_le [OF unat_byte_less]]) simp
  then have val: "strtoul_clamp (decimal (level_text v)) = unat v"
    unfolding level_text_digits strtoul_clamp_def by (rule min.absorb1)
  show ?thesis
    using tw val isdigit_facts(1-3) [OF dig(1)] by (simp add: scan_hhu_def Let_def ds)
qed

text \<open>
  C10: the command line programs fit together. \<open>genibe\<close> at a known level writes two files and no other: from
  \<open>param.txt\<close> any reader gets the parameters that \<open>bf_setup\<close> made, from \<open>secret.txt\<close> its secret \<open>s\<close>, with
  \<open>P_pub = [s]P\<close> at that level and \<open>2 \<le> s < q\<close>; and \<open>genprivatekey\<close>, run on these files with any identifier,
  prints the text of \<open>[s]Q\<close> for the public key \<open>Q\<close> of that identifier.
\<close>

theorem genibe_genprivatekey:
  assumes "hash_laws L" and "\<And>c. text_laws L c" and "\<And>c. 2 < par_r L c"
    and "\<And>n. 0 < n \<Longrightarrow> 0 \<le> d_mpz D n \<and> d_mpz D n < n"
    and "level \<in> {1, 2, 3, 4, 5}" and "genibe_main L D fresh fs [prog, level_text level] = Some fs'"
  shows "\<exists>params s ptext stext Q.
    bf_setup L D fresh 0 level = Some (True, params, s) \<and> sec_level (security params) = level \<and>
    bp_P_pub params = g1_mul L (pairing params) (bp_P params) s \<and> 2 \<le> s \<and> s \<le> bp_q params - 1 \<and>
    fs' = fs(''param.txt'' \<mapsto> ptext, ''secret.txt'' \<mapsto> stext) \<and>
    (\<forall>garbage params0. bf_params_from_file L garbage (stream_of ptext) params0 = (True, params)) \<and>
    (\<exists>n rest. 0 < n \<and> mpz_inp_str 0 (stream_of stext) 36 = (n, s, rest)) \<and>
    bf_generate_public_key L params (char_bytes ident) = Inr Q \<and>
    genprivatekey_main L garbage fresh' fs' [prog', ident] =
      Inr (0, ident @ [newline] @ g2_str L (pairing params) (g2_mul L (pairing params) Q s) @ [newline])"
proof -
  obtain ok params s where st: "bf_setup L D fresh 0 level = Some (ok, params, s)"
    and fs': "fs' = fs(''param.txt'' \<mapsto> bf_params_to_file L params, ''secret.txt'' \<mapsto> snd (mpz_out_str 36 s))"
    using assms(6) by (auto simp: genibe_main_def scan_hhu_level split: option.splits prod.splits)
  have made: "ok" "params_wf L params" "sec_level (security params) = level"
    "bp_P_pub params = g1_mul L (pairing params) (bp_P params) s" "2 \<le> s" "s \<le> bp_q params - 1"
    by (rule bf_setup_made [OF st], (fact assms)+)+
  have can: "canonical L params"
    by (rule canonical_setup [OF st [unfolded eqTrueI [OF made(1)]]])
  have rd: "bf_params_from_file L g (stream_of (bf_params_to_file L params)) p = (True, params)" for g p
    by (rule params_file_roundtrip [OF assms(2) can]) (simp add: stream_of_def)
  obtain f' where sec: "mpz_inp_str 0 (stream_of (snd (mpz_out_str 36 s))) 36 = (fst (mpz_out_str 36 s), s, f')"
    using mpz_inp_out [of 36 "stream_of (snd (mpz_out_str 36 s))" "[]" s "[]" 0]
    by (simp add: stream_of_def stops_def)
  have pos: "fst (mpz_out_str 36 s) \<noteq> 0"
    using mpz_out_str_start [of s] by (auto simp: mpz_out_str_def Let_def split: option.splits)
  obtain h where h: "hashfcn (security params) = Some h" "hashlen (security params) = digest_length h"
    using made(2) by (rule params_wfE)
  obtain Q where Q: "hash_to_point L params (char_bytes ident) = Inr Q"
    using hash_to_point_eq [OF assms(1) h] by blast
  have out: "genprivatekey_main L garbage fresh' fs' [prog', ident] =
      Inr (0, ident @ [newline] @ g2_str L (pairing params) (g2_mul L (pairing params) Q s) @ [newline])"
    using Q rd sec pos by (simp add: genprivatekey_main_def fs' Let_def bf_generate_private_key_def)
  show ?thesis
    using st made(1,3-6) rd sec pos Q out fs'
    by (intro exI [of _ params] exI [of _ s] exI [of _ "bf_params_to_file L params"] exI [of _ "snd (mpz_out_str 36 s)"] exI [of _ Q])
      (simp add: bf_generate_public_key_def)
qed

text \<open>The secret that \<open>genibe\<close> draws is 5, and \<open>genprivatekey\<close> prints \<open>[5]Q\<close>.\<close>

theorem genibe_genprivatekey_witness:
  "\<exists>fs' stext n rest Q. genibe_main sample_lib sample_draws sample_params (\<lambda>_. None) [''genibe'', level_text 2] = Some fs' \<and>
    fs' ''secret.txt'' = Some stext \<and> mpz_inp_str 0 (stream_of stext) 36 = (n, 5, rest) \<and>
    genprivatekey_main sample_lib 0 sample_params fs' [''genprivatekey'', ''bob''] =
      Inr (0, ''bob'' @ [newline] @ g2_str sample_lib () (Q * 5) @ [newline])"
proof -
  have draws: "0 \<le> d_mpz sample_draws n \<and> d_mpz sample_draws n < n" if "0 < n" for n
    using that by simp
  obtain r where r: "bf_setup sample_lib sample_draws sample_params 0 2 = Some r"
    by (simp add: bf_setup_cases Let_def sample_find_generator)
  obtain fs' where fs': "genibe_main sample_lib sample_draws sample_params (\<lambda>_. None) [''genibe'', level_text 2] = Some fs'"
    by (cases r) (simp add: genibe_main_def scan_hhu_level r)
  have s5: "s = 5" if "bf_setup sample_lib sample_draws sample_params 0 2 = Some (True, params, s)" for params s
    using that by (auto simp: bf_setup_def bf_generate_shard_def Let_def split: option.splits prod.splits bool.splits)
  have tl: "text_laws sample_lib c" for c using sample_text_laws by simp
  have "2 < par_r sample_lib c" for c by simp
  note run = genibe_genprivatekey [OF sample_hash_laws tl this draws _ fs', of "''bob''" 0 sample_params "''genprivatekey''"]
  obtain params s ptext stext Q n rest where st: "bf_setup sample_lib sample_draws sample_params 0 2 = Some (True, params, s)"
    and files: "fs' = [''param.txt'' \<mapsto> ptext, ''secret.txt'' \<mapsto> stext]"
      "mpz_inp_str 0 (stream_of stext) 36 = (n, s, rest)"
    and k: "genprivatekey_main sample_lib 0 sample_params fs' [''genprivatekey'', ''bob''] =
      Inr (0, ''bob'' @ [newline] @ g2_str sample_lib (pairing params) (g2_mul sample_lib (pairing params) Q s) @ [newline])"
    using run by auto
  have s: "s = 5" by (rule s5 [OF st])
  show ?thesis
    using fs' files k unfolding s
    by (intro exI [of _ fs'] exI [of _ stext] exI [of _ n] exI [of _ rest] exI [of _ Q]) simp
qed

end
