(* ===== verification/Bf_Params.thy ===== *)
theory Bf_Params
  imports Bf_Api
begin

text \<open>
  The parameter structs of a run: every way in which the functions of bfibe make one (\<open>made\<close>), and the
  invariant that all of them keep.
\<close>

subsection \<open>Where parameters come from\<close>

text \<open>
  A struct that one of the functions filled: a successful \<open>bf_setup\<close>, \<open>generate_system\<close> at a known level, a
  successful import of any text into any struct, a shard made in place or on a copy, a copy, a sum.
\<close>

inductive made :: "('par, 'g1, 'g2, 'gt, 'pp) lib \<Rightarrow> ('par, 'g1, 'pp) BFPublicParameters \<Rightarrow> bool" for L where
  by_setup: "bf_setup L D params0 s0 level = Some (True, params, s) \<Longrightarrow> made L params"
| by_system: "generate_system L D zeroed level = Some (params, s) \<Longrightarrow> byte_of_int level \<in> {1, 2, 3, 4, 5} \<Longrightarrow> made L params"
| by_file: "bf_params_from_file L garbage inp params0 = (True, params) \<Longrightarrow> made L params"
| by_string: "bf_params_from_string L empty_ok garbage str params0 = Inr (True, params) \<Longrightarrow> made L params"
| by_shard: "made L base \<Longrightarrow> bf_generate_shard L D base = (params, s) \<Longrightarrow> made L params"
| by_copy: "made L base \<Longrightarrow> copy_params L empty_ok garbage zeroed base = Inr params \<Longrightarrow> made L params"
| by_copied_shard: "made L base \<Longrightarrow> generate_shard L D empty_ok garbage zeroed base = Inr (params, s) \<Longrightarrow> made L params"
| by_sum: "made L params1 \<Longrightarrow> made L params2 \<Longrightarrow>
    add_public L empty_ok garbage zeroed params1 params2 = Inr (Some params) \<Longrightarrow> made L params"

subsection \<open>What the functions establish and keep\<close>

definition consistent :: "('par, 'g1, 'g2, 'gt, 'pp) lib \<Rightarrow> ('par, 'g1, 'pp) BFPublicParameters \<Rightarrow> bool" where
  "consistent L params \<longleftrightarrow> pairing params = pbc_par params \<and>
     P_pub_precomp params = pp_init L (pairing params) (bp_P_pub params) \<and>
     (sec_level (security params) \<in> {1, 2, 3, 4, 5} \<longrightarrow>
        setup_security zero_security (sec_level (security params)) = (True, security params))"

lemma consistent_canonical:
  "consistent L params \<Longrightarrow> canonical L params \<longleftrightarrow> sec_level (security params) \<in> {1, 2, 3, 4, 5}"
  using setup_security_fails [of zero_security "sec_level (security params)"]
  by (auto simp: consistent_def canonical_def)

lemma canonical_consistent: "canonical L params \<Longrightarrow> consistent L params"
  by (simp add: canonical_def consistent_def)

lemma stored_level: "sec_level (snd (setup_security sec v)) = v"
  by (simp add: setup_security_def Let_def)

text \<open>Whatever was in the struct, a level that is known fills the whole record.\<close>

lemma reloaded_level:
  assumes "v \<in> {1, 2, 3, 4, 5}"
  shows "setup_security zero_security v = (True, snd (setup_security sec v))"
proof -
  have "fst (setup_security sec v)" "fst (setup_security zero_security v)"
    using setup_security_fails assms by blast+
  then show ?thesis
    using setup_security_canonical [of zero_security v "snd (setup_security zero_security v)" sec "snd (setup_security sec v)"]
    by (simp add: prod_eq_iff)
qed

text \<open>A successful import of any text.\<close>

lemma import_consistent:
  assumes "bf_params_from_file L garbage inp params0 = (True, params)"
  shows "consistent L params"
proof -
  have "\<exists>v. security params = snd (setup_security (security params0) v)" "pairing params = pbc_par params"
    "P_pub_precomp params = pp_init L (pairing params) (bp_P_pub params)"
    using assms by (auto simp: bf_params_from_file_def Let_def split: if_splits prod.splits option.splits)
  then show ?thesis using reloaded_level stored_level unfolding consistent_def by metis
qed

lemma import_string_consistent:
  "bf_params_from_string L empty_ok garbage str params0 = Inr (True, params) \<Longrightarrow> consistent L params"
  by (auto simp: bf_params_from_string_def split: if_splits intro: import_consistent)

lemma shard_consistent: "consistent L base \<Longrightarrow> bf_generate_shard L D base = (params, s) \<Longrightarrow> consistent L params"
  by (auto simp: bf_generate_shard_def consistent_def Let_def)

text \<open>The text of a struct is always read back, even at an unknown level.\<close>

lemma copy_consistent:
  assumes "text_laws L (pbc_par base)" and "consistent L base"
    and "copy_params L empty_ok garbage zeroed base = Inr params"
  shows "consistent L params"
proof -
  have "bf_params_from_file L garbage (stream_of (bf_params_to_file L base)) zeroed = (True, params)"
    using params_file_read [OF assms(1), of "stream_of (bf_params_to_file L base)" garbage zeroed] assms(2,3)
    by (auto simp: copy_params_def parse_system_params_def format_system_params_def bf_params_to_string_def
        bf_params_from_string_def Let_def stream_of_def consistent_def split: if_splits)
  then show ?thesis by (rule import_consistent)
qed

lemma sum_consistent:
  assumes "text_laws L (pbc_par params1)" and "consistent L params1"
    and "add_public L empty_ok garbage zeroed params1 params2 = Inr (Some params)"
  shows "consistent L params"
proof -
  obtain copy P where copy: "copy_params L empty_ok garbage zeroed params1 = Inr copy"
    and params: "params = copy\<lparr>bp_P_pub := P, P_pub_precomp := pp_init L (pairing copy) P\<rparr>"
    using assms(3) by (auto simp: add_public_def Let_def elim!: bindO_eq_InrE split: if_splits)
  show ?thesis
    using copy_consistent [OF assms(1,2) copy] by (simp add: params consistent_def)
qed

text \<open>At a level that is not known, \<open>generate_system\<close> hands out the zeroed struct with that level in it.\<close>

lemma generate_system_unknown_level:
  assumes "byte_of_int level \<notin> {1, 2, 3, 4, 5}"
  shows "generate_system L D zeroed level =
    Some (zeroed\<lparr>security := (security zeroed)\<lparr>sec_level := byte_of_int level\<rparr>\<rparr>, 0)"
  using assms by (simp add: generate_system_def bf_setup_def setup_security_def Let_def)

subsection \<open>The invariant\<close>

text \<open>
  C15: an invariant of all parameter structs that the functions of bfibe fill, by any sequence of successful setups,
  imports of arbitrary text into structs with arbitrary contents, copies, shards and sums: the pairing is that of the
  parameter, the preprocessed key is that of the current \<open>P_pub\<close>, and the security record is the one of its level
  (\<open>canonical\<close>, which is what the text form needs and without which the hash function may be missing) exactly if the
  level is known; an import does not check that it is.
\<close>

theorem canonical_invariant:
  assumes "\<And>c. text_laws L c" and "made L params"
  shows "pairing params = pbc_par params \<and> P_pub_precomp params = pp_init L (pairing params) (bp_P_pub params) \<and>
    (canonical L params \<longleftrightarrow> sec_level (security params) \<in> {1, 2, 3, 4, 5})"
proof -
  from assms(2) have "consistent L params"
  proof induction
    case (by_setup D params0 s0 level params s)
    then show ?case by (intro canonical_consistent canonical_setup)
  next
    case (by_system D zeroed level params s)
    then obtain ok where "bf_setup L D zeroed 0 (byte_of_int level) = Some (ok, params, s)"
      by (auto simp: generate_system_def)
    moreover have "ok" using calculation by_system(2) setup_security_fails [of "security zeroed" "byte_of_int level"]
      by (auto simp: bf_setup_def Let_def split: prod.splits option.splits bool.splits)
    ultimately show ?case by (intro canonical_consistent canonical_setup) simp
  next
    case (by_copied_shard base D empty_ok garbage zeroed params s)
    then show ?case
      by (auto simp: generate_shard_def elim!: bindO_eq_InrE
          intro: shard_consistent copy_consistent [OF assms(1), of base])
  qed (use assms(1) in \<open>auto intro: import_consistent import_string_consistent shard_consistent copy_consistent sum_consistent\<close>)
  then show ?thesis using consistent_canonical [of L params] by (simp add: consistent_def)
qed

text \<open>A sum of two structs, one of them a shard on a copy of the other.\<close>

theorem canonical_invariant_witness:
  "\<exists>shard s joint. generate_shard sample_lib sample_draws False 0 sample_params sample_params = Inr (shard, s) \<and>
    add_public sample_lib False 0 sample_params sample_params shard = Inr (Some joint) \<and> canonical sample_lib joint"
proof -
  have tl: "text_laws sample_lib c" for c using sample_text_laws by simp
  have base: "made sample_lib sample_params"
    by (rule by_string [of _ False 0 "snd (bf_params_to_string sample_lib sample_params)" sample_params])
      (simp add: bf_params_from_string_def bf_params_to_string_def params_text_not_empty Let_def
        params_file_roundtrip [OF tl sample_canonical] stream_of_def)
  note copy = copy_params_canonical [OF tl sample_canonical, of False 0 sample_params]
  obtain shard s where sh: "generate_shard sample_lib sample_draws False 0 sample_params sample_params = Inr (shard, s)"
    by (cases "bf_generate_shard sample_lib sample_draws sample_params") (simp add: generate_shard_def copy)
  then have "made sample_lib shard" by (rule by_copied_shard [OF base])
  moreover have "security shard = sample_security" "bp_q shard = 251"
    using sh by (auto simp: generate_shard_def copy bf_generate_shard_def Let_def)
  then obtain joint where j: "add_public sample_lib False 0 sample_params sample_params shard = Inr (Some joint)"
    "security joint = sample_security"
    by (simp add: add_public_def copy Let_def)
  ultimately have "made sample_lib joint" using by_sum [OF base] by blast
  then have "canonical sample_lib joint" using canonical_invariant [OF tl] j(2) by simp
  then show ?thesis using sh j(1) by blast
qed

end
