(* ===== verification/Evp_Encode.thy ===== *)
theory Evp_Encode
  imports Prelude
begin

unbundle bit_operations_syntax

text \<open>
  \<open>crypto/evp/encode.c\<close> of OpenSSL: base64 encoding and decoding, whole blocks and streams. A
  function that writes to \<open>out\<close> returns the bytes it writes there, in order (the terminating zero
  that the encoder keeps behind them is left out); \<open>in, inl\<close> is one byte list. The two flags of the
  context are Booleans, since their bit positions are in a header that is not in the tree. Characters are
  ASCII codes.
\<close>

subsection \<open>Tables\<close>

definition data_bin2ascii :: bytes where
  "data_bin2ascii = [
     65, 66, 67, 68, 69, 70, 71, 72, 73, 74, 75, 76, 77, 78, 79, 80,
     81, 82, 83, 84, 85, 86, 87, 88, 89, 90, 97, 98, 99, 100, 101, 102,
     103, 104, 105, 106, 107, 108, 109, 110, 111, 112, 113, 114, 115, 116, 117, 118,
     119, 120, 121, 122, 48, 49, 50, 51, 52, 53, 54, 55, 56, 57, 43, 47]"

definition srpdata_bin2ascii :: bytes where
  "srpdata_bin2ascii = [
     48, 49, 50, 51, 52, 53, 54, 55, 56, 57, 65, 66, 67, 68, 69, 70,
     71, 72, 73, 74, 75, 76, 77, 78, 79, 80, 81, 82, 83, 84, 85, 86,
     87, 88, 89, 90, 97, 98, 99, 100, 101, 102, 103, 104, 105, 106, 107, 108,
     109, 110, 111, 112, 113, 114, 115, 116, 117, 118, 119, 120, 121, 122, 46, 47]"

definition data_ascii2bin :: bytes where
  "data_ascii2bin = [
     0xFF, 0xFF, 0xFF, 0xFF, 0xFF, 0xFF, 0xFF, 0xFF, 0xFF, 0xE0, 0xF0, 0xFF,
     0xFF, 0xF1, 0xFF, 0xFF, 0xFF, 0xFF, 0xFF, 0xFF, 0xFF, 0xFF, 0xFF, 0xFF,
     0xFF, 0xFF, 0xFF, 0xFF, 0xFF, 0xFF, 0xFF, 0xFF, 0xE0, 0xFF, 0xFF, 0xFF,
     0xFF, 0xFF, 0xFF, 0xFF, 0xFF, 0xFF, 0xFF, 0x3E, 0xFF, 0xF2, 0xFF, 0x3F,
     0x34, 0x35, 0x36, 0x37, 0x38, 0x39, 0x3A, 0x3B, 0x3C, 0x3D, 0xFF, 0xFF,
     0xFF, 0x00, 0xFF, 0xFF, 0xFF, 0x00, 0x01, 0x02, 0x03, 0x04, 0x05, 0x06,
     0x07, 0x08, 0x09, 0x0A, 0x0B, 0x0C, 0x0D, 0x0E, 0x0F, 0x10, 0x11, 0x12,
     0x13, 0x14, 0x15, 0x16, 0x17, 0x18, 0x19, 0xFF, 0xFF, 0xFF, 0xFF, 0xFF,
     0xFF, 0x1A, 0x1B, 0x1C, 0x1D, 0x1E, 0x1F, 0x20, 0x21, 0x22, 0x23, 0x24,
     0x25, 0x26, 0x27, 0x28, 0x29, 0x2A, 0x2B, 0x2C, 0x2D, 0x2E, 0x2F, 0x30,
     0x31, 0x32, 0x33, 0xFF, 0xFF, 0xFF, 0xFF, 0xFF]"

definition srpdata_ascii2bin :: bytes where
  "srpdata_ascii2bin = [
     0xFF, 0xFF, 0xFF, 0xFF, 0xFF, 0xFF, 0xFF, 0xFF, 0xFF, 0xE0, 0xF0, 0xFF,
     0xFF, 0xF1, 0xFF, 0xFF, 0xFF, 0xFF, 0xFF, 0xFF, 0xFF, 0xFF, 0xFF, 0xFF,
     0xFF, 0xFF, 0xFF, 0xFF, 0xFF, 0xFF, 0xFF, 0xFF, 0xE0, 0xFF, 0xFF, 0xFF,
     0xFF, 0xFF, 0xFF, 0xFF, 0xFF, 0xFF, 0xFF, 0xFF, 0xFF, 0xF2, 0x3E, 0x3F,
     0x00, 0x01, 0x02, 0x03, 0x04, 0x05, 0x06, 0x07, 0x08, 0x09, 0xFF, 0xFF,
     0xFF, 0x00, 0xFF, 0xFF, 0xFF, 0x0A, 0x0B, 0x0C, 0x0D, 0x0E, 0x0F, 0x10,
     0x11, 0x12, 0x13, 0x14, 0x15, 0x16, 0x17, 0x18, 0x19, 0x1A, 0x1B, 0x1C,
     0x1D, 0x1E, 0x1F, 0x20, 0x21, 0x22, 0x23, 0xFF, 0xFF, 0xFF, 0xFF, 0xFF,
     0xFF, 0x24, 0x25, 0x26, 0x27, 0x28, 0x29, 0x2A, 0x2B, 0x2C, 0x2D, 0x2E,
     0x2F, 0x30, 0x31, 0x32, 0x33, 0x34, 0x35, 0x36, 0x37, 0x38, 0x39, 0x3A,
     0x3B, 0x3C, 0x3D, 0xFF, 0xFF, 0xFF, 0xFF, 0xFF]"

definition B64_EOLN :: byte where "B64_EOLN = 0xF0"
definition B64_CR :: byte where "B64_CR = 0xF1"
definition B64_EOF :: byte where "B64_EOF = 0xF2"
definition B64_WS :: byte where "B64_WS = 0xE0"
definition B64_ERROR :: byte where "B64_ERROR = 0xFF"

definition B64_NOT_BASE64 :: "byte \<Rightarrow> bool" where
  "B64_NOT_BASE64 a \<longleftrightarrow> a OR 0x13 = 0xF3"

definition conv_bin2ascii :: "64 word \<Rightarrow> bytes \<Rightarrow> byte" where
  "conv_bin2ascii a table = table ! unat (a AND 0x3f)"

definition conv_ascii2bin :: "byte \<Rightarrow> bytes \<Rightarrow> byte" where
  "conv_ascii2bin a table = (if a AND 0x80 \<noteq> 0 then B64_ERROR else table ! unat a)"

abbreviation eq_char :: byte where
  "eq_char \<equiv> 61"

abbreviation nl_char :: byte where
  "nl_char \<equiv> 10"

subsection \<open>Contexts\<close>

record EVP_ENCODE_CTX =
  enc_num :: nat
  enc_length :: nat
  enc_data :: bytes
  line_num :: nat
  no_newlines :: bool
  use_srp :: bool

definition EVP_ENCODE_CTX_new :: EVP_ENCODE_CTX where
  "EVP_ENCODE_CTX_new = \<lparr>enc_num = 0, enc_length = 0, enc_data = replicate 80 0, line_num = 0,
     no_newlines = False, use_srp = False\<rparr>"

definition EVP_ENCODE_CTX_copy :: "EVP_ENCODE_CTX \<Rightarrow> EVP_ENCODE_CTX \<Rightarrow> EVP_ENCODE_CTX" where
  "EVP_ENCODE_CTX_copy dctx sctx = sctx"

definition EVP_ENCODE_CTX_num :: "EVP_ENCODE_CTX \<Rightarrow> nat" where
  "EVP_ENCODE_CTX_num ctx = enc_num ctx"

definition evp_encode_ctx_set_flags :: "EVP_ENCODE_CTX \<Rightarrow> bool \<Rightarrow> bool \<Rightarrow> EVP_ENCODE_CTX" where
  "evp_encode_ctx_set_flags ctx nonl srp = ctx\<lparr>no_newlines := nonl, use_srp := srp\<rparr>"

definition EVP_EncodeInit :: "EVP_ENCODE_CTX \<Rightarrow> EVP_ENCODE_CTX" where
  "EVP_EncodeInit ctx =
     ctx\<lparr>enc_length := 48, enc_num := 0, line_num := 0, no_newlines := False, use_srp := False\<rparr>"

definition EVP_DecodeInit :: "EVP_ENCODE_CTX \<Rightarrow> EVP_ENCODE_CTX" where
  "EVP_DecodeInit ctx =
     ctx\<lparr>enc_num := 0, enc_length := 0, line_num := 0, no_newlines := False, use_srp := False\<rparr>"

subsection \<open>Encoding\<close>

fun encode_loop :: "bytes \<Rightarrow> bytes \<Rightarrow> bytes" where
  "encode_loop table [] = []"
| "encode_loop table [a] =
     (let l = push_bit 16 (ucast a)
      in [conv_bin2ascii (drop_bit 18 l) table, conv_bin2ascii (drop_bit 12 l) table, eq_char, eq_char])"
| "encode_loop table [a, b] =
     (let l = push_bit 16 (ucast a) OR push_bit 8 (ucast b)
      in [conv_bin2ascii (drop_bit 18 l) table, conv_bin2ascii (drop_bit 12 l) table,
          conv_bin2ascii (drop_bit 6 l) table, eq_char])"
| "encode_loop table (a # b # c # f) =
     (let l = push_bit 16 (ucast a) OR push_bit 8 (ucast b) OR ucast c
      in [conv_bin2ascii (drop_bit 18 l) table, conv_bin2ascii (drop_bit 12 l) table,
          conv_bin2ascii (drop_bit 6 l) table, conv_bin2ascii l table] @ encode_loop table f)"

definition evp_encodeblock_int :: "bool \<Rightarrow> bytes \<Rightarrow> bytes" where
  "evp_encodeblock_int srp f = encode_loop (if srp then srpdata_bin2ascii else data_bin2ascii) f"

definition EVP_EncodeBlock :: "bytes \<Rightarrow> bytes" where
  "EVP_EncodeBlock f = evp_encodeblock_int False f"

definition INT_MAX :: nat where
  "INT_MAX = 2 ^ 31 - 1"

text \<open>
  The \<open>while\<close> loop of \<open>EVP_EncodeUpdate\<close>: what it writes, \<open>total\<close> and the input left. With a line
  length of 0 (a context nobody initialised) it writes newlines without end, or loops for ever.
\<close>

function encode_lines :: "EVP_ENCODE_CTX \<Rightarrow> bytes \<Rightarrow> bytes \<Rightarrow> nat \<Rightarrow> (bytes \<times> nat \<times> bytes) outcome" where
  "encode_lines ctx out inp tot =
     (if enc_length ctx \<le> length inp \<and> tot \<le> INT_MAX then
        if enc_length ctx = 0 then Inl (if no_newlines ctx then NoReturn else OutOfBounds)
        else
          let t = evp_encodeblock_int (use_srp ctx) (take (enc_length ctx) inp);
              t = (if no_newlines ctx then t else t @ [nl_char])
          in encode_lines ctx (out @ t) (drop (enc_length ctx) inp) (tot + length t)
      else Inr (out, tot, inp))"
  by pat_completeness auto
termination
  by (relation "measure (\<lambda>(ctx, out, inp, tot). length inp)") auto

declare encode_lines.simps [simp del]

text \<open>
  \<open>EVP_EncodeUpdate\<close>: the return value, the bytes written to \<open>out\<close>, \<open>*outl\<close> and the context.
\<close>

definition EVP_EncodeUpdate ::
  "EVP_ENCODE_CTX \<Rightarrow> bytes \<Rightarrow> (bool \<times> bytes \<times> nat \<times> EVP_ENCODE_CTX) outcome"
where
  "EVP_EncodeUpdate ctx inp =
     (if length inp = 0 then Inr (False, [], 0, ctx)
      else if 80 < enc_length ctx then Inl AssertFail
      else if length inp < enc_length ctx - enc_num ctx then
        bindO (buf_write (enc_data ctx) (enc_num ctx) inp) (\<lambda>d.
        Inr (True, [], 0, ctx\<lparr>enc_data := d, enc_num := enc_num ctx + length inp\<rparr>))
      else
        bindO (if enc_length ctx < enc_num ctx then Inl OutOfBounds
               else if enc_num ctx \<noteq> 0 then
                 let i = enc_length ctx - enc_num ctx
                 in bindO (buf_write (enc_data ctx) (enc_num ctx) (take i inp)) (\<lambda>d.
                    let t = evp_encodeblock_int (use_srp ctx) (take (enc_length ctx) d);
                        t = (if no_newlines ctx then t else t @ [nl_char])
                    in Inr (ctx\<lparr>enc_data := d, enc_num := 0\<rparr>, t, length t, drop i inp))
               else Inr (ctx, [], 0, inp)) (\<lambda>(ctx, out, tot, inp).
        bindO (encode_lines ctx out inp tot) (\<lambda>(out, tot, inp).
        if INT_MAX < tot then Inr (False, out, 0, ctx)
        else
          bindO (if length inp \<noteq> 0 then buf_write (enc_data ctx) 0 inp else Inr (enc_data ctx)) (\<lambda>d.
          Inr (True, out, tot, ctx\<lparr>enc_data := d, enc_num := length inp\<rparr>)))))"

definition EVP_EncodeFinal :: "EVP_ENCODE_CTX \<Rightarrow> bytes \<times> nat \<times> EVP_ENCODE_CTX" where
  "EVP_EncodeFinal ctx =
     (if enc_num ctx \<noteq> 0 then
        let t = evp_encodeblock_int (use_srp ctx) (take (enc_num ctx) (enc_data ctx));
            t = (if no_newlines ctx then t else t @ [nl_char])
        in (t, length t, ctx\<lparr>enc_num := 0\<rparr>)
      else ([], 0, ctx))"

subsection \<open>Decoding\<close>

text \<open>The loop over groups of four: the bytes written, and whether a character was not base64.\<close>

fun decode_loop :: "bytes \<Rightarrow> bytes \<Rightarrow> bytes \<times> bool" where
  "decode_loop table (f0 # f1 # f2 # f3 # f) =
     (let a = conv_ascii2bin f0 table; b = conv_ascii2bin f1 table;
          c = conv_ascii2bin f2 table; d = conv_ascii2bin f3 table
      in if a AND 0x80 \<noteq> 0 \<or> b AND 0x80 \<noteq> 0 \<or> c AND 0x80 \<noteq> 0 \<or> d AND 0x80 \<noteq> 0 then ([], False)
         else
           let l = push_bit 18 (ucast a) OR push_bit 12 (ucast b) OR push_bit 6 (ucast c) OR ucast d :: 64 word;
               (t, ok) = decode_loop table f
           in ([ucast (drop_bit 16 l), ucast (drop_bit 8 l), ucast l] @ t, ok))"
| "decode_loop table f = ([], True)"

text \<open>The trimming loops of \<open>evp_decodeblock_int\<close>.\<close>

fun trim_end :: "bytes \<Rightarrow> bytes \<Rightarrow> bytes" where
  "trim_end table [] = []"
| "trim_end table (c # rev_f) =
     (if 3 < length (c # rev_f) \<and> B64_NOT_BASE64 (conv_ascii2bin c table) then trim_end table rev_f
      else c # rev_f)"

definition evp_decodeblock_int :: "bool \<Rightarrow> bytes \<Rightarrow> int \<times> bytes" where
  "evp_decodeblock_int srp f =
     (let table = (if srp then srpdata_ascii2bin else data_ascii2bin);
          f = dropWhile (\<lambda>c. conv_ascii2bin c table = B64_WS) f;
          f = rev (trim_end table (rev f))
      in if length f mod 4 \<noteq> 0 then (-1, [])
         else let (t, ok) = decode_loop table f in (if ok then int (length t) else -1, t))"

definition EVP_DecodeBlock :: "bytes \<Rightarrow> int \<times> bytes" where
  "EVP_DecodeBlock f = evp_decodeblock_int False f"

text \<open>
  The loop of \<open>EVP_DecodeUpdate\<close> on the state \<open>d\<close> (the array), \<open>n\<close>, \<open>eof\<close>, and what was written so
  far; it ends at \<open>end\<close> with \<open>rv = -1\<close>, or at \<open>tail\<close> with the flag \<open>seof\<close>.
\<close>

datatype decode_exit = GotoEnd | GotoTail bool

type_synonym decode_state = "bytes \<times> nat \<times> int \<times> bytes"

definition decode_char :: "bool \<Rightarrow> byte \<Rightarrow> decode_state \<Rightarrow> (decode_exit option \<times> decode_state) outcome" where
  "decode_char srp tmp = (\<lambda>(d, n, eof, out).
     let v = conv_ascii2bin tmp (if srp then srpdata_ascii2bin else data_ascii2bin);
         eof' = (if tmp = eq_char then eof + 1 else eof)
     in if v = B64_ERROR then Inr (Some GotoEnd, (d, n, eof, out))
        else if tmp \<noteq> eq_char \<and> 0 < eof \<and> \<not> B64_NOT_BASE64 v
        then Inr (Some GotoEnd, (d, n, eof', out))
        else if 2 < eof' then Inr (Some GotoEnd, (d, n, eof', out))
        else if v = B64_EOF then Inr (Some (GotoTail True), (d, n, eof', out))
        else if \<not> B64_NOT_BASE64 v \<and> 64 \<le> n then Inr (Some GotoEnd, (d, n, eof', out))
        else if \<not> B64_NOT_BASE64 v \<and> 80 \<le> n then Inl AssertFail
        else
          let (d, n) = (if B64_NOT_BASE64 v then (d, n) else (d[n := tmp], n + 1))
          in if n = 64 then
               let (decoded_len, t) = evp_decodeblock_int srp (take n d)
               in if decoded_len < 0 \<or> decoded_len < eof'
                  then Inr (Some GotoEnd, (d, 0, eof', out))
                  else Inr (None, (d, 0, eof', out @ take (nat (decoded_len - eof')) t))
             else Inr (None, (d, n, eof', out)))"

fun decode_chars :: "bool \<Rightarrow> bytes \<Rightarrow> decode_state \<Rightarrow> (decode_exit \<times> decode_state) outcome" where
  "decode_chars srp [] s = Inr (GotoTail False, s)"
| "decode_chars srp (tmp # inp) s =
     bindO (decode_char srp tmp s) (\<lambda>(exit, s).
     case exit of Some e \<Rightarrow> Inr (e, s) | None \<Rightarrow> decode_chars srp inp s)"

text \<open>
  \<open>EVP_DecodeUpdate\<close>: the return value, the bytes \<open>*outl\<close> counts and the context. Bytes that a
  failed block leaves in \<open>out\<close> behind them are not listed.
\<close>

definition initial_eof :: "bytes \<Rightarrow> nat \<Rightarrow> int" where
  "initial_eof d n =
     (if 0 < n \<and> d ! (n - 1) = eq_char then if 1 < n \<and> d ! (n - 2) = eq_char then 2 else 1 else 0)"

definition EVP_DecodeUpdate ::
  "EVP_ENCODE_CTX \<Rightarrow> bytes \<Rightarrow> (int \<times> bytes \<times> EVP_ENCODE_CTX) outcome"
where
  "EVP_DecodeUpdate ctx inp =
     (let n = enc_num ctx; d = enc_data ctx; eof = initial_eof d n
      in if length inp = 0 then Inr (0, [], ctx)
         else
           bindO (decode_chars (use_srp ctx) inp (d, n, eof, [])) (\<lambda>(exit, (d, n, eof, out)).
           case exit of
             GotoEnd \<Rightarrow> Inr (-1, out, ctx\<lparr>enc_data := d, enc_num := n\<rparr>)
           | GotoTail seof \<Rightarrow>
               if 0 < n \<and> n mod 4 = 0 then
                 let (decoded_len, t) = evp_decodeblock_int (use_srp ctx) (take n d)
                 in if decoded_len < 0 \<or> decoded_len < eof
                    then Inr (-1, out, ctx\<lparr>enc_data := d, enc_num := 0\<rparr>)
                    else Inr (if seof \<or> eof \<noteq> 0 then 0 else 1,
                              out @ take (nat (decoded_len - eof)) t,
                              ctx\<lparr>enc_data := d, enc_num := 0\<rparr>)
               else if 0 < n \<and> seof then Inr (-1, out, ctx\<lparr>enc_data := d, enc_num := n\<rparr>)
               else Inr (if seof \<or> (n = 0 \<and> eof \<noteq> 0) then 0 else 1, out,
                         ctx\<lparr>enc_data := d, enc_num := n\<rparr>)))"

text \<open>
  How far \<open>EVP_DecodeUpdate\<close> writes into \<open>out\<close>: the offset behind the last byte stored there. A block is decoded
  when \<open>n\<close> goes back to 0 (in the loop, at 64 characters) or at the tail, and all its bytes are stored, those that
  stand for padding and those before a character that is not base64 included.
\<close>

definition block_end :: "bool \<Rightarrow> decode_state \<Rightarrow> decode_state \<Rightarrow> nat" where
  "block_end srp = (\<lambda>(d, n, eof, out) (d', n', eof', out').
     if n \<noteq> 0 \<and> n' = 0 then length out + length (snd (evp_decodeblock_int srp (take 64 d'))) else 0)"

fun chars_end :: "bool \<Rightarrow> bytes \<Rightarrow> decode_state \<Rightarrow> nat" where
  "chars_end srp [] s = 0"
| "chars_end srp (tmp # inp) s =
     (case decode_char srp tmp s of Inl _ \<Rightarrow> 0
      | Inr (exit, s') \<Rightarrow> max (block_end srp s s') (case exit of Some _ \<Rightarrow> 0 | None \<Rightarrow> chars_end srp inp s'))"

definition EVP_DecodeUpdate_end :: "EVP_ENCODE_CTX \<Rightarrow> bytes \<Rightarrow> nat" where
  "EVP_DecodeUpdate_end ctx inp =
     (let n = enc_num ctx; d = enc_data ctx; s = (d, n, initial_eof d n, [])
      in if length inp = 0 then 0
         else max (chars_end (use_srp ctx) inp s)
           (case decode_chars (use_srp ctx) inp s of
              Inr (GotoTail seof, (d, n, eof, out)) \<Rightarrow>
                if 0 < n \<and> n mod 4 = 0 then length out + length (snd (evp_decodeblock_int (use_srp ctx) (take n d))) else 0
            | _ \<Rightarrow> 0))"

definition EVP_DecodeFinal :: "EVP_ENCODE_CTX \<Rightarrow> int \<times> bytes \<times> EVP_ENCODE_CTX" where
  "EVP_DecodeFinal ctx =
     (if enc_num ctx \<noteq> 0 then
        let (i, t) = evp_decodeblock_int (use_srp ctx) (take (enc_num ctx) (enc_data ctx))
        in if i < 0 then (-1, [], ctx) else (1, t, ctx\<lparr>enc_num := 0\<rparr>)
      else (1, [], ctx))"

end
