(* ===== verification/Evp_Stream.thy ===== *)
theory Evp_Stream
  imports Evp_Encode_Correct
begin

text \<open>
  The streaming functions of \<open>encode.c\<close>. \<open>enc_repr\<close> says what an encoding context has taken and
  written so far; \<open>dec_repr\<close> says the same of a decoding context. Both are kept by the update
  functions for every way of splitting the data.
\<close>

subsection \<open>Encoding in lines\<close>

definition b64_line :: "bool \<Rightarrow> bool \<Rightarrow> bytes \<Rightarrow> bytes" where
  "b64_line srp nonl f = b64_text srp f @ (if nonl then [] else [nl_char])"

function b64_lines :: "bool \<Rightarrow> bool \<Rightarrow> bytes \<Rightarrow> bytes" where
  "b64_lines srp nonl f =
     (if f = [] then [] else b64_line srp nonl (take 48 f) @ b64_lines srp nonl (drop 48 f))"
  by pat_completeness auto
termination
  by (relation "measure (\<lambda>(srp, nonl, f). length f)") auto

declare b64_lines.simps [simp del]

lemma b64_lines_Nil [simp]: "b64_lines srp nonl [] = []"
  by (simp add: b64_lines.simps)

lemma b64_lines_block:
  "length xs = 48 \<Longrightarrow> b64_lines srp nonl (xs @ ys) = b64_line srp nonl xs @ b64_lines srp nonl ys"
  by (subst b64_lines.simps) auto

lemma b64_lines_append:
  "length xs = 48 * k \<Longrightarrow> b64_lines srp nonl (xs @ ys) = b64_lines srp nonl xs @ b64_lines srp nonl ys"
proof (induction k arbitrary: xs)
  case (Suc k)
  define a b where "a = take 48 xs" and "b = drop 48 xs"
  have "xs = a @ b" "length a = 48" "length b = 48 * k"
    using Suc.prems by (simp_all add: a_def b_def)
  then show ?case
    using Suc.IH [of b] by (simp add: b64_lines_block)
qed simp

lemma b64_lines_short: "f \<noteq> [] \<Longrightarrow> length f \<le> 48 \<Longrightarrow> b64_lines srp nonl f = b64_line srp nonl f"
  by (subst b64_lines.simps) simp

lemma length_b64_line: "length (b64_line srp nonl f) \<le> 4 * ((length f + 2) div 3) + 1"
  by (simp add: b64_line_def length_b64_text)

lemma length_b64_lines: "length xs = 48 * k \<Longrightarrow> length (b64_lines srp nonl xs) \<le> 65 * k"
proof (induction k arbitrary: xs)
  case (Suc k)
  define a b where "a = take 48 xs" and "b = drop 48 xs"
  have "xs = a @ b" "length a = 48" "length b = 48 * k"
    using Suc.prems by (simp_all add: a_def b_def)
  then show ?case
    using Suc.IH [of b] length_b64_line [of srp nonl a] by (simp add: b64_lines_block)
qed simp

text \<open>The characters that are not newlines.\<close>

definition strip_nl :: "bytes \<Rightarrow> bytes" where
  "strip_nl s = filter (\<lambda>c. c \<noteq> nl_char) s"

lemma strip_nl_append [simp]: "strip_nl (xs @ ys) = strip_nl xs @ strip_nl ys"
  by (simp add: strip_nl_def)

lemma strip_nl_text: "strip_nl (b64_text srp f) = b64_text srp f"
  using b64_text_plain [of _ srp f] by (simp add: strip_nl_def filter_id_conv)

lemma strip_nl_lines: "strip_nl (b64_lines srp nonl f) = b64_text srp f"
proof (induction srp nonl f rule: b64_lines.induct)
  case (1 srp nonl f)
  show ?case
  proof (cases "f = []")
    case False
    have line: "strip_nl (b64_line srp nonl x) = b64_text srp x" for x
      by (simp add: b64_line_def strip_nl_text) (simp add: strip_nl_def)
    have "b64_text srp f = b64_text srp (take 48 f) @ b64_text srp (drop 48 f)"
    proof (cases "length f < 48")
      case False
      then show ?thesis
        using b64_text_append [of "take 48 f" srp "drop 48 f"] by simp
    qed simp
    then show ?thesis
      using 1 False line by (subst b64_lines.simps) simp
  qed (simp add: strip_nl_def)
qed

subsection \<open>The encoder\<close>

definition enc_repr :: "bytes \<Rightarrow> bytes \<Rightarrow> EVP_ENCODE_CTX \<Rightarrow> bool" where
  "enc_repr m out ctx \<longleftrightarrow> (\<exists>pre pend rest k. m = pre @ pend \<and> length pre = 48 * k \<and> length pend < 48 \<and>
     out = b64_lines (use_srp ctx) (no_newlines ctx) pre \<and> enc_num ctx = length pend \<and>
     enc_data ctx = pend @ rest \<and> length (enc_data ctx) = 80 \<and> enc_length ctx = 48)"

lemma encode_lines_ok:
  assumes "enc_length ctx = 48"
  shows "length pre = 48 * k \<Longrightarrow> length suf < 48 \<Longrightarrow> tot + 65 * k \<le> INT_MAX \<Longrightarrow>
    encode_lines ctx out (pre @ suf) tot =
      Inr (out @ b64_lines (use_srp ctx) (no_newlines ctx) pre,
           tot + length (b64_lines (use_srp ctx) (no_newlines ctx) pre), suf)"
proof (induction k arbitrary: pre out tot)
  case 0
  then show ?case
    using assms by (subst encode_lines.simps) simp
next
  case (Suc k)
  define a b where "a = take 48 pre" and "b = drop 48 pre"
  have ab: "pre = a @ b" "length a = 48" "length b = 48 * k"
    using Suc.prems by (simp_all add: a_def b_def)
  define t where "t = b64_line (use_srp ctx) (no_newlines ctx) a"
  have t: "length t \<le> 65"
    using length_b64_line [of "use_srp ctx" "no_newlines ctx" a] ab by (simp add: t_def)
  have "encode_lines ctx out (pre @ suf) tot = encode_lines ctx (out @ t) (b @ suf) (tot + length t)"
    using assms ab Suc.prems
    by (subst encode_lines.simps) (simp add: encodeblock_text t_def b64_line_def Let_def)
  also have "\<dots> = Inr (out @ t @ b64_lines (use_srp ctx) (no_newlines ctx) b,
      tot + length t + length (b64_lines (use_srp ctx) (no_newlines ctx) b), suf)"
    using Suc.IH [of b "tot + length t" "out @ t"] ab Suc.prems t by simp
  finally show ?case
    using ab by (simp add: b64_lines_block t_def)
qed

text \<open>What one call of \<open>EVP_EncodeUpdate\<close> writes.\<close>

lemma EncodeUpdate_repr:
  assumes repr: "enc_repr m out ctx" and inp: "inp \<noteq> []" "length inp \<le> 2 ^ 29"
  shows "\<exists>o' ctx'. EVP_EncodeUpdate ctx inp = Inr (True, o', length o', ctx') \<and>
    enc_repr (m @ inp) (out @ o') ctx' \<and> use_srp ctx' = use_srp ctx \<and>
    no_newlines ctx' = no_newlines ctx \<and> length o' \<le> 65 * ((length inp + 47) div 48)"
proof -
  obtain pre pend rest k where r: "m = pre @ pend" "length pre = 48 * k" "length pend < 48"
    "out = b64_lines (use_srp ctx) (no_newlines ctx) pre" "enc_num ctx = length pend"
    "enc_data ctx = pend @ rest" "length (enc_data ctx) = 80" "enc_length ctx = 48"
    using repr unfolding enc_repr_def by blast
  have rest: "length rest = 80 - length pend" using r(6,7) by simp
  show ?thesis
  proof (cases "length inp < 48 - length pend")
    case True
    define ctx' where "ctx' = ctx\<lparr>enc_data := pend @ inp @ drop (length inp) rest,
      enc_num := length pend + length inp\<rparr>"
    have "EVP_EncodeUpdate ctx inp = Inr (True, [], 0, ctx')"
      using True inp r rest by (simp add: EVP_EncodeUpdate_def ctx'_def)
    moreover have "enc_repr (m @ inp) (out @ []) ctx'"
      unfolding enc_repr_def
      by (intro exI [of _ pre] exI [of _ "pend @ inp"] exI [of _ "drop (length inp) rest"] exI [of _ k])
         (use True r rest in \<open>simp add: ctx'_def\<close>)
    ultimately show ?thesis by (auto simp: ctx'_def)
  next
    case False
    define a where "a = (if pend = [] then [] else pend @ take (48 - length pend) inp)"
    define inp' where "inp' = (if pend = [] then inp else drop (48 - length pend) inp)"
    have ai: "pend @ inp = a @ inp'" by (simp add: a_def inp'_def)
    define j where "j = (if pend = [] then 0 else 1 :: nat)"
    have la: "length a = 48 * j" using False r(3) by (simp add: a_def j_def)
    define p q where "p = take (48 * (length inp' div 48)) inp'"
      and "q = drop (48 * (length inp' div 48)) inp'"
    have pq: "inp' = p @ q" "length p = 48 * (length inp' div 48)"
      by (simp_all add: p_def q_def)
    have "length inp' - 48 * (length inp' div 48) = length inp' mod 48"
      by (rule minus_mult_div_eq_mod)
    then have q: "length q < 48" by (simp add: q_def)
    define ctx1 where "ctx1 = ctx\<lparr>enc_data := (if pend = [] then enc_data ctx
        else a @ drop (48 - length pend) rest), enc_num := (if pend = [] then enc_num ctx else 0)\<rparr>"
    have c1: "enc_length ctx1 = 48" "use_srp ctx1 = use_srp ctx" "no_newlines ctx1 = no_newlines ctx"
      "length (enc_data ctx1) = 80"
      using r rest la by (auto simp: ctx1_def j_def)
    define o1 where "o1 = b64_lines (use_srp ctx) (no_newlines ctx) a"
    define o' where "o' = o1 @ b64_lines (use_srp ctx) (no_newlines ctx) p"
    have "j + length inp' div 48 \<le> (length inp + 47) div 48"
    proof -
      have "48 * j + length inp' = length pend + length inp"
        using ai la by (metis length_append)
      then have "48 * j + length inp' \<le> length inp + 47" using r(3) by simp
      then have "(48 * j + length inp') div 48 \<le> (length inp + 47) div 48" by (rule div_le_mono)
      then show ?thesis by simp
    qed
    moreover have lo: "length o1 \<le> 65 * j" "length (b64_lines (use_srp ctx) (no_newlines ctx) p) \<le> 65 * (length inp' div 48)"
      using length_b64_lines [OF la] length_b64_lines [OF pq(2)] by (simp_all add: o1_def)
    ultimately have o': "length o' \<le> 65 * ((length inp + 47) div 48)"
      unfolding o'_def length_append by linarith
    have bound: "length o1 + 65 * (length inp' div 48) \<le> INT_MAX"
    proof -
      have "length inp' \<le> 2 ^ 29" using inp(2) by (auto simp: inp'_def)
      then have "length inp' div 48 \<le> 2 ^ 29 div 48" by (rule div_le_mono)
      then show ?thesis using lo(1) by (simp add: INT_MAX_def j_def split: if_splits)
    qed
    define ctx' where "ctx' = ctx1\<lparr>enc_data := q @ drop (length q) (enc_data ctx1), enc_num := length q\<rparr>"
    have lines: "encode_lines ctx1 o1 inp' (length o1) = Inr (o', length o', q)"
      using encode_lines_ok [OF c1(1) pq(2) q bound, of o1] pq(1) c1 by (simp add: o'_def)
    have tot: "length o' \<le> INT_MAX" using bound lo(2) by (simp add: o'_def)
    have "EVP_EncodeUpdate ctx inp = Inr (True, o', length o', ctx')"
    proof (cases "pend = []")
      case True
      then have "inp' = inp" "ctx1 = ctx" "o1 = []" by (simp_all add: inp'_def ctx1_def o1_def a_def)
      then show ?thesis
        using False inp r lines tot q c1 True
        by (simp add: EVP_EncodeUpdate_def ctx'_def)
    next
      case pend: False
      have "buf_write (enc_data ctx) (enc_num ctx) (take (48 - length pend) inp) = Inr (enc_data ctx1)"
        using pend False r rest by (simp add: ctx1_def a_def)
      moreover have "take 48 (enc_data ctx1) = a"
        using pend la by (simp add: ctx1_def j_def)
      moreover have "o1 = b64_line (use_srp ctx) (no_newlines ctx) a"
        using la pend by (simp add: o1_def j_def b64_lines_short a_def)
      moreover have "ctx\<lparr>enc_data := enc_data ctx1, enc_num := 0\<rparr> = ctx1"
        using pend by (simp add: ctx1_def)
      moreover have "0 < length pend" using pend by simp
      ultimately show ?thesis
        using False inp r lines tot q c1 pend
        by (cases "no_newlines ctx")
           (simp_all add: EVP_EncodeUpdate_def ctx'_def encodeblock_text b64_line_def Let_def inp'_def)
    qed
    moreover have "enc_repr (m @ inp) (out @ o') ctx'"
      unfolding enc_repr_def
    proof (rule exI [of _ "pre @ a @ p"], rule exI [of _ q],
        rule exI [of _ "drop (length q) (enc_data ctx1)"],
        rule exI [of _ "k + j + length inp' div 48"], intro conjI)
      show "m @ inp = (pre @ a @ p) @ q" using r(1) ai pq(1) by simp
      show "length (pre @ a @ p) = 48 * (k + j + length inp' div 48)"
        using r(2) la pq(2) by simp
      show "out @ o' = b64_lines (use_srp ctx') (no_newlines ctx') (pre @ a @ p)"
        using b64_lines_append [OF r(2)] b64_lines_append [OF la] r(4) c1
        by (simp add: ctx'_def o'_def o1_def)
    qed (use q c1 in \<open>simp_all add: ctx'_def\<close>)
    ultimately show ?thesis using o' c1 by (auto simp: ctx'_def)
  qed
qed

lemma EncodeFinal_repr:
  assumes "enc_repr m out ctx"
  shows "\<exists>o' ctx'. EVP_EncodeFinal ctx = (o', length o', ctx') \<and>
    out @ o' = b64_lines (use_srp ctx) (no_newlines ctx) m \<and> enc_num ctx' = 0 \<and> length o' \<le> 65"
proof -
  obtain pre pend rest k where r: "m = pre @ pend" "length pre = 48 * k" "length pend < 48"
    "out = b64_lines (use_srp ctx) (no_newlines ctx) pre" "enc_num ctx = length pend"
    "enc_data ctx = pend @ rest" "length (enc_data ctx) = 80" "enc_length ctx = 48"
    using assms unfolding enc_repr_def by blast
  have "(length pend + 2) div 3 \<le> 16" using r(3) by simp
  then show ?thesis
    using r b64_lines_append [OF r(2), of "use_srp ctx" "no_newlines ctx" pend]
      length_b64_line [of "use_srp ctx" "no_newlines ctx" pend]
    by (cases "pend = []")
       (auto simp: EVP_EncodeFinal_def encodeblock_text b64_lines_short b64_line_def Let_def)
qed

lemma EncodeInit_repr: "length (enc_data ctx) = 80 \<Longrightarrow> enc_repr [] [] (EVP_EncodeInit ctx)"
  unfolding enc_repr_def by (intro exI [of _ "[]"] exI [of _ "enc_data ctx"] exI [of _ 0])
    (simp add: EVP_EncodeInit_def)

subsection \<open>Parts of a text\<close>

text \<open>Cutting the text at a multiple of four characters cuts the data at a multiple of three bytes.\<close>

lemma take_drop_b64_text:
  assumes "4 * k \<le> length (b64_text srp f)"
  shows "take (4 * k) (b64_text srp f) = b64_text srp (take (3 * k) f)"
    and "drop (4 * k) (b64_text srp f) = b64_text srp (drop (3 * k) f)"
proof -
  have k: "k \<le> (length f + 2) div 3"
    using assms by (simp add: length_b64_text)
  have both: "take (4 * k) (b64_text srp f) = b64_text srp (take (3 * k) f) \<and>
      drop (4 * k) (b64_text srp f) = b64_text srp (drop (3 * k) f)"
  proof (cases "3 * k \<le> length f")
    case True
    have s: "b64_text srp f = b64_text srp (take (3 * k) f) @ b64_text srp (drop (3 * k) f)"
      using True b64_text_append [of "take (3 * k) f" srp "drop (3 * k) f"] by simp
    have "length (b64_text srp (take (3 * k) f)) = 4 * k"
      using True by (simp add: length_b64_text)
    then show ?thesis
      by (subst (1 2) s) simp
  next
    case False
    have "(length f + 2) div 3 \<le> k"
    proof -
      have "length f + 2 < 3 * (k + 1)" using False by simp
      then have "(length f + 2) div 3 < k + 1" by (metis less_mult_imp_div_less mult.commute)
      then show ?thesis by simp
    qed
    with k have "k = (length f + 2) div 3" by simp
    then have "4 * k = length (b64_text srp f)" by (simp add: length_b64_text)
    then show ?thesis using False by simp
  qed
  then show "take (4 * k) (b64_text srp f) = b64_text srp (take (3 * k) f)"
    and "drop (4 * k) (b64_text srp f) = b64_text srp (drop (3 * k) f)" by simp_all
qed

text \<open>Where a prefix of the text has padding, and what follows it.\<close>

lemma prefix_padding:
  assumes "b64_text srp f = P @ R"
  shows "\<exists>body j. P = body @ replicate j eq_char \<and> eq_char \<notin> set body \<and> j \<le> 2 \<and>
    (0 < j \<longrightarrow> set R \<subseteq> {eq_char} \<and> j + length R = pad_len f) \<and> (R = [] \<longrightarrow> j = pad_len f)"
proof -
  obtain body where b: "b64_text srp f = body @ replicate (pad_len f) eq_char" "eq_char \<notin> set body"
    using b64_text_padding by blast
  have pad: "pad_len f \<le> 2" by (simp add: pad_len_def)
  have e: "P @ R = body @ replicate (pad_len f) eq_char" using assms b by simp
  show ?thesis
  proof (cases "length P \<le> length body")
    case True
    then have "P = take (length P) body" using e by (metis append_eq_append_conv_if append_take_drop_id)
    then have "eq_char \<notin> set P" using b(2) by (metis in_set_takeD)
    moreover have "R = [] \<Longrightarrow> pad_len f = 0"
      using e True by (metis append_Nil2 le_add1 length_append length_replicate add_le_same_cancel1 le_antisym le_zero_eq)
    ultimately show ?thesis by (intro exI [of _ P] exI [of _ 0]) simp
  next
    case False
    define X where "X = drop (length body) P"
    have "take (length body) P = body" and "X @ R = replicate (pad_len f) eq_char"
      using e False by (auto simp: X_def append_eq_append_conv_if)
    then have P: "P = body @ X" and "X @ R = replicate (pad_len f) eq_char"
      unfolding X_def by (metis append_take_drop_id)+
    note X = replicate_split [OF this(2)]
    show ?thesis
    proof (intro exI [of _ body] exI [of _ "length X"] conjI impI)
      show "P = body @ replicate (length X) eq_char" using P X(1) by simp
      show "set R \<subseteq> {eq_char}" using X(2) by (metis set_replicate_conv_if empty_subsetI order_refl)
    qed (use X(3) b(2) pad in simp_all)
  qed
qed

subsection \<open>The decoder\<close>

definition eofs :: "bytes \<Rightarrow> nat" where
  "eofs s = length (filter (\<lambda>c. c = eq_char) s)"

lemma eofs_append [simp]: "eofs (xs @ ys) = eofs xs + eofs ys"
  by (simp add: eofs_def)

lemma eofs_Nil [simp]: "eofs [] = 0"
  by (simp add: eofs_def)

lemma eofs_Cons [simp]: "eofs (c # xs) = (if c = eq_char then 1 else 0) + eofs xs"
  by (simp add: eofs_def)

lemma eofs_none: "eq_char \<notin> set xs \<Longrightarrow> eofs xs = 0"
  by (auto simp: eofs_def filter_empty_conv)

lemma eofs_replicate [simp]: "eofs (replicate n eq_char) = n"
  by (simp add: eofs_def)

lemma eofs_b64_text: "eofs (b64_text srp f) = pad_len f"
  using b64_text_padding [of srp f] by (auto simp: eofs_none)

lemma pad_len_le: "pad_len f \<le> 2"
  by (simp add: pad_len_def)

text \<open>The padding that a prefix of the text shows.\<close>

lemma prefix_eofs:
  assumes "b64_text srp f = P @ R"
  shows "eofs P \<le> 2" and "0 < eofs P \<Longrightarrow> set R \<subseteq> {eq_char} \<and> eofs P + length R = pad_len f"
  using prefix_padding [OF assms] by (auto simp: eofs_none)

text \<open>A suffix of a prefix: what a decoder has pending.\<close>

lemma initial_eof_pending:
  assumes "b64_text srp f = (x @ pend) @ R" and "take n d = pend" and "n = length pend"
  shows "initial_eof d n = int (eofs pend)"
proof -
  obtain body j where j: "x @ pend = body @ replicate j eq_char" "eq_char \<notin> set body" "j \<le> 2"
    using prefix_padding [OF assms(1)] by blast
  have "\<exists>y i. pend = y @ replicate i eq_char \<and> eq_char \<notin> set y \<and> i \<le> 2"
  proof (cases "length x \<le> length body")
    case True
    then have "pend = drop (length x) body @ replicate j eq_char"
      using j(1) by (metis append_eq_append_conv_if append_eq_conv_conj drop_append diff_is_0_eq drop0)
    then show ?thesis using j(2,3) by (metis in_set_dropD)
  next
    case False
    then have "pend = drop (length x - length body) (replicate j eq_char)"
      using j(1) by (metis append_eq_conv_conj drop_append drop_all nat_le_linear append_Nil)
    then show ?thesis using j(3) by (intro exI [of _ "[]"]) auto
  qed
  then obtain y i where yi: "pend = y @ replicate i eq_char" "eq_char \<notin> set y" "i \<le> 2" by blast
  have d: "\<And>k. k < n \<Longrightarrow> d ! k = pend ! k" using assms(2) by (metis nth_take)
  have ye: "\<And>k. k < length y \<Longrightarrow> y ! k \<noteq> eq_char" using yi(2) nth_mem by metis
  consider "i = 0" | "i = 1" | "i = 2" using yi(3) by linarith
  then show ?thesis
  proof cases
    case 1
    then have "pend = y" using yi(1) by simp
    then show ?thesis
      using d [of "n - 1"] ye [of "n - 1"] assms(3) yi(2)
      by (cases "n = 0") (simp_all add: initial_eof_def eofs_none)
  next
    case 2
    then show ?thesis
      using d [of "n - 1"] d [of "n - 2"] ye [of "length y - 1"] assms(3) yi
      by (cases y rule: rev_cases) (auto simp: initial_eof_def eofs_none nth_append)
  next
    case 3
    then show ?thesis
      using d [of "n - 1"] d [of "n - 2"] assms(3) yi
      by (simp add: initial_eof_def eofs_none nth_append numeral_2_eq_2)
  qed
qed

text \<open>Decoding whole groups that are pending.\<close>

lemma flush_pending:
  assumes S: "b64_text srp f = P @ R" and P: "length P = 4 * q + 4 * r" and r: "0 < r"
  defines "g \<equiv> take (3 * r) (drop (3 * q) f)"
  shows "evp_decodeblock_int srp (drop (4 * q) P) = (int (length g + pad_len g), g @ replicate (pad_len g) 0)"
    and "eofs (drop (4 * q) P) = pad_len g" and "take (3 * q) f @ g = take (3 * (q + r)) f"
    and "0 < pad_len g \<Longrightarrow> R = []"
proof -
  have le: "4 * (q + r) \<le> length (b64_text srp f)"
    using S P by simp
  have le_r: "4 * r \<le> length (b64_text srp (drop (3 * q) f))"
    using take_drop_b64_text(2) [of q srp f] le by (metis P S add_diff_cancel_left' diff_le_mono
        distrib_left_numeral le_add1 length_append length_drop order_trans)
  have "drop (4 * q) P = take (4 * r) (drop (4 * q) (b64_text srp f))"
    using P by (simp add: S)
  also have "\<dots> = b64_text srp g"
    unfolding g_def using take_drop_b64_text(2) [of q srp f] take_drop_b64_text(1) [OF le_r] le by simp
  finally have e: "drop (4 * q) P = b64_text srp g" .
  show "evp_decodeblock_int srp (drop (4 * q) P) = (int (length g + pad_len g), g @ replicate (pad_len g) 0)"
    unfolding e by (rule decodeblock_text)
  show eo: "eofs (drop (4 * q) P) = pad_len g"
    unfolding e by (rule eofs_b64_text)
  show "take (3 * q) f @ g = take (3 * (q + r)) f"
    unfolding g_def by (simp add: take_add [symmetric] distrib_left)
  assume pos: "0 < pad_len g"
  then have "length g \<noteq> 3 * r"
    by (auto simp: pad_len_def)
  then have g: "g = drop (3 * q) f" by (auto simp: g_def min_def split: if_splits)
  have "g \<noteq> []" using pos by (auto simp: pad_len_def)
  then have "3 * q \<le> length f" using g by (metis drop_all nat_le_linear)
  then have "length f = length g + 3 * q" using g by simp
  then have pf: "pad_len g = pad_len f" by (simp add: pad_len_def)
  have "P = take (4 * q) P @ drop (4 * q) P" by simp
  then have "eofs P = eofs (take (4 * q) P) + pad_len f"
    using eo pf by (metis eofs_append)
  then show "R = []"
    using prefix_eofs(2) [OF S] pos pf by simp
qed

definition dec_inv :: "bool \<Rightarrow> bytes \<Rightarrow> bytes \<Rightarrow> bytes \<Rightarrow> decode_state \<Rightarrow> bool" where
  "dec_inv srp f base P = (\<lambda>(d, n, eof, out). length d = 80 \<and> n < 64 \<and> eof \<le> 2 \<and>
     (\<exists>q R. b64_text srp f = P @ R \<and> length P = 4 * q + n \<and> take n d = drop (4 * q) P \<and>
        base @ out = take (3 * q) f \<and> (eof = int (eofs (take n d)) \<or> n = 0 \<and> R = [])))"

lemma decode_char_newline:
  assumes "dec_inv srp f base P s"
  shows "decode_char srp nl_char s = Inr (None, s)"
proof -
  obtain d n eof out where s: "s = (d, n, eof, out)" by (cases s)
  have "B64_NOT_BASE64 B64_EOLN" "B64_EOLN \<noteq> B64_ERROR" "B64_EOLN \<noteq> B64_EOF"
    by code_simp+
  then show ?thesis
    using assms nl_char_value [of srp]
    by (simp add: s dec_inv_def decode_char_def Let_def ascii2bin_def)
qed

lemma decode_char_step:
  assumes inv: "dec_inv srp f base P s" and S: "b64_text srp f = P @ c # R"
  shows "\<exists>s'. decode_char srp c s = Inr (None, s') \<and> dec_inv srp f base (P @ [c]) s'"
proof -
  obtain d n eof out where s: "s = (d, n, eof, out)" by (cases s)
  obtain q where r: "length d = 80" "n < 64" "length P = 4 * q + n" "take n d = drop (4 * q) P"
    "base @ out = take (3 * q) f" "eof = int (eofs (take n d))"
    using inv S by (auto simp: s dec_inv_def)
  have plain: "plain_char srp c"
    using b64_text_plain [of c srp f] S by simp
  define d' where "d' = d[n := c]"
  define eof' where "eof' = (if c = eq_char then eof + 1 else eof)"
  have S': "b64_text srp f = (P @ [c]) @ R" using S by simp
  have d': "take (Suc n) d' = drop (4 * q) (P @ [c])"
    using r by (simp add: d'_def take_Suc_conv_app_nth)
  have eof': "eof' = int (eofs (take (Suc n) d'))"
    using r d' by (simp add: eof'_def eofs_def)
  have "eofs (take (Suc n) d') \<le> eofs (P @ [c])"
    unfolding d' by (metis append_take_drop_id eofs_append le_add2)
  then have le2: "eof' \<le> 2"
    using prefix_eofs(1) [OF S'] eof' by linarith
  have nopad: "eof = 0" if "c \<noteq> eq_char"
  proof -
    have "eofs P = 0"
      using prefix_eofs(2) [OF S] that by auto
    moreover have "eofs (drop (4 * q) P) \<le> eofs P"
      by (metis append_take_drop_id eofs_append le_add2)
    ultimately show ?thesis using r(4,6) by simp
  qed
  have step: "decode_char srp c s =
    (if Suc n = 64 then
       let (decoded_len, t) = evp_decodeblock_int srp (take (Suc n) d')
       in if decoded_len < 0 \<or> decoded_len < eof' then Inr (Some GotoEnd, (d', 0, eof', out))
          else Inr (None, (d', 0, eof', out @ take (nat (decoded_len - eof')) t))
     else Inr (None, (d', Suc n, eof', out)))"
    using plain nopad le2 r(1,2)
    unfolding s decode_char_def prod.case Let_def plain_char_def ascii2bin_def [symmetric]
      eof'_def d'_def
    by (auto simp: prod.case)
  show ?thesis
  proof (cases "Suc n = 64")
    case False
    have "dec_inv srp f base (P @ [c]) (d', Suc n, eof', out)"
      using r False S' d' eof' le2 by (auto simp: dec_inv_def d'_def intro!: exI [of _ q])
    then show ?thesis using step False by simp
  next
    case True
    define g where "g = take (3 * 16) (drop (3 * q) f)"
    have len: "length (P @ [c]) = 4 * q + 4 * 16" using r(3) True by simp
    note fl = flush_pending [OF S' len, folded g_def]
    have "eof' = int (pad_len g)" using eof' d' fl(2) by simp
    then have "decode_char srp c s = Inr (None, (d', 0, eof', out @ g))"
      using step True fl(1) d' by simp
    moreover have "dec_inv srp f base (P @ [c]) (d', 0, eof', out @ g)"
      unfolding dec_inv_def prod.case
    proof (intro conjI exI [of _ "q + 16"] exI [of _ R])
      show "base @ out @ g = take (3 * (q + 16)) f"
        using r(5) fl(3) by (metis append_assoc zero_less_numeral)
      show "eof' = int (eofs (take 0 d')) \<or> 0 = (0 :: nat) \<and> R = []"
        using fl(4) \<open>eof' = int (pad_len g)\<close> by auto
    qed (use r S' len le2 in \<open>simp_all add: d'_def\<close>)
    ultimately show ?thesis by blast
  qed
qed

lemma decode_chars_inv:
  assumes "dec_inv srp f base P s" and "b64_text srp f = P @ strip_nl inp @ R"
  shows "\<exists>s'. decode_chars srp inp s = Inr (GotoTail False, s') \<and> dec_inv srp f base (P @ strip_nl inp) s'"
  using assms
proof (induction inp arbitrary: P s)
  case Nil
  then show ?case by (simp add: strip_nl_def)
next
  case (Cons c inp)
  show ?case
  proof (cases "c = nl_char")
    case True
    then show ?thesis
      using Cons decode_char_newline [OF Cons.prems(1)] by (simp add: strip_nl_def)
  next
    case False
    then have st: "strip_nl (c # inp) = c # strip_nl inp" by (simp add: strip_nl_def)
    obtain s1 where "decode_char srp c s = Inr (None, s1)" "dec_inv srp f base (P @ [c]) s1"
      using decode_char_step [OF Cons.prems(1), of c "strip_nl inp @ R"] Cons.prems(2) st by auto
    then show ?thesis
      using Cons.IH [of "P @ [c]" s1] Cons.prems(2) st by simp
  qed
qed

text \<open>What a decoding context has taken (\<open>P\<close>) and returned (\<open>prev\<close>) of the text of \<open>f\<close>.\<close>

definition dec_repr :: "bytes \<Rightarrow> bytes \<Rightarrow> bytes \<Rightarrow> EVP_ENCODE_CTX \<Rightarrow> bool" where
  "dec_repr f P prev ctx \<longleftrightarrow> length (enc_data ctx) = 80 \<and> enc_num ctx < 64 \<and>
     (\<exists>q R. b64_text (use_srp ctx) f = P @ R \<and> length P = 4 * q + enc_num ctx \<and>
        take (enc_num ctx) (enc_data ctx) = drop (4 * q) P \<and> prev = take (3 * q) f)"

lemma dec_repr_inv:
  assumes "dec_repr f P prev ctx"
  shows "dec_inv (use_srp ctx) f prev P
    (enc_data ctx, enc_num ctx, initial_eof (enc_data ctx) (enc_num ctx), [])"
proof -
  obtain q R where r: "b64_text (use_srp ctx) f = P @ R" "length P = 4 * q + enc_num ctx"
    "take (enc_num ctx) (enc_data ctx) = drop (4 * q) P" "prev = take (3 * q) f"
    "length (enc_data ctx) = 80" "enc_num ctx < 64"
    using assms unfolding dec_repr_def by blast
  define pend where "pend = drop (4 * q) P"
  have P: "P = take (4 * q) P @ pend" by (simp add: pend_def)
  then have S: "b64_text (use_srp ctx) f = (take (4 * q) P @ pend) @ R" using r(1) by simp
  have e: "initial_eof (enc_data ctx) (enc_num ctx) = int (eofs pend)"
    by (rule initial_eof_pending [OF S]) (use r(2,3) in \<open>simp_all add: pend_def\<close>)
  have "eofs P = eofs (take (4 * q) P) + eofs pend"
    by (metis P eofs_append)
  then have "eofs pend \<le> 2" using prefix_eofs(1) [OF r(1)] by linarith
  then show ?thesis
    using r e unfolding dec_inv_def prod.case pend_def by auto
qed

lemma DecodeUpdate_repr:
  assumes repr: "dec_repr f P prev ctx" and inp: "inp \<noteq> []"
    and S: "b64_text (use_srp ctx) f = P @ strip_nl inp @ R"
  shows "\<exists>rv o' ctx'. EVP_DecodeUpdate ctx inp = Inr (rv, o', ctx') \<and> rv \<in> {0, 1} \<and>
    dec_repr f (P @ strip_nl inp) (prev @ o') ctx' \<and> use_srp ctx' = use_srp ctx \<and>
    (R = [] \<longrightarrow> prev @ o' = f) \<and> (rv = 0 \<longrightarrow> R = [])"
proof -
  define P' where "P' = P @ strip_nl inp"
  have S': "b64_text (use_srp ctx) f = P' @ R" using S by (simp add: P'_def)
  obtain d n eof out where loop: "decode_chars (use_srp ctx) inp
      (enc_data ctx, enc_num ctx, initial_eof (enc_data ctx) (enc_num ctx), []) =
      Inr (GotoTail False, (d, n, eof, out))"
    and inv: "dec_inv (use_srp ctx) f prev P' (d, n, eof, out)"
    using decode_chars_inv [OF dec_repr_inv [OF repr] S] unfolding P'_def by (metis prod_cases4)
  obtain q where r: "length d = 80" "n < 64" "eof \<le> 2" "length P' = 4 * q + n"
    "take n d = drop (4 * q) P'" "prev @ out = take (3 * q) f"
    "eof = int (eofs (take n d)) \<or> n = 0 \<and> R = []"
    using inv S' by (auto simp: dec_inv_def)
  have all: "take (3 * k) f = f" if "length P' = 4 * k" "R = []" for k
  proof -
    have "4 * k = 4 * ((length f + 2) div 3)"
      using S' that by (metis append_Nil2 length_b64_text)
    then show ?thesis by simp
  qed
  show ?thesis
  proof (cases "0 < n \<and> n mod 4 = 0")
    case True
    then obtain k where k: "n = 4 * k" "0 < k" by (auto elim: dvdE simp: mod_eq_0_iff_dvd)
    define g where "g = take (3 * k) (drop (3 * q) f)"
    have len: "length P' = 4 * q + 4 * k" using r(4) k by simp
    note fl = flush_pending [OF S' len k(2), folded g_def]
    have eof: "eof = int (pad_len g)" using r(5,7) fl(2) True by simp
    define ctx' where "ctx' = ctx\<lparr>enc_data := d, enc_num := 0\<rparr>"
    have "EVP_DecodeUpdate ctx inp = Inr (if eof \<noteq> 0 then 0 else 1, out @ g, ctx')"
      using loop inp True fl(1) r(5) eof by (simp add: EVP_DecodeUpdate_def Let_def ctx'_def)
    moreover have "dec_repr f P' (prev @ out @ g) ctx'"
      unfolding dec_repr_def
    proof (intro conjI exI)
      show "b64_text (use_srp ctx') f = P' @ R" using S' by (simp add: ctx'_def)
      show "length P' = 4 * (q + k) + enc_num ctx'" using len by (simp add: ctx'_def)
      show "prev @ out @ g = take (3 * (q + k)) f"
        using r(6) fl(3) by (metis append_assoc)
    qed (use r(1) len in \<open>simp_all add: ctx'_def\<close>)
    moreover have "prev @ out @ g = f" if "R = []"
      using all [of "q + k"] that len r(6) fl(3) by (metis append_assoc distrib_left_numeral)
    ultimately show ?thesis
      using fl(4) eof unfolding P'_def by (auto simp: ctx'_def)
  next
    case False
    define ctx' where "ctx' = ctx\<lparr>enc_data := d, enc_num := n\<rparr>"
    have "EVP_DecodeUpdate ctx inp = Inr (if n = 0 \<and> eof \<noteq> 0 then 0 else 1, out, ctx')"
      using loop inp False unfolding EVP_DecodeUpdate_def Let_def ctx'_def
      by (cases "n = 0") simp_all
    moreover have "dec_repr f P' (prev @ out) ctx'"
      using r S' unfolding dec_repr_def by (intro conjI exI) (simp_all add: ctx'_def)
    moreover have "prev @ out = f" if "R = []"
    proof -
      have "(4 * q + n) mod 4 = 0"
        using S' r(4) that by (metis append_Nil2 length_b64_text mod_mult_self1_is_0)
      then have "n = 0" using False by auto
      then show ?thesis using all [of q] that r(4,6) by simp
    qed
    ultimately show ?thesis
      using r(7) unfolding P'_def by (auto simp: ctx'_def)
  qed
qed

lemma DecodeInit_repr: "length (enc_data ctx) = 80 \<Longrightarrow> dec_repr f [] [] (EVP_DecodeInit ctx)"
  by (auto simp: dec_repr_def EVP_DecodeInit_def intro: exI [of _ 0])

subsection \<open>Whole messages in pieces\<close>

text \<open>
  The calls of a user: the bytes that \<open>*outl\<close> counts, piece by piece; an error ends them.
\<close>

fun encode_all :: "EVP_ENCODE_CTX \<Rightarrow> bytes list \<Rightarrow> (bytes \<times> EVP_ENCODE_CTX) outcome" where
  "encode_all ctx [] = (let (t, n, ctx) = EVP_EncodeFinal ctx in Inr (take n t, ctx))"
| "encode_all ctx (c # cs) =
     bindO (EVP_EncodeUpdate ctx c) (\<lambda>(ok, t, n, ctx).
     if \<not> ok then Inr (take n t, ctx)
     else bindO (encode_all ctx cs) (\<lambda>(t', ctx). Inr (take n t @ t', ctx)))"

text \<open>Decoding piece by piece, with \<open>EVP_DecodeFinal\<close> at the end; \<open>None\<close> when a call returns an error.\<close>

fun decode_all :: "EVP_ENCODE_CTX \<Rightarrow> bytes list \<Rightarrow> bytes option outcome" where
  "decode_all ctx [] = (let (rv, t, ctx) = EVP_DecodeFinal ctx in Inr (if rv < 0 then None else Some t))"
| "decode_all ctx (c # cs) =
     bindO (EVP_DecodeUpdate ctx c) (\<lambda>(rv, t, ctx).
     if rv < 0 then Inr None
     else bindO (decode_all ctx cs) (\<lambda>r. Inr (map_option (\<lambda>t'. t @ t') r)))"

lemma encode_all_repr:
  assumes "enc_repr m out ctx" and "\<forall>c\<in>set cs. c \<noteq> [] \<and> length c \<le> 2 ^ 29"
  shows "\<exists>t ctx'. encode_all ctx cs = Inr (t, ctx') \<and>
    out @ t = b64_lines (use_srp ctx) (no_newlines ctx) (m @ concat cs)"
  using assms
proof (induction cs arbitrary: m out ctx)
  case Nil
  then show ?case using EncodeFinal_repr by fastforce
next
  case (Cons c cs)
  obtain o1 ctx1 where c1: "EVP_EncodeUpdate ctx c = Inr (True, o1, length o1, ctx1)"
    "enc_repr (m @ c) (out @ o1) ctx1" "use_srp ctx1 = use_srp ctx" "no_newlines ctx1 = no_newlines ctx"
    using EncodeUpdate_repr [OF Cons.prems(1), of c] Cons.prems(2) by auto
  then show ?case
    using Cons.IH [OF c1(2)] Cons.prems(2) by (auto simp: c1)
qed

text \<open>After the whole text nothing is pending, so \<open>EVP_DecodeFinal\<close> succeeds and adds nothing.\<close>

lemma DecodeFinal_repr:
  assumes "dec_repr f (b64_text (use_srp ctx) f) f ctx"
  shows "EVP_DecodeFinal ctx = (1, [], ctx)"
proof -
  obtain q where q: "length (b64_text (use_srp ctx) f) = 4 * q + enc_num ctx" "f = take (3 * q) f"
    using assms unfolding dec_repr_def by auto
  have "length f \<le> 3 * q" using q(2) by (metis length_take min.cobounded2)
  then have "(length f + 2) div 3 \<le> q" by linarith
  then have "enc_num ctx = 0" using q(1) by (simp add: length_b64_text)
  then show ?thesis by (simp add: EVP_DecodeFinal_def)
qed

lemma decode_all_repr:
  assumes "dec_repr f P prev ctx" and "\<forall>c\<in>set cs. c \<noteq> []"
    and "b64_text (use_srp ctx) f = P @ strip_nl (concat cs)" and "cs \<noteq> []"
  shows "\<exists>t. decode_all ctx cs = Inr (Some t) \<and> prev @ t = f"
  using assms
proof (induction cs arbitrary: P prev ctx)
  case (Cons c cs)
  obtain rv o1 ctx1 where c1: "EVP_DecodeUpdate ctx c = Inr (rv, o1, ctx1)" "rv \<in> {0, 1}"
    "dec_repr f (P @ strip_nl c) (prev @ o1) ctx1" "use_srp ctx1 = use_srp ctx"
    "strip_nl (concat cs) = [] \<longrightarrow> prev @ o1 = f"
    using DecodeUpdate_repr [OF Cons.prems(1), of c "strip_nl (concat cs)"] Cons.prems(2,3) by auto
  show ?case
  proof (cases "cs = []")
    case True
    then have "prev @ o1 = f" "b64_text (use_srp ctx1) f = P @ strip_nl c"
      using c1(4,5) Cons.prems(3) by (simp_all add: strip_nl_def)
    then have "EVP_DecodeFinal ctx1 = (1, [], ctx1)" using DecodeFinal_repr [of f ctx1] c1(3) by simp
    then show ?thesis using True c1(1,2) \<open>prev @ o1 = f\<close> by auto
  next
    case False
    then show ?thesis
      using Cons.IH [OF c1(3)] Cons.prems(2,3) c1 by auto
  qed
qed simp

subsection \<open>Properties\<close>

text \<open>
  A block decodes to the data it encodes. In both alphabets \<open>evp_decodeblock_int\<close> accepts what
  \<open>evp_encodeblock_int\<close> writes, and returns the data followed by one zero byte per padding character,
  counted in its return value.
\<close>

theorem evp_block_roundtrip:
  "evp_decodeblock_int srp (evp_encodeblock_int srp f) =
    (int (length f + pad_len f), f @ replicate (pad_len f) 0)"
  by (simp add: encodeblock_text decodeblock_text)

text \<open>
  C22: the encoder does not depend on how its data is split. After \<open>EVP_EncodeInit\<close>, any sequence of
  non-empty \<open>EVP_EncodeUpdate\<close> calls and \<open>EVP_EncodeFinal\<close> write the lines of the whole data: 64
  characters and a newline for every 48 bytes, and one shorter line for the rest.
\<close>

theorem evp_encode_stream:
  assumes "length (enc_data ctx) = 80" and "\<forall>c\<in>set cs. c \<noteq> [] \<and> length c \<le> 2 ^ 29"
  shows "\<exists>ctx'. encode_all (EVP_EncodeInit ctx) cs = Inr (b64_lines False False (concat cs), ctx')"
  using encode_all_repr [OF EncodeInit_repr [OF assms(1)] assms(2)] by (auto simp: EVP_EncodeInit_def)

theorem evp_encode_stream_witness:
  "\<exists>ctx'. encode_all (EVP_EncodeInit EVP_ENCODE_CTX_new) [[1, 2], [3]] =
    Inr (b64_lines False False [1, 2, 3], ctx')"
  using evp_encode_stream [of EVP_ENCODE_CTX_new "[[1, 2], [3]]"]
  by (simp add: EVP_ENCODE_CTX_new_def)

text \<open>
  C23: streaming decoding returns the data. However the lines of an encoding are cut into non-empty
  pieces (inside a group of four, between padding characters, before a newline), the calls of
  \<open>EVP_DecodeUpdate\<close> and the call of \<open>EVP_DecodeFinal\<close> behind them succeed and their outputs concatenate to the data.
\<close>

theorem evp_decode_stream:
  assumes "length (enc_data ctx) = 80" and "\<forall>c\<in>set cs. c \<noteq> []" and "cs \<noteq> []"
    and "concat cs = b64_lines False nonl f"
  shows "decode_all (EVP_DecodeInit ctx) cs = Inr (Some f)"
  using decode_all_repr [OF DecodeInit_repr [OF assms(1), of f] assms(2) _ assms(3)]
  by (auto simp: EVP_DecodeInit_def assms(4) strip_nl_lines)

theorem evp_decode_stream_witness:
  "decode_all (EVP_DecodeInit EVP_ENCODE_CTX_new) [[65, 65], [61], [61, 10]] = Inr (Some [0])"
proof -
  have "b64_lines False False [0] = [65, 65, 61, 61, 10]" by code_simp
  then show ?thesis
    using evp_decode_stream [of EVP_ENCODE_CTX_new "[[65, 65], [61], [61, 10]]" False "[0]"]
    by (simp add: EVP_ENCODE_CTX_new_def)
qed

end
