(* ===== verification/Bio_Mem.thy ===== *)
theory Bio_Mem
  imports Prelude
begin

text \<open>
  Memory BIOs of OpenSSL: \<open>crypto/bio/bss_mem.c\<close> and the growing buffers of
  \<open>crypto/buffer/buffer.c\<close>. The memory a BIO points into is its field \<open>block\<close>; a \<open>BUF_MEM\<close> is an
  offset into it with a length and a capacity (the null pointer is the empty block). The allocator
  is the parameter \<open>fresh\<close>: the contents of new memory, or \<open>None\<close> when there is none. A BIO made by
  \<open>BIO_new_mem_buf\<close> is read-only: there \<open>buf\<close> moves and \<open>readp\<close> keeps the start. The dispatch
  functions \<open>BIO_read\<close> and \<open>BIO_write\<close> hand a call to the method of the BIO, as no callback is set.
\<close>

type_synonym memory = "nat \<Rightarrow> bytes option"

subsection \<open>buffer.c\<close>

definition LIMIT_BEFORE_EXPANSION :: nat where
  "LIMIT_BEFORE_EXPANSION = 0x5ffffffc"

record BUF_MEM =
  bm_off :: nat
  bm_length :: nat
  bm_max :: nat

definition BUF_MEM_new :: BUF_MEM where
  "BUF_MEM_new = \<lparr>bm_off = 0, bm_length = 0, bm_max = 0\<rparr>"

text \<open>\<open>memset (&data[i], 0, j - i)\<close>.\<close>

definition zero_range :: "bytes \<Rightarrow> nat \<Rightarrow> nat \<Rightarrow> bytes outcome" where
  "zero_range blk i j = buf_write blk i (replicate (j - i) 0)"

text \<open>
  \<open>BUF_MEM_grow\<close>: the return value, the memory and the buffer. Growing past the capacity allocates
  \<open>(len + 3) / 3 * 4\<close> bytes and copies the old ones.
\<close>

definition BUF_MEM_grow ::
  "memory \<Rightarrow> bytes \<Rightarrow> BUF_MEM \<Rightarrow> nat \<Rightarrow> (nat \<times> bytes \<times> BUF_MEM) outcome"
where
  "BUF_MEM_grow fresh blk str len =
     (if len \<le> bm_length str then Inr (len, blk, str\<lparr>bm_length := len\<rparr>)
      else if len \<le> bm_max str then
        bindO (zero_range blk (bm_off str + bm_length str) (bm_off str + len)) (\<lambda>blk.
        Inr (len, blk, str\<lparr>bm_length := len\<rparr>))
      else if LIMIT_BEFORE_EXPANSION < len then Inr (0, blk, str)
      else
        let n = (len + 3) div 3 * 4
        in case fresh n of None \<Rightarrow> Inr (0, blk, str)
           | Some new \<Rightarrow>
               bindO (zero_range (take (bm_max str) blk @ drop (bm_max str) new) (bm_length str) len) (\<lambda>blk.
               Inr (len, blk, \<lparr>bm_off = 0, bm_length = len, bm_max = n\<rparr>)))"

text \<open>\<open>BUF_MEM_grow_clean\<close>: the same, clearing what it drops.\<close>

definition BUF_MEM_grow_clean ::
  "memory \<Rightarrow> bytes \<Rightarrow> BUF_MEM \<Rightarrow> nat \<Rightarrow> (nat \<times> bytes \<times> BUF_MEM) outcome"
where
  "BUF_MEM_grow_clean fresh blk str len =
     (if len \<le> bm_length str then
        bindO (zero_range blk (bm_off str + len) (bm_off str + bm_length str)) (\<lambda>blk.
        Inr (len, blk, str\<lparr>bm_length := len\<rparr>))
      else if len \<le> bm_max str then
        bindO (zero_range blk (bm_off str + bm_length str) (bm_off str + len)) (\<lambda>blk.
        Inr (len, blk, str\<lparr>bm_length := len\<rparr>))
      else if LIMIT_BEFORE_EXPANSION < len then Inr (0, blk, str)
      else
        let n = (len + 3) div 3 * 4
        in case fresh n of None \<Rightarrow> Inr (0, blk, str)
           | Some new \<Rightarrow>
               bindO (zero_range (take (bm_max str) blk @ drop (bm_max str) new) (bm_length str) len) (\<lambda>blk.
               Inr (len, blk, \<lparr>bm_off = 0, bm_length = len, bm_max = n\<rparr>)))"

text \<open>\<open>BUF_reverse (out, in, size)\<close>, and its loop when \<open>in\<close> is null.\<close>

fun reverse_copy :: "bytes \<Rightarrow> bytes \<Rightarrow> bytes" where
  "reverse_copy out [] = out"
| "reverse_copy out (c # inp) = reverse_copy (c # out) inp"

fun reverse_swap :: "bytes \<Rightarrow> nat \<Rightarrow> nat \<Rightarrow> nat \<Rightarrow> bytes" where
  "reverse_swap a i q 0 = a"
| "reverse_swap a i q (Suc k) = reverse_swap (a[q := a ! i, i := a ! q]) (i + 1) (q - 1) k"

definition BUF_reverse :: "bytes \<Rightarrow> bytes option \<Rightarrow> bytes" where
  "BUF_reverse out inp =
     (case inp of Some s \<Rightarrow> reverse_copy [] s
      | None \<Rightarrow> reverse_swap out 0 (length out - 1) (length out div 2))"

subsection \<open>bss_mem.c\<close>

record MEM_BIO =
  block :: bytes
  buf :: BUF_MEM
  readp :: BUF_MEM
  rdonly :: bool
  nonclear_rst :: bool
  bio_num :: int
  shutdown :: bool
  retry :: bool

definition mem_new :: MEM_BIO where
  "mem_new = \<lparr>block = [], buf = BUF_MEM_new, readp = BUF_MEM_new, rdonly = False,
     nonclear_rst = False, bio_num = -1, shutdown = True, retry = False\<rparr>"

text \<open>\<open>BIO_new_mem_buf (buf, -1)\<close> on a string.\<close>

definition BIO_new_mem_buf :: "bytes \<Rightarrow> MEM_BIO" where
  "BIO_new_mem_buf s =
     (let b = \<lparr>bm_off = 0, bm_length = length s, bm_max = length s\<rparr>
      in mem_new\<lparr>block := s, buf := b, readp := b, rdonly := True, bio_num := 0\<rparr>)"

definition mem_buf_sync :: "MEM_BIO \<Rightarrow> MEM_BIO outcome" where
  "mem_buf_sync b =
     (if bm_off (readp b) \<noteq> bm_off (buf b) then
        bindO (buf_read (block b) (bm_off (readp b)) (bm_length (readp b))) (\<lambda>s.
        bindO (buf_write (block b) (bm_off (buf b)) s) (\<lambda>blk.
        Inr (b\<lparr>block := blk, buf := (buf b)\<lparr>bm_length := bm_length (readp b)\<rparr>,
               readp := (readp b)\<lparr>bm_off := bm_off (buf b)\<rparr>\<rparr>)))
      else Inr b)"

text \<open>The buffer that reads come from: \<open>bm\<close> in the code.\<close>

definition read_buf :: "MEM_BIO \<Rightarrow> BUF_MEM" where
  "read_buf b = (if rdonly b then buf b else readp b)"

definition set_read_buf :: "MEM_BIO \<Rightarrow> BUF_MEM \<Rightarrow> MEM_BIO" where
  "set_read_buf b bm = (if rdonly b then b\<lparr>buf := bm\<rparr> else b\<lparr>readp := bm\<rparr>)"

text \<open>\<open>mem_read (b, out, outl)\<close> with a buffer: the return value, the bytes read and the BIO.\<close>

definition mem_read :: "MEM_BIO \<Rightarrow> int \<Rightarrow> (int \<times> bytes \<times> MEM_BIO) outcome" where
  "mem_read b outl =
     (let b = b\<lparr>retry := False\<rparr>; bm = read_buf b;
          ret = (if 0 \<le> outl \<and> int (bm_length bm) < outl then int (bm_length bm) else outl)
      in if 0 < ret then
           bindO (buf_read (block b) (bm_off bm) (nat ret)) (\<lambda>s.
           Inr (ret, s, set_read_buf b
             \<lparr>bm_off = bm_off bm + nat ret, bm_length = bm_length bm - nat ret,
              bm_max = bm_max bm - nat ret\<rparr>))
         else if bm_length bm = 0 then
           Inr (bio_num b, [], b\<lparr>retry := (bio_num b \<noteq> 0)\<rparr>)
         else Inr (ret, [], b))"

definition mem_write :: "memory \<Rightarrow> MEM_BIO \<Rightarrow> bytes \<Rightarrow> (int \<times> MEM_BIO) outcome" where
  "mem_write fresh b inp =
     (if rdonly b then Inr (-1, b)
      else
        let b = b\<lparr>retry := False\<rparr>
        in if length inp = 0 then Inr (0, b)
           else
             let blen = bm_length (readp b)
             in bindO (mem_buf_sync b) (\<lambda>b.
                bindO (BUF_MEM_grow_clean fresh (block b) (buf b) (blen + length inp)) (\<lambda>(r, blk, bm).
                let b = b\<lparr>block := blk, buf := bm\<rparr>
                in if r = 0 then Inr (-1, b)
                   else
                     bindO (buf_write (block b) (bm_off bm + blen) inp) (\<lambda>blk.
                     Inr (int (length inp), b\<lparr>block := blk, readp := bm\<rparr>)))))"

text \<open>\<open>mem_gets (bp, buf, sz)\<close>, with the bytes it writes at \<open>buf\<close>, and \<open>mem_puts\<close>.\<close>

fun upto_newline :: "bytes \<Rightarrow> nat" where
  "upto_newline [] = 0"
| "upto_newline (c # s) = (if c = 10 then 1 else upto_newline s + 1)"

definition mem_gets :: "MEM_BIO \<Rightarrow> int \<Rightarrow> (int \<times> bytes \<times> MEM_BIO) outcome" where
  "mem_gets b sz =
     (let b = b\<lparr>retry := False\<rparr>; bm = read_buf b;
          j = (if sz - 1 < int (bm_length bm) then sz - 1 else int (bm_length bm))
      in if j \<le> 0 then Inr (0, [0], b)
         else bindO (buf_read (block b) (bm_off bm) (nat j)) (\<lambda>p.
              bindO (mem_read b (int (upto_newline p))) (\<lambda>(i, s, b).
              Inr (i, if 0 < i then s @ [0] else s, b))))"

definition mem_puts :: "memory \<Rightarrow> MEM_BIO \<Rightarrow> bytes \<Rightarrow> (int \<times> MEM_BIO) outcome" where
  "mem_puts fresh b str = mem_write fresh b str"

text \<open>
  \<open>mem_ctrl\<close>: the return value and the BIO. \<open>C_SET_BUF_MEM\<close> takes over the given memory; the pointer
  results of \<open>CTRL_INFO\<close> and \<open>C_GET_BUF_MEM_PTR\<close> are fields of the BIO that is returned.
\<close>

datatype mem_cmd = CTRL_RESET | CTRL_EOF | C_SET_BUF_MEM_EOF_RETURN int | CTRL_INFO
  | C_SET_BUF_MEM bytes BUF_MEM bool | C_GET_BUF_MEM_PTR | CTRL_GET_CLOSE | CTRL_SET_CLOSE bool
  | CTRL_WPENDING | CTRL_PENDING | CTRL_DUP | CTRL_FLUSH | CTRL_PUSH | CTRL_POP

definition mem_ctrl :: "MEM_BIO \<Rightarrow> mem_cmd \<Rightarrow> (int \<times> MEM_BIO) outcome" where
  "mem_ctrl b cmd =
     (case cmd of
        CTRL_RESET \<Rightarrow>
          if block b = [] then Inr (1, b)
          else if rdonly b then Inr (1, b\<lparr>buf := readp b\<rparr>)
          else if nonclear_rst b then Inr (1, b\<lparr>readp := buf b\<rparr>)
          else bindO (zero_range (block b) (bm_off (buf b)) (bm_off (buf b) + bm_max (buf b))) (\<lambda>blk.
               let bm = (buf b)\<lparr>bm_length := 0\<rparr> in Inr (1, b\<lparr>block := blk, buf := bm, readp := bm\<rparr>))
      | CTRL_EOF \<Rightarrow> Inr (if bm_length (read_buf b) = 0 then 1 else 0, b)
      | C_SET_BUF_MEM_EOF_RETURN n \<Rightarrow> Inr (1, b\<lparr>bio_num := n\<rparr>)
      | CTRL_INFO \<Rightarrow> Inr (int (bm_length (read_buf b)), b)
      | C_SET_BUF_MEM blk bm sh \<Rightarrow> Inr (1, b\<lparr>block := blk, shutdown := sh, buf := bm, readp := bm\<rparr>)
      | C_GET_BUF_MEM_PTR \<Rightarrow>
          if rdonly b then Inr (1, b) else bindO (mem_buf_sync b) (\<lambda>b. Inr (1, b))
      | CTRL_GET_CLOSE \<Rightarrow> Inr (if shutdown b then 1 else 0, b)
      | CTRL_SET_CLOSE sh \<Rightarrow> Inr (1, b\<lparr>shutdown := sh\<rparr>)
      | CTRL_WPENDING \<Rightarrow> Inr (0, b)
      | CTRL_PENDING \<Rightarrow> Inr (int (bm_length (read_buf b)), b)
      | CTRL_DUP \<Rightarrow> Inr (1, b)
      | CTRL_FLUSH \<Rightarrow> Inr (1, b)
      | CTRL_PUSH \<Rightarrow> Inr (0, b)
      | CTRL_POP \<Rightarrow> Inr (0, b))"

subsection \<open>Sequences of writes and reads on a byte queue\<close>

datatype queue_op = Put bytes | Get int

text \<open>
  The bytes that were accepted, the bytes that were read, and the final state. A call that returns a
  number of bytes other than the length has accepted nothing.
\<close>

fun queue_run ::
  "('s \<Rightarrow> bytes \<Rightarrow> (int \<times> 's) outcome) \<Rightarrow> ('s \<Rightarrow> int \<Rightarrow> (int \<times> bytes \<times> 's) outcome) \<Rightarrow>
   's \<Rightarrow> queue_op list \<Rightarrow> (bytes \<times> bytes \<times> 's) outcome"
where
  "queue_run put get s [] = Inr ([], [], s)"
| "queue_run put get s (Put x # ops) =
     bindO (put s x) (\<lambda>(r, s).
     bindO (queue_run put get s ops) (\<lambda>(acc, out, s).
     Inr ((if r = int (length x) then x else []) @ acc, out, s)))"
| "queue_run put get s (Get n # ops) =
     bindO (get s n) (\<lambda>(r, got, s).
     bindO (queue_run put get s ops) (\<lambda>(acc, out, s). Inr (acc, got @ out, s)))"

locale byte_queue =
  fixes inv :: "'s \<Rightarrow> bool"
    and content :: "'s \<Rightarrow> bytes"
    and put :: "'s \<Rightarrow> bytes \<Rightarrow> (int \<times> 's) outcome"
    and get :: "'s \<Rightarrow> int \<Rightarrow> (int \<times> bytes \<times> 's) outcome"
  assumes put_law: "inv s \<Longrightarrow>
      \<exists>r s'. put s x = Inr (r, s') \<and> inv s' \<and>
        content s' = content s @ (if r = int (length x) then x else [])"
    and get_law: "inv s \<Longrightarrow>
      \<exists>r s'. get s n = Inr (r, take (nat n) (content s), s') \<and> inv s' \<and>
        content s' = drop (nat n) (content s) \<and>
        (content s \<noteq> [] \<longrightarrow> 0 < n \<longrightarrow> r = int (min (nat n) (length (content s))))"
begin

lemma fifo:
  assumes "inv s"
  shows "\<exists>acc out s'. queue_run put get s ops = Inr (acc, out, s') \<and> inv s' \<and>
    content s @ acc = out @ content s'"
  using assms
proof (induction ops arbitrary: s)
  case Nil
  then show ?case by simp
next
  case (Cons op ops)
  show ?case
  proof (cases op)
    case (Put x)
    from put_law [OF Cons.prems, of x] obtain r s1
      where p: "put s x = Inr (r, s1)" "inv s1"
        "content s1 = content s @ (if r = int (length x) then x else [])" by blast
    from Cons.IH [OF p(2)] obtain acc out s2
      where "queue_run put get s1 ops = Inr (acc, out, s2)" "inv s2"
        "content s1 @ acc = out @ content s2" by blast
    with p Put show ?thesis by auto
  next
    case (Get n)
    from get_law [OF Cons.prems, of n] obtain r s1
      where p: "get s n = Inr (r, take (nat n) (content s), s1)" "inv s1"
        "content s1 = drop (nat n) (content s)" by blast
    from Cons.IH [OF p(2)] obtain acc out s2
      where r: "queue_run put get s1 ops = Inr (acc, out, s2)" "inv s2"
        "content s1 @ acc = out @ content s2" by blast
    have "content s @ acc = (take (nat n) (content s) @ out) @ content s2"
      using r(3) p(3) by (metis append.assoc append_take_drop_id)
    with p r Get show ?thesis by simp
  qed
qed

text \<open>Reading at least one byte at a time empties the queue.\<close>

lemma drain:
  assumes "inv s" and "list_all (\<lambda>n. 0 < n) ns" and "length (content s) \<le> length ns"
  shows "\<exists>s'. queue_run put get s (map Get ns) = Inr ([], content s, s') \<and> inv s' \<and> content s' = []"
  using assms
proof (induction ns arbitrary: s)
  case Nil
  then show ?case by simp
next
  case (Cons n ns)
  from get_law [OF Cons.prems(1), of n] obtain r s1
    where p: "get s n = Inr (r, take (nat n) (content s), s1)" "inv s1"
      "content s1 = drop (nat n) (content s)" by blast
  have "1 \<le> nat n" using Cons.prems(2) by (simp add: Suc_le_eq)
  then have "length (content s1) \<le> length ns" using p(3) Cons.prems(3) by simp
  then obtain s2 where "queue_run put get s1 (map Get ns) = Inr ([], content s1, s2)" "inv s2" "content s2 = []"
    using Cons.IH [OF p(2)] Cons.prems(2) by auto
  with p show ?case by simp
qed

end

subsection \<open>The memory BIO is a byte queue\<close>

text \<open>
  The invariant: the unread bytes and the buffer lie inside the memory; a writable BIO owns its
  memory from the start to its capacity and its read pointer ends where the buffer ends.
\<close>

definition mem_inv :: "MEM_BIO \<Rightarrow> bool" where
  "mem_inv b =
     (bm_off (buf b) + bm_length (buf b) \<le> length (block b) \<and>
      bm_off (readp b) + bm_length (readp b) \<le> length (block b) \<and>
      (\<not> rdonly b \<longrightarrow> bm_off (buf b) = 0 \<and> bm_max (buf b) = length (block b) \<and>
         bm_off (readp b) + bm_length (readp b) = bm_length (buf b)))"

definition pending :: "MEM_BIO \<Rightarrow> bytes" where
  "pending b = take (bm_length (read_buf b)) (drop (bm_off (read_buf b)) (block b))"

definition good_memory :: "memory \<Rightarrow> bool" where
  "good_memory fresh = (\<forall>n m. fresh n = Some m \<longrightarrow> length m = n)"

lemma length_pending: "mem_inv b \<Longrightarrow> length (pending b) = bm_length (read_buf b)"
  by (auto simp: mem_inv_def pending_def read_buf_def)

lemma set_read_buf_simps [simp]:
  "read_buf (set_read_buf b bm) = bm" "block (set_read_buf b bm) = block b"
  "rdonly (set_read_buf b bm) = rdonly b"
  by (simp_all add: read_buf_def set_read_buf_def)

lemma retry_simps [simp]:
  "mem_inv (b\<lparr>retry := x\<rparr>) = mem_inv b" "read_buf (b\<lparr>retry := x\<rparr>) = read_buf b"
  "pending (b\<lparr>retry := x\<rparr>) = pending b"
  by (simp_all add: mem_inv_def pending_def read_buf_def)

lemma mem_new_inv [simp]: "mem_inv mem_new" "pending mem_new = []"
  by (simp_all add: mem_inv_def mem_new_def BUF_MEM_new_def pending_def read_buf_def)

lemma BIO_new_mem_buf_inv [simp]: "mem_inv (BIO_new_mem_buf s)" "pending (BIO_new_mem_buf s) = s"
  by (simp_all add: mem_inv_def BIO_new_mem_buf_def mem_new_def pending_def read_buf_def Let_def)

lemma mem_buf_sync_ok:
  assumes "mem_inv b" and "\<not> rdonly b"
  shows "\<exists>b'. mem_buf_sync b = Inr b' \<and> mem_inv b' \<and> pending b' = pending b \<and>
    bm_off (readp b') = 0 \<and> \<not> rdonly b' \<and> bm_length (readp b') = bm_length (readp b) \<and>
    length (block b') = length (block b) \<and> buf b' = (buf b)\<lparr>bm_length := bm_length (readp b)\<rparr>"
  using assms
  by (auto simp: mem_buf_sync_def mem_inv_def buf_read_def pending_def read_buf_def)

lemma BUF_MEM_grow_clean_ok:
  assumes "good_memory fresh" and "bm_off bm = 0" and "bm_max bm = length blk"
    and "bm_length bm \<le> length blk" and "bm_length bm < len"
  shows "\<exists>r blk' bm'. BUF_MEM_grow_clean fresh blk bm len = Inr (r, blk', bm') \<and>
    take (bm_length bm) blk' = take (bm_length bm) blk \<and>
    (r = 0 \<and> bm' = bm \<and> blk' = blk \<or>
     r = len \<and> bm_off bm' = 0 \<and> bm_length bm' = len \<and> bm_max bm' = length blk' \<and> len \<le> length blk')"
proof (cases "len \<le> bm_max bm")
  case True
  then show ?thesis
    using assms by (simp add: BUF_MEM_grow_clean_def zero_range_def)
next
  case False
  show ?thesis
  proof (cases "LIMIT_BEFORE_EXPANSION < len \<or> fresh ((len + 3) div 3 * 4) = None")
    case True
    then show ?thesis
      using False assms by (auto simp: BUF_MEM_grow_clean_def Let_def)
  next
    case ok: False
    define n where "n = (len + 3) div 3 * 4"
    have n: "len \<le> n" by (simp add: n_def)
    from ok obtain new where new: "fresh n = Some new" by (auto simp: n_def)
    then have "length new = n" using assms(1) by (simp add: good_memory_def)
    then show ?thesis
      using False ok assms n new
      by (simp add: BUF_MEM_grow_clean_def zero_range_def Let_def n_def [symmetric] min_def)
  qed
qed

text \<open>A write is accepted when the memory is there and the limit is kept.\<close>

lemma BUF_MEM_grow_clean_accepts:
  assumes "good_memory fresh" and "bm_off bm = 0" and "bm_max bm = length blk"
    and "bm_length bm \<le> length blk" and "bm_length bm < len"
    and "len \<le> LIMIT_BEFORE_EXPANSION" and "fresh ((len + 3) div 3 * 4) \<noteq> None"
    and "BUF_MEM_grow_clean fresh blk bm len = Inr (r, blk', bm')"
  shows "r = len"
proof (cases "len \<le> bm_max bm")
  case True
  then show ?thesis using assms by (simp add: BUF_MEM_grow_clean_def zero_range_def)
next
  case False
  obtain new where new: "fresh ((len + 3) div 3 * 4) = Some new" using assms(7) by auto
  then have "length new = (len + 3) div 3 * 4" using assms(1) by (simp add: good_memory_def)
  moreover have "len \<le> (len + 3) div 3 * 4" by simp
  ultimately show ?thesis
    using False assms new by (auto simp: BUF_MEM_grow_clean_def zero_range_def Let_def)
qed

lemma mem_write_step:
  assumes fresh: "good_memory fresh" and inv: "mem_inv b"
  shows "\<exists>r b'. mem_write fresh b x = Inr (r, b') \<and> mem_inv b' \<and> rdonly b' = rdonly b \<and>
    pending b' = pending b @ (if r = int (length x) then x else []) \<and>
    (\<not> rdonly b \<and> length (pending b) + length x \<le> LIMIT_BEFORE_EXPANSION \<and>
     fresh ((length (pending b) + length x + 3) div 3 * 4) \<noteq> None \<longrightarrow> r = int (length x))"
proof (cases "rdonly b \<or> x = []")
  case True
  have "mem_inv (b\<lparr>retry := False\<rparr>)" "pending (b\<lparr>retry := False\<rparr>) = pending b"
    using inv by (simp_all add: mem_inv_def pending_def read_buf_def)
  with True inv show ?thesis by (cases "rdonly b") (simp_all add: mem_write_def Let_def)
next
  case False
  define b0 where "b0 = b\<lparr>retry := False\<rparr>"
  have b0: "mem_inv b0" "\<not> rdonly b0" "pending b0 = pending b" "bm_length (readp b) = bm_length (readp b0)"
    using inv False by (simp_all add: b0_def mem_inv_def pending_def read_buf_def)
  from mem_buf_sync_ok [OF b0(1,2)] obtain b1 where b1:
    "mem_buf_sync b0 = Inr b1" "mem_inv b1" "pending b1 = pending b0" "bm_off (readp b1) = 0"
    "\<not> rdonly b1" "bm_length (readp b1) = bm_length (readp b0)"
    by blast
  have buf1: "bm_off (buf b1) = 0" "bm_max (buf b1) = length (block b1)"
    "bm_length (buf b1) = bm_length (readp b0)" "bm_length (buf b1) \<le> length (block b1)"
    using b1 by (auto simp: mem_inv_def)
  have lt: "bm_length (buf b1) < bm_length (readp b0) + length x"
    using False buf1 by simp
  from BUF_MEM_grow_clean_ok [OF fresh buf1(1,2,4) lt] obtain r blk bm where g:
    "BUF_MEM_grow_clean fresh (block b1) (buf b1) (bm_length (readp b0) + length x) = Inr (r, blk, bm)"
    "take (bm_length (buf b1)) blk = take (bm_length (buf b1)) (block b1)"
    "r = 0 \<and> bm = buf b1 \<and> blk = block b1 \<or>
     r = bm_length (readp b0) + length x \<and> bm_off bm = 0 \<and> bm_length bm = bm_length (readp b0) + length x \<and>
     bm_max bm = length blk \<and> bm_length (readp b0) + length x \<le> length blk"
    by blast
  have run: "mem_write fresh b x =
      (if r = 0 then Inr (-1, b1\<lparr>block := blk, buf := bm\<rparr>)
       else bindO (buf_write blk (bm_off bm + bm_length (readp b0)) x) (\<lambda>blk'.
         Inr (int (length x), b1\<lparr>buf := bm, block := blk', readp := bm\<rparr>)))"
    using False g(1) b1(1) b0(4) by (simp add: mem_write_def b0_def [symmetric] Let_def)
  have len: "length (pending b) = bm_length (readp b0)"
    using inv False b0(4) by (simp add: length_pending read_buf_def)
  have p1: "pending b = take (bm_length (buf b1)) (block b1)"
    using b1 b0 buf1 by (simp add: pending_def read_buf_def)
  show ?thesis
    using g(3)
  proof (elim disjE conjE)
    assume "r = 0" "bm = buf b1" "blk = block b1"
    moreover have "LIMIT_BEFORE_EXPANSION < length (pending b) + length x \<or>
        fresh ((length (pending b) + length x + 3) div 3 * 4) = None"
      using BUF_MEM_grow_clean_accepts [OF fresh buf1(1,2,4) lt _ _ g(1)] \<open>r = 0\<close> lt len False
      by (auto simp: not_le [symmetric] simp del: not_le not_None_eq)
    ultimately show ?thesis using run b1(2,3,5) b0(3) False by auto
  next
    assume "r = bm_length (readp b0) + length x" "bm_off bm = 0"
      "bm_length bm = bm_length (readp b0) + length x" "bm_max bm = length blk"
      "bm_length (readp b0) + length x \<le> length blk"
    then show ?thesis
      using run b1(5) False p1 g(2) buf1(3,4)
      by (auto simp: mem_inv_def pending_def read_buf_def)
  qed
qed

lemma mem_write_law:
  assumes "good_memory fresh" and "mem_inv b"
  shows "\<exists>r b'. mem_write fresh b x = Inr (r, b') \<and> mem_inv b' \<and>
    pending b' = pending b @ (if r = int (length x) then x else [])"
  using mem_write_step [OF assms, of x] by blast

lemma mem_read_law:
  assumes inv: "mem_inv b"
  shows "\<exists>r b'. mem_read b n = Inr (r, take (nat n) (pending b), b') \<and> mem_inv b' \<and>
    pending b' = drop (nat n) (pending b) \<and>
    (pending b \<noteq> [] \<longrightarrow> 0 < n \<longrightarrow> r = int (min (nat n) (length (pending b))))"
proof -
  define bm where "bm = read_buf b"
  have bm: "bm_off bm + bm_length bm \<le> length (block b)"
    using inv by (simp add: bm_def read_buf_def mem_inv_def)
  have pend: "pending b = take (bm_length bm) (drop (bm_off bm) (block b))"
    by (simp add: pending_def bm_def)
  show ?thesis
  proof (cases "0 < n \<and> 0 < bm_length bm")
    case True
    define k where "k = min (nat n) (bm_length bm)"
    define b' where "b' = set_read_buf (b\<lparr>retry := False\<rparr>)
          \<lparr>bm_off = bm_off bm + k, bm_length = bm_length bm - k, bm_max = bm_max bm - k\<rparr>"
    have "mem_read b n = Inr (int k, take k (drop (bm_off bm) (block b)), b')"
      using True bm
      by (auto simp: mem_read_def Let_def bm_def [symmetric] buf_read_def k_def b'_def min_def)
    moreover have "mem_inv b'"
      using inv by (auto simp: mem_inv_def b'_def set_read_buf_def bm_def read_buf_def k_def)
    moreover have "pending b' = drop (nat n) (pending b)"
    proof -
      have "pending b' = take (bm_length bm - k) (drop (k + bm_off bm) (block b))"
        by (simp add: pending_def b'_def add.commute)
      also have "\<dots> = drop k (take (bm_length bm) (drop (bm_off bm) (block b)))"
        by (simp add: drop_take)
      also have "\<dots> = drop (nat n) (take (bm_length bm) (drop (bm_off bm) (block b)))"
        by (simp add: k_def min_def)
      finally show ?thesis by (simp add: pend)
    qed
    moreover have "take k (drop (bm_off bm) (block b)) = take (nat n) (pending b)"
      by (simp add: pend k_def)
    moreover have "length (pending b) = bm_length bm"
      using inv by (simp add: length_pending bm_def)
    ultimately show ?thesis by (auto simp: k_def)
  next
    case False
    then have "n \<le> 0 \<or> bm_length bm = 0" by auto
    moreover have "pending b = []" if "bm_length bm = 0"
      using that by (simp add: pend)
    ultimately show ?thesis
      using inv by (auto simp: mem_read_def Let_def bm_def [symmetric])
  qed
qed

interpretation mem_queue: byte_queue "\<lambda>b. good_memory fresh \<and> mem_inv b" pending
    "mem_write fresh" mem_read for fresh
proof unfold_locales
  fix b x
  assume "good_memory fresh \<and> mem_inv b"
  then show "\<exists>r b'. mem_write fresh b x = Inr (r, b') \<and> (good_memory fresh \<and> mem_inv b') \<and>
      pending b' = pending b @ (if r = int (length x) then x else [])"
    using mem_write_law by blast
next
  fix b n
  assume "good_memory fresh \<and> mem_inv b"
  then show "\<exists>r b'. mem_read b n = Inr (r, take (nat n) (pending b), b') \<and>
      (good_memory fresh \<and> mem_inv b') \<and> pending b' = drop (nat n) (pending b) \<and>
      (pending b \<noteq> [] \<longrightarrow> 0 < n \<longrightarrow> r = int (min (nat n) (length (pending b))))"
    using mem_read_law by blast
qed

lemma mem_write_accepts:
  assumes "good_memory fresh" and "mem_inv b" and "\<not> rdonly b"
    and "length (pending b) + length x \<le> LIMIT_BEFORE_EXPANSION"
    and "fresh ((length (pending b) + length x + 3) div 3 * 4) \<noteq> None"
  shows "\<exists>b'. mem_write fresh b x = Inr (int (length x), b') \<and> mem_inv b' \<and> \<not> rdonly b' \<and>
    pending b' = pending b @ x"
  using mem_write_step [OF assms(1,2), of x] assms(3-5) by auto

text \<open>The control operations keep the invariant; a writable reset empties the queue.\<close>

lemma mem_ctrl_inv:
  assumes "mem_inv b" and "\<And>blk bm sh. cmd \<noteq> C_SET_BUF_MEM blk bm sh"
  shows "\<exists>r b'. mem_ctrl b cmd = Inr (r, b') \<and> mem_inv b' \<and> rdonly b' = rdonly b \<and>
    (cmd \<noteq> CTRL_RESET \<longrightarrow> pending b' = pending b)"
proof (cases cmd)
  case CTRL_RESET
  then show ?thesis
    using assms(1) by (auto simp: mem_ctrl_def mem_inv_def zero_range_def Let_def)
next
  case C_GET_BUF_MEM_PTR
  show ?thesis
  proof (cases "rdonly b")
    case False
    from mem_buf_sync_ok [OF assms(1) this] C_GET_BUF_MEM_PTR False show ?thesis
      by (auto simp: mem_ctrl_def)
  qed (use assms(1) C_GET_BUF_MEM_PTR in \<open>simp add: mem_ctrl_def\<close>)
qed (use assms in \<open>auto simp: mem_ctrl_def mem_inv_def pending_def read_buf_def\<close>)

subsection \<open>Lines\<close>

lemma upto_newline_spec:
  "upto_newline s \<le> length s"
  "10 \<notin> set (butlast (take (upto_newline s) s))"
  "upto_newline s = length s \<or> last (take (upto_newline s) s) = 10"
proof (induction s)
  case (Cons c s)
  {
    case 1
    then show ?case using Cons by simp
  next
    case 2
    then show ?case using Cons by auto
  next
    case 3
    have "upto_newline s = 0 \<longrightarrow> s = []" by (cases s) auto
    then show ?case using Cons by auto
  }
qed simp_all

subsection \<open>Reversal\<close>

lemma reverse_copy_eq: "reverse_copy out s = rev s @ out"
  by (induction s arbitrary: out) simp_all

lemma reverse_swap_length [simp]: "length (reverse_swap a i q k) = length a"
  by (induction k arbitrary: a i q) simp_all

lemma reverse_swap_nth:
  assumes "j < length a" and "i + k \<le> length a div 2" and "q = length a - 1 - i"
  shows "reverse_swap a i q k ! j =
    (if i \<le> j \<and> j < i + k \<or> i \<le> length a - 1 - j \<and> length a - 1 - j < i + k
     then a ! (length a - 1 - j) else a ! j)"
  using assms
proof (induction k arbitrary: a i q)
  case 0
  then show ?case by auto
next
  case (Suc k)
  define a' where "a' = a[q := a ! i, i := a ! q]"
  have len: "length a' = length a" by (simp add: a'_def)
  have iq: "i < q" "q < length a" "q - 1 = length a - 1 - (i + 1)"
    using Suc.prems by linarith+
  have nth: "a' ! m = (if m = i then a ! q else if m = q then a ! i else a ! m)"
    if "m < length a" for m
    using that iq by (auto simp: a'_def nth_list_update)
  define p where "p = length a - 1 - j"
  have p: "p < length a" "length a - 1 - j = p" "i \<le> p \<longleftrightarrow> j \<le> q" "p = i \<longleftrightarrow> j = q" "p = q \<longleftrightarrow> j = i"
    using Suc.prems by (auto simp: p_def)
  have step: "reverse_swap a i q (Suc k) ! j =
      (if i + 1 \<le> j \<and> j < i + 1 + k \<or> i + 1 \<le> p \<and> p < i + 1 + k then a' ! p else a' ! j)"
    using Suc.IH [of a' "i + 1" "q - 1"] Suc.prems iq by (simp add: len p_def a'_def)
  have qk: "i + 1 + k \<le> q" using Suc.prems by linarith
  consider "j = i" | "j = q" | "j \<noteq> i" "j \<noteq> q" by blast
  then show ?case
  proof cases
    case 1
    then show ?thesis
      using step p iq qk Suc.prems(1) by (auto simp: nth)
  next
    case 2
    then show ?thesis
      using step p iq qk Suc.prems(1) by (auto simp: nth)
  next
    case 3
    then have "p \<noteq> i" "p \<noteq> q" using p by simp_all
    then show ?thesis
      unfolding step p(2) using 3 p(1) Suc.prems(1) by (simp add: nth)
  qed
qed

text \<open>
  \<open>BUF_reverse\<close> reverses a buffer, whether it copies from another buffer or swaps in place.
\<close>

theorem BUF_reverse_rev:
  "BUF_reverse out (Some s) = rev s \<and> BUF_reverse out None = rev out"
proof
  show "BUF_reverse out (Some s) = rev s"
    by (simp add: BUF_reverse_def reverse_copy_eq)
  show "BUF_reverse out None = rev out"
    unfolding BUF_reverse_def option.case
  proof (rule nth_equalityI)
    fix j
    assume "j < length (reverse_swap out 0 (length out - 1) (length out div 2))"
    then have j: "j < length out" by simp
    have "j < length out div 2 \<or> length out - 1 - j < length out div 2 \<or> length out - 1 - j = j"
      using j by linarith
    then show "reverse_swap out 0 (length out - 1) (length out div 2) ! j = rev out ! j"
      using j by (auto simp: reverse_swap_nth rev_nth)
  qed simp
qed

text \<open>
  C34: A memory BIO is a FIFO queue: whatever sequence of \<open>BIO_write\<close> and \<open>BIO_read\<close> calls is made,
  with any sizes (negative ones too) and an allocator that may fail at any call, nothing crashes, and
  the bytes that were pending followed by the bytes that were accepted are the bytes that were read
  followed by the bytes that are left.
\<close>

theorem mem_bio_fifo:
  assumes "good_memory fresh" and "mem_inv b"
  shows "\<exists>acc out b'. queue_run (mem_write fresh) mem_read b ops = Inr (acc, out, b') \<and> mem_inv b' \<and>
    pending b @ acc = out @ pending b'"
  using mem_queue.fifo [of fresh b ops] assms by blast

theorem mem_bio_fifo_witness:
  "\<exists>acc out b'. queue_run (mem_write (\<lambda>n. Some (replicate n 7))) mem_read mem_new
      [Put [1, 2, 3], Get 2, Put [4, 5], Get 9, Get 1] = Inr (acc, out, b') \<and> mem_inv b' \<and>
    pending mem_new @ acc = out @ pending b'"
  by (rule mem_bio_fifo) (simp_all add: good_memory_def)

text \<open>
  \<open>mem_gets\<close> on a memory BIO takes from the queue the bytes up to and with the first line feed,
  at most \<open>size - 1\<close> of them, and writes them and a zero byte: never more than \<open>size\<close> bytes.
\<close>

theorem mem_gets_line:
  assumes "mem_inv b" and "0 < sz"
  shows "\<exists>r s b'. mem_gets b sz = Inr (r, s @ [0], b') \<and> mem_inv b' \<and>
    r = int (length s) \<and> r < sz \<and> pending b = s @ pending b' \<and> 10 \<notin> set (butlast s) \<and>
    (r = sz - 1 \<or> pending b' = [] \<or> last s = 10)"
proof -
  define j where "j = min (nat (sz - 1)) (length (pending b))"
  define k where "k = upto_newline (take j (pending b))"
  have k: "k \<le> j" using upto_newline_spec(1) [of "take j (pending b)"] by (simp add: k_def j_def)
  show ?thesis
  proof (cases "j = 0")
    case True
    then have "mem_gets b sz = Inr (0, [0], b\<lparr>retry := False\<rparr>)"
      using assms by (auto simp: mem_gets_def Let_def j_def length_pending)
    moreover have "sz = 1 \<or> pending b = []"
    proof -
      have "nat (sz - 1) = 0 \<or> length (pending b) = 0"
        using True unfolding j_def min_def by presburger
      then show ?thesis using assms(2) by auto
    qed
    ultimately show ?thesis
      using assms by (intro exI [of _ 0] exI [of _ "[]"]) auto
  next
    case False
    obtain r b' where r: "mem_read (b\<lparr>retry := False\<rparr>) (int k) = Inr (r, take k (pending b), b')"
      "mem_inv b'" "pending b' = drop k (pending b)"
      "pending b \<noteq> [] \<longrightarrow> 0 < k \<longrightarrow> r = int (min k (length (pending b)))"
      using mem_read_law [of "b\<lparr>retry := False\<rparr>" "int k"] assms by auto
    have "j \<le> length (pending b)" by (simp add: j_def)
    then have "take j (pending b) \<noteq> []" using False by auto
    then have pos: "0 < k" by (cases "take j (pending b)") (auto simp: k_def)
    have rk: "r = int k" using r(4) pos k by (auto simp: j_def min_def split: if_splits)
    have rd: "buf_read (block b) (bm_off (read_buf b)) j = Inr (take j (pending b))"
      using assms(1)
      by (auto simp: buf_read_def pending_def j_def read_buf_def mem_inv_def length_pending min_def)
    have "(if sz - 1 < int (bm_length (read_buf b)) then sz - 1 else int (bm_length (read_buf b))) = int j"
      using assms by (simp add: j_def length_pending)
    then have g: "mem_gets b sz = Inr (r, take k (pending b) @ [0], b')"
      using False rd r(1) rk pos by (simp add: mem_gets_def k_def)
    have tk: "take k (take j (pending b)) = take k (pending b)" using k by (simp add: min_def)
    have "10 \<notin> set (butlast (take k (pending b)))"
      using upto_newline_spec(2) [of "take j (pending b)"] unfolding k_def [symmetric] tk .
    moreover have "k = length (take j (pending b)) \<or> last (take k (pending b)) = 10"
      using upto_newline_spec(3) [of "take j (pending b)"] unfolding k_def [symmetric] tk .
    moreover have "j \<le> length (pending b)" "int j \<le> sz - 1" using assms by (simp_all add: j_def)
    ultimately show ?thesis
      using g r(2,3) rk k
      by (intro exI [of _ r] exI [of _ "take k (pending b)"] exI [of _ b'])
        (auto simp: j_def min_def split: if_splits)
  qed
qed

theorem mem_gets_line_witness:
  "\<exists>r s b'. mem_gets (BIO_new_mem_buf [65, 10, 66]) 4 = Inr (r, s @ [0], b') \<and> mem_inv b' \<and>
    r = int (length s) \<and> r < 4 \<and> pending (BIO_new_mem_buf [65, 10, 66]) = s @ pending b' \<and>
    10 \<notin> set (butlast s) \<and> (r = 4 - 1 \<or> pending b' = [] \<or> last s = 10)"
  by (rule mem_gets_line) simp_all

text \<open>
  C35: Whatever is in a memory BIO is read in the end: reads of any positive sizes, as many as there are
  unread bytes, return all of them in order, after which the BIO reports the end of the file and a further
  read returns the value set for it, with the retry flag unless that value is 0.
\<close>

theorem mem_bio_drains:
  assumes "mem_inv b" and "list_all (\<lambda>n. 0 < n) ns" and "length (pending b) \<le> length ns"
  shows "\<exists>b'. queue_run (mem_write (\<lambda>_. None)) mem_read b (map Get ns) = Inr ([], pending b, b') \<and>
    pending b' = [] \<and> mem_ctrl b' CTRL_EOF = Inr (1, b') \<and>
    (0 < n \<longrightarrow> mem_read b' n = Inr (bio_num b', [], b'\<lparr>retry := (bio_num b' \<noteq> 0)\<rparr>))"
proof -
  have "good_memory (\<lambda>_. None)" by (simp add: good_memory_def)
  with assms obtain b' where b': "queue_run (mem_write (\<lambda>_. None)) mem_read b (map Get ns) = Inr ([], pending b, b')"
    "mem_inv b'" "pending b' = []"
    using mem_queue.drain [of "\<lambda>_. None" b ns] by blast
  then have "bm_length (read_buf b') = 0" using length_pending [of b'] by simp
  then show ?thesis
    using b' by (intro exI [of _ b']) (auto simp: mem_ctrl_def mem_read_def read_buf_def Let_def)
qed

theorem mem_bio_drains_witness:
  "\<exists>b'. queue_run (mem_write (\<lambda>_. None)) mem_read (BIO_new_mem_buf [65, 10, 66]) [Get 2, Get 7, Get 1] =
      Inr ([], [65, 10, 66], b') \<and> mem_ctrl b' CTRL_EOF = Inr (1, b')"
  using mem_bio_drains [of "BIO_new_mem_buf [65, 10, 66]" "[2, 7, 1]" 1] by auto

end
