(* ===== verification/Bio_B64.thy ===== *)
theory Bio_B64
  imports Evp_Stream Bio_Mem
begin

text \<open>
  The base64 filter BIO of OpenSSL (\<open>crypto/evp/bio_b64.c\<close>). It stands before another BIO (\<open>next\<close>),
  whose method functions are the record \<open>bio_ops\<close>: a read returns its code, the bytes and the new state,
  \<open>op_retry\<close> is \<open>BIO_should_retry\<close>. \<open>bufsz\<close> is \<open>sizeof (ctx->buf)\<close>, whose formula is in a header that
  is not in the tree; \<open>b64_buf\<close> holds the bytes that were put into \<open>buf\<close>, and a call that decodes into \<open>buf\<close> beyond
  its size is \<open>OutOfBounds\<close> (the encoder's side checks its sizes by assertions after the call). Pointers into \<open>tmp\<close> are
  offsets. The loop of \<open>b64_read\<close> and the one of the flush command need not end when \<open>next\<close> makes no
  progress: they are partial functions, and not returning is \<open>None\<close>.
\<close>

record 'n bio_ops =
  op_read :: "'n \<Rightarrow> int \<Rightarrow> (int \<times> bytes \<times> 'n) outcome"
  op_write :: "'n \<Rightarrow> bytes \<Rightarrow> (int \<times> 'n) outcome"
  op_ctrl :: "'n \<Rightarrow> mem_cmd \<Rightarrow> (int \<times> 'n) outcome"
  op_retry :: "'n \<Rightarrow> bool"

definition B64_BLOCK_SIZE :: nat where
  "B64_BLOCK_SIZE = 1024"

datatype b64_mode = B64_NONE | B64_ENCODE | B64_DECODE

record 'n B64_BIO =
  buf_len :: nat
  buf_off :: nat
  tmp_len :: nat
  tmp_nl :: bool
  encode :: b64_mode
  start :: bool
  cont :: int
  base64 :: EVP_ENCODE_CTX
  b64_buf :: bytes
  b64_tmp :: bytes
  flag_no_nl :: bool
  b64_retry :: bool
  next_bio :: 'n

definition b64_new :: "'n \<Rightarrow> 'n B64_BIO" where
  "b64_new nx = \<lparr>buf_len = 0, buf_off = 0, tmp_len = 0, tmp_nl = False, encode = B64_NONE, start = True,
     cont = 1, base64 = EVP_ENCODE_CTX_new, b64_buf = [], b64_tmp = replicate B64_BLOCK_SIZE 0,
     flag_no_nl = False, b64_retry = False, next_bio = nx\<rparr>"

subsection \<open>Reading\<close>

text \<open>Overwriting the start of \<open>tmp\<close> with \<open>n\<close> of its bytes from \<open>p\<close> on.\<close>

definition shift_down :: "bytes \<Rightarrow> nat \<Rightarrow> nat \<Rightarrow> bytes outcome" where
  "shift_down t p n = bindO (buf_read t p n) (\<lambda>s. buf_write t 0 s)"

text \<open>Decoding into \<open>ctx->buf\<close>.\<close>

definition decode_into_buf :: "nat \<Rightarrow> EVP_ENCODE_CTX \<Rightarrow> bytes \<Rightarrow> (int \<times> bytes \<times> EVP_ENCODE_CTX) outcome" where
  "decode_into_buf bufsz ctx inp =
     (if bufsz < EVP_DecodeUpdate_end ctx inp then Inl OutOfBounds else EVP_DecodeUpdate ctx inp)"

text \<open>
  The \<open>for\<close> loop that looks for the first line that is base64: the BIO and \<open>p\<close>, \<open>q\<close>, \<open>j\<close>, \<open>i\<close> and
  \<open>num\<close> when it ends.
\<close>

function b64_scan ::
  "nat \<Rightarrow> 'n B64_BIO \<Rightarrow> nat \<Rightarrow> nat \<Rightarrow> nat \<Rightarrow> nat \<Rightarrow> ('n B64_BIO \<times> nat \<times> nat \<times> nat \<times> nat \<times> nat) outcome"
where
  "b64_scan bufsz b p j i num =
     (if i \<le> j then Inr (b, p, j, j, i, num)
      else bindO (buf_read (b64_tmp b) j 1) (\<lambda>c.
        let q = j + 1
        in if hd c \<noteq> nl_char then b64_scan bufsz b p (j + 1) i num
           else if tmp_nl b then b64_scan bufsz (b\<lparr>tmp_nl := False\<rparr>) q (j + 1) i num
           else
             bindO (decode_into_buf bufsz (base64 b) (take (q - p) (drop p (b64_tmp b)))) (\<lambda>(k, out, ctx).
             let b = b\<lparr>b64_buf := out\<rparr>; num = length out
             in if k \<le> 0 \<and> num = 0 \<and> start b
                then b64_scan bufsz (b\<lparr>base64 := EVP_DecodeInit ctx\<rparr>) q (j + 1) i num
                else
                  let i' = i - p
                  in bindO (if p \<noteq> 0 then shift_down (b64_tmp b) p i' else Inr (b64_tmp b)) (\<lambda>t.
                     Inr (b\<lparr>b64_tmp := t, base64 := EVP_DecodeInit ctx, start := False\<rparr>, p, q, j, i', num)))))"
  by pat_completeness auto
termination
  by (relation "measure (\<lambda>(bufsz, b, p, j, i, num). i - j)") auto

declare b64_scan.simps [simp del]

text \<open>
  The local variables of the loop: the BIO, the bytes stored at \<open>out\<close>, the room left (\<open>outl\<close>) and
  \<open>ret_code\<close>. A pass ends with \<open>break\<close> or goes on.
\<close>

datatype 's pass = Break 's | Continue 's

type_synonym 'n read_state = "'n B64_BIO \<times> bytes \<times> nat \<times> int"

text \<open>From the decoding of \<open>tmp\<close> to the end of a pass.\<close>

definition b64_decode_tmp :: "nat \<Rightarrow> 'n B64_BIO \<Rightarrow> nat \<Rightarrow> ('n B64_BIO \<times> int) outcome" where
  "b64_decode_tmp bufsz b i =
     (if flag_no_nl b then
        let jj = i - i mod 4; t = b64_tmp b; (z, out) = EVP_DecodeBlock (take jj t);
            z = (if 2 < jj \<and> t ! (jj - 1) = eq_char
                 then (if t ! (jj - 2) = eq_char then z - 2 else z - 1) else z)
        in if bufsz < length out then Inl OutOfBounds else
           bindO (if jj \<noteq> i then bindO (shift_down t jj (i - jj)) (\<lambda>t. Inr (t, i - jj))
                  else Inr (t, tmp_len b)) (\<lambda>(t, len).
           Inr (b\<lparr>b64_tmp := t, tmp_len := len, b64_buf := out,
                  buf_len := (if 0 < z then nat z else 0)\<rparr>, z))
      else
        bindO (decode_into_buf bufsz (base64 b) (take i (b64_tmp b))) (\<lambda>(k, out, ctx).
        Inr (b\<lparr>base64 := ctx, b64_buf := out, buf_len := length out, tmp_len := 0\<rparr>, k)))"

definition b64_deliver :: "nat \<Rightarrow> 'n B64_BIO \<Rightarrow> nat \<Rightarrow> bytes \<Rightarrow> nat \<Rightarrow> int \<Rightarrow> 'n read_state pass outcome" where
  "b64_deliver bufsz b i out outl ret_code =
     bindO (b64_decode_tmp bufsz b i) (\<lambda>(b, i).
     let b = b\<lparr>cont := i, buf_off := 0\<rparr>
     in if i < 0 then Inr (Break (b\<lparr>buf_len := 0\<rparr>, out, outl, 0))
        else
          let i = (if buf_len b \<le> outl then buf_len b else outl)
          in bindO (buf_read (b64_buf b) 0 i) (\<lambda>s.
             let b = b\<lparr>buf_off := i\<rparr>;
                 b = (if buf_off b = buf_len b then b\<lparr>buf_len := 0, buf_off := 0\<rparr> else b)
             in Inr (Continue (b, out @ s, outl - i, ret_code))))"

text \<open>From the scan for the first line to the end of a pass, with \<open>i\<close> bytes in \<open>tmp\<close>.\<close>

definition b64_process :: "nat \<Rightarrow> 'n B64_BIO \<Rightarrow> nat \<Rightarrow> bytes \<Rightarrow> nat \<Rightarrow> int \<Rightarrow> 'n read_state pass outcome" where
  "b64_process bufsz b i out outl ret_code =
     (if start b \<and> flag_no_nl b then b64_deliver bufsz (b\<lparr>tmp_len := 0\<rparr>) i out outl ret_code
      else if start b then
        bindO (b64_scan bufsz b 0 0 i 0) (\<lambda>(b, p, q, j, i, num).
        if j = i \<and> num = 0 then
          bindO (if p = 0 then
                   Inr (if i = B64_BLOCK_SIZE then b\<lparr>tmp_nl := True, tmp_len := 0\<rparr> else b)
                 else if p \<noteq> q then
                   bindO (shift_down (b64_tmp b) p (q - p)) (\<lambda>t. Inr (b\<lparr>b64_tmp := t, tmp_len := q - p\<rparr>))
                 else Inr b) (\<lambda>b.
          Inr (Continue (b, out, outl, ret_code)))
        else b64_deliver bufsz (b\<lparr>tmp_len := 0\<rparr>) i out outl ret_code)
      else if i < B64_BLOCK_SIZE \<and> 0 < cont b then Inr (Continue (b, out, outl, ret_code))
      else b64_deliver bufsz b i out outl ret_code)"

definition b64_read_pass :: "nat \<Rightarrow> 'n bio_ops \<Rightarrow> 'n read_state \<Rightarrow> 'n read_state pass outcome" where
  "b64_read_pass bufsz ops = (\<lambda>(b, out, outl, ret_code).
     if cont b \<le> 0 then Inr (Break (b, out, outl, ret_code))
     else
       bindO (op_read ops (next_bio b) (int B64_BLOCK_SIZE - int (tmp_len b))) (\<lambda>(i, s, nx).
       let b = b\<lparr>next_bio := nx\<rparr>
       in if i \<le> 0 then
            if op_retry ops nx then Inr (Break (b, out, outl, i))
            else
              let b = b\<lparr>cont := i\<rparr>
              in if tmp_len b = 0 then Inr (Break (b, out, outl, i))
                 else b64_process bufsz b (tmp_len b) out outl i
          else
            bindO (buf_write (b64_tmp b) (tmp_len b) s) (\<lambda>t.
            let i = nat i + tmp_len b
            in b64_process bufsz (b\<lparr>b64_tmp := t, tmp_len := i\<rparr>) i out outl ret_code)))"

partial_function (option) b64_read_loop ::
  "nat \<Rightarrow> 'n bio_ops \<Rightarrow> 'n read_state \<Rightarrow> 'n read_state outcome option"
where
  "b64_read_loop bufsz ops s =
     (if 0 < fst (snd (snd s)) then
        (case b64_read_pass bufsz ops s of
           Inl c \<Rightarrow> Some (Inl c)
         | Inr (Break s) \<Rightarrow> Some (Inr s)
         | Inr (Continue s) \<Rightarrow> b64_read_loop bufsz ops s)
      else Some (Inr s))"

text \<open>\<open>b64_read (b, out, outl)\<close>: the return value, the bytes stored at \<open>out\<close> and the BIO.\<close>

definition b64_read_buffered :: "nat \<Rightarrow> 'n B64_BIO \<Rightarrow> nat \<Rightarrow> 'n read_state outcome" where
  "b64_read_buffered bufsz b outl =
     (if 0 < buf_len b then
        if buf_len b < buf_off b then Inl AssertFail
        else
          let i = min (buf_len b - buf_off b) outl
          in if bufsz \<le> buf_off b + i then Inl AssertFail
             else
               bindO (buf_read (b64_buf b) (buf_off b) i) (\<lambda>s.
               let b = b\<lparr>buf_off := buf_off b + i\<rparr>;
                   b = (if buf_len b = buf_off b then b\<lparr>buf_len := 0, buf_off := 0\<rparr> else b)
               in Inr (b, s, outl - i, 0))
      else Inr (b, [], outl, 0))"

definition b64_read ::
  "nat \<Rightarrow> 'n bio_ops \<Rightarrow> 'n B64_BIO \<Rightarrow> nat \<Rightarrow> (int \<times> bytes \<times> 'n B64_BIO) outcome option"
where
  "b64_read bufsz ops b outl =
     (let b = b\<lparr>b64_retry := False\<rparr>;
          b = (if encode b \<noteq> B64_DECODE
               then b\<lparr>encode := B64_DECODE, buf_len := 0, buf_off := 0, tmp_len := 0,
                      base64 := EVP_DecodeInit (base64 b)\<rparr> else b)
      in case b64_read_buffered bufsz b outl of
           Inl c \<Rightarrow> Some (Inl c)
         | Inr s \<Rightarrow>
             map_option (\<lambda>r. bindO r (\<lambda>(b, out, outl, ret_code).
               let b = b\<lparr>b64_retry := op_retry ops (next_bio b)\<rparr>
               in Inr (if out = [] then ret_code else int (length out), out, b)))
             (b64_read_loop bufsz ops s))"

subsection \<open>Writing\<close>

text \<open>
  The loop that hands \<open>buf\<close> to \<open>next\<close> (\<open>n\<close> bytes from \<open>buf_off\<close> on): 1 when all was written, or the
  return value of the \<open>BIO_write\<close> that wrote nothing.
\<close>

function b64_push ::
  "nat \<Rightarrow> 'n bio_ops \<Rightarrow> 'n B64_BIO \<Rightarrow> nat \<Rightarrow> (int \<times> 'n B64_BIO) outcome"
where
  "b64_push bufsz ops b n =
     (if n = 0 then Inr (1, b)
      else
        bindO (buf_read (b64_buf b) (buf_off b) n) (\<lambda>s.
        bindO (op_write ops (next_bio b) s) (\<lambda>(i, nx).
        let b = b\<lparr>next_bio := nx\<rparr>
        in if i \<le> 0 then Inr (i, b\<lparr>b64_retry := op_retry ops nx\<rparr>)
           else if int n < i then Inl AssertFail
           else
             let b = b\<lparr>buf_off := buf_off b + nat i\<rparr>
             in if bufsz < buf_off b \<or> buf_len b < buf_off b then Inl AssertFail
                else b64_push bufsz ops b (n - nat i))))"
  by pat_completeness auto
termination
  by (relation "measure (\<lambda>(bufsz, ops, b, n). n)") auto

declare b64_push.simps [simp del]

text \<open>The bytes one pass of the main loop takes, with what it puts into \<open>buf\<close>; \<open>None\<close>: \<open>break\<close>.\<close>

datatype 'n fill = Filled nat "'n B64_BIO" | Kept nat "'n B64_BIO" | Failed "'n B64_BIO"

definition b64_fill :: "nat \<Rightarrow> 'n B64_BIO \<Rightarrow> bytes \<Rightarrow> 'n fill outcome" where
  "b64_fill bufsz b inp =
     (let inl = length inp; n = (if B64_BLOCK_SIZE < inl then B64_BLOCK_SIZE else inl)
      in if flag_no_nl b then
           if 0 < tmp_len b then
             if 3 < tmp_len b then Inl AssertFail
             else
               let n = min (3 - tmp_len b) inl
               in bindO (buf_write (b64_tmp b) (tmp_len b) (take n inp)) (\<lambda>t.
                  let b = b\<lparr>b64_tmp := t, tmp_len := tmp_len b + n\<rparr>
                  in if tmp_len b < 3 then Inr (Kept n b)
                     else
                       let e = EVP_EncodeBlock (take (tmp_len b) t);
                           b = b\<lparr>b64_buf := e, buf_len := length e\<rparr>
                       in if bufsz < buf_len b \<or> buf_len b < buf_off b then Inl AssertFail
                          else Inr (Filled n (b\<lparr>tmp_len := 0\<rparr>)))
           else if n < 3 then
             bindO (buf_write (b64_tmp b) 0 (take n inp)) (\<lambda>t.
             Inr (Kept n (b\<lparr>b64_tmp := t, tmp_len := n\<rparr>)))
           else
             let n = n - n mod 3; e = EVP_EncodeBlock (take n inp);
                 b = b\<lparr>b64_buf := e, buf_len := length e\<rparr>
             in if bufsz < buf_len b \<or> buf_len b < buf_off b then Inl AssertFail
                else Inr (Filled n b)
         else
           bindO (EVP_EncodeUpdate (base64 b) (take n inp)) (\<lambda>(ok, e, len, ctx).
           let b = b\<lparr>base64 := ctx, b64_buf := e, buf_len := len\<rparr>
           in if \<not> ok then Inr (Failed b)
              else if bufsz < buf_len b \<or> buf_len b < buf_off b then Inl AssertFail
              else Inr (Filled n b)))"

lemma b64_push_keeps:
  "b64_push bufsz ops b n = Inr (i, b') \<Longrightarrow> tmp_len b' = tmp_len b"
proof (induction bufsz ops b n rule: b64_push.induct)
  case (1 bufsz ops b n)
  show ?case
  proof (cases "n = 0")
    case True
    then show ?thesis using 1 by (simp add: b64_push.simps)
  next
    case False
    then show ?thesis
      using "1.prems" "1.IH" [OF False]
      by (subst (asm) b64_push.simps)
        (auto simp: Let_def elim!: bindO_eq_InrE split: if_splits prod.splits)
  qed
qed

lemma b64_fill_progress:
  assumes "b64_fill bufsz b inp = Inr (Filled n b')" and "inp \<noteq> []"
  shows "n \<le> length inp \<and> (n = 0 \<longrightarrow> tmp_len b' < tmp_len b)"
  using assms
  by (auto simp: b64_fill_def Let_def B64_BLOCK_SIZE_def elim!: bindO_eq_InrE split: if_splits prod.splits)

text \<open>The main loop, with the number of bytes taken so far (\<open>ret\<close>).\<close>

function b64_write_loop ::
  "nat \<Rightarrow> 'n bio_ops \<Rightarrow> 'n B64_BIO \<Rightarrow> bytes \<Rightarrow> nat \<Rightarrow> (int \<times> 'n B64_BIO) outcome"
where
  "b64_write_loop bufsz ops b inp ret =
     (if length inp = 0 then Inr (int ret, b)
      else
        (case b64_fill bufsz b inp of
           Inl c \<Rightarrow> Inl c
         | Inr (Kept n b) \<Rightarrow> Inr (int (ret + n), b)
         | Inr (Failed b) \<Rightarrow> Inr (if ret = 0 then -1 else int ret, b)
         | Inr (Filled n b) \<Rightarrow>
             bindO (b64_push bufsz ops (b\<lparr>buf_off := 0\<rparr>) (buf_len b)) (\<lambda>(i, b).
             if i \<le> 0 then Inr (if ret + n = 0 then i else int (ret + n), b)
             else b64_write_loop bufsz ops (b\<lparr>buf_len := 0, buf_off := 0\<rparr>) (drop n inp) (ret + n))))"
  by pat_completeness auto
termination
proof (relation "measures [\<lambda>(bufsz, ops, b, inp, ret). length inp,
      \<lambda>(bufsz, ops, b, inp, ret). tmp_len b]", goal_cases)
  case 1
  show ?case by simp
next
  case (2 bufsz ops b inp ret f n b1 r i b2)
  then have "n \<le> length inp \<and> (n = 0 \<longrightarrow> tmp_len b1 < tmp_len b)" and "tmp_len b2 = tmp_len b1"
    using b64_fill_progress [of bufsz b inp n b1] b64_push_keeps [of bufsz ops "b1\<lparr>buf_off := 0\<rparr>" "buf_len b1" i b2]
    by auto
  then show ?case using 2 by (cases "n = 0") auto
qed

declare b64_write_loop.simps [simp del]

text \<open>\<open>b64_write (b, in, inl)\<close>; \<open>None\<close> is the null pointer.\<close>

definition b64_write ::
  "nat \<Rightarrow> 'n bio_ops \<Rightarrow> 'n B64_BIO \<Rightarrow> bytes option \<Rightarrow> (int \<times> 'n B64_BIO) outcome"
where
  "b64_write bufsz ops b inp =
     (let b = b\<lparr>b64_retry := False\<rparr>;
          b = (if encode b \<noteq> B64_ENCODE
               then b\<lparr>encode := B64_ENCODE, buf_len := 0, buf_off := 0, tmp_len := 0,
                      base64 := EVP_EncodeInit (base64 b)\<rparr> else b)
      in if bufsz \<le> buf_off b \<or> bufsz < buf_len b \<or> buf_len b < buf_off b then Inl AssertFail
         else
           bindO (b64_push bufsz ops b (buf_len b - buf_off b)) (\<lambda>(i, b).
           if i \<le> 0 then Inr (i, b)
           else
             let b = b\<lparr>buf_off := 0, buf_len := 0\<rparr>
             in case inp of None \<Rightarrow> Inr (0, b)
                | Some s \<Rightarrow> if s = [] then Inr (0, b) else b64_write_loop bufsz ops b s 0))"

definition b64_puts :: "nat \<Rightarrow> 'n bio_ops \<Rightarrow> 'n B64_BIO \<Rightarrow> bytes \<Rightarrow> (int \<times> 'n B64_BIO) outcome" where
  "b64_puts bufsz ops b str = b64_write bufsz ops b (Some str)"

subsection \<open>Control\<close>

text \<open>Handing a command to the next BIO.\<close>

definition next_ctrl :: "'n bio_ops \<Rightarrow> 'n B64_BIO \<Rightarrow> mem_cmd \<Rightarrow> (int \<times> 'n B64_BIO) outcome" where
  "next_ctrl ops b cmd =
     bindO (op_ctrl ops (next_bio b) cmd) (\<lambda>(ret, nx). Inr (ret, b\<lparr>next_bio := nx\<rparr>))"

text \<open>The flush command, from the label \<open>again\<close> on.\<close>

partial_function (option) b64_flush ::
  "nat \<Rightarrow> 'n bio_ops \<Rightarrow> 'n B64_BIO \<Rightarrow> (int \<times> 'n B64_BIO) outcome option"
where
  "b64_flush bufsz ops b =
     (if buf_len b \<noteq> buf_off b then
        (case b64_write bufsz ops b None of
           Inl c \<Rightarrow> Some (Inl c)
         | Inr (i, b) \<Rightarrow> if i < 0 then Some (Inr (i, b)) else b64_flush bufsz ops b)
      else if flag_no_nl b then
        (if tmp_len b \<noteq> 0 then
           let e = EVP_EncodeBlock (take (tmp_len b) (b64_tmp b))
           in b64_flush bufsz ops
                (b\<lparr>b64_buf := e, buf_len := length e, buf_off := 0, tmp_len := 0\<rparr>)
         else Some (next_ctrl ops b CTRL_FLUSH))
      else if encode b \<noteq> B64_NONE \<and> EVP_ENCODE_CTX_num (base64 b) \<noteq> 0 then
        (case EVP_EncodeFinal (base64 b) of
           (e, len, ctx) \<Rightarrow>
             b64_flush bufsz ops (b\<lparr>buf_off := 0, base64 := ctx, b64_buf := e, buf_len := len\<rparr>))
      else Some (next_ctrl ops b CTRL_FLUSH))"

definition b64_ctrl ::
  "nat \<Rightarrow> 'n bio_ops \<Rightarrow> 'n B64_BIO \<Rightarrow> mem_cmd \<Rightarrow> (int \<times> 'n B64_BIO) outcome option"
where
  "b64_ctrl bufsz ops b cmd =
     (case cmd of
        CTRL_RESET \<Rightarrow> Some (next_ctrl ops (b\<lparr>cont := 1, start := True, encode := B64_NONE\<rparr>) cmd)
      | CTRL_EOF \<Rightarrow> Some (if cont b \<le> 0 then Inr (1, b) else next_ctrl ops b cmd)
      | CTRL_WPENDING \<Rightarrow>
          Some (if buf_len b < buf_off b then Inl AssertFail
                else
                  let ret = buf_len b - buf_off b
                  in if ret = 0 \<and> encode b \<noteq> B64_NONE \<and> EVP_ENCODE_CTX_num (base64 b) \<noteq> 0 then Inr (1, b)
                     else if ret \<le> 0 then next_ctrl ops b cmd
                     else Inr (int ret, b))
      | CTRL_PENDING \<Rightarrow>
          Some (if buf_len b < buf_off b then Inl AssertFail
                else
                  let ret = buf_len b - buf_off b
                  in if ret \<le> 0 then next_ctrl ops b cmd else Inr (int ret, b))
      | CTRL_FLUSH \<Rightarrow> b64_flush bufsz ops b
      | CTRL_DUP \<Rightarrow> Some (Inr (1, b))
      | _ \<Rightarrow> Some (next_ctrl ops b cmd))"

end
