(* ===== verification/Bio_B64_Write.thy ===== *)
theory Bio_B64_Write
  imports Bio_B64
begin

text \<open>
  Writing through the base64 filter. The next BIO is any byte sink that takes what it is given
  (\<open>byte_sink\<close>); the memory BIO is one as long as there is memory. What the filter has written is
  the encoding of the whole lines it has taken, and flushing completes the last line.
\<close>

text \<open>A sequence of writes.\<close>

fun b64_writes :: "nat \<Rightarrow> 'n bio_ops \<Rightarrow> 'n B64_BIO \<Rightarrow> bytes list \<Rightarrow> (int list \<times> 'n B64_BIO) outcome" where
  "b64_writes bufsz ops b [] = Inr ([], b)"
| "b64_writes bufsz ops b (c # cs) =
     bindO (b64_write bufsz ops b (Some c)) (\<lambda>(i, b).
     bindO (b64_writes bufsz ops b cs) (\<lambda>(is, b). Inr (i # is, b)))"

text \<open>More data makes no shorter text.\<close>

lemma b64_lines_mono: "length (b64_lines srp nonl x) \<le> length (b64_lines srp nonl (x @ y))"
proof (induction srp nonl x rule: b64_lines.induct)
  case (1 srp nonl x)
  show ?case
  proof (cases "length x < 48")
    case True
    have "length (b64_text srp x) \<le> length (b64_text srp (take 48 (x @ y)))"
      using True by (simp add: length_b64_text min_def)
    then show ?thesis
      using True by (cases "x = []") (simp_all add: b64_lines.simps [of _ _ "x @ y"] b64_lines_short b64_line_def)
  next
    case False
    then have "x \<noteq> []" by auto
    then show ?thesis
      using 1 False by (subst (1 2) b64_lines.simps) simp
  qed
qed

locale byte_sink =
  fixes ops :: "'n bio_ops"
    and inv :: "'n \<Rightarrow> bool"
    and content :: "'n \<Rightarrow> bytes"
    and room :: nat
  assumes put: "inv s \<Longrightarrow> x \<noteq> [] \<Longrightarrow> length (content s) + length x \<le> room \<Longrightarrow>
      \<exists>s'. op_write ops s x = Inr (int (length x), s') \<and> inv s' \<and> content s' = content s @ x"
    and flush: "inv s \<Longrightarrow>
      \<exists>s'. op_ctrl ops s CTRL_FLUSH = Inr (1, s') \<and> inv s' \<and> content s' = content s"
begin

definition writing :: "bytes \<Rightarrow> bytes \<Rightarrow> 'n B64_BIO \<Rightarrow> bool" where
  "writing c0 m b \<longleftrightarrow> encode b = B64_ENCODE \<and> \<not> flag_no_nl b \<and> buf_len b = 0 \<and> buf_off b = 0 \<and>
     inv (next_bio b) \<and> \<not> use_srp (base64 b) \<and> \<not> no_newlines (base64 b) \<and>
     (\<exists>out. enc_repr m out (base64 b) \<and> content (next_bio b) = c0 @ out)"

lemma push_all:
  assumes "inv (next_bio b)" and "buf_off b = 0" and "buf_len b = length (b64_buf b)"
    and "length (b64_buf b) \<le> bufsz" and "length (content (next_bio b)) + length (b64_buf b) \<le> room"
  shows "\<exists>nx. b64_push bufsz ops b (length (b64_buf b)) =
      Inr (1, b\<lparr>next_bio := nx, buf_off := length (b64_buf b)\<rparr>) \<and>
    inv nx \<and> content nx = content (next_bio b) @ b64_buf b"
proof (cases "b64_buf b = []")
  case True
  then show ?thesis
    using assms by (subst b64_push.simps) (intro exI [of _ "next_bio b"], simp)
next
  case False
  from put [OF assms(1) this assms(5)] obtain nx where nx:
    "op_write ops (next_bio b) (b64_buf b) = Inr (int (length (b64_buf b)), nx)" "inv nx"
    "content nx = content (next_bio b) @ b64_buf b" by blast
  have "b64_push bufsz ops (b\<lparr>next_bio := nx, buf_off := length (b64_buf b)\<rparr>) 0 =
      Inr (1, b\<lparr>next_bio := nx, buf_off := length (b64_buf b)\<rparr>)"
    by (subst b64_push.simps) simp
  then have "b64_push bufsz ops b (length (b64_buf b)) =
      Inr (1, b\<lparr>next_bio := nx, buf_off := length (b64_buf b)\<rparr>)"
    using False nx assms(2-4) by (subst b64_push.simps) (simp add: buf_read_def Let_def)
  then show ?thesis using nx by blast
qed

lemma enc_repr_prefix:
  assumes "enc_repr m out ctx"
  shows "\<exists>t. b64_lines (use_srp ctx) (no_newlines ctx) (m @ x) = out @ t"
  using assms b64_lines_append unfolding enc_repr_def by fastforce

lemma write_loop:
  assumes "writing c0 m b" and "1430 \<le> bufsz"
    and "length c0 + length (b64_lines False False (m @ inp)) \<le> room"
  shows "\<exists>b'. b64_write_loop bufsz ops b inp ret = Inr (int (ret + length inp), b') \<and> writing c0 (m @ inp) b'"
  using assms
proof (induction "length inp" arbitrary: m b inp ret rule: less_induct)
  case less
  show ?case
  proof (cases "inp = []")
    case True
    then show ?thesis using less.prems(1) by (subst b64_write_loop.simps) simp
  next
    case False
    from less.prems(1) obtain out where w: "encode b = B64_ENCODE" "\<not> flag_no_nl b" "buf_len b = 0"
      "buf_off b = 0" "inv (next_bio b)" "\<not> use_srp (base64 b)" "\<not> no_newlines (base64 b)"
      "enc_repr m out (base64 b)" "content (next_bio b) = c0 @ out"
      unfolding writing_def by blast
    define n where "n = min 1024 (length inp)"
    have n: "0 < n" "n \<le> length inp" "n \<le> 1024" "take n inp \<noteq> []"
      using False by (simp_all add: n_def)
    obtain o' ctx' where e: "EVP_EncodeUpdate (base64 b) (take n inp) = Inr (True, o', length o', ctx')"
      "enc_repr (m @ take n inp) (out @ o') ctx'" "use_srp ctx' = use_srp (base64 b)"
      "no_newlines ctx' = no_newlines (base64 b)" "length o' \<le> 65 * ((length (take n inp) + 47) div 48)"
      using EncodeUpdate_repr [OF w(8) n(4)] n by auto
    have "(length (take n inp) + 47) div 48 \<le> 22" using n by simp
    then have o': "length o' \<le> bufsz" using e(5) less.prems(2) by linarith
    define b1 where "b1 = b\<lparr>base64 := ctx', b64_buf := o', buf_len := length o'\<rparr>"
    have fill: "b64_fill bufsz b inp = Inr (Filled n b1)"
      using e(1) w o' by (auto simp: b64_fill_def Let_def B64_BLOCK_SIZE_def n_def b1_def min_def not_less)
    obtain t where "b64_lines False False ((m @ take n inp) @ drop n inp) = (out @ o') @ t"
      using enc_repr_prefix [OF e(2), of "drop n inp"] e(3,4) w(6,7) by auto
    then have "length (content (next_bio b)) + length o' \<le> room"
      using less.prems(3) w(9) by simp
    then obtain nx where nx: "b64_push bufsz ops (b1\<lparr>buf_off := 0\<rparr>) (length o') =
        Inr (1, b1\<lparr>next_bio := nx, buf_off := length o'\<rparr>)" "inv nx" "content nx = content (next_bio b) @ o'"
      using push_all [of "b1\<lparr>buf_off := 0\<rparr>" bufsz] w o' by (auto simp: b1_def)
    define b2 where "b2 = b1\<lparr>next_bio := nx, buf_len := 0, buf_off := 0\<rparr>"
    have wr: "writing c0 (m @ take n inp) b2"
      using w e nx by (auto simp: writing_def b2_def b1_def)
    have "b64_write_loop bufsz ops b inp ret = b64_write_loop bufsz ops b2 (drop n inp) (ret + n)"
      using False fill nx(1)
      by (subst b64_write_loop.simps) (simp add: b1_def b2_def)
    moreover have "\<exists>b'. b64_write_loop bufsz ops b2 (drop n inp) (ret + n) =
        Inr (int ((ret + n) + length (drop n inp)), b') \<and> writing c0 ((m @ take n inp) @ drop n inp) b'"
      by (rule less.hyps [OF _ wr less.prems(2)]) (use less.prems(3) n in simp_all)
    moreover have "ret + n + length (drop n inp) = ret + length inp"
      "(m @ take n inp) @ drop n inp = m @ inp" using n by simp_all
    ultimately show ?thesis by (simp only:)
  qed
qed

lemma write_more:
  assumes "writing c0 m b" and "1430 \<le> bufsz" and "inp \<noteq> []"
    and "length c0 + length (b64_lines False False (m @ inp)) \<le> room"
  shows "\<exists>b'. b64_write bufsz ops b (Some inp) = Inr (int (length inp), b') \<and> writing c0 (m @ inp) b'"
proof -
  define b1 where "b1 = b\<lparr>b64_retry := False\<rparr>"
  have w: "writing c0 m b1" using assms(1) by (simp add: writing_def b1_def)
  then have "encode b1 = B64_ENCODE" "buf_len b1 = 0" "buf_off b1 = 0" by (simp_all add: writing_def)
  moreover have "b64_push bufsz ops b1 0 = Inr (1, b1)" by (subst b64_push.simps) simp
  moreover have same: "b1\<lparr>buf_off := 0, buf_len := 0\<rparr> = b1"
    using w by (cases b1) (simp add: writing_def)
  ultimately have "b64_write bufsz ops b (Some inp) = b64_write_loop bufsz ops b1 inp 0"
    unfolding b64_write_def Let_def b1_def [symmetric] using assms(2,3) by (simp add: same)
  then show ?thesis using write_loop [OF w assms(2,4), of 0] by simp
qed

text \<open>The first write to a filter that was not encoding before.\<close>

lemma write_first:
  assumes "encode b \<noteq> B64_ENCODE" and "\<not> flag_no_nl b" and "inv (next_bio b)"
    and "length (enc_data (base64 b)) = 80" and "1430 \<le> bufsz" and "inp \<noteq> []"
    and "length (content (next_bio b)) + length (b64_lines False False inp) \<le> room"
  shows "\<exists>b'. b64_write bufsz ops b (Some inp) = Inr (int (length inp), b') \<and>
    writing (content (next_bio b)) inp b'"
proof -
  define b1 where "b1 = b\<lparr>b64_retry := False, encode := B64_ENCODE, buf_len := 0, buf_off := 0, tmp_len := 0,
    base64 := EVP_EncodeInit (base64 b)\<rparr>"
  have "writing (content (next_bio b)) [] b1"
    using assms EncodeInit_repr [OF assms(4)]
    by (auto simp: writing_def b1_def EVP_EncodeInit_def)
  moreover have "b64_push bufsz ops b1 0 = Inr (1, b1)" by (subst b64_push.simps) simp
  moreover have same: "b1\<lparr>buf_off := 0, buf_len := 0\<rparr> = b1" by (simp add: b1_def)
  moreover have "buf_len b1 = 0" "buf_off b1 = 0" by (simp_all add: b1_def)
  moreover have "b64_write bufsz ops b (Some inp) =
      (if bufsz \<le> buf_off b1 \<or> bufsz < buf_len b1 \<or> buf_len b1 < buf_off b1 then Inl AssertFail
       else bindO (b64_push bufsz ops b1 (buf_len b1 - buf_off b1)) (\<lambda>(i, b).
         if i \<le> 0 then Inr (i, b)
         else b64_write_loop bufsz ops (b\<lparr>buf_off := 0, buf_len := 0\<rparr>) inp 0))"
    using assms(1,6) by (simp add: b64_write_def Let_def b1_def cong: if_cong)
  ultimately show ?thesis
    using write_loop [of "content (next_bio b)" "[]" b1 bufsz inp 0] assms(5,7) by (simp add: same)
qed

lemma writes_more:
  assumes "writing c0 m b" and "1430 \<le> bufsz" and "\<forall>c\<in>set cs. c \<noteq> []"
    and "length c0 + length (b64_lines False False (m @ concat cs)) \<le> room"
  shows "\<exists>b'. b64_writes bufsz ops b cs = Inr (map (\<lambda>c. int (length c)) cs, b') \<and>
    writing c0 (m @ concat cs) b'"
  using assms
proof (induction cs arbitrary: m b)
  case (Cons c cs)
  have "length (b64_lines False False (m @ c)) \<le> length (b64_lines False False ((m @ c) @ concat cs))"
    by (rule b64_lines_mono)
  then obtain b1 where "b64_write bufsz ops b (Some c) = Inr (int (length c), b1)" "writing c0 (m @ c) b1"
    using write_more [OF Cons.prems(1,2), of c] Cons.prems(3,4) by auto
  then show ?case using Cons.IH [of "m @ c" b1] Cons.prems(2-4) by auto
qed auto

text \<open>Flushing writes the last line.\<close>

lemma flush_done:
  assumes "buf_len b = buf_off b" and "\<not> flag_no_nl b" and "EVP_ENCODE_CTX_num (base64 b) = 0"
    and "inv (next_bio b)"
  shows "\<exists>b'. b64_flush bufsz ops b = Some (Inr (1, b')) \<and> inv (next_bio b') \<and>
    content (next_bio b') = content (next_bio b)"
  using flush [OF assms(4)] assms(1-3)
  by (subst b64_flush.simps) (auto simp: next_ctrl_def)

lemma push_on_flush:
  assumes "encode b = B64_ENCODE" and "buf_off b = 0" and "buf_len b = length (b64_buf b)"
    and "inv (next_bio b)" and "length (b64_buf b) \<le> bufsz" and "0 < bufsz"
    and "length (content (next_bio b)) + length (b64_buf b) \<le> room"
  shows "\<exists>nx. b64_write bufsz ops b None =
      Inr (0, b\<lparr>b64_retry := False, next_bio := nx, buf_off := 0, buf_len := 0\<rparr>) \<and>
    inv nx \<and> content nx = content (next_bio b) @ b64_buf b"
  using push_all [of "b\<lparr>b64_retry := False\<rparr>" bufsz] assms
  by (auto simp: b64_write_def Let_def)

lemma flush_writing:
  assumes "writing c0 m b" and "1430 \<le> bufsz"
    and "length c0 + length (b64_lines False False m) \<le> room"
  shows "\<exists>b'. b64_flush bufsz ops b = Some (Inr (1, b')) \<and> inv (next_bio b') \<and>
    content (next_bio b') = c0 @ b64_lines False False m"
proof -
  from assms(1) obtain out where w: "encode b = B64_ENCODE" "\<not> flag_no_nl b" "buf_len b = 0"
    "buf_off b = 0" "inv (next_bio b)" "\<not> use_srp (base64 b)" "\<not> no_newlines (base64 b)"
    "enc_repr m out (base64 b)" "content (next_bio b) = c0 @ out"
    unfolding writing_def by blast
  obtain o' ctx' where e: "EVP_EncodeFinal (base64 b) = (o', length o', ctx')"
    "out @ o' = b64_lines False False m" "enc_num ctx' = 0" "length o' \<le> 65"
    using EncodeFinal_repr [OF w(8)] w(6,7) by auto
  show ?thesis
  proof (cases "EVP_ENCODE_CTX_num (base64 b) = 0")
    case True
    then have "o' = []" using e(1) by (auto simp: EVP_EncodeFinal_def EVP_ENCODE_CTX_num_def)
    then show ?thesis using flush_done [of b bufsz] w True e(2) by auto
  next
    case False
    define b1 where "b1 = b\<lparr>buf_off := 0, base64 := ctx', b64_buf := o', buf_len := length o'\<rparr>"
    have s1: "b64_flush bufsz ops b = b64_flush bufsz ops b1"
      using False w e(1) by (subst b64_flush.simps) (simp add: b1_def)
    show ?thesis
    proof (cases "o' = []")
      case True
      then show ?thesis
        using flush_done [of b1 bufsz] s1 w e by (auto simp: b1_def EVP_ENCODE_CTX_num_def)
    next
      case o: False
      have "length c0 + length out + length o' \<le> room"
        using assms(3) unfolding e(2) [symmetric] by simp
      then obtain nx where nx: "b64_write bufsz ops b1 None =
          Inr (0, b1\<lparr>b64_retry := False, next_bio := nx, buf_off := 0, buf_len := 0\<rparr>)"
        "inv nx" "content nx = content (next_bio b1) @ b64_buf b1"
        using push_on_flush [of b1 bufsz] w e(4) assms(2) by (auto simp: b1_def)
      define b2 where "b2 = b1\<lparr>b64_retry := False, next_bio := nx, buf_off := 0, buf_len := 0\<rparr>"
      have "b64_flush bufsz ops b1 = b64_flush bufsz ops b2"
        using o nx(1) by (subst b64_flush.simps) (simp add: b1_def b2_def)
      then show ?thesis
        using flush_done [of b2 bufsz] s1 w e nx
        by (auto simp: b1_def b2_def EVP_ENCODE_CTX_num_def)
    qed
  qed
qed

end

subsection \<open>The memory BIO as the next BIO\<close>

definition mem_ops :: "memory \<Rightarrow> MEM_BIO bio_ops" where
  "mem_ops fresh = \<lparr>op_read = mem_read, op_write = mem_write fresh, op_ctrl = mem_ctrl, op_retry = retry\<rparr>"

lemma mem_new_rw: "\<not> rdonly mem_new"
  by (simp add: mem_new_def)

interpretation mem_sink: byte_sink "mem_ops fresh"
    "\<lambda>b. good_memory fresh \<and> (\<forall>n. fresh n \<noteq> None) \<and> mem_inv b \<and> \<not> rdonly b" pending
    LIMIT_BEFORE_EXPANSION for fresh
proof unfold_locales
  fix b and x :: bytes
  assume "good_memory fresh \<and> (\<forall>n. fresh n \<noteq> None) \<and> mem_inv b \<and> \<not> rdonly b"
    and "length (pending b) + length x \<le> LIMIT_BEFORE_EXPANSION"
  then show "\<exists>b'. op_write (mem_ops fresh) b x = Inr (int (length x), b') \<and>
      (good_memory fresh \<and> (\<forall>n. fresh n \<noteq> None) \<and> mem_inv b' \<and> \<not> rdonly b') \<and>
      pending b' = pending b @ x"
    using mem_write_accepts [of fresh b x] by (auto simp: mem_ops_def)
next
  fix b
  assume "good_memory fresh \<and> (\<forall>n. fresh n \<noteq> None) \<and> mem_inv b \<and> \<not> rdonly b"
  then show "\<exists>b'. op_ctrl (mem_ops fresh) b CTRL_FLUSH = Inr (1, b') \<and>
      (good_memory fresh \<and> (\<forall>n. fresh n \<noteq> None) \<and> mem_inv b' \<and> \<not> rdonly b') \<and>
      pending b' = pending b"
    by (simp add: mem_ops_def mem_ctrl_def)
qed

text \<open>
  C25: the base64 filter before a memory BIO writes what the one-shot encoder writes. Any sequence of
  non-empty \<open>BIO_write\<close> calls is accepted in full; after \<open>BIO_flush\<close> the memory holds the lines of
  the whole data.
\<close>

theorem b64_bio_writes_lines:
  assumes "good_memory fresh" and "\<And>n. fresh n \<noteq> None" and "1430 \<le> bufsz" and "cs \<noteq> []"
    and "\<forall>c\<in>set cs. c \<noteq> []" and "length (b64_lines False False (concat cs)) \<le> LIMIT_BEFORE_EXPANSION"
  shows "\<exists>b1 b2. b64_writes bufsz (mem_ops fresh) (b64_new mem_new) cs = Inr (map (\<lambda>c. int (length c)) cs, b1) \<and>
    b64_ctrl bufsz (mem_ops fresh) b1 CTRL_FLUSH = Some (Inr (1, b2)) \<and>
    pending (next_bio b2) = b64_lines False False (concat cs)"
proof -
  obtain c ds where cs: "cs = c # ds" using assms(4) by (cases cs) auto
  have new: "pending (next_bio (b64_new mem_new)) = []" by (simp add: b64_new_def)
  have "length (b64_lines False False c) \<le> length (b64_lines False False (c @ concat ds))"
    by (rule b64_lines_mono)
  then have "\<exists>b1. b64_write bufsz (mem_ops fresh) (b64_new mem_new) (Some c) = Inr (int (length c), b1) \<and>
      mem_sink.writing fresh (pending (next_bio (b64_new mem_new))) c b1"
    by (intro mem_sink.write_first)
      (use assms cs new in \<open>auto simp: b64_new_def EVP_ENCODE_CTX_new_def mem_new_rw\<close>)
  then obtain b0 where b0: "b64_write bufsz (mem_ops fresh) (b64_new mem_new) (Some c) = Inr (int (length c), b0)"
    "mem_sink.writing fresh [] c b0" unfolding new by blast
  obtain b1 where b1: "b64_writes bufsz (mem_ops fresh) b0 ds = Inr (map (\<lambda>c. int (length c)) ds, b1)"
    "mem_sink.writing fresh [] (concat cs) b1"
    using mem_sink.writes_more [OF b0(2) assms(3), of ds] assms(5,6) cs by auto
  obtain b2 where "b64_flush bufsz (mem_ops fresh) b1 = Some (Inr (1, b2))"
    "pending (next_bio b2) = b64_lines False False (concat cs)"
    using mem_sink.flush_writing [OF b1(2) assms(3)] assms(6) by auto
  then show ?thesis using b0(1) b1(1) cs by (auto simp: b64_ctrl_def)
qed

theorem b64_bio_writes_lines_witness:
  "\<exists>b1 b2. b64_writes 1502 (mem_ops (\<lambda>n. Some (replicate n 7))) (b64_new mem_new) [[1, 2], [3, 4]] =
      Inr (map (\<lambda>c. int (length c)) [[1, 2], [3, 4 :: byte]], b1) \<and>
    b64_ctrl 1502 (mem_ops (\<lambda>n. Some (replicate n 7))) b1 CTRL_FLUSH = Some (Inr (1, b2)) \<and>
    pending (next_bio b2) = b64_lines False False (concat [[1, 2], [3, 4]])"
proof -
  have "b64_lines False False [1, 2, 3, 4] = [65, 81, 73, 68, 66, 65, 61, 61, 10]" by code_simp
  then show ?thesis
    by (intro b64_bio_writes_lines) (simp_all add: good_memory_def LIMIT_BEFORE_EXPANSION_def)
qed

end
