(* ===== verification/Bio_B64_Read.thy ===== *)
theory Bio_B64_Read
  imports Bio_B64_Write
begin

text \<open>
  Reading through the base64 filter. The next BIO is any byte source that hands out its bytes and then
  reports the end (\<open>byte_source\<close>); a read-only memory BIO is one. Two facts are proved of \<open>b64_read\<close>
  with room for as many bytes as the source holds: on any bytes at all it returns, stays inside its
  buffers and delivers at most three bytes for four characters; and on the lines of an encoding it
  delivers the data that was encoded.
\<close>

subsection \<open>What a decoding context can do on any input\<close>

definition dec_ok :: "EVP_ENCODE_CTX \<Rightarrow> bool" where
  "dec_ok ctx \<longleftrightarrow> length (enc_data ctx) = 80 \<and> enc_num ctx < 64"

lemma decode_loop_length: "4 * length (fst (decode_loop table f)) \<le> 3 * length f"
  by (induction table f rule: decode_loop.induct) (auto simp: Let_def split: prod.splits)

lemma trim_end_length: "length (trim_end table f) \<le> length f"
  by (induction f) auto

lemma decodeblock_length:
  assumes "evp_decodeblock_int srp f = (k, t)"
  shows "4 * length t \<le> 3 * length f"
proof -
  define table where "table = (if srp then srpdata_ascii2bin else data_ascii2bin)"
  define g where "g = rev (trim_end table (rev (dropWhile (\<lambda>c. conv_ascii2bin c table = B64_WS) f)))"
  have "length g \<le> length f"
    using trim_end_length length_dropWhile_le unfolding g_def by (metis length_rev order_trans)
  moreover have "evp_decodeblock_int srp f =
      (if length g mod 4 \<noteq> 0 then (-1, [])
       else let (t, ok) = decode_loop table g in (if ok then int (length t) else -1, t))"
    unfolding evp_decodeblock_int_def Let_def g_def table_def by (rule refl)
  then have "t = [] \<or> t = fst (decode_loop table g)"
    using assms by (auto split: if_splits prod.splits)
  moreover have "4 * length (fst (decode_loop table g)) \<le> 3 * length g" by (rule decode_loop_length)
  ultimately show ?thesis by auto
qed

lemma decode_char_safe:
  assumes "length d = 80" and "n < 64"
  shows "\<exists>e d' n' eof' out'. decode_char srp c (d, n, eof, out) = Inr (e, (d', n', eof', out')) \<and>
    length d' = 80 \<and> n' < 64 \<and> 4 * length out' + 3 * n' \<le> 4 * length out + 3 * n + 3"
proof -
  obtain k t where kt: "evp_decodeblock_int srp (take 64 (d[n := c])) = (k, t)" by fastforce
  have "4 * length t \<le> 3 * 64" using decodeblock_length [OF kt] assms by simp
  then show ?thesis
    using assms kt by (auto simp: decode_char_def Let_def min_def)
qed

lemma decode_chars_safe:
  assumes "length d = 80" and "n < 64"
  shows "\<exists>e d' n' eof' out'. decode_chars srp inp (d, n, eof, out) = Inr (e, (d', n', eof', out')) \<and>
    length d' = 80 \<and> n' < 64 \<and> 4 * length out' + 3 * n' \<le> 4 * length out + 3 * n + 3 * length inp"
  using assms
proof (induction inp arbitrary: d n eof out)
  case (Cons c inp)
  obtain e d1 n1 eof1 out1 where s: "decode_char srp c (d, n, eof, out) = Inr (e, (d1, n1, eof1, out1))"
    "length d1 = 80" "n1 < 64" "4 * length out1 + 3 * n1 \<le> 4 * length out + 3 * n + 3"
    using decode_char_safe [OF Cons.prems] by blast
  show ?case
  proof (cases e)
    case None
    obtain e2 d2 n2 eof2 out2 where "decode_chars srp inp (d1, n1, eof1, out1) = Inr (e2, (d2, n2, eof2, out2))"
      "length d2 = 80" "n2 < 64" "4 * length out2 + 3 * n2 \<le> 4 * length out1 + 3 * n1 + 3 * length inp"
      using Cons.IH [OF s(2,3)] by blast
    then show ?thesis using s None by auto
  qed (use s in auto)
qed simp

lemma DecodeUpdate_safe:
  assumes "dec_ok ctx"
  shows "\<exists>k out ctx'. EVP_DecodeUpdate ctx inp = Inr (k, out, ctx') \<and> dec_ok ctx' \<and>
    4 * length out + 3 * enc_num ctx' \<le> 3 * enc_num ctx + 3 * length inp"
proof (cases "inp = []")
  case False
  obtain e d n eof out where s: "decode_chars (use_srp ctx) inp
      (enc_data ctx, enc_num ctx, initial_eof (enc_data ctx) (enc_num ctx), []) = Inr (e, (d, n, eof, out))"
    "length d = 80" "n < 64" "4 * length out + 3 * n \<le> 3 * enc_num ctx + 3 * length inp"
    using decode_chars_safe [of "enc_data ctx" "enc_num ctx" "use_srp ctx" inp
      "initial_eof (enc_data ctx) (enc_num ctx)" "[]"] assms
    by (auto simp: dec_ok_def)
  obtain k t where kt: "evp_decodeblock_int (use_srp ctx) (take n d) = (k, t)" by fastforce
  have "4 * length t \<le> 3 * n" using decodeblock_length [OF kt] s(2,3) by simp
  then show ?thesis
    using s kt False assms
    by (cases e) (auto simp: EVP_DecodeUpdate_def Let_def dec_ok_def min_def)
qed (use assms in \<open>simp add: EVP_DecodeUpdate_def\<close>)

lemma dec_ok_Init: "dec_ok ctx \<Longrightarrow> dec_ok (EVP_DecodeInit ctx)" "enc_num (EVP_DecodeInit ctx) = 0"
  by (simp_all add: dec_ok_def EVP_DecodeInit_def)

text \<open>How far it writes: never further than three bytes for four characters, the pending ones included.\<close>

lemma block_end_char:
  assumes "decode_char srp c (d, n, eof, out) = Inr (e, (d', n', eof', out'))"
  shows "4 * block_end srp (d, n, eof, out) (d', n', eof', out') \<le> 4 * length out + 3 * n + 3" and
    "4 * length out' + 3 * n' \<le> 4 * length out + 3 * n + 3"
proof -
  have t: "4 * length (snd (evp_decodeblock_int srp (take 64 g))) \<le> 192" for g
    using decodeblock_length [of srp "take 64 g"] by (cases "evp_decodeblock_int srp (take 64 g)") fastforce
  have n: "63 \<le> n" if "n \<noteq> 0" "n' = 0"
    using assms that by (auto simp: decode_char_def Let_def split: if_splits prod.splits)
  show "4 * block_end srp (d, n, eof, out) (d', n', eof', out') \<le> 4 * length out + 3 * n + 3"
  proof (cases "n \<noteq> 0 \<and> n' = 0")
    case True
    then show ?thesis using n t [of d'] by (simp add: block_end_def)
  qed (auto simp: block_end_def)
  have "length y \<le> 48" if "evp_decodeblock_int r (take 64 g) = (x, y)" for r g x and y :: bytes
    using decodeblock_length [OF that] by simp
  then show "4 * length out' + 3 * n' \<le> 4 * length out + 3 * n + 3"
    using assms by (fastforce simp: decode_char_def Let_def min_def split: if_splits prod.splits)
qed

lemma chars_end_bound:
  "4 * chars_end srp inp (d, n, eof, out) \<le> 4 * length out + 3 * n + 3 * length inp"
proof (induction inp arbitrary: d n eof out)
  case (Cons c inp)
  show ?case
  proof (cases "decode_char srp c (d, n, eof, out)")
    case (Inr r)
    obtain e d' n' eof' out' where r: "r = (e, (d', n', eof', out'))" by (cases r) auto
    note st = block_end_char [OF Inr [unfolded r]]
    show ?thesis
      using st Cons.IH [of d' n' eof' out'] by (cases e) (auto simp: Inr r max_def)
  qed simp
qed simp

lemma DecodeUpdate_end_bound:
  assumes "dec_ok ctx"
  shows "4 * EVP_DecodeUpdate_end ctx inp \<le> 3 * enc_num ctx + 3 * length inp"
proof (cases "inp = []")
  case False
  obtain e d n eof out where s: "decode_chars (use_srp ctx) inp
      (enc_data ctx, enc_num ctx, initial_eof (enc_data ctx) (enc_num ctx), []) = Inr (e, (d, n, eof, out))"
    "length d = 80" "n < 64" "4 * length out + 3 * n \<le> 3 * enc_num ctx + 3 * length inp"
    using decode_chars_safe [of "enc_data ctx" "enc_num ctx" "use_srp ctx" inp
      "initial_eof (enc_data ctx) (enc_num ctx)" "[]"] assms
    by (auto simp: dec_ok_def)
  obtain k t where kt: "evp_decodeblock_int (use_srp ctx) (take n d) = (k, t)" by fastforce
  have "4 * length t \<le> 3 * n" using decodeblock_length [OF kt] s(2,3) by simp
  moreover have "4 * chars_end (use_srp ctx) inp (enc_data ctx, enc_num ctx, initial_eof (enc_data ctx) (enc_num ctx), [])
      \<le> 3 * enc_num ctx + 3 * length inp"
    using chars_end_bound [of "use_srp ctx" inp "enc_data ctx" "enc_num ctx" _ "[]"] by simp
  ultimately show ?thesis
    using s kt False by (cases e) (auto simp: EVP_DecodeUpdate_end_def Let_def max_def)
qed (simp add: EVP_DecodeUpdate_end_def)

text \<open>So the buffer of the filter is large enough for what its 1024 characters decode to.\<close>

lemma decode_into_buf_fits:
  assumes "dec_ok ctx" and "length inp \<le> 1024" and "1430 \<le> bufsz"
  shows "decode_into_buf bufsz ctx inp = EVP_DecodeUpdate ctx inp"
proof -
  have "enc_num ctx < 64" using assms(1) by (simp add: dec_ok_def)
  then have "EVP_DecodeUpdate_end ctx inp \<le> bufsz"
    using DecodeUpdate_end_bound [OF assms(1), of inp] assms(2,3) by linarith
  then show ?thesis by (simp add: decode_into_buf_def)
qed

subsection \<open>One pass of the loop\<close>

text \<open>What the scan and the delivery leave alone.\<close>

definition same_place :: "'n B64_BIO \<Rightarrow> 'n B64_BIO \<Rightarrow> bool" where
  "same_place b b' \<longleftrightarrow> buf_len b' = buf_len b \<and> buf_off b' = buf_off b \<and> encode b' = encode b \<and>
     flag_no_nl b' = flag_no_nl b \<and> next_bio b' = next_bio b"

lemma same_place_trans: "same_place b c \<Longrightarrow> same_place c d \<Longrightarrow> same_place b d"
  by (simp add: same_place_def)

lemma b64_scan_skip:
  assumes "\<forall>k. j \<le> k \<and> k < m \<longrightarrow> b64_tmp b ! k \<noteq> nl_char" and "j \<le> m" and "m \<le> i"
    and "i \<le> length (b64_tmp b)"
  shows "b64_scan bufsz b p j i num = b64_scan bufsz b p m i num"
  using assms
proof (induction "m - j" arbitrary: j)
  case (Suc d)
  have j: "j < m" "j < length (b64_tmp b)" "\<not> i \<le> j" "b64_tmp b ! j \<noteq> nl_char" "d = m - (j + 1)"
    using Suc.prems Suc.hyps(2) by auto
  then have "buf_read (b64_tmp b) j 1 = Inr [b64_tmp b ! j]"
    by (simp add: buf_read_def take_Suc_conv_app_nth [of 0] hd_drop_conv_nth take_Suc drop_eq_Nil not_le)
  then have "b64_scan bufsz b p j i num = b64_scan bufsz b p (j + 1) i num"
    using j(3,4) by (subst b64_scan.simps) (simp only: bindO_Inr Let_def if_False if_True list.sel not_False_eq_True)
  also have "\<dots> = b64_scan bufsz b p m i num"
    by (rule Suc.hyps(1) [OF j(5)]) (use Suc.prems j in auto)
  finally show ?case .
qed simp

text \<open>On any bytes the scan ends inside \<open>tmp\<close>, with a fresh decoding context.\<close>

lemma b64_scan_safe:
  assumes "dec_ok (base64 b)" and "enc_num (base64 b) = 0" and "length (b64_tmp b) = 1024"
    and "p \<le> j" and "j \<le> i" and "i \<le> 1024" and "num = 0" and "1430 \<le> bufsz"
  shows "\<exists>b' p' q' j' i' num'. b64_scan bufsz b p j i num = Inr (b', p', q', j', i', num') \<and>
    same_place b b' \<and> cont b' = cont b \<and> tmp_len b' = tmp_len b \<and> dec_ok (base64 b') \<and>
    enc_num (base64 b') = 0 \<and> length (b64_tmp b') = 1024 \<and> p' \<le> q' \<and> q' \<le> i \<and> i' \<le> i \<and>
    (j' \<noteq> i' \<or> num' \<noteq> 0 \<longrightarrow> \<not> start b')"
  using assms
proof (induction bufsz b p j i num rule: b64_scan.induct)
  case (1 bufsz b p j i num)
  show ?case
  proof (cases "i \<le> j")
    case True
    then show ?thesis using 1 by (subst b64_scan.simps) (simp add: same_place_def)
  next
    case False
    have rd: "buf_read (b64_tmp b) j 1 = Inr (take 1 (drop j (b64_tmp b)))"
      using False 1 by (simp add: buf_read_def)
    show ?thesis
    proof (cases "hd (take 1 (drop j (b64_tmp b))) = nl_char")
      case notnl: False
      then show ?thesis
        using "1.IH"(1) [OF False rd refl notnl] "1.prems" False rd
        by (subst b64_scan.simps) simp
    next
      case nl: True
      show ?thesis
      proof (cases "tmp_nl b")
        case True
        then show ?thesis
          using "1.IH"(2) [OF False rd refl _ True] nl "1.prems" False rd
          by (subst b64_scan.simps) (simp add: same_place_def)
      next
        case no: False
        obtain k out ctx where "EVP_DecodeUpdate (base64 b) (take (j + 1 - p) (drop p (b64_tmp b))) = Inr (k, out, ctx)" "dec_ok ctx"
          using DecodeUpdate_safe [OF "1.prems"(1)] by blast
        then have u: "decode_into_buf bufsz (base64 b) (take (j + 1 - p) (drop p (b64_tmp b))) = Inr (k, out, ctx)" "dec_ok ctx"
          using decode_into_buf_fits [OF "1.prems"(1) _ "1.prems"(8)] "1.prems"(3) by simp_all
        show ?thesis
        proof (cases "k \<le> 0 \<and> length out = 0 \<and> start b")
          case True
          note ih = "1.IH"(3) [OF False rd refl _ no, of "(k, out, ctx)" k "(out, ctx)" out ctx]
          show ?thesis
            using True ih u nl no "1.prems" False rd
            by (subst b64_scan.simps)
              (simp add: same_place_def dec_ok_Init Let_def)
        next
          case go: False
          have "\<exists>t. (if p \<noteq> 0 then shift_down (b64_tmp b) p (i - p) else Inr (b64_tmp b)) = Inr t \<and>
              length t = 1024"
            using "1.prems" False by (simp add: shift_down_def buf_read_def)
          then show ?thesis
            using go u nl no "1.prems" False rd
            by (subst b64_scan.simps)
              (auto simp: same_place_def dec_ok_Init Let_def)
        qed
      qed
    qed
  qed
qed

lemma b64_deliver_lines:
  assumes "\<not> flag_no_nl b" and "decode_into_buf bufsz (base64 b) (take i (b64_tmp b)) = Inr (k, o', ctx)"
    and "length o' \<le> outl"
  shows "0 \<le> k \<Longrightarrow> \<exists>b'. b64_deliver bufsz b i out outl rc = Inr (Continue (b', out @ o', outl - length o', rc)) \<and>
      encode b' = encode b \<and> \<not> flag_no_nl b' \<and> next_bio b' = next_bio b \<and> b64_tmp b' = b64_tmp b \<and>
      start b' = start b \<and> base64 b' = ctx \<and> tmp_len b' = 0 \<and> cont b' = k"
    and "k < 0 \<Longrightarrow> \<exists>b'. b64_deliver bufsz b i out outl rc = Inr (Break (b', out, outl, 0))"
  using assms by (auto simp: b64_deliver_def b64_decode_tmp_def Let_def buf_read_def)

subsection \<open>The whole loop\<close>

locale byte_source =
  fixes ops :: "'n bio_ops"
    and inv :: "'n \<Rightarrow> bool"
    and content :: "'n \<Rightarrow> bytes"
  assumes get: "inv s \<Longrightarrow>
      \<exists>s'. op_read ops s (int n) = Inr (int (min n (length (content s))), take n (content s), s') \<and>
        inv s' \<and> content s' = drop n (content s) \<and>
        (min n (length (content s)) = 0 \<longrightarrow> \<not> op_retry ops s')"
begin

text \<open>The three ways a pass starts.\<close>

lemma pass_data:
  assumes "inv (next_bio b)" and "0 < cont b" and "tmp_len b < 1024" and "content (next_bio b) \<noteq> []"
    and "length (b64_tmp b) = 1024"
  defines "s \<equiv> take (1024 - tmp_len b) (content (next_bio b))"
  shows "\<exists>nx. b64_read_pass bufsz ops (b, out, outl, rc) =
      b64_process bufsz (b\<lparr>next_bio := nx, b64_tmp := take (tmp_len b) (b64_tmp b) @ s @
        drop (tmp_len b + length s) (b64_tmp b), tmp_len := length s + tmp_len b\<rparr>)
        (length s + tmp_len b) out outl rc \<and>
    inv nx \<and> content nx = drop (1024 - tmp_len b) (content (next_bio b)) \<and> 0 < length s \<and>
    length s \<le> 1024 - tmp_len b"
proof -
  obtain nx where nx: "op_read ops (next_bio b) (int (1024 - tmp_len b)) = Inr (int (length s), s, nx)"
    "inv nx" "content nx = drop (1024 - tmp_len b) (content (next_bio b))"
    using get [OF assms(1), of "1024 - tmp_len b"] by (auto simp: s_def min.commute)
  have "0 < length s" "length s \<le> 1024 - tmp_len b" using assms(3,4) by (simp_all add: s_def)
  moreover have "int B64_BLOCK_SIZE - int (tmp_len b) = int (1024 - tmp_len b)"
    using assms(3) by (simp add: B64_BLOCK_SIZE_def)
  ultimately show ?thesis
    using nx assms(2,3,5) by (auto simp: b64_read_pass_def Let_def)
qed

lemma pass_end:
  assumes "inv (next_bio b)" and "0 < cont b" and "tmp_len b \<le> 1024"
    and "content (next_bio b) = [] \<or> tmp_len b = 1024"
  shows "\<exists>nx. b64_read_pass bufsz ops (b, out, outl, rc) =
      (if tmp_len b = 0 then Inr (Break (b\<lparr>next_bio := nx, cont := 0\<rparr>, out, outl, 0))
       else b64_process bufsz (b\<lparr>next_bio := nx, cont := 0\<rparr>) (tmp_len b) out outl 0) \<and>
    inv nx \<and> content nx = content (next_bio b)"
proof -
  obtain nx where nx: "op_read ops (next_bio b) (int (1024 - tmp_len b)) = Inr (0, [], nx)"
    "inv nx" "content nx = content (next_bio b)" "\<not> op_retry ops nx"
    using get [OF assms(1), of "1024 - tmp_len b"] assms(4) by auto
  have "int B64_BLOCK_SIZE - int (tmp_len b) = int (1024 - tmp_len b)"
    using assms(3) by (simp add: B64_BLOCK_SIZE_def)
  then show ?thesis using nx assms(2) by (auto simp: b64_read_pass_def Let_def)
qed

lemma pass_stopped:
  "cont b \<le> 0 \<Longrightarrow> 0 < outl \<Longrightarrow> b64_read_loop bufsz ops (b, out, outl, rc) = Some (Inr (b, out, outl, rc))"
  by (subst b64_read_loop.simps) (simp add: b64_read_pass_def)

subsection \<open>Any input\<close>

definition reading :: "nat \<Rightarrow> 'n read_state \<Rightarrow> bool" where
  "reading N = (\<lambda>(b, out, outl, rc). \<not> flag_no_nl b \<and> dec_ok (base64 b) \<and>
     (start b \<longrightarrow> enc_num (base64 b) = 0) \<and> length (b64_tmp b) = 1024 \<and> tmp_len b \<le> 1024 \<and>
     inv (next_bio b) \<and> rc = 0 \<and> length out + outl = N \<and>
     4 * length out + 3 * (enc_num (base64 b) + tmp_len b + length (content (next_bio b))) \<le> 3 * N)"

definition measure_of :: "'n read_state \<Rightarrow> nat" where
  "measure_of st = (let b = fst st in
     if cont b \<le> 0 then 0 else 1 + 2 * length (content (next_bio b)) + tmp_len b)"

lemma deliver_safe:
  assumes size: "1430 \<le> bufsz" and r: "reading N (b, out, outl, 0)" and i: "i \<le> n" "n \<le> 1024" and "\<not> start b" and "tmp_len b = 0"
    and pot: "4 * length out + 3 * (enc_num (base64 b) + n + length (content (next_bio b))) \<le> 3 * N"
  shows "(\<exists>b'. b64_deliver bufsz b i out outl 0 = Inr (Break (b', out, outl, 0))) \<or>
    (\<exists>b' out' outl'. b64_deliver bufsz b i out outl 0 = Inr (Continue (b', out', outl', 0)) \<and>
      reading N (b', out', outl', 0) \<and> next_bio b' = next_bio b \<and> tmp_len b' = 0)"
proof -
  have st: "\<not> flag_no_nl b" "dec_ok (base64 b)" "length (b64_tmp b) = 1024" "length out + outl = N"
    "inv (next_bio b)" using r by (simp_all add: reading_def)
  obtain k o' ctx where u: "EVP_DecodeUpdate (base64 b) (take i (b64_tmp b)) = Inr (k, o', ctx)"
    "dec_ok ctx" "4 * length o' + 3 * enc_num ctx \<le> 3 * enc_num (base64 b) + 3 * length (take i (b64_tmp b))"
    using DecodeUpdate_safe [OF st(2)] by blast
  have "length (take i (b64_tmp b)) = i" using i st(3) by simp
  with u(3) have "4 * length o' + 3 * enc_num ctx \<le> 3 * enc_num (base64 b) + 3 * i" by simp
  then have b: "4 * length (out @ o') + 3 * (enc_num ctx + length (content (next_bio b))) \<le> 3 * N"
    using pot i(1) by simp
  then have "length o' \<le> outl" using st(4) by simp
  have "decode_into_buf bufsz (base64 b) (take i (b64_tmp b)) = Inr (k, o', ctx)"
    using decode_into_buf_fits [OF st(2) _ size] st(3) u(1) by simp
  note d = b64_deliver_lines [OF st(1) this \<open>length o' \<le> outl\<close>, of out 0]
  show ?thesis
  proof (cases "0 \<le> k")
    case True
    from d(1) [OF this] obtain b' where b': "b64_deliver bufsz b i out outl 0 =
        Inr (Continue (b', out @ o', outl - length o', 0))" "\<not> flag_no_nl b'" "next_bio b' = next_bio b"
      "b64_tmp b' = b64_tmp b" "start b' = start b" "base64 b' = ctx" "tmp_len b' = 0"
      by blast
    then have "reading N (b', out @ o', outl - length o', 0)"
      using st u(2) b assms(5) \<open>length o' \<le> outl\<close> by (simp add: reading_def)
    then show ?thesis using b' by blast
  qed (use d(2) in simp)
qed

lemma process_safe:
  assumes size: "1430 \<le> bufsz" and r: "reading N (b, out, outl, 0)"
  shows "(\<exists>b'. b64_process bufsz b (tmp_len b) out outl 0 = Inr (Break (b', out, outl, 0))) \<or>
    (\<exists>b' out' outl'. b64_process bufsz b (tmp_len b) out outl 0 = Inr (Continue (b', out', outl', 0)) \<and>
      reading N (b', out', outl', 0) \<and> next_bio b' = next_bio b \<and> tmp_len b' \<le> tmp_len b \<and>
      (tmp_len b' \<noteq> 0 \<longrightarrow> cont b' = cont b))"
proof -
  have st: "\<not> flag_no_nl b" "dec_ok (base64 b)" "length (b64_tmp b) = 1024" "tmp_len b \<le> 1024"
    "start b \<longrightarrow> enc_num (base64 b) = 0"
    "4 * length out + 3 * (enc_num (base64 b) + tmp_len b + length (content (next_bio b))) \<le> 3 * N"
    using r by (simp_all add: reading_def)
  show ?thesis
  proof (cases "start b")
    case False
    show ?thesis
    proof (cases "tmp_len b < 1024 \<and> 0 < cont b")
      case True
      then show ?thesis using False r by (simp add: b64_process_def B64_BLOCK_SIZE_def)
    next
      case full: False
      then have "b64_process bufsz b (tmp_len b) out outl 0 = b64_deliver bufsz b (tmp_len b) out outl 0"
        using False by (auto simp: b64_process_def B64_BLOCK_SIZE_def)
      moreover have "b64_deliver bufsz b i out outl 0 = b64_deliver bufsz (b\<lparr>tmp_len := 0\<rparr>) i out outl 0" for i
        using st(1) by (cases "decode_into_buf bufsz (base64 b) (take i (b64_tmp b))")
          (auto simp: b64_deliver_def b64_decode_tmp_def Let_def)
      moreover have "reading N (b\<lparr>tmp_len := 0\<rparr>, out, outl, 0)" using r by (simp add: reading_def)
      ultimately show ?thesis
        using deliver_safe [OF size, of N "b\<lparr>tmp_len := 0\<rparr>" out outl "tmp_len b" "tmp_len b"] st False by auto
    qed
  next
    case True
    from b64_scan_safe [OF st(2) _ st(3) order_refl _ st(4) refl size] st(5) True
    obtain b1 p q j i num where sc: "b64_scan bufsz b 0 0 (tmp_len b) 0 = Inr (b1, p, q, j, i, num)"
      "same_place b b1" "cont b1 = cont b" "tmp_len b1 = tmp_len b" "dec_ok (base64 b1)"
      "enc_num (base64 b1) = 0" "length (b64_tmp b1) = 1024" "p \<le> q" "q \<le> tmp_len b" "i \<le> tmp_len b"
      "j \<noteq> i \<or> num \<noteq> 0 \<longrightarrow> \<not> start b1"
      by (metis le0)
    have r1: "reading N (b1\<lparr>tmp_len := n, b64_tmp := t, tmp_nl := x\<rparr>, out, outl, 0)"
      if "n \<le> tmp_len b" "length t = 1024" for n t x
      using r sc that by (auto simp: reading_def same_place_def)
    show ?thesis
    proof (cases "j = i \<and> num = 0")
      case fell: True
      define b2 where "b2 = (if p = 0 then Inr (if i = B64_BLOCK_SIZE then b1\<lparr>tmp_nl := True, tmp_len := 0\<rparr> else b1)
        else if p \<noteq> q then bindO (shift_down (b64_tmp b1) p (q - p)) (\<lambda>t. Inr (b1\<lparr>b64_tmp := t, tmp_len := q - p\<rparr>))
        else Inr b1)"
      have "\<exists>n t x. b2 = Inr (b1\<lparr>tmp_len := n, b64_tmp := t, tmp_nl := x\<rparr>) \<and> n \<le> tmp_len b \<and> length t = 1024"
      proof -
        have keep: "b1 = b1\<lparr>tmp_len := tmp_len b, b64_tmp := b64_tmp b1, tmp_nl := tmp_nl b1\<rparr>"
          using sc(4) by simp
        consider "p = 0" "i = B64_BLOCK_SIZE" | "p \<noteq> 0" "p \<noteq> q" | "p = 0 \<and> i \<noteq> B64_BLOCK_SIZE \<or> p \<noteq> 0 \<and> p = q"
          by (cases "p = 0"; cases "i = B64_BLOCK_SIZE"; cases "p = q") simp_all
        then show ?thesis
        proof cases
          case 1
          then show ?thesis using sc(7) unfolding b2_def
            by (intro exI [of _ 0] exI [of _ "b64_tmp b1"] exI [of _ True]) simp
        next
          case 2
          define t where "t = take (q - p) (drop p (b64_tmp b1)) @ drop (q - p) (b64_tmp b1)"
          have "shift_down (b64_tmp b1) p (q - p) = Inr t" "length t = 1024" "q - p \<le> tmp_len b"
            using sc(7-9) st(4) by (simp_all add: shift_down_def buf_read_def t_def)
          moreover have "b1\<lparr>b64_tmp := t, tmp_len := q - p\<rparr> =
              b1\<lparr>tmp_len := q - p, b64_tmp := t, tmp_nl := tmp_nl b1\<rparr>" by simp
          ultimately show ?thesis using 2 unfolding b2_def by (metis bindO_Inr)
        next
          case 3
          then have "b2 = Inr b1" by (auto simp: b2_def)
          then show ?thesis using sc(7) keep by (metis order_refl)
        qed
      qed
      then obtain n t x where n: "b2 = Inr (b1\<lparr>tmp_len := n, b64_tmp := t, tmp_nl := x\<rparr>)" "n \<le> tmp_len b"
        "length t = 1024" by blast
      have "b64_process bufsz b (tmp_len b) out outl 0 =
          Inr (Continue (b1\<lparr>tmp_len := n, b64_tmp := t, tmp_nl := x\<rparr>, out, outl, 0))"
        using True st(1) fell sc(1) n(1) unfolding b2_def by (simp add: b64_process_def)
      then show ?thesis using r1 [OF n(2,3)] sc(2,3) n(2) by (simp add: same_place_def)
    next
      case go: False
      have "reading N (b1\<lparr>tmp_len := 0\<rparr>, out, outl, 0)"
        using r sc by (auto simp: reading_def same_place_def)
      moreover have "b64_process bufsz b (tmp_len b) out outl 0 = b64_deliver bufsz (b1\<lparr>tmp_len := 0\<rparr>) i out outl 0"
        using True st(1) go sc(1) by (auto simp: b64_process_def)
      ultimately show ?thesis
        using deliver_safe [OF size, of N "b1\<lparr>tmp_len := 0\<rparr>" out outl i "tmp_len b"] sc(2,6,10,11) st go True
        by (auto simp: same_place_def)
    qed
  qed
qed

lemma read_loop_safe:
  assumes "reading N st" and "0 < N" and size: "1430 \<le> bufsz"
  shows "\<exists>b' out outl. b64_read_loop bufsz ops st = Some (Inr (b', out, outl, 0)) \<and> 4 * length out \<le> 3 * N"
  using assms(1,2)
proof (induction "measure_of st" arbitrary: st rule: less_induct)
  case less
  obtain b out outl where s: "st = (b, out, outl, 0)"
    using less.prems(1) by (cases st) (auto simp: reading_def)
  have r: "reading N (b, out, outl, 0)" using less.prems(1) s by simp
  then have st: "length (b64_tmp b) = 1024" "tmp_len b \<le> 1024" "inv (next_bio b)" "length out + outl = N"
    "4 * length out + 3 * (enc_num (base64 b) + tmp_len b + length (content (next_bio b))) \<le> 3 * N"
    by (simp_all add: reading_def)
  have outl: "0 < outl" using st(4,5) less.prems(2) by linarith
  show ?case
  proof (cases "cont b \<le> 0")
    case True
    then show ?thesis using pass_stopped [OF True outl] s st(5) by auto
  next
    case cont: False
    have step: ?thesis if p: "b64_read_pass bufsz ops (b, out, outl, 0) = b64_process bufsz b1 (tmp_len b1) out outl 0"
      and r1: "reading N (b1, out, outl, 0)"
      and m: "\<And>b' out' outl'. next_bio b' = next_bio b1 \<Longrightarrow> tmp_len b' \<le> tmp_len b1 \<Longrightarrow>
        tmp_len b' \<noteq> 0 \<longrightarrow> cont b' = cont b1 \<Longrightarrow> measure_of (b', out', outl', 0) < measure_of st" for b1
      using process_safe [OF size r1]
    proof (elim disjE exE conjE, goal_cases)
      case (1 b')
      then show ?thesis using p outl s st(5) by (subst b64_read_loop.simps) simp
    next
      case (2 b' out' outl')
      have "b64_read_loop bufsz ops st = b64_read_loop bufsz ops (b', out', outl', 0)"
        using p outl s 2(1) by (subst b64_read_loop.simps) simp
      then show ?thesis using less.hyps [OF m [OF 2(3-5)] 2(2) less.prems(2)] by simp
    qed
    show ?thesis
    proof (cases "content (next_bio b) = [] \<or> tmp_len b = 1024")
      case True
      obtain nx where nx: "b64_read_pass bufsz ops (b, out, outl, 0) =
          (if tmp_len b = 0 then Inr (Break (b\<lparr>next_bio := nx, cont := 0\<rparr>, out, outl, 0))
           else b64_process bufsz (b\<lparr>next_bio := nx, cont := 0\<rparr>) (tmp_len b) out outl 0)"
        "inv nx" "content nx = content (next_bio b)"
        using pass_end [OF st(3) _ st(2) True] cont by fastforce
      show ?thesis
      proof (cases "tmp_len b = 0")
        case True
        then show ?thesis using nx(1) outl s st(5) by (subst b64_read_loop.simps) simp
      next
        case False
        show ?thesis
        proof (rule step [of "b\<lparr>next_bio := nx, cont := 0\<rparr>"])
          show "reading N (b\<lparr>next_bio := nx, cont := 0\<rparr>, out, outl, 0)" using r nx by (simp add: reading_def)
        qed (use False nx cont s in \<open>auto simp: measure_of_def\<close>)
      qed
    next
      case False
      define x where "x = take (1024 - tmp_len b) (content (next_bio b))"
      obtain nx t where nx: "b64_read_pass bufsz ops (b, out, outl, 0) =
          b64_process bufsz (b\<lparr>next_bio := nx, b64_tmp := t, tmp_len := length x + tmp_len b\<rparr>)
            (length x + tmp_len b) out outl 0"
        "inv nx" "content nx = drop (1024 - tmp_len b) (content (next_bio b))" "0 < length x"
        "length x \<le> 1024 - tmp_len b" "length t = 1024"
        using pass_data [of b bufsz out outl 0] cont False st unfolding x_def [symmetric] by auto
      have "length (content (next_bio b)) = length x + length (content nx)"
        using nx(3) by (simp add: x_def)
      note nx = nx this
      show ?thesis
      proof (rule step [of "b\<lparr>next_bio := nx, b64_tmp := t, tmp_len := length x + tmp_len b\<rparr>"])
        show "reading N (b\<lparr>next_bio := nx, b64_tmp := t, tmp_len := length x + tmp_len b\<rparr>, out, outl, 0)"
          using r nx(2,4-7) st(2) by (simp add: reading_def)
      qed (use nx(1,4-7) cont s in \<open>auto simp: measure_of_def simp del: length_greater_0_conv\<close>)
    qed
  qed
qed

end

end
