(* ===== verification/Bio_B64_Decode.thy ===== *)
theory Bio_B64_Decode
  imports Bio_B64_Read
begin

text \<open>
  What the base64 filter delivers: the data of an encoding in lines, nothing at all for a text
  without a line feed, and never more than three bytes for four characters.
\<close>

definition ready :: "'n B64_BIO \<Rightarrow> bool" where
  "ready b \<longleftrightarrow> encode b \<noteq> B64_DECODE \<and> \<not> flag_no_nl b \<and> start b \<and> cont b = 1 \<and> \<not> tmp_nl b \<and>
     length (enc_data (base64 b)) = 80 \<and> length (b64_tmp b) = 1024"

definition opened :: "'n B64_BIO \<Rightarrow> 'n B64_BIO" where
  "opened b = b\<lparr>b64_retry := False, encode := B64_DECODE, buf_len := 0, buf_off := 0, tmp_len := 0,
     base64 := EVP_DecodeInit (base64 b)\<rparr>"

lemma ready_new: "ready (b64_new nx)" "next_bio (b64_new nx) = nx"
  by (simp_all add: ready_def b64_new_def EVP_ENCODE_CTX_new_def B64_BLOCK_SIZE_def)

lemma b64_read_ready:
  assumes "ready b" and "b64_read_loop bufsz ops (opened b, [], outl, 0) = Some (Inr (b', out, outl', 0))"
  shows "\<exists>b'. b64_read bufsz ops b outl = Some (Inr (int (length out), out, b'))"
  using assms by (auto simp: b64_read_def b64_read_buffered_def ready_def opened_def Let_def)

lemma dec_repr_ok: "dec_repr f P prev ctx \<Longrightarrow> dec_ok ctx"
  by (simp add: dec_repr_def dec_ok_def)

lemma dec_repr_take: "dec_repr f P prev ctx \<Longrightarrow> length prev \<le> length f"
  by (auto simp: dec_repr_def)

context byte_source
begin

lemma b64_read_safe:
  assumes "ready b" and "inv (next_bio b)" and "length (content (next_bio b)) = n" and "0 < n" and "1430 \<le> bufsz"
  shows "\<exists>out b'. b64_read bufsz ops b n = Some (Inr (int (length out), out, b')) \<and> 4 * length out \<le> 3 * n"
proof -
  have "reading n (opened b, [], n, 0)"
    using assms by (simp add: reading_def opened_def ready_def dec_ok_def EVP_DecodeInit_def)
  from read_loop_safe [OF this assms(4,5)] b64_read_ready [OF assms(1)] show ?thesis by blast
qed

subsection \<open>The lines of an encoding\<close>

definition decoding :: "bytes \<Rightarrow> nat \<Rightarrow> 'n read_state \<Rightarrow> bool" where
  "decoding f N = (\<lambda>(b, out, outl, rc). \<not> flag_no_nl b \<and> \<not> start b \<and> 0 \<le> cont b \<and>
     length (b64_tmp b) = 1024 \<and> tmp_len b < 1024 \<and> inv (next_bio b) \<and> rc = 0 \<and>
     length out + outl = N \<and> \<not> use_srp (base64 b) \<and>
     (\<exists>P. dec_repr f P out (base64 b) \<and>
        b64_text False f = P @ strip_nl (take (tmp_len b) (b64_tmp b) @ content (next_bio b))) \<and>
     (take (tmp_len b) (b64_tmp b) @ content (next_bio b) = [] \<or> cont b = 0 \<longrightarrow> out = f))"

lemma deliver_lines:
  assumes "\<not> flag_no_nl b" and "\<not> start b" and "length (b64_tmp b) = 1024" and "inv (next_bio b)"
    and "length out + outl = N" and "length f < N" and "\<not> use_srp (base64 b)"
    and "dec_repr f P out (base64 b)" and "0 < i" and "i \<le> 1024"
    and "b64_text False f = P @ strip_nl (take i (b64_tmp b) @ content (next_bio b))" and "1430 \<le> bufsz"
  shows "\<exists>b' out' outl'. b64_deliver bufsz b i out outl 0 = Inr (Continue (b', out', outl', 0)) \<and>
    decoding f N (b', out', outl', 0) \<and> next_bio b' = next_bio b \<and> tmp_len b' = 0"
proof -
  have "take i (b64_tmp b) \<noteq> []" using assms(3,9) by auto
  then obtain k o' ctx where u: "EVP_DecodeUpdate (base64 b) (take i (b64_tmp b)) = Inr (k, o', ctx)"
    "k \<in> {0, 1}" "dec_repr f (P @ strip_nl (take i (b64_tmp b))) (out @ o') ctx"
    "use_srp ctx = use_srp (base64 b)" "strip_nl (content (next_bio b)) = [] \<longrightarrow> out @ o' = f"
    "k = 0 \<longrightarrow> strip_nl (content (next_bio b)) = []"
    using DecodeUpdate_repr [OF assms(8), of "take i (b64_tmp b)" "strip_nl (content (next_bio b))"]
      assms(7,11) by auto
  have "length o' \<le> outl" using dec_repr_take [OF u(3)] assms(5,6) by simp
  moreover have "0 \<le> k" using u(2) by auto
  moreover have "decode_into_buf bufsz (base64 b) (take i (b64_tmp b)) = Inr (k, o', ctx)"
    using decode_into_buf_fits [OF dec_repr_ok [OF assms(8)] _ assms(12)] assms(3) u(1) by simp
  ultimately obtain b' where b': "b64_deliver bufsz b i out outl 0 =
      Inr (Continue (b', out @ o', outl - length o', 0))" "\<not> flag_no_nl b'" "next_bio b' = next_bio b"
    "b64_tmp b' = b64_tmp b" "start b' = start b" "base64 b' = ctx" "tmp_len b' = 0" "cont b' = k"
    using b64_deliver_lines(1) [OF assms(1)] by blast
  then have "decoding f N (b', out @ o', outl - length o', 0)"
    using u assms \<open>length o' \<le> outl\<close> by (auto simp: decoding_def strip_nl_def)
  then show ?thesis using b' by blast
qed

lemma read_loop_lines:
  assumes "decoding f N st" and "length f < N" and size: "1430 \<le> bufsz"
  shows "\<exists>b' outl. b64_read_loop bufsz ops st = Some (Inr (b', f, outl, 0))"
  using assms(1,2)
proof (induction "2 * length (content (next_bio (fst st))) + tmp_len (fst st)" arbitrary: st rule: less_induct)
  case less
  obtain b out outl where s: "st = (b, out, outl, 0)"
    using less.prems(1) by (cases st) (auto simp: decoding_def)
  obtain P where st: "\<not> flag_no_nl b" "\<not> start b" "0 \<le> cont b" "length (b64_tmp b) = 1024"
    "tmp_len b < 1024" "inv (next_bio b)" "length out + outl = N" "\<not> use_srp (base64 b)"
    "dec_repr f P out (base64 b)"
    "b64_text False f = P @ strip_nl (take (tmp_len b) (b64_tmp b) @ content (next_bio b))"
    "take (tmp_len b) (b64_tmp b) @ content (next_bio b) = [] \<or> cont b = 0 \<longrightarrow> out = f"
    using less.prems(1) s by (auto simp: decoding_def)
  have outl: "0 < outl" using dec_repr_take [OF st(9)] st(7) less.prems(2) by simp
  have go: "b64_read_loop bufsz ops st = b64_read_loop bufsz ops st'"
    if "b64_read_pass bufsz ops (b, out, outl, 0) = Inr (Continue st')" for st'
    using that outl s by (subst b64_read_loop.simps) simp
  show ?case
  proof (cases "cont b = 0")
    case True
    then show ?thesis using pass_stopped [of b outl bufsz out 0] outl s st(11) by auto
  next
    case False
    then have cont: "0 < cont b" using st(3) by simp
    show ?thesis
    proof (cases "content (next_bio b) = []")
      case none: True
      obtain nx where nx: "b64_read_pass bufsz ops (b, out, outl, 0) =
          (if tmp_len b = 0 then Inr (Break (b\<lparr>next_bio := nx, cont := 0\<rparr>, out, outl, 0))
           else b64_process bufsz (b\<lparr>next_bio := nx, cont := 0\<rparr>) (tmp_len b) out outl 0)"
        "inv nx" "content nx = content (next_bio b)"
        using pass_end [OF st(6) cont] st(5) none by fastforce
      show ?thesis
      proof (cases "tmp_len b = 0")
        case True
        then have "out = f" using st(11) none by simp
        then show ?thesis using True nx(1) outl s by (subst b64_read_loop.simps) simp
      next
        case False
        obtain b' out' outl' where d: "b64_deliver bufsz (b\<lparr>next_bio := nx, cont := 0\<rparr>) (tmp_len b) out outl 0 =
            Inr (Continue (b', out', outl', 0))" "decoding f N (b', out', outl', 0)" "next_bio b' = nx"
          "tmp_len b' = 0"
          using deliver_lines [of "b\<lparr>next_bio := nx, cont := 0\<rparr>" out outl N f P "tmp_len b" bufsz] st nx False
            less.prems(2) size by auto
        have "b64_read_pass bufsz ops (b, out, outl, 0) = Inr (Continue (b', out', outl', 0))"
          using nx(1) False st(2) d(1) by (simp add: b64_process_def)
        then show ?thesis
          using less.hyps [OF _ d(2) less.prems(2)] go d(3,4) nx(3) False s by simp
      qed
    next
      case False
      define x where "x = take (1024 - tmp_len b) (content (next_bio b))"
      define t where "t = take (tmp_len b) (b64_tmp b) @ x @ drop (tmp_len b + length x) (b64_tmp b)"
      obtain nx where nx: "b64_read_pass bufsz ops (b, out, outl, 0) =
          b64_process bufsz (b\<lparr>next_bio := nx, b64_tmp := t, tmp_len := length x + tmp_len b\<rparr>)
            (length x + tmp_len b) out outl 0"
        "inv nx" "content nx = drop (1024 - tmp_len b) (content (next_bio b))" "0 < length x"
        "length x \<le> 1024 - tmp_len b"
        using pass_data [OF st(6) cont st(5) False st(4), of bufsz out outl 0] unfolding x_def [symmetric] t_def
        by blast
      define b1 where "b1 = b\<lparr>next_bio := nx, b64_tmp := t, tmp_len := length x + tmp_len b\<rparr>"
      have all: "content (next_bio b) = x @ content nx" using nx(3) by (simp add: x_def)
      then have len: "length (content (next_bio b)) = length x + length (content nx)" by simp
      have t: "length t = 1024" "take (length x + tmp_len b) t = take (tmp_len b) (b64_tmp b) @ x"
        using st(4,5) nx(5) by (simp_all add: t_def)
      have text1: "b64_text False f = P @ strip_nl (take (length x + tmp_len b) (b64_tmp b1) @ content (next_bio b1))"
        using st(10) all t(2) by (simp add: b1_def)
      have ne: "take (length x + tmp_len b) (b64_tmp b1) \<noteq> []"
        using t nx(4) by (auto simp: b1_def)
      show ?thesis
      proof (cases "length x + tmp_len b < 1024")
        case True
        have "decoding f N (b1, out, outl, 0)"
          using st nx(2) t(1) ne text1 True cont by (auto simp: decoding_def b1_def)
        moreover have "b64_read_pass bufsz ops (b, out, outl, 0) = Inr (Continue (b1, out, outl, 0))"
          using nx(1) True st(2) cont by (simp add: b64_process_def B64_BLOCK_SIZE_def b1_def)
        moreover have "2 * length (content (next_bio b1)) + tmp_len b1 <
            2 * length (content (next_bio b)) + tmp_len b"
          using len nx(4) by (simp add: b1_def del: length_greater_0_conv)
        ultimately show ?thesis using less.hyps [OF _ _ less.prems(2)] go s by simp
      next
        case full: False
        obtain b' out' outl' where d: "b64_deliver bufsz b1 (length x + tmp_len b) out outl 0 =
            Inr (Continue (b', out', outl', 0))" "decoding f N (b', out', outl', 0)" "next_bio b' = nx"
          "tmp_len b' = 0"
        proof -
          have i: "length x + tmp_len b = 1024" using full st(5) nx(5) by simp
          have "\<exists>b' out' outl'. b64_deliver bufsz b1 (length x + tmp_len b) out outl 0 =
              Inr (Continue (b', out', outl', 0)) \<and> decoding f N (b', out', outl', 0) \<and>
              next_bio b' = next_bio b1 \<and> tmp_len b' = 0"
            by (rule deliver_lines [OF _ _ _ _ st(7) less.prems(2) _ _ _ _ text1 size])
              (use st(1-9) nx(2) t(1) i in \<open>simp_all add: b1_def\<close>)
          then show thesis using that by (auto simp: b1_def)
        qed
        have "b64_read_pass bufsz ops (b, out, outl, 0) = Inr (Continue (b', out', outl', 0))"
          using nx(1) full st(2) d(1) by (simp add: b64_process_def B64_BLOCK_SIZE_def b1_def)
        moreover have "2 * length (content (next_bio b')) + tmp_len b' <
            2 * length (content (next_bio b)) + tmp_len b"
          using len nx(4) d(3,4) by (simp del: length_greater_0_conv)
        ultimately show ?thesis using less.hyps [OF _ d(2) less.prems(2)] go s by simp
      qed
    qed
  qed
qed

text \<open>The first pass finds a line and starts.\<close>

lemma scan_first_line:
  assumes "take i (b64_tmp b) = ys @ nl_char # zs" and "nl_char \<notin> set ys" and "\<not> tmp_nl b"
    and "i \<le> length (b64_tmp b)"
    and "decode_into_buf bufsz (base64 b) (ys @ [nl_char]) = Inr (k, o', ctx)" and "0 < k \<or> o' \<noteq> []"
  shows "b64_scan bufsz b 0 0 i 0 =
    Inr (b\<lparr>b64_buf := o', base64 := EVP_DecodeInit ctx, start := False\<rparr>, 0, length ys + 1, length ys, i, length o')"
proof -
  have len: "length ys < i" "length ys < length (b64_tmp b)"
    using assms(1,4) by (auto dest: arg_cong [of _ _ length])
  have tmp: "b64_tmp b = (ys @ nl_char # zs) @ drop i (b64_tmp b)"
    using assms(1) by (metis append_take_drop_id)
  have nth: "b64_tmp b ! length ys = nl_char" "\<And>k. k < length ys \<Longrightarrow> b64_tmp b ! k = ys ! k"
    by (subst tmp, simp add: nth_append)+
  have "b64_scan bufsz b 0 0 i 0 = b64_scan bufsz b 0 (length ys) i 0"
    by (rule b64_scan_skip) (use assms(2,4) len nth in \<open>auto simp: in_set_conv_nth\<close>)
  moreover have "buf_read (b64_tmp b) (length ys) 1 = Inr [nl_char]"
    using len nth(1) by (simp add: buf_read_def take_Suc hd_drop_conv_nth)
  moreover have "take (length ys + 1 - 0) (drop 0 (b64_tmp b)) = ys @ [nl_char]"
    by (subst tmp) simp
  moreover have "b64_scan bufsz b 0 (length ys) i 0 =
    Inr (b\<lparr>b64_buf := o', base64 := EVP_DecodeInit ctx, start := False\<rparr>, 0, length ys + 1, length ys, i, length o')"
    using calculation(2,3) assms(3,5,6) len(1) by (subst b64_scan.simps) (auto simp: Let_def)
  ultimately show ?thesis by simp
qed

lemma read_text:
  assumes "ready b" and "inv (next_bio b)" and "f \<noteq> []" and "length f < outl"
    and enc: "strip_nl (content (next_bio b)) = b64_text False f"
    and nl: "nl_char \<in> set (take 1024 (content (next_bio b)))" and size: "1430 \<le> bufsz"
  shows "\<exists>b'. b64_read bufsz ops b outl = Some (Inr (int (length f), f, b'))"
proof -
  define b0 where "b0 = opened b"
  define x where "x = take 1024 (content (next_bio b))"
  have b0: "\<not> flag_no_nl b0" "start b0" "\<not> tmp_nl b0" "cont b0 = 1" "tmp_len b0 = 0" "next_bio b0 = next_bio b"
    "length (b64_tmp b0) = 1024" "\<not> use_srp (base64 b0)" "dec_repr f [] [] (base64 b0)"
    using assms(1) by (auto simp: b0_def opened_def ready_def EVP_DecodeInit_def intro: DecodeInit_repr [unfolded EVP_DecodeInit_def])
  obtain ys zs where x: "x = ys @ nl_char # zs" "nl_char \<notin> set ys"
    using nl split_list_first unfolding x_def by metis
  have "content (next_bio b) \<noteq> []" using nl by auto
  then obtain nx where nx: "b64_read_pass bufsz ops (b0, [], outl, 0) =
      b64_process bufsz (b0\<lparr>next_bio := nx, b64_tmp := x @ drop (length x) (b64_tmp b0), tmp_len := length x\<rparr>)
        (length x) [] outl 0"
    "inv nx" "content nx = drop 1024 (content (next_bio b))" "length x \<le> 1024"
    using pass_data [of b0 bufsz "[]" outl 0] b0 assms(2) unfolding x_def by auto
  define b1 where "b1 = b0\<lparr>next_bio := nx, b64_tmp := x @ drop (length x) (b64_tmp b0), tmp_len := length x\<rparr>"
  have all: "content (next_bio b) = x @ content nx" using nx(3) by (simp add: x_def)
  obtain k o' ctx where u: "EVP_DecodeUpdate (base64 b0) (ys @ [nl_char]) = Inr (k, o', ctx)" "k \<in> {0, 1}"
    "strip_nl (zs @ content nx) = [] \<longrightarrow> o' = f" "k = 0 \<longrightarrow> strip_nl (zs @ content nx) = []"
    "dec_repr f (strip_nl (ys @ [nl_char])) o' ctx"
    using DecodeUpdate_repr [OF b0(9), of "ys @ [nl_char]" "strip_nl (zs @ content nx)"] b0(8) enc all x(1)
    by (auto simp: strip_nl_def)
  have "length (ys @ [nl_char]) \<le> 1024" using x(1) nx(4) by simp
  then have "decode_into_buf bufsz (base64 b1) (ys @ [nl_char]) = Inr (k, o', ctx)"
    using decode_into_buf_fits [OF dec_repr_ok [OF b0(9)] _ size] u(1) by (simp add: b1_def)
  moreover have "0 < k \<or> o' \<noteq> []" using u(2-4) assms(3) by auto
  ultimately have sc: "b64_scan bufsz b1 0 0 (length x) 0 =
      Inr (b1\<lparr>b64_buf := o', base64 := EVP_DecodeInit ctx, start := False\<rparr>, 0, length ys + 1, length ys,
           length x, length o')"
    using scan_first_line [of "length x" b1 ys zs bufsz k o' ctx] x b0 nx(4) by (simp add: b1_def)
  define b2 where "b2 = b1\<lparr>b64_buf := o', base64 := EVP_DecodeInit ctx, start := False, tmp_len := 0\<rparr>"
  have "b64_read_pass bufsz ops (b0, [], outl, 0) = b64_deliver bufsz b2 (length x) [] outl 0"
    using nx(1) sc b0(1,2) x(1) unfolding b1_def [symmetric] b2_def
    by (simp add: b64_process_def b1_def)
  moreover have "dec_repr f [] [] (EVP_DecodeInit ctx)"
    using u(5) by (intro DecodeInit_repr) (simp add: dec_repr_def)
  then obtain b' out' outl' where "b64_deliver bufsz b2 (length x) [] outl 0 = Inr (Continue (b', out', outl', 0))"
    "decoding f outl (b', out', outl', 0)"
    using deliver_lines [of b2 "[]" outl outl f "[]" "length x" bufsz] b0 nx(2,4) x(1) assms(4) enc all size
    by (auto simp: b2_def b1_def EVP_DecodeInit_def)
  moreover obtain b'' outl'' where "b64_read_loop bufsz ops (b', out', outl', 0) = Some (Inr (b'', f, outl'', 0))"
    using read_loop_lines [OF calculation(3) assms(4) size] by blast
  ultimately have "b64_read_loop bufsz ops (b0, [], outl, 0) = Some (Inr (b'', f, outl'', 0))"
    using assms(4) by (subst b64_read_loop.simps) simp
  then show ?thesis using b64_read_ready [OF assms(1)] by (simp add: b0_def)
qed

subsection \<open>A text without a line feed\<close>

definition no_line :: "'n read_state \<Rightarrow> bool" where
  "no_line = (\<lambda>(b, out, outl, rc). \<not> flag_no_nl b \<and> start b \<and> length (b64_tmp b) = 1024 \<and> tmp_len b < 1024 \<and>
     inv (next_bio b) \<and> rc = 0 \<and> out = [] \<and> 0 < outl \<and>
     nl_char \<notin> set (take (tmp_len b) (b64_tmp b)) \<union> set (content (next_bio b)))"

lemma process_no_line:
  assumes "\<not> flag_no_nl b" and "start b" and "length (b64_tmp b) = 1024" and "i \<le> 1024"
    and "nl_char \<notin> set (take i (b64_tmp b))"
  shows "b64_process bufsz b i out outl rc =
    Inr (Continue (if i = 1024 then b\<lparr>tmp_nl := True, tmp_len := 0\<rparr> else b, out, outl, rc))"
proof -
  have "b64_tmp b ! k \<noteq> nl_char" if "k < i" for k
    using assms(3-5) that by (metis in_set_conv_nth length_take min.absorb2 nth_take)
  then have "b64_scan bufsz b 0 0 i 0 = b64_scan bufsz b 0 i i 0"
    by (intro b64_scan_skip) (use assms in auto)
  also have "\<dots> = Inr (b, 0, i, i, i, 0)" by (subst b64_scan.simps) simp
  finally show ?thesis using assms(1,2) by (simp add: b64_process_def B64_BLOCK_SIZE_def)
qed

lemma read_loop_no_line:
  assumes "no_line st"
  shows "\<exists>b' outl. b64_read_loop bufsz ops st = Some (Inr (b', [], outl, 0))"
  using assms
proof (induction "measure_of st" arbitrary: st rule: less_induct)
  case less
  obtain b outl where s: "st = (b, [], outl, 0)"
    using less.prems(1) by (cases st) (auto simp: no_line_def)
  have st: "\<not> flag_no_nl b" "start b" "length (b64_tmp b) = 1024" "tmp_len b < 1024" "inv (next_bio b)" "0 < outl"
    "nl_char \<notin> set (take (tmp_len b) (b64_tmp b))" "nl_char \<notin> set (content (next_bio b))"
    using less.prems(1) s by (auto simp: no_line_def)
  have step: ?case if "b64_read_pass bufsz ops (b, [], outl, 0) = Inr (Continue (b', [], outl, 0))"
    and "no_line (b', [], outl, 0)" and "measure_of (b', [], outl, 0) < measure_of st" for b'
  proof -
    have "b64_read_loop bufsz ops st = b64_read_loop bufsz ops (b', [], outl, 0)"
      using that(1) st(6) s by (subst b64_read_loop.simps) simp
    then show ?thesis using less.hyps [OF that(3,2)] by simp
  qed
  show ?case
  proof (cases "cont b \<le> 0")
    case True
    then show ?thesis using pass_stopped [OF True st(6)] s by auto
  next
    case cont: False
    show ?thesis
    proof (cases "content (next_bio b) = []")
      case True
      obtain nx where nx: "b64_read_pass bufsz ops (b, [], outl, 0) =
          (if tmp_len b = 0 then Inr (Break (b\<lparr>next_bio := nx, cont := 0\<rparr>, [], outl, 0))
           else b64_process bufsz (b\<lparr>next_bio := nx, cont := 0\<rparr>) (tmp_len b) [] outl 0)"
        "inv nx" "content nx = content (next_bio b)"
        using pass_end [OF st(5)] cont st(4) True by fastforce
      show ?thesis
      proof (cases "tmp_len b = 0")
        case True
        then show ?thesis using nx(1) st(6) s by (subst b64_read_loop.simps) simp
      next
        case False
        show ?thesis
          by (rule step [of "b\<lparr>next_bio := nx, cont := 0\<rparr>"])
            (use False nx st cont s in \<open>simp_all add: process_no_line no_line_def measure_of_def\<close>)
      qed
    next
      case False
      define x where "x = take (1024 - tmp_len b) (content (next_bio b))"
      define t where "t = take (tmp_len b) (b64_tmp b) @ x @ drop (tmp_len b + length x) (b64_tmp b)"
      obtain nx where nx: "b64_read_pass bufsz ops (b, [], outl, 0) =
          b64_process bufsz (b\<lparr>next_bio := nx, b64_tmp := t, tmp_len := length x + tmp_len b\<rparr>)
            (length x + tmp_len b) [] outl 0"
        "inv nx" "content nx = drop (1024 - tmp_len b) (content (next_bio b))" "0 < length x"
        "length x \<le> 1024 - tmp_len b"
        using pass_data [OF st(5) _ st(4) False st(3), of bufsz "[]" outl 0] cont unfolding x_def [symmetric] t_def
        by auto
      have all: "content (next_bio b) = x @ content nx" using nx(3) by (simp add: x_def)
      have t: "length t = 1024" "take (length x + tmp_len b) t = take (tmp_len b) (b64_tmp b) @ x"
        using st(3,4) nx(5) by (simp_all add: t_def)
      define b1 where "b1 = b\<lparr>next_bio := nx, b64_tmp := t, tmp_len := length x + tmp_len b\<rparr>"
      have "nl_char \<notin> set (take (length x + tmp_len b) t)" using t(2) st(7,8) all by simp
      then have "b64_read_pass bufsz ops (b, [], outl, 0) =
          Inr (Continue (if length x + tmp_len b = 1024 then b1\<lparr>tmp_nl := True, tmp_len := 0\<rparr> else b1, [], outl, 0))"
        using nx(1) process_no_line [of b1 "length x + tmp_len b" bufsz "[]" outl 0] st t(1) nx(5)
        by (simp add: b1_def)
      then show ?thesis
        by (rule step) (use st t all nx(2,4,5) cont s in
          \<open>auto simp: no_line_def measure_of_def b1_def simp del: length_greater_0_conv\<close>)
    qed
  qed
qed

lemma read_no_line:
  assumes "ready b" and "inv (next_bio b)" and "nl_char \<notin> set (content (next_bio b))" and "0 < outl"
  shows "\<exists>b'. b64_read bufsz ops b outl = Some (Inr (0, [], b'))"
proof -
  have "no_line (opened b, [], outl, 0)"
    using assms by (auto simp: no_line_def opened_def ready_def)
  from read_loop_no_line [OF this] b64_read_ready [OF assms(1), of bufsz ops outl] show ?thesis by fastforce
qed

end

subsection \<open>The read-only memory BIO as the next BIO\<close>

interpretation mem_source: byte_source "mem_ops fresh" "\<lambda>b. mem_inv b \<and> bio_num b = 0" pending for fresh
proof unfold_locales
  fix b n
  assume a: "mem_inv b \<and> bio_num b = 0"
  then have len: "length (pending b) = bm_length (read_buf b)" by (simp add: length_pending)
  obtain r b' where r: "mem_read b (int n) = Inr (r, take n (pending b), b')" "mem_inv b'"
    "pending b' = drop n (pending b)" "pending b \<noteq> [] \<longrightarrow> 0 < n \<longrightarrow> r = int (min n (length (pending b)))"
    using mem_read_law [of b "int n"] a by auto
  have "bio_num b' = 0 \<and> (min n (length (pending b)) = 0 \<longrightarrow> r = 0 \<and> \<not> retry b')"
    using r(1) a len
    by (auto simp: mem_read_def Let_def set_read_buf_def elim!: bindO_eq_InrE split: if_splits)
  then show "\<exists>b'. op_read (mem_ops fresh) b (int n) =
        Inr (int (min n (length (pending b))), take n (pending b), b') \<and> (mem_inv b' \<and> bio_num b' = 0) \<and>
      pending b' = drop n (pending b) \<and>
      (min n (length (pending b)) = 0 \<longrightarrow> \<not> op_retry (mem_ops fresh) b')"
    using r by (cases "min n (length (pending b)) = 0") (auto simp: mem_ops_def min_def split: if_splits)
qed

end
