(* ===== verification/Bf_Base64.thy ===== *)
theory Bf_Base64
  imports Bf_Export Bf_Message Bio_B64_Decode
begin

text \<open>
  The base64 functions of bfibe (\<open>bfibe/src/base64.c\<close>) over the base64 filter and the memory BIO of
  OpenSSL, and the text form of messages (\<open>bfibe/src/export.c\<close>). A C string is its bytes without the
  final zero. \<open>malloc\<close> is the allocator \<open>fresh\<close>; writes to an allocated buffer are checked against its
  size. The flag \<open>BIO_FLAGS_BASE64_NO_NL\<close> is set on the memory BIO, where nothing looks at it, so the
  filter does not have it. \<open>BIO_read\<close> and \<open>BIO_write\<close> (\<open>bio_lib.c\<close>) refuse a negative length.
\<close>

definition BIO_read ::
  "nat \<Rightarrow> memory \<Rightarrow> MEM_BIO B64_BIO \<Rightarrow> int \<Rightarrow> (int \<times> bytes \<times> MEM_BIO B64_BIO) outcome option"
where
  "BIO_read bufsz fresh b dlen =
     (if dlen < 0 then Some (Inr (0, [], b)) else b64_read bufsz (mem_ops fresh) b (nat dlen))"

definition BIO_write ::
  "nat \<Rightarrow> memory \<Rightarrow> MEM_BIO B64_BIO \<Rightarrow> bytes \<Rightarrow> int \<Rightarrow> (int \<times> MEM_BIO B64_BIO) outcome"
where
  "BIO_write bufsz fresh b data dlen =
     (if dlen < 0 then Inr (0, b)
      else bindO (buf_read data 0 (nat dlen)) (\<lambda>s. b64_write bufsz (mem_ops fresh) b (Some s)))"

text \<open>
  \<open>base64_decode\<close>: the buffer it returns and what it stores in \<open>*decode_len\<close> (\<open>None\<close>: nothing).
\<close>

definition base64_decode :: "nat \<Rightarrow> memory \<Rightarrow> bytes \<Rightarrow> (bytes option \<times> nat option) outcome option" where
  "base64_decode bufsz fresh b64message =
     (let msglen = length b64message
      in if msglen = 0 then Some (Inr (None, None))
         else
           let bio = b64_new (BIO_new_mem_buf b64message)
           in case fresh (msglen * 3 mod 2 ^ 64 div 4) of
                None \<Rightarrow> Some (Inr (None, None))
              | Some buffer \<Rightarrow>
                  map_option (\<lambda>r. bindO r (\<lambda>(n, out, bio).
                    bindO (buf_write buffer 0 out) (\<lambda>buffer.
                    Inr (Some buffer, Some (size_of_int n)))))
                  (BIO_read bufsz fresh bio (int_of_size msglen)))"

text \<open>\<open>base64_encode\<close>: the text with its final zero.\<close>

definition base64_encode :: "nat \<Rightarrow> memory \<Rightarrow> bytes \<Rightarrow> bytes option outcome option" where
  "base64_encode bufsz fresh buffer =
     (if length buffer = 0 then Some (Inr None)
      else
        case BIO_write bufsz fresh (b64_new mem_new) buffer (int_of_size (length buffer)) of
          Inl c \<Rightarrow> Some (Inl c)
        | Inr (n, bio) \<Rightarrow>
            if n \<le> 0 then Some (Inr None)
            else
              case b64_ctrl bufsz (mem_ops fresh) bio CTRL_FLUSH of
                None \<Rightarrow> None
              | Some (Inl c) \<Rightarrow> Some (Inl c)
              | Some (Inr (n, bio)) \<Rightarrow>
                  if n \<noteq> 1 then Some (Inr None)
                  else
                    map_option (\<lambda>r. bindO r (\<lambda>(_, bio).
                      let bufferPtr = buf (next_bio bio)
                      in case fresh (bm_length bufferPtr + 1) of None \<Rightarrow> Inr None
                         | Some b64text \<Rightarrow>
                             bindO (buf_read (block (next_bio bio)) (bm_off bufferPtr) (bm_length bufferPtr)) (\<lambda>s.
                             bindO (buf_write b64text 0 s) (\<lambda>b64text.
                             bindO (buf_write b64text (bm_length bufferPtr) [0]) (\<lambda>b64text. Inr (Some b64text))))))
                    (b64_ctrl bufsz (mem_ops fresh) bio C_GET_BUF_MEM_PTR))"

subsection \<open>The text form of messages\<close>

text \<open>\<open>strlen\<close> of a buffer, or of the null pointer.\<close>

definition strlen :: "bytes option \<Rightarrow> nat outcome" where
  "strlen p = (case p of None \<Rightarrow> Inl NullDeref
     | Some s \<Rightarrow> if 0 \<in> set s then Inr (length (takeWhile (\<lambda>c. c \<noteq> 0) s)) else Inl OutOfBounds)"

definition bf_message_to_string ::
  "nat \<Rightarrow> memory \<Rightarrow> ('par, 'g1, 'g2, 'gt, 'pp) lib \<Rightarrow> (nat \<Rightarrow> bytes) \<Rightarrow>
     ('par, 'g1, 'pp) BFPublicParameters \<Rightarrow> 'g1 BFMessage \<Rightarrow> (nat \<times> bytes option) outcome option"
where
  "bf_message_to_string bufsz fresh L malloc params msg =
     (case bf_message_to_bytes L malloc params msg of
        Inl c \<Rightarrow> Some (Inl c)
      | Inr byteBuf \<Rightarrow>
          map_option (\<lambda>r. bindO r (\<lambda>out. bindO (strlen out) (\<lambda>n. Inr (n, out))))
            (base64_encode bufsz fresh byteBuf))"

definition bf_message_from_string ::
  "nat \<Rightarrow> memory \<Rightarrow> ('par, 'g1, 'g2, 'gt, 'pp) lib \<Rightarrow> bytes \<Rightarrow> ('par, 'g1, 'pp) BFPublicParameters \<Rightarrow>
     'g1 BFMessage \<Rightarrow> (bool \<times> 'g1 BFMessage) outcome option"
where
  "bf_message_from_string bufsz fresh L inp params msg =
     map_option (\<lambda>r. bindO r (\<lambda>(byteBuf, blen).
       case byteBuf of None \<Rightarrow> Inl NullDeref | Some byteBuf \<Rightarrow> bf_message_from_bytes L byteBuf params msg))
     (base64_decode bufsz fresh inp)"

text \<open>\<open>bf_message_to_file\<close>: what \<open>fprintf (out, "%s", str)\<close> writes.\<close>

definition bf_message_to_file ::
  "nat \<Rightarrow> memory \<Rightarrow> ('par, 'g1, 'g2, 'gt, 'pp) lib \<Rightarrow> (nat \<Rightarrow> bytes) \<Rightarrow>
     ('par, 'g1, 'pp) BFPublicParameters \<Rightarrow> 'g1 BFMessage \<Rightarrow> string outcome option"
where
  "bf_message_to_file bufsz fresh L malloc params msg =
     map_option (\<lambda>r. bindO r (\<lambda>(n, str).
       case str of None \<Rightarrow> Inl NullDeref | Some str \<Rightarrow> Inr (c_string (bytes_text str))))
     (bf_message_to_string bufsz fresh L malloc params msg)"

definition bf_message_from_file ::
  "nat \<Rightarrow> memory \<Rightarrow> ('par, 'g1, 'g2, 'gt, 'pp) lib \<Rightarrow> FILE \<Rightarrow> ('par, 'g1, 'pp) BFPublicParameters \<Rightarrow>
     'g1 BFMessage \<Rightarrow> (bool \<times> 'g1 BFMessage) outcome option"
where
  "bf_message_from_file bufsz fresh L inp params msg =
     (let inp = fseek_end inp; len = ftell inp; inp = fseek_set inp 0
      in if fresh (len + 1) = None then Some (Inr (False, msg))
         else
           let (buf, inp) = fread len inp
           in bf_message_from_string bufsz fresh L (char_bytes (c_string buf)) params msg)"

subsection \<open>The lines of an encoding\<close>

lemma text_le_lines:
  assumes "strip_nl T = b64_text False f"
  shows "4 * ((length f + 2) div 3) \<le> length T" and "length f \<le> length T"
    and "nl_char \<in> set T \<Longrightarrow> length f < length T"
proof -
  have e: "length (strip_nl T) = 4 * ((length f + 2) div 3)" using assms by (simp add: length_b64_text)
  have le: "length (strip_nl T) \<le> length T" by (simp add: strip_nl_def)
  have f: "length f \<le> 4 * ((length f + 2) div 3)" by linarith
  show "4 * ((length f + 2) div 3) \<le> length T" using e le by simp
  show "length f \<le> length T" using e le f by linarith
  assume "nl_char \<in> set T"
  then have "length (strip_nl T) < length T"
    by (auto simp: strip_nl_def intro: length_filter_less)
  then show "length f < length T" using e f by linarith
qed

lemma decode_buffer_fits:
  assumes "strip_nl T = b64_text False f"
  shows "length f \<le> length T * 3 div 4"
proof -
  have "length f \<le> 3 * ((length f + 2) div 3)" by linarith
  moreover have "4 * (3 * ((length f + 2) div 3)) \<le> length T * 3" using text_le_lines(1) [OF assms] by linarith
  ultimately show ?thesis by linarith
qed

lemma first_line_newline:
  assumes "f \<noteq> []"
  shows "nl_char \<in> set (take 1024 (b64_lines False False f))"
proof -
  have "length (b64_line False False (take 48 f)) \<le> 4 * ((length (take 48 f) + 2) div 3) + 1"
    by (rule length_b64_line)
  moreover have "(length (take 48 f) + 2) div 3 \<le> 16" by simp
  ultimately have "take 1024 (b64_lines False False f) =
      b64_line False False (take 48 f) @ take (1024 - length (b64_line False False (take 48 f))) (b64_lines False False (drop 48 f))"
    using assms by (subst b64_lines.simps) simp
  then show ?thesis by (simp add: b64_line_def)
qed

lemma zero_not_plain: "\<not> plain_char False 0"
proof -
  have "conv_ascii2bin 0 (ascii2bin False) = B64_ERROR" by code_simp
  then show ?thesis by (simp add: plain_char_def)
qed

lemma lines_no_zero: "0 \<notin> set (b64_lines False False f)"
proof
  assume z: "0 \<in> set (b64_lines False False f)"
  have "0 \<noteq> nl_char" by simp
  then have "0 \<in> set (strip_nl (b64_lines False False f))" using z by (simp add: strip_nl_def)
  then show False
    using b64_text_plain zero_not_plain by (simp only: strip_nl_lines) blast
qed

lemma limit_small: "n \<le> LIMIT_BEFORE_EXPANSION \<Longrightarrow> n < 2 ^ 31"
  by (simp add: LIMIT_BEFORE_EXPANSION_def)

subsection \<open>Encoding\<close>

lemma get_mem_ptr:
  assumes "mem_inv b" and "\<not> rdonly b"
  shows "\<exists>b'. mem_ctrl b C_GET_BUF_MEM_PTR = Inr (1, b') \<and>
    buf_read (block b') (bm_off (buf b')) (bm_length (buf b')) = Inr (pending b) \<and>
    bm_length (buf b') = length (pending b)"
proof -
  obtain b' where b': "mem_buf_sync b = Inr b'" "mem_inv b'" "pending b' = pending b"
    "bm_off (readp b') = 0" "\<not> rdonly b'" "buf b' = (buf b)\<lparr>bm_length := bm_length (readp b)\<rparr>"
    "bm_length (readp b') = bm_length (readp b)"
    using mem_buf_sync_ok [OF assms] by blast
  have "length (pending b) = bm_length (readp b)"
    using length_pending [OF assms(1)] assms(2) by (simp add: read_buf_def)
  moreover have "pending b = take (bm_length (readp b)) (block b')"
    using b'(3-7) by (simp add: pending_def read_buf_def)
  moreover have "bm_off (buf b') = 0" "bm_length (readp b) \<le> length (block b')"
    using b'(2,4-7) by (simp_all add: mem_inv_def)
  ultimately show ?thesis
    using b'(1,6) assms(2) by (simp add: mem_ctrl_def buf_read_def)
qed

lemma base64_encode_eq:
  assumes fresh: "good_memory fresh" "\<And>n. fresh n \<noteq> None" and m: "m \<noteq> []" and size: "1430 \<le> bufsz"
    and len: "length (b64_lines False False m) \<le> LIMIT_BEFORE_EXPANSION"
  shows "base64_encode bufsz fresh m = Some (Inr (Some (b64_lines False False m @ [0])))"
proof -
  define T where "T = b64_lines False False m"
  have "length m \<le> length T"
    using text_le_lines(2) [OF strip_nl_lines] by (simp add: T_def)
  then have int: "int_of_size (length m) = int (length m)"
    using limit_small [OF len] by (intro int_of_size_small) (simp add: T_def)
  obtain b1 where b1: "b64_write bufsz (mem_ops fresh) (b64_new mem_new) (Some m) = Inr (int (length m), b1)"
    "mem_sink.writing fresh [] m b1"
  proof -
    have new: "encode (b64_new mem_new) \<noteq> B64_ENCODE" "\<not> flag_no_nl (b64_new mem_new)"
      "length (enc_data (base64 (b64_new mem_new))) = 80" "pending (next_bio (b64_new mem_new)) = []"
      "mem_inv (next_bio (b64_new mem_new))" "\<not> rdonly (next_bio (b64_new mem_new))"
      by (simp_all add: b64_new_def EVP_ENCODE_CTX_new_def) (simp add: mem_new_def)
    have "\<exists>b1. b64_write bufsz (mem_ops fresh) (b64_new mem_new) (Some m) = Inr (int (length m), b1) \<and>
        mem_sink.writing fresh (pending (next_bio (b64_new mem_new))) m b1"
      by (rule mem_sink.write_first) (use new fresh m size len in auto)
    then show thesis using that new(4) by auto
  qed
  obtain b2 where b2: "b64_flush bufsz (mem_ops fresh) b1 = Some (Inr (1, b2))" "mem_inv (next_bio b2)"
    "\<not> rdonly (next_bio b2)" "pending (next_bio b2) = T"
    using mem_sink.flush_writing [OF b1(2) size] len by (auto simp: T_def)
  obtain nx where nx: "mem_ctrl (next_bio b2) C_GET_BUF_MEM_PTR = Inr (1, nx)"
    "buf_read (block nx) (bm_off (buf nx)) (bm_length (buf nx)) = Inr T" "bm_length (buf nx) = length T"
    using get_mem_ptr [OF b2(2,3)] b2(4) by auto
  obtain new where new: "fresh (length T + 1) = Some new" using fresh(2) by blast
  then have "length new = length T + 1" using fresh(1) by (simp add: good_memory_def)
  then have "base64_encode bufsz fresh m = Some (Inr (Some (T @ [0])))"
    using m int b1(1) b2(1) nx new
    by (simp add: base64_encode_def BIO_write_def buf_read_def b64_ctrl_def next_ctrl_def mem_ops_def Let_def)
  then show ?thesis by (simp add: T_def)
qed

subsection \<open>Decoding\<close>

text \<open>The filter that \<open>base64_decode\<close> reads from.\<close>

definition decoder :: "bytes \<Rightarrow> MEM_BIO B64_BIO" where
  "decoder s = b64_new (BIO_new_mem_buf s)"

lemma decoder_source:
  "ready (decoder s)" "mem_inv (next_bio (decoder s)) \<and> bio_num (next_bio (decoder s)) = 0"
  "pending (next_bio (decoder s)) = s"
  by (simp_all add: decoder_def ready_new) (simp add: BIO_new_mem_buf_def Let_def)

lemma base64_decode_run:
  assumes "good_memory fresh" and "s \<noteq> []" and "length s < 2 ^ 31"
    and "fresh (length s * 3 div 4) = Some new"
    and "b64_read bufsz (mem_ops fresh) (decoder s) (length s) = Some (Inr (int (length out), out, b'))"
    and "length out \<le> length s * 3 div 4"
  shows "base64_decode bufsz fresh s = Some (Inr (Some (out @ drop (length out) new), Some (length out)))"
proof -
  have "length new = length s * 3 div 4" using assms(1,4) by (simp add: good_memory_def)
  moreover have "int_of_size (length s) = int (length s)" by (rule int_of_size_small) (rule assms(3))
  moreover have "length s * 3 div 4 \<le> length s" by linarith
  then have "length out < 2 ^ 64" using assms(3,6) by simp
  ultimately show ?thesis
    using assms(2-6) by (simp add: base64_decode_def BIO_read_def decoder_def Let_def)
qed

lemma base64_decode_text:
  assumes "good_memory fresh" and "fresh (length T * 3 div 4) = Some new" and "f \<noteq> []"
    and "strip_nl T = b64_text False f" and "nl_char \<in> set (take 1024 T)" and "length T < 2 ^ 31" and "1430 \<le> bufsz"
  shows "base64_decode bufsz fresh T = Some (Inr (Some (f @ drop (length f) new), Some (length f)))"
proof -
  have nl: "nl_char \<in> set T" using assms(5) by (rule in_set_takeD)
  then have "T \<noteq> []" by auto
  moreover obtain b' where "b64_read bufsz (mem_ops fresh) (decoder T) (length T) =
      Some (Inr (int (length f), f, b'))"
    using mem_source.read_text [OF decoder_source(1,2) assms(3), of "length T" T bufsz fresh]
      text_le_lines(3) [OF assms(4) nl] assms(4,5,7)
    by (auto simp: decoder_source)
  ultimately show ?thesis
    using base64_decode_run [OF assms(1) _ assms(6,2)] decode_buffer_fits [OF assms(4)] by blast
qed

lemma base64_decode_lines:
  assumes "good_memory fresh" and "fresh (length (b64_lines False False f) * 3 div 4) = Some new"
    and "f \<noteq> []" and "length (b64_lines False False f) < 2 ^ 31" and "1430 \<le> bufsz"
  shows "base64_decode bufsz fresh (b64_lines False False f) =
    Some (Inr (Some (f @ drop (length f) new), Some (length f)))"
  by (rule base64_decode_text [OF assms(1-3) strip_nl_lines first_line_newline assms(4,5)]) (rule assms(3))

subsection \<open>Messages\<close>

lemma bf_message_to_string_eq:
  assumes "good_memory fresh" and "\<And>n. fresh n \<noteq> None" and "1430 \<le> bufsz"
    and "sendable L params msg" and "\<And>n. length (malloc n) = n"
    and "length (b64_lines False False (wire L params msg)) \<le> LIMIT_BEFORE_EXPANSION"
  shows "bf_message_to_string bufsz fresh L malloc params msg =
    Some (Inr (length (b64_lines False False (wire L params msg)),
      Some (b64_lines False False (wire L params msg) @ [0])))"
proof -
  have "bf_message_to_bytes L malloc params msg = Inr (wire L params msg)"
    using bf_message_to_bytes_eq [of L params msg malloc] assms(4,5) by (simp add: sendable_def)
  moreover have "wire L params msg \<noteq> []" by (simp add: wire_def)
  moreover have "takeWhile (\<lambda>c. c \<noteq> 0) (b64_lines False False f @ [0]) = b64_lines False False f" for f
    using lines_no_zero by (subst takeWhile_append2) auto
  ultimately show ?thesis
    using base64_encode_eq [OF assms(1,2) _ assms(3,6)]
    by (simp add: bf_message_to_string_def strlen_def)
qed

lemma bf_message_from_lines:
  assumes "good_memory fresh" and "\<And>n. fresh n \<noteq> None" and "sendable L params msg"
    and "length (b64_lines False False (wire L params msg)) \<le> LIMIT_BEFORE_EXPANSION" and "1430 \<le> bufsz"
  shows "bf_message_from_string bufsz fresh L (b64_lines False False (wire L params msg)) params msg0 =
    Some (Inr (True, msg))"
proof -
  obtain new where new: "fresh (length (b64_lines False False (wire L params msg)) * 3 div 4) = Some new"
    using assms(2) by blast
  have "wire L params msg \<noteq> []" by (simp add: wire_def)
  from base64_decode_lines [OF assms(1) new this limit_small [OF assms(4)] assms(5)] bf_message_from_wire [OF assms(3)]
  show ?thesis by (simp add: bf_message_from_string_def)
qed

lemma base64_decode_no_line:
  assumes "good_memory fresh" and "fresh (length s * 3 div 4) = Some new" and "s \<noteq> []"
    and "nl_char \<notin> set s" and "length s < 2 ^ 31"
  shows "base64_decode bufsz fresh s = Some (Inr (Some new, Some 0))"
proof -
  obtain b' where "b64_read bufsz (mem_ops fresh) (decoder s) (length s) = Some (Inr (int (length ([] :: bytes)), [], b'))"
    using mem_source.read_no_line [OF decoder_source(1,2), of s "length s" bufsz fresh] assms(3,4)
    by (auto simp: decoder_source)
  from base64_decode_run [OF assms(1,3,5,2) this] show ?thesis by simp
qed

lemma c_string_lines: "c_string (bytes_text (b64_lines False False f @ [0])) = bytes_text (b64_lines False False f)"
proof -
  have "char_of (unat c) \<noteq> NUL" if "c \<noteq> (0 :: byte)" for c
  proof
    assume "char_of (unat c) = NUL"
    then have "of_char (char_of (unat c) :: char) = (of_char NUL :: nat)" by (rule arg_cong)
    moreover have "of_char NUL = (0 :: nat)" by (simp add: NUL_def)
    ultimately have "unat c = 0" using unat_byte_less [of c] by simp
    then show False using that by (simp add: unat_eq_0)
  qed
  then have "NUL \<notin> set (map (\<lambda>c. char_of (unat c)) (b64_lines False False f))"
    using lines_no_zero [of f] by (metis (no_types, lifting) image_iff list.set_map)
  moreover have "char_of (unat (0 :: byte)) = NUL" by (simp add: NUL_def) code_simp
  ultimately show ?thesis
    unfolding c_string_def bytes_text_def map_append
    by (subst takeWhile_append2) (simp_all, metis (no_types, lifting) image_eqI)
qed

lemma c_string_idem: "c_string (c_string s) = c_string s"
  by (simp add: c_string_def takeWhile_idem)

text \<open>The allocator of the examples.\<close>

definition sevens :: memory where
  "sevens n = Some (replicate n 7)"

lemma sevens_simps [simp]: "good_memory sevens" "sevens n \<noteq> None"
  by (simp_all add: good_memory_def sevens_def)

subsection \<open>Properties\<close>

text \<open>
  C16: \<open>base64_decode\<close> returns the bytes that \<open>base64_encode\<close> took. The encoding is the text in lines
  of 64 characters with no zero byte in it; decoding it stores the length, and fills the start of a
  buffer of three bytes for four characters without running past it.
\<close>

theorem base64_roundtrip:
  assumes "good_memory fresh" and "\<And>n. fresh n \<noteq> None" and "m \<noteq> []" and "1430 \<le> bufsz"
    and "length (b64_lines False False m) \<le> LIMIT_BEFORE_EXPANSION"
  shows "\<exists>t buf. base64_encode bufsz fresh m = Some (Inr (Some (t @ [0]))) \<and> t = b64_lines False False m \<and>
    0 \<notin> set t \<and> base64_decode bufsz fresh t = Some (Inr (Some buf, Some (length m))) \<and>
    take (length m) buf = m \<and> length buf = length t * 3 div 4"
proof -
  obtain new where new: "fresh (length (b64_lines False False m) * 3 div 4) = Some new"
    using assms(2) by blast
  then have "length new = length (b64_lines False False m) * 3 div 4"
    using assms(1) by (simp add: good_memory_def)
  then show ?thesis
    using base64_encode_eq [OF assms] base64_decode_lines [OF assms(1) new assms(3) limit_small [OF assms(5)] assms(4)]
      lines_no_zero decode_buffer_fits [OF strip_nl_lines [of False False m]] by auto
qed

theorem base64_roundtrip_witness:
  "\<exists>t buf. base64_encode 1502 sevens [1, 2, 3, 4] = Some (Inr (Some (t @ [0]))) \<and>
    t = b64_lines False False [1, 2, 3, 4] \<and> 0 \<notin> set t \<and>
    base64_decode 1502 sevens t = Some (Inr (Some buf, Some (length [1, 2, 3, 4 :: byte]))) \<and>
    take (length [1, 2, 3, 4 :: byte]) buf = [1, 2, 3, 4] \<and> length buf = length t * 3 div 4"
proof -
  have "b64_lines False False [1, 2, 3, 4] = [65, 81, 73, 68, 66, 65, 61, 61, 10]" by code_simp
  then show ?thesis
    by (intro base64_roundtrip) (simp_all add: LIMIT_BEFORE_EXPANSION_def)
qed

text \<open>
  C17: \<open>base64_decode\<close> on any string below two gigabytes returns and stays inside its memory: the characters
  it reads, \<open>tmp\<close>, the decoder's \<open>enc_data\<close>, \<open>buf\<close> (of any size from 1430 bytes on; what blocks with padding and blocks that are
  not base64 store there is counted), and the result. The length that it stores is one that its result buffer has, and behind that
  length the buffer is what \<open>malloc\<close> returned. It returns the null pointer, with nothing stored, exactly when
  the string is empty or there is no memory.
\<close>

theorem base64_decode_safe:
  assumes "good_memory fresh" and "length s < 2 ^ 31" and "1430 \<le> bufsz"
  shows "(\<exists>buffer n new. base64_decode bufsz fresh s = Some (Inr (Some buffer, Some n)) \<and>
      length buffer = length s * 3 div 4 \<and> n \<le> length buffer \<and> s \<noteq> [] \<and>
      fresh (length s * 3 div 4) = Some new \<and> drop n buffer = drop n new) \<or>
    base64_decode bufsz fresh s = Some (Inr (None, None)) \<and>
      (s = [] \<or> fresh (length s * 3 div 4) = None)"
proof (cases "s = [] \<or> fresh (length s * 3 div 4) = None")
  case True
  then show ?thesis using assms(2) by (auto simp: base64_decode_def Let_def)
next
  case False
  then obtain new where new: "fresh (length s * 3 div 4) = Some new" by auto
  obtain out b' where r: "b64_read bufsz (mem_ops fresh) (decoder s) (length s) = Some (Inr (int (length out), out, b'))"
    "4 * length out \<le> 3 * length s"
    using mem_source.b64_read_safe [OF decoder_source(1,2), of s "length s" bufsz fresh] False assms(3)
    by (auto simp: decoder_source)
  have out: "length out \<le> length s * 3 div 4" using r(2) by linarith
  have "length new = length s * 3 div 4" using new assms(1) by (simp add: good_memory_def)
  then show ?thesis
    using base64_decode_run [OF assms(1) _ assms(2) new r(1) out] False out new by auto
qed

text \<open>A character that is not base64, a letter, a line feed and padding, into three bytes of memory.\<close>

theorem base64_decode_safe_witness:
  "\<exists>buffer n. base64_decode 1502 sevens [33, 65, 10, 61] = Some (Inr (Some buffer, Some n)) \<and>
    length buffer = 3 \<and> n \<le> 3 \<and> drop n buffer = drop n [7, 7, 7]"
proof -
  have "sevens 3 = Some [7, 7, 7]" by (simp add: sevens_def numeral_3_eq_3)
  then show ?thesis using base64_decode_safe [of sevens "[33, 65, 10, 61]" 1502] by auto
qed

text \<open>
  Line feeds do matter to \<open>base64_decode\<close>. The characters of an encoding are decoded when their
  lines are laid out in any way with a line feed among the first 1024 characters; without a line
  feed nothing is decoded, the stored length is 0 and the buffer is what \<open>malloc\<close> left in it.
\<close>

theorem base64_decode_needs_newline:
  assumes "good_memory fresh" and "fresh (length s * 3 div 4) = Some new" and "f \<noteq> []"
    and "strip_nl s = b64_text False f" and "length s < 2 ^ 31" and "1430 \<le> bufsz"
  shows "(nl_char \<in> set (take 1024 s) \<longrightarrow>
      base64_decode bufsz fresh s = Some (Inr (Some (f @ drop (length f) new), Some (length f)))) \<and>
    (nl_char \<notin> set s \<longrightarrow> base64_decode bufsz fresh s = Some (Inr (Some new, Some 0)))"
proof -
  have "s \<noteq> []" using text_le_lines(2) [OF assms(4)] assms(3) by auto
  then show ?thesis
    using base64_decode_text [OF assms(1-4) _ assms(5,6)] base64_decode_no_line [OF assms(1,2) _ _ assms(5)]
    by blast
qed

theorem base64_decode_needs_newline_witness:
  "base64_decode 1502 sevens [65, 81, 10, 73, 68] = Some (Inr (Some [1, 2, 3], Some 3)) \<and>
   base64_decode 1502 sevens [65, 81, 73, 68] = Some (Inr (Some [7, 7, 7], Some 0))"
proof -
  have new: "sevens 3 = Some [7, 7, 7]" by (simp add: sevens_def numeral_3_eq_3)
  have e: "[65, 81, 73, 68] = b64_text False [1, 2, 3]" by code_simp
  have s: "strip_nl [65, 81, 10, 73, 68] = b64_text False [1, 2, 3]" "strip_nl [65, 81, 73, 68] = b64_text False [1, 2, 3]"
    unfolding e [symmetric] by (simp_all add: strip_nl_def)
  show ?thesis
    using base64_decode_needs_newline [OF _ _ _ s(1), of sevens "[7, 7, 7]" 1502]
      base64_decode_needs_newline [OF _ _ _ s(2), of sevens "[7, 7, 7]" 1502]
    by (simp add: new)
qed

text \<open>
  C12: a message is read back from its text, through a string and through a file.
\<close>

theorem bf_message_text_roundtrip:
  assumes "good_memory fresh" and "\<And>n. fresh n \<noteq> None" and "1430 \<le> bufsz" and "\<And>n. length (malloc n) = n"
    and "wire_laws L (pairing params)" and "msg_wf params msg" and "\<not> g1_is0 L (pairing params) (msg_U msg)"
    and "length (b64_lines False False (wire L params msg)) \<le> LIMIT_BEFORE_EXPANSION"
  shows "\<exists>t. bf_message_to_string bufsz fresh L malloc params msg = Some (Inr (length t, Some (t @ [0]))) \<and>
    bf_message_from_string bufsz fresh L t params msg0 = Some (Inr (True, msg)) \<and>
    bf_message_to_file bufsz fresh L malloc params msg = Some (Inr (bytes_text t)) \<and>
    bf_message_from_file bufsz fresh L (stream_of (bytes_text t)) params msg0 = Some (Inr (True, msg))"
proof -
  define t where "t = b64_lines False False (wire L params msg)"
  have "length (wire L params msg) \<le> length t"
    using text_le_lines(2) [OF strip_nl_lines] by (simp add: t_def)
  then have "msg_length msg < 2 ^ 64"
    using limit_small [OF assms(8)] length_wire [OF assms(5,6)] by (simp add: t_def)
  then have ok: "sendable L params msg" using assms(5-7) by (simp add: sendable_def)
  have to: "bf_message_to_string bufsz fresh L malloc params msg = Some (Inr (length t, Some (t @ [0])))"
    unfolding t_def by (rule bf_message_to_string_eq [OF assms(1-3) ok assms(4,8)])
  have read: "bf_message_from_string bufsz fresh L t params msg0 = Some (Inr (True, msg))"
    unfolding t_def by (rule bf_message_from_lines [OF assms(1,2) ok assms(8,3)])
  have str: "c_string (bytes_text (t @ [0])) = bytes_text t" unfolding t_def by (rule c_string_lines)
  then have "c_string (bytes_text t) = bytes_text t" using c_string_idem by metis
  then have "bf_message_from_file bufsz fresh L (stream_of (bytes_text t)) params msg0 = Some (Inr (True, msg))"
    using read assms(2)
    by (simp add: bf_message_from_file_def Let_def stream_of_def fseek_end_def fseek_set_def ftell_def fread_def)
  then show ?thesis using to read str by (auto simp: bf_message_to_file_def)
qed

theorem bf_message_text_roundtrip_witness:
  "\<exists>t. bf_message_to_string 1502 sevens sample_lib (\<lambda>n. replicate n 0) sample_params
      \<lparr>msg_length = 2, msg_U = 9, msg_V = replicate 20 1, msg_W = [5, 6]\<rparr> = Some (Inr (length t, Some (t @ [0]))) \<and>
    bf_message_from_string 1502 sevens sample_lib t sample_params
      \<lparr>msg_length = 0, msg_U = 0, msg_V = [], msg_W = []\<rparr> =
      Some (Inr (True, \<lparr>msg_length = 2, msg_U = 9, msg_V = replicate 20 1, msg_W = [5, 6]\<rparr>)) \<and>
    bf_message_to_file 1502 sevens sample_lib (\<lambda>n. replicate n 0) sample_params
      \<lparr>msg_length = 2, msg_U = 9, msg_V = replicate 20 1, msg_W = [5, 6]\<rparr> = Some (Inr (bytes_text t)) \<and>
    bf_message_from_file 1502 sevens sample_lib (stream_of (bytes_text t)) sample_params
      \<lparr>msg_length = 0, msg_U = 0, msg_V = [], msg_W = []\<rparr> =
      Some (Inr (True, \<lparr>msg_length = 2, msg_U = 9, msg_V = replicate 20 1, msg_W = [5, 6]\<rparr>))"
proof (rule bf_message_text_roundtrip [OF _ _ _ _ sample_wire_laws])
  show "length (b64_lines False False (wire sample_lib sample_params
      \<lparr>msg_length = 2, msg_U = 9, msg_V = replicate 20 1, msg_W = [5, 6]\<rparr>)) \<le> LIMIT_BEFORE_EXPANSION"
  proof -
    have w: "length (wire sample_lib sample_params \<lparr>msg_length = 2, msg_U = 9, msg_V = replicate 20 1, msg_W = [5, 6]\<rparr>)
        = 9 + g1_length sample_lib (pairing sample_params) + hashlen (security sample_params) + 2"
      by (subst length_wire [OF sample_wire_laws]) (simp_all add: msg_wf_def)
    show ?thesis
      using length_b64_line [of False False "wire sample_lib sample_params
        \<lparr>msg_length = 2, msg_U = 9, msg_V = replicate 20 1, msg_W = [5, 6]\<rparr>"] w
      by (subst b64_lines_short) (auto simp: LIMIT_BEFORE_EXPANSION_def)
  qed
qed (simp_all add: msg_wf_def)

text \<open>
  \<open>bf_message_from_string\<close> does not look at what \<open>base64_decode\<close> returned: the empty string makes
  it read through the null pointer, and a string without a line feed is "decoded" to whatever the
  allocated buffer held before.
\<close>

theorem bf_message_from_string_unchecked:
  assumes "good_memory fresh" and "fresh (length s * 3 div 4) = Some new" and "nl_char \<notin> set s"
    and "length s < 2 ^ 31"
  shows "bf_message_from_string bufsz fresh L s params msg =
    (if s = [] then Some (Inl NullDeref) else Some (bf_message_from_bytes L new params msg))"
  using base64_decode_no_line [OF assms(1,2) _ assms(3,4)]
  by (simp add: bf_message_from_string_def) (simp add: base64_decode_def)

theorem bf_message_from_string_unchecked_witness:
  "bf_message_from_string 1502 sevens sample_lib [65, 81, 73, 68] sample_params
      \<lparr>msg_length = 0, msg_U = 0, msg_V = [], msg_W = []\<rparr> = Some (Inl OutOfBounds)"
  using bf_message_from_string_unchecked [of sevens "[65, 81, 73, 68]" "[7, 7, 7]" 1502 sample_lib sample_params
      "\<lparr>msg_length = 0, msg_U = 0, msg_V = [], msg_W = []\<rparr>"]
  by (simp add: bf_message_from_bytes_def read_size_def buf_read_def SIZEOF_SIZE_T_def Let_def)
    (simp add: sevens_def numeral_3_eq_3)

end
