(* ===== verification/Sha512.thy ===== *)
theory Sha512
  imports Prelude
begin

unbundle bit_operations_syntax

text \<open>
  \<open>crypto/sha/sha512.c\<close> of the OpenSSL tree that bfibe's Android build compiles: the context, the
  three versions of the block function (for i386, for a small footprint, and unrolled), the
  collector, the padding and the one-shot functions. The version compiled in is the parameter
  \<open>block_impl\<close>; \<open>size_t\<close> has 64 bits, bytes are read big-endian (\<open>PULL64\<close>). The struct is declared
  in a header that is not in the tree; its fields and their sizes are those the code uses
  (\<open>h[8]\<close>, the counters \<open>Nl\<close> and \<open>Nh\<close>, the union \<open>u\<close> of \<open>SHA_LBLOCK = 16\<close> words, \<open>num\<close>, \<open>md_len\<close>).
\<close>

subsection \<open>Macros\<close>

text \<open>The macro that makes a constant 64 bits wide.\<close>

definition U64 :: "64 word \<Rightarrow> 64 word" where
  "U64 c = c"

definition K512 :: "64 word list" where
  "K512 = [
     U64 0x428a2f98d728ae22, U64 0x7137449123ef65cd, U64 0xb5c0fbcfec4d3b2f,
     U64 0xe9b5dba58189dbbc, U64 0x3956c25bf348b538, U64 0x59f111f1b605d019,
     U64 0x923f82a4af194f9b, U64 0xab1c5ed5da6d8118, U64 0xd807aa98a3030242,
     U64 0x12835b0145706fbe, U64 0x243185be4ee4b28c, U64 0x550c7dc3d5ffb4e2,
     U64 0x72be5d74f27b896f, U64 0x80deb1fe3b1696b1, U64 0x9bdc06a725c71235,
     U64 0xc19bf174cf692694, U64 0xe49b69c19ef14ad2, U64 0xefbe4786384f25e3,
     U64 0x0fc19dc68b8cd5b5, U64 0x240ca1cc77ac9c65, U64 0x2de92c6f592b0275,
     U64 0x4a7484aa6ea6e483, U64 0x5cb0a9dcbd41fbd4, U64 0x76f988da831153b5,
     U64 0x983e5152ee66dfab, U64 0xa831c66d2db43210, U64 0xb00327c898fb213f,
     U64 0xbf597fc7beef0ee4, U64 0xc6e00bf33da88fc2, U64 0xd5a79147930aa725,
     U64 0x06ca6351e003826f, U64 0x142929670a0e6e70, U64 0x27b70a8546d22ffc,
     U64 0x2e1b21385c26c926, U64 0x4d2c6dfc5ac42aed, U64 0x53380d139d95b3df,
     U64 0x650a73548baf63de, U64 0x766a0abb3c77b2a8, U64 0x81c2c92e47edaee6,
     U64 0x92722c851482353b, U64 0xa2bfe8a14cf10364, U64 0xa81a664bbc423001,
     U64 0xc24b8b70d0f89791, U64 0xc76c51a30654be30, U64 0xd192e819d6ef5218,
     U64 0xd69906245565a910, U64 0xf40e35855771202a, U64 0x106aa07032bbd1b8,
     U64 0x19a4c116b8d2d0c8, U64 0x1e376c085141ab53, U64 0x2748774cdf8eeb99,
     U64 0x34b0bcb5e19b48a8, U64 0x391c0cb3c5c95a63, U64 0x4ed8aa4ae3418acb,
     U64 0x5b9cca4f7763e373, U64 0x682e6ff3d6b2b8a3, U64 0x748f82ee5defb2fc,
     U64 0x78a5636f43172f60, U64 0x84c87814a1f0ab72, U64 0x8cc702081a6439ec,
     U64 0x90befffa23631e28, U64 0xa4506cebde82bde9, U64 0xbef9a3f7b2c67915,
     U64 0xc67178f2e372532b, U64 0xca273eceea26619c, U64 0xd186b8c721c0c207,
     U64 0xeada7dd6cde0eb1e, U64 0xf57d4f7fee6ed178, U64 0x06f067aa72176fba,
     U64 0x0a637dc5a2c898a6, U64 0x113f9804bef90dae, U64 0x1b710b35131c471b,
     U64 0x28db77f523047d84, U64 0x32caab7b40c72493, U64 0x3c9ebe0a15c9bebc,
     U64 0x431d67c49c100d4c, U64 0x4cc5d4becb3e42b6, U64 0x597f299cfc657e2a,
     U64 0x5fcb6fab3ad6faec, U64 0x6c44198c4a475817]"

text \<open>\<open>PULL64 (W[i])\<close> on the bytes of the block.\<close>

definition B64 :: "bytes \<Rightarrow> nat \<Rightarrow> 64 word" where
  "B64 x j = push_bit ((7 - j) * 8) (ucast (x ! j))"

definition PULL64 :: "bytes \<Rightarrow> 64 word" where
  "PULL64 x = B64 x 0 OR B64 x 1 OR B64 x 2 OR B64 x 3 OR B64 x 4 OR B64 x 5 OR B64 x 6 OR B64 x 7"

definition ROTR :: "64 word \<Rightarrow> nat \<Rightarrow> 64 word" where
  "ROTR x s = drop_bit s x OR push_bit (64 - s) x"

definition Sigma0 :: "64 word \<Rightarrow> 64 word" where
  "Sigma0 x = ROTR x 28 XOR ROTR x 34 XOR ROTR x 39"

definition Sigma1 :: "64 word \<Rightarrow> 64 word" where
  "Sigma1 x = ROTR x 14 XOR ROTR x 18 XOR ROTR x 41"

definition sigma0 :: "64 word \<Rightarrow> 64 word" where
  "sigma0 x = ROTR x 1 XOR ROTR x 8 XOR drop_bit 7 x"

definition sigma1 :: "64 word \<Rightarrow> 64 word" where
  "sigma1 x = ROTR x 19 XOR ROTR x 61 XOR drop_bit 6 x"

definition Ch :: "64 word \<Rightarrow> 64 word \<Rightarrow> 64 word \<Rightarrow> 64 word" where
  "Ch x y z = (x AND y) XOR (NOT x AND z)"

definition Maj :: "64 word \<Rightarrow> 64 word \<Rightarrow> 64 word \<Rightarrow> 64 word" where
  "Maj x y z = (x AND y) XOR (x AND z) XOR (y AND z)"

subsection \<open>The block function, for a small footprint\<close>

text \<open>The working variables \<open>a, \<dots>, h\<close>, the ring \<open>X\<close> of 16 words and the index of the round.\<close>

type_synonym vars = "64 word \<times> 64 word \<times> 64 word \<times> 64 word \<times> 64 word \<times> 64 word \<times> 64 word \<times> 64 word"

definition W64 :: "bytes \<Rightarrow> nat \<Rightarrow> 64 word" where
  "W64 blk i = PULL64 (drop (8 * i) blk)"

fun small_round :: "nat \<Rightarrow> 64 word \<Rightarrow> vars \<Rightarrow> vars" where
  "small_round i T1 (a, b, c, d, e, f, g, h) =
     (let T1 = T1 + (h + Sigma1 e + Ch e f g + K512 ! i);
          T2 = Sigma0 a + Maj a b c
      in (T1 + T2, a, b, c, d + T1, e, f, g))"

definition small_00_15 :: "bytes \<Rightarrow> nat \<Rightarrow> vars \<times> 64 word list \<Rightarrow> vars \<times> 64 word list" where
  "small_00_15 blk i = (\<lambda>(v, X).
     let T1 = W64 blk i; X = X[i := T1] in (small_round i T1 v, X))"

definition small_16_79 :: "nat \<Rightarrow> vars \<times> 64 word list \<Rightarrow> vars \<times> 64 word list" where
  "small_16_79 i = (\<lambda>(v, X).
     let s0 = sigma0 (X ! ((i + 1) mod 16)); s1 = sigma1 (X ! ((i + 14) mod 16));
         T1 = X ! (i mod 16) + (s0 + s1 + X ! ((i + 9) mod 16));
         X = X[i mod 16 := T1]
     in (small_round i T1 v, X))"

definition load_vars :: "64 word list \<Rightarrow> vars" where
  "load_vars h = (h ! 0, h ! 1, h ! 2, h ! 3, h ! 4, h ! 5, h ! 6, h ! 7)"

fun add_vars :: "64 word list \<Rightarrow> vars \<Rightarrow> 64 word list" where
  "add_vars hs (a, b, c, d, e, f, g, h) =
     [hs ! 0 + a, hs ! 1 + b, hs ! 2 + c, hs ! 3 + d, hs ! 4 + e, hs ! 5 + f, hs ! 6 + g, hs ! 7 + h]"

definition block_small :: "64 word list \<Rightarrow> bytes \<Rightarrow> 64 word list" where
  "block_small hs blk =
     (let s = fold (small_00_15 blk) [0..<16] (load_vars hs, replicate 16 0);
          (v, X) = fold small_16_79 [16..<80] s
      in add_vars hs v)"

subsection \<open>The block function for i386\<close>

text \<open>
  The variables \<open>A\<close> and \<open>E\<close>, the array \<open>X\<close> of 89 words and the pointer \<open>F\<close> into it, which moves down
  by one in each round.
\<close>

definition i386_round :: "nat \<Rightarrow> 64 word \<Rightarrow> 64 word \<times> 64 word \<times> 64 word list \<times> nat \<Rightarrow>
    64 word \<times> 64 word \<times> 64 word list \<times> nat" where
  "i386_round i T = (\<lambda>(A, E, X, F).
     let X = X[F := A]; X = X[F + 4 := E]; X = X[F + 8 := T];
         T = T + (X ! (F + 7) + Sigma1 E + Ch E (X ! (F + 5)) (X ! (F + 6)) + K512 ! i);
         E = X ! (F + 3) + T;
         A = T + Sigma0 A + Maj A (X ! (F + 1)) (X ! (F + 2))
     in (A, E, X, F - 1))"

definition i386_00_15 :: "bytes \<Rightarrow> nat \<Rightarrow> 64 word \<times> 64 word \<times> 64 word list \<times> nat \<Rightarrow>
    64 word \<times> 64 word \<times> 64 word list \<times> nat" where
  "i386_00_15 blk i s = i386_round i (W64 blk i) s"

definition i386_16_79 :: "nat \<Rightarrow> 64 word \<times> 64 word \<times> 64 word list \<times> nat \<Rightarrow>
    64 word \<times> 64 word \<times> 64 word list \<times> nat" where
  "i386_16_79 i = (\<lambda>(A, E, X, F).
     let T = sigma0 (X ! (F + 8 + 16 - 1));
         T = T + sigma1 (X ! (F + 8 + 16 - 14));
         T = T + (X ! (F + 8 + 16) + X ! (F + 8 + 16 - 9))
     in i386_round i T (A, E, X, F))"

definition block_i386 :: "64 word list \<Rightarrow> bytes \<Rightarrow> 64 word list" where
  "block_i386 hs blk =
     (let X = (replicate 89 0)[81 := hs ! 1, 82 := hs ! 2, 83 := hs ! 3, 85 := hs ! 5,
            86 := hs ! 6, 87 := hs ! 7];
          s = fold (i386_00_15 blk) [0..<16] (hs ! 0, hs ! 4, X, 80);
          (A, E, X, F) = fold i386_16_79 [16..<80] s
      in [hs ! 0 + A, hs ! 1 + X ! (F + 1), hs ! 2 + X ! (F + 2), hs ! 3 + X ! (F + 3),
          hs ! 4 + E, hs ! 5 + X ! (F + 5), hs ! 6 + X ! (F + 6), hs ! 7 + X ! (F + 7)])"

subsection \<open>The unrolled block function\<close>

text \<open>
  The variables \<open>a, \<dots>, h\<close> are the list \<open>v\<close>; a macro call names the eight variables that play the
  roles \<open>a, \<dots>, h\<close> in it, by their indices.
\<close>

type_synonym args = "nat \<times> nat \<times> nat \<times> nat \<times> nat \<times> nat \<times> nat \<times> nat"

fun ROUND_00_15 :: "nat \<Rightarrow> args \<Rightarrow> 64 word \<Rightarrow> 64 word list \<Rightarrow> 64 word list" where
  "ROUND_00_15 i (a, b, c, d, e, f, g, h) T1 v =
     (let T1 = T1 + (v ! h + Sigma1 (v ! e) + Ch (v ! e) (v ! f) (v ! g) + K512 ! i);
          v = v[h := Sigma0 (v ! a) + Maj (v ! a) (v ! b) (v ! c)];
          v = v[d := v ! d + T1];
          v = v[h := v ! h + T1]
      in v)"

definition ROUND_16_80 :: "nat \<Rightarrow> nat \<Rightarrow> args \<Rightarrow> 64 word list \<times> 64 word list \<Rightarrow>
    64 word list \<times> 64 word list" where
  "ROUND_16_80 i j args = (\<lambda>(v, X).
     let s0 = sigma0 (X ! ((j + 1) mod 16)); s1 = sigma1 (X ! ((j + 14) mod 16));
         T1 = X ! (j mod 16) + (s0 + s1 + X ! ((j + 9) mod 16));
         X = X[j mod 16 := T1]
     in (ROUND_00_15 (i + j) args T1 v, X))"

text \<open>The arguments of the 16 calls, in order.\<close>

definition round_args :: "args list" where
  "round_args = [
     (0, 1, 2, 3, 4, 5, 6, 7), (7, 0, 1, 2, 3, 4, 5, 6), (6, 7, 0, 1, 2, 3, 4, 5),
     (5, 6, 7, 0, 1, 2, 3, 4), (4, 5, 6, 7, 0, 1, 2, 3), (3, 4, 5, 6, 7, 0, 1, 2),
     (2, 3, 4, 5, 6, 7, 0, 1), (1, 2, 3, 4, 5, 6, 7, 0),
     (0, 1, 2, 3, 4, 5, 6, 7), (7, 0, 1, 2, 3, 4, 5, 6), (6, 7, 0, 1, 2, 3, 4, 5),
     (5, 6, 7, 0, 1, 2, 3, 4), (4, 5, 6, 7, 0, 1, 2, 3), (3, 4, 5, 6, 7, 0, 1, 2),
     (2, 3, 4, 5, 6, 7, 0, 1), (1, 2, 3, 4, 5, 6, 7, 0)]"

definition unrolled_00_15 :: "bytes \<Rightarrow> nat \<Rightarrow> 64 word list \<times> 64 word list \<Rightarrow>
    64 word list \<times> 64 word list" where
  "unrolled_00_15 blk j = (\<lambda>(v, X).
     let T1 = W64 blk j; X = X[j := T1] in (ROUND_00_15 j (round_args ! j) T1 v, X))"

definition unrolled_16 :: "nat \<Rightarrow> 64 word list \<times> 64 word list \<Rightarrow> 64 word list \<times> 64 word list" where
  "unrolled_16 i s = fold (\<lambda>j. ROUND_16_80 i j (round_args ! j)) [0..<16] s"

definition block_unrolled :: "64 word list \<Rightarrow> bytes \<Rightarrow> 64 word list" where
  "block_unrolled hs blk =
     (let s = fold (unrolled_00_15 blk) [0..<16] (map ((!) hs) [0..<8], replicate 16 0);
          (v, X) = fold unrolled_16 [16, 32, 48, 64] s
      in map (\<lambda>k. hs ! k + v ! k) [0..<8])"

subsection \<open>Contexts\<close>

datatype block_impl = Small | I386 | Unrolled

fun block_fn :: "block_impl \<Rightarrow> 64 word list \<Rightarrow> bytes \<Rightarrow> 64 word list" where
  "block_fn Small = block_small"
| "block_fn I386 = block_i386"
| "block_fn Unrolled = block_unrolled"

record SHA512_CTX =
  ctx_h :: "64 word list"
  Nl :: "64 word"
  Nh :: "64 word"
  ctx_u :: bytes
  num :: nat
  md_len :: nat

text \<open>\<open>sha512_block_data_order (ctx, in, num)\<close>: reads \<open>num\<close> blocks of 128 bytes.\<close>

fun sha512_block_data_order :: "block_impl \<Rightarrow> SHA512_CTX \<Rightarrow> bytes \<Rightarrow> nat \<Rightarrow> SHA512_CTX outcome" where
  "sha512_block_data_order b c W 0 = Inr c"
| "sha512_block_data_order b c W (Suc n) =
     (if length W < 128 then Inl OutOfBounds
      else sha512_block_data_order b (c\<lparr>ctx_h := block_fn b (ctx_h c) (take 128 W)\<rparr>) (drop 128 W) n)"

definition sha512_224_init :: "SHA512_CTX \<Rightarrow> SHA512_CTX" where
  "sha512_224_init c = c\<lparr>ctx_h := [
     0x8c3d37c819544da2, 0x73e1996689dcd4d6, 0x1dfab7ae32ff9c82,
     0x679dd514582f9fcf, 0x0f6d2b697bd44da8, 0x77e36f7304c48942,
     0x3f9d85a86a1d36c8, 0x1112e6ad91d692a1],
     Nl := 0, Nh := 0, num := 0, md_len := 28\<rparr>"

definition sha512_256_init :: "SHA512_CTX \<Rightarrow> SHA512_CTX" where
  "sha512_256_init c = c\<lparr>ctx_h := [
     0x22312194fc2bf72c, 0x9f555fa3c84c64c2, 0x2393b86b6f53b151,
     0x963877195940eabd, 0x96283ee2a88effe3, 0xbe5e1e2553863992,
     0x2b0199fc2c85b8aa, 0x0eb72ddc81c52ca2],
     Nl := 0, Nh := 0, num := 0, md_len := 32\<rparr>"

definition SHA384_Init :: "SHA512_CTX \<Rightarrow> SHA512_CTX" where
  "SHA384_Init c = c\<lparr>ctx_h := [
     0xcbbb9d5dc1059ed8, 0x629a292a367cd507, 0x9159015a3070dd17,
     0x152fecd8f70e5939, 0x67332667ffc00b31, 0x8eb44a8768581511,
     0xdb0c2e0d64f98fa7, 0x47b5481dbefa4fa4],
     Nl := 0, Nh := 0, num := 0, md_len := 48\<rparr>"

definition SHA512_Init :: "SHA512_CTX \<Rightarrow> SHA512_CTX" where
  "SHA512_Init c = c\<lparr>ctx_h := [
     0x6a09e667f3bcc908, 0xbb67ae8584caa73b, 0x3c6ef372fe94f82b,
     0xa54ff53a5f1d36f1, 0x510e527fade682d1, 0x9b05688c2b3e6c1f,
     0x1f83d9abfb41bd6b, 0x5be0cd19137e2179],
     Nl := 0, Nh := 0, num := 0, md_len := 64\<rparr>"

subsection \<open>Update\<close>

text \<open>
  The loop for data that is not aligned, on machines whose block function cannot read such data:
  each block is copied to the context first. Returns the context and the data left.
\<close>

function copy_blocks :: "block_impl \<Rightarrow> SHA512_CTX \<Rightarrow> bytes \<Rightarrow> (SHA512_CTX \<times> bytes) outcome" where
  "copy_blocks b c data =
     (if length data < 128 then Inr (c, data)
      else bindO (buf_write (ctx_u c) 0 (take 128 data)) (\<lambda>p.
           bindO (sha512_block_data_order b (c\<lparr>ctx_u := p\<rparr>) p 1) (\<lambda>c.
           copy_blocks b c (drop 128 data))))"
  by pat_completeness auto
termination
  by (relation "measure (\<lambda>(b, c, data). length data)") auto

declare copy_blocks.simps [simp del]

text \<open>
  \<open>SHA512_Update (c, data, len)\<close>. \<open>unaligned\<close> says whether the block function can read unaligned
  data, \<open>addr\<close> is the address of the data. The function always returns 1.
\<close>

definition add_length :: "SHA512_CTX \<Rightarrow> nat \<Rightarrow> SHA512_CTX" where
  "add_length c len =
     (let l = Nl c + push_bit 3 (of_nat len);
          c = (if l < Nl c then c\<lparr>Nh := Nh c + 1\<rparr> else c);
          c = c\<lparr>Nh := Nh c + drop_bit 61 (of_nat len)\<rparr>
      in c\<lparr>Nl := l\<rparr>)"

definition update_blocks :: "block_impl \<Rightarrow> bool \<Rightarrow> nat \<Rightarrow> SHA512_CTX \<Rightarrow> bytes \<Rightarrow> SHA512_CTX outcome" where
  "update_blocks b unaligned addr c data =
     bindO (if length data < 128 then Inr (c, data)
            else if \<not> unaligned \<and> addr mod 8 \<noteq> 0 then copy_blocks b c data
            else bindO (sha512_block_data_order b c data (length data div 128)) (\<lambda>c.
                 Inr (c, drop (length data - length data mod 128) data))) (\<lambda>(c, data).
     if length data = 0 then Inr c
     else bindO (buf_write (ctx_u c) 0 data) (\<lambda>p. Inr (c\<lparr>ctx_u := p, num := length data\<rparr>)))"

definition SHA512_Update :: "block_impl \<Rightarrow> bool \<Rightarrow> nat \<Rightarrow> SHA512_CTX \<Rightarrow> bytes \<Rightarrow> SHA512_CTX outcome" where
  "SHA512_Update b unaligned addr c data =
     (if length data = 0 then Inr c
      else
        let c = add_length c (length data)
        in if num c \<noteq> 0 then
             (let n = nat ((128 - int (num c)) mod 2 ^ 64)
              in if length data < n then
                   bindO (buf_write (ctx_u c) (num c) data) (\<lambda>p.
                   Inr (c\<lparr>ctx_u := p, num := num c + length data\<rparr>))
                 else
                   bindO (buf_write (ctx_u c) (num c) (take n data)) (\<lambda>p.
                   bindO (sha512_block_data_order b (c\<lparr>ctx_u := p, num := 0\<rparr>) p 1) (\<lambda>c.
                   update_blocks b unaligned (addr + n) c (drop n data))))
           else update_blocks b unaligned addr c data)"

definition SHA384_Update :: "block_impl \<Rightarrow> bool \<Rightarrow> nat \<Rightarrow> SHA512_CTX \<Rightarrow> bytes \<Rightarrow> SHA512_CTX outcome" where
  "SHA384_Update = SHA512_Update"

text \<open>\<open>SHA512_Transform (c, data)\<close>, on the 128 bytes at \<open>data\<close>.\<close>

definition SHA512_Transform :: "block_impl \<Rightarrow> bool \<Rightarrow> nat \<Rightarrow> SHA512_CTX \<Rightarrow> bytes \<Rightarrow> SHA512_CTX outcome" where
  "SHA512_Transform b unaligned addr c data =
     (if \<not> unaligned \<and> addr mod 8 \<noteq> 0
      then bindO (buf_write (ctx_u c) 0 (take 128 data)) (\<lambda>p.
           sha512_block_data_order b (c\<lparr>ctx_u := p\<rparr>) p 1)
      else sha512_block_data_order b c data 1)"

subsection \<open>Final\<close>

text \<open>\<open>*(md++) = (unsigned char)(t >> 56); \<dots>\<close>\<close>

definition store64 :: "64 word \<Rightarrow> bytes" where
  "store64 t = [ucast (drop_bit 56 t), ucast (drop_bit 48 t), ucast (drop_bit 40 t),
     ucast (drop_bit 32 t), ucast (drop_bit 24 t), ucast (drop_bit 16 t), ucast (drop_bit 8 t),
     ucast t]"

definition store_digest :: "nat \<Rightarrow> 64 word list \<Rightarrow> bytes option" where
  "store_digest len h =
     (if len = 28 then Some (concat (map (\<lambda>n. store64 (h ! n)) [0..<28 div 8]) @ take 4 (store64 (h ! (28 div 8))))
      else if len = 32 then Some (concat (map (\<lambda>n. store64 (h ! n)) [0..<32 div 8]))
      else if len = 48 then Some (concat (map (\<lambda>n. store64 (h ! n)) [0..<48 div 8]))
      else if len = 64 then Some (concat (map (\<lambda>n. store64 (h ! n)) [0..<64 div 8]))
      else None)"

text \<open>
  \<open>SHA512_Final (md, c)\<close>: the return value, the bytes written to \<open>md\<close> and the context. \<open>md_null\<close>
  says that \<open>md\<close> is the null pointer.
\<close>

definition SHA512_Final :: "block_impl \<Rightarrow> bool \<Rightarrow> SHA512_CTX \<Rightarrow> (int \<times> bytes \<times> SHA512_CTX) outcome" where
  "SHA512_Final b md_null c =
     bindO (buf_write (ctx_u c) (num c) [0x80]) (\<lambda>p.
     let n = num c + 1 in
     bindO (if 128 - 16 < n
            then bindO (buf_write p n (replicate (128 - n) 0)) (\<lambda>p.
                 bindO (sha512_block_data_order b (c\<lparr>ctx_u := p\<rparr>) p 1) (\<lambda>c. Inr (c, p, 0)))
            else Inr (c, p, n)) (\<lambda>(c, p, n).
     bindO (buf_write p n (replicate (128 - 16 - n) 0)) (\<lambda>p.
     bindO (buf_write p 112 (store64 (Nh c) @ store64 (Nl c))) (\<lambda>p.
     bindO (sha512_block_data_order b (c\<lparr>ctx_u := p\<rparr>) p 1) (\<lambda>c.
     if md_null then Inr (0, [], c)
     else case store_digest (md_len c) (ctx_h c) of
            Some md \<Rightarrow> Inr (1, md, c)
          | None \<Rightarrow> Inr (0, [], c))))))"

definition SHA384_Final :: "block_impl \<Rightarrow> bool \<Rightarrow> SHA512_CTX \<Rightarrow> (int \<times> bytes \<times> SHA512_CTX) outcome" where
  "SHA384_Final = SHA512_Final"

subsection \<open>One-shot functions\<close>

text \<open>
  \<open>SHA512 (d, n, md)\<close> and \<open>SHA384 (d, n, md)\<close>: the bytes they leave in \<open>md\<close> (in the static buffer
  when \<open>md\<close> is null). \<open>c\<close> is what the stack holds in place of the context before the call.
\<close>

definition SHA384_oneshot :: "block_impl \<Rightarrow> bool \<Rightarrow> nat \<Rightarrow> SHA512_CTX \<Rightarrow> bytes \<Rightarrow> bytes outcome" where
  "SHA384_oneshot b unaligned addr c d =
     bindO (SHA512_Update b unaligned addr (SHA384_Init c) d) (\<lambda>c.
     bindO (SHA512_Final b False c) (\<lambda>(ret, md, c). Inr md))"

definition SHA512_oneshot :: "block_impl \<Rightarrow> bool \<Rightarrow> nat \<Rightarrow> SHA512_CTX \<Rightarrow> bytes \<Rightarrow> bytes outcome" where
  "SHA512_oneshot b unaligned addr c d =
     bindO (SHA512_Update b unaligned addr (SHA512_Init c) d) (\<lambda>c.
     bindO (SHA512_Final b False c) (\<lambda>(ret, md, c). Inr md))"

end
