(* ===== verification/Sha2_Spec.thy ===== *)
theory Sha2_Spec
  imports Complex_Main Prelude
begin

unbundle bit_operations_syntax

text \<open>
  The hash functions of FIPS 180-4 with words of 64 bits, written down from the standard: nothing here is taken
  from the code, in particular not its tables. The constants are what the standard says they are, the
  first 64 bits of the fractional parts of the cube and square roots of the first primes (sections 4.2.3, 5.3.4 and
  5.3.5), the initial values of SHA-512/224 and SHA-512/256 are those listed in section 5.3.6.
\<close>

subsection \<open>Constants\<close>

definition is_prime :: "nat \<Rightarrow> bool" where
  "is_prime n \<longleftrightarrow> 2 \<le> n \<and> list_all (\<lambda>d. n mod d \<noteq> 0) [2..<n]"

definition first_primes :: "nat list" where
  "first_primes = filter is_prime [2..<410]"

text \<open>The integer part of the \<open>k\<close>-th root of \<open>n\<close>, bit by bit from bit \<open>b - 1\<close> downwards.\<close>

fun root_bits :: "nat \<Rightarrow> nat \<Rightarrow> nat \<Rightarrow> nat \<Rightarrow> nat" where
  "root_bits k n 0 r = r"
| "root_bits k n (Suc b) r = root_bits k n b (if (r + 2 ^ b) ^ k \<le> n then r + 2 ^ b else r)"

text \<open>The first 64 bits of the fractional part of the \<open>k\<close>-th root of \<open>p\<close>.\<close>

definition frac_bits :: "nat \<Rightarrow> nat \<Rightarrow> 64 word" where
  "frac_bits k p = of_nat (root_bits k (p * 2 ^ (64 * k)) 69 0)"

definition fips_K :: "64 word list" where
  "fips_K = map (frac_bits 3) first_primes"

definition fips_H512 :: "64 word list" where
  "fips_H512 = map (frac_bits 2) (take 8 first_primes)"

definition fips_H384 :: "64 word list" where
  "fips_H384 = map (frac_bits 2) (take 8 (drop 8 first_primes))"

definition fips_H512_224 :: "64 word list" where
  "fips_H512_224 = [0x8C3D37C819544DA2, 0x73E1996689DCD4D6, 0x1DFAB7AE32FF9C82, 0x679DD514582F9FCF,
     0x0F6D2B697BD44DA8, 0x77E36F7304C48942, 0x3F9D85A86A1D36C8, 0x1112E6AD91D692A1]"

definition fips_H512_256 :: "64 word list" where
  "fips_H512_256 = [0x22312194FC2BF72C, 0x9F555FA3C84C64C2, 0x2393B86B6F53B151, 0x963877195940EABD,
     0x96283EE2A88EFFE3, 0xBE5E1E2553863992, 0x2B0199FC2C85B8AA, 0x0EB72DDC81C52CA2]"

subsection \<open>Functions on words (section 4.1.3)\<close>

definition fips_Ch :: "64 word \<Rightarrow> 64 word \<Rightarrow> 64 word \<Rightarrow> 64 word" where
  "fips_Ch x y z = (x AND y) XOR (NOT x AND z)"

definition fips_Maj :: "64 word \<Rightarrow> 64 word \<Rightarrow> 64 word \<Rightarrow> 64 word" where
  "fips_Maj x y z = (x AND y) XOR (x AND z) XOR (y AND z)"

definition fips_Sigma0 :: "64 word \<Rightarrow> 64 word" where
  "fips_Sigma0 x = word_rotr 28 x XOR word_rotr 34 x XOR word_rotr 39 x"

definition fips_Sigma1 :: "64 word \<Rightarrow> 64 word" where
  "fips_Sigma1 x = word_rotr 14 x XOR word_rotr 18 x XOR word_rotr 41 x"

definition fips_sigma0 :: "64 word \<Rightarrow> 64 word" where
  "fips_sigma0 x = word_rotr 1 x XOR word_rotr 8 x XOR drop_bit 7 x"

definition fips_sigma1 :: "64 word \<Rightarrow> 64 word" where
  "fips_sigma1 x = word_rotr 19 x XOR word_rotr 61 x XOR drop_bit 6 x"

subsection \<open>The compression function (section 6.4.2)\<close>

text \<open>Word \<open>t\<close> of a block, most significant byte first, and the message schedule.\<close>

definition fips_word :: "bytes \<Rightarrow> nat \<Rightarrow> 64 word" where
  "fips_word blk t = foldl (\<lambda>w j. 256 * w + ucast (drop (8 * t) blk ! j)) 0 [0..<8]"

fun sched :: "bytes \<Rightarrow> nat \<Rightarrow> 64 word" where
  "sched blk t =
     (if t < 16 then fips_word blk t
      else fips_sigma1 (sched blk (t - 2)) + sched blk (t - 7) + fips_sigma0 (sched blk (t - 15)) +
           sched blk (t - 16))"

declare sched.simps [simp del]

text \<open>One round on the working variables \<open>a, \<dots>, h\<close>, and the block of 80 rounds.\<close>

type_synonym fips_state = "64 word \<times> 64 word \<times> 64 word \<times> 64 word \<times> 64 word \<times> 64 word \<times> 64 word \<times> 64 word"

fun fips_round :: "64 word \<Rightarrow> 64 word \<Rightarrow> fips_state \<Rightarrow> fips_state" where
  "fips_round K W (a, b, c, d, e, f, g, h) =
     (let T1 = h + fips_Sigma1 e + fips_Ch e f g + K + W; T2 = fips_Sigma0 a + fips_Maj a b c
      in (T1 + T2, a, b, c, d + T1, e, f, g))"

fun fips_vars :: "64 word list \<Rightarrow> bytes \<Rightarrow> nat \<Rightarrow> fips_state" where
  "fips_vars hs blk 0 = (hs ! 0, hs ! 1, hs ! 2, hs ! 3, hs ! 4, hs ! 5, hs ! 6, hs ! 7)"
| "fips_vars hs blk (Suc t) = fips_round (fips_K ! t) (sched blk t) (fips_vars hs blk t)"

definition fips_block :: "64 word list \<Rightarrow> bytes \<Rightarrow> 64 word list" where
  "fips_block hs blk = (case fips_vars hs blk 80 of (a, b, c, d, e, f, g, h) \<Rightarrow>
     [hs ! 0 + a, hs ! 1 + b, hs ! 2 + c, hs ! 3 + d, hs ! 4 + e, hs ! 5 + f, hs ! 6 + g, hs ! 7 + h])"

subsection \<open>Padding and digests (sections 5.1.2 and 6.4 to 6.7)\<close>

text \<open>A number as \<open>k\<close> bytes, most significant byte first.\<close>

definition be_bytes :: "nat \<Rightarrow> nat \<Rightarrow> bytes" where
  "be_bytes k n = rev (le_bytes k n)"

text \<open>A one bit, zeros up to 16 bytes before the end of a block, and the number of bits in 16 bytes.\<close>

definition fips_pad :: "bytes \<Rightarrow> bytes" where
  "fips_pad m = m @ [0x80] @ replicate ((239 - length m mod 128) mod 128) 0 @ be_bytes 16 (8 * length m)"

fun compress_n :: "64 word list \<Rightarrow> bytes \<Rightarrow> nat \<Rightarrow> 64 word list" where
  "compress_n hs m 0 = hs"
| "compress_n hs m (Suc n) = compress_n (fips_block hs (take 128 m)) (drop 128 m) n"

text \<open>The leftmost \<open>len\<close> bytes of the last hash value.\<close>

definition fips_sha :: "64 word list \<Rightarrow> nat \<Rightarrow> bytes \<Rightarrow> bytes" where
  "fips_sha h0 len m =
     take len (concat (map (\<lambda>h. be_bytes 8 (unat h)) (compress_n h0 (fips_pad m) (length (fips_pad m) div 128))))"

definition fips_sha512 :: "bytes \<Rightarrow> bytes" where
  "fips_sha512 = fips_sha fips_H512 64"

definition fips_sha384 :: "bytes \<Rightarrow> bytes" where
  "fips_sha384 = fips_sha fips_H384 48"

definition fips_sha512_224 :: "bytes \<Rightarrow> bytes" where
  "fips_sha512_224 = fips_sha fips_H512_224 28"

definition fips_sha512_256 :: "bytes \<Rightarrow> bytes" where
  "fips_sha512_256 = fips_sha fips_H512_256 32"

subsection \<open>The constants as numbers\<close>

text \<open>\<open>root_bits\<close> is the integer part of the root.\<close>

lemma root_bits_spec:
  "r ^ k \<le> n \<Longrightarrow> n < (r + 2 ^ b) ^ k \<Longrightarrow> root_bits k n b r ^ k \<le> n \<and> n < Suc (root_bits k n b r) ^ k"
proof (induction k n b r rule: root_bits.induct)
  case (2 k n b r)
  have "r + 2 ^ Suc b = r + 2 ^ b + 2 ^ b" by simp
  then show ?case using 2 by (cases "(r + 2 ^ b) ^ k \<le> n") (simp_all only: root_bits.simps if_True if_False)
qed simp

lemma root_bits_eqI:
  assumes "r ^ k \<le> n" and "n < Suc r ^ k" and "n < (2 ^ b) ^ k" and "0 < k"
  shows "root_bits k n b 0 = r"
proof -
  define s where "s = root_bits k n b 0"
  have s: "s ^ k \<le> n" "n < Suc s ^ k"
    using root_bits_spec [of 0 k n b] assms(3,4) by (simp_all add: s_def zero_power)
  have "s < Suc r" using power_less_imp_less_base [of s k "Suc r"] s(1) assms(2) by simp
  moreover have "r < Suc s" using power_less_imp_less_base [of r k "Suc s"] s(2) assms(1) by simp
  ultimately show ?thesis by (simp add: s_def)
qed

text \<open>In the words of the standard: the first 64 bits of the fractional part of a real root.\<close>

lemma frac_bits_real:
  assumes "0 < k" and "p < 32 ^ k"
  shows "frac_bits k p = of_int \<lfloor>frac (root k (real p)) * 2 ^ 64\<rfloor>"
proof -
  define r where "r = root_bits k (p * 2 ^ (64 * k)) 69 0"
  have "p * 2 ^ (64 * k) < 32 ^ k * 2 ^ (64 * k)" using assms(2) by simp
  also have "\<dots> = (2 ^ 69) ^ k" by (simp add: power_mult flip: power_mult_distrib)
  finally have r: "r ^ k \<le> p * 2 ^ (64 * k)" "p * 2 ^ (64 * k) < Suc r ^ k"
    using root_bits_spec [of 0 k "p * 2 ^ (64 * k)" 69] assms(1) by (simp_all add: r_def zero_power)
  define x where "x = root k (real p) * 2 ^ 64"
  have x: "x = root k (real (p * 2 ^ (64 * k)))"
    using assms(1) by (simp add: x_def real_root_mult power_mult real_root_power_cancel)
  have "real r \<le> x" "x < real (Suc r)"
    using real_root_le_mono [OF assms(1), of "real (r ^ k)" "real (p * 2 ^ (64 * k))"]
      real_root_less_mono [OF assms(1), of "real (p * 2 ^ (64 * k))" "real (Suc r ^ k)"] r assms(1)
    unfolding x of_nat_le_iff of_nat_less_iff of_nat_power [of r] of_nat_power [of "Suc r"]
    by (simp_all add: real_root_power_cancel del: of_nat_Suc of_nat_mult of_nat_power)
  then have f: "\<lfloor>x\<rfloor> = int r" by (simp add: floor_eq_iff)
  have "x = real_of_int (\<lfloor>root k (real p)\<rfloor> * 2 ^ 64) + frac (root k (real p)) * 2 ^ 64"
    by (simp add: x_def frac_def algebra_simps)
  then have "\<lfloor>x\<rfloor> = \<lfloor>root k (real p)\<rfloor> * 2 ^ 64 + \<lfloor>frac (root k (real p)) * 2 ^ 64\<rfloor>"
    by (simp only: floor_add_int add.commute [of "real_of_int _"] add.commute [of "\<lfloor>root k (real p)\<rfloor> * _"])
  then have "(of_int (int r) :: 64 word) = of_int (\<lfloor>root k (real p)\<rfloor> * 2 ^ 64 + \<lfloor>frac (root k (real p)) * 2 ^ 64\<rfloor>)"
    by (simp only: f)
  also have "\<dots> = of_int \<lfloor>frac (root k (real p)) * 2 ^ 64\<rfloor>"
  proof -
    have "(2 :: 64 word) ^ 64 = 0" using word_exp_length_eq_0 [where 'a = 64] by simp
    then have "(of_int (m * 2 ^ 64) :: 64 word) = 0" for m
      by (simp only: of_int_mult of_int_power of_int_numeral mult_zero_right)
    then show ?thesis by (simp only: of_int_add add_0)
  qed
  finally show ?thesis by (simp add: frac_bits_def r_def)
qed

lemma is_prime_small:
  assumes "n < 441"
  shows "is_prime n \<longleftrightarrow> 2 \<le> n \<and> list_all (\<lambda>d. d < n \<longrightarrow> n mod d \<noteq> 0) [2, 3, 5, 7, 11, 13, 17, 19]"
proof -
  have small: "list_ex (\<lambda>q. d mod q = 0 \<and> q \<le> d) [2, 3, 5, 7, 11, 13, 17, 19]" if "2 \<le> d" "d < 21" for d :: nat
  proof -
    have "d \<in> set [2..<21]" using that by (simp only: set_upt atLeastLessThan_iff simp_thms)
    then show ?thesis by (simp add: upt_rec_numeral) (elim disjE; simp)
  qed
  have div: "\<exists>e<21. 2 \<le> e \<and> e < n \<and> n mod e = 0" if d: "2 \<le> d" "d < n" "n mod d = 0" for d
  proof (cases "d < 21")
    case True
    then show ?thesis using d by (intro exI [of _ d] conjI)
  next
    case False
    define e where "e = n div d"
    have n: "n = e * d" using d(3) div_mult_mod_eq [of n d] unfolding e_def by linarith
    have "e < 21"
    proof (rule ccontr)
      assume "\<not> e < 21"
      then have "21 * 21 \<le> e * d" using False by (intro mult_le_mono) simp_all
      then show False using assms n by simp
    qed
    moreover have "2 \<le> e"
    proof (rule ccontr)
      assume "\<not> 2 \<le> e"
      then have "e = 0 \<or> e = 1" by linarith
      then show False using n d by auto
    qed
    moreover have "e < n" using n d(1) calculation(2) by simp
    moreover have "n mod e = 0" by (simp add: n)
    ultimately show ?thesis by (intro exI [of _ e] conjI)
  qed
  have "\<exists>q\<in>set [2, 3, 5, 7, 11, 13, 17, 19]. q < n \<and> n mod q = 0" if pr: "2 \<le> d" "d < n" "n mod d = 0" for d
  proof -
    obtain e where e: "e < 21" "2 \<le> e" "e < n" "n mod e = 0" using div [OF pr] by (elim exE conjE) (rule that)
    obtain q where q: "q \<in> set [2, 3, 5, 7, 11, 13, 17, 19]" "e mod q = 0" "q \<le> e"
      using small [OF e(2,1)] unfolding list_ex_iff by (elim bexE conjE) (rule that)
    have "n mod q = 0" using q(2) e(4) by (meson dvd_trans mod_eq_0_iff_dvd)
    then show ?thesis using q(1,3) e(3) by (meson le_less_trans)
  qed
  then have "(\<forall>d. 2 \<le> d \<and> d < n \<longrightarrow> n mod d \<noteq> 0) \<longleftrightarrow> (\<forall>q\<in>set [2, 3, 5, 7, 11, 13, 17, 19]. q < n \<longrightarrow> n mod q \<noteq> 0)"
    by (intro iffI allI ballI impI) (fastforce, meson)
  then show ?thesis unfolding is_prime_def list_all_iff set_upt atLeastLessThan_iff Ball_def by simp
qed

lemma first_primes_eq: "first_primes = [
     2, 3, 5, 7, 11, 13, 17, 19, 23, 29, 31, 37, 41, 43, 47, 53, 59, 61, 67, 71,
     73, 79, 83, 89, 97, 101, 103, 107, 109, 113, 127, 131, 137, 139, 149, 151, 157, 163, 167, 173,
     179, 181, 191, 193, 197, 199, 211, 223, 227, 229, 233, 239, 241, 251, 257, 263, 269, 271, 277, 281,
     283, 293, 307, 311, 313, 317, 331, 337, 347, 349, 353, 359, 367, 373, 379, 383, 389, 397, 401, 409]"
proof -
  have "first_primes = filter (\<lambda>n. 2 \<le> n \<and> list_all (\<lambda>d. d < n \<longrightarrow> n mod d \<noteq> 0) [2, 3, 5, 7, 11, 13, 17, 19]) [2..<410]"
    unfolding first_primes_def by (intro filter_cong refl is_prime_small) (simp only: set_upt atLeastLessThan_iff, linarith)
  then show ?thesis by (simp add: upt_rec_numeral)
qed

lemma frac_bits_eqI:
  assumes "r ^ k \<le> p * 2 ^ (64 * k)" and "p * 2 ^ (64 * k) < (r + 1) ^ k" and "p < 32 ^ k" and "0 < k"
  shows "frac_bits k p = of_nat r"
proof -
  have "p * 2 ^ (64 * k) < 32 ^ k * 2 ^ (64 * k)" using assms(3) by simp
  also have "\<dots> = (2 ^ 69) ^ k" by (simp add: power_mult flip: power_mult_distrib)
  finally show ?thesis
    using root_bits_eqI [of r k "p * 2 ^ (64 * k)" 69] assms by (simp add: frac_bits_def)
qed

lemma map_frac_bits:
  assumes "list_all2 (\<lambda>p r. r ^ k \<le> p * 2 ^ (64 * k) \<and> p * 2 ^ (64 * k) < (r + 1) ^ k \<and> p < 32 ^ k) ps rs" and "0 < k"
  shows "map (frac_bits k) ps = map of_nat rs"
  using assms by (induction rule: list_all2_induct) (simp_all add: frac_bits_eqI)

lemma fips_H_eq:
  "fips_H512 = map of_nat [
     0x16a09e667f3bcc908, 0x1bb67ae8584caa73b, 0x23c6ef372fe94f82b, 0x2a54ff53a5f1d36f1,
     0x3510e527fade682d1, 0x39b05688c2b3e6c1f, 0x41f83d9abfb41bd6b, 0x45be0cd19137e2179 :: nat]"
  "fips_H384 = map of_nat [
     0x4cbbb9d5dc1059ed8, 0x5629a292a367cd507, 0x59159015a3070dd17, 0x6152fecd8f70e5939,
     0x667332667ffc00b31, 0x68eb44a8768581511, 0x6db0c2e0d64f98fa7, 0x747b5481dbefa4fa4 :: nat]"
  unfolding fips_H512_def fips_H384_def first_primes_eq by (rule map_frac_bits; simp)+

lemma fips_K_eq:
  "fips_K = map of_nat [
     0x1428a2f98d728ae22, 0x17137449123ef65cd, 0x1b5c0fbcfec4d3b2f, 0x1e9b5dba58189dbbc,
     0x23956c25bf348b538, 0x259f111f1b605d019, 0x2923f82a4af194f9b, 0x2ab1c5ed5da6d8118,
     0x2d807aa98a3030242, 0x312835b0145706fbe, 0x3243185be4ee4b28c, 0x3550c7dc3d5ffb4e2,
     0x372be5d74f27b896f, 0x380deb1fe3b1696b1, 0x39bdc06a725c71235, 0x3c19bf174cf692694,
     0x3e49b69c19ef14ad2, 0x3efbe4786384f25e3, 0x40fc19dc68b8cd5b5, 0x4240ca1cc77ac9c65,
     0x42de92c6f592b0275, 0x44a7484aa6ea6e483, 0x45cb0a9dcbd41fbd4, 0x476f988da831153b5,
     0x4983e5152ee66dfab, 0x4a831c66d2db43210, 0x4b00327c898fb213f, 0x4bf597fc7beef0ee4,
     0x4c6e00bf33da88fc2, 0x4d5a79147930aa725, 0x506ca6351e003826f, 0x5142929670a0e6e70,
     0x527b70a8546d22ffc, 0x52e1b21385c26c926, 0x54d2c6dfc5ac42aed, 0x553380d139d95b3df,
     0x5650a73548baf63de, 0x5766a0abb3c77b2a8, 0x581c2c92e47edaee6, 0x592722c851482353b,
     0x5a2bfe8a14cf10364, 0x5a81a664bbc423001, 0x5c24b8b70d0f89791, 0x5c76c51a30654be30,
     0x5d192e819d6ef5218, 0x5d69906245565a910, 0x5f40e35855771202a, 0x6106aa07032bbd1b8,
     0x619a4c116b8d2d0c8, 0x61e376c085141ab53, 0x62748774cdf8eeb99, 0x634b0bcb5e19b48a8,
     0x6391c0cb3c5c95a63, 0x64ed8aa4ae3418acb, 0x65b9cca4f7763e373, 0x6682e6ff3d6b2b8a3,
     0x6748f82ee5defb2fc, 0x678a5636f43172f60, 0x684c87814a1f0ab72, 0x68cc702081a6439ec,
     0x690befffa23631e28, 0x6a4506cebde82bde9, 0x6bef9a3f7b2c67915, 0x6c67178f2e372532b,
     0x6ca273eceea26619c, 0x6d186b8c721c0c207, 0x6eada7dd6cde0eb1e, 0x6f57d4f7fee6ed178,
     0x706f067aa72176fba, 0x70a637dc5a2c898a6, 0x7113f9804bef90dae, 0x71b710b35131c471b,
     0x728db77f523047d84, 0x732caab7b40c72493, 0x73c9ebe0a15c9bebc, 0x7431d67c49c100d4c,
     0x74cc5d4becb3e42b6, 0x7597f299cfc657e2a, 0x75fcb6fab3ad6faec, 0x76c44198c4a475817 :: nat]"
  unfolding fips_K_def first_primes_eq by (rule map_frac_bits; simp)

end
