(* ===== verification/Sha512_Correct.thy ===== *)
theory Sha512_Correct
  imports Sha512 Sha2_Spec Bf_Hash
begin

unbundle bit_operations_syntax

text \<open>
  What \<open>sha512.c\<close> computes. The three block functions are the compression function of FIPS 180-4
  (\<open>fips_block\<close> of \<open>Sha2_Spec\<close>, to which the code's macros and tables are related first); the collector keeps the representation invariant \<open>sha_repr\<close> and \<open>SHA512_Final\<close>
  returns the digest of FIPS 180-4 (\<open>fips_sha\<close>) of everything collected, however the data was
  split over the calls. \<open>SHA384\<close> and \<open>SHA512\<close> are digests in the sense of bfibe's \<open>digest_fn\<close>.
\<close>

subsection \<open>The macros and tables are those of the standard\<close>

lemma ROTR_rotr: "0 < s \<Longrightarrow> s < 64 \<Longrightarrow> ROTR x s = word_rotr s x"
proof (rule bit_word_eqI)
  fix n assume s: "0 < s" "s < 64" and n: "n < LENGTH(64)"
  show "bit (ROTR x s) n \<longleftrightarrow> bit (word_rotr s x) n"
  proof (cases "n + s < 64")
    case True
    then have "\<not> 64 - s \<le> n" by linarith
    then show ?thesis using True s n by (simp add: ROTR_def bit_simps bit_word_rotr_iff add.commute)
  next
    case False
    moreover have "\<not> bit x (s + n)" using False bit_imp_le_length [of x "s + n"] by auto
    moreover have "64 - s \<le> n" using False by linarith
    moreover have "(n + s) mod 64 = n + s - 64" using False s n by (simp add: mod_if)
    ultimately show ?thesis using s n by (simp add: ROTR_def bit_simps bit_word_rotr_iff)
  qed
qed

lemma Sigma_fips: "Sigma0 x = fips_Sigma0 x" "Sigma1 x = fips_Sigma1 x" "sigma0 x = fips_sigma0 x" "sigma1 x = fips_sigma1 x"
  by (simp_all add: Sigma0_def Sigma1_def sigma0_def sigma1_def fips_Sigma0_def fips_Sigma1_def fips_sigma0_def
      fips_sigma1_def ROTR_rotr)

lemma choice_fips: "Ch x y z = fips_Ch x y z" "Maj x y z = fips_Maj x y z"
  by (simp_all add: Ch_def Maj_def fips_Ch_def fips_Maj_def)

lemma K512_fips: "fips_K = K512"
  unfolding fips_K_eq K512_def U64_def by simp

lemma or_byte: "push_bit 8 x OR ucast (b :: byte) = 256 * x + (ucast b :: 64 word)"
proof -
  have "push_bit 8 x AND (ucast b :: 64 word) = 0"
    by (rule bit_word_eqI) (auto simp: bit_simps dest: bit_imp_le_length)
  then have "push_bit 8 x OR ucast b = push_bit 8 x + (ucast b :: 64 word)"
    by (simp add: disjunctive_add_eq_or)
  then show ?thesis by (simp add: push_bit_eq_mult mult.commute)
qed

lemma W64_fips: "fips_word blk t = W64 blk t"
proof -
  have "foldl (\<lambda>w j. 256 * w + ucast (x ! j)) 0 [0..<8] = PULL64 x" for x :: bytes
  proof -
    have n: "[0..<8] = [0, 1, 2, 3, 4, 5, 6, 7]" by (simp add: upt_rec eval_nat_numeral)
    show ?thesis
      unfolding n foldl.simps or_byte [symmetric] push_bit_or push_bit_push_bit PULL64_def B64_def
      by (simp add: or.assoc)
  qed
  then show ?thesis by (simp add: fips_word_def W64_def)
qed

subsection \<open>The compression function in terms of the macros\<close>

lemma sched_low: "t < 16 \<Longrightarrow> sched blk t = W64 blk t"
  by (subst sched.simps) (simp add: W64_fips)

lemma sched_high: "16 \<le> t \<Longrightarrow> sched blk t =
    sigma1 (sched blk (t - 2)) + sched blk (t - 7) + sigma0 (sched blk (t - 15)) + sched blk (t - 16)"
  by (subst sched.simps) (simp add: Sigma_fips)

lemma small_round_fips: "small_round i W v = fips_round (K512 ! i) W v"
  by (cases "(i, W, v)" rule: small_round.cases) (simp add: Let_def Sigma_fips choice_fips ac_simps)

lemma fips_round_code:
  "fips_round K W (a, b, c, d, e, f, g, h) =
     (let T1 = h + Sigma1 e + Ch e f g + K + W; T2 = Sigma0 a + Maj a b c
      in (T1 + T2, a, b, c, d + T1, e, f, g))"
  by (simp add: Sigma_fips choice_fips)

lemma fips_vars_code:
  "fips_vars hs blk 0 = load_vars hs"
  "fips_vars hs blk (Suc t) = fips_round (K512 ! t) (sched blk t) (fips_vars hs blk t)"
  by (simp_all add: load_vars_def K512_fips)

lemma fips_block_code: "fips_block hs blk = add_vars hs (fips_vars hs blk 80)"
  by (cases "(hs, fips_vars hs blk 80)" rule: add_vars.cases) (simp add: fips_block_def)

declare small_round.simps [simp del] fips_round.simps [simp del] fips_vars.simps [simp del]
declare fips_vars_code [simp]

subsection \<open>The small version\<close>

text \<open>The ring holds the last 16 words of the schedule.\<close>

definition sched_ring :: "bytes \<Rightarrow> nat \<Rightarrow> 64 word list \<Rightarrow> bool" where
  "sched_ring blk i X \<longleftrightarrow>
     length X = 16 \<and> (\<forall>j<i. i \<le> j + 16 \<longrightarrow> X ! (j mod 16) = sched blk j)"

lemma sched_ringD: "sched_ring blk i X \<Longrightarrow> j < i \<Longrightarrow> i \<le> j + 16 \<Longrightarrow> X ! (j mod 16) = sched blk j"
  by (simp add: sched_ring_def)

lemma sched_ring_0: "sched_ring blk 0 (replicate 16 0)"
  by (simp add: sched_ring_def)

lemma sched_ring_update:
  assumes "sched_ring blk i X"
  shows "sched_ring blk (Suc i) (X[i mod 16 := sched blk i])"
  unfolding sched_ring_def
proof (intro conjI allI impI)
  show "length (X[i mod 16 := sched blk i]) = 16"
    using assms by (simp add: sched_ring_def)
next
  fix j assume j: "j < Suc i" "Suc i \<le> j + 16"
  show "X[i mod 16 := sched blk i] ! (j mod 16) = sched blk j"
  proof (cases "j = i")
    case True
    then show ?thesis using assms by (simp add: sched_ring_def)
  next
    case False
    then have "j mod 16 \<noteq> i mod 16"
      using mod_window_neq [of j i 16] j by simp
    then show ?thesis
      using False j assms by (simp add: sched_ring_def)
  qed
qed

text \<open>The schedule step of the code, for the ring indices it uses.\<close>

lemma sched_ring_step:
  assumes "sched_ring blk i X" and "16 \<le> i"
  shows "X ! (i mod 16) + (sigma0 (X ! ((i + 1) mod 16)) + sigma1 (X ! ((i + 14) mod 16)) +
    X ! ((i + 9) mod 16)) = sched blk i"
proof -
  have m: "X ! ((i + d) mod 16) = sched blk (i + d - 16)" if "d < 16" for d
  proof -
    have "(i + d) mod 16 = (i + d - 16) mod 16"
      using assms(2) by (intro le_mod_geq) simp
    then show ?thesis
      using sched_ringD [OF assms(1), of "i + d - 16"] that assms(2) by simp
  qed
  have "i + 1 - 16 = i - 15" "i + 14 - 16 = i - 2" "i + 9 - 16 = i - 7"
    using assms(2) by simp_all
  then show ?thesis
    using m [of 0] m [of 1] m [of 14] m [of 9] by (simp add: sched_high [OF assms(2)] ac_simps)
qed

lemma sched_ring_update_low:
  "i < 16 \<Longrightarrow> sched_ring blk i X \<Longrightarrow> sched_ring blk (Suc i) (X[i := sched blk i])"
  using sched_ring_update [of blk i X] by simp

lemma small_00_15_step:
  assumes "i < 16" and "sched_ring blk i X"
  shows "small_00_15 blk i (fips_vars hs blk i, X) =
    (fips_vars hs blk (Suc i), X[i := sched blk i])"
  using assms by (simp add: small_00_15_def small_round_fips sched_low Let_def)

lemma small_16_79_step:
  assumes "16 \<le> i" and "sched_ring blk i X"
  shows "small_16_79 i (fips_vars hs blk i, X) =
    (fips_vars hs blk (Suc i), X[i mod 16 := sched blk i])"
  using sched_ring_step [OF assms(2,1)] by (simp add: small_16_79_def small_round_fips Let_def)

definition small_inv :: "64 word list \<Rightarrow> bytes \<Rightarrow> nat \<Rightarrow> vars \<times> 64 word list \<Rightarrow> bool" where
  "small_inv hs blk i s \<longleftrightarrow> fst s = fips_vars hs blk i \<and> sched_ring blk i (snd s)"

lemma block_small_fips: "block_small hs blk = fips_block hs blk"
proof -
  define s where "s = fold (small_00_15 blk) [0..<16] (load_vars hs, replicate 16 0)"
  have "small_inv hs blk 16 s"
    unfolding s_def
    by (rule fold_upt_invariant)
       (auto simp: small_inv_def small_00_15_step sched_ring_0 intro: sched_ring_update_low)
  then have "small_inv hs blk 80 (fold small_16_79 [16..<80] s)"
    by (rule fold_upt_invariant) (auto simp: small_inv_def small_16_79_step intro: sched_ring_update)
  then show ?thesis
    unfolding block_small_def fips_block_code Let_def s_def [symmetric] small_inv_def
    by (simp only: case_prod_unfold)
qed

subsection \<open>The unrolled version\<close>

fun roles :: "vars \<Rightarrow> 64 word list" where
  "roles (a, b, c, d, e, f, g, h) = [a, b, c, d, e, f, g, h]"

lemma less_16: "(j :: nat) < 16 \<longleftrightarrow> j \<in> {0, 1, 2, 3, 4, 5, 6, 7, 8, 9, 10, 11, 12, 13, 14, 15}"
proof -
  have "set [0..<16] = set [0, 1, 2, 3, 4, 5, 6, 7, 8, 9, 10, 11, 12, 13, 14, 15 :: nat]"
    by (rule arg_cong [where f = set]) (simp add: upt_rec eval_nat_numeral)
  then have "j \<in> {0..<16} \<longleftrightarrow> j \<in> set [0, 1, 2, 3, 4, 5, 6, 7, 8, 9, 10, 11, 12, 13, 14, 15]"
    by (simp only: set_upt)
  then show ?thesis by simp
qed

text \<open>
  In the \<open>j\<close>-th call the variable that plays the \<open>k\<close>-th role is the one at \<open>k - j\<close> modulo 8, so the
  variables are the roles rotated by \<open>j\<close>.
\<close>

lemma ROUND_00_15_roles:
  assumes "j < 16"
  shows "ROUND_00_15 t (round_args ! j) W (rotate j (roles v)) =
    rotate (Suc j) (roles (fips_round (K512 ! t) W v))"
proof -
  obtain a b c d e f g h where v: "v = (a, b, c, d, e, f, g, h)"
    by (cases "v" rule: roles.cases)
  show ?thesis
    using assms unfolding less_16 v
    by (elim insertE emptyE)
       (simp_all add: round_args_def eval_nat_numeral fips_round_code Let_def ac_simps)
qed

lemma rotate_roles_16: "rotate 16 (roles v) = roles v"
  by (cases v rule: roles.cases) (simp add: rotate_conv_mod [of 16])

definition unrolled_inv ::
  "64 word list \<Rightarrow> bytes \<Rightarrow> nat \<Rightarrow> nat \<Rightarrow> 64 word list \<times> 64 word list \<Rightarrow> bool" where
  "unrolled_inv hs blk i j s \<longleftrightarrow>
     fst s = rotate j (roles (fips_vars hs blk (i + j))) \<and> sched_ring blk (i + j) (snd s)"

lemma unrolled_00_15_step:
  assumes "j < 16" and "unrolled_inv hs blk 0 j s"
  shows "unrolled_inv hs blk 0 (Suc j) (unrolled_00_15 blk j s)"
  using assms ROUND_00_15_roles [OF assms(1), of j "sched blk j" "fips_vars hs blk j"]
    sched_ring_update_low [OF assms(1), of blk "snd s"]
  by (simp add: unrolled_inv_def unrolled_00_15_def Let_def sched_low [OF assms(1), symmetric]
      case_prod_unfold)

lemma ROUND_16_80_step:
  assumes "j < 16" and "16 \<le> i" and "i mod 16 = 0" and "unrolled_inv hs blk i j s"
  shows "unrolled_inv hs blk i (Suc j) (ROUND_16_80 i j (round_args ! j) s)"
proof -
  obtain v X where s: "s = (v, X)" by (cases s)
  have m: "(i + j + d) mod 16 = (j + d) mod 16" for d
    using assms(3) by (metis add.assoc mod_add_left_eq add_0)
  have W: "X ! (j mod 16) + (sigma0 (X ! ((j + 1) mod 16)) + sigma1 (X ! ((j + 14) mod 16)) +
      X ! ((j + 9) mod 16)) = sched blk (i + j)"
    using sched_ring_step [of blk "i + j" X] assms(2,4) m [of 0] m [of 1] m [of 14] m [of 9]
    by (simp add: unrolled_inv_def s)
  have X: "sched_ring blk (Suc (i + j)) (X[j mod 16 := sched blk (i + j)])"
    using sched_ring_update [of blk "i + j" X] assms(4) m [of 0] by (simp add: unrolled_inv_def s)
  show ?thesis
    using assms(4) ROUND_00_15_roles [OF assms(1), of "i + j" "sched blk (i + j)" "fips_vars hs blk (i + j)"]
      W X
    by (simp add: unrolled_inv_def ROUND_16_80_def s Let_def)
qed

lemma unrolled_16_step:
  assumes "16 \<le> i" and "i mod 16 = 0" and "unrolled_inv hs blk i 0 s"
  shows "unrolled_inv hs blk (i + 16) 0 (unrolled_16 i s)"
proof -
  have "unrolled_inv hs blk i 16 (unrolled_16 i s)"
    unfolding unrolled_16_def using assms
    by (intro fold_upt_invariant [where P = "unrolled_inv hs blk i"] ROUND_16_80_step) simp_all
  then show ?thesis
    by (simp add: unrolled_inv_def rotate_roles_16)
qed

lemma roles_load_vars: "map ((!) hs) [0..<8] = roles (load_vars hs)"
  by (simp add: load_vars_def upt_rec eval_nat_numeral)

lemma add_roles: "map (\<lambda>k. hs ! k + roles v ! k) [0..<8] = add_vars hs v"
  by (cases v rule: roles.cases) (simp add: upt_rec eval_nat_numeral)

lemma block_unrolled_fips: "block_unrolled hs blk = fips_block hs blk"
proof -
  define s where "s = fold (unrolled_00_15 blk) [0..<16] (map ((!) hs) [0..<8], replicate 16 0)"
  have "unrolled_inv hs blk 0 16 s"
    unfolding s_def
    by (rule fold_upt_invariant [where P = "unrolled_inv hs blk 0"], unfold roles_load_vars)
       (simp_all add: unrolled_inv_def [of _ _ 0 0] sched_ring_0 unrolled_00_15_step)
  then have "unrolled_inv hs blk 16 0 s"
    by (simp add: unrolled_inv_def rotate_roles_16)
  then have "unrolled_inv hs blk 80 0 (fold unrolled_16 [16, 32, 48, 64] s)"
    using unrolled_16_step [of 16 hs blk s] unrolled_16_step [of 32 hs blk]
      unrolled_16_step [of 48 hs blk] unrolled_16_step [of 64 hs blk] by simp
  then show ?thesis
    unfolding block_unrolled_def fips_block_code Let_def s_def [symmetric] unrolled_inv_def
    by (simp only: case_prod_unfold rotate0 add_0_right add_roles id_apply)
qed

subsection \<open>The i386 version\<close>

text \<open>
  In round \<open>i\<close> the pointer is at \<open>80 - i\<close>; above it are the variables, and from index 88 downwards
  the words of the schedule.
\<close>

definition i386_inv ::
  "64 word list \<Rightarrow> bytes \<Rightarrow> nat \<Rightarrow> 64 word \<times> 64 word \<times> 64 word list \<times> nat \<Rightarrow> bool" where
  "i386_inv hs blk i = (\<lambda>(A, E, X, F). F + i = 80 \<and> length X = 89 \<and>
     fips_vars hs blk i = (A, X ! (F + 1), X ! (F + 2), X ! (F + 3), E, X ! (F + 5), X ! (F + 6),
       X ! (F + 7)) \<and> (\<forall>j<i. X ! (88 - j) = sched blk j))"

lemma i386_round_step:
  assumes "i386_inv hs blk i s" and "i < 80"
  shows "i386_inv hs blk (Suc i) (i386_round i (sched blk i) s)"
proof -
  obtain A E X F where s: "s = (A, E, X, F)" by (cases s)
  define G where "G = F - 1"
  have F: "F = Suc G" "Suc (G + i) = 80" "length X = 89"
    using assms by (simp_all add: s i386_inv_def G_def)
  have "X[Suc G := A, Suc G + 4 := E, Suc G + 8 := sched blk i] ! (88 - j) = sched blk j"
    if "j < Suc i" for j
  proof (cases "j = i")
    case True
    then have "88 - j = Suc G + 8" using F by simp
    then show ?thesis using True F by simp
  next
    case False
    then have "Suc G + 8 < 88 - j" using F that by simp
    then show ?thesis using False F that assms(1) by (simp add: s i386_inv_def)
  qed
  then show ?thesis
    using assms(1) F
    by (simp add: s i386_inv_def i386_round_def fips_round_code Let_def ac_simps numeral_3_eq_3)
qed

lemma i386_00_15_step:
  "i386_inv hs blk i s \<Longrightarrow> i < 16 \<Longrightarrow> i386_inv hs blk (Suc i) (i386_00_15 blk i s)"
  using i386_round_step [of hs blk i s] by (simp add: i386_00_15_def sched_low)

lemma i386_16_79_step:
  assumes "i386_inv hs blk i s" and "16 \<le> i" and "i < 80"
  shows "i386_inv hs blk (Suc i) (i386_16_79 i s)"
proof -
  obtain A E X F where s: "s = (A, E, X, F)" by (cases s)
  have W: "X ! (F + 8 + d) = sched blk (i - d)" if "0 < d" "d \<le> 16" for d
  proof -
    have "F + i = 80" using assms by (simp add: s i386_inv_def)
    then have "F + 8 + d = 88 - (i - d)" and "i - d < i"
      using assms(2) that by simp_all
    then show ?thesis using assms(1) by (simp add: s i386_inv_def)
  qed
  have "sigma0 (X ! (F + 8 + 16 - 1)) + sigma1 (X ! (F + 8 + 16 - 14)) +
      (X ! (F + 8 + 16) + X ! (F + 8 + 16 - 9)) = sched blk i"
    using W [of 15] W [of 2] W [of 16] W [of 7]
    by (simp add: sched_high [OF assms(2)] ac_simps)
  then have "i386_16_79 i s = i386_round i (sched blk i) s"
    by (simp only: i386_16_79_def s Let_def prod.case)
  then show ?thesis
    using i386_round_step [OF assms(1,3)] by simp
qed

lemma block_i386_fips: "block_i386 hs blk = fips_block hs blk"
proof -
  define X where "X = (replicate 89 0)[81 := hs ! 1, 82 := hs ! 2, 83 := hs ! 3, 85 := hs ! 5,
            86 := hs ! 6, 87 := hs ! 7]"
  define s where "s = fold (i386_00_15 blk) [0..<16] (hs ! 0, hs ! 4, X, 80)"
  define r where "r = fold i386_16_79 [16..<80] s"
  have "i386_inv hs blk 0 (hs ! 0, hs ! 4, X, 80)"
    by (simp add: i386_inv_def X_def load_vars_def)
  then have "i386_inv hs blk 16 s"
    unfolding s_def
    by (rule fold_upt_invariant [where P = "i386_inv hs blk"]) (simp_all add: i386_00_15_step)
  then have "i386_inv hs blk 80 r"
    unfolding r_def
    by (rule fold_upt_invariant [where P = "i386_inv hs blk"]) (simp_all add: i386_16_79_step)
  then show ?thesis
    unfolding block_i386_def X_def [symmetric] s_def [symmetric] r_def [symmetric] Let_def
    by (auto simp: i386_inv_def fips_block_code split: prod.splits)
qed

lemma block_fn_fips: "block_fn b = fips_block"
  by (cases b) (simp_all add: fun_eq_iff block_small_fips block_i386_fips block_unrolled_fips)

end
