(* ===== verification/Sha512_Digest.thy ===== *)
theory Sha512_Digest
  imports Sha512_Correct
begin

unbundle bit_operations_syntax

text \<open>
  The collector and the padding of \<open>sha512.c\<close>: a context represents the bytes collected so far
  (\<open>sha_repr\<close>), \<open>SHA512_Update\<close> appends to them, however the data is split over the calls and
  whether or not it is aligned, and \<open>SHA512_Final\<close> returns the digest of FIPS 180-4 (\<open>fips_sha\<close>).
\<close>

subsection \<open>Hashing whole blocks\<close>

lemma compress_n_append_le: "128 * n \<le> length xs \<Longrightarrow> compress_n hs (xs @ ys) n = compress_n hs xs n"
  by (induction n arbitrary: hs xs) simp_all

lemma compress_n_take: "128 * n \<le> length xs \<Longrightarrow> compress_n hs (take (128 * n) xs) n = compress_n hs xs n"
  using compress_n_append_le [of n "take (128 * n) xs" hs "drop (128 * n) xs"] by simp

lemma compress_n_add:
  "length xs = 128 * n \<Longrightarrow> compress_n hs (xs @ ys) (n + k) = compress_n (compress_n hs xs n) ys k"
  by (induction n arbitrary: hs xs) simp_all

lemma length_fips_block: "length (fips_block hs blk) = 8"
  by (cases "fips_vars hs blk 80" rule: roles.cases) (simp add: fips_block_code)

lemma length_compress_n: "length hs = 8 \<Longrightarrow> length (compress_n hs m n) = 8"
  by (induction n arbitrary: hs m) (simp_all add: length_fips_block)

lemma block_data_order_ok:
  "128 * n \<le> length W \<Longrightarrow>
    sha512_block_data_order b c W n = Inr (c\<lparr>ctx_h := compress_n (ctx_h c) W n\<rparr>)"
  by (induction n arbitrary: c W) (simp_all add: block_fn_fips)

lemma copy_blocks_ok:
  "length (ctx_u c) = 128 \<Longrightarrow>
    \<exists>u. length u = 128 \<and> copy_blocks b c data =
      Inr (c\<lparr>ctx_h := compress_n (ctx_h c) data (length data div 128), ctx_u := u\<rparr>,
           drop (length data - length data mod 128) data)"
proof (induction "length data" arbitrary: c data rule: less_induct)
  case less
  show ?case
  proof (cases "length data < 128")
    case True
    then show ?thesis using less.prems by (subst copy_blocks.simps) (auto intro!: exI [of _ "ctx_u c"])
  next
    case False
    define c' where "c' = c\<lparr>ctx_u := take 128 data, ctx_h := fips_block (ctx_h c) (take 128 data)\<rparr>"
    have d: "length data div 128 = Suc (length (drop 128 data) div 128)"
      "length data mod 128 = length (drop 128 data) mod 128"
      using False by (simp_all add: le_div_geq le_mod_geq)
    have "\<exists>u. length u = 128 \<and> copy_blocks b c' (drop 128 data) =
        Inr (c'\<lparr>ctx_h := compress_n (ctx_h c') (drop 128 data) (length (drop 128 data) div 128),
                ctx_u := u\<rparr>,
             drop (length (drop 128 data) - length (drop 128 data) mod 128) (drop 128 data))"
      by (rule less.hyps) (use False in \<open>simp_all add: c'_def\<close>)
    then obtain u where u: "length u = 128" "copy_blocks b c' (drop 128 data) =
        Inr (c'\<lparr>ctx_h := compress_n (ctx_h c') (drop 128 data) (length (drop 128 data) div 128),
                ctx_u := u\<rparr>,
             drop (length (drop 128 data) - length (drop 128 data) mod 128) (drop 128 data))"
      by blast
    have "length data - 128 - length data mod 128 + 128 = length data - length data mod 128"
      using False div_mult_mod_eq [of "length data" 128] d(1) by linarith
    then have "drop (length (drop 128 data) - length (drop 128 data) mod 128) (drop 128 data) =
        drop (length data - length data mod 128) data"
      using d(2) by (simp add: add.commute)
    moreover have "copy_blocks b c data = copy_blocks b c' (drop 128 data)"
      using False less.prems
      by (subst copy_blocks.simps) (simp add: c'_def block_fn_fips numeral_2_eq_2)
    ultimately show ?thesis
      using u d(1) by (auto simp: c'_def)
  qed
qed

lemma update_blocks_ok:
  assumes "length (ctx_u c) = 128" and "num c = 0"
  shows "\<exists>u. update_blocks b un addr c data =
      Inr (c\<lparr>ctx_h := compress_n (ctx_h c) data (length data div 128), ctx_u := u,
             num := length data mod 128\<rparr>) \<and>
    length u = 128 \<and> take (length data mod 128) u = drop (length data - length data mod 128) data"
proof -
  define rest where "rest = drop (length data - length data mod 128) data"
  have rest: "length rest = length data mod 128"
    by (simp add: rest_def)
  have blocks: "\<exists>u. length u = 128 \<and>
    (if length data < 128 then Inr (c, data)
     else if \<not> un \<and> addr mod 8 \<noteq> 0 then copy_blocks b c data
     else bindO (sha512_block_data_order b c data (length data div 128)) (\<lambda>c.
          Inr (c, drop (length data - length data mod 128) data))) =
    Inr (c\<lparr>ctx_h := compress_n (ctx_h c) data (length data div 128), ctx_u := u\<rparr>, rest)"
    using assms(1) copy_blocks_ok [of c b data]
    by (auto simp: rest_def block_data_order_ok intro: exI [of _ "ctx_u c"])
  obtain u where u: "length u = 128"
    "update_blocks b un addr c data =
      (let c' = c\<lparr>ctx_h := compress_n (ctx_h c) data (length data div 128), ctx_u := u\<rparr>
       in if length rest = 0 then Inr c'
          else bindO (buf_write (ctx_u c') 0 rest) (\<lambda>p. Inr (c'\<lparr>ctx_u := p, num := length rest\<rparr>)))"
    using blocks unfolding update_blocks_def by (auto simp: Let_def)
  have "length rest < 128" by (simp add: rest)
  then show ?thesis
    using u rest assms(2)
    by (cases "length data mod 128 = 0")
       (auto simp: Let_def rest_def [symmetric] intro!: exI [of _ "rest @ drop (length rest) u"])
qed

subsection \<open>The length counter\<close>

lemma word_unat_eqI_byte: "unat (x :: byte) = unat y \<Longrightarrow> x = y"
  by (rule unsigned_word_eqI)

lemma word_unat_eqI: "unat (x :: 64 word) = unat y \<Longrightarrow> x = y"
  by (rule unsigned_word_eqI)

lemma carry_div:
  fixes a b M :: nat
  assumes "0 < M"
  shows "(a + b) div M = a div M + b div M + (if (a + b) mod M < a mod M then 1 else 0)"
proof -
  have m: "a mod M < M" "b mod M < M" using assms by simp_all
  define s where "s = a mod M + b mod M"
  have "(a + b) mod M = s mod M" by (simp add: s_def mod_add_eq)
  moreover have "(a + b) div M = a div M + b div M + s div M"
    unfolding s_def by (rule div_add1_eq)
  moreover have "s div M = 0 \<and> s mod M = s \<or> M \<le> s \<and> s div M = 1 \<and> s mod M = s - M"
  proof (cases "s < M")
    case False
    moreover have "s - M < M" using m False unfolding s_def by linarith
    ultimately show ?thesis using assms by (simp add: le_div_geq le_mod_geq)
  qed simp
  moreover have "a mod M \<le> s" and "s < a mod M + M" using m by (simp_all add: s_def)
  ultimately show ?thesis by auto
qed

lemma add_length_counts:
  assumes "Nl c = of_nat (8 * m)" and "Nh c = of_nat (8 * m div 2 ^ 64)" and "len < 2 ^ 64"
  shows "add_length c len =
    c\<lparr>Nl := of_nat (8 * (m + len)), Nh := of_nat (8 * (m + len) div 2 ^ 64)\<rparr>"
proof -
  have l: "Nl c + push_bit 3 (of_nat len) = of_nat (8 * (m + len))"
    by (simp add: assms(1) push_bit_eq_mult algebra_simps)
  have u: "unat (of_nat x :: 64 word) = x mod 2 ^ 64" for x
    by (simp add: unat_of_nat)
  have "len mod 2 ^ 64 div 2 ^ 61 = 8 * len div 2 ^ 64"
    using assms(3) by simp
  then have d: "drop_bit 61 (of_nat len :: 64 word) = of_nat (8 * len div 2 ^ 64)"
    by (intro word_unat_eqI, unfold unat_drop_bit_eq) (simp add: drop_bit_eq_div unat_of_nat)
  have "of_nat (8 * (m + len)) < Nl c \<longleftrightarrow> (8 * m + 8 * len) mod 2 ^ 64 < 8 * m mod 2 ^ 64"
    unfolding assms(1) word_less_nat_alt u by (simp add: distrib_left)
  then have n: "Nh c + (if of_nat (8 * (m + len)) < Nl c then 1 else 0) +
      drop_bit 61 (of_nat len) = of_nat (8 * (m + len) div 2 ^ 64)"
    using carry_div [of "2 ^ 64" "8 * m" "8 * len"]
    by (simp add: assms(2) d distrib_left)
  show ?thesis
    unfolding add_length_def l using n by (cases c) (auto simp: Let_def)
qed

subsection \<open>What a context represents\<close>

text \<open>
  The collected bytes are whole blocks (\<open>pre\<close>), already hashed, and the bytes waiting in \<open>u\<close>;
  \<open>sha_repr\<close> adds the 128-bit counter of the collected bits.
\<close>

definition sha_core :: "64 word list \<Rightarrow> nat \<Rightarrow> bytes \<Rightarrow> SHA512_CTX \<Rightarrow> bool" where
  "sha_core h0 len m c \<longleftrightarrow> (\<exists>pre suf k. m = pre @ suf \<and> length pre = 128 * k \<and> length suf < 128 \<and>
     ctx_h c = compress_n h0 pre k \<and> num c = length suf \<and> length (ctx_u c) = 128 \<and>
     take (length suf) (ctx_u c) = suf \<and> md_len c = len)"

definition sha_repr :: "64 word list \<Rightarrow> nat \<Rightarrow> bytes \<Rightarrow> SHA512_CTX \<Rightarrow> bool" where
  "sha_repr h0 len m c \<longleftrightarrow> sha_core h0 len m c \<and>
     Nl c = of_nat (8 * length m) \<and> Nh c = of_nat (8 * length m div 2 ^ 64)"

lemma sha_coreE:
  assumes "sha_core h0 len m c"
  obtains pre suf k rest where "m = pre @ suf" "length pre = 128 * k" "length suf < 128"
    "ctx_h c = compress_n h0 pre k" "num c = length suf" "ctx_u c = suf @ rest"
    "length rest = 128 - length suf" "md_len c = len"
proof -
  obtain pre suf k where r: "m = pre @ suf" "length pre = 128 * k" "length suf < 128"
    "ctx_h c = compress_n h0 pre k" "num c = length suf" "length (ctx_u c) = 128"
    "take (length suf) (ctx_u c) = suf" "md_len c = len"
    using assms unfolding sha_core_def by blast
  have "ctx_u c = suf @ drop (length suf) (ctx_u c)"
    using r(7) by (metis append_take_drop_id)
  moreover have "length (drop (length suf) (ctx_u c)) = 128 - length suf"
    using r(6) by simp
  ultimately show ?thesis
    using that [OF r(1-5) _ _ r(8)] by blast
qed

lemma sha_coreI:
  assumes "m = pre @ suf" "length pre = 128 * k" "length suf < 128"
    "ctx_h c = compress_n h0 pre k" "num c = length suf" "length (ctx_u c) = 128"
    "take (length suf) (ctx_u c) = suf" "md_len c = len"
  shows "sha_core h0 len m c"
  using assms unfolding sha_core_def by blast

text \<open>Any byte string splits into blocks and a rest.\<close>

lemma split_blocks:
  obtains pre suf k where "(m :: bytes) = pre @ suf" and "length pre = 128 * k" and "length suf < 128"
proof
  show "m = take (128 * (length m div 128)) m @ drop (128 * (length m div 128)) m" by simp
  show "length (take (128 * (length m div 128)) m) = 128 * (length m div 128)" by simp
  have "length m - 128 * (length m div 128) = length m mod 128"
    by (rule minus_mult_div_eq_mod)
  then show "length (drop (128 * (length m div 128)) m) < 128" by simp
qed

lemma blocks_arith:
  assumes "length pre = 128 * k" and "length suf < 128"
  shows "length (pre @ suf) div 128 = k" and "length (pre @ suf) mod 128 = length suf"
  using assms by simp_all

text \<open>The blocks that \<open>update_blocks\<close> hashes, and what it keeps.\<close>

lemma update_blocks_split:
  assumes "length (ctx_u c) = 128" and "num c = 0" and "length pre = 128 * k" and "length suf < 128"
  shows "\<exists>u. update_blocks b un addr c (pre @ suf) =
      Inr (c\<lparr>ctx_h := compress_n (ctx_h c) pre k, ctx_u := u, num := length suf\<rparr>) \<and>
    length u = 128 \<and> take (length suf) u = suf"
proof -
  have "length (pre @ suf) - length suf = length pre" by simp
  then have "drop (length (pre @ suf) - length suf) (pre @ suf) = suf"
    by (simp only: append_eq_conv_conj [THEN iffD1, OF refl, THEN conjunct2] drop_append) simp
  then show ?thesis
    using update_blocks_ok [OF assms(1,2), of b un addr "pre @ suf"] assms(3)
      compress_n_append_le [of k pre "ctx_h c" suf]
    unfolding blocks_arith [OF assms(3,4)] by simp
qed

lemma add_length_fields [simp]:
  "ctx_h (add_length c n) = ctx_h c" "num (add_length c n) = num c"
  "ctx_u (add_length c n) = ctx_u c" "md_len (add_length c n) = md_len c"
  by (simp_all add: add_length_def Let_def)

lemma add_length_0: "add_length c 0 = c"
  by (cases c) (simp add: add_length_def Let_def)

text \<open>\<open>SHA512_Update\<close> appends its data to what the context represents, and never crashes.\<close>

lemma SHA512_Update_core:
  assumes repr: "sha_core h0 len m c"
  shows "\<exists>c'. SHA512_Update b un addr c d = Inr c' \<and> sha_core h0 len (m @ d) c' \<and>
    Nl c' = Nl (add_length c (length d)) \<and> Nh c' = Nh (add_length c (length d))"
proof (cases "d = []")
  case True
  then show ?thesis using repr by (simp add: SHA512_Update_def add_length_0)
next
  case False
  obtain pre suf k rest where r: "m = pre @ suf" "length pre = 128 * k" "length suf < 128"
    "ctx_h c = compress_n h0 pre k" "num c = length suf" "ctx_u c = suf @ rest"
    "length rest = 128 - length suf" "md_len c = len"
    using repr by (rule sha_coreE)
  define c1 where c1: "c1 = add_length c (length d)"
  have blocks: "\<exists>c'. update_blocks b un a c2 e = Inr c' \<and> sha_core h0 len (m @ d) c' \<and>
      Nl c' = Nl c1 \<and> Nh c' = Nh c1"
    if as: "m @ d = p @ e" "length p = 128 * j" "num c2 = 0" "length (ctx_u c2) = 128"
      "ctx_h c2 = compress_n h0 p j" "Nl c2 = Nl c1" "Nh c2 = Nh c1" "md_len c2 = len"
    for p e j c2 a
  proof -
    obtain e1 e2 i where e: "e = e1 @ e2" "length e1 = 128 * i" "length e2 < 128"
      by (rule split_blocks)
    obtain u where u: "update_blocks b un a c2 (e1 @ e2) =
        Inr (c2\<lparr>ctx_h := compress_n (ctx_h c2) e1 i, ctx_u := u, num := length e2\<rparr>)"
      "length u = 128" "take (length e2) u = e2"
      using update_blocks_split [OF as(4,3) e(2,3)] by blast
    have "sha_core h0 len (m @ d)
        (c2\<lparr>ctx_h := compress_n (ctx_h c2) e1 i, ctx_u := u, num := length e2\<rparr>)"
      by (rule sha_coreI [where pre = "p @ e1" and suf = e2 and k = "j + i"])
         (use as e u compress_n_add [OF as(2), of h0 e1 i] in \<open>simp_all add: c1\<close>)
    then show ?thesis using u(1) e(1) as(6,7) by auto
  qed
  show ?thesis
  proof (cases "suf = []")
    case True
    then show ?thesis
      using blocks [of pre d k c1 addr] r False
      by (simp add: SHA512_Update_def c1 c1)
  next
    case suf: False
    have n: "nat ((128 - int (length suf)) mod 2 ^ 64) = length rest"
      using r(3,7) by simp
    have num: "num c1 = length suf" "ctx_u c1 = suf @ rest"
      using r by (simp_all add: c1)
    show ?thesis
    proof (cases "length d < length rest")
      case True
      have "sha_core h0 len (m @ d)
          (c1\<lparr>ctx_u := suf @ d @ drop (length d) rest, num := length suf + length d\<rparr>)"
        by (rule sha_coreI [where pre = pre and suf = "suf @ d" and k = k])
           (use r True in \<open>simp_all add: c1\<close>)
      then show ?thesis
        using False suf True n num r(7)
        by (simp add: SHA512_Update_def c1 [symmetric] Let_def)
    next
      case more: False
      define blk where "blk = suf @ take (length rest) d"
      define c2 where "c2 = c1\<lparr>ctx_u := blk, num := 0, ctx_h := fips_block (ctx_h c1) blk\<rparr>"
      have blk: "length blk = 128" using more r(3,7) by (simp add: blk_def)
      have "\<exists>c'. update_blocks b un (addr + length rest) c2 (drop (length rest) d) = Inr c' \<and>
          sha_core h0 len (m @ d) c' \<and> Nl c' = Nl c1 \<and> Nh c' = Nh c1"
        by (rule blocks [where p = "pre @ blk" and j = "k + 1"])
           (use r blk compress_n_add [OF r(2), of h0 blk 1] in
             \<open>simp_all add: blk_def c2_def c1\<close>)
      moreover have "SHA512_Update b un addr c d =
          update_blocks b un (addr + length rest) c2 (drop (length rest) d)"
        using False suf more n num r(7) blk
        by (simp add: SHA512_Update_def c1 [symmetric] Let_def block_fn_fips c2_def blk_def)
      ultimately show ?thesis by (simp add: c1)
    qed
  qed
qed

lemma SHA512_Update_repr:
  assumes "sha_repr h0 len m c" and "length d < 2 ^ 64"
  shows "\<exists>c'. SHA512_Update b un addr c d = Inr c' \<and> sha_repr h0 len (m @ d) c'"
  using SHA512_Update_core [of h0 len m c b un addr d]
    add_length_counts [of c "length m" "length d"] assms
  by (auto simp: sha_repr_def)

subsection \<open>Padding\<close>

lemma length_store64 [simp]: "length (store64 t) = 8"
  by (simp add: store64_def)

text \<open>The code's way to store a word is the big-endian one of the standard.\<close>

lemma store64_be: "store64 t = be_bytes 8 (unat t)"
proof -
  have b: "(ucast (drop_bit k t) :: byte) = of_nat (unat t div 2 ^ k)" for k
    by (metis of_nat_unat unat_drop_bit_eq drop_bit_eq_div)
  have e: "le_bytes (numeral k) n = of_nat n # le_bytes (pred_numeral k) (n div 256)" for k n
    by (subst numeral_eq_Suc) (rule le_bytes.simps)
  have z: "(ucast t :: byte) = of_nat (unat t)" by (simp add: of_nat_unat)
  show ?thesis
    unfolding store64_def b z be_bytes_def by (simp add: e flip: div_mult2_eq)
qed

lemma le_bytes_append: "le_bytes (j + k) n = le_bytes j n @ le_bytes k (n div 256 ^ j)"
  by (induction j arbitrary: n) (simp_all add: div_mult2_eq)

lemma le_bytes_mod: "le_bytes k (n mod 256 ^ k) = le_bytes k n"
proof (induction k arbitrary: n)
  case (Suc k)
  have "n mod 256 ^ Suc k div 256 = n div 256 mod 256 ^ k" by (simp add: mod_mult2_eq)
  moreover have "(of_nat (n mod 256 ^ Suc k) :: byte) = of_nat n"
    by (rule word_unat_eqI_byte) (simp add: unat_of_nat mod_mod_cancel)
  ultimately show ?case using Suc [of "n div 256"] by (simp only: le_bytes.simps)
qed simp

lemma be_bytes_16: "be_bytes 16 n = store64 (of_nat (n div 2 ^ 64)) @ store64 (of_nat n)"
proof -
  have u: "be_bytes 8 (unat (of_nat x :: 64 word)) = be_bytes 8 x" for x
    using le_bytes_mod [of 8 x] by (simp add: be_bytes_def unat_of_nat)
  show ?thesis
    using le_bytes_append [of 8 8 n] unfolding store64_be u by (simp add: be_bytes_def)
qed

lemma store_digest_be:
  assumes "length h = 8" and "len \<in> {28, 32, 48, 64}"
  shows "store_digest len h = Some (take len (concat (map (\<lambda>w. be_bytes 8 (unat w)) h)))"
proof -
  define g where "g = (\<lambda>n. store64 (h ! n))"
  have l: "length (g n) = 8" for n by (simp add: g_def)
  have "h = map ((!) h) [0..<8]" using assms(1) map_nth [of h] by simp
  then have "map (\<lambda>w. be_bytes 8 (unat w)) h = map g [0..<8]"
    unfolding store64_be [symmetric] g_def by (metis (no_types, lifting) comp_def list.map_comp map_eq_conv)
  also have "\<dots> = [g 0, g 1, g 2, g 3, g 4, g 5, g 6, g 7]" by (simp add: upt_rec eval_nat_numeral)
  finally have m: "map (\<lambda>w. be_bytes 8 (unat w)) h = [g 0, g 1, g 2, g 3, g 4, g 5, g 6, g 7]" .
  have q: "28 div 8 = (3 :: nat)" "32 div 8 = (4 :: nat)" "48 div 8 = (6 :: nat)" "64 div 8 = (8 :: nat)" by simp_all
  have n: "map g [0..<28 div 8] = [g 0, g 1, g 2]" "map g [0..<32 div 8] = [g 0, g 1, g 2, g 3]"
    "map g [0..<48 div 8] = [g 0, g 1, g 2, g 3, g 4, g 5]"
    "map g [0..<64 div 8] = [g 0, g 1, g 2, g 3, g 4, g 5, g 6, g 7]"
    unfolding q by (simp_all add: upt_rec eval_nat_numeral)
  have k: "store64 (h ! (28 div 8)) = g 3" by (simp add: g_def)
  have "store_digest 28 h = Some (take 28 (concat [g 0, g 1, g 2, g 3, g 4, g 5, g 6, g 7]))"
    "store_digest 32 h = Some (take 32 (concat [g 0, g 1, g 2, g 3, g 4, g 5, g 6, g 7]))"
    "store_digest 48 h = Some (take 48 (concat [g 0, g 1, g 2, g 3, g 4, g 5, g 6, g 7]))"
    "store_digest 64 h = Some (take 64 (concat [g 0, g 1, g 2, g 3, g 4, g 5, g 6, g 7]))"
    unfolding store_digest_def k unfolding g_def [symmetric] n(1-4) by (simp_all add: l)
  then show ?thesis using assms(2) unfolding m by (elim insertE emptyE) (simp_all only:)
qed

text \<open>The one or two blocks that \<open>SHA512_Final\<close> hashes.\<close>

definition last_blocks :: "bytes \<Rightarrow> bytes \<Rightarrow> bytes" where
  "last_blocks suf cnt = suf @ [0x80] @
     (if length suf < 112 then replicate (111 - length suf) 0 else replicate (239 - length suf) 0) @ cnt"

definition final_result :: "bool \<Rightarrow> nat \<Rightarrow> SHA512_CTX \<Rightarrow> (int \<times> bytes \<times> SHA512_CTX) outcome" where
  "final_result null len c =
     (if null then Inr (0, [], c)
      else case store_digest len (ctx_h c) of Some md \<Rightarrow> Inr (1, md, c) | None \<Rightarrow> Inr (0, [], c))"

lemma Final_core:
  assumes "sha_core h0 len m c"
  shows "\<exists>pre suf k c'. m = pre @ suf \<and> length pre = 128 * k \<and> length suf < 128 \<and>
    ctx_h c' = compress_n (compress_n h0 pre k) (last_blocks suf (store64 (Nh c) @ store64 (Nl c)))
      (if length suf < 112 then 1 else 2) \<and> SHA512_Final b null c = final_result null len c'"
proof -
  obtain pre suf k rest where r: "m = pre @ suf" "length pre = 128 * k" "length suf < 128"
    "ctx_h c = compress_n h0 pre k" "num c = length suf" "ctx_u c = suf @ rest"
    "length rest = 128 - length suf" "md_len c = len"
    using assms by (rule sha_coreE)
  define cnt where "cnt = store64 (Nh c) @ store64 (Nl c)"
  have cnt: "length cnt = 16" by (simp add: cnt_def)
  obtain x rest' where x: "rest = x # rest'"
    using r(3,7) by (cases rest) auto
  have rest': "length rest' = 127 - length suf" using r(3,7) x by simp
  have w1: "buf_write (suf @ x # rest') (length suf) [0x80] = Inr (suf @ 0x80 # rest')"
    using buf_write_mid [of suf "length suf" "[x]" "[0x80]" rest'] by simp
  show ?thesis
  proof (cases "length suf < 112")
    case True
    define blk where "blk = suf @ 0x80 # replicate (111 - length suf) 0 @ cnt"
    define ys ws where "ys = take (111 - length suf) rest'" and "ws = drop (111 - length suf) rest'"
    have yw: "rest' = ys @ ws" "length ys = 111 - length suf" "length ws = 16"
      using rest' True by (simp_all add: ys_def ws_def)
    have w2: "buf_write (suf @ 0x80 # ys @ ws) (Suc (length suf)) (replicate (111 - length suf) 0) =
        Inr (suf @ 0x80 # replicate (111 - length suf) 0 @ ws)"
      using buf_write_mid [of "suf @ [0x80]" "Suc (length suf)" ys "replicate (111 - length suf) 0" ws]
        yw by simp
    have w3: "buf_write (suf @ 0x80 # replicate (111 - length suf) 0 @ ws) 112 cnt = Inr blk"
      using buf_write_mid [of "suf @ 0x80 # replicate (111 - length suf) 0" 112 ws cnt "[]"]
        yw cnt True by (simp add: blk_def)
    have blk: "length blk = 128" "last_blocks suf cnt = blk"
      using True cnt by (simp_all add: blk_def last_blocks_def)
    define c' where "c' = c\<lparr>ctx_u := blk, ctx_h := fips_block (ctx_h c) blk\<rparr>"
    have f: "SHA512_Final b null c = final_result null len c'"
      unfolding c'_def final_result_def using r(5,8) True blk
      by (simp add: SHA512_Final_def Let_def r(6) x w1 [unfolded yw(1)] yw(1) w2 w3 cnt_def [symmetric]
          block_fn_fips del: buf_write_fits)
    have h: "ctx_h c' = compress_n (compress_n h0 pre k) (last_blocks suf cnt)
        (if length suf < 112 then 1 else 2)"
      using blk r(4) True by (simp add: c'_def)
    show ?thesis
      unfolding cnt_def [symmetric]
      by (intro exI conjI) (rule r(1), rule r(2), rule r(3), rule h, rule f)
  next
    case False
    define blk1 blk2 where "blk1 = suf @ 0x80 # replicate (127 - length suf) (0 :: byte)"
      and "blk2 = replicate 112 0 @ cnt"
    have len: "length blk1 = 128" "length blk2 = 128"
      using False cnt r(3) by (simp_all add: blk1_def blk2_def)
    have w2: "buf_write (suf @ 0x80 # rest') (Suc (length suf)) (replicate (127 - length suf) 0) =
        Inr blk1"
      using buf_write_mid [of "suf @ [0x80]" "Suc (length suf)" rest' "replicate (127 - length suf) 0" "[]"]
        rest' by (simp add: blk1_def)
    have w3: "buf_write blk1 0 (replicate 112 0) = Inr (replicate 112 0 @ drop 112 blk1)"
      using buf_write_mid [of "[]" 0 "take 112 blk1" "replicate 112 0" "drop 112 blk1"] len by simp
    have w4: "buf_write (replicate 112 0 @ drop 112 blk1) 112 cnt = Inr blk2"
      using buf_write_mid [of "replicate 112 0" 112 "drop 112 blk1" cnt "[]"] len cnt
      by (simp add: blk2_def)
    have e: "239 - length suf = (127 - length suf) + 112" using r(3) by simp
    have last: "last_blocks suf cnt = blk1 @ blk2"
      unfolding last_blocks_def blk1_def blk2_def e using False
      by (simp only: if_False replicate_add append_assoc append_Cons append_Nil)
    define c' where "c' = c\<lparr>ctx_u := blk2, ctx_h := fips_block (fips_block (ctx_h c) blk1) blk2\<rparr>"
    have f: "SHA512_Final b null c = final_result null len c'"
      unfolding c'_def final_result_def using r(5,8) False len
      by (simp add: SHA512_Final_def Let_def r(6) x w1 w2 w3 w4 cnt_def [symmetric]
          block_fn_fips del: buf_write_fits)
    have h: "ctx_h c' = compress_n (compress_n h0 pre k) (last_blocks suf cnt)
        (if length suf < 112 then 1 else 2)"
      using len last r(4) False by (simp add: c'_def numeral_2_eq_2)
    show ?thesis
      unfolding cnt_def [symmetric]
      by (intro exI conjI) (rule r(1), rule r(2), rule r(3), rule h, rule f)
  qed
qed

lemma fips_pad_split:
  assumes "m = pre @ suf" and "length pre = 128 * k" and "length suf < 128"
  shows "fips_pad m = pre @ last_blocks suf
    (store64 (of_nat (8 * length m div 2 ^ 64)) @ store64 (of_nat (8 * length m)))"
proof -
  have m: "length m mod 128 = length suf"
    using blocks_arith(2) [OF assms(2,3)] assms(1) by simp
  have "(239 - length suf) mod 128 = 111 - length suf" if "length suf < 112"
  proof -
    have "239 - length suf = (111 - length suf) + 128" using that by simp
    then have "(239 - length suf) mod 128 = (111 - length suf) mod 128"
      by (simp only: mod_add_self2)
    then show ?thesis by simp
  qed
  moreover have "(239 - length suf) mod 128 = 239 - length suf" if "\<not> length suf < 112"
    using that by simp
  ultimately have z: "(239 - length suf) mod 128 =
      (if length suf < 112 then 111 - length suf else 239 - length suf)"
    by simp
  show ?thesis
    unfolding fips_pad_def last_blocks_def m z be_bytes_16 by (simp add: assms(1))
qed

lemma length_last_blocks:
  assumes "length suf < 128" and "length cnt = 16"
  shows "length (last_blocks suf cnt) = 128 * (if length suf < 112 then 1 else 2)"
  using assms by (simp add: last_blocks_def)

lemma SHA512_Final_repr:
  assumes "sha_repr h0 len m c" and "length h0 = 8" and "len \<in> {28, 32, 48, 64}"
  shows "\<exists>c'. SHA512_Final b null c = (if null then Inr (0, [], c') else Inr (1, fips_sha h0 len m, c'))"
proof -
  define cnt where "cnt = store64 (Nh c) @ store64 (Nl c)"
  obtain pre suf k c' where r: "m = pre @ suf" "length pre = 128 * k" "length suf < 128"
    "ctx_h c' = compress_n (compress_n h0 pre k) (last_blocks suf cnt) (if length suf < 112 then 1 else 2)"
    "SHA512_Final b null c = final_result null len c'"
    using Final_core [of h0 len m c b null] assms(1) unfolding cnt_def sha_repr_def by blast
  have pad: "fips_pad m = pre @ last_blocks suf cnt"
    using fips_pad_split [OF r(1-3)] assms(1) by (simp add: cnt_def sha_repr_def)
  have "length (fips_pad m) = 128 * (k + (if length suf < 112 then 1 else 2))"
    using length_last_blocks [OF r(3), of cnt] r(2) by (simp add: pad cnt_def)
  then have n: "length (fips_pad m) div 128 = k + (if length suf < 112 then 1 else 2)"
    by simp
  have h: "ctx_h c' = compress_n h0 (fips_pad m) (length (fips_pad m) div 128)"
    unfolding n unfolding pad compress_n_add [OF r(2)] r(4) ..
  then have "store_digest len (ctx_h c') = Some (fips_sha h0 len m)"
    using store_digest_be [OF _ assms(3), of "ctx_h c'"] assms(2) by (simp add: fips_sha_def length_compress_n)
  then show ?thesis using r(5) by (auto simp: final_result_def)
qed

subsection \<open>The functions of the file\<close>

text \<open>The initialisers of the file, each with the algorithm of the standard that it starts.\<close>

definition sha_algorithms :: "((SHA512_CTX \<Rightarrow> SHA512_CTX) \<times> (bytes \<Rightarrow> bytes)) set" where
  "sha_algorithms = {(sha512_224_init, fips_sha512_224), (sha512_256_init, fips_sha512_256),
     (SHA384_Init, fips_sha384), (SHA512_Init, fips_sha512)}"

lemma initial_values:
  "fips_H512 = [0x6a09e667f3bcc908, 0xbb67ae8584caa73b, 0x3c6ef372fe94f82b, 0xa54ff53a5f1d36f1,
     0x510e527fade682d1, 0x9b05688c2b3e6c1f, 0x1f83d9abfb41bd6b, 0x5be0cd19137e2179]"
  "fips_H384 = [0xcbbb9d5dc1059ed8, 0x629a292a367cd507, 0x9159015a3070dd17, 0x152fecd8f70e5939,
     0x67332667ffc00b31, 0x8eb44a8768581511, 0xdb0c2e0d64f98fa7, 0x47b5481dbefa4fa4]"
  unfolding fips_H_eq by simp_all

lemmas fips_digests = fips_sha512_def fips_sha384_def fips_sha512_224_def fips_sha512_256_def

lemma init_repr:
  assumes "(init, digest) \<in> sha_algorithms" and "length (ctx_u c) = 128"
  shows "\<exists>h0 len. sha_repr h0 len [] (init c) \<and> length h0 = 8 \<and> len \<in> {28, 32, 48, 64} \<and> digest = fips_sha h0 len"
proof -
  have "sha_repr h0 len [] (c\<lparr>ctx_h := h0, Nl := 0, Nh := 0, num := 0, md_len := len\<rparr>)" for h0 len
    unfolding sha_repr_def using assms(2)
    by (intro conjI sha_coreI [where pre = "[]" and suf = "[]" and k = 0]) simp_all
  note r = this
  have "sha_repr fips_H512_224 28 [] (sha512_224_init c)" "sha_repr fips_H512_256 32 [] (sha512_256_init c)"
    "sha_repr fips_H384 48 [] (SHA384_Init c)" "sha_repr fips_H512 64 [] (SHA512_Init c)"
    using r [of fips_H512_224 28] r [of fips_H512_256 32] r [of fips_H384 48] r [of fips_H512 64]
    unfolding initial_values fips_H512_224_def fips_H512_256_def sha512_224_init_def sha512_256_init_def
      SHA384_Init_def SHA512_Init_def .
  moreover have "length fips_H512_224 = 8" "length fips_H512_256 = 8" "length fips_H384 = 8" "length fips_H512 = 8"
    by (simp_all add: initial_values fips_H512_224_def fips_H512_256_def)
  moreover have "init = sha512_224_init \<and> digest = fips_sha fips_H512_224 28 \<or>
      init = sha512_256_init \<and> digest = fips_sha fips_H512_256 32 \<or>
      init = SHA384_Init \<and> digest = fips_sha fips_H384 48 \<or> init = SHA512_Init \<and> digest = fips_sha fips_H512 64"
    using assms(1) by (simp add: sha_algorithms_def fips_digests)
  ultimately show ?thesis
    by (elim disjE conjE; intro exI conjI) (assumption | simp)+
qed

text \<open>
  \<open>SHA512_Update\<close> called for one chunk after another, each with its address.
\<close>

fun update_all :: "block_impl \<Rightarrow> bool \<Rightarrow> (nat \<times> bytes) list \<Rightarrow> SHA512_CTX \<Rightarrow> SHA512_CTX outcome" where
  "update_all b un [] c = Inr c"
| "update_all b un ((addr, d) # cs) c = bindO (SHA512_Update b un addr c d) (update_all b un cs)"

lemma update_all_repr:
  assumes "sha_repr h0 len m c" and "\<forall>d\<in>snd ` set cs. length d < 2 ^ 64"
  shows "\<exists>c'. update_all b un cs c = Inr c' \<and> sha_repr h0 len (m @ concat (map snd cs)) c'"
  using assms
proof (induction cs arbitrary: m c)
  case Nil
  then show ?case by simp
next
  case (Cons x cs)
  obtain addr d where x: "x = (addr, d)" by (cases x)
  obtain c1 where c1: "SHA512_Update b un addr c d = Inr c1" "sha_repr h0 len (m @ d) c1"
    using SHA512_Update_repr [OF Cons.prems(1), of d b un addr] Cons.prems(2) x by auto
  then show ?case
    using Cons.IH [OF c1(2)] Cons.prems(2) by (simp add: x)
qed

lemma collect_and_finish:
  assumes "(init, digest) \<in> sha_algorithms" and "length (ctx_u c) = 128" and "\<forall>d\<in>snd ` set cs. length d < 2 ^ 64"
  shows "\<exists>c1 c2. update_all b un cs (init c) = Inr c1 \<and>
    SHA512_Final b False c1 = Inr (1, digest (concat (map snd cs)), c2)"
proof -
  obtain h0 len where a: "sha_repr h0 len [] (init c)" "length h0 = 8" "len \<in> {28, 32, 48, 64}" "digest = fips_sha h0 len"
    using init_repr [OF assms(1,2)] by blast
  obtain c1 where "update_all b un cs (init c) = Inr c1" "sha_repr h0 len (concat (map snd cs)) c1"
    using update_all_repr [OF a(1) assms(3)] by auto
  then show ?thesis using SHA512_Final_repr [OF _ a(2,3), of _ c1 b False] a(4) by auto
qed

text \<open>The digest functions, as functions of the message.\<close>

definition blank_ctx :: SHA512_CTX where
  "blank_ctx = \<lparr>ctx_h = replicate 8 0, Nl = 0, Nh = 0, ctx_u = replicate 128 0, num = 0, md_len = 0\<rparr>"

definition digest_of :: "bytes outcome \<Rightarrow> bytes" where
  "digest_of r = (case r of Inr d \<Rightarrow> d | Inl _ \<Rightarrow> [])"

definition sha384_fn :: "bytes \<Rightarrow> bytes" where
  "sha384_fn d = digest_of (SHA384_oneshot Unrolled True 0 blank_ctx d)"

definition sha512_fn :: "bytes \<Rightarrow> bytes" where
  "sha512_fn d = digest_of (SHA512_oneshot Unrolled True 0 blank_ctx d)"

text \<open>A one-shot call leaves a digest of the declared length, whatever the length of the data.\<close>

lemma store_digest_length:
  assumes "length h = 8" and "len \<in> {28, 32, 48, 64}"
  shows "\<exists>d. store_digest len h = Some d \<and> length d = len"
proof -
  have "length (concat (map (\<lambda>w. be_bytes 8 (unat w)) h)) = 64"
    using assms(1) by (simp add: length_concat comp_def be_bytes_def sum_list_triv)
  then show ?thesis using store_digest_be [OF assms] assms(2) by auto
qed

lemma oneshot_length:
  assumes "sha_core h0 len [] c" and "length h0 = 8" and "len \<in> {28, 32, 48, 64}"
  shows "\<exists>md. bindO (SHA512_Update b un addr c d) (\<lambda>c.
      bindO (SHA512_Final b False c) (\<lambda>(ret, md, c). Inr md)) = Inr md \<and> length md = len"
proof -
  obtain c1 where c1: "SHA512_Update b un addr c d = Inr c1" "sha_core h0 len ([] @ d) c1"
    using SHA512_Update_core [OF assms(1), of b un addr d] by blast
  obtain pre suf k c2 where c2: "ctx_h c2 = compress_n (compress_n h0 pre k) (last_blocks suf (store64 (Nh c1) @ store64 (Nl c1)))
      (if length suf < 112 then 1 else 2)" "SHA512_Final b False c1 = final_result False len c2"
    using Final_core [OF c1(2)] by blast
  have "length (ctx_h c2) = 8" using assms(2) by (simp add: c2(1) length_compress_n)
  then obtain md where "store_digest len (ctx_h c2) = Some md" "length md = len"
    using store_digest_length [OF _ assms(3)] by blast
  then show ?thesis using c1(1) c2(2) by (simp add: final_result_def)
qed

lemma init_core:
  "length (ctx_u c) = 128 \<Longrightarrow> sha_core fips_H384 48 [] (SHA384_Init c)"
  "length (ctx_u c) = 128 \<Longrightarrow> sha_core fips_H512 64 [] (SHA512_Init c)"
  by (rule sha_coreI [where pre = "[]" and suf = "[]" and k = 0];
      simp add: SHA384_Init_def SHA512_Init_def initial_values)+

interpretation sha384: digest_fn sha384_fn 48
proof
  show "length (sha384_fn x) = 48" for x
    using oneshot_length [OF init_core(1), of blank_ctx Unrolled True 0 x]
    by (auto simp: sha384_fn_def SHA384_oneshot_def digest_of_def blank_ctx_def initial_values)
qed simp

interpretation sha512: digest_fn sha512_fn 64
proof
  show "length (sha512_fn x) = 64" for x
    using oneshot_length [OF init_core(2), of blank_ctx Unrolled True 0 x]
    by (auto simp: sha512_fn_def SHA512_oneshot_def digest_of_def blank_ctx_def initial_values)
qed simp

subsection \<open>Properties\<close>

text \<open>
  C38: the three versions of \<open>sha512_block_data_order\<close> that the preprocessor can choose from (for
  i386, for a small footprint, unrolled) compute the same function, the compression function of
  FIPS 180-4, on every chaining value and block.
\<close>

theorem sha512_blocks_agree:
  "block_small hs blk = fips_block hs blk \<and> block_i386 hs blk = fips_block hs blk \<and>
   block_unrolled hs blk = fips_block hs blk"
  by (simp add: block_small_fips block_i386_fips block_unrolled_fips)

text \<open>
  C39: streaming. From any of the four initialisers, collecting a message in any number of pieces,
  at any addresses, on machines that read unaligned data or not, never writes past the context and
  \<open>SHA512_Final\<close> returns 1 with the digest of the whole message under the algorithm of FIPS 180-4 that the initialiser
  is named after (SHA-512/224, SHA-512/256, SHA-384, SHA-512), whose constants are those of the standard.
\<close>

theorem sha512_streaming:
  assumes "(init, digest) \<in> {(sha512_224_init, fips_sha512_224), (sha512_256_init, fips_sha512_256),
      (SHA384_Init, fips_sha384), (SHA512_Init, fips_sha512)}"
    and "length (ctx_u c) = 128" and "\<forall>d\<in>snd ` set cs. length d < 2 ^ 64"
  shows "\<exists>c1 c2. update_all b un cs (init c) = Inr c1 \<and>
    SHA512_Final b False c1 = Inr (1, digest (concat (map snd cs)), c2)"
  using collect_and_finish [OF _ assms(2,3)] assms(1) unfolding sha_algorithms_def .

theorem sha512_streaming_witness:
  "\<exists>c1 c2. update_all Small False [(3, [97]), (8, [98, 99])] (SHA384_Init blank_ctx) = Inr c1 \<and>
    SHA512_Final Small False c1 = Inr (1, fips_sha384 [97, 98, 99], c2)"
  using sha512_streaming [of SHA384_Init fips_sha384 blank_ctx "[(3, [97]), (8, [98, 99])]" Small False]
  by (simp add: blank_ctx_def)

text \<open>
  C40: the one-shot functions bfibe stores in its security levels return the SHA-512 and SHA-384 digests of FIPS 180-4,
  whatever version of the block function is compiled, wherever the data lies and whatever the stack
  held in place of the context.
\<close>

theorem sha512_oneshot_fips:
  assumes "length (ctx_u c) = 128" and "length d < 2 ^ 64"
  shows "SHA512_oneshot b un addr c d = Inr (fips_sha512 d) \<and> SHA384_oneshot b un addr c d = Inr (fips_sha384 d)"
  using collect_and_finish [of SHA512_Init fips_sha512 c "[(addr, d)]" b un]
    collect_and_finish [of SHA384_Init fips_sha384 c "[(addr, d)]" b un] assms
  by (auto simp: sha_algorithms_def SHA512_oneshot_def SHA384_oneshot_def elim!: bindO_eq_InrE)

theorem sha512_oneshot_fips_witness:
  "SHA512_oneshot I386 False 5 blank_ctx [97, 98, 99] = Inr (fips_sha512 [97, 98, 99])"
  using sha512_oneshot_fips [of blank_ctx "[97, 98, 99]" I386 False 5] by (simp add: blank_ctx_def)

end
