(* ===== verification/Gmp_Limbs.thy ===== *)
theory Gmp_Limbs
  imports Prelude
begin

text \<open>
  Natural numbers as arrays of limbs: the C versions of the \<open>mpn\<close> functions of GMP
  (\<open>gmp-6.2.1/mpn/generic\<close>), for limbs of 64 bits without nails. An array is the list of its limbs,
  least significant first; a function that writes \<open>n\<close> limbs returns the list of them with its return
  value. The loops read a limb of their operands before they write it, so the result array may be an
  operand, as their assertions allow. \<open>umul_ppmm\<close> is the plain C version of \<open>longlong.h\<close>.
\<close>

type_synonym limb = "64 word"
type_synonym limbs = "64 word list"

named_theorems limb_arith \<open>values of the steps on limbs\<close>

fun limbs_val :: "limbs \<Rightarrow> nat" where
  "limbs_val [] = 0"
| "limbs_val (x # xs) = unat x + 2 ^ 64 * limbs_val xs"

subsection \<open>Arithmetic of one limb\<close>

definition ll_B :: limb where
  "ll_B = push_bit 32 1"

definition ll_lowpart :: "limb \<Rightarrow> limb" where
  "ll_lowpart t = t AND (ll_B - 1)"

definition ll_highpart :: "limb \<Rightarrow> limb" where
  "ll_highpart t = drop_bit 32 t"

text \<open>The high and the low limb of a product.\<close>

definition umul_ppmm :: "limb \<Rightarrow> limb \<Rightarrow> limb \<times> limb" where
  "umul_ppmm u v =
     (let ul = ll_lowpart u; uh = ll_highpart u; vl = ll_lowpart v; vh = ll_highpart v;
          x0 = ul * vl; x1 = ul * vh; x2 = uh * vl; x3 = uh * vh;
          x1 = x1 + ll_highpart x0;
          x1 = x1 + x2;
          x3 = (if x1 < x2 then x3 + ll_B else x3)
      in (x3 + ll_highpart x1, push_bit 32 x1 + ll_lowpart x0))"

text \<open>A comparison as a limb.\<close>

definition limb_of :: "bool \<Rightarrow> limb" where
  "limb_of b = (if b then 1 else 0)"

lemma unat_limb_of [simp]: "unat (limb_of b) = of_bool b"
  by (simp add: limb_of_def)

lemma unat_limb_less [simp]: "unat (x :: limb) < 2 ^ 64"
  using unsigned_less [of x] by simp

lemma limb_add: "unat (x + y :: limb) + 2 ^ 64 * of_bool (x + y < x) = unat x + unat y"
proof -
  have "unat (x + y) = (unat x + unat y) mod 2 ^ 64" by (simp add: unat_word_ariths)
  then show ?thesis
    using unat_limb_less [of x] unat_limb_less [of y]
    by (cases "unat x + unat y < 2 ^ 64") (auto simp: word_less_nat_alt le_mod_geq)
qed

lemma limb_add': "unat (x + y :: limb) + 2 ^ 64 * of_bool (x + y < y) = unat x + unat y"
  using limb_add [of y x] by (simp add: add.commute)

lemma limb_sub: "unat (x - y :: limb) + unat y = unat x + 2 ^ 64 * of_bool (x < x - y)"
proof (cases "y \<le> x")
  case True
  then have "unat (x - y) = unat x - unat y" "unat y \<le> unat x"
    by (simp_all add: unat_sub word_le_nat_alt)
  then show ?thesis by (simp add: word_less_nat_alt)
next
  case False
  then have lt: "unat x < unat y" by (simp add: word_le_nat_alt)
  have "unat (x - y) = 2 ^ 64 + unat x - unat y"
    using lt by (simp add: unat_sub_if_size word_size)
  then show ?thesis using lt unat_limb_less [of y] by (simp add: word_less_nat_alt)
qed

lemma limb_add_small: "unat x + unat y < 2 ^ 64 \<Longrightarrow> unat (x + y :: limb) = unat x + unat y"
  by (simp add: unat_word_ariths)

lemma limb_mult_small: "unat x * unat y < 2 ^ 64 \<Longrightarrow> unat (x * y :: limb) = unat x * unat y"
  by (simp add: unat_word_ariths)

lemma unat_push:
  assumes "n \<le> 64"
  shows "unat (push_bit n (x :: limb)) = (unat x mod 2 ^ (64 - n)) * 2 ^ n"
proof -
  have "unat (push_bit n x) = take_bit LENGTH(64) (push_bit n (unat x))" by (rule unsigned_push_bit_eq)
  also have "\<dots> = (unat x * 2 ^ n) mod 2 ^ 64" by (simp add: push_bit_eq_mult take_bit_eq_mod)
  also have "(2 :: nat) ^ 64 = 2 ^ (64 - n) * 2 ^ n" using assms by (metis le_add_diff_inverse2 power_add)
  also have "(unat x * 2 ^ n) mod (2 ^ (64 - n) * 2 ^ n) = (unat x mod 2 ^ (64 - n)) * 2 ^ n"
    by (rule mod_mult_mult2)
  finally show ?thesis .
qed

lemma unat_drop: "unat (drop_bit n (x :: limb)) = unat x div 2 ^ n"
  using unat_drop_bit_eq [of n x] drop_bit_eq_div [of n "unat x"] by simp

lemma unat_parts:
  "unat (ll_lowpart t) = unat t mod 2 ^ 32" "unat (ll_highpart t) = unat t div 2 ^ 32" "unat ll_B = 2 ^ 32"
proof -
  have "ll_B - 1 = mask 32" by (simp add: ll_B_def mask_eq_exp_minus_1)
  then have low: "ll_lowpart t = take_bit 32 t"
    by (simp only: ll_lowpart_def take_bit_eq_mask)
  have "unat (take_bit 32 t) = take_bit 32 (unat t)" by (rule unsigned_take_bit_eq)
  also have "\<dots> = unat t mod 2 ^ 32" by (rule take_bit_eq_mod)
  finally show "unat (ll_lowpart t) = unat t mod 2 ^ 32" by (simp only: low)
  show "unat (ll_highpart t) = unat t div 2 ^ 32" by (simp only: ll_highpart_def unat_drop)
qed (simp add: ll_B_def)

lemma product_parts:
  fixes w :: nat
  assumes "w = x3 * 2 ^ 64 + (x1 + x2) * 2 ^ 32 + x0" and "x0 = 2 ^ 32 * q + r" and "z = 2 ^ 32 * s + t"
    and "x1 + x2 + q = z + 2 ^ 64 * c"
  shows "w = (x3 + 2 ^ 32 * c + s) * 2 ^ 64 + t * 2 ^ 32 + r"
  using assms by (simp add: algebra_simps)

lemma product_high:
  fixes a :: nat
  assumes "a * 2 ^ 64 + t + r < 2 ^ 64 * 2 ^ 64"
  shows "a < 2 ^ 64"
  using assms by simp

lemma umul_ppmm_val:
  assumes "umul_ppmm u v = (h, l)"
  shows "unat l + 2 ^ 64 * unat h = unat u * unat v"
proof -
  define ul uh vl vh where d: "ul = unat u mod 2 ^ 32" "uh = unat u div 2 ^ 32"
    "vl = unat v mod 2 ^ 32" "vh = unat v div 2 ^ 32"
  have small: "ul < 2 ^ 32" "uh < 2 ^ 32" "vl < 2 ^ 32" "vh < 2 ^ 32"
    using unat_limb_less [of u] unat_limb_less [of v] by (simp_all add: d less_mult_imp_div_less)
  have prod: "a * b \<le> (2 ^ 32 - 1) * (2 ^ 32 - 1)" if "a < 2 ^ 32" "b < 2 ^ 32" for a b :: nat
    using that by (intro mult_le_mono) simp_all
  define x0 x1 x2 x3 where x: "x0 = ll_lowpart u * ll_lowpart v" "x1 = ll_lowpart u * ll_highpart v"
    "x2 = ll_highpart u * ll_lowpart v" "x3 = ll_highpart u * ll_highpart v"
  have xs: "unat x0 = ul * vl" "unat x1 = ul * vh" "unat x2 = uh * vl" "unat x3 = uh * vh"
    unfolding x using prod [OF small(1,3)] prod [OF small(1,4)] prod [OF small(2,3)] prod [OF small(2,4)]
    by (subst limb_mult_small; simp add: unat_parts d)+
  define y1 where "y1 = x1 + ll_highpart x0"
  have y1: "unat y1 = unat x1 + unat x0 div 2 ^ 32"
  proof -
    have "unat x0 div 2 ^ 32 < 2 ^ 32" using unat_limb_less [of x0] by (simp add: less_mult_imp_div_less)
    then show ?thesis
      unfolding y1_def using prod [OF small(1,4)] xs(2) by (subst limb_add_small) (simp_all add: unat_parts)
  qed
  define z1 where "z1 = y1 + x2"
  have z1: "unat z1 + 2 ^ 64 * of_bool (z1 < x2) = unat y1 + unat x2"
    unfolding z1_def by (rule limb_add')
  define c :: nat where "c = of_bool (z1 < x2)"
  define z3 where "z3 = (if z1 < x2 then x3 + ll_B else x3)"
  have hl: "h = z3 + ll_highpart z1" "l = push_bit 32 z1 + ll_lowpart x0"
    using assms unfolding umul_ppmm_def Let_def x y1_def z1_def z3_def by (simp_all only: prod.inject)
  have uv: "unat u = 2 ^ 32 * uh + ul" "unat v = 2 ^ 32 * vh + vl" by (simp_all add: d)
  have total: "unat u * unat v = (unat x3 + 2 ^ 32 * c + unat z1 div 2 ^ 32) * 2 ^ 64 +
      (unat z1 mod 2 ^ 32) * 2 ^ 32 + unat x0 mod 2 ^ 32"
  proof -
    have "unat u * unat v = unat x3 * 2 ^ 64 + (unat x1 + unat x2) * 2 ^ 32 + unat x0"
      by (simp add: uv xs algebra_simps)
    moreover have "unat x0 = 2 ^ 32 * (unat x0 div 2 ^ 32) + unat x0 mod 2 ^ 32"
      "unat z1 = 2 ^ 32 * (unat z1 div 2 ^ 32) + unat z1 mod 2 ^ 32" by simp_all
    moreover have "unat x1 + unat x2 + unat x0 div 2 ^ 32 = unat z1 + 2 ^ 64 * c"
      using z1 y1 by (simp add: c_def)
    ultimately show ?thesis by (rule product_parts)
  qed
  have "unat u * unat v < 2 ^ 64 * 2 ^ 64"
    by (intro mult_strict_mono unat_limb_less) simp_all
  then have bound: "unat x3 + 2 ^ 32 * c + unat z1 div 2 ^ 32 < 2 ^ 64"
    unfolding total by (rule product_high)
  have "unat z3 = unat x3 + 2 ^ 32 * c"
    using bound by (auto simp: z3_def c_def limb_add_small unat_parts)
  then have h: "unat h = unat x3 + 2 ^ 32 * c + unat z1 div 2 ^ 32"
    using bound unfolding hl(1) by (subst limb_add_small) (simp_all add: unat_parts)
  have "unat (push_bit 32 z1) = (unat z1 mod 2 ^ 32) * 2 ^ 32"
    using unat_push [of 32 z1] by simp
  moreover have "(unat z1 mod 2 ^ 32) * 2 ^ 32 + unat x0 mod 2 ^ 32 < 2 ^ 64" by simp
  ultimately have l: "unat l = (unat z1 mod 2 ^ 32) * 2 ^ 32 + unat x0 mod 2 ^ 32"
    unfolding hl(2) by (subst limb_add_small) (simp_all add: unat_parts)
  show ?thesis unfolding total h l by simp
qed

subsection \<open>The functions\<close>

text \<open>\<open>mpn_add_n\<close> and \<open>mpn_sub_n\<close> on operands of the same length: the carry and the limbs.\<close>

fun add_n_loop :: "limbs \<Rightarrow> limbs \<Rightarrow> limb \<Rightarrow> limb \<times> limbs" where
  "add_n_loop (ul # up) (vl # vp) cy =
     (let sl = ul + vl; cy1 = limb_of (sl < ul); rl = sl + cy; cy2 = limb_of (rl < sl);
          (c, rp) = add_n_loop up vp (cy1 OR cy2)
      in (c, rl # rp))"
| "add_n_loop up vp cy = (cy, [])"

definition mpn_add_n :: "limbs \<Rightarrow> limbs \<Rightarrow> limb \<times> limbs" where
  "mpn_add_n up vp = add_n_loop up vp 0"

fun sub_n_loop :: "limbs \<Rightarrow> limbs \<Rightarrow> limb \<Rightarrow> limb \<times> limbs" where
  "sub_n_loop (ul # up) (vl # vp) cy =
     (let sl = ul - vl; cy1 = limb_of (ul < sl); rl = sl - cy; cy2 = limb_of (sl < rl);
          (c, rp) = sub_n_loop up vp (cy1 OR cy2)
      in (c, rl # rp))"
| "sub_n_loop up vp cy = (cy, [])"

definition mpn_sub_n :: "limbs \<Rightarrow> limbs \<Rightarrow> limb \<times> limbs" where
  "mpn_sub_n up vp = sub_n_loop up vp 0"

text \<open>\<open>mpn_mul_1\<close>, \<open>mpn_addmul_1\<close> and \<open>mpn_submul_1\<close>; the last two take the limbs at \<open>rp\<close> first.\<close>

fun mul_1_loop :: "limbs \<Rightarrow> limb \<Rightarrow> limb \<Rightarrow> limb \<times> limbs" where
  "mul_1_loop [] vl cl = (cl, [])"
| "mul_1_loop (ul # up) vl cl =
     (let (hpl, lpl) = umul_ppmm ul vl; lpl = lpl + cl; cl = limb_of (lpl < cl) + hpl;
          (c, rp) = mul_1_loop up vl cl
      in (c, lpl # rp))"

definition mpn_mul_1 :: "limbs \<Rightarrow> limb \<Rightarrow> limb \<times> limbs" where
  "mpn_mul_1 up vl = mul_1_loop up vl 0"

fun addmul_1_loop :: "limbs \<Rightarrow> limbs \<Rightarrow> limb \<Rightarrow> limb \<Rightarrow> limb \<times> limbs" where
  "addmul_1_loop (r0 # rp) (u0 # up) v0 crec =
     (let (p1, p0) = umul_ppmm u0 v0; p0 = r0 + p0; c = limb_of (p0 < r0); p1 = p1 + c;
          r0 = p0 + crec; c = limb_of (r0 < p0); crec = p1 + c;
          (cy, rp) = addmul_1_loop rp up v0 crec
      in (cy, r0 # rp))"
| "addmul_1_loop rp up v0 crec = (crec, [])"

definition mpn_addmul_1 :: "limbs \<Rightarrow> limbs \<Rightarrow> limb \<Rightarrow> limb \<times> limbs" where
  "mpn_addmul_1 rp up v0 = addmul_1_loop rp up v0 0"

fun submul_1_loop :: "limbs \<Rightarrow> limbs \<Rightarrow> limb \<Rightarrow> limb \<Rightarrow> limb \<times> limbs" where
  "submul_1_loop (r0 # rp) (u0 # up) v0 crec =
     (let (p1, p0) = umul_ppmm u0 v0; p0 = r0 - p0; c = limb_of (r0 < p0); p1 = p1 + c;
          r0 = p0 - crec; c = limb_of (p0 < r0); crec = p1 + c;
          (cy, rp) = submul_1_loop rp up v0 crec
      in (cy, r0 # rp))"
| "submul_1_loop rp up v0 crec = (crec, [])"

definition mpn_submul_1 :: "limbs \<Rightarrow> limbs \<Rightarrow> limb \<Rightarrow> limb \<times> limbs" where
  "mpn_submul_1 rp up v0 = submul_1_loop rp up v0 0"

text \<open>Shifts by \<open>cnt\<close> bits, \<open>0 < cnt < 64\<close>: from the most, and from the least significant limb.\<close>

fun lshift_loop :: "nat \<Rightarrow> limb \<Rightarrow> limbs \<Rightarrow> limbs" where
  "lshift_loop cnt high_limb [] = [high_limb]"
| "lshift_loop cnt high_limb (low_limb # up) =
     (high_limb OR drop_bit (64 - cnt) low_limb) # lshift_loop cnt (push_bit cnt low_limb) up"

definition mpn_lshift :: "limbs \<Rightarrow> nat \<Rightarrow> limb \<times> limbs" where
  "mpn_lshift up cnt =
     (case rev up of [] \<Rightarrow> (0, [])
      | low_limb # up \<Rightarrow>
          (drop_bit (64 - cnt) low_limb, rev (lshift_loop cnt (push_bit cnt low_limb) up)))"

fun rshift_loop :: "nat \<Rightarrow> limb \<Rightarrow> limbs \<Rightarrow> limbs" where
  "rshift_loop cnt low_limb [] = [low_limb]"
| "rshift_loop cnt low_limb (high_limb # up) =
     (low_limb OR push_bit (64 - cnt) high_limb) # rshift_loop cnt (drop_bit cnt high_limb) up"

definition mpn_rshift :: "limbs \<Rightarrow> nat \<Rightarrow> limb \<times> limbs" where
  "mpn_rshift up cnt =
     (case up of [] \<Rightarrow> (0, [])
      | high_limb # up \<Rightarrow>
          (push_bit (64 - cnt) high_limb, rshift_loop cnt (drop_bit cnt high_limb) up))"

definition mpn_com :: "limbs \<Rightarrow> limbs" where
  "mpn_com up = map (\<lambda>ul. NOT ul) up"

text \<open>\<open>mpn_cmp\<close>, from the most significant limb.\<close>

fun cmp_loop :: "limbs \<Rightarrow> limbs \<Rightarrow> int" where
  "cmp_loop (x # xp) (y # yp) = (if x \<noteq> y then (if y < x then 1 else -1) else cmp_loop xp yp)"
| "cmp_loop xp yp = 0"

definition mpn_cmp :: "limbs \<Rightarrow> limbs \<Rightarrow> int" where
  "mpn_cmp xp yp = cmp_loop (rev xp) (rev yp)"

text \<open>
  The inline functions of \<open>gmp-h.in\<close>: \<open>mpn_add_1\<close>, and \<open>mpn_add\<close>, \<open>mpn_sub\<close> on operands of which the
  first is not shorter.
\<close>

fun add_1_rest :: "limbs \<Rightarrow> limb \<times> limbs" where
  "add_1_rest [] = (1, [])"
| "add_1_rest (x # src) =
     (let r = x + 1
      in if r < 1 then (let (cout, dst) = add_1_rest src in (cout, r # dst)) else (0, r # src))"

definition mpn_add_1 :: "limbs \<Rightarrow> limb \<Rightarrow> limb \<times> limbs" where
  "mpn_add_1 src v =
     (case src of [] \<Rightarrow> (0, [])
      | x # src \<Rightarrow>
          let r = x + v
          in if r < v then (let (cout, dst) = add_1_rest src in (cout, r # dst)) else (0, r # src))"

fun add_rest :: "limbs \<Rightarrow> limb \<times> limbs" where
  "add_rest [] = (1, [])"
| "add_rest (x # xp) =
     (let w = x + 1 in if w = 0 then (let (cout, wp) = add_rest xp in (cout, w # wp)) else (0, w # xp))"

definition mpn_add :: "limbs \<Rightarrow> limbs \<Rightarrow> limb \<times> limbs" where
  "mpn_add xp yp =
     (let i = length yp
      in if i \<noteq> 0 then
           let (cy, wp) = mpn_add_n (take i xp) yp
           in if cy \<noteq> 0 then (let (cout, rest) = add_rest (drop i xp) in (cout, wp @ rest))
              else (0, wp @ drop i xp)
         else (0, xp))"

fun sub_rest :: "limbs \<Rightarrow> limb \<times> limbs" where
  "sub_rest [] = (1, [])"
| "sub_rest (x # xp) =
     (let w = x - 1 in if x = 0 then (let (cout, wp) = sub_rest xp in (cout, w # wp)) else (0, w # xp))"

definition mpn_sub :: "limbs \<Rightarrow> limbs \<Rightarrow> limb \<times> limbs" where
  "mpn_sub xp yp =
     (let i = length yp
      in if i \<noteq> 0 then
           let (cy, wp) = mpn_sub_n (take i xp) yp
           in if cy \<noteq> 0 then (let (cout, rest) = sub_rest (drop i xp) in (cout, wp @ rest))
              else (0, wp @ drop i xp)
         else (0, xp))"

text \<open>\<open>MPN_NORMALIZE\<close>: the number of limbs up to the last that is not zero.\<close>

fun mpn_normalize :: "limbs \<Rightarrow> nat \<Rightarrow> nat" where
  "mpn_normalize p 0 = 0"
| "mpn_normalize p (Suc n) = (if p ! n \<noteq> 0 then Suc n else mpn_normalize p n)"

text \<open>
  \<open>mpn_mul_basecase\<close> in the area \<open>rp\<close> of \<open>un + vn\<close> limbs; \<open>k\<close> is how far \<open>rp\<close> has moved on.
\<close>

fun mul_basecase_loop :: "limbs \<Rightarrow> limbs \<Rightarrow> nat \<Rightarrow> limbs \<Rightarrow> limbs" where
  "mul_basecase_loop up [] k rp = rp"
| "mul_basecase_loop up (v # vp) k rp =
     (let un = length up; (cy, w) = mpn_addmul_1 (take un (drop k rp)) up v
      in mul_basecase_loop up vp (k + 1) (take k rp @ w @ [cy] @ drop (k + un + 1) rp))"

definition mpn_mul_basecase :: "limbs \<Rightarrow> limbs \<Rightarrow> limbs \<Rightarrow> limbs" where
  "mpn_mul_basecase rp up vp =
     (case vp of [] \<Rightarrow> rp
      | v # vp \<Rightarrow>
          let (cy, w) = mpn_mul_1 up v
          in mul_basecase_loop up vp 1 (w @ [cy] @ drop (length up + 1) rp))"

subsection \<open>What they compute\<close>

lemma limb_of_or [simp]: "limb_of a OR limb_of b = limb_of (a \<or> b)"
  by (simp add: limb_of_def)

lemma limbs_val_append: "limbs_val (xs @ ys) = limbs_val xs + 2 ^ (64 * length xs) * limbs_val ys"
  by (induction xs) (simp_all add: power_add algebra_simps)

lemma limbs_val_bound: "limbs_val xs < 2 ^ (64 * length xs)"
proof (induction xs)
  case (Cons x xs)
  have "limbs_val xs + 1 \<le> 2 ^ (64 * length xs)" using Cons by simp
  then have "2 ^ 64 * (limbs_val xs + 1) \<le> 2 ^ 64 * 2 ^ (64 * length xs)" by (rule mult_le_mono2)
  moreover have "unat x < 2 ^ 64" by (rule unat_limb_less)
  ultimately have "unat x + 2 ^ 64 * limbs_val xs < 2 ^ 64 * 2 ^ (64 * length xs)" by simp
  then show ?case by (simp add: power_add)
qed simp

lemma add_step:
  fixes ul vl cy :: limb
  assumes "unat cy \<le> 1"
  defines "sl \<equiv> ul + vl" and "rl \<equiv> ul + vl + cy"
  shows "unat rl + 2 ^ 64 * unat (limb_of (sl < ul \<or> rl < sl)) = unat ul + unat vl + unat cy"
  using limb_add [of ul vl] limb_add [of sl cy] assms(1) unat_limb_less [of ul] unat_limb_less [of vl]
    unat_limb_less [of rl]
  unfolding sl_def [symmetric] rl_def [folded sl_def, symmetric]
  by (cases "sl < ul"; cases "rl < sl") simp_all

lemma sub_step:
  fixes ul vl cy :: limb
  assumes "unat cy \<le> 1"
  defines "sl \<equiv> ul - vl" and "rl \<equiv> ul - vl - cy"
  shows "unat rl + unat vl + unat cy = unat ul + 2 ^ 64 * unat (limb_of (ul < sl \<or> sl < rl))"
  using limb_sub [of ul vl] limb_sub [of sl cy] assms(1) unat_limb_less [of rl] unat_limb_less [of sl]
    unat_limb_less [of ul] unat_limb_less [of vl]
  unfolding sl_def [symmetric] rl_def [folded sl_def, symmetric]
  by (cases "ul < sl"; cases "sl < rl") simp_all

lemma add_n_loop_val:
  assumes "length up = length vp" and "unat cy \<le> 1" and "add_n_loop up vp cy = (c, rp)"
  shows "length rp = length up \<and> unat c \<le> 1 \<and>
    limbs_val rp + 2 ^ (64 * length up) * unat c = limbs_val up + limbs_val vp + unat cy"
  using assms
proof (induction up vp cy arbitrary: c rp rule: add_n_loop.induct)
  case (1 ul up vl vp cy)
  define b where "b = limb_of (ul + vl < ul) OR limb_of (ul + vl + cy < ul + vl)"
  obtain c' rp' where r: "add_n_loop up vp b = (c', rp')" by fastforce
  then have rp: "rp = (ul + vl + cy) # rp'" "c = c'" using "1.prems"(3) by (simp_all add: b_def Let_def)
  have "length rp' = length up \<and> unat c' \<le> 1 \<and>
      limbs_val rp' + 2 ^ (64 * length up) * unat c' = limbs_val up + limbs_val vp + unat b"
    using "1.IH" [OF refl refl refl refl, of c' rp'] "1.prems"(1) r by (simp add: b_def)
  moreover have "unat (ul + vl + cy) + 2 ^ 64 * unat b = unat ul + unat vl + unat cy"
    using add_step [OF "1.prems"(2), of ul vl] by (simp add: b_def)
  ultimately show ?case unfolding rp by (auto simp: power_add algebra_simps)
qed auto

end
