(* ===== verification/Gmp_Limbs_Correct.thy ===== *)
theory Gmp_Limbs_Correct
  imports Gmp_Limbs
begin

text \<open>
  The functions on limbs compute what the arithmetic of numbers says: a lemma for the step of each
  loop, one for the loop by induction over the limbs, and the function.
\<close>

subsection \<open>Products\<close>

lemma limb_le: "unat (x :: limb) \<le> 2 ^ 64 - 1"
  using unat_limb_less [of x] by simp

lemma limb_prod_le: "unat (u :: limb) * unat (v :: limb) \<le> (2 ^ 64 - 1) * (2 ^ 64 - 1)"
  by (rule mult_le_mono [OF limb_le limb_le])

lemma high_carry:
  fixes h :: limb
  assumes "a + 2 ^ 64 * (unat h + n) \<le> 2 ^ 64 * 2 ^ 64 - 1" and "unat x = n"
  shows "unat (h + x) = unat h + n"
proof -
  have "unat h + n < 2 ^ 64" using assms(1) by simp
  then show ?thesis using assms(2) by (simp add: limb_add_small)
qed

lemma mul_step:
  fixes ul vl cl :: limb
  assumes "umul_ppmm ul vl = (h, l)"
  shows "unat (l + cl) + 2 ^ 64 * unat (limb_of (l + cl < cl) + h) = unat ul * unat vl + unat cl"
proof -
  define n :: nat where "n = of_bool (l + cl < cl)"
  have e: "unat (l + cl) + 2 ^ 64 * (unat h + n) = unat ul * unat vl + unat cl"
    using umul_ppmm_val [OF assms] limb_add' [of l cl] by (simp add: n_def)
  have "unat ul * unat vl + unat cl \<le> 2 ^ 64 * 2 ^ 64 - 1"
    using limb_prod_le [of ul vl] limb_le [of cl] by simp
  then have "unat (h + limb_of (l + cl < cl)) = unat h + n"
    using e by (intro high_carry [of "unat (l + cl)"]) (simp_all add: n_def)
  then show ?thesis using e by (simp add: add.commute)
qed

lemma addmul_step:
  fixes r0 u0 v0 crec :: limb
  assumes "umul_ppmm u0 v0 = (p1, p0)"
  defines "q0 \<equiv> r0 + p0"
  shows "unat (q0 + crec) + 2 ^ 64 * unat (p1 + limb_of (q0 < r0) + limb_of (q0 + crec < q0)) =
    unat u0 * unat v0 + unat r0 + unat crec"
proof -
  define m n :: nat where "m = of_bool (q0 < r0)" and "n = of_bool (q0 + crec < q0)"
  have e: "unat (q0 + crec) + 2 ^ 64 * (unat p1 + m + n) = unat u0 * unat v0 + unat r0 + unat crec"
    using umul_ppmm_val [OF assms(1)] limb_add [of r0 p0] limb_add [of q0 crec]
    by (simp add: m_def n_def q0_def)
  have le: "unat u0 * unat v0 + unat r0 + unat crec \<le> 2 ^ 64 * 2 ^ 64 - 1"
    using limb_prod_le [of u0 v0] limb_le [of r0] limb_le [of crec] by simp
  have m: "unat (p1 + limb_of (q0 < r0)) = unat p1 + m"
    using e le by (intro high_carry [of 0]) (simp_all add: m_def)
  have "unat (p1 + limb_of (q0 < r0) + limb_of (q0 + crec < q0)) = unat (p1 + limb_of (q0 < r0)) + n"
    using e le m by (intro high_carry [of "unat (q0 + crec)"]) (simp_all add: n_def)
  then show ?thesis using e m by simp
qed

lemma submul_step:
  fixes r0 u0 v0 crec :: limb
  assumes "umul_ppmm u0 v0 = (p1, p0)"
  defines "q0 \<equiv> r0 - p0"
  shows "unat (q0 - crec) + unat u0 * unat v0 + unat crec =
    unat r0 + 2 ^ 64 * unat (p1 + limb_of (r0 < q0) + limb_of (q0 < q0 - crec))"
proof -
  define m n :: nat where "m = of_bool (r0 < q0)" and "n = of_bool (q0 < q0 - crec)"
  have e: "unat (q0 - crec) + unat u0 * unat v0 + unat crec = unat r0 + 2 ^ 64 * (unat p1 + m + n)"
    using umul_ppmm_val [OF assms(1)] limb_sub [of r0 p0] limb_sub [of q0 crec]
    by (simp add: m_def n_def q0_def)
  have le: "unat (q0 - crec) + unat u0 * unat v0 + unat crec \<le> 2 ^ 64 * 2 ^ 64 - 1"
    using limb_prod_le [of u0 v0] limb_le [of "q0 - crec"] limb_le [of crec] by simp
  have m: "unat (p1 + limb_of (r0 < q0)) = unat p1 + m"
    using e le by (intro high_carry [of 0]) (simp_all add: m_def)
  have "unat (p1 + limb_of (r0 < q0) + limb_of (q0 < q0 - crec)) = unat (p1 + limb_of (r0 < q0)) + n"
    using e le m by (intro high_carry [of "unat r0"]) (simp_all add: n_def)
  then show ?thesis using e m by simp
qed

subsection \<open>Loops\<close>

lemma mpn_add_n_val:
  assumes "length up = length vp" and "mpn_add_n up vp = (c, rp)"
  shows "length rp = length up" and "unat c \<le> 1"
    and "limbs_val rp + 2 ^ (64 * length up) * unat c = limbs_val up + limbs_val vp"
  using add_n_loop_val [of up vp 0 c rp] assms by (simp_all add: mpn_add_n_def)

lemma sub_n_loop_val:
  assumes "length up = length vp" and "unat cy \<le> 1" and "sub_n_loop up vp cy = (c, rp)"
  shows "length rp = length up \<and> unat c \<le> 1 \<and>
    limbs_val rp + limbs_val vp + unat cy = limbs_val up + 2 ^ (64 * length up) * unat c"
  using assms
proof (induction up vp cy arbitrary: c rp rule: sub_n_loop.induct)
  case (1 ul up vl vp cy)
  define b where "b = limb_of (ul < ul - vl) OR limb_of (ul - vl < ul - vl - cy)"
  obtain c' rp' where r: "sub_n_loop up vp b = (c', rp')" by fastforce
  then have rp: "rp = (ul - vl - cy) # rp'" "c = c'" using "1.prems"(3) by (simp_all add: b_def Let_def)
  have "length rp' = length up \<and> unat c' \<le> 1 \<and>
      limbs_val rp' + limbs_val vp + unat b = limbs_val up + 2 ^ (64 * length up) * unat c'"
    using "1.IH" [OF refl refl refl refl, of c' rp'] "1.prems"(1) r by (simp add: b_def)
  moreover have "unat (ul - vl - cy) + unat vl + unat cy = unat ul + 2 ^ 64 * unat b"
    using sub_step [OF "1.prems"(2), of ul vl] by (simp add: b_def)
  ultimately show ?case unfolding rp by (auto simp: power_add algebra_simps)
qed auto

lemma mpn_sub_n_val:
  assumes "length up = length vp" and "mpn_sub_n up vp = (c, rp)"
  shows "length rp = length up" and "unat c \<le> 1"
    and "limbs_val rp + limbs_val vp = limbs_val up + 2 ^ (64 * length up) * unat c"
  using sub_n_loop_val [of up vp 0 c rp] assms by (simp_all add: mpn_sub_n_def)

lemma mul_1_loop_val:
  assumes "mul_1_loop up vl cl = (c, rp)"
  shows "length rp = length up \<and>
    limbs_val rp + 2 ^ (64 * length up) * unat c = limbs_val up * unat vl + unat cl"
  using assms
proof (induction up arbitrary: cl c rp)
  case (Cons ul up)
  obtain h l where hl: "umul_ppmm ul vl = (h, l)" by fastforce
  obtain c' rp' where r: "mul_1_loop up vl (limb_of (l + cl < cl) + h) = (c', rp')" by fastforce
  have rp: "rp = (l + cl) # rp'" "c = c'" using Cons.prems hl r by (simp_all add: Let_def)
  show ?case using Cons.IH [OF r] mul_step [OF hl, of cl] unfolding rp
    by (auto simp: power_add algebra_simps)
qed simp

lemma mpn_mul_1_val:
  assumes "mpn_mul_1 up vl = (c, rp)"
  shows "length rp = length up"
    and "limbs_val rp + 2 ^ (64 * length up) * unat c = limbs_val up * unat vl"
  using mul_1_loop_val [of up vl 0 c rp] assms by (simp_all add: mpn_mul_1_def)

lemma addmul_1_loop_val:
  assumes "length rp = length up" and "addmul_1_loop rp up v0 crec = (c, rp')"
  shows "length rp' = length up \<and>
    limbs_val rp' + 2 ^ (64 * length up) * unat c = limbs_val rp + limbs_val up * unat v0 + unat crec"
  using assms
proof (induction rp up arbitrary: crec c rp' rule: list_induct2)
  case (Cons r0 rp u0 up)
  obtain p1 p0 where p: "umul_ppmm u0 v0 = (p1, p0)" by fastforce
  define q0 where "q0 = r0 + p0"
  define k where "k = p1 + limb_of (q0 < r0) + limb_of (q0 + crec < q0)"
  obtain c' s where r: "addmul_1_loop rp up v0 k = (c', s)" by fastforce
  have rp: "rp' = (q0 + crec) # s" "c = c'"
    using Cons.prems p r by (simp_all add: Let_def q0_def k_def)
  have "unat (q0 + crec) + 2 ^ 64 * unat k = unat u0 * unat v0 + unat r0 + unat crec"
    using addmul_step [OF p, of r0 crec] by (simp add: q0_def k_def)
  then show ?case using Cons.IH [OF r] unfolding rp by (auto simp: power_add algebra_simps)
qed simp

lemma mpn_addmul_1_val:
  assumes "length rp = length up" and "mpn_addmul_1 rp up v0 = (c, rp')"
  shows "length rp' = length up"
    and "limbs_val rp' + 2 ^ (64 * length up) * unat c = limbs_val rp + limbs_val up * unat v0"
  using addmul_1_loop_val [of rp up v0 0 c rp'] assms by (simp_all add: mpn_addmul_1_def)

lemma submul_1_loop_val:
  assumes "length rp = length up" and "submul_1_loop rp up v0 crec = (c, rp')"
  shows "length rp' = length up \<and>
    limbs_val rp' + limbs_val up * unat v0 + unat crec = limbs_val rp + 2 ^ (64 * length up) * unat c"
  using assms
proof (induction rp up arbitrary: crec c rp' rule: list_induct2)
  case (Cons r0 rp u0 up)
  obtain p1 p0 where p: "umul_ppmm u0 v0 = (p1, p0)" by fastforce
  define q0 where "q0 = r0 - p0"
  define k where "k = p1 + limb_of (r0 < q0) + limb_of (q0 < q0 - crec)"
  obtain c' s where r: "submul_1_loop rp up v0 k = (c', s)" by fastforce
  have rp: "rp' = (q0 - crec) # s" "c = c'"
    using Cons.prems p r by (simp_all add: Let_def q0_def k_def)
  have "unat (q0 - crec) + unat u0 * unat v0 + unat crec = unat r0 + 2 ^ 64 * unat k"
    using submul_step [OF p, of r0 crec] by (simp add: q0_def k_def)
  then show ?case using Cons.IH [OF r] unfolding rp by (auto simp: power_add algebra_simps)
qed simp

lemma mpn_submul_1_val:
  assumes "length rp = length up" and "mpn_submul_1 rp up v0 = (c, rp')"
  shows "length rp' = length up"
    and "limbs_val rp' + limbs_val up * unat v0 = limbs_val rp + 2 ^ (64 * length up) * unat c"
  using submul_1_loop_val [of rp up v0 0 c rp'] assms by (simp_all add: mpn_submul_1_def)

subsection \<open>Shifts\<close>

lemma limb_or_push:
  fixes x y :: limb
  assumes "unat x < 2 ^ k" and "k \<le> 64"
  shows "unat (x OR push_bit k y) = unat x + (unat y mod 2 ^ (64 - k)) * 2 ^ k"
proof -
  have "take_bit k (unat x) = unat x" using assms(1) by (simp add: take_bit_nat_eq_self)
  then have "take_bit k x = x" by (metis unsigned_take_bit_eq unsigned_word_eqI)
  then have "\<not> bit x n" if "k \<le> n" for n
    using that by (metis bit_take_bit_iff not_le)
  then have "x AND push_bit k y = 0"
    by (intro bit_eqI) (auto simp: bit_simps)
  then have or: "x OR push_bit k y = x + push_bit k y" by (simp add: disjunctive_add_eq_or)
  have "(unat y mod 2 ^ (64 - k) + 1) * 2 ^ k \<le> 2 ^ (64 - k) * 2 ^ k"
    by (rule mult_le_mono1) (simp add: Suc_le_eq)
  also have "(2 :: nat) ^ (64 - k) * 2 ^ k = 2 ^ 64" using assms(2) by (metis le_add_diff_inverse2 power_add)
  finally have "unat x + (unat y mod 2 ^ (64 - k)) * 2 ^ k < 2 ^ 64" using assms(1) by simp
  then show ?thesis
    unfolding or using unat_push [OF assms(2), of y] by (simp add: limb_add_small)
qed

lemma drop_small: "k \<le> 64 \<Longrightarrow> unat (drop_bit k (x :: limb)) < 2 ^ (64 - k)"
  unfolding unat_drop using unat_limb_less [of x]
  by (metis le_add_diff_inverse2 less_mult_imp_div_less power_add)

lemma split_limb: "k \<le> 64 \<Longrightarrow> (unat (x :: limb) mod 2 ^ k) * 2 ^ (64 - k) + 2 ^ 64 * (unat x div 2 ^ k) =
    2 ^ (64 - k) * unat x"
proof -
  assume "k \<le> 64"
  then have "(2 :: nat) ^ 64 = 2 ^ (64 - k) * 2 ^ k" by (metis le_add_diff_inverse2 power_add)
  then have "(unat x mod 2 ^ k) * 2 ^ (64 - k) + 2 ^ 64 * (unat x div 2 ^ k) =
      2 ^ (64 - k) * (unat x mod 2 ^ k + 2 ^ k * (unat x div 2 ^ k))"
    by (simp only: algebra_simps)
  then show ?thesis by simp
qed

lemma rshift_loop_val:
  assumes "0 < cnt" and "cnt < 64" and "unat low < 2 ^ (64 - cnt)"
  shows "length (rshift_loop cnt low up) = length up + 1 \<and>
    limbs_val (rshift_loop cnt low up) = unat low + 2 ^ (64 - cnt) * limbs_val up"
  using assms(3)
proof (induction up arbitrary: low)
  case (Cons h up)
  have "unat (low OR push_bit (64 - cnt) h) = unat low + (unat h mod 2 ^ cnt) * 2 ^ (64 - cnt)"
    using limb_or_push [OF Cons.prems, of h] assms(2) by simp
  then show ?case
    using Cons.IH [of "drop_bit cnt h"] drop_small [of cnt h] split_limb [of cnt h] assms(2)
    by (simp add: unat_drop algebra_simps)
qed simp

lemma mpn_rshift_val:
  assumes "0 < cnt" and "cnt < 64" and "up \<noteq> []" and "mpn_rshift up cnt = (c, rp)"
  shows "length rp = length up" and "limbs_val rp = limbs_val up div 2 ^ cnt"
    and "unat c = (limbs_val up mod 2 ^ cnt) * 2 ^ (64 - cnt)"
proof -
  obtain h us where up: "up = h # us" using assms(3) by (cases up) auto
  have r: "c = push_bit (64 - cnt) h" "rp = rshift_loop cnt (drop_bit cnt h) us"
    using assms(4) by (simp_all add: mpn_rshift_def up)
  have "(2 :: nat) ^ 64 = 2 ^ cnt * 2 ^ (64 - cnt)" using assms(2) by (metis le_add_diff_inverse less_imp_le power_add)
  then have v: "limbs_val up = unat h + 2 ^ cnt * (2 ^ (64 - cnt) * limbs_val us)"
    by (simp add: up)
  have loop: "length rp = length us + 1 \<and> limbs_val rp = unat h div 2 ^ cnt + 2 ^ (64 - cnt) * limbs_val us"
    using rshift_loop_val [of cnt "drop_bit cnt h" us] drop_small [of cnt h] assms(1,2)
    by (simp add: r unat_drop)
  then show "length rp = length up" by (simp add: up)
  show "limbs_val rp = limbs_val up div 2 ^ cnt" unfolding v using loop by simp
  show "unat c = (limbs_val up mod 2 ^ cnt) * 2 ^ (64 - cnt)"
    using unat_push [of "64 - cnt" h] assms(2) by (simp add: r v)
qed

lemma lshift_loop_val:
  assumes "0 < cnt" and "cnt < 64" and "unat high mod 2 ^ cnt = 0"
  shows "length (lshift_loop cnt high up) = length up + 1 \<and>
    limbs_val (rev (lshift_loop cnt high up)) = 2 ^ (64 * length up) * unat high + 2 ^ cnt * limbs_val (rev up)"
  using assms(3)
proof (induction up arbitrary: high)
  case (Cons l up)
  have tnc: "64 - (64 - cnt) = cnt" using assms(2) by simp
  have d: "unat (drop_bit (64 - cnt) l) < 2 ^ cnt"
    using drop_small [of "64 - cnt" l] by (simp add: tnc)
  obtain y where y: "high = push_bit cnt y"
  proof
    have "unat (push_bit cnt (drop_bit cnt high)) = unat high"
    proof -
      have "unat (drop_bit cnt high) mod 2 ^ (64 - cnt) = unat high div 2 ^ cnt"
        using drop_small [of cnt high] assms(2) by (simp add: unat_drop)
      then show ?thesis
        using unat_push [of cnt "drop_bit cnt high"] assms(2) Cons.prems
        by (simp add: mod_0_imp_dvd)
    qed
    then show "high = push_bit cnt (drop_bit cnt high)" by (metis unsigned_word_eqI)
  qed
  have "unat (high OR drop_bit (64 - cnt) l) = unat high + unat l div 2 ^ (64 - cnt)"
    using limb_or_push [OF d, of y] unat_push [of cnt y] assms(2)
    by (simp add: y or.commute unat_drop)
  moreover have "limbs_val (rev (lshift_loop cnt (push_bit cnt l) up)) =
      2 ^ (64 * length up) * ((unat l mod 2 ^ (64 - cnt)) * 2 ^ cnt) + 2 ^ cnt * limbs_val (rev up) \<and>
      length (lshift_loop cnt (push_bit cnt l) up) = length up + 1"
    using Cons.IH [of "push_bit cnt l"] unat_push [of cnt l] assms(2) by simp
  moreover have "(unat l mod 2 ^ (64 - cnt)) * 2 ^ cnt + 2 ^ 64 * (unat l div 2 ^ (64 - cnt)) = 2 ^ cnt * unat l"
    using split_limb [of "64 - cnt" l] by (simp add: tnc)
  then have "2 ^ (64 * length up) * ((unat l mod 2 ^ (64 - cnt)) * 2 ^ cnt) +
      2 ^ (64 * length up) * (2 ^ 64 * (unat l div 2 ^ (64 - cnt))) = 2 ^ (64 * length up) * (2 ^ cnt * unat l)"
    by (metis distrib_left)
  ultimately show ?case
    by (simp add: limbs_val_append power_add algebra_simps)
qed simp

lemma mpn_lshift_val:
  assumes "0 < cnt" and "cnt < 64" and "up \<noteq> []" and "mpn_lshift up cnt = (c, rp)"
  shows "length rp = length up"
    and "limbs_val rp + 2 ^ (64 * length up) * unat c = 2 ^ cnt * limbs_val up"
proof -
  obtain l us where up: "rev up = l # us" using assms(3) by (cases "rev up") auto
  then have up': "up = rev us @ [l]" by (metis rev.simps(2) rev_rev_ident)
  have r: "c = drop_bit (64 - cnt) l" "rp = rev (lshift_loop cnt (push_bit cnt l) us)"
    using assms(4) by (simp_all add: mpn_lshift_def up)
  have v: "length (lshift_loop cnt (push_bit cnt l) us) = length us + 1 \<and>
      limbs_val rp = 2 ^ (64 * length us) * ((unat l mod 2 ^ (64 - cnt)) * 2 ^ cnt) + 2 ^ cnt * limbs_val (rev us)"
    using lshift_loop_val [OF assms(1,2), of "push_bit cnt l" us] unat_push [of cnt l] assms(2) by (simp add: r)
  then show "length rp = length up" by (simp add: r up')
  have "(unat l mod 2 ^ (64 - cnt)) * 2 ^ cnt + 2 ^ 64 * (unat l div 2 ^ (64 - cnt)) = 2 ^ cnt * unat l"
    using split_limb [of "64 - cnt" l] assms(2) by simp
  then have "2 ^ (64 * length us) * ((unat l mod 2 ^ (64 - cnt)) * 2 ^ cnt) +
      2 ^ (64 * length us) * (2 ^ 64 * (unat l div 2 ^ (64 - cnt))) = 2 ^ (64 * length us) * (2 ^ cnt * unat l)"
    by (metis distrib_left)
  then show "limbs_val rp + 2 ^ (64 * length up) * unat c = 2 ^ cnt * limbs_val up"
    using v by (simp add: r(1) up' unat_drop limbs_val_append power_add algebra_simps)
qed

subsection \<open>Carries through the rest\<close>

lemma limb_incr: "unat (x + 1 :: limb) + 2 ^ 64 * of_bool (x + 1 = 0) = unat x + 1"
proof -
  have "x + 1 < 1 \<longleftrightarrow> x + 1 = 0" by (simp add: word_less_nat_alt unat_eq_0)
  then show ?thesis using limb_add' [of x 1] by simp
qed

lemma limb_decr: "unat (x - 1 :: limb) + 1 = unat x + 2 ^ 64 * of_bool (x = 0)"
proof -
  have "unat x = 0 \<longleftrightarrow> x = 0" by (rule unat_eq_0)
  then have "x < x - 1 \<longleftrightarrow> x = 0"
    using limb_sub [of x 1] unat_limb_less [of "x - 1"]
    by (cases "x < x - 1"; cases "x = 0") auto
  then show ?thesis using limb_sub [of x 1] by simp
qed

lemma add_rest_val:
  assumes "add_rest xp = (c, wp)"
  shows "length wp = length xp \<and> unat c \<le> 1 \<and>
    limbs_val wp + 2 ^ (64 * length xp) * unat c = limbs_val xp + 1"
  using assms
proof (induction xp arbitrary: c wp)
  case (Cons x xp)
  obtain c' w' where r: "add_rest xp = (c', w')" by fastforce
  show ?case
    using Cons.prems Cons.IH [OF r] r limb_incr [of x]
    by (auto simp: Let_def power_add algebra_simps split: if_splits)
qed simp

lemma add_1_rest_eq: "add_1_rest xp = add_rest xp"
  by (induction xp) (simp_all add: Let_def word_less_nat_alt unat_eq_0)

lemma sub_rest_val:
  assumes "sub_rest xp = (c, wp)"
  shows "length wp = length xp \<and> unat c \<le> 1 \<and>
    limbs_val wp + 1 = limbs_val xp + 2 ^ (64 * length xp) * unat c"
  using assms
proof (induction xp arbitrary: c wp)
  case (Cons x xp)
  obtain c' w' where r: "sub_rest xp = (c', w')" by fastforce
  show ?case
    using Cons.prems Cons.IH [OF r] r limb_decr [of x]
    by (auto simp: Let_def power_add algebra_simps split: if_splits)
qed simp

lemma mpn_add_1_val:
  assumes "xp \<noteq> []" and "mpn_add_1 xp v = (c, wp)"
  shows "length wp = length xp" and "unat c \<le> 1"
    and "limbs_val wp + 2 ^ (64 * length xp) * unat c = limbs_val xp + unat v"
proof -
  obtain x xs where xp: "xp = x # xs" using assms(1) by (cases xp) auto
  obtain c' w' where r: "add_rest xs = (c', w')" by fastforce
  have "length wp = length xp \<and> unat c \<le> 1 \<and>
      limbs_val wp + 2 ^ (64 * length xp) * unat c = limbs_val xp + unat v"
    using assms(2) add_rest_val [OF r] r limb_add' [of x v]
    by (auto simp: mpn_add_1_def xp Let_def add_1_rest_eq power_add algebra_simps split: if_splits)
  then show "length wp = length xp" "unat c \<le> 1"
    "limbs_val wp + 2 ^ (64 * length xp) * unat c = limbs_val xp + unat v" by simp_all
qed

lemma limbs_val_split: "limbs_val xs = limbs_val (take n xs) + 2 ^ (64 * length (take n xs)) * limbs_val (drop n xs)"
  by (metis append_take_drop_id limbs_val_append)

lemma mpn_add_val:
  assumes "length yp \<le> length xp" and "mpn_add xp yp = (c, wp)"
  shows "length wp = length xp \<and> unat c \<le> 1 \<and>
    limbs_val wp + 2 ^ (64 * length xp) * unat c = limbs_val xp + limbs_val yp"
proof (cases "yp = []")
  case True
  then show ?thesis using assms(2) by (auto simp: mpn_add_def)
next
  case False
  define m n where "m = length yp" and "n = length xp - length yp"
  have len: "length xp = m + n" "length (take m xp) = m" "length (drop m xp) = n"
    using assms(1) by (simp_all add: m_def n_def)
  obtain c1 w1 where w1: "mpn_add_n (take m xp) yp = (c1, w1)" by fastforce
  obtain c2 w2 where w2: "add_rest (drop m xp) = (c2, w2)" by fastforce
  have v1: "length w1 = m" "unat c1 \<le> 1"
    "limbs_val w1 + 2 ^ (64 * m) * unat c1 = limbs_val (take m xp) + limbs_val yp"
    using mpn_add_n_val [OF _ w1] len m_def by simp_all
  have v2: "length w2 = n" "unat c2 \<le> 1" "limbs_val w2 + 2 ^ (64 * n) * unat c2 = limbs_val (drop m xp) + 1"
    using add_rest_val [OF w2] len by simp_all
  have xp: "limbs_val xp = limbs_val (take m xp) + 2 ^ (64 * m) * limbs_val (drop m xp)"
    using limbs_val_split [of xp m] len by simp
  show ?thesis
  proof (cases "c1 = 0")
    case True
    then have "c = 0" "wp = w1 @ drop m xp"
      using assms(2) False w1 by (simp_all add: mpn_add_def m_def Let_def)
    then show ?thesis using True v1 xp len by (simp add: limbs_val_append)
  next
    case c1: False
    then have "c = c2" "wp = w1 @ w2"
      using assms(2) False w1 w2 by (simp_all add: mpn_add_def m_def Let_def)
    moreover have "unat c1 = 1" using c1 v1(2) by (metis One_nat_def le_SucE le_zero_eq unat_eq_0)
    moreover have "2 ^ (64 * m) * limbs_val w2 + 2 ^ (64 * m) * 2 ^ (64 * n) * unat c2 =
        2 ^ (64 * m) * limbs_val (drop m xp) + 2 ^ (64 * m)"
      using arg_cong [OF v2(3), of "\<lambda>t. 2 ^ (64 * m) * t"] by (simp add: algebra_simps)
    ultimately show ?thesis
      using v1 v2(1,2) xp len by (simp add: limbs_val_append power_add algebra_simps)
  qed
qed

lemma mpn_sub_val:
  assumes "length yp \<le> length xp" and "mpn_sub xp yp = (c, wp)"
  shows "length wp = length xp \<and> unat c \<le> 1 \<and>
    limbs_val wp + limbs_val yp = limbs_val xp + 2 ^ (64 * length xp) * unat c"
proof (cases "yp = []")
  case True
  then show ?thesis using assms(2) by (auto simp: mpn_sub_def)
next
  case False
  define m n where "m = length yp" and "n = length xp - length yp"
  have len: "length xp = m + n" "length (take m xp) = m" "length (drop m xp) = n"
    using assms(1) by (simp_all add: m_def n_def)
  obtain c1 w1 where w1: "mpn_sub_n (take m xp) yp = (c1, w1)" by fastforce
  obtain c2 w2 where w2: "sub_rest (drop m xp) = (c2, w2)" by fastforce
  have v1: "length w1 = m" "unat c1 \<le> 1"
    "limbs_val w1 + limbs_val yp = limbs_val (take m xp) + 2 ^ (64 * m) * unat c1"
    using mpn_sub_n_val [OF _ w1] len m_def by simp_all
  have v2: "length w2 = n" "unat c2 \<le> 1" "limbs_val w2 + 1 = limbs_val (drop m xp) + 2 ^ (64 * n) * unat c2"
    using sub_rest_val [OF w2] len by simp_all
  have xp: "limbs_val xp = limbs_val (take m xp) + 2 ^ (64 * m) * limbs_val (drop m xp)"
    using limbs_val_split [of xp m] len by simp
  show ?thesis
  proof (cases "c1 = 0")
    case True
    then have "c = 0" "wp = w1 @ drop m xp"
      using assms(2) False w1 by (simp_all add: mpn_sub_def m_def Let_def)
    then show ?thesis using True v1 xp len by (simp add: limbs_val_append)
  next
    case c1: False
    then have "c = c2" "wp = w1 @ w2"
      using assms(2) False w1 w2 by (simp_all add: mpn_sub_def m_def Let_def)
    moreover have "unat c1 = 1" using c1 v1(2) by (metis One_nat_def le_SucE le_zero_eq unat_eq_0)
    moreover have "2 ^ (64 * m) * limbs_val w2 + 2 ^ (64 * m) =
        2 ^ (64 * m) * limbs_val (drop m xp) + 2 ^ (64 * m) * 2 ^ (64 * n) * unat c2"
      using arg_cong [OF v2(3), of "\<lambda>t. 2 ^ (64 * m) * t"] by (simp add: algebra_simps)
    ultimately show ?thesis
      using v1 v2(1,2) xp len by (simp add: limbs_val_append power_add algebra_simps)
  qed
qed

subsection \<open>Comparing and normalizing\<close>

lemma cmp_rev:
  assumes "length xs = length ys"
  shows "cmp_loop (rev xs) (rev ys) =
    (if limbs_val xs < limbs_val ys then -1 else if limbs_val xs = limbs_val ys then 0 else 1)"
  using assms
proof (induction xs ys rule: rev_induct2)
  case (4 x xs y ys)
  then have len: "length xs = length ys" by simp
  define M :: nat where "M = 2 ^ (64 * length xs)"
  have b: "limbs_val xs < M" "limbs_val ys < M"
    using limbs_val_bound [of xs] limbs_val_bound [of ys] len by (simp_all add: M_def)
  have v: "limbs_val (xs @ [x]) = limbs_val xs + M * unat x" "limbs_val (ys @ [y]) = limbs_val ys + M * unat y"
    using len by (simp_all add: limbs_val_append M_def)
  have lt: "limbs_val a + M * unat u < limbs_val b + M * unat w"
    if "unat u < unat w" "limbs_val a < M" for a b and u w :: limb
  proof -
    have "M * (unat u + 1) \<le> M * unat w" using that(1) by (intro mult_le_mono2) simp
    then show ?thesis using that(2) by simp
  qed
  show ?case
  proof (cases "x = y")
    case True
    then show ?thesis using 4 len v by simp
  next
    case False
    then have "unat x < unat y \<or> unat y < unat x" by (metis nat_neq_iff unsigned_word_eqI)
    then show ?thesis
      using False lt [of x y xs ys] lt [of y x ys xs] b v by (auto simp: word_less_nat_alt)
  qed
qed simp_all

lemma mpn_cmp_val:
  assumes "length xs = length ys"
  shows "mpn_cmp xs ys = (if limbs_val xs < limbs_val ys then -1 else if limbs_val xs = limbs_val ys then 0 else 1)"
  using cmp_rev [OF assms] by (simp add: mpn_cmp_def)

lemma mpn_normalize_val:
  assumes "n \<le> length p"
  shows "mpn_normalize p n \<le> n" and "limbs_val (take (mpn_normalize p n) p) = limbs_val (take n p)"
    and "0 < mpn_normalize p n \<longrightarrow> p ! (mpn_normalize p n - 1) \<noteq> 0"
proof -
  have "mpn_normalize p n \<le> n \<and> limbs_val (take (mpn_normalize p n) p) = limbs_val (take n p) \<and>
      (0 < mpn_normalize p n \<longrightarrow> p ! (mpn_normalize p n - 1) \<noteq> 0)"
    using assms
    by (induction n) (auto simp: take_Suc_conv_app_nth limbs_val_append)
  then show "mpn_normalize p n \<le> n" "limbs_val (take (mpn_normalize p n) p) = limbs_val (take n p)"
    "0 < mpn_normalize p n \<longrightarrow> p ! (mpn_normalize p n - 1) \<noteq> 0" by simp_all
qed

text \<open>The complement.\<close>

lemma mpn_com_val: "length (mpn_com up) = length up \<and> limbs_val (mpn_com up) + limbs_val up + 1 = 2 ^ (64 * length up)"
proof (induction up)
  case (Cons x up)
  have "NOT x = - 1 - x" by (simp add: not_eq_complement)
  then have "unat (NOT x) + unat x + 1 = 2 ^ 64"
    using limb_sub [of "- 1" x] unat_limb_less [of "- 1 - x"] unat_limb_less [of x]
    by (auto simp: word_less_nat_alt unsigned_minus_1_eq_mask mask_eq_exp_minus_1)
  with Cons show ?case by (simp add: mpn_com_def power_add algebra_simps)
qed (simp add: mpn_com_def)

subsection \<open>The schoolbook product\<close>

lemma mul_basecase_loop_val:
  assumes "length rp = k + length up + length vp" and "length up \<noteq> 0"
  shows "length (mul_basecase_loop up vp k rp) = length rp \<and>
    limbs_val (mul_basecase_loop up vp k rp) =
      limbs_val (take (k + length up) rp) + 2 ^ (64 * k) * (limbs_val up * limbs_val vp)"
  using assms
proof (induction up vp k rp rule: mul_basecase_loop.induct)
  case (1 up k rp)
  then show ?case by simp
next
  case (2 up v vp k rp)
  define un where "un = length up"
  obtain cy w where w: "mpn_addmul_1 (take un (drop k rp)) up v = (cy, w)" by fastforce
  have len: "length (take un (drop k rp)) = un" "length (take k rp) = k" using "2.prems" by (simp_all add: un_def)
  have v: "length w = un" "limbs_val w + 2 ^ (64 * un) * unat cy =
      limbs_val (take un (drop k rp)) + limbs_val up * unat v"
    using mpn_addmul_1_val [OF _ w] len by (simp_all add: un_def)
  define rp' where "rp' = take k rp @ w @ [cy] @ drop (k + un + 1) rp"
  have step: "mul_basecase_loop up (v # vp) k rp = mul_basecase_loop up vp (k + 1) rp'"
    using w by (simp add: un_def rp'_def)
  have l': "length rp' = k + 1 + length up + length vp" "length rp' = length rp"
    using "2.prems"(1) v(1) by (simp_all add: rp'_def un_def)
  have t: "take (k + 1 + length up) rp' = take k rp @ w @ [cy]"
    using len(2) v(1) by (simp add: rp'_def un_def)
  have "limbs_val (take (k + 1 + length up) rp') =
      limbs_val (take k rp) + 2 ^ (64 * k) * (limbs_val w + 2 ^ (64 * un) * unat cy)"
    unfolding t using len(2) v(1) by (simp add: limbs_val_append algebra_simps)
  also have "\<dots> = limbs_val (take k rp) + 2 ^ (64 * k) * limbs_val (take un (drop k rp)) +
      2 ^ (64 * k) * (limbs_val up * unat v)"
    unfolding v(2) by (simp add: algebra_simps)
  also have "limbs_val (take k rp) + 2 ^ (64 * k) * limbs_val (take un (drop k rp)) = limbs_val (take (k + un) rp)"
    unfolding take_add using len(2) by (simp add: limbs_val_append)
  finally have tv: "limbs_val (take (k + 1 + length up) rp') =
      limbs_val (take (k + un) rp) + 2 ^ (64 * k) * (limbs_val up * unat v)" .
  have "length (mul_basecase_loop up vp (k + 1) rp') = length rp' \<and>
      limbs_val (mul_basecase_loop up vp (k + 1) rp') =
        limbs_val (take (k + 1 + length up) rp') + 2 ^ (64 * (k + 1)) * (limbs_val up * limbs_val vp)"
    using "2.IH" [of un "(cy, w)" cy w] l' "2.prems"(2) w by (simp add: un_def rp'_def)
  then show ?case
    unfolding step tv using l'(2) by (simp add: un_def power_add algebra_simps)
qed

lemma mpn_mul_basecase_val:
  assumes "length rp = length up + length vp" and "up \<noteq> []" and "vp \<noteq> []"
  shows "length (mpn_mul_basecase rp up vp) = length up + length vp"
    and "limbs_val (mpn_mul_basecase rp up vp) = limbs_val up * limbs_val vp"
proof -
  obtain v vs where vp: "vp = v # vs" using assms(3) by (cases vp) auto
  obtain cy w where w: "mpn_mul_1 up v = (cy, w)" by fastforce
  define rp' where "rp' = w @ [cy] @ drop (length up + 1) rp"
  have m: "length w = length up" "limbs_val w + 2 ^ (64 * length up) * unat cy = limbs_val up * unat v"
    using mpn_mul_1_val [OF w] by simp_all
  have l: "length rp' = 1 + length up + length vs" using assms(1) m(1) by (simp add: rp'_def vp)
  have "mpn_mul_basecase rp up vp = mul_basecase_loop up vs 1 rp'"
    using w by (simp add: mpn_mul_basecase_def vp rp'_def)
  moreover have "take (1 + length up) rp' = w @ [cy]" using m(1) by (simp add: rp'_def)
  ultimately have "length (mpn_mul_basecase rp up vp) = length up + length vp \<and>
      limbs_val (mpn_mul_basecase rp up vp) = limbs_val up * limbs_val vp"
    using mul_basecase_loop_val [of rp' 1 up vs] l m assms(2)
    by (simp add: vp limbs_val_append algebra_simps)
  then show "length (mpn_mul_basecase rp up vp) = length up + length vp"
    "limbs_val (mpn_mul_basecase rp up vp) = limbs_val up * limbs_val vp" by simp_all
qed

end
