(* ===== verification/Gmp_Import.thy ===== *)
theory Gmp_Import
  imports Gmp_Limbs_Correct
begin

text \<open>
  Numbers from raw bytes: \<open>mpz_import\<close> of GMP (\<open>gmp-6.2.1/mpz/import.c\<close>), which bfibe calls on its
  digests, for a little-endian machine with limbs of 64 bits. A number is its signed size and its
  limbs (\<open>SIZ\<close> and \<open>PTR\<close>). The data is a buffer whose address is a multiple of 8 or not (\<open>aligned\<close>);
  pointers into it are offsets, and reading outside of it is an outcome.
\<close>

record mpz =
  siz :: int
  ptr :: limbs

definition mpz_val :: "mpz \<Rightarrow> int" where
  "mpz_val z = sgn (siz z) * int (limbs_val (take (nat \<bar>siz z\<bar>) (ptr z)))"

definition mpz_wf :: "mpz \<Rightarrow> bool" where
  "mpz_wf z \<longleftrightarrow> nat \<bar>siz z\<bar> \<le> length (ptr z) \<and> (siz z \<noteq> 0 \<longrightarrow> ptr z ! (nat \<bar>siz z\<bar> - 1) \<noteq> 0)"

subsection \<open>Bits into limbs\<close>

text \<open>
  \<open>ACCUMULATE (N)\<close> on the limbs written, \<open>limb\<close> and \<open>lbits\<close>; \<open>mpn_set_str\<close> does the same with the
  digits of a base that is a power of two.
\<close>

type_synonym acc = "limbs \<times> limb \<times> nat"

definition acc_bits :: "nat \<Rightarrow> limb \<Rightarrow> acc \<Rightarrow> acc" where
  "acc_bits N byte = (\<lambda>(zp, limb, lbits).
     let limb = limb OR push_bit lbits byte; lbits = lbits + N
     in if 64 \<le> lbits then
          let zp = zp @ [limb]; lbits = lbits - 64
          in (zp, drop_bit (N - lbits) byte, lbits)
        else (zp, limb, lbits))"

definition acc_ok :: "acc \<Rightarrow> bool" where
  "acc_ok = (\<lambda>(zp, limb, lbits). lbits < 64 \<and> unat limb < 2 ^ lbits)"

definition acc_val :: "acc \<Rightarrow> nat" where
  "acc_val = (\<lambda>(zp, limb, lbits). limbs_val zp + 2 ^ (64 * length zp) * unat limb)"

definition acc_len :: "acc \<Rightarrow> nat" where
  "acc_len = (\<lambda>(zp, limb, lbits). 64 * length zp + lbits)"

lemma acc_bits_step:
  assumes "acc_ok a" and "unat byte < 2 ^ N" and "N \<le> 64"
  shows "acc_ok (acc_bits N byte a) \<and> acc_len (acc_bits N byte a) = acc_len a + N \<and>
    acc_val (acc_bits N byte a) = acc_val a + 2 ^ acc_len a * unat byte"
proof -
  obtain zp limb lbits where a: "a = (zp, limb, lbits)" by (cases a) auto
  then have l: "lbits < 64" "unat limb < 2 ^ lbits" using assms(1) by (simp_all add: acc_ok_def)
  define x where "x = limb OR push_bit lbits byte"
  have x: "unat x = unat limb + (unat byte mod 2 ^ (64 - lbits)) * 2 ^ lbits"
    unfolding x_def using limb_or_push [OF l(2), of byte] l(1) by simp
  have split: "(unat byte mod 2 ^ (64 - lbits)) * 2 ^ lbits + 2 ^ 64 * (unat byte div 2 ^ (64 - lbits)) =
      2 ^ lbits * unat byte"
    using split_limb [of "64 - lbits" byte] l(1) by simp
  show ?thesis
  proof (cases "64 \<le> lbits + N")
    case True
    define lbits' where "lbits' = lbits + N - 64"
    have r: "acc_bits N byte a = (zp @ [x], drop_bit (64 - lbits) byte, lbits')"
      using True l(1) by (simp add: acc_bits_def a x_def Let_def lbits'_def)
    have "unat byte div 2 ^ (64 - lbits) < 2 ^ lbits'"
    proof -
      have "N = lbits' + (64 - lbits)" using True l(1) by (simp add: lbits'_def)
      then have "unat byte < 2 ^ lbits' * 2 ^ (64 - lbits)" using assms(2) by (simp add: power_add)
      then show ?thesis by (simp add: less_mult_imp_div_less)
    qed
    then have "acc_ok (acc_bits N byte a)"
      using l(1) assms(3) unfolding r by (simp add: acc_ok_def unat_drop lbits'_def)
    moreover have "acc_len (acc_bits N byte a) = acc_len a + N"
      using True unfolding r by (simp add: acc_len_def a lbits'_def)
    moreover have "acc_val (acc_bits N byte a) = acc_val a + 2 ^ acc_len a * unat byte"
    proof -
      have "acc_val (acc_bits N byte a) =
          limbs_val zp + 2 ^ (64 * length zp) * (unat x + 2 ^ 64 * (unat byte div 2 ^ (64 - lbits)))"
        unfolding r by (simp add: acc_val_def limbs_val_append unat_drop power_add algebra_simps)
      also have "unat x + 2 ^ 64 * (unat byte div 2 ^ (64 - lbits)) = unat limb + 2 ^ lbits * unat byte"
        using x split by simp
      finally show ?thesis by (simp add: a acc_val_def acc_len_def power_add algebra_simps)
    qed
    ultimately show ?thesis by simp
  next
    case False
    have r: "acc_bits N byte a = (zp, x, lbits + N)"
      using False by (simp add: acc_bits_def a x_def Let_def)
    have "(2 :: nat) ^ N \<le> 2 ^ (64 - lbits)" using False by (intro power_increasing) simp_all
    with assms(2) have "unat byte < 2 ^ (64 - lbits)" by (rule less_le_trans)
    then have b: "unat x = unat limb + unat byte * 2 ^ lbits" using x by simp
    have "(unat byte + 1) * 2 ^ lbits \<le> 2 ^ N * 2 ^ lbits" using assms(2) by (intro mult_le_mono1) simp
    then have "unat x < 2 ^ (lbits + N)" using b l(2) by (simp add: power_add mult.commute)
    then show ?thesis
      using False b unfolding r by (simp add: acc_ok_def acc_len_def acc_val_def a power_add algebra_simps)
  qed
qed

text \<open>The last limb.\<close>

definition acc_flush :: "acc \<Rightarrow> limbs" where
  "acc_flush = (\<lambda>(zp, limb, lbits). if lbits \<noteq> 0 then zp @ [limb] else zp)"

lemma acc_flush_val:
  assumes "acc_ok a"
  shows "limbs_val (acc_flush a) = acc_val a" and "length (acc_flush a) = (acc_len a + 63) div 64"
proof -
  obtain zp limb lbits where a: "a = (zp, limb, lbits)" by (cases a) auto
  then have l: "lbits < 64" "unat limb < 2 ^ lbits" using assms by (simp_all add: acc_ok_def)
  have "(64 * length zp + lbits + 63) div 64 = length zp + (lbits + 63) div 64" by simp
  moreover have "(lbits + 63) div 64 = (if lbits = 0 then 0 else 1)" using l(1) by auto
  ultimately show "length (acc_flush a) = (acc_len a + 63) div 64"
    by (simp add: a acc_flush_def acc_len_def)
  show "limbs_val (acc_flush a) = acc_val a"
    using l(2) by (auto simp: a acc_flush_def acc_val_def limbs_val_append)
qed

subsection \<open>The function\<close>

definition HOST_ENDIAN :: int where
  "HOST_ENDIAN = -1"

definition BITS_TO_LIMBS :: "nat \<Rightarrow> nat" where
  "BITS_TO_LIMBS n = (n + 63) div 64"

definition BSWAP_LIMB :: "limb \<Rightarrow> limb" where
  "BSWAP_LIMB src =
     push_bit 56 src + push_bit 40 (src AND 0xFF00) + push_bit 24 (src AND 0xFF0000) +
     push_bit 8 (src AND 0xFF000000) + (drop_bit 8 src AND 0xFF000000) +
     (drop_bit 24 src AND 0xFF0000) + (drop_bit 40 src AND 0xFF00) + drop_bit 56 src"

text \<open>The limbs in memory from an offset on, in the byte order of the machine.\<close>

fun read_limbs :: "bytes \<Rightarrow> nat \<Rightarrow> nat \<Rightarrow> limbs outcome" where
  "read_limbs data off 0 = Inr []"
| "read_limbs data off (Suc n) =
     bindO (buf_read data off 8) (\<lambda>s.
     bindO (read_limbs data (off + 8) n) (\<lambda>xs. Inr (of_nat (le_val s) # xs)))"

definition read_byte :: "bytes \<Rightarrow> int \<Rightarrow> 8 word outcome" where
  "read_byte data dp =
     (if 0 \<le> dp \<and> dp < int (length data) then Inr (data ! nat dp) else Inl OutOfBounds)"

text \<open>The inner loop over the whole bytes of a word, with \<open>dp\<close>.\<close>

fun import_bytes :: "bytes \<Rightarrow> int \<Rightarrow> nat \<Rightarrow> int \<times> acc \<Rightarrow> (int \<times> acc) outcome" where
  "import_bytes data endian 0 s = Inr s"
| "import_bytes data endian (Suc j) (dp, a) =
     bindO (read_byte data dp) (\<lambda>b. import_bytes data endian j (dp - endian, acc_bits 8 (ucast b) a))"

fun import_words ::
  "bytes \<Rightarrow> int \<Rightarrow> nat \<Rightarrow> nat \<Rightarrow> int \<Rightarrow> nat \<Rightarrow> int \<times> acc \<Rightarrow> (int \<times> acc) outcome"
where
  "import_words data endian wbytes wbits woffset 0 s = Inr s"
| "import_words data endian wbytes wbits woffset (Suc i) s =
     bindO (import_bytes data endian wbytes s) (\<lambda>(dp, a).
     bindO (if wbits \<noteq> 0 then
              bindO (read_byte data dp) (\<lambda>b.
              Inr (dp - endian, acc_bits wbits (ucast b AND (push_bit wbits 1 - 1)) a))
            else Inr (dp, a)) (\<lambda>(dp, a).
     import_words data endian wbytes wbits woffset i (dp + woffset, a)))"

definition mpz_import ::
  "nat \<Rightarrow> int \<Rightarrow> nat \<Rightarrow> int \<Rightarrow> nat \<Rightarrow> bool \<Rightarrow> bytes \<Rightarrow> mpz outcome"
where
  "mpz_import count order sz endian nail aligned data =
     (let zsize = BITS_TO_LIMBS (count * (8 * sz - nail));
          endian = (if endian = 0 then HOST_ENDIAN else endian)
      in bindO
        (if nail = 0 \<and> order = -1 \<and> sz = 8 \<and> endian = HOST_ENDIAN \<and> aligned
         then read_limbs data 0 count
         else if nail = 0 \<and> order = -1 \<and> sz = 8 \<and> endian = - HOST_ENDIAN \<and> aligned
         then bindO (read_limbs data 0 count) (\<lambda>zp. Inr (map BSWAP_LIMB zp))
         else if nail = 0 \<and> order = 1 \<and> sz = 8 \<and> endian = HOST_ENDIAN \<and> aligned
         then bindO (read_limbs data 0 count) (\<lambda>zp. Inr (rev zp))
         else
           let numb = sz * 8 - nail; wbytes = numb div 8; wbits = numb mod 8;
               woffset = int ((numb + 7) div 8);
               woffset = (if 0 \<le> endian then woffset else - woffset) + (if order < 0 then int sz else - int sz);
               dp = (if 0 \<le> order then (int count - 1) * int sz else 0) + (if 0 \<le> endian then int sz - 1 else 0)
           in bindO (import_words data endian wbytes wbits woffset count (dp, [], 0, 0)) (\<lambda>(dp, a).
              Inr (acc_flush a)))
        (\<lambda>zp. Inr \<lparr>siz = int (mpn_normalize zp zsize), ptr = zp\<rparr>))"

subsection \<open>What it computes\<close>

text \<open>The words of the data from the least significant one on, and their values.\<close>

definition word_bytes :: "nat \<Rightarrow> int \<Rightarrow> nat \<Rightarrow> int \<Rightarrow> bytes \<Rightarrow> nat \<Rightarrow> bytes" where
  "word_bytes count order sz endian data i =
     (let k = (if 0 \<le> order then count - 1 - i else i); w = take sz (drop (k * sz) data)
      in if endian = 1 then rev w else w)"

fun words_val :: "nat \<Rightarrow> (nat \<Rightarrow> bytes) \<Rightarrow> nat \<Rightarrow> nat" where
  "words_val numb w 0 = 0"
| "words_val numb w (Suc n) = words_val numb w n + 2 ^ (numb * n) * (le_val (w n) mod 2 ^ numb)"

definition import_val :: "nat \<Rightarrow> int \<Rightarrow> nat \<Rightarrow> int \<Rightarrow> nat \<Rightarrow> bytes \<Rightarrow> nat" where
  "import_val count order sz endian nail data =
     words_val (8 * sz - nail) (word_bytes count order sz endian data) count"

lemma le_val_append: "le_val (xs @ ys) = le_val xs + 256 ^ length xs * le_val ys"
  by (induction xs) (simp_all add: algebra_simps)

lemma le_val_rev: "le_val (rev xs) = be_val xs"
  by (induction xs) (simp_all add: le_val_append be_val_Cons algebra_simps)

lemma unat_ucast_byte: "unat (ucast (b :: byte) :: limb) = unat b"
  by (simp add: unsigned_ucast_eq take_bit_nat_eq_self_iff)
    (rule less_trans [OF unat_byte_less], simp)

lemma import_bytes_val:
  assumes "acc_ok a" and "\<And>k. k < n \<Longrightarrow> 0 \<le> dp - endian * int k \<and> dp - endian * int k < int (length data)"
    and "\<And>k. k < n \<Longrightarrow> data ! nat (dp - endian * int k) = ws ! k" and "n \<le> length ws"
  shows "\<exists>a'. import_bytes data endian n (dp, a) = Inr (dp - endian * int n, a') \<and> acc_ok a' \<and>
    acc_len a' = acc_len a + 8 * n \<and> acc_val a' = acc_val a + 2 ^ acc_len a * le_val (take n ws)"
  using assms
proof (induction n arbitrary: dp a ws)
  case 0
  then show ?case by simp
next
  case (Suc n)
  obtain w ws' where ws: "ws = w # ws'" using Suc.prems(4) by (cases ws) auto
  have rd: "read_byte data dp = Inr w"
    using Suc.prems(2,3) [of 0] by (simp add: read_byte_def ws)
  have b: "unat (ucast w :: limb) < 2 ^ 8" using unat_byte_less [of w] by (simp add: unat_ucast_byte)
  note s = acc_bits_step [OF Suc.prems(1) b]
  have shift: "dp - endian - endian * int k = dp - endian * int (Suc k)" for k
    by (simp add: algebra_simps)
  obtain a' where a': "import_bytes data endian n (dp - endian, acc_bits 8 (ucast w) a) =
      Inr (dp - endian - endian * int n, a')" "acc_ok a'"
    "acc_len a' = acc_len (acc_bits 8 (ucast w) a) + 8 * n"
    "acc_val a' = acc_val (acc_bits 8 (ucast w) a) + 2 ^ acc_len (acc_bits 8 (ucast w) a) * le_val (take n ws')"
    using Suc.IH [of "acc_bits 8 (ucast w) a" "dp - endian" ws'] s Suc.prems(2) [of "Suc k" for k]
      Suc.prems(3) [of "Suc k" for k] Suc.prems(4) ws unfolding shift by auto
  then show ?case
    using rd s shift [of n] by (auto simp: ws unat_ucast_byte power_add algebra_simps)
qed

lemma le_val_mod:
  assumes "8 * n + m < 8 * length ws" and "m < 8"
  shows "le_val ws mod 2 ^ (8 * n + m) = le_val (take n ws) + 2 ^ (8 * n) * (unat (ws ! n) mod 2 ^ m)"
proof -
  have n: "n < length ws" using assms(1) by simp
  have e: "(256 :: nat) ^ k = 2 ^ (8 * k)" for k by (simp add: power_mult)
  have "le_val ws = le_val (take n ws) + 2 ^ (8 * n) * (unat (ws ! n) + 256 * le_val (drop (Suc n) ws))"
    using n by (subst id_take_nth_drop [OF n]) (simp add: le_val_append e)
  moreover have "(256 :: nat) = 2 ^ m * 2 ^ (8 - m)" using assms(2) by (simp flip: power_add)
  then have "(unat (ws ! n) + 256 * le_val (drop (Suc n) ws)) mod 2 ^ m = unat (ws ! n) mod 2 ^ m"
    by (metis mod_mult_self2 mult.assoc)
  moreover have "le_val (take n ws) < 2 ^ (8 * n)"
    using le_val_bound [of "take n ws"] n e by simp
  moreover have "(a + 2 ^ (8 * n) * b) mod 2 ^ (8 * n + m) = a + 2 ^ (8 * n) * (b mod 2 ^ m)"
    if "a < 2 ^ (8 * n)" for a b :: nat
    using that by (simp add: power_add mod_mult2_eq)
  ultimately show ?thesis by simp
qed

lemma le_val_take:
  assumes "n \<le> length ws"
  shows "le_val ws mod 2 ^ (8 * n) = le_val (take n ws)"
proof -
  have e: "(256 :: nat) ^ k = 2 ^ (8 * k)" for k by (simp add: power_mult)
  have "le_val ws = le_val (take n ws) + 2 ^ (8 * n) * le_val (drop n ws)"
    using le_val_append [of "take n ws" "drop n ws"] assms by (simp add: e)
  moreover have "le_val (take n ws) < 2 ^ (8 * n)"
    using le_val_bound [of "take n ws"] assms by (simp add: e)
  ultimately show ?thesis by simp
qed

lemma import_words_val:
  assumes "numb = 8 * wbytes + wbits" and "wbits < 8" and "numb \<le> 8 * sz"
    and "woffset = endian * int ((numb + 7) div 8) + step"
    and "\<And>j k. j < count \<Longrightarrow> k < sz \<Longrightarrow> 0 \<le> dp + step * int j - endian * int k \<and>
      dp + step * int j - endian * int k < int (length data) \<and>
      data ! nat (dp + step * int j - endian * int k) = w j ! k"
    and "\<And>j. j < count \<Longrightarrow> length (w j) = sz"
    and "i + n = count" and "acc_ok a" and "acc_len a = numb * i" and "acc_val a = words_val numb w i"
  shows "\<exists>a' dp'. import_words data endian wbytes wbits woffset n (dp + step * int i, a) = Inr (dp', a') \<and>
    acc_ok a' \<and> acc_len a' = numb * count \<and> acc_val a' = words_val numb w count"
  using assms(7-10)
proof (induction n arbitrary: i a)
  case 0
  then show ?case by auto
next
  case (Suc n)
  define q where "q = dp + step * int i"
  have i: "i < count" using Suc.prems(1) by simp
  have pos: "0 \<le> q - endian * int k \<and> q - endian * int k < int (length data) \<and>
      data ! nat (q - endian * int k) = w i ! k" if "k < sz" for k
    using assms(5) [OF i that] by (simp add: q_def)
  have wl: "length (w i) = sz" by (rule assms(6) [OF i])
  have wb: "wbytes \<le> sz" using assms(1,3) by simp
  obtain a1 where a1: "import_bytes data endian wbytes (q, a) = Inr (q - endian * int wbytes, a1)"
    "acc_ok a1" "acc_len a1 = numb * i + 8 * wbytes"
    "acc_val a1 = words_val numb w i + 2 ^ (numb * i) * le_val (take wbytes (w i))"
    using import_bytes_val [OF Suc.prems(2), of wbytes q endian data "w i"] pos wl wb Suc.prems(3,4) by auto
  have "\<exists>a2. (if wbits \<noteq> 0 then
              bindO (read_byte data (q - endian * int wbytes)) (\<lambda>b.
              Inr (q - endian * int wbytes - endian, acc_bits wbits (ucast b AND (push_bit wbits 1 - 1)) a1))
            else Inr (q - endian * int wbytes, a1)) = Inr (q - endian * int ((numb + 7) div 8), a2) \<and>
      acc_ok a2 \<and> acc_len a2 = numb * Suc i \<and> acc_val a2 = words_val numb w (Suc i)"
  proof (cases "wbits = 0")
    case True
    then have "(numb + 7) div 8 = wbytes" using assms(1) by simp
    then show ?thesis
      using True a1 assms(1) le_val_take [of wbytes "w i"] wb wl by simp
  next
    case False
    have lt: "wbytes < sz" using False assms(1-3) by simp
    then have "read_byte data (q - endian * int wbytes) = Inr (w i ! wbytes)"
      using pos [OF lt] by (simp add: read_byte_def)
    moreover define m where "m = (ucast (w i ! wbytes) AND (push_bit wbits 1 - 1) :: limb)"
    have "push_bit wbits 1 - 1 = (mask wbits :: limb)" by (simp add: mask_eq_exp_minus_1)
    then have "m = take_bit wbits (ucast (w i ! wbytes))" unfolding m_def by (simp only: take_bit_eq_mask)
    then have "unat m = take_bit wbits (unat (ucast (w i ! wbytes) :: limb))" by (simp only: unsigned_take_bit_eq)
    then have m: "unat m = unat (w i ! wbytes) mod 2 ^ wbits"
      by (simp only: take_bit_eq_mod unat_ucast_byte)
    have "unat m < 2 ^ wbits" "wbits \<le> 64" using m assms(2) by simp_all
    note st = acc_bits_step [OF a1(2) this]
    have "le_val (w i) mod 2 ^ numb = le_val (take wbytes (w i)) + 2 ^ (8 * wbytes) * unat m"
      unfolding m assms(1) by (rule le_val_mod) (use lt assms(2) wl in simp_all)
    then have "acc_val (acc_bits wbits m a1) = words_val numb w (Suc i)"
      using st a1(3,4) by (simp add: power_add algebra_simps)
    moreover have "(numb + 7) div 8 = wbytes + 1" using False assms(1,2) by simp
    then have "q - endian * int wbytes - endian = q - endian * int ((numb + 7) div 8)"
      by (simp add: algebra_simps)
    ultimately show ?thesis
      using False st a1(3) assms(1) by (simp add: m_def)
  qed
  then obtain a2 where a2: "(if wbits \<noteq> 0 then
              bindO (read_byte data (q - endian * int wbytes)) (\<lambda>b.
              Inr (q - endian * int wbytes - endian, acc_bits wbits (ucast b AND (push_bit wbits 1 - 1)) a1))
            else Inr (q - endian * int wbytes, a1)) = Inr (q - endian * int ((numb + 7) div 8), a2)"
    "acc_ok a2" "acc_len a2 = numb * Suc i" "acc_val a2 = words_val numb w (Suc i)" by blast
  have "import_words data endian wbytes wbits woffset (Suc n) (q, a) =
      import_words data endian wbytes wbits woffset n (dp + step * int (Suc i), a2)"
  proof -
    have "q - endian * int ((numb + 7) div 8) + woffset = dp + step * int (Suc i)"
      by (simp add: assms(4) q_def algebra_simps)
    then show ?thesis by (simp only: import_words.simps a1(1) bindO_Inr prod.case a2(1))
  qed
  then show ?case using Suc.IH [of "Suc i" a2] Suc.prems(1) a2(2-4) by (simp add: q_def)
qed

text \<open>The positions of the bytes of a word.\<close>

lemma word_position:
  fixes order endian :: int and data :: bytes
  assumes "length data = count * sz" and "j < count" and "k < sz" and "endian = 1 \<or> endian = -1"
  defines "dp \<equiv> (if 0 \<le> order then (int count - 1) * int sz else 0) + (if 0 \<le> endian then int sz - 1 else 0)"
    and "step \<equiv> (if order < 0 then int sz else - int sz)"
  shows "0 \<le> dp + step * int j - endian * int k" and "dp + step * int j - endian * int k < int (length data)"
    and "data ! nat (dp + step * int j - endian * int k) = word_bytes count order sz endian data j ! k"
    and "length (word_bytes count order sz endian data j) = sz"
proof -
  define m where "m = (if 0 \<le> order then count - 1 - j else j)"
  have m: "m < count" "m * sz + sz \<le> length data"
  proof -
    show "m < count" using assms(2) by (auto simp: m_def)
    then have "(m + 1) * sz \<le> count * sz" by (intro mult_le_mono1) simp
    then show "m * sz + sz \<le> length data" using assms(1) by simp
  qed
  have start: "dp + step * int j = int (m * sz) + (if 0 \<le> endian then int sz - 1 else 0)"
    using assms(2) by (auto simp: dp_def step_def m_def of_nat_diff algebra_simps)
  have e: "dp + step * int j - endian * int k = int (m * sz + (if endian = 1 then sz - 1 - k else k))"
    using assms(3,4) unfolding start by (auto simp: of_nat_diff)
  then show "0 \<le> dp + step * int j - endian * int k" by simp
  show "dp + step * int j - endian * int k < int (length data)"
    unfolding e of_nat_less_iff using m(2) assms(3) by auto
  have w: "word_bytes count order sz endian data j =
      (if endian = 1 then rev (take sz (drop (m * sz) data)) else take sz (drop (m * sz) data))"
    by (simp add: word_bytes_def Let_def m_def)
  then show "length (word_bytes count order sz endian data j) = sz" using m(2) by simp
  show "data ! nat (dp + step * int j - endian * int k) = word_bytes count order sz endian data j ! k"
    unfolding e w nat_int using m(2) assms(3) by (auto simp: rev_nth)
qed

subsection \<open>The copying cases\<close>

lemma read_limbs_val:
  assumes "off + 8 * n \<le> length data"
  shows "\<exists>xs. read_limbs data off n = Inr xs \<and> length xs = n \<and>
    (\<forall>i<n. unat (xs ! i) = le_val (take 8 (drop (off + 8 * i) data)))"
  using assms
proof (induction n arbitrary: off)
  case (Suc n)
  define b where "b = take 8 (drop off data)"
  have "le_val b < 256 ^ length b" by (rule le_val_bound)
  moreover have "length b = 8" using Suc.prems by (simp add: b_def)
  ultimately have "le_val b < 2 ^ 64" by simp
  then have u: "unat (of_nat (le_val b) :: limb) = le_val b" by (simp add: unat_of_nat)
  obtain xs where xs: "read_limbs data (off + 8) n = Inr xs" "length xs = n"
    "\<forall>i<n. unat (xs ! i) = le_val (take 8 (drop (off + 8 + 8 * i) data))"
    using Suc.IH [of "off + 8"] Suc.prems by auto
  have "unat ((of_nat (le_val b) # xs) ! i) = le_val (take 8 (drop (off + 8 * i) data))" if "i < Suc n" for i
    using that u xs(3) by (cases i) (simp_all add: b_def add.assoc)
  then show ?case
    using xs Suc.prems by (intro exI [of _ "of_nat (le_val b) # xs"]) (simp add: buf_read_def b_def)
qed simp

lemma limbs_words:
  assumes "\<And>i. i < length xs \<Longrightarrow> unat (xs ! i) = le_val (w i)"
  shows "limbs_val xs = words_val 64 w (length xs)"
  using assms
proof (induction xs rule: rev_induct)
  case (snoc x xs)
  have "unat x = le_val (w (length xs))" using snoc.prems [of "length xs"] by simp
  moreover have "unat (xs ! i) = le_val (w i)" if "i < length xs" for i
    using snoc.prems [of i] that by (simp add: nth_append)
  ultimately show ?case
    using snoc.IH unat_limb_less [of x] by (simp add: limbs_val_append)
qed simp

text \<open>Swapping the bytes of a limb reverses them.\<close>

lemma and_byte: "unat (x AND push_bit k (mask 8) :: limb) = unat x div 2 ^ k mod 256 * 2 ^ k" if "k \<le> 56"
proof -
  have "x AND push_bit k (mask 8) = push_bit k (take_bit 8 (drop_bit k x))"
    by (intro bit_eqI) (auto simp: bit_simps)
  moreover have t: "unat (take_bit 8 (drop_bit k x)) = unat x div 2 ^ k mod 256"
  proof -
    have "unat (take_bit 8 (drop_bit k x)) = take_bit 8 (unat (drop_bit k x))" by (rule unsigned_take_bit_eq)
    then show ?thesis by (simp add: take_bit_eq_mod unat_drop)
  qed
  moreover have "(256 :: nat) \<le> 2 ^ (64 - k)"
  proof -
    have "(2 :: nat) ^ 8 \<le> 2 ^ (64 - k)" using that by (intro power_increasing) simp_all
    then show ?thesis by simp
  qed
  then have "unat x div 2 ^ k mod 256 < 2 ^ (64 - k)"
    by (rule less_le_trans [rotated]) simp
  ultimately show ?thesis
    using unat_push [of k "take_bit 8 (drop_bit k x)"] that by simp
qed

lemma limb_sum8:
  fixes a b c d e f g h :: limb
  assumes "unat a + unat b + unat c + unat d + unat e + unat f + unat g + unat h < 2 ^ 64"
  shows "unat (a + b + c + d + e + f + g + h) =
    unat a + unat b + unat c + unat d + unat e + unat f + unat g + unat h"
proof -
  have "unat (a + b) = unat a + unat b" using assms by (intro limb_add_small) simp
  moreover from this have "unat (a + b + c) = unat a + unat b + unat c"
    using assms by (subst limb_add_small) simp_all
  moreover from this have "unat (a + b + c + d) = unat a + unat b + unat c + unat d"
    using assms by (subst limb_add_small) simp_all
  moreover from this have "unat (a + b + c + d + e) = unat a + unat b + unat c + unat d + unat e"
    using assms by (subst limb_add_small) simp_all
  moreover from this have "unat (a + b + c + d + e + f) = unat a + unat b + unat c + unat d + unat e + unat f"
    using assms by (subst limb_add_small) simp_all
  moreover from this have "unat (a + b + c + d + e + f + g) =
      unat a + unat b + unat c + unat d + unat e + unat f + unat g"
    using assms by (subst limb_add_small) simp_all
  ultimately show ?thesis using assms by (subst limb_add_small) simp_all
qed

lemma unat_BSWAP:
  fixes s :: limb
  defines "b \<equiv> \<lambda>i. unat s div 2 ^ (8 * i) mod 256"
  shows "unat (BSWAP_LIMB s) = b 7 + 256 * (b 6 + 256 * (b 5 + 256 * (b 4 + 256 * (b 3 + 256 * (b 2 +
    256 * (b 1 + 256 * b 0))))))"
proof -
  have m: "(0xFF00 :: limb) = push_bit 8 (mask 8)" "(0xFF0000 :: limb) = push_bit 16 (mask 8)"
    "(0xFF000000 :: limb) = push_bit 24 (mask 8)" by (simp_all add: mask_eq_exp_minus_1)
  have lt: "b i < 256" for i by (simp add: b_def)
  have left: "unat (push_bit k (s AND push_bit j (mask 8))) = unat s div 2 ^ j mod 256 * 2 ^ (j + k)"
    if "j + k \<le> 56" for j k
  proof -
    have "(unat s div 2 ^ j mod 256 + 1) * 2 ^ j \<le> 2 ^ 8 * 2 ^ j" by (intro mult_le_mono1) (simp add: Suc_le_eq)
    also have "(2 :: nat) ^ 8 * 2 ^ j \<le> 2 ^ (64 - k)"
      unfolding power_add [symmetric] using that by (intro power_increasing) simp_all
    finally have "2 ^ j + unat s div 2 ^ j mod 256 * 2 ^ j \<le> 2 ^ (64 - k)" by simp
    moreover have "(0 :: nat) < 2 ^ j" by simp
    ultimately have "unat s div 2 ^ j mod 256 * 2 ^ j < 2 ^ (64 - k)" by linarith
    then show ?thesis
      using unat_push [of k "s AND push_bit j (mask 8)"] and_byte [of j s] that
      by (simp add: power_add)
  qed
  have right: "unat (drop_bit k s AND push_bit j (mask 8)) = unat s div 2 ^ (k + j) mod 256 * 2 ^ j"
    if "j \<le> 56" for j k
    using and_byte [OF that, of "drop_bit k s"] by (simp add: unat_drop power_add div_mult2_eq)
  have "unat s div 2 ^ 56 < 256" using unat_limb_less [of s] by (simp add: less_mult_imp_div_less)
  then have top: "unat (drop_bit 56 s) = b 7" by (simp add: unat_drop b_def)
  have low: "unat (push_bit 56 s) = b 0 * 2 ^ 56" using unat_push [of 56 s] by (simp add: b_def)
  have l: "unat (push_bit 40 (s AND 0xFF00)) = b 1 * 2 ^ 48" "unat (push_bit 24 (s AND 0xFF0000)) = b 2 * 2 ^ 40"
    "unat (push_bit 8 (s AND 0xFF000000)) = b 3 * 2 ^ 32"
    unfolding m by (subst left; simp add: b_def)+
  have r: "unat (drop_bit 8 s AND 0xFF000000) = b 4 * 2 ^ 24" "unat (drop_bit 24 s AND 0xFF0000) = b 5 * 2 ^ 16"
    "unat (drop_bit 40 s AND 0xFF00) = b 6 * 2 ^ 8"
    unfolding m by (subst right; simp add: b_def)+
  have "unat (BSWAP_LIMB s) = b 0 * 2 ^ 56 + b 1 * 2 ^ 48 + b 2 * 2 ^ 40 + b 3 * 2 ^ 32 + b 4 * 2 ^ 24 +
      b 5 * 2 ^ 16 + b 6 * 2 ^ 8 + b 7"
    unfolding BSWAP_LIMB_def
    by (subst limb_sum8) (use lt [of 0] lt [of 1] lt [of 2] lt [of 3] lt [of 4] lt [of 5] lt [of 6] lt [of 7]
      in \<open>simp_all only: l r top low\<close>, simp)
  then show ?thesis by simp
qed

lemma BSWAP_LIMB_val:
  assumes "unat s = le_val w" and "length w = 8"
  shows "unat (BSWAP_LIMB s) = le_val (rev w)"
proof -
  obtain x0 x1 x2 x3 x4 x5 x6 x7 where w: "w = [x0, x1, x2, x3, x4, x5, x6, x7]"
    using assms(2) by (auto simp: length_Suc_conv eval_nat_numeral)
  have d: "(unat (x :: byte) + 256 * y) div 256 = y" "(unat x + 256 * y) mod 256 = unat x" for x y
    using unat_byte_less [of x] by simp_all
  have "unat s = unat x0 + 256 * (unat x1 + 256 * (unat x2 + 256 * (unat x3 + 256 * (unat x4 + 256 *
      (unat x5 + 256 * (unat x6 + 256 * (unat x7 + 256 * 0)))))))"
    using assms(1) by (simp add: w)
  note v = this
  have p: "(2 :: nat) ^ (8 * 0) = 1" "(2 :: nat) ^ (8 * 1) = 256" "(2 :: nat) ^ (8 * 2) = 256 * 256"
    "(2 :: nat) ^ (8 * 3) = 256 * (256 * 256)" "(2 :: nat) ^ (8 * 4) = 256 * (256 * (256 * 256))" "(2 :: nat) ^ (8 * 5) = 256 * (256 * (256 * (256 * 256)))"
    "(2 :: nat) ^ (8 * 6) = 256 * (256 * (256 * (256 * (256 * 256))))" "(2 :: nat) ^ (8 * 7) = 256 * (256 * (256 * (256 * (256 * (256 * 256)))))"
    by simp_all
  have b: "unat s div 2 ^ (8 * 0) mod 256 = unat x0"
    "unat s div 2 ^ (8 * 1) mod 256 = unat x1"
    "unat s div 2 ^ (8 * 2) mod 256 = unat x2"
    "unat s div 2 ^ (8 * 3) mod 256 = unat x3"
    "unat s div 2 ^ (8 * 4) mod 256 = unat x4"
    "unat s div 2 ^ (8 * 5) mod 256 = unat x5"
    "unat s div 2 ^ (8 * 6) mod 256 = unat x6"
    "unat s div 2 ^ (8 * 7) mod 256 = unat x7"
    unfolding p v by (simp_all only: div_mult2_eq div_by_1 d)
  show ?thesis unfolding unat_BSWAP b by (simp add: w)
qed

subsection \<open>The number that is read\<close>

text \<open>Limbs and their normalized size make a number.\<close>

lemma mpz_of_limbs:
  assumes "n \<le> length p"
  shows "mpz_wf \<lparr>siz = int (mpn_normalize p n), ptr = p\<rparr>"
    and "mpz_val \<lparr>siz = int (mpn_normalize p n), ptr = p\<rparr> = int (limbs_val (take n p))"
    and "mpz_wf \<lparr>siz = - int (mpn_normalize p n), ptr = p\<rparr>"
    and "mpz_val \<lparr>siz = - int (mpn_normalize p n), ptr = p\<rparr> = - int (limbs_val (take n p))"
proof -
  have le: "mpn_normalize p n \<le> length p" using mpn_normalize_val(1) [OF assms] assms by simp
  show "mpz_wf \<lparr>siz = int (mpn_normalize p n), ptr = p\<rparr>" "mpz_wf \<lparr>siz = - int (mpn_normalize p n), ptr = p\<rparr>"
    using le mpn_normalize_val(3) [OF assms] by (auto simp: mpz_wf_def)
  have v: "limbs_val (take (mpn_normalize p n) p) = limbs_val (take n p)" by (rule mpn_normalize_val(2) [OF assms])
  have z: "mpn_normalize p n = 0 \<Longrightarrow> limbs_val (take n p) = 0" using v by simp
  show "mpz_val \<lparr>siz = int (mpn_normalize p n), ptr = p\<rparr> = int (limbs_val (take n p))"
    and "mpz_val \<lparr>siz = - int (mpn_normalize p n), ptr = p\<rparr> = - int (limbs_val (take n p))"
    using v z by (cases "mpn_normalize p n = 0"; simp add: mpz_val_def sgn_if)+
qed

definition import_limbs :: "nat \<Rightarrow> int \<Rightarrow> nat \<Rightarrow> int \<Rightarrow> nat \<Rightarrow> bytes \<Rightarrow> limbs \<Rightarrow> bool" where
  "import_limbs count order sz endian nail data zp \<longleftrightarrow>
     length zp = BITS_TO_LIMBS (count * (8 * sz - nail)) \<and>
     limbs_val zp = import_val count order sz endian nail data"

lemma import_copy:
  assumes "length data = count * 8" and "order = 1 \<or> order = -1" and "read_limbs data 0 count = Inr xs"
    and "zp = (if order = 1 then rev ys else ys)" and "ys = (if endian = 1 then map BSWAP_LIMB xs else xs)"
  shows "import_limbs count order 8 endian 0 data zp"
proof -
  obtain xs' where xs': "read_limbs data 0 count = Inr xs'" "length xs' = count"
    "\<forall>i<count. unat (xs' ! i) = le_val (take 8 (drop (8 * i) data))"
    using read_limbs_val [of 0 count data] assms(1) by auto
  have xs: "length xs = count" "\<And>i. i < count \<Longrightarrow> unat (xs ! i) = le_val (take 8 (drop (8 * i) data))"
    using xs' assms(3) by simp_all
  have ys: "length ys = count" using xs(1) assms(5) by simp
  have nth: "unat (zp ! i) = le_val (word_bytes count order 8 endian data i)" if i: "i < count" for i
  proof -
    define k where "k = (if 0 \<le> order then count - 1 - i else i)"
    have k: "k < count" "zp ! i = ys ! k"
      using i ys assms(2,4) by (auto simp: k_def rev_nth)
    have len: "length (take 8 (drop (8 * k) data)) = 8" using k(1) assms(1) by simp
    show ?thesis
      using k xs(1) xs(2) [OF k(1)] BSWAP_LIMB_val [OF xs(2) [OF k(1)] len] assms(5)
      by (simp add: word_bytes_def Let_def mult.commute flip: k_def)
  qed
  have "length zp = count" using ys assms(4) by simp
  moreover have "limbs_val zp = words_val 64 (word_bytes count order 8 endian data) count"
    using limbs_words [of zp "word_bytes count order 8 endian data"] nth \<open>length zp = count\<close> by simp
  ultimately show ?thesis by (simp add: import_limbs_def import_val_def BITS_TO_LIMBS_def)
qed

lemma import_general:
  fixes count sz nail :: nat and order endian :: int
  assumes "length data = count * sz" and "endian = 1 \<or> endian = -1"
  defines "numb \<equiv> sz * 8 - nail"
  defines "dp \<equiv> (if 0 \<le> order then (int count - 1) * int sz else 0) + (if 0 \<le> endian then int sz - 1 else 0)"
    and "woffset \<equiv> (if 0 \<le> endian then int ((numb + 7) div 8) else - int ((numb + 7) div 8)) +
      (if order < 0 then int sz else - int sz)"
  shows "\<exists>dp' a. import_words data endian (numb div 8) (numb mod 8) woffset count (dp, [], 0, 0) = Inr (dp', a) \<and>
    import_limbs count order sz endian nail data (acc_flush a)"
proof -
  define step where "step = (if order < 0 then int sz else - int sz)"
  define w where "w = word_bytes count order sz endian data"
  have wo: "woffset = endian * int ((numb + 7) div 8) + step"
    using assms(2) by (auto simp: woffset_def step_def)
  note pos = word_position [OF assms(1) _ _ assms(2), of _ _ order, folded dp_def step_def w_def]
  have len: "length (w j) = sz" if "j < count" for j
  proof (cases "sz = 0")
    case True
    then show ?thesis using assms(1) by (simp add: w_def word_bytes_def Let_def)
  next
    case False
    then show ?thesis using pos(4) [OF that, of 0] by simp
  qed
  obtain a dp' where a: "import_words data endian (numb div 8) (numb mod 8) woffset count
      (dp + step * int 0, [], 0, 0) = Inr (dp', a)" "acc_ok a" "acc_len a = numb * count"
      "acc_val a = words_val numb w count"
  proof -
    have "numb = 8 * (numb div 8) + numb mod 8" "numb mod 8 < 8" "numb \<le> 8 * sz"
      by (simp_all add: numb_def)
    then have "\<exists>a' dp'. import_words data endian (numb div 8) (numb mod 8) woffset count
        (dp + step * int 0, [], 0, 0) = Inr (dp', a') \<and>
        acc_ok a' \<and> acc_len a' = numb * count \<and> acc_val a' = words_val numb w count"
      using wo by (rule import_words_val) (use pos len in \<open>auto simp: acc_ok_def acc_len_def acc_val_def\<close>)
    then show thesis using that by blast
  qed
  have "import_limbs count order sz endian nail data (acc_flush a)"
    using acc_flush_val [OF a(2)] a(3,4)
    by (simp add: import_limbs_def import_val_def BITS_TO_LIMBS_def numb_def w_def mult.commute)
  then show ?thesis using a(1) by auto
qed

lemma mpz_import_limbs:
  assumes "length data = count * sz" and "order = 1 \<or> order = -1" and "endian = 1 \<or> endian = 0 \<or> endian = -1"
  shows "\<exists>zp. mpz_import count order sz endian nail aligned data =
      Inr \<lparr>siz = int (mpn_normalize zp (length zp)), ptr = zp\<rparr> \<and>
    import_limbs count order sz (if endian = 0 then HOST_ENDIAN else endian) nail data zp"
proof -
  define e where "e = (if endian = 0 then HOST_ENDIAN else endian)"
  have e: "e = 1 \<or> e = -1" using assms(3) by (auto simp: e_def HOST_ENDIAN_def)
  have o: "order = -1 \<longleftrightarrow> order \<noteq> 1" using assms(2) by auto
  show ?thesis
  proof (cases "nail = 0 \<and> sz = 8 \<and> aligned \<and> (order = 1 \<longrightarrow> e = -1)")
    case True
    then obtain xs where xs: "read_limbs data 0 count = Inr xs"
      using read_limbs_val [of 0 count data] assms(1) by auto
    define ys where "ys = (if e = 1 then map BSWAP_LIMB xs else xs)"
    define zp where "zp = (if order = 1 then rev ys else ys)"
    have l: "import_limbs count order sz e nail data zp"
      using import_copy [OF _ assms(2) xs zp_def ys_def] assms(1) True by simp
    then have "length zp = BITS_TO_LIMBS (count * (8 * sz - nail))" by (simp add: import_limbs_def)
    then have "mpz_import count order sz endian nail aligned data =
        Inr \<lparr>siz = int (mpn_normalize zp (length zp)), ptr = zp\<rparr>"
      using True xs e o unfolding mpz_import_def Let_def e_def [symmetric]
      by (auto simp: zp_def ys_def HOST_ENDIAN_def)
    with l show ?thesis unfolding e_def by blast
  next
    case False
    obtain dp' a where a: "import_words data e ((sz * 8 - nail) div 8) ((sz * 8 - nail) mod 8)
        ((if 0 \<le> e then int ((sz * 8 - nail + 7) div 8) else - int ((sz * 8 - nail + 7) div 8)) +
          (if order < 0 then int sz else - int sz)) count
        ((if 0 \<le> order then (int count - 1) * int sz else 0) + (if 0 \<le> e then int sz - 1 else 0), [], 0, 0) =
        Inr (dp', a)" "import_limbs count order sz e nail data (acc_flush a)"
      using import_general [OF assms(1) e, of nail order] by blast
    have len: "length (acc_flush a) = BITS_TO_LIMBS (count * (8 * sz - nail))"
      using a(2) by (simp add: import_limbs_def)
    have c: "(nail = 0 \<and> order = -1 \<and> sz = 8 \<and> e = HOST_ENDIAN \<and> aligned) = False"
      "(nail = 0 \<and> order = -1 \<and> sz = 8 \<and> e = - HOST_ENDIAN \<and> aligned) = False"
      "(nail = 0 \<and> order = 1 \<and> sz = 8 \<and> e = HOST_ENDIAN \<and> aligned) = False"
      using False by (auto simp: HOST_ENDIAN_def)
    have "mpz_import count order sz endian nail aligned data =
        Inr \<lparr>siz = int (mpn_normalize (acc_flush a) (length (acc_flush a))), ptr = acc_flush a\<rparr>"
      unfolding mpz_import_def Let_def e_def [symmetric] c if_False a(1) bindO_Inr prod.case len ..
    with a(2) show ?thesis unfolding e_def by blast
  qed
qed

text \<open>
  C36: For words that fill the data, in either order and with any byte order in them,
  \<open>mpz_import\<close> reads no byte outside of the data, and stores, normalized, the number whose digits to
  the base \<open>2 ^ (8 * size - nail)\<close> are the words without their nails; on the general path through the
  bits and on the three that copy, swap or reverse aligned limbs.
\<close>

theorem mpz_import_value:
  assumes "length data = count * sz" and "order = 1 \<or> order = -1"
    and "endian = 1 \<or> endian = 0 \<or> endian = -1" and "nail \<le> 8 * sz"
  shows "\<exists>z. mpz_import count order sz endian nail aligned data = Inr z \<and> mpz_wf z \<and>
    mpz_val z = int (import_val count order sz (if endian = 0 then HOST_ENDIAN else endian) nail data)"
proof -
  obtain zp where "mpz_import count order sz endian nail aligned data =
      Inr \<lparr>siz = int (mpn_normalize zp (length zp)), ptr = zp\<rparr>"
    "import_limbs count order sz (if endian = 0 then HOST_ENDIAN else endian) nail data zp"
    using mpz_import_limbs [OF assms(1-3)] by blast
  then show ?thesis using mpz_of_limbs(1,2) [of "length zp" zp] by (simp add: import_limbs_def)
qed

text \<open>Two words of two bytes with the most significant first, and three bits of each word left out.\<close>

theorem mpz_import_value_witness:
  "\<exists>z. mpz_import 2 1 2 1 3 False [0xFF, 1, 0, 2] = Inr z \<and> mpz_wf z \<and> mpz_val z = 0x1F01 * 2 ^ 13 + 2"
proof -
  have "words_val numb w 2 = le_val (w 0) mod 2 ^ numb + 2 ^ numb * (le_val (w 1) mod 2 ^ numb)" for numb w
    using words_val.simps(2) [of numb w 1] words_val.simps(2) [of numb w 0]
    by (simp only: One_nat_def numeral_2_eq_2) simp
  then have "import_val 2 1 2 1 3 [0xFF, 1, 0, 2] = 0x1F01 * 2 ^ 13 + 2"
    by (simp add: import_val_def word_bytes_def)
  then show ?thesis
    using mpz_import_value [of "[0xFF, 1, 0, 2]" 2 2 1 1 3 False] by simp
qed

text \<open>The call of \<open>hash_to_range\<close>: bytes, the most significant one first.\<close>

lemma words_val_bytes:
  "n \<le> length data \<Longrightarrow> words_val 8 (\<lambda>i. [data ! i]) n = le_val (take n data)"
  by (induction n) (simp_all add: take_Suc_conv_app_nth le_val_append power_mult)

lemma mpz_import_bytes:
  "\<exists>z. mpz_import (length data) 1 1 0 0 aligned data = Inr z \<and> mpz_wf z \<and> mpz_val z = int (be_val data)"
proof -
  obtain zp where z: "mpz_import (length data) 1 1 0 0 aligned data =
      Inr \<lparr>siz = int (mpn_normalize zp (length zp)), ptr = zp\<rparr>"
    "import_limbs (length data) 1 1 HOST_ENDIAN 0 data zp"
    using mpz_import_limbs [of data "length data" 1 1 0 0 aligned] by auto
  have "word_bytes (length data) 1 1 HOST_ENDIAN data i = [rev data ! i]" if "i < length data" for i
    using that by (simp add: word_bytes_def HOST_ENDIAN_def rev_nth take_Suc_conv_app_nth Let_def
        flip: Cons_nth_drop_Suc)
  then have "words_val 8 (word_bytes (length data) 1 1 HOST_ENDIAN data) n =
      words_val 8 (\<lambda>i. [rev data ! i]) n" if "n \<le> length data" for n
    using that by (induction n) simp_all
  then have "import_val (length data) 1 1 HOST_ENDIAN 0 data = be_val data"
    using words_val_bytes [of "length data" "rev data"] by (simp add: import_val_def le_val_rev)
  then show ?thesis using z mpz_of_limbs(1,2) [of "length zp" zp] by (simp add: import_limbs_def)
qed

end
