(* ===== verification/Gmp_Mpz.thy ===== *)
theory Gmp_Mpz
  imports Gmp_Import
begin

text \<open>
  Arithmetic of GMP numbers on their signs and limbs (\<open>gmp-6.2.1/mpz\<close>): \<open>mpz_set\<close>, \<open>mpz_set_ui\<close>,
  \<open>mpz_neg\<close>, \<open>mpz_abs\<close>, \<open>mpz_add\<close> and \<open>mpz_sub\<close> (\<open>aors.h\<close>), \<open>mpz_add_ui\<close> and \<open>mpz_sub_ui\<close> (\<open>aors_ui.h\<close>),
  \<open>mpz_cmp\<close>, \<open>mpz_cmp_ui\<close>, \<open>mpz_mul_ui\<close> and \<open>mpz_mul\<close>, against the arithmetic of \<open>int\<close>. A function returns
  the new value of its first argument, with the limbs it has written as \<open>ptr\<close>; the operands are read
  before the result is written or are copied first, so the result may be an operand.
\<close>

subsection \<open>The functions\<close>

definition mpz_limbs :: "mpz \<Rightarrow> limbs" where
  "mpz_limbs z = take (nat \<bar>siz z\<bar>) (ptr z)"

definition mpz_set :: "mpz \<Rightarrow> mpz" where
  "mpz_set u = (let size = nat \<bar>siz u\<bar> in \<lparr>siz = siz u, ptr = take size (ptr u)\<rparr>)"

definition mpz_set_ui :: "limb \<Rightarrow> mpz" where
  "mpz_set_ui v = \<lparr>siz = of_bool (v \<noteq> 0), ptr = [v]\<rparr>"

text \<open>\<open>same\<close>: the result is the operand.\<close>

definition mpz_neg :: "bool \<Rightarrow> mpz \<Rightarrow> mpz" where
  "mpz_neg same u =
     (let wp = (if same then ptr u else take (nat \<bar>siz u\<bar>) (ptr u)) in \<lparr>siz = - siz u, ptr = wp\<rparr>)"

definition mpz_abs :: "bool \<Rightarrow> mpz \<Rightarrow> mpz" where
  "mpz_abs same u =
     (let wp = (if same then ptr u else take (nat \<bar>siz u\<bar>) (ptr u)) in \<lparr>siz = \<bar>siz u\<bar>, ptr = wp\<rparr>)"

text \<open>\<open>mpz_add\<close> and \<open>mpz_sub\<close> after the operands are in the order of their sizes.\<close>

definition aors_sorted :: "int \<Rightarrow> int \<Rightarrow> limbs \<Rightarrow> limbs \<Rightarrow> mpz" where
  "aors_sorted usize vsize up vp =
     (let abs_usize = nat \<bar>usize\<bar>; abs_vsize = nat \<bar>vsize\<bar>; up = take abs_usize up; vp = take abs_vsize vp
      in if (usize < 0) \<noteq> (vsize < 0) then
           if abs_usize \<noteq> abs_vsize then
             let wp = snd (mpn_sub up vp); wsize = int (mpn_normalize wp abs_usize)
             in \<lparr>siz = (if usize < 0 then - wsize else wsize), ptr = wp\<rparr>
           else if mpn_cmp up vp < 0 then
             let wp = snd (mpn_sub_n vp up); wsize = int (mpn_normalize wp abs_usize)
             in \<lparr>siz = (if 0 \<le> usize then - wsize else wsize), ptr = wp\<rparr>
           else
             let wp = snd (mpn_sub_n up vp); wsize = int (mpn_normalize wp abs_usize)
             in \<lparr>siz = (if usize < 0 then - wsize else wsize), ptr = wp\<rparr>
         else
           let (cy_limb, wp) = mpn_add up vp; wsize = int abs_usize + int (unat cy_limb)
           in \<lparr>siz = (if usize < 0 then - wsize else wsize), ptr = wp @ [cy_limb]\<rparr>)"

text \<open>\<open>variation\<close> is the sign of \<open>VARIATION\<close>.\<close>

definition mpz_aors :: "int \<Rightarrow> mpz \<Rightarrow> mpz \<Rightarrow> mpz" where
  "mpz_aors variation u v =
     (let usize = siz u; vsize = variation * siz v
      in if nat \<bar>usize\<bar> < nat \<bar>vsize\<bar> then aors_sorted vsize usize (ptr v) (ptr u)
         else aors_sorted usize vsize (ptr u) (ptr v))"

definition mpz_add :: "mpz \<Rightarrow> mpz \<Rightarrow> mpz" where
  "mpz_add = mpz_aors 1"

definition mpz_sub :: "mpz \<Rightarrow> mpz \<Rightarrow> mpz" where
  "mpz_sub = mpz_aors (-1)"

text \<open>\<open>mpn_sub_1\<close> of \<open>gmp-h.in\<close>.\<close>

fun sub_1_rest :: "limbs \<Rightarrow> limb \<times> limbs" where
  "sub_1_rest [] = (1, [])"
| "sub_1_rest (x # src) =
     (let r = x - 1
      in if x < 1 then (let (cout, dst) = sub_1_rest src in (cout, r # dst)) else (0, r # src))"

definition mpn_sub_1 :: "limbs \<Rightarrow> limb \<Rightarrow> limb \<times> limbs" where
  "mpn_sub_1 src v =
     (case src of [] \<Rightarrow> (0, [])
      | x # src \<Rightarrow>
          let r = x - v
          in if x < v then (let (cout, dst) = sub_1_rest src in (cout, r # dst)) else (0, r # src))"

text \<open>
  \<open>mpz_add_ui\<close> and, with \<open>sub\<close>, \<open>mpz_sub_ui\<close>: \<open>VARIATION_NEG\<close>, \<open>VARIATION_UNNEG\<close> and
  \<open>VARIATION_CMP\<close> are the signs and the test at the start.
\<close>

definition mpz_aors_ui :: "bool \<Rightarrow> mpz \<Rightarrow> limb \<Rightarrow> mpz" where
  "mpz_aors_ui sub u vval =
     (let NEG = (if sub then -1 else 1); UNNEG = (if sub then 1 else -1); usize = siz u
      in if usize = 0 then \<lparr>siz = NEG * of_bool (vval \<noteq> 0), ptr = [vval]\<rparr>
         else
           let abs_usize = nat \<bar>usize\<bar>; up = take abs_usize (ptr u)
           in if (if sub then usize < 0 else 0 \<le> usize) then
                let (cy, wp) = mpn_add_1 up vval
                in \<lparr>siz = NEG * (int abs_usize + int (unat cy)), ptr = wp @ [cy]\<rparr>
              else if abs_usize = 1 \<and> up ! 0 < vval then
                \<lparr>siz = NEG * 1, ptr = [vval - up ! 0]\<rparr>
              else
                let wp = snd (mpn_sub_1 up vval)
                in \<lparr>siz = UNNEG * (int abs_usize - of_bool (wp ! (abs_usize - 1) = 0)), ptr = wp\<rparr>)"

definition mpz_add_ui :: "mpz \<Rightarrow> limb \<Rightarrow> mpz" where
  "mpz_add_ui = mpz_aors_ui False"

definition mpz_sub_ui :: "mpz \<Rightarrow> limb \<Rightarrow> mpz" where
  "mpz_sub_ui = mpz_aors_ui True"

definition mpz_cmp :: "mpz \<Rightarrow> mpz \<Rightarrow> int" where
  "mpz_cmp u v =
     (let usize = siz u; vsize = siz v
      in if usize \<noteq> vsize then (if vsize < usize then 1 else -1)
         else
           let asize = nat \<bar>usize\<bar>; c = mpn_cmp (take asize (ptr u)) (take asize (ptr v))
           in if 0 \<le> usize then c else - c)"

definition mpz_cmp_ui :: "mpz \<Rightarrow> limb \<Rightarrow> int" where
  "mpz_cmp_ui u v_digit =
     (let up = ptr u; un = siz u
      in if un = 0 then - of_bool (v_digit \<noteq> 0)
         else if un = 1 then
           let ul = up ! 0 in if v_digit < ul then 1 else if ul < v_digit then -1 else 0
         else if 0 < un then 1 else -1)"

definition mpz_mul_ui :: "mpz \<Rightarrow> mpz \<Rightarrow> limb \<Rightarrow> mpz" where
  "mpz_mul_ui w u small_mult =
     (let sign_product = siz u
      in if sign_product = 0 \<or> small_mult = 0 then w\<lparr>siz := 0\<rparr>
         else
           let size = nat \<bar>sign_product\<bar>; (cy, pp) = mpn_mul_1 (take size (ptr u)) small_mult;
               size = int size + of_bool (cy \<noteq> 0)
           in \<lparr>siz = (if sign_product < 0 then - size else size), ptr = pp @ [cy]\<rparr>)"

text \<open>
  \<open>mpz_mul\<close> with the products of limbs \<open>mul\<close> and \<open>sqr\<close> it calls; \<open>same\<close>: both operands are the same
  variable.
\<close>

definition mpz_mul ::
  "(limbs \<Rightarrow> limbs \<Rightarrow> limbs outcome) \<Rightarrow> (limbs \<Rightarrow> limbs outcome) \<Rightarrow> bool \<Rightarrow> mpz \<Rightarrow> mpz \<Rightarrow> mpz \<Rightarrow> mpz outcome"
where
  "mpz_mul mul sqr same w u v =
     (let negative = ((siz u < 0) \<noteq> (siz v < 0)); usize = nat \<bar>siz u\<bar>; vsize = nat \<bar>siz v\<bar>;
          (u, v, usize, vsize) = (if usize < vsize then (v, u, vsize, usize) else (u, v, usize, vsize))
      in if vsize = 0 then Inr (w\<lparr>siz := 0\<rparr>)
         else if vsize = 1 then
           let (cy_limb, wp) = mpn_mul_1 (take usize (ptr u)) (ptr v ! 0);
               usize = int usize + of_bool (cy_limb \<noteq> 0)
           in Inr \<lparr>siz = (if negative then - usize else usize), ptr = wp @ [cy_limb]\<rparr>
         else
           let wsize = usize + vsize; up = take usize (ptr u); vp = take vsize (ptr v)
           in bindO (if same then sqr up else mul up vp) (\<lambda>wp.
              let cy_limb = wp ! (wsize - 1); wsize = int wsize - of_bool (cy_limb = 0)
              in Inr \<lparr>siz = (if negative then - wsize else wsize), ptr = wp\<rparr>))"

subsection \<open>Sizes and signs\<close>

lemma mpz_val_limbs: "mpz_val z = (if siz z < 0 then - int (limbs_val (mpz_limbs z)) else int (limbs_val (mpz_limbs z)))"
  by (cases "siz z = 0") (simp_all add: mpz_val_def mpz_limbs_def sgn_if)

text \<open>The highest limb of a number that takes up all its limbs.\<close>

lemma limbs_top:
  assumes "xs \<noteq> []" and "last xs \<noteq> 0"
  shows "2 ^ (64 * (length xs - 1)) \<le> limbs_val xs"
proof -
  obtain ys y where xs: "xs = ys @ [y]" using assms(1) by (cases xs rule: rev_cases) auto
  then have "1 \<le> unat y" using assms(2) by (simp add: Suc_le_eq unat_gt_0)
  then have "2 ^ (64 * length ys) * 1 \<le> limbs_val ys + 2 ^ (64 * length ys) * unat y"
    by (intro trans_le_add2 mult_le_mono2)
  moreover have "limbs_val xs = limbs_val ys + 2 ^ (64 * length ys) * unat y"
    by (simp add: xs limbs_val_append)
  ultimately show ?thesis by (simp only: xs length_append_singleton mult_1_right diff_Suc_1)
qed

lemma limbs_top_nonzero:
  assumes "2 ^ (64 * (length xs - 1)) \<le> limbs_val xs"
  shows "xs \<noteq> [] \<and> last xs \<noteq> 0"
proof -
  have "xs \<noteq> []" using assms by auto
  then obtain ys y where xs: "xs = ys @ [y]" by (cases xs rule: rev_cases) auto
  have "y \<noteq> 0" using assms limbs_val_bound [of ys] by (auto simp: xs limbs_val_append)
  then show ?thesis by (simp add: xs)
qed

lemma mpz_wf_limbs:
  "mpz_wf z \<longleftrightarrow> length (mpz_limbs z) = nat \<bar>siz z\<bar> \<and> (mpz_limbs z \<noteq> [] \<longrightarrow> last (mpz_limbs z) \<noteq> 0)"
proof (cases "nat \<bar>siz z\<bar> \<le> length (ptr z) \<and> siz z \<noteq> 0")
  case True
  then have n: "nat \<bar>siz z\<bar> \<noteq> 0" "take (nat \<bar>siz z\<bar>) (ptr z) \<noteq> []" by auto
  then have "last (mpz_limbs z) = ptr z ! (nat \<bar>siz z\<bar> - 1)" "mpz_limbs z \<noteq> []"
    using True n(1) unfolding mpz_limbs_def last_conv_nth [OF n(2)] by (simp_all add: nth_take)
  then show ?thesis using True by (simp add: mpz_wf_def mpz_limbs_def)
next
  case False
  then show ?thesis by (auto simp: mpz_wf_def mpz_limbs_def)
qed

text \<open>A number from its size, sign and limbs.\<close>

lemma mpz_sized:
  assumes "n \<le> length p" and "2 ^ (64 * (n - 1)) \<le> limbs_val (take n p) \<or> n = 0"
    and "s = (if neg then - int n else int n)"
  shows "mpz_wf \<lparr>siz = s, ptr = p\<rparr> \<and>
    mpz_val \<lparr>siz = s, ptr = p\<rparr> = (if neg then - int (limbs_val (take n p)) else int (limbs_val (take n p)))"
proof -
  have l: "mpz_limbs \<lparr>siz = s, ptr = p\<rparr> = take n p" "length (take n p) = n"
    using assms(1) by (simp_all add: mpz_limbs_def assms(3))
  then show ?thesis
    using assms(2) limbs_top_nonzero [of "take n p"] unfolding mpz_wf_limbs mpz_val_limbs l
    by (cases "n = 0") (auto simp: assms(3))
qed

lemma mpz_normalized:
  assumes "n = length p" and "s = (if neg then - int (mpn_normalize p n) else int (mpn_normalize p n))"
  shows "mpz_wf \<lparr>siz = s, ptr = p\<rparr> \<and>
    mpz_val \<lparr>siz = s, ptr = p\<rparr> = (if neg then - int (limbs_val p) else int (limbs_val p))"
  using mpz_of_limbs [of n p] assms by simp

subsection \<open>Sums and differences\<close>

text \<open>A number and its value.\<close>

definition mpz_is :: "mpz \<Rightarrow> int \<Rightarrow> bool" where
  "mpz_is z x \<longleftrightarrow> mpz_wf z \<and> mpz_val z = x"

lemma mpz_is_sized:
  assumes "n \<le> length p" and "2 ^ (64 * (n - 1)) \<le> limbs_val (take n p) \<or> n = 0"
    and "s = (if neg then - int n else int n)"
    and "x = (if neg then - int (limbs_val (take n p)) else int (limbs_val (take n p)))"
  shows "mpz_is \<lparr>siz = s, ptr = p\<rparr> x"
  unfolding mpz_is_def assms(4) using assms(1-3) by (rule mpz_sized)

lemma mpz_is_normalized:
  assumes "n = length p" and "s = (if neg then - int (mpn_normalize p n) else int (mpn_normalize p n))"
    and "x = (if neg then - int (limbs_val p) else int (limbs_val p))"
  shows "mpz_is \<lparr>siz = s, ptr = p\<rparr> x"
  unfolding mpz_is_def assms(3) using assms(1,2) by (rule mpz_normalized)

lemma mpz_wf_top:
  assumes "mpz_wf z"
  shows "length (mpz_limbs z) = nat \<bar>siz z\<bar>"
    and "siz z \<noteq> 0 \<Longrightarrow> 2 ^ (64 * (nat \<bar>siz z\<bar> - 1)) \<le> limbs_val (mpz_limbs z)"
    and "limbs_val (mpz_limbs z) < 2 ^ (64 * nat \<bar>siz z\<bar>)"
  using assms limbs_top [of "mpz_limbs z"] limbs_val_bound [of "mpz_limbs z"]
  by (fastforce simp: mpz_wf_limbs)+

text \<open>A longer number is larger.\<close>

lemma shorter_less:
  assumes "mpz_wf u" and "mpz_wf v" and "nat \<bar>siz v\<bar> < nat \<bar>siz u\<bar>"
  shows "limbs_val (mpz_limbs v) < limbs_val (mpz_limbs u)"
proof -
  have "limbs_val (mpz_limbs v) < 2 ^ (64 * nat \<bar>siz v\<bar>)" by (rule mpz_wf_top(3) [OF assms(2)])
  also have "(2 :: nat) ^ (64 * nat \<bar>siz v\<bar>) \<le> 2 ^ (64 * (nat \<bar>siz u\<bar> - 1))"
    by (rule power_increasing) (use assms(3) in linarith, simp)
  also have "\<dots> \<le> limbs_val (mpz_limbs u)" by (rule mpz_wf_top(2) [OF assms(1)]) (use assms(3) in auto)
  finally show ?thesis .
qed

lemma no_borrow:
  fixes w u v c :: nat
  assumes "w + v = u + B * c" and "c \<le> 1" and "v \<le> u" and "w < B"
  shows "w = u - v"
  using assms by (cases c) auto

lemma mpn_sub_exact:
  assumes "length yp \<le> length xp" and "limbs_val yp \<le> limbs_val xp"
  shows "length (snd (mpn_sub xp yp)) = length xp \<and> limbs_val (snd (mpn_sub xp yp)) = limbs_val xp - limbs_val yp"
proof -
  obtain c wp where r: "mpn_sub xp yp = (c, wp)" by fastforce
  note s = mpn_sub_val [OF assms(1) r]
  have "limbs_val wp = limbs_val xp - limbs_val yp"
    by (rule no_borrow [of _ _ _ "2 ^ (64 * length xp)" "unat c"])
      (use s assms(2) limbs_val_bound [of wp] in simp_all)
  with s r show ?thesis by simp
qed

lemma mpn_sub_n_exact:
  assumes "length yp = length xp" and "limbs_val yp \<le> limbs_val xp"
  shows "length (snd (mpn_sub_n xp yp)) = length xp \<and> limbs_val (snd (mpn_sub_n xp yp)) = limbs_val xp - limbs_val yp"
proof -
  obtain c wp where r: "mpn_sub_n xp yp = (c, wp)" by fastforce
  note s = mpn_sub_n_val [OF assms(1) [symmetric] r]
  have "limbs_val wp = limbs_val xp - limbs_val yp"
    by (rule no_borrow [of _ _ _ "2 ^ (64 * length xp)" "unat c"])
      (use s assms(2) limbs_val_bound [of wp] in simp_all)
  with s(1) r show ?thesis by simp
qed

lemma aors_sorted_is:
  assumes "mpz_wf u" and "mpz_wf v" and "nat \<bar>siz v\<bar> \<le> nat \<bar>siz u\<bar>"
  shows "mpz_is (aors_sorted (siz u) (siz v) (ptr u) (ptr v)) (mpz_val u + mpz_val v)"
proof -
  define up vp nu nv where d: "up = mpz_limbs u" "vp = mpz_limbs v" "nu = nat \<bar>siz u\<bar>" "nv = nat \<bar>siz v\<bar>"
  have len: "length up = nu" "length vp = nv"
    using mpz_wf_top(1) [OF assms(1)] mpz_wf_top(1) [OF assms(2)] by (simp_all add: d)
  have "take nu (ptr u) = up" "take nv (ptr v) = vp" by (simp_all add: d mpz_limbs_def)
  then have core: "aors_sorted (siz u) (siz v) (ptr u) (ptr v) =
     (if (siz u < 0) \<noteq> (siz v < 0) then
        if nu \<noteq> nv then
          let wp = snd (mpn_sub up vp); wsize = int (mpn_normalize wp nu)
          in \<lparr>siz = (if siz u < 0 then - wsize else wsize), ptr = wp\<rparr>
        else if mpn_cmp up vp < 0 then
          let wp = snd (mpn_sub_n vp up); wsize = int (mpn_normalize wp nu)
          in \<lparr>siz = (if 0 \<le> siz u then - wsize else wsize), ptr = wp\<rparr>
        else
          let wp = snd (mpn_sub_n up vp); wsize = int (mpn_normalize wp nu)
          in \<lparr>siz = (if siz u < 0 then - wsize else wsize), ptr = wp\<rparr>
      else
        let (cy_limb, wp) = mpn_add up vp; wsize = int nu + int (unat cy_limb)
        in \<lparr>siz = (if siz u < 0 then - wsize else wsize), ptr = wp @ [cy_limb]\<rparr>)"
    unfolding aors_sorted_def Let_def d(3,4) [symmetric] by (simp only:)
  have vals: "mpz_val u = (if siz u < 0 then - int (limbs_val up) else int (limbs_val up))"
    "mpz_val v = (if siz v < 0 then - int (limbs_val vp) else int (limbs_val vp))"
    by (simp_all add: mpz_val_limbs d)
  show ?thesis
  proof (cases "(siz u < 0) \<noteq> (siz v < 0)")
    case True
    note differ = this
    show ?thesis
    proof (cases "nu = nv")
      case False
      then have "nat \<bar>siz v\<bar> < nat \<bar>siz u\<bar>" using assms(3) by (simp only: d le_neq_implies_less)
      then have "limbs_val vp < limbs_val up" using shorter_less [OF assms(1,2)] by (simp only: d)
      then have w: "length (snd (mpn_sub up vp)) = nu" "limbs_val (snd (mpn_sub up vp)) = limbs_val up - limbs_val vp"
        using mpn_sub_exact [of vp up] len assms(3) by (simp_all add: d)
      show ?thesis
        unfolding core Let_def if_P [OF differ] if_P [OF False]
        by (intro mpz_is_normalized [where neg = "siz u < 0"])
          (use w \<open>limbs_val vp < limbs_val up\<close> differ in \<open>auto simp: vals of_nat_diff\<close>)
    next
      case True
      note same = this
      then have not_not_same: "\<not> nu \<noteq> nv" by simp
      show ?thesis
      proof (cases "limbs_val up < limbs_val vp")
        case True
        have w: "length (snd (mpn_sub_n vp up)) = nu" "limbs_val (snd (mpn_sub_n vp up)) = limbs_val vp - limbs_val up"
          using mpn_sub_n_exact [of up vp] len same True by simp_all
        have c: "mpn_cmp up vp < 0" using mpn_cmp_val [of up vp] len same True by simp
        show ?thesis
          unfolding core Let_def if_P [OF differ] if_not_P [OF not_not_same] if_P [OF c]
          by (intro mpz_is_normalized [where neg = "0 \<le> siz u"])
            (use w True differ in \<open>auto simp: vals of_nat_diff\<close>)
      next
        case False
        have w: "length (snd (mpn_sub_n up vp)) = nu" "limbs_val (snd (mpn_sub_n up vp)) = limbs_val up - limbs_val vp"
          using mpn_sub_n_exact [of vp up] len same False by simp_all
        have c: "\<not> mpn_cmp up vp < 0" using mpn_cmp_val [of up vp] len same False by auto
        show ?thesis
          unfolding core Let_def if_P [OF differ] if_not_P [OF not_not_same] if_not_P [OF c]
          by (intro mpz_is_normalized [where neg = "siz u < 0"])
            (use w False differ in \<open>auto simp: vals of_nat_diff\<close>)
      qed
    qed
  next
    case False
    obtain cy wp where r: "mpn_add up vp = (cy, wp)" by fastforce
    have w: "length wp = nu" "unat cy \<le> 1"
      "limbs_val wp + 2 ^ (64 * nu) * unat cy = limbs_val up + limbs_val vp"
      using mpn_add_val [of vp up, OF _ r] len assms(3) by (simp_all add: d)
    define n where "n = nu + unat cy"
    have t: "limbs_val (take n (wp @ [cy])) = limbs_val up + limbs_val vp"
      using w by (cases "unat cy = 0") (simp_all add: n_def limbs_val_append)
    have "2 ^ (64 * (n - 1)) \<le> limbs_val up + limbs_val vp \<or> n = 0"
    proof (cases "unat cy = 0")
      case True
      then show ?thesis using mpz_wf_top(2) [OF assms(1)] by (auto simp: n_def d)
    next
      case False
      then have "unat cy = 1" using w(2) by simp
      with w(3) have "2 ^ (64 * (n - 1)) \<le> limbs_val up + limbs_val vp" by (simp add: n_def flip: w(3))
      then show ?thesis ..
    qed
    then have "mpz_is \<lparr>siz = (if siz u < 0 then - int n else int n), ptr = wp @ [cy]\<rparr> (mpz_val u + mpz_val v)"
      by (intro mpz_is_sized [where neg = "siz u < 0" and n = n])
        (use False w(1,2) t in \<open>auto simp: n_def vals\<close>)
    then show ?thesis unfolding core if_not_P [OF False] r by (simp only: n_def Let_def prod.case of_nat_add)
  qed
qed

lemma mpz_wf_neg: "mpz_wf z \<Longrightarrow> mpz_wf (z\<lparr>siz := - siz z\<rparr>) \<and> mpz_val (z\<lparr>siz := - siz z\<rparr>) = - mpz_val z"
  by (simp add: mpz_wf_def mpz_val_def sgn_minus)

lemma mpz_aors_is:
  assumes "mpz_is u x" and "mpz_is v y" and "variation = 1 \<or> variation = -1"
  shows "mpz_is (mpz_aors variation u v) (x + variation * y)"
proof -
  define v' where "v' = v\<lparr>siz := variation * siz v\<rparr>"
  have u: "mpz_wf u" "mpz_val u = x" using assms(1) by (simp_all add: mpz_is_def)
  have v: "mpz_wf v" "mpz_val v = y" using assms(2) by (simp_all add: mpz_is_def)
  have v': "mpz_wf v'" "mpz_val v' = variation * y"
    using assms(3) mpz_wf_neg [OF v(1)] v by (auto simp: v'_def)
  have f: "variation * siz v = siz v'" "ptr v = ptr v'" by (simp_all add: v'_def)
  show ?thesis
  proof (cases "nat \<bar>siz u\<bar> < nat \<bar>siz v'\<bar>")
    case True
    then show ?thesis
      using aors_sorted_is [OF v'(1) u(1) less_imp_le [OF True]] unfolding mpz_aors_def Let_def f u(2) v'(2)
      by (simp only: if_True add.commute)
  next
    case False
    then show ?thesis
      using aors_sorted_is [OF u(1) v'(1) leI [OF False]] unfolding mpz_aors_def Let_def f u(2) v'(2)
      by (simp only: if_False)
  qed
qed

lemma mpz_add_is: "mpz_is u x \<Longrightarrow> mpz_is v y \<Longrightarrow> mpz_is (mpz_add u v) (x + y)"
  using mpz_aors_is [of u x v y 1] by (simp add: mpz_add_def)

lemma mpz_sub_is: "mpz_is u x \<Longrightarrow> mpz_is v y \<Longrightarrow> mpz_is (mpz_sub u v) (x - y)"
  using mpz_aors_is [of u x v y "-1"] by (simp add: mpz_sub_def)

subsection \<open>A limb as the second operand\<close>

lemma sub_1_rest_eq: "sub_1_rest xp = sub_rest xp"
proof (induction xp)
  case (Cons x xp)
  have "x < 1 \<longleftrightarrow> x = 0" by (simp add: word_less_nat_alt unat_eq_zero)
  then show ?case by (simp add: Cons Let_def)
qed simp

lemma mpn_sub_1_val:
  assumes "xp \<noteq> []" and "mpn_sub_1 xp v = (c, wp)"
  shows "length wp = length xp \<and> unat c \<le> 1 \<and>
    limbs_val wp + unat v = limbs_val xp + 2 ^ (64 * length xp) * unat c"
proof -
  obtain x xs where xp: "xp = x # xs" using assms(1) by (cases xp) auto
  obtain c' w' where r: "sub_rest xs = (c', w')" by fastforce
  have b: "x < x - v \<longleftrightarrow> x < v"
    by (cases "x < x - v") (use limb_sub [of x v] unat_limb_less [of "x - v"] in \<open>auto simp: word_less_nat_alt\<close>)
  show ?thesis
    using assms(2) sub_rest_val [OF r] r limb_sub [of x v] unfolding b
    by (auto simp: mpn_sub_1_def xp Let_def sub_1_rest_eq power_add algebra_simps split: if_splits)
qed

lemma mpn_sub_1_exact:
  assumes "xp \<noteq> []" and "unat v \<le> limbs_val xp"
  shows "length (snd (mpn_sub_1 xp v)) = length xp \<and> limbs_val (snd (mpn_sub_1 xp v)) = limbs_val xp - unat v"
proof -
  obtain c wp where r: "mpn_sub_1 xp v = (c, wp)" by fastforce
  note s = mpn_sub_1_val [OF assms(1) r]
  have "limbs_val wp = limbs_val xp - unat v"
    by (rule no_borrow [of _ _ _ "2 ^ (64 * length xp)" "unat c"])
      (use s assms(2) limbs_val_bound [of wp] in simp_all)
  with s r show ?thesis by simp
qed

text \<open>A number with one limb more, which may be zero.\<close>

lemma mpz_is_carry:
  assumes "length wp = n" and "n \<noteq> 0" and "2 ^ (64 * (n - 1)) \<le> limbs_val (wp @ [cy])"
    and "s = (if neg then - (int n + of_bool (cy \<noteq> 0)) else int n + of_bool (cy \<noteq> 0))"
    and "x = (if neg then - int (limbs_val (wp @ [cy])) else int (limbs_val (wp @ [cy])))"
  shows "mpz_is \<lparr>siz = s, ptr = wp @ [cy]\<rparr> x"
proof (rule mpz_is_sized [where neg = neg and n = "n + of_bool (cy \<noteq> 0)"])
  have "2 ^ (64 * n) \<le> limbs_val (wp @ [cy])" if "cy \<noteq> 0"
    using limbs_top [of "wp @ [cy]"] that assms(1) by simp
  then show "2 ^ (64 * (n + of_bool (cy \<noteq> 0) - 1)) \<le> limbs_val (take (n + of_bool (cy \<noteq> 0)) (wp @ [cy])) \<or>
      n + of_bool (cy \<noteq> 0) = 0"
    using assms(1-3) by (cases "cy = 0") (auto simp: limbs_val_append)
qed (use assms in \<open>auto simp: limbs_val_append\<close>)

text \<open>Subtracting a limb leaves all limbs but the highest in use.\<close>

lemma top_after_sub:
  assumes "2 ^ (64 * (n - 1)) \<le> a" and "a - unat (v :: limb) = limbs_val wp" and "length wp = n" and "n \<noteq> 0"
    and "unat v \<le> a"
  defines "m \<equiv> n - of_bool (wp ! (n - 1) = 0)"
  shows "limbs_val (take m wp) = limbs_val wp \<and> (2 ^ (64 * (m - 1)) \<le> limbs_val wp \<or> m = 0)"
proof (cases "wp ! (n - 1) = 0")
  case False
  have "wp \<noteq> []" using assms(3,4) by auto
  then have "2 ^ (64 * (n - 1)) \<le> limbs_val wp"
    using limbs_top [of wp] False assms(3) by (simp add: last_conv_nth)
  then show ?thesis using False assms(3) by (simp add: m_def)
next
  case True
  then have m: "m = n - 1" by (simp add: m_def)
  obtain ys y where wp: "wp = ys @ [y]" using assms(3,4) by (cases wp rule: rev_cases) auto
  have y: "y = 0" "length ys = n - 1" using True assms(3) by (auto simp: wp nth_append)
  have v: "limbs_val (take m wp) = limbs_val wp" using y by (simp add: m wp limbs_val_append)
  have "2 ^ (64 * (n - 2)) \<le> limbs_val wp" if "n - 1 \<noteq> 0"
  proof -
    define B :: nat where "B = 2 ^ (64 * (n - 2))"
    have "64 * (n - 1) = 64 * (n - 2) + 64" using that by simp
    then have "(2 :: nat) ^ (64 * (n - 1)) = 2 ^ 64 * B" by (simp only: power_add mult.commute B_def)
    then have "2 ^ 64 * B \<le> limbs_val wp + unat v" using assms(1,2,5) by simp
    moreover have "1 \<le> B" by (simp add: B_def)
    moreover have "unat v < 2 ^ 64" by (rule unat_limb_less)
    ultimately have "B \<le> limbs_val wp" by simp
    then show ?thesis by (simp add: B_def)
  qed
  then show ?thesis using v by (auto simp: m numeral_2_eq_2)
qed

lemma mpz_aors_ui_is:
  assumes "mpz_is u x"
  shows "mpz_is (mpz_aors_ui sub u vval) (if sub then x - int (unat vval) else x + int (unat vval))"
proof -
  define up n where d: "up = mpz_limbs u" "n = nat \<bar>siz u\<bar>"
  have wf: "mpz_wf u" using assms by (simp add: mpz_is_def)
  have len: "length up = n" and top: "siz u \<noteq> 0 \<Longrightarrow> 2 ^ (64 * (n - 1)) \<le> limbs_val up"
    using mpz_wf_top [OF wf] by (simp_all add: d)
  have x: "x = (if siz u < 0 then - int (limbs_val up) else int (limbs_val up))"
    using assms mpz_val_limbs [of u] by (simp only: mpz_is_def d)
  have tk: "take n (ptr u) = up" by (simp add: d mpz_limbs_def)
  show ?thesis
  proof (cases "siz u = 0")
    case True
    then have "up = []" using len by (simp add: d)
    have "mpz_is \<lparr>siz = (if sub then -1 else 1) * of_bool (vval \<noteq> 0), ptr = [vval]\<rparr>
        (if sub then - int (unat vval) else int (unat vval))"
      by (rule mpz_is_sized [where n = "of_bool (vval \<noteq> 0)" and neg = sub])
        (auto simp: unat_eq_zero Suc_le_eq unat_gt_0)
    then show ?thesis
      using True x \<open>up = []\<close> by (cases sub; cases "vval = 0"; simp add: mpz_aors_ui_def Let_def)
  next
    case False
    then have n: "n \<noteq> 0" "up \<noteq> []" using len by (auto simp: d)
    define same where "same = (if sub then siz u < 0 else 0 \<le> siz u)"
    show ?thesis
    proof (cases same)
      case True
      obtain cy wp where r: "mpn_add_1 up vval = (cy, wp)" by fastforce
      note w = mpn_add_1_val [OF n(2) r]
      have v: "limbs_val (wp @ [cy]) = limbs_val up + unat vval"
        using w len by (simp add: limbs_val_append)
      have "unat cy = of_bool (cy \<noteq> 0)" using w(2) by (cases "cy = 0") (auto simp: le_Suc_eq unat_eq_zero)
      then have c: "int (unat cy) = of_bool (cy \<noteq> 0)" by simp
      have "mpz_is \<lparr>siz = (if sub then -1 else 1) * (int n + of_bool (cy \<noteq> 0)), ptr = wp @ [cy]\<rparr>
          (if sub then x - int (unat vval) else x + int (unat vval))"
        by (rule mpz_is_carry [where neg = sub])
          (use w(1) len n(1) v top [OF False] x True in \<open>auto simp: same_def\<close>)
      then show ?thesis
        unfolding mpz_aors_ui_def Let_def tk same_def [symmetric] d(2) [symmetric]
          if_not_P [OF False] if_P [OF True] tk r prod.case c .
    next
      case False
      note differ = this
      show ?thesis
      proof (cases "n = 1 \<and> up ! 0 < vval")
        case True
        obtain u0 where u0: "up = [u0]" using True len by (auto simp: length_Suc_conv)
        have lt: "unat u0 < unat vval" using True by (simp add: u0 word_less_nat_alt)
        then have sub0: "unat (vval - u0) = unat vval - unat u0" by (simp add: unat_sub word_le_nat_alt)
        have "mpz_is \<lparr>siz = (if sub then -1 else 1) * 1, ptr = [vval - u0]\<rparr>
            (if sub then x - int (unat vval) else x + int (unat vval))"
          by (rule mpz_is_sized [where n = 1 and neg = sub])
            (use lt sub0 x differ u0 in \<open>auto simp: same_def of_nat_diff\<close>)
        then show ?thesis
          using \<open>siz u \<noteq> 0\<close> differ True unfolding mpz_aors_ui_def Let_def same_def [symmetric] d(2) [symmetric] tk
          by (simp add: u0)
      next
        case False
        have le: "unat vval \<le> limbs_val up"
        proof (cases "n = 1")
          case True
          then obtain u0 where "up = [u0]" using len by (auto simp: length_Suc_conv)
          then show ?thesis using False True by (simp add: word_less_nat_alt)
        next
          case False
          then have "(2 :: nat) ^ 64 \<le> 2 ^ (64 * (n - 1))" using n(1) by (intro power_increasing) simp_all
          then have "2 ^ 64 \<le> limbs_val up" using top [OF \<open>siz u \<noteq> 0\<close>] by (rule order_trans)
          then show ?thesis using unat_limb_less [of vval] by simp
        qed
        define wp where "wp = snd (mpn_sub_1 up vval)"
        have w: "length wp = n" "limbs_val wp = limbs_val up - unat vval"
          using mpn_sub_1_exact [OF n(2) le] len by (simp_all add: wp_def)
        define m where "m = n - of_bool (wp ! (n - 1) = 0)"
        have t: "limbs_val (take m wp) = limbs_val wp" "2 ^ (64 * (m - 1)) \<le> limbs_val wp \<or> m = 0"
          using top_after_sub [OF top [OF \<open>siz u \<noteq> 0\<close>] w(2) [symmetric] w(1) n(1) le] by (simp_all add: m_def)
        have m: "int n - of_bool (wp ! (n - 1) = 0) = int m" using n(1) by (simp add: m_def of_nat_diff)
        have "mpz_is \<lparr>siz = (if sub then 1 else -1) * int m, ptr = wp\<rparr>
            (if sub then x - int (unat vval) else x + int (unat vval))"
          by (rule mpz_is_sized [where n = m and neg = "\<not> sub"])
            (use w t le x differ in \<open>auto simp: m_def same_def of_nat_diff\<close>)
        then show ?thesis
          unfolding mpz_aors_ui_def Let_def same_def [symmetric] d(2) [symmetric] if_not_P [OF differ] tk
            if_not_P [OF \<open>siz u \<noteq> 0\<close>] if_not_P [OF False] wp_def [symmetric] m .
      qed
    qed
  qed
qed

lemma mpz_add_ui_is: "mpz_is u x \<Longrightarrow> mpz_is (mpz_add_ui u v) (x + int (unat v))"
  using mpz_aors_ui_is [of u x False v] by (simp add: mpz_add_ui_def)

lemma mpz_sub_ui_is: "mpz_is u x \<Longrightarrow> mpz_is (mpz_sub_ui u v) (x - int (unat v))"
  using mpz_aors_ui_is [of u x True v] by (simp add: mpz_sub_ui_def)

subsection \<open>Copies, signs, comparison\<close>

lemma mpz_set_is: "mpz_is u x \<Longrightarrow> mpz_is (mpz_set u) x"
  by (auto simp: mpz_is_def mpz_wf_def mpz_val_def mpz_set_def Let_def)

lemma mpz_set_ui_is: "mpz_is (mpz_set_ui v) (int (unat v))"
  by (auto simp: mpz_is_def mpz_wf_def mpz_val_def mpz_set_ui_def)

lemma mpz_neg_is: "mpz_is u x \<Longrightarrow> mpz_is (mpz_neg same u) (- x)"
  by (auto simp: mpz_is_def mpz_wf_def mpz_val_def mpz_neg_def Let_def sgn_minus)

lemma mpz_abs_is: "mpz_is u x \<Longrightarrow> mpz_is (mpz_abs same u) \<bar>x\<bar>"
  by (auto simp: mpz_is_def mpz_wf_def mpz_val_def mpz_abs_def Let_def sgn_if abs_if split: if_splits)

lemma mpz_cmp_is:
  assumes "mpz_is u x" and "mpz_is v y"
  shows "mpz_cmp u v = (if x < y then -1 else if x = y then 0 else 1)"
proof -
  define up vp where d: "up = limbs_val (mpz_limbs u)" "vp = limbs_val (mpz_limbs v)"
  have wf: "mpz_wf u" "mpz_wf v" using assms by (simp_all add: mpz_is_def)
  have x: "x = (if siz u < 0 then - int up else int up)"
    using assms(1) mpz_val_limbs [of u] by (simp only: mpz_is_def d)
  have y: "y = (if siz v < 0 then - int vp else int vp)"
    using assms(2) mpz_val_limbs [of v] by (simp only: mpz_is_def d)
  have pos: "siz u \<noteq> 0 \<Longrightarrow> 0 < up" "siz v \<noteq> 0 \<Longrightarrow> 0 < vp"
    using mpz_wf_top(2) [OF wf(1)] mpz_wf_top(2) [OF wf(2)] by (auto simp: d intro: less_le_trans [rotated])
  have zero: "siz u = 0 \<Longrightarrow> up = 0" "siz v = 0 \<Longrightarrow> vp = 0" by (simp_all add: d mpz_limbs_def)
  have longer: "nat \<bar>siz v\<bar> < nat \<bar>siz u\<bar> \<Longrightarrow> vp < up" "nat \<bar>siz u\<bar> < nat \<bar>siz v\<bar> \<Longrightarrow> up < vp"
    using shorter_less [OF wf] shorter_less [OF wf(2,1)] by (simp_all only: d)
  show ?thesis
  proof (cases "siz u = siz v")
    case True
    have "length (mpz_limbs u) = length (mpz_limbs v)"
      using mpz_wf_top(1) [OF wf(1)] mpz_wf_top(1) [OF wf(2)] True by simp
    then have c: "mpn_cmp (take (nat \<bar>siz v\<bar>) (ptr u)) (take (nat \<bar>siz v\<bar>) (ptr v)) =
        (if up < vp then -1 else if up = vp then 0 else 1)"
      using mpn_cmp_val [of "mpz_limbs u" "mpz_limbs v"] True by (simp add: d mpz_limbs_def)
    show ?thesis using x y unfolding mpz_cmp_def Let_def True c by auto
  next
    case False
    then have e: "mpz_cmp u v = (if siz v < siz u then 1 else -1)" by (simp add: mpz_cmp_def Let_def)
    consider "siz v < siz u" "0 \<le> siz v" | "siz v < siz u" "siz v < 0" "0 \<le> siz u" | "siz v < siz u" "siz u < 0"
      | "siz u < siz v" "0 \<le> siz u" | "siz u < siz v" "siz u < 0" "0 \<le> siz v" | "siz u < siz v" "siz v < 0"
      using False by linarith
    then show ?thesis
      using e x y pos zero longer by cases auto
  qed
qed

lemma mpz_cmp_ui_is:
  assumes "mpz_is u x"
  shows "mpz_cmp_ui u v = (if x < int (unat v) then -1 else if x = int (unat v) then 0 else 1)"
proof -
  have wf: "mpz_wf u" using assms by (simp add: mpz_is_def)
  define up where "up = limbs_val (mpz_limbs u)"
  have x: "x = (if siz u < 0 then - int up else int up)"
    using assms mpz_val_limbs [of u] by (simp only: mpz_is_def up_def)
  consider "siz u = 0" | "siz u = 1" | "siz u < 0" | "1 < siz u" by linarith
  then show ?thesis
  proof cases
    case 1
    then show ?thesis using x
      by (auto simp: mpz_cmp_ui_def up_def mpz_limbs_def Let_def uint_0_iff less_le)
  next
    case 2
    have "length (mpz_limbs u) = 1" using mpz_wf_top(1) [OF wf] 2 by simp
    then obtain u0 where u0: "mpz_limbs u = [u0]" by (auto simp: length_Suc_conv)
    then have "ptr u ! 0 = u0" using 2 by (cases "ptr u") (auto simp: mpz_limbs_def)
    then show ?thesis using 2 x u0
      by (auto simp: mpz_cmp_ui_def Let_def up_def word_less_def word_uint_eq_iff)
  next
    case 3
    then have "0 < up" using mpz_wf_top(2) [OF wf] by (auto simp: up_def intro: less_le_trans [rotated])
    then have "x < 0" using 3 x by simp
    also have "0 \<le> int (unat v)" by (rule of_nat_0_le_iff)
    finally show ?thesis using 3 by (simp add: mpz_cmp_ui_def Let_def)
  next
    case 4
    then have "(2 :: nat) ^ 64 \<le> 2 ^ (64 * (nat \<bar>siz u\<bar> - 1))" by (intro power_increasing) auto
    also have "\<dots> \<le> up" using mpz_wf_top(2) [OF wf] 4 by (simp add: up_def)
    finally have "unat v < up" using unat_limb_less [of v] by (simp only: less_le_trans)
    then have "int (unat v) < x" using 4 x by (simp only: if_not_P not_less of_nat_less_iff less_imp_le)
    then show ?thesis using 4 by (simp add: mpz_cmp_ui_def Let_def)
  qed
qed

subsection \<open>Products\<close>

lemma mpz_is_limbs: "mpz_is z x \<Longrightarrow> x = (if siz z < 0 then - int (limbs_val (mpz_limbs z)) else int (limbs_val (mpz_limbs z)))"
  using mpz_val_limbs [of z] by (simp only: mpz_is_def)

lemma mpz_is_empty: "mpz_is (w\<lparr>siz := 0\<rparr>) 0"
  by (simp add: mpz_is_def mpz_wf_def mpz_val_def)

text \<open>A product of limbs of which the highest may be zero.\<close>

lemma product_top:
  assumes "2 ^ (64 * (length up - 1)) \<le> limbs_val up" and "up \<noteq> []" and "0 < m"
  shows "2 ^ (64 * (length up - 1)) \<le> limbs_val up * m"
  using assms by (metis Suc_leI mult_le_mono One_nat_def mult_1_right)

lemma mul_1_is:
  assumes "mpz_wf u" and "siz u \<noteq> 0" and "v \<noteq> 0" and "mpn_mul_1 (mpz_limbs u) v = (cy, wp)"
  shows "mpz_is \<lparr>siz = (if neg then - (int (nat \<bar>siz u\<bar>) + of_bool (cy \<noteq> 0)) else int (nat \<bar>siz u\<bar>) + of_bool (cy \<noteq> 0)),
      ptr = wp @ [cy]\<rparr>
    (if neg then - (int (limbs_val (mpz_limbs u)) * int (unat v)) else int (limbs_val (mpz_limbs u)) * int (unat v))"
proof -
  note w = mpn_mul_1_val [OF assms(4)]
  note len = mpz_wf_top(1) [OF assms(1)]
  have n: "nat \<bar>siz u\<bar> \<noteq> 0" "mpz_limbs u \<noteq> []" using assms(2) len by auto
  have v: "limbs_val (wp @ [cy]) = limbs_val (mpz_limbs u) * unat v"
    using w by (simp add: limbs_val_append)
  have "0 < unat v" using assms(3) by (simp add: unat_gt_0)
  then have top: "2 ^ (64 * (nat \<bar>siz u\<bar> - 1)) \<le> limbs_val (wp @ [cy])"
    using product_top [of "mpz_limbs u" "unat v"] mpz_wf_top(2) [OF assms(1,2)] n(2) len unfolding v by simp
  show ?thesis
    by (rule mpz_is_carry [where neg = neg, OF _ n(1) top refl]) (use w(1) len v in simp_all)
qed

lemma mpz_mul_ui_is:
  assumes "mpz_is u x"
  shows "mpz_is (mpz_mul_ui w u v) (x * int (unat v))"
proof (cases "siz u = 0 \<or> v = 0")
  case True
  then have "x * int (unat v) = 0" using mpz_is_limbs [OF assms] by (auto simp: mpz_limbs_def)
  moreover have "mpz_mul_ui w u v = w\<lparr>siz := 0\<rparr>" using True by (simp add: mpz_mul_ui_def Let_def)
  ultimately show ?thesis by (simp only: mpz_is_empty)
next
  case False
  obtain cy wp where r: "mpn_mul_1 (mpz_limbs u) v = (cy, wp)" by fastforce
  have "mpz_wf u" using assms by (simp add: mpz_is_def)
  note m = mul_1_is [OF this _ _ r, where neg = "siz u < 0"]
  have "mpz_mul_ui w u v = \<lparr>siz = (if siz u < 0 then - (int (nat \<bar>siz u\<bar>) + of_bool (cy \<noteq> 0))
      else int (nat \<bar>siz u\<bar>) + of_bool (cy \<noteq> 0)), ptr = wp @ [cy]\<rparr>"
    unfolding mpz_mul_ui_def Let_def if_not_P [OF False] mpz_limbs_def [symmetric] r by (simp only: prod.case)
  moreover have "x * int (unat v) = (if siz u < 0 then - (int (limbs_val (mpz_limbs u)) * int (unat v))
      else int (limbs_val (mpz_limbs u)) * int (unat v))"
    using mpz_is_limbs [OF assms] by (cases "siz u < 0") (simp_all only: mult_minus_left if_True if_False)
  moreover have "siz u \<noteq> 0" "v \<noteq> 0" using False by auto
  note m = m [OF this]
  ultimately show ?thesis using m by (simp only:)
qed

text \<open>What \<open>mpz_mul\<close> relies on: products of the full length, for operands of the sizes of \<open>fits\<close>.\<close>

locale limb_product =
  fixes mul :: "limbs \<Rightarrow> limbs \<Rightarrow> limbs outcome" and sqr :: "limbs \<Rightarrow> limbs outcome"
    and fits :: "bool \<Rightarrow> nat \<Rightarrow> nat \<Rightarrow> bool"
  assumes mul_val: "vp \<noteq> [] \<Longrightarrow> length vp \<le> length up \<Longrightarrow> fits False (length up) (length vp) \<Longrightarrow>
      \<exists>p. mul up vp = Inr p \<and> length p = length up + length vp \<and> limbs_val p = limbs_val up * limbs_val vp"
    and sqr_val: "up \<noteq> [] \<Longrightarrow> fits True (length up) (length up) \<Longrightarrow>
      \<exists>p. sqr up = Inr p \<and> length p = length up + length up \<and> limbs_val p = limbs_val up * limbs_val up"
    and fits_swap: "fits same n m \<Longrightarrow> fits same m n"
begin

lemma long_product:
  assumes "up \<noteq> []" and "vp \<noteq> []" and "length vp \<le> length up" and "last up \<noteq> 0" and "last vp \<noteq> 0"
    and "(if same then sqr up else mul up vp) = Inr wp" and "same \<longrightarrow> up = vp"
    and "fits same (length up) (length vp)" and "s = int (length up + length vp) - of_bool (wp ! (length up + length vp - 1) = 0)"
  shows "mpz_is \<lparr>siz = (if neg then - s else s), ptr = wp\<rparr>
    (if neg then - (int (limbs_val up) * int (limbs_val vp)) else int (limbs_val up) * int (limbs_val vp))"
proof -
  define n where "n = length up + length vp"
  have w: "length wp = n" "limbs_val wp = limbs_val up * limbs_val vp"
    using mul_val [OF assms(2,3)] sqr_val [OF assms(1)] assms(6-8) by (cases same; auto simp: n_def)+
  have "2 ^ (64 * (length up - 1)) * 2 ^ (64 * (length vp - 1)) \<le> limbs_val up * limbs_val vp"
    using limbs_top [OF assms(1,4)] limbs_top [OF assms(2,5)] by (rule mult_le_mono)
  moreover have "64 * (length up - 1) + 64 * (length vp - 1) = 64 * (n - 2)"
    using assms(1,2) by (cases up; cases vp; simp add: n_def)
  ultimately have top: "2 ^ (64 * (n - 2)) \<le> limbs_val wp" by (simp only: w(2) flip: power_add)
  have two: "2 \<le> n" using assms(1,2) by (cases up; cases vp; simp add: n_def)
  define k where "k = n - of_bool (wp ! (n - 1) = 0)"
  have "limbs_val (take k wp) = limbs_val wp \<and> 2 ^ (64 * (k - 1)) \<le> limbs_val wp"
  proof (cases "wp ! (n - 1) = 0")
    case True
    obtain ys y where "wp = ys @ [y]" using w(1) two by (cases wp rule: rev_cases) auto
    then show ?thesis using True top w(1) two by (auto simp: k_def nth_append limbs_val_append numeral_2_eq_2)
  next
    case False
    have "wp \<noteq> []" using w(1) two by auto
    then show ?thesis using False limbs_top [of wp] w(1) two by (simp add: k_def last_conv_nth)
  qed
  then show ?thesis
    by (intro mpz_is_sized [where n = k and neg = neg])
      (use w two in \<open>auto simp: k_def assms(9) n_def of_nat_diff\<close>)
qed

lemma mpz_mul_is:
  assumes "mpz_is u x" and "mpz_is v y" and "same \<longrightarrow> u = v" and "fits same (nat \<bar>siz u\<bar>) (nat \<bar>siz v\<bar>)"
  shows "\<exists>z. mpz_mul mul sqr same w u v = Inr z \<and> mpz_is z (x * y)"
proof -
  define a b where ab: "a = (if nat \<bar>siz u\<bar> < nat \<bar>siz v\<bar> then v else u)" "b = (if nat \<bar>siz u\<bar> < nat \<bar>siz v\<bar> then u else v)"
  define neg where "neg \<longleftrightarrow> (siz u < 0) \<noteq> (siz v < 0)"
  have wf: "mpz_wf a" "mpz_wf b" using assms(1,2) by (simp_all add: ab mpz_is_def)
  have le: "nat \<bar>siz b\<bar> \<le> nat \<bar>siz a\<bar>" unfolding ab by (auto simp only: split: if_split)
  have same: "same \<longrightarrow> mpz_limbs a = mpz_limbs b" using assms(3) by (auto simp: ab)
  have xy: "x * y = (if neg then - (int (limbs_val (mpz_limbs a)) * int (limbs_val (mpz_limbs b)))
      else int (limbs_val (mpz_limbs a)) * int (limbs_val (mpz_limbs b)))"
    using mpz_is_limbs [OF assms(1)] mpz_is_limbs [OF assms(2)] by (auto simp: neg_def ab)
  have mul: "mpz_mul mul sqr same w u v =
     (if nat \<bar>siz b\<bar> = 0 then Inr (w\<lparr>siz := 0\<rparr>)
      else if nat \<bar>siz b\<bar> = 1 then
        let (cy_limb, wp) = mpn_mul_1 (mpz_limbs a) (ptr b ! 0);
            usize = int (nat \<bar>siz a\<bar>) + of_bool (cy_limb \<noteq> 0)
        in Inr \<lparr>siz = (if neg then - usize else usize), ptr = wp @ [cy_limb]\<rparr>
      else
        let wsize = nat \<bar>siz a\<bar> + nat \<bar>siz b\<bar>
        in bindO (if same then sqr (mpz_limbs a) else mul (mpz_limbs a) (mpz_limbs b)) (\<lambda>wp.
           let wsize = int wsize - of_bool (wp ! (wsize - 1) = 0)
           in Inr \<lparr>siz = (if neg then - wsize else wsize), ptr = wp\<rparr>))"
    unfolding mpz_mul_def Let_def ab mpz_limbs_def neg_def
    by (cases "nat \<bar>siz u\<bar> < nat \<bar>siz v\<bar>") (simp_all only: if_True if_False prod.case)
  note len = mpz_wf_top(1) [OF wf(1)] mpz_wf_top(1) [OF wf(2)]
  consider "nat \<bar>siz b\<bar> = 0" | "nat \<bar>siz b\<bar> = 1" | "nat \<bar>siz b\<bar> \<noteq> 0" "nat \<bar>siz b\<bar> \<noteq> 1" by blast
  then show ?thesis
  proof cases
    case 1
    then have "x * y = 0" using len unfolding xy by simp
    then show ?thesis unfolding mul if_P [OF 1] \<open>x * y = 0\<close> by (simp add: mpz_is_empty)
  next
    case 2
    then obtain b0 where b0: "mpz_limbs b = [b0]" using len by (auto simp: length_Suc_conv)
    then have p: "ptr b ! 0 = b0" using 2 by (cases "ptr b") (auto simp: mpz_limbs_def)
    have "b0 \<noteq> 0" using wf(2) b0 by (simp add: mpz_wf_limbs)
    obtain cy wp where r: "mpn_mul_1 (mpz_limbs a) b0 = (cy, wp)" by fastforce
    have "siz a \<noteq> 0" using 2 le by auto
    note m = mul_1_is [OF wf(1) this \<open>b0 \<noteq> 0\<close> r, of neg]
    have nz: "nat \<bar>siz b\<bar> \<noteq> 0" and v: "limbs_val [b0] = unat b0" using 2 by simp_all
    show ?thesis unfolding mul xy p r b0 v if_not_P [OF nz] if_P [OF 2] Let_def prod.case
      by (rule exI, rule conjI [OF refl m])
  next
    case 3
    have ne: "mpz_limbs a \<noteq> []" "mpz_limbs b \<noteq> []" using 3 le len by auto
    have "last (mpz_limbs a) \<noteq> 0" "last (mpz_limbs b) \<noteq> 0" using wf ne by (simp_all add: mpz_wf_limbs)
    note lasts = this
    have le': "length (mpz_limbs b) \<le> length (mpz_limbs a)" using le by (simp only: len)
    have f: "fits same (length (mpz_limbs a)) (length (mpz_limbs b))"
      unfolding len using assms(4) fits_swap by (simp only: ab split: if_split) blast
    obtain wp where wp: "(if same then sqr (mpz_limbs a) else mul (mpz_limbs a) (mpz_limbs b)) = Inr wp"
      using mul_val [OF ne(2) le'] sqr_val [OF ne(1)] f same by (cases same) auto
    note p = long_product [OF ne le' lasts wp same f refl, of neg]
    show ?thesis
      unfolding mul xy if_not_P [OF 3(1)] if_not_P [OF 3(2)] Let_def wp bindO_Inr
      by (rule exI, rule conjI [OF refl p [unfolded len]])
  qed
qed

end

end
