(* ===== verification/Gmp_Mul.thy ===== *)
theory Gmp_Mul
  imports Gmp_Mpz
begin

text \<open>
  Products of limbs (\<open>gmp-6.2.1/mpn/generic\<close>): \<open>mpn_toom22_mul\<close>, the algorithm of Karatsuba, the squares
  of \<open>mpn_sqr_basecase\<close> and the choice of the algorithm in \<open>mpn_mul\<close>, \<open>mpn_mul_n\<close> and \<open>mpn_sqr\<close>, with the default
  thresholds of \<open>gmp-impl.h\<close>. The algorithms for operands above the first thresholds are arguments.
  The result area is the list of its limbs; a limb past its end that is read or written is an outcome.
\<close>

definition MUL_TOOM22_THRESHOLD :: nat where
  "MUL_TOOM22_THRESHOLD = 30"

definition MUL_TOOM33_THRESHOLD :: nat where
  "MUL_TOOM33_THRESHOLD = 100"

definition MUL_BASECASE_MAX_UN :: nat where
  "MUL_BASECASE_MAX_UN = 500"

definition SQR_TOOM2_THRESHOLD :: nat where
  "SQR_TOOM2_THRESHOLD = 50"

subsection \<open>Carries\<close>

text \<open>\<open>mpn_incr_u\<close>: the limbs from \<open>p\<close> to the end of the area.\<close>

fun incr_rest :: "limbs \<Rightarrow> limbs outcome" where
  "incr_rest [] = Inl OutOfBounds"
| "incr_rest (x # p) =
     (let x = x + 1 in if x = 0 then bindO (incr_rest p) (\<lambda>p. Inr (x # p)) else Inr (x # p))"

definition mpn_incr_u :: "limbs \<Rightarrow> limb \<Rightarrow> limbs outcome" where
  "mpn_incr_u p incr =
     (case p of [] \<Rightarrow> Inl OutOfBounds
      | x # p \<Rightarrow>
          let x = x + incr in if x < incr then bindO (incr_rest p) (\<lambda>p. Inr (x # p)) else Inr (x # p))"

definition incr_at :: "nat \<Rightarrow> limb \<Rightarrow> limbs \<Rightarrow> limbs outcome" where
  "incr_at k incr p = bindO (mpn_incr_u (drop k p) incr) (\<lambda>q. Inr (take k p @ q))"

definition mpn_zero_p :: "limbs \<Rightarrow> bool" where
  "mpn_zero_p p = list_all (\<lambda>x. x = 0) p"

lemma incr_rest_val:
  assumes "limbs_val p + 1 < 2 ^ (64 * length p)"
  shows "\<exists>q. incr_rest p = Inr q \<and> length q = length p \<and> limbs_val q = limbs_val p + 1"
  using assms
proof (induction p)
  case (Cons x p)
  show ?case
  proof (cases "x + 1 = 0")
    case True
    then have x: "unat x + 1 = 2 ^ 64" using limb_incr [of x] by simp
    have "2 ^ 64 * (limbs_val p + 1) < 2 ^ 64 * 2 ^ (64 * length p)"
      using Cons.prems x by (simp add: power_add algebra_simps)
    then have "limbs_val p + 1 < 2 ^ (64 * length p)" by simp
    then obtain q where "incr_rest p = Inr q" "length q = length p" "limbs_val q = limbs_val p + 1"
      using Cons.IH by blast
    then show ?thesis using True x by (simp add: algebra_simps)
  next
    case False
    then show ?thesis using limb_incr [of x] by (simp add: Let_def)
  qed
qed simp

lemma mpn_incr_u_val:
  assumes "p \<noteq> []" and "limbs_val p + unat incr < 2 ^ (64 * length p)"
  shows "\<exists>q. mpn_incr_u p incr = Inr q \<and> length q = length p \<and> limbs_val q = limbs_val p + unat incr"
proof -
  obtain x xs where p: "p = x # xs" using assms(1) by (cases p) auto
  show ?thesis
  proof (cases "x + incr < incr")
    case True
    then have x: "unat (x + incr) + 2 ^ 64 = unat x + unat incr" using limb_add' [of x incr] by simp
    have "2 ^ 64 * (limbs_val xs + 1) < 2 ^ 64 * 2 ^ (64 * length xs)"
      using assms(2) x by (simp add: p power_add algebra_simps)
    then have "limbs_val xs + 1 < 2 ^ (64 * length xs)" by simp
    then obtain q where "incr_rest xs = Inr q" "length q = length xs" "limbs_val q = limbs_val xs + 1"
      using incr_rest_val by blast
    then show ?thesis using True x by (simp add: p mpn_incr_u_def algebra_simps)
  next
    case False
    then show ?thesis using limb_add' [of x incr] by (simp add: p mpn_incr_u_def Let_def)
  qed
qed

lemma incr_at_val:
  assumes "k < length p" and "limbs_val p + 2 ^ (64 * k) * unat incr < 2 ^ (64 * length p)"
  shows "\<exists>q. incr_at k incr p = Inr q \<and> length q = length p \<and>
    limbs_val q = limbs_val p + 2 ^ (64 * k) * unat incr"
proof -
  have "limbs_val p = limbs_val (take k p) + 2 ^ (64 * k) * limbs_val (drop k p)"
    using limbs_val_split [of p k] assms(1) by simp
  note v = this
  have "64 * length p = 64 * k + 64 * (length p - k)" using assms(1) by simp
  then have "2 ^ (64 * k) * (limbs_val (drop k p) + unat incr) < 2 ^ (64 * k) * 2 ^ (64 * (length p - k))"
    using assms(2) v by (simp only: power_add [symmetric]) (simp add: algebra_simps)
  then have "limbs_val (drop k p) + unat incr < 2 ^ (64 * length (drop k p))" by simp
  then obtain q where "mpn_incr_u (drop k p) incr = Inr q" "length q = length (drop k p)"
    "limbs_val q = limbs_val (drop k p) + unat incr"
    using mpn_incr_u_val [of "drop k p" incr] assms(1) by auto
  then show ?thesis
    using assms(1) v by (simp add: incr_at_def limbs_val_append algebra_simps)
qed

subsection \<open>Karatsuba\<close>

text \<open>\<open>asm1\<close> and \<open>bsm1\<close> of \<open>mpn_toom22_mul\<close>: the differences of the halves, and if they are negative.\<close>

definition toom22_asm1 :: "nat \<Rightarrow> nat \<Rightarrow> limbs \<Rightarrow> limbs \<times> bool" where
  "toom22_asm1 n s ap =
     (let a0 = take n ap; a1 = drop n ap
      in if s = n then
           if mpn_cmp a0 a1 < 0 then (snd (mpn_sub_n a1 a0), True) else (snd (mpn_sub_n a0 a1), False)
         else if a0 ! s = 0 \<and> mpn_cmp (take s a0) a1 < 0 then
           (snd (mpn_sub_n a1 (take s a0)) @ [0], True)
         else
           let (cy, w) = mpn_sub_n (take s a0) a1 in (w @ [a0 ! s - cy], False))"

definition toom22_bsm1 :: "nat \<Rightarrow> nat \<Rightarrow> limbs \<Rightarrow> limbs \<times> bool" where
  "toom22_bsm1 n t bp =
     (let b0 = take n bp; b1 = drop n bp
      in if t = n then
           if mpn_cmp b0 b1 < 0 then (snd (mpn_sub_n b1 b0), True) else (snd (mpn_sub_n b0 b1), False)
         else if mpn_zero_p (drop t b0) \<and> mpn_cmp (take t b0) b1 < 0 then
           (snd (mpn_sub_n b1 (take t b0)) @ replicate (n - t) 0, True)
         else (snd (mpn_sub b0 b1), False))"

text \<open>The sum of the three products in the area \<open>pp\<close>, and the carries at the end.\<close>

definition toom22_finish :: "nat \<Rightarrow> limb \<Rightarrow> limb \<Rightarrow> limbs \<Rightarrow> limbs outcome" where
  "toom22_finish n cy cy2 pp = bindO (incr_at (2 * n) cy2 pp) (\<lambda>pp. incr_at (3 * n) cy pp)"

definition toom22_interpolate :: "nat \<Rightarrow> bool \<Rightarrow> limbs \<Rightarrow> limbs \<Rightarrow> limbs \<Rightarrow> limbs outcome" where
  "toom22_interpolate n vm1_neg v0 vinf vm1 =
     (let (cy, w) = mpn_add_n (drop n v0) (take n vinf);
          (c, lo) = mpn_add_n w (take n v0); cy2 = cy + c;
          (c, hi) = mpn_add w (drop n vinf); cy = cy + c
      in if vm1_neg then
           let (c, mid) = mpn_add_n (lo @ hi) vm1; cy = cy + c
           in toom22_finish n cy cy2 (take n v0 @ mid @ drop n vinf)
         else
           let (c, mid) = mpn_sub_n (lo @ hi) vm1; cy = cy - c
           in if cy + 1 = 0 then Inr (take n v0 @ take n mid @ replicate n 0 @ drop n vinf)
              else toom22_finish n cy cy2 (take n v0 @ mid @ drop n vinf))"

subsection \<open>The differences\<close>

lemma limbs_val_zeros [simp]: "limbs_val (replicate n 0) = 0"
  by (induction n) simp_all

lemma mpn_zero_p_val: "mpn_zero_p p \<longleftrightarrow> limbs_val p = 0"
  by (induction p) (auto simp: mpn_zero_p_def unat_eq_zero)

lemma asm1_same:
  assumes "length a0 = length a1"
  defines "r \<equiv> if mpn_cmp a0 a1 < 0 then (snd (mpn_sub_n a1 a0), True) else (snd (mpn_sub_n a0 a1), False)"
  shows "length (fst r) = length a0 \<and>
    (if snd r then - int (limbs_val (fst r)) else int (limbs_val (fst r))) = int (limbs_val a0) - int (limbs_val a1)"
proof (cases "limbs_val a0 < limbs_val a1")
  case True
  then have "mpn_cmp a0 a1 < 0" using mpn_cmp_val [OF assms(1)] by simp
  then show ?thesis
    using mpn_sub_n_exact [of a0 a1] assms(1) True by (simp add: r_def of_nat_diff)
next
  case False
  then have "\<not> mpn_cmp a0 a1 < 0" using mpn_cmp_val [OF assms(1)] by auto
  then show ?thesis
    using mpn_sub_n_exact [of a1 a0] assms(1) False by (simp add: r_def of_nat_diff)
qed

text \<open>A shorter second half: the lower part of the first decides only when its other limbs are zero.\<close>

lemma limbs_val_zero_high:
  assumes "limbs_val (drop t b0) = 0" and "t \<le> length b0"
  shows "limbs_val b0 = limbs_val (take t b0)"
  using limbs_val_split [of b0 t] assms by simp

lemma limbs_val_high:
  assumes "limbs_val (drop t b0) \<noteq> 0" and "length b1 = t" and "t \<le> length b0"
  shows "limbs_val b1 \<le> limbs_val b0"
proof -
  have "limbs_val b1 < 2 ^ (64 * t)" using limbs_val_bound [of b1] assms(2) by simp
  also have "2 ^ (64 * t) * 1 \<le> 2 ^ (64 * t) * limbs_val (drop t b0)"
    using assms(1) by (intro mult_le_mono2) simp
  also have "\<dots> \<le> limbs_val b0" using limbs_val_split [of b0 t] assms(3) by simp
  finally show ?thesis by simp
qed

lemma bsm1_shorter:
  assumes "length b0 = n" and "length b1 = t" and "t \<le> n"
  defines "r \<equiv> if mpn_zero_p (drop t b0) \<and> mpn_cmp (take t b0) b1 < 0
      then (snd (mpn_sub_n b1 (take t b0)) @ replicate (n - t) 0, True) else (snd (mpn_sub b0 b1), False)"
  shows "length (fst r) = n \<and>
    (if snd r then - int (limbs_val (fst r)) else int (limbs_val (fst r))) = int (limbs_val b0) - int (limbs_val b1)"
proof -
  have len: "length (take t b0) = length b1" using assms(1-3) by simp
  show ?thesis
  proof (cases "limbs_val (drop t b0) = 0 \<and> limbs_val (take t b0) < limbs_val b1")
    case True
    then have "mpn_zero_p (drop t b0) \<and> mpn_cmp (take t b0) b1 < 0"
      using mpn_cmp_val [OF len] by (simp add: mpn_zero_p_val)
    moreover have "limbs_val b0 = limbs_val (take t b0)"
      using limbs_val_zero_high [of t b0] True assms(1,3) by simp
    ultimately show ?thesis
      using mpn_sub_n_exact [OF len] True assms(2,3) by (simp add: r_def limbs_val_append of_nat_diff)
  next
    case False
    then have neg: "\<not> (mpn_zero_p (drop t b0) \<and> mpn_cmp (take t b0) b1 < 0)"
      using mpn_cmp_val [OF len] by (auto simp: mpn_zero_p_val split: if_splits)
    have "limbs_val b1 \<le> limbs_val b0"
      using False limbs_val_zero_high [of t b0] limbs_val_high [of t b0 b1] assms(1-3) by fastforce
    then show ?thesis
      using mpn_sub_exact [of b1 b0] assms(1-3) unfolding r_def if_not_P [OF neg] by (simp add: of_nat_diff)
  qed
qed

lemma asm1_shorter:
  assumes "length a0 = Suc s" and "length a1 = s"
  defines "r \<equiv> if a0 ! s = 0 \<and> mpn_cmp (take s a0) a1 < 0 then (snd (mpn_sub_n a1 (take s a0)) @ [0], True)
      else let (cy, w) = mpn_sub_n (take s a0) a1 in (w @ [a0 ! s - cy], False)"
  shows "length (fst r) = Suc s \<and>
    (if snd r then - int (limbs_val (fst r)) else int (limbs_val (fst r))) = int (limbs_val a0) - int (limbs_val a1)"
proof -
  define l h where lh: "l = take s a0" "h = a0 ! s"
  have len: "length l = length a1" "length l = s" using assms(1,2) by (simp_all add: lh)
  have "a0 = l @ [h]" using assms(1) take_Suc_conv_app_nth [of s a0] by (simp add: lh)
  then have a0: "limbs_val a0 = limbs_val l + 2 ^ (64 * s) * unat h" using len by (simp add: limbs_val_append)
  have cmp: "mpn_cmp l a1 < 0 \<longleftrightarrow> limbs_val l < limbs_val a1" using mpn_cmp_val [OF len(1)] by simp
  show ?thesis
  proof (cases "h = 0 \<and> limbs_val l < limbs_val a1")
    case True
    then have c: "h = 0 \<and> mpn_cmp l a1 < 0" using cmp by simp
    show ?thesis
      using mpn_sub_n_exact [OF len(1)] True assms(2) a0 unfolding r_def lh [symmetric] if_P [OF c]
      by (simp add: limbs_val_append of_nat_diff)
  next
    case False
    then have c: "\<not> (h = 0 \<and> mpn_cmp l a1 < 0)" using cmp by simp
    obtain cy w where sub: "mpn_sub_n l a1 = (cy, w)" by fastforce
    note w = mpn_sub_n_val [OF len(1) sub]
    have r: "fst r = w @ [h - cy]" "snd r = False"
      unfolding r_def lh [symmetric] if_not_P [OF c] sub by simp_all
    have "unat cy \<le> unat h"
    proof (cases "unat cy = 0")
      case False
      then have "unat cy = 1" using w(2) by simp
      moreover from this have "limbs_val l < limbs_val a1" using w(1,3) limbs_val_bound [of w] by simp
      then have "h \<noteq> 0" using \<open>\<not> (h = 0 \<and> limbs_val l < limbs_val a1)\<close> by blast
      then have "0 < unat h" by (simp add: unat_gt_0)
      ultimately show ?thesis by simp
    qed simp
    then obtain k where k: "unat h = unat cy + k" by (auto simp: le_iff_add)
    then have "unat (h - cy) = k" by (simp add: unat_sub word_le_nat_alt)
    then have "limbs_val (w @ [h - cy]) + limbs_val a1 = limbs_val a0"
      using w len by (simp add: limbs_val_append a0 k algebra_simps)
    then have "int (limbs_val (w @ [h - cy])) = int (limbs_val a0) - int (limbs_val a1)" by linarith
    then show ?thesis unfolding r using w(1) len by simp
  qed
qed

lemma toom22_asm1_val:
  assumes "s = length ap div 2" and "n = length ap - s" and "toom22_asm1 n s ap = (asm1, neg)"
  shows "length asm1 = n \<and> (if neg then - int (limbs_val asm1) else int (limbs_val asm1)) =
    int (limbs_val (take n ap)) - int (limbs_val (drop n ap))"
proof (cases "s = n")
  case True
  then have len: "length (take n ap) = length (drop n ap)" "length (take n ap) = n" using assms(1,2) by simp_all
  note e = assms(3) [unfolded toom22_asm1_def Let_def if_P [OF True]]
  show ?thesis using asm1_same [OF len(1)] len(2) unfolding e fst_conv snd_conv by simp
next
  case False
  then have len: "length (take n ap) = Suc s" "length (drop n ap) = s" "Suc s = n" using assms(1,2) by auto
  note e = assms(3) [unfolded toom22_asm1_def Let_def if_not_P [OF False]]
  show ?thesis using asm1_shorter [OF len(1,2)] len(3) unfolding Let_def e fst_conv snd_conv by simp
qed

lemma toom22_bsm1_val:
  assumes "t = length bp - n" and "n \<le> length bp" and "t \<le> n" and "toom22_bsm1 n t bp = (bsm1, neg)"
  shows "length bsm1 = n \<and> (if neg then - int (limbs_val bsm1) else int (limbs_val bsm1)) =
    int (limbs_val (take n bp)) - int (limbs_val (drop n bp))"
proof (cases "t = n")
  case True
  then have len: "length (take n bp) = length (drop n bp)" "length (take n bp) = n" using assms(1,2) by simp_all
  note e = assms(4) [unfolded toom22_bsm1_def Let_def if_P [OF True]]
  show ?thesis using asm1_same [OF len(1)] len(2) unfolding e fst_conv snd_conv by simp
next
  case False
  have len: "length (take n bp) = n" "length (drop n bp) = t" using assms(1,2) by simp_all
  note e = assms(4) [unfolded toom22_bsm1_def Let_def if_not_P [OF False]]
  show ?thesis using bsm1_shorter [OF len assms(3)] unfolding e fst_conv snd_conv by simp
qed

subsection \<open>The sum of the products\<close>

lemma karatsuba_sum:
  fixes P L0 H0 Li Hi w cy lo c hi d :: nat
  assumes "w + P * cy = H0 + Li" and "lo + P * c = w + L0" and "hi + P * d = w + Hi"
  shows "L0 + P * (lo + P * hi) + P * P * (cy + c) + P * P * P * (cy + d + Hi) =
    (L0 + P * H0) + P * ((L0 + P * H0) + (Li + P * Hi)) + P * P * (Li + P * Hi)"
proof -
  have "(L0 + P * H0) + P * ((L0 + P * H0) + (Li + P * Hi)) + P * P * (Li + P * Hi) =
      L0 + P * (H0 + Li) + P * L0 + P * P * (H0 + Li) + P * P * Hi + P * P * P * Hi"
    by (simp add: algebra_simps)
  also have "\<dots> = L0 + P * (w + P * cy) + P * L0 + P * P * (w + P * cy) + P * P * Hi + P * P * P * Hi"
    by (simp only: assms(1))
  also have "\<dots> = L0 + P * (w + L0) + P * P * (w + Hi) + P * P * cy + P * P * P * (cy + Hi)"
    by (simp add: algebra_simps)
  also have "\<dots> = L0 + P * (lo + P * c) + P * P * (hi + P * d) + P * P * cy + P * P * P * (cy + Hi)"
    by (simp only: assms(2,3))
  finally show ?thesis by (simp add: algebra_simps)
qed

lemma toom22_finish_val:
  assumes "length pp = 2 * n + m" and "n < m"
    and "limbs_val pp + 2 ^ (64 * (2 * n)) * unat cy2 + 2 ^ (64 * (3 * n)) * unat cy = W"
    and "W < 2 ^ (64 * (2 * n + m))"
  shows "\<exists>q. toom22_finish n cy cy2 pp = Inr q \<and> length q = 2 * n + m \<and> limbs_val q = W"
proof -
  have "\<exists>q. incr_at (2 * n) cy2 pp = Inr q \<and> length q = length pp \<and>
      limbs_val q = limbs_val pp + 2 ^ (64 * (2 * n)) * unat cy2"
  proof (rule incr_at_val)
    show "2 * n < length pp" using assms(1,2) by simp
    show "limbs_val pp + 2 ^ (64 * (2 * n)) * unat cy2 < 2 ^ (64 * length pp)"
      unfolding assms(1) by (rule le_less_trans [OF _ assms(4)]) (simp flip: assms(3))
  qed
  then obtain q where q: "incr_at (2 * n) cy2 pp = Inr q" "length q = length pp"
    "limbs_val q = limbs_val pp + 2 ^ (64 * (2 * n)) * unat cy2" by blast
  have "\<exists>r. incr_at (3 * n) cy q = Inr r \<and> length r = length q \<and>
      limbs_val r = limbs_val q + 2 ^ (64 * (3 * n)) * unat cy"
    by (rule incr_at_val) (use assms q(2,3) in simp_all)
  then show ?thesis using q assms(1,3) by (auto simp: toom22_finish_def)
qed

lemma carry_small:
  fixes a b :: limb
  assumes "unat a \<le> 2" and "unat b \<le> 1"
  shows "unat (a + b) = unat a + unat b"
  using assms by (intro limb_add_small) simp

text \<open>The borrow that cannot be paid from the carries: then the carry \<open>cy2\<close> stops it.\<close>

lemma borrow_stops:
  fixes P m c M :: nat
  assumes "m + P * c = P * P + M" and "m < P * P" and "c \<le> 1"
  shows "m mod P = M \<and> c = 1 \<and> M < P"
proof -
  have "c = 1" using assms by (cases c) auto
  then have e: "m + P = P * P + M" using assms(1) by simp
  then have M: "M < P" using assms(2) by simp
  have "P \<noteq> 0" using M by simp
  then obtain Q where Q: "P = Suc Q" by (cases P) auto
  have "m = P * Q + M" using e by (simp add: Q)
  then show ?thesis using M \<open>c = 1\<close> by simp
qed

lemma toom22_interpolate_val:
  assumes "length v0 = 2 * n" and "length vinf = m" and "n < m" and "m \<le> 2 * n" and "length vm1 = 2 * n"
  defines "P \<equiv> 2 ^ (64 * n) :: nat"
  assumes "vm1_neg \<Longrightarrow> W = limbs_val v0 + P * (limbs_val v0 + limbs_val vinf + limbs_val vm1) + P * P * limbs_val vinf"
    and "\<not> vm1_neg \<Longrightarrow> limbs_val vm1 \<le> limbs_val v0 + limbs_val vinf \<and>
      W = limbs_val v0 + P * (limbs_val v0 + limbs_val vinf - limbs_val vm1) + P * P * limbs_val vinf"
    and "W < 2 ^ (64 * (2 * n + m))"
  shows "\<exists>pp. toom22_interpolate n vm1_neg v0 vinf vm1 = Inr pp \<and> length pp = 2 * n + m \<and> limbs_val pp = W"
proof -
  define l0 h0 li hi where parts: "l0 = take n v0" "h0 = drop n v0" "li = take n vinf" "hi = drop n vinf"
  have len: "length l0 = n" "length h0 = n" "length li = n" "length hi = m - n"
    using assms(1-3) by (simp_all add: parts)
  have v0: "limbs_val v0 = limbs_val l0 + P * limbs_val h0"
    using limbs_val_split [of v0 n] assms(1) by (simp add: parts P_def)
  have vinf: "limbs_val vinf = limbs_val li + P * limbs_val hi"
    using limbs_val_split [of vinf n] assms(2,3) by (simp add: parts P_def)
  obtain cy w where a1: "mpn_add_n h0 li = (cy, w)" by fastforce
  obtain c lo where a2: "mpn_add_n w l0 = (c, lo)" by fastforce
  obtain d z where a3: "mpn_add w hi = (d, z)" by fastforce
  note r1 = mpn_add_n_val [OF _ a1]
  have w: "length w = n" "unat cy \<le> 1" "limbs_val w + P * unat cy = limbs_val h0 + limbs_val li"
    using r1 len by (simp_all add: P_def)
  have lo: "length lo = n" "unat c \<le> 1" "limbs_val lo + P * unat c = limbs_val w + limbs_val l0"
    using mpn_add_n_val [OF _ a2] len w(1) by (simp_all add: P_def)
  have z: "length z = n" "unat d \<le> 1" "limbs_val z + P * unat d = limbs_val w + limbs_val hi"
    using mpn_add_val [OF _ a3] len w(1) assms(4) by (simp_all add: P_def)
  define mid where "mid = limbs_val lo + P * limbs_val z"
  have mid: "limbs_val (lo @ z) = mid" "length (lo @ z) = 2 * n"
    using lo(1) z(1) by (simp_all add: mid_def limbs_val_append P_def)
  have PP: "2 ^ (64 * (2 * n)) = P * P" "2 ^ (64 * (3 * n)) = P * P * P"
    by (simp_all add: P_def flip: power_add)
  have sum: "limbs_val l0 + P * mid + P * P * (unat cy + unat c) + P * P * P * (unat cy + unat d + limbs_val hi) =
      limbs_val v0 + P * (limbs_val v0 + limbs_val vinf) + P * P * limbs_val vinf"
    unfolding v0 vinf mid_def by (rule karatsuba_sum [OF w(3) lo(3) z(3)])
  have pp: "limbs_val (l0 @ x @ hi) = limbs_val l0 + P * limbs_val x + P * P * P * limbs_val hi"
    "length (l0 @ x @ hi) = 2 * n + m" if "length x = 2 * n" for x
    using len that assms(3) PP by (simp_all add: limbs_val_append P_def power_add algebra_simps)
  have cy2: "unat (cy + c) = unat cy + unat c" using w(2) lo(2) by (intro carry_small) simp_all
  have cy': "unat (cy + d) = unat cy + unat d" using w(2) z(2) by (intro carry_small) simp_all
  show ?thesis
  proof (cases vm1_neg)
    case True
    obtain e x where a4: "mpn_add_n (lo @ z) vm1 = (e, x)" by fastforce
    have x: "length x = 2 * n" "unat e \<le> 1" "limbs_val x + P * P * unat e = mid + limbs_val vm1"
      using mpn_add_n_val [OF _ a4] mid assms(5) PP by simp_all
    have cy3: "unat (cy + d + e) = unat cy + unat d + unat e"
      using carry_small [of "cy + d" e] cy' w(2) z(2) x(2) by simp
    have "P * (limbs_val x + P * P * unat e) = P * (mid + limbs_val vm1)" using x(3) by simp
    then have "limbs_val (l0 @ x @ hi) + P * P * unat (cy + c) + P * P * P * unat (cy + d + e) = W"
      unfolding pp(1) [OF x(1)] cy2 cy3 assms(7) [OF True] using sum by (simp add: algebra_simps)
    then have "\<exists>q. toom22_finish n (cy + d + e) (cy + c) (l0 @ x @ hi) = Inr q \<and> length q = 2 * n + m \<and> limbs_val q = W"
      by (intro toom22_finish_val [OF pp(2) [OF x(1)] assms(3) _ assms(9)]) (simp only: PP)
    then show ?thesis
      using True a1 a2 a3 a4 by (simp add: toom22_interpolate_def Let_def flip: parts)
  next
    case False
    obtain e x where a4: "mpn_sub_n (lo @ z) vm1 = (e, x)" by fastforce
    have x: "length x = 2 * n" "unat e \<le> 1" "limbs_val x + limbs_val vm1 = mid + P * P * unat e"
      using mpn_sub_n_val [OF _ a4] mid assms(5) PP by simp_all
    obtain k where k: "limbs_val v0 + limbs_val vinf = limbs_val vm1 + k"
      using assms(8) [OF False] by (auto simp: le_iff_add)
    have W: "W = limbs_val v0 + P * k + P * P * limbs_val vinf" using assms(8) [OF False] k by simp
    have e: "P * (limbs_val x + limbs_val vm1) = P * (mid + P * P * unat e)" using x(3) by simp
    have total: "limbs_val l0 + P * limbs_val x + P * P * (unat cy + unat c) +
        P * P * P * (unat cy + unat d + limbs_val hi) = W + P * P * P * unat e"
      using sum e unfolding W k by (simp add: algebra_simps)
    show ?thesis
    proof (cases "unat e \<le> unat cy + unat d")
      case True
      then obtain j where j: "unat cy + unat d = unat e + j" by (auto simp: le_iff_add)
      have cy3: "unat (cy + d - e) = j" using cy' j by (simp add: unat_sub word_le_nat_alt)
      have "j < 2 ^ 64 - 1" using j w(2) z(2) by simp
      then have "unat (cy + d - e + 1) \<noteq> 0" using limb_add_small [of "cy + d - e" 1] cy3 by simp
      then have no: "cy + d - e + 1 \<noteq> 0" by auto
      have "limbs_val (l0 @ x @ hi) + P * P * unat (cy + c) + P * P * P * unat (cy + d - e) = W"
        unfolding pp(1) [OF x(1)] cy2 cy3 using total unfolding j by (simp add: algebra_simps)
      then have "\<exists>q. toom22_finish n (cy + d - e) (cy + c) (l0 @ x @ hi) = Inr q \<and> length q = 2 * n + m \<and> limbs_val q = W"
        by (intro toom22_finish_val [OF pp(2) [OF x(1)] assms(3) _ assms(9)]) (simp only: PP)
      then show ?thesis
        using False a1 a2 a3 a4 no by (simp add: toom22_interpolate_def Let_def flip: parts)
    next
      case borrow: False
      then have "unat cy = 0" "unat d = 0" "unat e = 1" using x(2) by linarith+
      then have z0: "cy = 0" "d = 0" "unat e = 1" by (simp_all only: unat_eq_zero)
      then have "e = 1" by (simp add: word_unat_eq_iff)
      have bal: "limbs_val x + P * unat c + limbs_val vm1 =
          P * P + (limbs_val vm1 + (k + limbs_val h0 + P * limbs_val li))"
      proof -
        have "limbs_val w = limbs_val h0 + limbs_val li" using w(3) z0 by simp
        moreover have "limbs_val z = limbs_val w + limbs_val hi" using z(3) z0 by simp
        moreover have "limbs_val lo + P * unat c = limbs_val w + limbs_val l0" by (rule lo(3))
        ultimately have "mid + P * unat c = limbs_val v0 + limbs_val vinf + limbs_val h0 + P * limbs_val li"
          unfolding mid_def v0 vinf by (simp add: algebra_simps)
        then show ?thesis using x(3) z0(3) k by simp
      qed
      have "limbs_val x < P * P" using limbs_val_bound [of x] x(1) PP by simp
      then have s: "limbs_val x mod P = k + limbs_val h0 + P * limbs_val li" "unat c = 1"
        "k + limbs_val h0 + P * limbs_val li < P"
        using borrow_stops [of "limbs_val x" P "unat c" "k + limbs_val h0 + P * limbs_val li"] bal lo(2) by simp_all
      have tx: "limbs_val (take n x) = limbs_val x mod P"
        using limbs_val_split [of x n] limbs_val_bound [of "take n x"] x(1) by (simp add: P_def)
      have "limbs_val (l0 @ take n x @ replicate n 0 @ hi) = limbs_val l0 + P * (limbs_val x mod P) + P * P * P * limbs_val hi"
        using len x(1) tx by (simp add: limbs_val_append P_def power_add algebra_simps)
      also have "\<dots> = W" unfolding s(1) W v0 vinf by (simp add: algebra_simps)
      finally have "limbs_val (l0 @ take n x @ replicate n 0 @ hi) = W" .
      moreover have "length (l0 @ take n x @ replicate n 0 @ hi) = 2 * n + m" using len x(1) assms(3) by simp
      ultimately show ?thesis
        using False a1 a2 a3 a4 z0 \<open>e = 1\<close> by (simp add: toom22_interpolate_def Let_def flip: parts)
    qed
  qed
qed

subsection \<open>The recursion\<close>

text \<open>The basecase in an area whose limbs it does not read before it has written them.\<close>

definition mul_basecase :: "limbs \<Rightarrow> limbs \<Rightarrow> limbs" where
  "mul_basecase up vp = mpn_mul_basecase (replicate (length up + length vp) 0) up vp"

definition product_of :: "limbs \<Rightarrow> limbs \<Rightarrow> limbs \<Rightarrow> bool" where
  "product_of ap bp p \<longleftrightarrow> length p = length ap + length bp \<and> limbs_val p = limbs_val ap * limbs_val bp"

lemma mul_basecase_val: "ap \<noteq> [] \<Longrightarrow> bp \<noteq> [] \<Longrightarrow> product_of ap bp (mul_basecase ap bp)"
  using mpn_mul_basecase_val [of "replicate (length ap + length bp) 0" ap bp]
  by (simp add: product_of_def mul_basecase_def)

lemma limbs_val_inj: "length xs = length ys \<Longrightarrow> limbs_val xs = limbs_val ys \<Longrightarrow> xs = ys"
proof (induction xs ys rule: list_induct2)
  case (Cons x xs y ys)
  have "(unat x + 2 ^ 64 * limbs_val xs) mod 2 ^ 64 = (unat y + 2 ^ 64 * limbs_val ys) mod 2 ^ 64"
    using Cons.prems by simp
  then have "unat x = unat y" by (metis mod_less mod_mult_self2 unat_limb_less)
  then show ?case using Cons by (simp add: word_unat_eq_iff)
qed simp

lemma mul_basecase_any_area:
  assumes "length rp = length up + length vp" and "up \<noteq> []" and "vp \<noteq> []"
  shows "mpn_mul_basecase rp up vp = mul_basecase up vp"
  using mpn_mul_basecase_val [OF assms] mul_basecase_val [OF assms(2,3)]
  by (intro limbs_val_inj) (simp_all add: product_of_def)

text \<open>
  \<open>mpn_toom22_mul\<close> with \<open>TOOM22_MUL_N_REC\<close> and \<open>TOOM22_MUL_REC\<close>, where \<open>MAYBE_mul_toom22\<close> holds for the
  thresholds; \<open>toom32\<close> is the product of unbalanced operands.
\<close>

lemma toom22_asm1_length:
  assumes "(asm1, na) = toom22_asm1 (length ap - length ap div 2) (length ap div 2) ap"
  shows "length asm1 = length ap - length ap div 2"
  using toom22_asm1_val [OF refl refl assms [symmetric]] by simp

function mpn_toom22_mul :: "(limbs \<Rightarrow> limbs \<Rightarrow> limbs) \<Rightarrow> limbs \<Rightarrow> limbs \<Rightarrow> limbs outcome" where
  "mpn_toom22_mul toom32 ap bp =
     (let an = length ap; bn = length bp; s = an div 2; n = an - s; t = bn - n;
          (asm1, na) = toom22_asm1 n s ap; (bsm1, nb) = toom22_bsm1 n t bp; vm1_neg = (na \<noteq> nb);
          a1 = drop n ap; b1 = drop n bp
      in bindO
           (if n < MUL_TOOM22_THRESHOLD then Inr (mul_basecase asm1 bsm1)
            else mpn_toom22_mul toom32 asm1 bsm1) (\<lambda>vm1.
         bindO
           (if t < s then
              if t < MUL_TOOM22_THRESHOLD then Inr (mul_basecase a1 b1)
              else if 4 * s < 5 * t then mpn_toom22_mul toom32 a1 b1
              else Inr (toom32 a1 b1)
            else
              if s < MUL_TOOM22_THRESHOLD then Inr (mul_basecase a1 b1)
              else mpn_toom22_mul toom32 a1 b1) (\<lambda>vinf.
         bindO
           (if n < MUL_TOOM22_THRESHOLD then Inr (mul_basecase (take n ap) (take n bp))
            else mpn_toom22_mul toom32 (take n ap) (take n bp)) (\<lambda>v0.
         toom22_interpolate n vm1_neg v0 vinf vm1))))"
  by pat_completeness auto
termination
  by (relation "measure (\<lambda>(toom32, ap, bp). length ap)")
    (auto simp: MUL_TOOM22_THRESHOLD_def dest!: toom22_asm1_length intro!: div_less_dividend)

declare mpn_toom22_mul.simps [simp del]

text \<open>
  The operands for which the products of the halves take up more than \<open>n\<close> limbs; otherwise the last
  carry, which is zero, is added to the limb behind the area.
\<close>

definition toom22_ok :: "nat \<Rightarrow> nat \<Rightarrow> bool" where
  "toom22_ok an bn \<longleftrightarrow> bn \<le> an \<and> an - an div 2 < bn \<and> 2 * (an - an div 2) < an div 2 + bn"

lemma toom22_ok_balanced: "4 \<le> n \<Longrightarrow> toom22_ok n n"
  by (cases "even n") (auto simp: toom22_ok_def elim!: evenE oddE)

lemma toom22_ok_rec: "t < s \<Longrightarrow> 30 \<le> t \<Longrightarrow> 4 * s < 5 * t \<Longrightarrow> toom22_ok s t"
  by (cases "even s") (auto simp: toom22_ok_def elim!: evenE oddE)

lemma karatsuba_middle:
  fixes a0 a1 b0 b1 :: nat and x y :: nat
  assumes "(if na then - int x else int x) = int a0 - int a1" and "(if nb then - int y else int y) = int b0 - int b1"
  shows "na \<noteq> nb \<Longrightarrow> a0 * b0 + a1 * b1 + x * y = a0 * b1 + a1 * b0"
    and "na = nb \<Longrightarrow> a0 * b0 + a1 * b1 = x * y + (a0 * b1 + a1 * b0)"
proof -
  have xy: "(if na = nb then int x * int y else - (int x * int y)) = (int a0 - int a1) * (int b0 - int b1)"
    unfolding assms [symmetric] by simp
  have "(int a0 - int a1) * (int b0 - int b1) = int a0 * int b0 + int a1 * int b1 - (int a0 * int b1 + int a1 * int b0)"
    by (simp add: algebra_simps)
  note xy = xy [unfolded this]
  have "int (a0 * b0 + a1 * b1 + x * y) = int (a0 * b1 + a1 * b0)" if "na \<noteq> nb" using xy that by simp
  then show "na \<noteq> nb \<Longrightarrow> a0 * b0 + a1 * b1 + x * y = a0 * b1 + a1 * b0" unfolding of_nat_eq_iff .
  have "int (a0 * b0 + a1 * b1) = int (x * y + (a0 * b1 + a1 * b0))" if "na = nb" using xy that by simp
  then show "na = nb \<Longrightarrow> a0 * b0 + a1 * b1 = x * y + (a0 * b1 + a1 * b0)" unfolding of_nat_eq_iff .
qed

lemma toom22_step:
  fixes ap bp :: limbs
  defines "an \<equiv> length ap" and "bn \<equiv> length bp"
  defines "s \<equiv> an div 2"
  defines "n \<equiv> an - s"
  defines "t \<equiv> bn - n"
  assumes "toom22_ok an bn" and "toom22_asm1 n s ap = (asm1, na)" and "toom22_bsm1 n t bp = (bsm1, nb)"
    and "product_of asm1 bsm1 vm1" and "product_of (drop n ap) (drop n bp) vinf"
    and "product_of (take n ap) (take n bp) v0"
  shows "\<exists>pp. toom22_interpolate n (na \<noteq> nb) v0 vinf vm1 = Inr pp \<and> product_of ap bp pp"
proof -
  define P :: nat where "P = 2 ^ (64 * n)"
  define a0 a1 b0 b1 where ab: "a0 = limbs_val (take n ap)" "a1 = limbs_val (drop n ap)"
    "b0 = limbs_val (take n bp)" "b1 = limbs_val (drop n bp)"
  have ok: "bn \<le> an" "n < bn" "2 * n < s + bn" "s \<le> n" "n \<le> an"
    using assms(6) by (auto simp: toom22_ok_def s_def n_def)
  have m: "n < s + t" "s + t \<le> 2 * n" "t \<le> n" "s + t + 2 * n = an + bn"
    using ok by (simp_all add: t_def n_def)
  note A = toom22_asm1_val [OF s_def [THEN meta_eq_to_obj_eq, unfolded an_def]
      n_def [THEN meta_eq_to_obj_eq, unfolded an_def] assms(7)]
  note B = toom22_bsm1_val [OF t_def [THEN meta_eq_to_obj_eq, unfolded bn_def]
      less_imp_le [OF ok(2) [unfolded bn_def]] m(3) assms(8)]
  have len: "length v0 = 2 * n" "length vinf = s + t" "length vm1 = 2 * n"
    using assms(9-11) A B ok by (simp_all add: product_of_def t_def n_def an_def bn_def)
  have vals: "limbs_val v0 = a0 * b0" "limbs_val vinf = a1 * b1" "limbs_val vm1 = limbs_val asm1 * limbs_val bsm1"
    using assms(9-11) by (simp_all add: product_of_def ab)
  have "limbs_val ap = a0 + P * a1" "limbs_val bp = b0 + P * b1"
    using limbs_val_split [of ap n] limbs_val_split [of bp n] ok by (simp_all add: ab P_def an_def bn_def)
  then have W: "limbs_val ap * limbs_val bp = a0 * b0 + P * (a0 * b1 + a1 * b0) + P * P * (a1 * b1)"
    by (simp add: algebra_simps)
  have middle: "(if na then - int (limbs_val asm1) else int (limbs_val asm1)) = int a0 - int a1"
    "(if nb then - int (limbs_val bsm1) else int (limbs_val bsm1)) = int b0 - int b1"
    using A B by (simp_all add: ab)
  note middle = karatsuba_middle [OF this]
  have "limbs_val ap * limbs_val bp < 2 ^ (64 * an) * 2 ^ (64 * bn)"
    using limbs_val_bound [of ap] limbs_val_bound [of bp] unfolding an_def bn_def by (intro mult_strict_mono) simp_all
  also have "(2 :: nat) ^ (64 * an) * 2 ^ (64 * bn) = 2 ^ (64 * (2 * n + (s + t)))"
  proof -
    have "64 * an + 64 * bn = 64 * (2 * n + (s + t))" using m(4) by simp
    then show ?thesis by (simp only: power_add [symmetric])
  qed
  finally have bound: "limbs_val ap * limbs_val bp < 2 ^ (64 * (2 * n + (s + t)))" .
  have "\<exists>pp. toom22_interpolate n (na \<noteq> nb) v0 vinf vm1 = Inr pp \<and> length pp = 2 * n + (s + t) \<and>
      limbs_val pp = limbs_val ap * limbs_val bp"
    by (rule toom22_interpolate_val [OF len(1,2) m(1,2) len(3) _ _ bound, folded P_def])
      (use middle in \<open>simp_all add: vals W\<close>)
  then show ?thesis using m(4) by (auto simp: product_of_def an_def bn_def)
qed

definition toom32_ok :: "(limbs \<Rightarrow> limbs \<Rightarrow> limbs) \<Rightarrow> bool" where
  "toom32_ok toom32 \<longleftrightarrow>
     (\<forall>a b. length b < length a \<longrightarrow> MUL_TOOM22_THRESHOLD \<le> length b \<longrightarrow> product_of a b (toom32 a b))"

text \<open>Operands of the same length have halves of the same lengths, and \<open>toom32\<close> is not called.\<close>

lemma toom22_product:
  assumes "toom22_ok (length ap) (length bp)" and "length bp < length ap \<longrightarrow> toom32_ok toom32"
  shows "\<exists>p. mpn_toom22_mul toom32 ap bp = Inr p \<and> product_of ap bp p"
  using assms
proof (induction "length ap" arbitrary: ap bp rule: less_induct)
  case less
  define s n t where snt: "s = length ap div 2" "n = length ap - s" "t = length bp - n"
  obtain asm1 na where a: "toom22_asm1 n s ap = (asm1, na)" by fastforce
  obtain bsm1 nb where b: "toom22_bsm1 n t bp = (bsm1, nb)" by fastforce
  have ok: "length bp \<le> length ap" "n < length bp" "s \<le> n" "0 < t" "t \<le> s" "0 < n" "0 < s"
    using less.prems(1) by (auto simp: toom22_ok_def snt)
  have la: "length asm1 = n" using toom22_asm1_val [OF snt(1,2) a] by simp
  have lb: "length bsm1 = n" using toom22_bsm1_val [OF snt(3) _ _ b] ok by simp
  have l1: "length (drop n ap) = s" "length (drop n bp) = t" using ok by (simp_all add: snt)
  have l0: "length (take n ap) = n" "length (take n bp) = n" using ok by (simp_all add: snt)
  have smaller: "n < length ap" "s < length ap" using ok by (simp_all add: snt)
  have T: "MUL_TOOM22_THRESHOLD = 30" by (simp add: MUL_TOOM22_THRESHOLD_def)
  have base: "\<exists>p. Inr (mul_basecase x y) = (Inr p :: limbs outcome) \<and> product_of x y p"
    if "0 < length x" "0 < length y" for x y
    using mul_basecase_val that by simp
  have balanced: "\<exists>p. (if k < MUL_TOOM22_THRESHOLD then Inr (mul_basecase x y) else mpn_toom22_mul toom32 x y) = Inr p \<and>
      product_of x y p" if "length x = k" "length y = k" "0 < k" "k < length ap" for x y :: limbs and k
    using base [of x y] less.hyps [of x y] toom22_ok_balanced [of k] that T by auto
  obtain vm1 where vm1: "(if n < MUL_TOOM22_THRESHOLD then Inr (mul_basecase asm1 bsm1)
      else mpn_toom22_mul toom32 asm1 bsm1) = Inr vm1" "product_of asm1 bsm1 vm1"
    using balanced [OF la lb ok(6) smaller(1)] by blast
  obtain v0 where v0: "(if n < MUL_TOOM22_THRESHOLD then Inr (mul_basecase (take n ap) (take n bp))
      else mpn_toom22_mul toom32 (take n ap) (take n bp)) = Inr v0" "product_of (take n ap) (take n bp) v0"
    using balanced [OF l0 ok(6) smaller(1)] by blast
  have "\<exists>p. (if t < s then
          if t < MUL_TOOM22_THRESHOLD then Inr (mul_basecase (drop n ap) (drop n bp))
          else if 4 * s < 5 * t then mpn_toom22_mul toom32 (drop n ap) (drop n bp)
          else Inr (toom32 (drop n ap) (drop n bp))
        else
          if s < MUL_TOOM22_THRESHOLD then Inr (mul_basecase (drop n ap) (drop n bp))
          else mpn_toom22_mul toom32 (drop n ap) (drop n bp)) = Inr p \<and> product_of (drop n ap) (drop n bp) p"
  proof (cases "t < s")
    case True
    then have big: "toom32_ok toom32" using less.prems(2) ok(1,2,5) by (auto simp: snt)
    have "\<exists>p. mpn_toom22_mul toom32 (drop n ap) (drop n bp) = Inr p \<and> product_of (drop n ap) (drop n bp) p"
      if "30 \<le> t" "4 * s < 5 * t"
      using less.hyps [of "drop n ap" "drop n bp"] toom22_ok_rec [OF True that] l1 smaller(2) big by simp
    moreover have "product_of (drop n ap) (drop n bp) (toom32 (drop n ap) (drop n bp))" if "30 \<le> t"
      using big that True l1 T unfolding toom32_ok_def by simp
    ultimately show ?thesis
      using True base [of "drop n ap" "drop n bp"] l1 ok(4,7) T by auto
  next
    case False
    then have "length (drop n bp) = s" using l1 ok(5) by simp
    from balanced [OF l1(1) this ok(7) smaller(2)] False show ?thesis by (simp only: if_False)
  qed
  then obtain vinf where vinf: "(if t < s then
          if t < MUL_TOOM22_THRESHOLD then Inr (mul_basecase (drop n ap) (drop n bp))
          else if 4 * s < 5 * t then mpn_toom22_mul toom32 (drop n ap) (drop n bp)
          else Inr (toom32 (drop n ap) (drop n bp))
        else
          if s < MUL_TOOM22_THRESHOLD then Inr (mul_basecase (drop n ap) (drop n bp))
          else mpn_toom22_mul toom32 (drop n ap) (drop n bp)) = Inr vinf"
    "product_of (drop n ap) (drop n bp) vinf" by blast
  have "mpn_toom22_mul toom32 ap bp = toom22_interpolate n (na \<noteq> nb) v0 vinf vm1"
    unfolding mpn_toom22_mul.simps [of toom32 ap bp] Let_def snt(1) [symmetric] snt(2) [symmetric] snt(3) [symmetric]
      a b prod.case vm1(1) vinf(1) v0(1) bindO_Inr ..
  moreover have "\<exists>pp. toom22_interpolate n (na \<noteq> nb) v0 vinf vm1 = Inr pp \<and> product_of ap bp pp"
    using toom22_step [of ap bp] less.prems(1) a b vm1(2) vinf(2) v0(2) by (simp add: snt)
  ultimately show ?case by simp
qed

text \<open>
  With \<open>2 * n - 1\<close> and \<open>n + 1\<close> limbs the products of the halves end where \<open>MPN_INCR_U (pp + 3 * n, ...)\<close>
  starts: the carry of zero is added to the limb behind the area.
\<close>

lemma incr_at_outside: "length p \<le> k \<Longrightarrow> incr_at k incr p = Inl OutOfBounds"
  by (simp add: incr_at_def mpn_incr_u_def)

subsection \<open>Long operands in blocks\<close>

text \<open>
  The blocks of \<open>mpn_mul\<close> after the first one: the rest of \<open>up\<close>, and the high limbs \<open>tp\<close> of the last
  product, to be added to the next; the result is the rest of the area.
\<close>

definition add_triangle :: "limbs \<Rightarrow> limbs \<Rightarrow> limbs outcome" where
  "add_triangle prodp tp =
     (let vn = length tp; (cy, lo) = mpn_add_n (take vn prodp) tp in incr_at vn cy (lo @ drop vn prodp))"

function mul_blocks :: "limbs \<Rightarrow> limbs \<Rightarrow> limbs \<Rightarrow> limbs outcome" where
  "mul_blocks up vp tp =
     (if MUL_BASECASE_MAX_UN < length up then
        bindO (add_triangle (mul_basecase (take MUL_BASECASE_MAX_UN up) vp) tp) (\<lambda>prodp.
        bindO (mul_blocks (drop MUL_BASECASE_MAX_UN up) vp (drop MUL_BASECASE_MAX_UN prodp)) (\<lambda>rest.
        Inr (take MUL_BASECASE_MAX_UN prodp @ rest)))
      else
        add_triangle (if length vp < length up then mul_basecase up vp else mul_basecase vp up) tp)"
  by pat_completeness auto
termination
  by (relation "measure (\<lambda>(up, vp, tp). length up)") (auto simp: MUL_BASECASE_MAX_UN_def)

declare mul_blocks.simps [simp del]

definition mpn_mul_n :: "(limbs \<Rightarrow> limbs \<Rightarrow> limbs) \<Rightarrow> (limbs \<Rightarrow> limbs \<Rightarrow> limbs) \<Rightarrow> limbs \<Rightarrow> limbs \<Rightarrow> limbs outcome" where
  "mpn_mul_n toom32 mul_big a b =
     (let n = length a
      in if n < MUL_TOOM22_THRESHOLD then Inr (mul_basecase a b)
         else if n < MUL_TOOM33_THRESHOLD then mpn_toom22_mul toom32 a b
         else Inr (mul_big a b))"

definition mpn_mul :: "(limbs \<Rightarrow> limbs \<Rightarrow> limbs) \<Rightarrow> (limbs \<Rightarrow> limbs \<Rightarrow> limbs) \<Rightarrow> limbs \<Rightarrow> limbs \<Rightarrow> limbs outcome" where
  "mpn_mul toom32 mul_big up vp =
     (let un = length up; vn = length vp
      in if un < MUL_TOOM22_THRESHOLD then Inr (mul_basecase up vp)
         else if un = vn then mpn_mul_n toom32 mul_big up vp
         else if vn < MUL_TOOM22_THRESHOLD then
           if un \<le> MUL_BASECASE_MAX_UN \<or> vn = 1 then Inr (mul_basecase up vp)
           else
             let prodp = mul_basecase (take MUL_BASECASE_MAX_UN up) vp
             in bindO (mul_blocks (drop MUL_BASECASE_MAX_UN up) vp (drop MUL_BASECASE_MAX_UN prodp)) (\<lambda>rest.
                Inr (take MUL_BASECASE_MAX_UN prodp @ rest))
         else Inr (mul_big up vp))"

lemma add_triangle_val:
  assumes "product_of ap bp p" and "length tp = length bp" and "ap \<noteq> []"
  shows "\<exists>q. add_triangle p tp = Inr q \<and> length q = length p \<and> limbs_val q = limbs_val p + limbs_val tp"
proof -
  define vn where "vn = length bp"
  have p: "length p = length ap + vn" "limbs_val p = limbs_val ap * limbs_val bp"
    using assms(1) by (simp_all add: product_of_def vn_def)
  obtain cy lo where add: "mpn_add_n (take vn p) tp = (cy, lo)" by fastforce
  have l: "length lo = vn" "limbs_val lo + 2 ^ (64 * vn) * unat cy = limbs_val (take vn p) + limbs_val tp"
    using mpn_add_n_val [OF _ add] p(1) assms(2) by (simp_all add: vn_def)
  define r where "r = lo @ drop vn p"
  have "limbs_val p = limbs_val (take vn p) + 2 ^ (64 * vn) * limbs_val (drop vn p)"
    using limbs_val_split [of p vn] p(1) by simp
  then have sum: "limbs_val r + 2 ^ (64 * vn) * unat cy = limbs_val p + limbs_val tp"
    using l by (simp add: r_def limbs_val_append)
  have len: "length r = length p" using l(1) p(1) by (simp add: r_def)
  have "limbs_val ap + 1 \<le> 2 ^ (64 * length ap)" "limbs_val bp + 1 \<le> 2 ^ (64 * vn)" "limbs_val tp + 1 \<le> 2 ^ (64 * vn)"
    using limbs_val_bound [of ap] limbs_val_bound [of bp] limbs_val_bound [of tp] assms(2) by (simp_all add: vn_def)
  then have "limbs_val p + limbs_val tp < 2 ^ (64 * length ap) * 2 ^ (64 * vn)"
  proof -
    have "limbs_val ap * limbs_val bp + limbs_val tp < (limbs_val ap + 1) * 2 ^ (64 * vn)"
      using mult_le_mono2 [OF \<open>limbs_val bp + 1 \<le> 2 ^ (64 * vn)\<close>, of "limbs_val ap"] \<open>limbs_val tp + 1 \<le> 2 ^ (64 * vn)\<close>
      by (simp add: algebra_simps)
    also have "\<dots> \<le> 2 ^ (64 * length ap) * 2 ^ (64 * vn)"
      using \<open>limbs_val ap + 1 \<le> 2 ^ (64 * length ap)\<close> by (rule mult_le_mono1)
    finally show ?thesis unfolding p(2) .
  qed
  also have "\<dots> = 2 ^ (64 * length r)" unfolding len p(1) by (simp add: power_add algebra_simps)
  finally have "\<exists>q. incr_at vn cy r = Inr q \<and> length q = length r \<and> limbs_val q = limbs_val r + 2 ^ (64 * vn) * unat cy"
    using assms(3) p(1) sum len by (intro incr_at_val) simp_all
  then show ?thesis
    using add assms(2) sum len by (simp add: add_triangle_def r_def vn_def Let_def)
qed

lemma mul_blocks_val:
  assumes "vp \<noteq> []" and "length vp \<le> MUL_BASECASE_MAX_UN" and "up \<noteq> []" and "length tp = length vp"
  shows "\<exists>r. mul_blocks up vp tp = Inr r \<and> length r = length up + length vp \<and>
    limbs_val r = limbs_val up * limbs_val vp + limbs_val tp"
  using assms(3,4)
proof (induction "length up" arbitrary: up tp rule: less_induct)
  case less
  define K where "K = MUL_BASECASE_MAX_UN"
  have K: "0 < K" "length vp \<le> K" using assms(2) by (simp_all add: K_def MUL_BASECASE_MAX_UN_def)
  show ?case
  proof (cases "K < length up")
    case True
    have ne: "take K up \<noteq> []" using less.prems(1) K(1) by simp
    obtain q where q: "add_triangle (mul_basecase (take K up) vp) tp = Inr q" "length q = K + length vp"
      "limbs_val q = limbs_val (take K up) * limbs_val vp + limbs_val tp"
      using add_triangle_val [OF mul_basecase_val [OF ne assms(1)] less.prems(2) ne]
        mul_basecase_val [OF ne assms(1)] True by (auto simp: product_of_def)
    obtain r where r: "mul_blocks (drop K up) vp (drop K q) = Inr r" "length r = length up - K + length vp"
      "limbs_val r = limbs_val (drop K up) * limbs_val vp + limbs_val (drop K q)"
    proof -
      have "length (drop K up) < length up" "drop K up \<noteq> []" "length (drop K q) = length vp"
        using True K q(2) by simp_all
      then show thesis using less.hyps [of "drop K up" "drop K q"] that by auto
    qed
    have "limbs_val q = limbs_val (take K q) + 2 ^ (64 * K) * limbs_val (drop K q)"
      using limbs_val_split [of q K] q(2) by simp
    moreover have "limbs_val up = limbs_val (take K up) + 2 ^ (64 * K) * limbs_val (drop K up)"
      using limbs_val_split [of up K] True by simp
    ultimately have "limbs_val (take K q @ r) = limbs_val up * limbs_val vp + limbs_val tp"
      using q(2,3) r(3) by (simp add: limbs_val_append algebra_simps)
    then show ?thesis
      using True q(1,2) r(1,2) by (subst mul_blocks.simps) (simp add: K_def)
  next
    case False
    define p where "p = (if length vp < length up then mul_basecase up vp else mul_basecase vp up)"
    have e: "mul_blocks up vp tp = add_triangle p tp" using False by (subst mul_blocks.simps) (simp add: K_def p_def)
    have "product_of up vp p"
      using mul_basecase_val [OF less.prems(1) assms(1)] mul_basecase_val [OF assms(1) less.prems(1)]
      by (auto simp: p_def product_of_def)
    then show ?thesis
      using add_triangle_val [of up vp p tp] less.prems unfolding e by (auto simp: product_of_def)
  qed
qed

lemma mpn_mul_n_val:
  assumes "length b = length a" and "a \<noteq> []" and "length a < MUL_TOOM33_THRESHOLD"
  shows "\<exists>p. mpn_mul_n toom32 mul_big a b = Inr p \<and> product_of a b p"
proof -
  have "b \<noteq> []" using assms(1,2) by auto
  note m = mul_basecase_val [OF assms(2) this]
  have t: "\<exists>p. mpn_toom22_mul toom32 a b = Inr p \<and> product_of a b p" if "MUL_TOOM22_THRESHOLD \<le> length a"
    using toom22_product [of a b toom32] toom22_ok_balanced [of "length a"] that assms(1)
    by (simp add: MUL_TOOM22_THRESHOLD_def)
  show ?thesis using m t assms(3) by (auto simp: mpn_mul_n_def Let_def not_less)
qed

text \<open>The sizes for which no algorithm above Karatsuba is called.\<close>

definition product_fits :: "bool \<Rightarrow> nat \<Rightarrow> nat \<Rightarrow> bool" where
  "product_fits same un vn \<longleftrightarrow>
     (if same then un < SQR_TOOM2_THRESHOLD \<and> vn < SQR_TOOM2_THRESHOLD
      else un < MUL_TOOM22_THRESHOLD \<or> vn < MUL_TOOM22_THRESHOLD \<or> un = vn \<and> un < MUL_TOOM33_THRESHOLD)"

lemma mpn_mul_val:
  assumes "vp \<noteq> []" and "length vp \<le> length up" and "product_fits False (length up) (length vp)"
  shows "\<exists>p. mpn_mul toom32 mul_big up vp = Inr p \<and> product_of up vp p"
proof -
  define K where "K = MUL_BASECASE_MAX_UN"
  have up: "up \<noteq> []" using assms(1,2) by auto
  note m = mul_basecase_val [OF up assms(1)]
  have n: "\<exists>p. mpn_mul_n toom32 mul_big up vp = Inr p \<and> product_of up vp p"
    if "length up = length vp" "\<not> length up < MUL_TOOM22_THRESHOLD"
    using mpn_mul_n_val [of vp up] up that assms(3) by (simp add: product_fits_def)
  have small: "length vp < MUL_TOOM22_THRESHOLD" if "length up \<noteq> length vp" "\<not> length up < MUL_TOOM22_THRESHOLD"
    using assms(3) that by (simp add: product_fits_def)
  have blocks: "\<exists>r. mul_blocks (drop K up) vp (drop K (mul_basecase (take K up) vp)) = Inr r \<and>
      product_of up vp (take K (mul_basecase (take K up) vp) @ r)"
    if "K < length up" "length vp < MUL_TOOM22_THRESHOLD"
  proof -
    define q where "q = mul_basecase (take K up) vp"
    have K: "0 < K" "length vp \<le> K" using that(2) by (simp_all add: K_def MUL_BASECASE_MAX_UN_def MUL_TOOM22_THRESHOLD_def)
    have "take K up \<noteq> []" using up K(1) by simp
    then have q: "length q = K + length vp" "limbs_val q = limbs_val (take K up) * limbs_val vp"
      using mul_basecase_val [of "take K up" vp] assms(1) that(1) by (simp_all add: q_def product_of_def)
    have "drop K up \<noteq> []" "length (drop K q) = length vp" "length vp \<le> MUL_BASECASE_MAX_UN"
      using that(1) q(1) K(2) by (simp_all add: K_def)
    then obtain r where r: "mul_blocks (drop K up) vp (drop K q) = Inr r" "length r = length up - K + length vp"
      "limbs_val r = limbs_val (drop K up) * limbs_val vp + limbs_val (drop K q)"
      using mul_blocks_val [of vp "drop K up" "drop K q"] assms(1) by auto
    have "limbs_val q = limbs_val (take K q) + 2 ^ (64 * K) * limbs_val (drop K q)"
      using limbs_val_split [of q K] q(1) by simp
    moreover have "limbs_val up = limbs_val (take K up) + 2 ^ (64 * K) * limbs_val (drop K up)"
      using limbs_val_split [of up K] that(1) by simp
    ultimately have "limbs_val (take K q @ r) = limbs_val up * limbs_val vp"
      using q r(3) by (simp add: limbs_val_append algebra_simps)
    then show ?thesis using r(1,2) q(1) that(1) by (simp add: product_of_def flip: q_def)
  qed
  show ?thesis
    using m n small blocks unfolding mpn_mul_def Let_def K_def [symmetric] by (auto simp: not_le)
qed

subsection \<open>Squares\<close>

text \<open>The products of different limbs in \<open>tp\<close>: the rows after the first, \<open>k\<close> limbs of \<open>tp\<close> done.\<close>

fun sqr_rows :: "limbs \<Rightarrow> nat \<Rightarrow> limbs \<Rightarrow> limbs" where
  "sqr_rows (u # v # up) k tp =
     (let (cy, w) = mpn_addmul_1 (drop k tp) (v # up) u
      in sqr_rows (v # up) (k + 2) (take k tp @ w @ [cy]))"
| "sqr_rows up k tp = tp"

text \<open>\<open>MPN_SQR_DIAGONAL\<close> and \<open>MPN_SQR_DIAG_ADDLSH1\<close>.\<close>

fun MPN_SQR_DIAGONAL :: "limbs \<Rightarrow> limbs" where
  "MPN_SQR_DIAGONAL [] = []"
| "MPN_SQR_DIAGONAL (ul # up) = (let (h, lpl) = umul_ppmm ul ul in lpl # h # MPN_SQR_DIAGONAL up)"

definition MPN_SQR_DIAG_ADDLSH1 :: "limbs \<Rightarrow> limbs \<Rightarrow> limbs" where
  "MPN_SQR_DIAG_ADDLSH1 tp up =
     (let n = length up; rp = MPN_SQR_DIAGONAL up;
          (cy, tp) = mpn_lshift tp 1; (c, w) = mpn_add_n (take (2 * n - 2) (drop 1 rp)) tp; cy = cy + c
      in take 1 rp @ w @ [rp ! (2 * n - 1) + cy])"

definition mpn_sqr_basecase :: "limbs \<Rightarrow> limbs" where
  "mpn_sqr_basecase up =
     (if length up = 1 then
        let ul = up ! 0; (h, lpl) = umul_ppmm ul ul in [lpl, h]
      else
        let (cy, w) = mpn_mul_1 (drop 1 up) (up ! 0); tp = sqr_rows (drop 1 up) 2 (w @ [cy])
        in MPN_SQR_DIAG_ADDLSH1 tp up)"

definition mpn_sqr :: "(limbs \<Rightarrow> limbs) \<Rightarrow> limbs \<Rightarrow> limbs outcome" where
  "mpn_sqr sqr_big a =
     (if length a < SQR_TOOM2_THRESHOLD then Inr (mpn_sqr_basecase a) else Inr (sqr_big a))"

text \<open>The sum of the products of different limbs, and of the squares.\<close>

fun off_diagonal :: "limbs \<Rightarrow> nat" where
  "off_diagonal [] = 0"
| "off_diagonal (u # us) = unat u * limbs_val us + 2 ^ 128 * off_diagonal us"

fun diagonal :: "limbs \<Rightarrow> nat" where
  "diagonal [] = 0"
| "diagonal (u # us) = unat u * unat u + 2 ^ 128 * diagonal us"

lemma square_sum: "limbs_val us * limbs_val us = diagonal us + 2 ^ 64 * (2 * off_diagonal us)"
  by (induction us) (simp_all add: algebra_simps)

lemma sqr_rows_val:
  assumes "up \<noteq> []" and "length tp + 1 = k + length up"
  shows "length (sqr_rows up k tp) + 2 = k + 2 * length up \<and>
    limbs_val (sqr_rows up k tp) = limbs_val tp + 2 ^ (64 * k) * off_diagonal up"
  using assms
proof (induction up k tp rule: sqr_rows.induct)
  case (1 u v up k tp)
  obtain cy w where a: "mpn_addmul_1 (drop k tp) (v # up) u = (cy, w)" by fastforce
  have len: "length (drop k tp) = length (v # up)" "length (take k tp) = k" using "1.prems"(2) by simp_all
  note w = mpn_addmul_1_val [OF len(1) a]
  define tp' where "tp' = take k tp @ w @ [cy]"
  have "length tp' + 1 = k + 2 + length (v # up)" using w(1) len by (simp add: tp'_def)
  note IH = "1.IH" [OF a [symmetric] refl, folded tp'_def, OF _ this]
  have "limbs_val tp = limbs_val (take k tp) + 2 ^ (64 * k) * limbs_val (drop k tp)"
    using limbs_val_split [of tp k] len by simp
  then have "limbs_val tp' = limbs_val tp + 2 ^ (64 * k) * (limbs_val (v # up) * unat u)"
    using w len by (simp add: tp'_def limbs_val_append algebra_simps)
  then show ?case using IH a by (simp add: tp'_def power_add algebra_simps)
qed simp_all

lemma MPN_SQR_DIAGONAL_val: "length (MPN_SQR_DIAGONAL up) = 2 * length up \<and> limbs_val (MPN_SQR_DIAGONAL up) = diagonal up"
proof (induction up)
  case (Cons u up)
  obtain h l where "umul_ppmm u u = (h, l)" by fastforce
  then show ?case using Cons umul_ppmm_val [of u u h l] by (simp add: algebra_simps)
qed simp

lemma diag_addlsh1_val:
  assumes "length up = n" and "2 \<le> n" and "length tp = 2 * n - 2" and "limbs_val tp = off_diagonal up"
  shows "product_of up up (MPN_SQR_DIAG_ADDLSH1 tp up)"
proof -
  define rp where "rp = MPN_SQR_DIAGONAL up"
  have rp: "length rp = 2 * n" "limbs_val rp = diagonal up"
    using MPN_SQR_DIAGONAL_val [of up] assms(1) by (simp_all add: rp_def)
  obtain cy tp' where sh: "mpn_lshift tp 1 = (cy, tp')" by fastforce
  have "tp \<noteq> []" using assms(2,3) by auto
  then have tp': "length tp' = 2 * n - 2" "limbs_val tp' + 2 ^ (64 * (2 * n - 2)) * unat cy = 2 * off_diagonal up"
    using mpn_lshift_val [OF _ _ _ sh] assms(3,4) by simp_all
  define mid where "mid = take (2 * n - 2) (drop 1 rp)"
  have mid: "length mid = 2 * n - 2" using rp(1) by (simp add: mid_def)
  obtain c w where add: "mpn_add_n mid tp' = (c, w)" by fastforce
  note w = mpn_add_n_val [OF _ add, unfolded mid tp'(1), OF refl]
  define top where "top = rp ! (2 * n - 1)"
  define D :: nat where "D = 2 ^ (64 * (2 * n - 2))"
  have D: "2 ^ (64 * (2 * n - 1)) = 2 ^ 64 * D" "2 ^ (64 * (2 * n)) = 2 ^ 64 * (2 ^ 64 * D)"
  proof -
    have "64 * (2 * n - 1) = 64 + 64 * (2 * n - 2)" "64 * (2 * n) = 64 + (64 + 64 * (2 * n - 2))"
      using assms(2) by simp_all
    then show "(2 :: nat) ^ (64 * (2 * n - 1)) = 2 ^ 64 * D" "(2 :: nat) ^ (64 * (2 * n)) = 2 ^ 64 * (2 ^ 64 * D)"
      by (simp_all only: power_add D_def)
  qed
  have "drop 1 rp = mid @ [top]"
  proof -
    have "drop 1 rp = mid @ drop (2 * n - 2) (drop 1 rp)" by (simp only: mid_def append_take_drop_id)
    also have "drop (2 * n - 2) (drop 1 rp) = drop (2 * n - 1) rp"
    proof -
      have "2 * n - 2 + 1 = 2 * n - 1" using assms(2) by simp
      then show ?thesis by (simp only: drop_drop)
    qed
    also have "drop (2 * n - 1) rp = [top]"
      using Cons_nth_drop_Suc [of "2 * n - 1" rp] rp(1) assms(2) by (simp add: top_def)
    finally show ?thesis .
  qed
  moreover have "rp = take 1 rp @ drop 1 rp" by simp
  ultimately have split: "rp = take 1 rp @ mid @ [top]" by simp
  have one: "length (take 1 rp) = 1" using rp(1) assms(2) by simp
  have val: "limbs_val (take 1 rp @ x @ [y]) = limbs_val (take 1 rp) + 2 ^ 64 * (limbs_val x + D * unat y)"
    if "length x = 2 * n - 2" for x y
    using one that by (simp add: limbs_val_append D_def algebra_simps)
  have sq: "limbs_val (take 1 rp) + 2 ^ 64 * (limbs_val w + D * (unat top + unat cy + unat c)) =
      limbs_val up * limbs_val up"
  proof -
    have "limbs_val (take 1 rp) + 2 ^ 64 * (limbs_val mid + D * unat top) = diagonal up"
      using val [OF mid, of top] split rp(2) by simp
    then show ?thesis
      unfolding square_sum using w(3) tp'(2) unfolding D_def [symmetric] by (simp add: algebra_simps)
  qed
  have "limbs_val up * limbs_val up < 2 ^ (64 * n) * 2 ^ (64 * n)"
    using limbs_val_bound [of up] assms(1) by (intro mult_strict_mono) simp_all
  also have "(2 :: nat) ^ (64 * n) * 2 ^ (64 * n) = 2 ^ 64 * (2 ^ 64 * D)"
    unfolding D(2) [symmetric] by (simp flip: power_add)
  finally have b: "limbs_val up * limbs_val up < 2 ^ 64 * (2 ^ 64 * D)" .
  have "2 ^ 64 * (D * (unat top + unat cy + unat c)) \<le>
      limbs_val (take 1 rp) + 2 ^ 64 * (limbs_val w + D * (unat top + unat cy + unat c))"
    by (simp add: algebra_simps)
  also have "\<dots> < 2 ^ 64 * (2 ^ 64 * D)" unfolding sq by (rule b)
  finally have "2 ^ 64 * (D * (unat top + unat cy + unat c)) < 2 ^ 64 * (2 ^ 64 * D)" .
  then have small: "unat top + unat cy + unat c < 2 ^ 64" by (simp add: D_def)
  then have "unat (cy + c) = unat cy + unat c" by (intro limb_add_small) simp
  then have t: "unat (top + (cy + c)) = unat top + unat cy + unat c"
    using small by (subst limb_add_small) simp_all
  have "MPN_SQR_DIAG_ADDLSH1 tp up = take 1 rp @ w @ [top + (cy + c)]"
    unfolding MPN_SQR_DIAG_ADDLSH1_def Let_def assms(1) rp_def [symmetric] mid_def [symmetric] sh prod.case add
      top_def ..
  then show ?thesis
    using val [OF w(1), of "top + (cy + c)"] sq t one w(1) assms(1,2) by (simp add: product_of_def)
qed

lemma mpn_sqr_basecase_val:
  assumes "up \<noteq> []"
  shows "product_of up up (mpn_sqr_basecase up)"
proof (cases "length up = 1")
  case True
  then obtain u where u: "up = [u]" by (auto simp: length_Suc_conv)
  obtain h l where "umul_ppmm u u = (h, l)" by fastforce
  then show ?thesis using umul_ppmm_val [of u u h l] by (simp add: u mpn_sqr_basecase_def product_of_def)
next
  case False
  obtain u us where up: "up = u # us" using assms by (cases up) auto
  have ne: "us \<noteq> []" using False by (auto simp: up)
  obtain cy w where m: "mpn_mul_1 us u = (cy, w)" by fastforce
  note w = mpn_mul_1_val [OF m]
  define tp where "tp = sqr_rows us 2 (w @ [cy])"
  have "length tp + 2 = 2 + 2 * length us" "limbs_val tp = off_diagonal up"
    using sqr_rows_val [OF ne, of "w @ [cy]" 2] w
    by (simp_all add: tp_def up limbs_val_append algebra_simps)
  moreover have "mpn_sqr_basecase up = MPN_SQR_DIAG_ADDLSH1 tp up"
    using False m by (simp add: mpn_sqr_basecase_def up tp_def)
  ultimately show ?thesis
    using diag_addlsh1_val [OF refl, of up tp] ne by (cases us) (simp_all add: up)
qed

subsection \<open>The products that \<open>mpz_mul\<close> takes\<close>

text \<open>Below the thresholds, whatever the algorithms above them compute.\<close>

interpretation below: limb_product "mpn_mul toom32 mul_big" "mpn_sqr sqr_big" product_fits
  for toom32 mul_big :: "limbs \<Rightarrow> limbs \<Rightarrow> limbs" and sqr_big :: "limbs \<Rightarrow> limbs"
proof unfold_locales
  fix up vp :: limbs
  assume "vp \<noteq> []" "length vp \<le> length up" "product_fits False (length up) (length vp)"
  from mpn_mul_val [OF this] show "\<exists>p. mpn_mul toom32 mul_big up vp = Inr p \<and> length p = length up + length vp \<and>
      limbs_val p = limbs_val up * limbs_val vp" by (auto simp: product_of_def)
next
  fix up :: limbs
  assume "up \<noteq> []" "product_fits True (length up) (length up)"
  then show "\<exists>p. mpn_sqr sqr_big up = Inr p \<and> length p = length up + length up \<and>
      limbs_val p = limbs_val up * limbs_val up"
    using mpn_sqr_basecase_val [of up] by (simp add: mpn_sqr_def product_fits_def product_of_def)
next
  fix same n m
  assume "product_fits same n m"
  then show "product_fits same m n" by (auto simp: product_fits_def split: if_splits)
qed

subsection \<open>Properties\<close>

text \<open>
  C24: For two operands of the same length, from four limbs on, the algorithm of Karatsuba in
  \<open>mpn_toom22_mul\<close>, which computes in the area of the result and adds the carries last, returns what the
  schoolbook product \<open>mpn_mul_basecase\<close> returns, the limbs of the product, and writes no limb behind the
  area; also when the borrow of the middle product has to be dropped.
\<close>

theorem toom22_is_schoolbook:
  assumes "length bp = length ap" and "4 \<le> length ap"
  shows "mpn_toom22_mul toom32 ap bp = Inr (mul_basecase ap bp) \<and>
    limbs_val (mul_basecase ap bp) = limbs_val ap * limbs_val bp"
proof -
  have ne: "ap \<noteq> []" "bp \<noteq> []" using assms by auto
  note m = mul_basecase_val [OF ne]
  obtain p where p: "mpn_toom22_mul toom32 ap bp = Inr p" "product_of ap bp p"
    using toom22_product [of ap bp toom32] toom22_ok_balanced [OF assms(2)] assms(1) by auto
  have "p = mul_basecase ap bp" using p(2) m by (intro limbs_val_inj) (simp_all add: product_of_def)
  then show ?thesis using p(1) m by (simp add: product_of_def)
qed

text \<open>Operands for which the differences of the halves have different signs.\<close>

theorem toom22_is_schoolbook_witness:
  "\<exists>p. mpn_toom22_mul (\<lambda>_ _. []) [1, 0, 0, 5] [7, 0, 0, 2] = Inr p \<and>
    limbs_val p = (1 + 5 * 2 ^ 192) * (7 + 2 * 2 ^ 192)"
  using toom22_is_schoolbook [of "[7, 0, 0, 2]" "[1, 0, 0, 5]" "\<lambda>_ _. []"] by simp

text \<open>
  C26: The functions on numbers, which work on signs, sizes and limbs, compute the arithmetic of the
  integers, for operands of any sizes and signs and also where the size of the result shrinks or grows:
  sums, differences, comparisons, negation and the second operand in a limb.
\<close>

theorem mpz_arith_int:
  assumes "mpz_is u x" and "mpz_is v y"
  shows "mpz_is (mpz_add u v) (x + y) \<and> mpz_is (mpz_sub u v) (x - y) \<and>
    mpz_is (mpz_add_ui u k) (x + int (unat k)) \<and> mpz_is (mpz_sub_ui u k) (x - int (unat k)) \<and>
    mpz_is (mpz_mul_ui w u k) (x * int (unat k)) \<and>
    mpz_is (mpz_neg same u) (- x) \<and> mpz_is (mpz_abs same u) \<bar>x\<bar> \<and> mpz_is (mpz_set u) x \<and>
    mpz_cmp u v = sgn (x - y) \<and> mpz_cmp_ui u k = sgn (x - int (unat k))"
proof -
  have "mpz_cmp u v = sgn (x - y)" using mpz_cmp_is [OF assms] by (simp add: sgn_if)
  moreover have "mpz_cmp_ui u k = sgn (x - int (unat k))" using mpz_cmp_ui_is [OF assms(1)] by (simp add: sgn_if)
  ultimately show ?thesis
    using mpz_add_is [OF assms] mpz_sub_is [OF assms] mpz_add_ui_is [OF assms(1)] mpz_sub_ui_is [OF assms(1)]
      mpz_mul_ui_is [OF assms(1)] mpz_neg_is [OF assms(1)] mpz_abs_is [OF assms(1)] mpz_set_is [OF assms(1)]
    by blast
qed

text \<open>A carry into a third limb, and a difference that loses a limb.\<close>

theorem mpz_arith_int_witness:
  "mpz_is (mpz_add \<lparr>siz = 2, ptr = [0xFFFFFFFFFFFFFFFF, 0xFFFFFFFFFFFFFFFF]\<rparr> \<lparr>siz = 1, ptr = [1]\<rparr>) (2 ^ 128) \<and>
   mpz_is (mpz_sub \<lparr>siz = 2, ptr = [0xFFFFFFFFFFFFFFFF, 0xFFFFFFFFFFFFFFFF]\<rparr> \<lparr>siz = 1, ptr = [1]\<rparr>) (2 ^ 128 - 2)"
proof -
  have "mpz_is \<lparr>siz = 2, ptr = [0xFFFFFFFFFFFFFFFF, 0xFFFFFFFFFFFFFFFF]\<rparr> (2 ^ 128 - 1)"
    "mpz_is \<lparr>siz = 1, ptr = [1]\<rparr> 1"
    by (simp_all add: mpz_is_def mpz_wf_def mpz_val_def)
  from mpz_arith_int [OF this] show ?thesis by simp
qed

text \<open>
  C29: \<open>mpz_mul\<close> computes the product of the integers, whichever operand is longer, for one variable as
  both operands also by squaring, as long as the sizes are below the thresholds of the algorithms above
  Karatsuba: the shorter operand below 30 limbs, both of one size below 100, or a square below 50.
\<close>

theorem mpz_mul_int:
  assumes "mpz_is u x" and "mpz_is v y" and "same \<longrightarrow> u = v"
    and "product_fits same (nat \<bar>siz u\<bar>) (nat \<bar>siz v\<bar>)"
  shows "\<exists>z. mpz_mul (mpn_mul toom32 mul_big) (mpn_sqr sqr_big) same w u v = Inr z \<and> mpz_is z (x * y)"
  using assms by (rule below.mpz_mul_is)

theorem mpz_mul_int_witness:
  "\<exists>z. mpz_mul (mpn_mul (\<lambda>_ _. []) (\<lambda>_ _. [])) (mpn_sqr (\<lambda>_. [])) False \<lparr>siz = 0, ptr = []\<rparr>
      \<lparr>siz = -2, ptr = [1, 1]\<rparr> \<lparr>siz = 2, ptr = [3, 4]\<rparr> = Inr z \<and>
    mpz_is z (- (1 + 2 ^ 64) * (3 + 4 * 2 ^ 64))"
proof (rule mpz_mul_int)
  show "mpz_is \<lparr>siz = -2, ptr = [1, 1]\<rparr> (- (1 + 2 ^ 64))"
    by (simp add: mpz_is_def mpz_wf_def mpz_val_def)
  show "mpz_is \<lparr>siz = 2, ptr = [3, 4]\<rparr> (3 + 4 * 2 ^ 64)"
    by (simp add: mpz_is_def mpz_wf_def mpz_val_def)
qed (simp_all add: product_fits_def MUL_TOOM22_THRESHOLD_def)

lemma mpz_wf_is: "mpz_wf z \<longleftrightarrow> (\<exists>x. mpz_is z x)"
  by (simp add: mpz_is_def)

end
