(* ===== verification/Gmp_Udiv.thy ===== *)
theory Gmp_Udiv
  imports Gmp_Mul
begin

unbundle bit_operations_syntax

text \<open>
  Division of two limbs by one and of three limbs by two: the plain C versions of \<open>longlong.h\<close> and
  the macros of \<open>gmp-impl.h\<close> that multiply by a precomputed inverse. The macros work modulo \<open>2 ^ 64\<close> and
  \<open>2 ^ 128\<close>; each lemma first bounds the true value of the candidate remainder in \<open>int\<close>, for
  any base \<open>B\<close>, and then follows the corrections.
\<close>

subsection \<open>Macros\<close>

definition add_ssaaaa :: "limb \<Rightarrow> limb \<Rightarrow> limb \<Rightarrow> limb \<Rightarrow> limb \<times> limb" where
  "add_ssaaaa ah al bh bl = (let x = al + bl in (ah + bh + limb_of (x < al), x))"

definition sub_ddmmss :: "limb \<Rightarrow> limb \<Rightarrow> limb \<Rightarrow> limb \<Rightarrow> limb \<times> limb" where
  "sub_ddmmss ah al bh bl = (let x = al - bl in (ah - bh - limb_of (al < bl), x))"

text \<open>\<open>__udiv_qrnnd_c\<close>: one quotient digit of 32 bits, and both.\<close>

definition udiv_half :: "limb \<Rightarrow> limb \<Rightarrow> limb \<Rightarrow> limb \<times> limb" where
  "udiv_half d n1 low =
     (let d1 = ll_highpart d; d0 = ll_lowpart d; q = n1 div d1; r = n1 - q * d1; m = q * d0;
          r = r * ll_B OR low;
          (q, r) = (if r < m then
                      let q = q - 1; r = r + d
                      in if d \<le> r \<and> r < m then (q - 1, r + d) else (q, r)
                    else (q, r))
      in (q, r - m))"

definition udiv_qrnnd :: "limb \<Rightarrow> limb \<Rightarrow> limb \<Rightarrow> limb \<times> limb" where
  "udiv_qrnnd n1 n0 d =
     (let (q1, r1) = udiv_half d n1 (ll_highpart n0); (q0, r0) = udiv_half d r1 (ll_lowpart n0)
      in (q1 * ll_B OR q0, r0))"

definition invert_limb :: "limb \<Rightarrow> limb" where
  "invert_limb xl = fst (udiv_qrnnd (NOT xl) (NOT 0) xl)"

definition invert_pi1 :: "limb \<Rightarrow> limb \<Rightarrow> limb" where
  "invert_pi1 d1 d0 =
     (let v = invert_limb d1; p = d1 * v; p = p + d0;
          (v, p) = (if p < d0 then
                      let v = v - 1; mask = - limb_of (d1 \<le> p); p = p - d1; v = v + mask; p = p - (mask AND d1)
                      in (v, p)
                    else (v, p));
          (t1, t0) = umul_ppmm d0 v; p = p + t1
      in if p < t1 then
           let v = v - 1
           in if d1 \<le> p \<and> (d1 < p \<or> d0 \<le> t0) then v - 1 else v
         else v)"

definition udiv_qrnnd_preinv :: "limb \<Rightarrow> limb \<Rightarrow> limb \<Rightarrow> limb \<Rightarrow> limb \<times> limb" where
  "udiv_qrnnd_preinv nh nl d di =
     (let (qh, ql) = umul_ppmm nh di; (qh, ql) = add_ssaaaa qh ql (nh + 1) nl; r = nl - qh * d;
          mask = - limb_of (ql < r); qh = qh + mask; r = r + (mask AND d)
      in if d \<le> r then (qh + 1, r - d) else (qh, r))"

text \<open>The branch for a low limb that is the constant zero.\<close>

definition udiv_qrnnd_preinv_0 :: "limb \<Rightarrow> limb \<Rightarrow> limb \<Rightarrow> limb \<times> limb" where
  "udiv_qrnnd_preinv_0 nh d di =
     (let (qh, ql) = umul_ppmm nh di; qh = qh + (nh + 1); r = - qh * d; mask = - limb_of (ql < r)
      in (qh + mask, r + (mask AND d)))"

definition udiv_qr_3by2 :: "limb \<Rightarrow> limb \<Rightarrow> limb \<Rightarrow> limb \<Rightarrow> limb \<Rightarrow> limb \<Rightarrow> limb \<times> limb \<times> limb" where
  "udiv_qr_3by2 n2 n1 n0 d1 d0 dinv =
     (let (q, q0) = umul_ppmm n2 dinv; (q, q0) = add_ssaaaa q q0 n2 n1;
          r1 = n1 - d1 * q; (r1, r0) = sub_ddmmss r1 n0 d1 d0;
          (t1, t0) = umul_ppmm d0 q; (r1, r0) = sub_ddmmss r1 r0 t1 t0; q = q + 1;
          mask = - limb_of (q0 \<le> r1); q = q + mask;
          (r1, r0) = add_ssaaaa r1 r0 (mask AND d1) (mask AND d0)
      in if d1 \<le> r1 \<and> (d1 < r1 \<or> d0 \<le> r0) then
           let (r1, r0) = sub_ddmmss r1 r0 d1 d0 in (q + 1, r1, r0)
         else (q, r1, r0))"

subsection \<open>Words as integers\<close>

text \<open>The base as an integer that the simplifier does not compute.\<close>

definition limb_base :: int where
  "limb_base = 2 ^ 64"

lemma base_pos [simp]: "0 < limb_base" "0 \<le> limb_base" "limb_base \<noteq> 0"
  by (simp_all add: limb_base_def)

lemma of_int_base: "(of_int limb_base :: limb) = 0"
  by (simp add: limb_base_def)

lemma limb_int:
  assumes "(w :: limb) = of_int x" and "0 \<le> x" and "x < limb_base"
  shows "uint w = x"
  using assms by (simp add: uint_word_of_int take_bit_eq_mod limb_base_def)

lemma uint_limb: "0 \<le> uint (x :: limb)" "uint (x :: limb) < limb_base"
  using uint_lt2p [of x] by (simp_all add: limb_base_def)

lemma limb_less_int: "(x :: limb) < y \<longleftrightarrow> uint x < uint y" "(x :: limb) \<le> y \<longleftrightarrow> uint x \<le> uint y"
  by (simp_all add: word_less_def word_le_def)

lemma uint_of_int: "\<exists>k. uint (of_int x :: limb) = x + k * limb_base"
proof
  show "uint (of_int x :: limb) = x + - (x div limb_base) * limb_base"
    by (simp add: uint_word_of_int take_bit_eq_mod limb_base_def minus_mult_div_eq_mod [symmetric] mult.commute)
qed

lemma uint_limb_add: "uint (x + y :: limb) = uint x + uint y - limb_base * of_bool (x + y < x)"
proof -
  have "int (unat (x + y) + 2 ^ 64 * of_bool (x + y < x)) = int (unat x + unat y)" by (simp only: limb_add)
  then show ?thesis
    by (simp only: of_nat_add of_nat_mult of_nat_power of_nat_numeral of_nat_of_bool uint_nat limb_base_def)
qed

lemma uint_limb_sub: "uint (x - y :: limb) = uint x - uint y + limb_base * of_bool (x < y)"
proof -
  note r = uint_limb(1) [of x] uint_limb(2) [of x] uint_limb(1) [of y] uint_limb(2) [of y]
  show ?thesis
  proof (cases "x < y")
    case True
    then have lt: "uint x < uint y" by (simp add: limb_less_int)
    have "uint (x - y) = uint x - uint y + limb_base"
    proof (rule limb_int)
      show "x - y = of_int (uint x - uint y + limb_base)" by (simp add: of_int_base)
    qed (use lt r in linarith)+
    then show ?thesis using True by simp
  next
    case False
    then have le: "uint y \<le> uint x" by (simp add: limb_less_int not_less)
    have "uint (x - y) = uint x - uint y"
    proof (rule limb_int)
      show "x - y = of_int (uint x - uint y)" by simp
    qed (use le r in linarith)+
    then show ?thesis using False by simp
  qed
qed

lemma mask_and: "- limb_of b AND x = (if b then x else 0)"
  by (simp add: limb_of_def)

lemma mask_minus: "- limb_of b = (if b then - 1 else 0)"
  by (simp add: limb_of_def)

text \<open>The value of two limbs.\<close>

definition dd :: "limb \<Rightarrow> limb \<Rightarrow> int" where
  "dd h l = limb_base * uint h + uint l"

lemma dd_range: "0 \<le> dd h l" "dd h l < limb_base * limb_base"
proof -
  show "0 \<le> dd h l" by (simp add: dd_def)
  have "limb_base * uint h \<le> limb_base * (limb_base - 1)"
    using uint_limb(2) [of h] by (intro mult_left_mono) simp_all
  then show "dd h l < limb_base * limb_base" using uint_limb [of l] by (simp add: dd_def algebra_simps)
qed

lemma dd_eqI:
  assumes "\<exists>k. dd h l = x + k * (limb_base * limb_base)" and "0 \<le> x" and "x < limb_base * limb_base"
  shows "dd h l = x"
proof -
  have "dd h l mod (limb_base * limb_base) = x mod (limb_base * limb_base)" using assms(1) by auto
  then show ?thesis using assms(2,3) dd_range [of h l] by simp
qed

lemma umul_ppmm_int: "umul_ppmm u v = (h, l) \<Longrightarrow> dd h l = uint u * uint v"
proof -
  assume "umul_ppmm u v = (h, l)"
  then have "int (unat l + 2 ^ 64 * unat h) = int (unat u * unat v)" by (simp only: umul_ppmm_val)
  then show ?thesis
    by (simp only: of_nat_add of_nat_mult of_nat_power of_nat_numeral uint_nat limb_base_def dd_def add.commute)
qed

lemma dd_carry:
  assumes "uint h = a + k * limb_base" and "uint l = b + c * limb_base" and "a = a' - c"
  shows "dd h l = limb_base * a' + b + k * (limb_base * limb_base)"
  unfolding dd_def assms by (simp add: algebra_simps)

lemma add_ssaaaa_int:
  assumes "add_ssaaaa ah al bh bl = (h, l)"
  shows "\<exists>k. dd h l = dd ah al + dd bh bl + k * (limb_base * limb_base)"
proof -
  have l: "l = al + bl" and h: "h = of_int (uint ah + uint bh + of_bool (l < al))"
    using assms by (auto simp: add_ssaaaa_def Let_def limb_of_def)
  obtain k where "uint h = uint ah + uint bh + of_bool (l < al) + k * limb_base"
    using uint_of_int unfolding h by blast
  then have "dd h l = limb_base * (uint ah + uint bh) + (uint al + uint bl) + k * (limb_base * limb_base)"
    by (rule dd_carry [where c = "- of_bool (l < al)"]) (simp_all add: l uint_limb_add)
  then show ?thesis by (intro exI [of _ k]) (simp add: dd_def algebra_simps)
qed

lemma sub_ddmmss_int:
  assumes "sub_ddmmss ah al bh bl = (h, l)"
  shows "\<exists>k. dd h l = dd ah al - dd bh bl + k * (limb_base * limb_base)"
proof -
  have l: "l = al - bl" and h: "h = of_int (uint ah - uint bh - of_bool (al < bl))"
    using assms by (auto simp: sub_ddmmss_def Let_def limb_of_def)
  obtain k where "uint h = uint ah - uint bh - of_bool (al < bl) + k * limb_base"
    using uint_of_int unfolding h by blast
  then have "dd h l = limb_base * (uint ah - uint bh) + (uint al - uint bl) + k * (limb_base * limb_base)"
    by (rule dd_carry [where c = "of_bool (al < bl)"]) (simp_all add: l uint_limb_sub)
  then show ?thesis by (intro exI [of _ k]) (simp add: dd_def algebra_simps)
qed

subsection \<open>Two limbs by one\<close>

lemma preinv_core:
  fixes B d k n1 n0 q q0 v :: int
  assumes d: "0 < d" "d < B" and n: "0 \<le> n1" "n1 < d" "0 \<le> n0" "n0 < B"
    and v: "(B + v) * d = B * B - k" "0 < k" "k \<le> d"
    and q: "q * B + q0 = v * n1 + n1 * B + n0" "0 \<le> q0" "q0 < B"
  defines "r \<equiv> n1 * B + n0 - (q + 1) * d"
  shows "- d \<le> r" and "q0 - B < r" and "r < max (B - d) q0" and "n0 = 0 \<Longrightarrow> r < q0 \<and> r < d"
proof -
  have "B * r = n1 * B * B + n0 * B - (q * B) * d - B * d" by (simp add: r_def algebra_simps)
  also have "q * B = (B + v) * n1 + n0 - q0" using q(1) by (simp add: algebra_simps)
  also have "n1 * B * B + n0 * B - ((B + v) * n1 + n0 - q0) * d - B * d =
      n1 * (B * B - (B + v) * d) + n0 * (B - d) + q0 * d - B * d"
    by (simp add: algebra_simps)
  also have "B * B - (B + v) * d = k" using v(1) by simp
  finally have r: "B * r = n1 * k + n0 * (B - d) + q0 * d - B * d" .
  have nk: "0 \<le> n1 * k" "n1 * k \<le> (d - 1) * d" and n0: "0 \<le> n0 * (B - d)" "n0 * (B - d) \<le> (B - 1) * (B - d)"
    and q0: "0 \<le> q0 * d" using n v d q by (auto intro!: mult_mono)
  have B: "0 < B" using d by simp
  have "B * - d \<le> B * r" using r nk n0 q0 by simp
  then show "- d \<le> r" using B by (simp only: mult_le_cancel_left_pos)
  have "(B - q0) * d < (B - q0) * B" using q d by (intro mult_strict_left_mono) simp_all
  then have "B * (q0 - B) < B * r" using r nk n0 by (simp add: algebra_simps)
  then show "q0 - B < r" using B by (simp only: mult_less_cancel_left_pos)
  define c where "c = max (B - d) q0"
  have "(B - d) * (B - d) \<le> (B - d) * c" "d * q0 \<le> d * c"
    using d by (auto intro!: mult_left_mono simp: c_def)
  then have "(B - d) * (B - d) + d * q0 \<le> B * c" by (simp add: algebra_simps)
  moreover have "B * r < (B - d) * (B - d) + d * q0"
    using r nk n0 d by (simp add: algebra_simps)
  ultimately have "B * r < B * c" by simp
  then show "r < max (B - d) q0" using B unfolding c_def by (simp only: mult_less_cancel_left_pos)
  assume "n0 = 0"
  then have small: "B * r \<le> d * (d - 1 + q0 - B)" using r nk by (simp add: algebra_simps)
  also have "\<dots> < d * q0" using d by (intro mult_strict_left_mono) simp_all
  also have "\<dots> \<le> B * q0" using d q by (intro mult_right_mono) simp_all
  finally have "r < q0" using B by (simp only: mult_less_cancel_left_pos)
  moreover have "d * (d - 1 + q0 - B) < d * B" using d q by (intro mult_strict_left_mono) simp_all
  then have "B * r < B * d" using small by (simp add: mult.commute)
  then have "r < d" using B by (simp only: mult_less_cancel_left_pos)
  ultimately show "r < q0 \<and> r < d" ..
qed

text \<open>What \<open>di\<close> has to be for the limb \<open>d\<close>: the inverse without its leading bit.\<close>

definition inverse_of :: "int \<Rightarrow> int \<Rightarrow> int \<Rightarrow> bool" where
  "inverse_of n d v \<longleftrightarrow> n - d \<le> (limb_base + v) * d \<and> (limb_base + v) * d < n"

lemma dd_parts:
  assumes "\<exists>k. dd h l = x + k * (limb_base * limb_base)"
  shows "uint l = x mod limb_base" and "h = of_int (x div limb_base)"
proof -
  obtain k where k: "dd h l = x + k * (limb_base * limb_base)" using assms by blast
  have "dd h l mod limb_base = uint l" using uint_limb [of l] by (simp add: dd_def)
  moreover have "dd h l mod limb_base = x mod limb_base"
    unfolding k by (simp flip: mult.assoc)
  ultimately show l: "uint l = x mod limb_base" by simp
  have "limb_base * uint h = x - x mod limb_base + k * (limb_base * limb_base)" using k l by (simp add: dd_def)
  also have "x - x mod limb_base = limb_base * (x div limb_base)" by (rule minus_mod_eq_mult_div)
  finally have "limb_base * uint h = limb_base * (x div limb_base + k * limb_base)" by (simp add: algebra_simps)
  then have "uint h = x div limb_base + k * limb_base" using base_pos(1) by simp
  then have "(of_int (uint h) :: limb) = of_int (x div limb_base)" by (simp only: of_int_add of_int_mult of_int_base mult_zero_right add_0_right)
  then show "h = of_int (x div limb_base)" by simp
qed

lemma uint_incr: "uint (x :: limb) < uint (d :: limb) \<Longrightarrow> uint (x + 1) = uint x + 1"
proof (rule limb_int)
  assume "uint x < uint d"
  then show "uint x + 1 < limb_base" using uint_limb(2) [of d] by linarith
qed simp_all

lemma two_limbs_less:
  fixes a b c :: limb
  assumes "uint a < uint c"
  shows "uint a * limb_base + uint b < uint c * limb_base"
proof -
  have "(uint a + 1) * limb_base \<le> uint c * limb_base" using assms by (intro mult_right_mono) simp_all
  then show ?thesis using uint_limb(2) [of b] by (simp add: algebra_simps)
qed

lemma quotient_limb:
  fixes q :: limb
  assumes "q = of_int Q" and "0 \<le> n - Q * d" and "n - Q * d < d" and "0 \<le> n" and "n < d * limb_base"
  shows "uint q = Q"
proof -
  have d: "0 < d" using assms(2,3) by linarith
  have "Q * d \<le> n" using assms(2) by simp
  then have "Q * d < limb_base * d" using assms(5) by (simp add: mult.commute)
  then have "Q < limb_base" using d by simp
  moreover have "(- 1) * d < Q * d" using assms(3,4) by simp
  then have "- 1 < Q" using d by (simp only: mult_less_cancel_right_pos)
  ultimately show "uint q = Q" using assms(1) by (intro limb_int) simp_all
qed

lemma quotient_word:
  fixes q r d :: limb
  assumes "q = of_int Q" and "uint r = n - Q * uint d" and "n - Q * uint d < uint d" and "n < uint d * limb_base" and "0 \<le> n"
  shows "n = uint q * uint d + uint r \<and> uint r < uint d"
proof -
  have "0 \<le> n - Q * uint d" using assms(2) uint_limb(1) [of r] by simp
  then have "uint q = Q" using quotient_limb [OF assms(1) _ assms(3,5,4)] by simp
  then show ?thesis using assms by simp
qed

lemma udiv_qrnnd_preinv_int:
  assumes norm: "limb_base \<le> 2 * uint d" and less: "uint nh < uint d"
    and inv: "inverse_of (limb_base * limb_base) (uint d) (uint di)"
    and res: "udiv_qrnnd_preinv nh nl d di = (q, r)"
  shows "uint nh * limb_base + uint nl = uint q * uint d + uint r \<and> uint r < uint d"
proof -
  define x where "x = uint di * uint nh + uint nh * limb_base + uint nl"
  define q1 q0 where "q1 = x div limb_base" and "q0 = x mod limb_base"
  have x: "q1 * limb_base + q0 = x" by (simp add: q1_def q0_def)
  have q0: "0 \<le> q0" "q0 < limb_base" by (simp_all add: q0_def)
  obtain h0 l0 where m: "umul_ppmm nh di = (h0, l0)" by fastforce
  obtain qh ql where a: "add_ssaaaa h0 l0 (nh + 1) nl = (qh, ql)" by fastforce
  have "dd h0 l0 + dd (nh + 1) nl = x + limb_base"
    using umul_ppmm_int [OF m] unfolding dd_def uint_incr [OF less] by (simp add: x_def algebra_simps)
  then have "\<exists>k. dd qh ql = (x + limb_base) + k * (limb_base * limb_base)"
    using add_ssaaaa_int [OF a] by simp
  from dd_parts [OF this] have ql: "uint ql = q0" and qh: "qh = of_int (q1 + 1)"
    by (simp_all add: q0_def q1_def div_add_self2 [OF base_pos(3)])
  define t where "t = uint nh * limb_base + uint nl - (q1 + 1) * uint d"
  have rt: "nl - qh * d = of_int t" by (simp add: t_def qh of_int_base)
  note d = order.strict_trans1 [OF uint_limb(1) less] uint_limb(2) [of d]
  have v: "(limb_base + uint di) * uint d = limb_base * limb_base - (limb_base * limb_base - (limb_base + uint di) * uint d)"
    "0 < limb_base * limb_base - (limb_base + uint di) * uint d"
    "limb_base * limb_base - (limb_base + uint di) * uint d \<le> uint d"
    using inv by (simp_all add: inverse_of_def)
  note core = preinv_core [OF d uint_limb(1) less uint_limb v x [unfolded x_def] q0, folded t_def]
  define r0 where "r0 = nl - qh * d"
  have res': "(if d \<le> (if ql < r0 then r0 + d else r0)
      then ((if ql < r0 then qh - 1 else qh) + 1, (if ql < r0 then r0 + d else r0) - d)
      else (if ql < r0 then qh - 1 else qh, if ql < r0 then r0 + d else r0)) = (q, r)"
    using res unfolding udiv_qrnnd_preinv_def m a Let_def prod.case mask_and r0_def [symmetric]
    unfolding mask_minus by (cases "ql < r0") (auto split: if_splits)
  define n where "n = uint nh * limb_base + uint nl"
  have n: "n = (q1 + 1) * uint d + t" by (simp add: t_def n_def)
  have bound: "n < uint d * limb_base" "0 \<le> n"
    using two_limbs_less [OF less] uint_limb(1) [of nh] uint_limb(1) [of nl] by (simp_all add: n_def)
  have "n = uint q * uint d + uint r \<and> uint r < uint d"
  proof (cases "t < 0")
    case True
    have "uint r0 = t + limb_base"
      by (rule limb_int) (use core True q0 in \<open>simp_all add: r0_def rt of_int_base\<close>)
    then have lt: "ql < r0" using core(2) by (simp add: limb_less_int ql)
    have r: "uint (r0 + d) = t + uint d"
      by (rule limb_int) (use core True d in \<open>simp_all add: r0_def rt\<close>)
    then have "(q, r) = (of_int q1, r0 + d)" using res' lt True by (simp add: limb_less_int qh)
    then show ?thesis using r core True
      by (intro quotient_word [where Q = q1]) (use bound in \<open>simp_all add: n algebra_simps\<close>)
  next
    case False
    then have nn: "0 \<le> t" by simp
    have "t < limb_base" using core(3) d q0 by linarith
    then have r0: "uint r0 = t" using nn by (intro limb_int) (simp_all add: r0_def rt)
    show ?thesis
    proof (cases "q0 < t")
      case True
      then have up: "t < limb_base - uint d" using core(3) by simp
      have "uint (r0 + d) = t + uint d"
        by (rule limb_int) (use up nn d in \<open>simp_all add: r0_def rt\<close>)
      then have "(q, r) = (of_int (q1 + 1), r0)" using res' True nn by (simp add: limb_less_int qh ql r0)
      then show ?thesis using r0 nn up norm
        by (intro quotient_word [where Q = "q1 + 1"]) (use bound in \<open>simp_all add: n\<close>)
    next
      case le: False
      show ?thesis
      proof (cases "uint d \<le> t")
        case True
        then have "(q, r) = (of_int (q1 + 2), r0 - d)"
          using res' le by (simp add: limb_less_int qh ql r0 add.commute)
        moreover have "uint (r0 - d) = t - uint d"
          by (rule limb_int) (use True \<open>t < limb_base\<close> d in \<open>simp_all add: r0_def rt\<close>)
        ultimately have "q = of_int (q1 + 2)" "uint r = t - uint d" by simp_all
        then show ?thesis using \<open>t < limb_base\<close> norm True
          by (intro quotient_word [where Q = "q1 + 2"]) (use bound in \<open>simp_all add: n algebra_simps\<close>)
      next
        case False
        then have "(q, r) = (of_int (q1 + 1), r0)" using res' le by (simp add: limb_less_int qh ql r0)
        then show ?thesis using r0 nn False
          by (intro quotient_word [where Q = "q1 + 1"]) (use bound in \<open>simp_all add: n\<close>)
      qed
    qed
  qed
  then show ?thesis by (simp only: n_def)
qed

text \<open>The branch for a low limb of zero needs one correction only.\<close>

lemma udiv_qrnnd_preinv_0_int:
  assumes norm: "limb_base \<le> 2 * uint d" and less: "uint nh < uint d"
    and inv: "inverse_of (limb_base * limb_base) (uint d) (uint di)"
    and res: "udiv_qrnnd_preinv_0 nh d di = (q, r)"
  shows "uint nh * limb_base = uint q * uint d + uint r \<and> uint r < uint d"
proof -
  define x where "x = uint di * uint nh + uint nh * limb_base + 0"
  define q1 q0 where "q1 = x div limb_base" and "q0 = x mod limb_base"
  have x: "q1 * limb_base + q0 = x" by (simp add: q1_def q0_def)
  have q0: "0 \<le> q0" "q0 < limb_base" by (simp_all add: q0_def)
  obtain h0 ql where m: "umul_ppmm nh di = (h0, ql)" by fastforce
  have "\<exists>k. dd h0 ql = uint di * uint nh + k * (limb_base * limb_base)"
    unfolding umul_ppmm_int [OF m] by (intro exI [of _ 0]) (simp add: mult.commute)
  note parts = dd_parts [OF this]
  have "uint di * uint nh div limb_base = q1 - uint nh" "uint di * uint nh mod limb_base = q0"
    by (simp_all add: q1_def q0_def x_def)
  then have ql: "uint ql = q0" and h0: "h0 = of_int (q1 - uint nh)" using parts by simp_all
  define qh where "qh = h0 + (nh + 1)"
  have qh: "qh = of_int (q1 + 1)" by (simp add: qh_def h0)
  define t where "t = uint nh * limb_base + 0 - (q1 + 1) * uint d"
  define r0 where "r0 = - qh * d"
  have rt: "r0 = of_int t"
    unfolding t_def r0_def qh of_int_add of_int_diff of_int_mult of_int_base by (simp flip: mult_minus_left)
  note d = order.strict_trans1 [OF uint_limb(1) less] uint_limb(2) [of d]
  have v: "(limb_base + uint di) * uint d = limb_base * limb_base - (limb_base * limb_base - (limb_base + uint di) * uint d)"
    "0 < limb_base * limb_base - (limb_base + uint di) * uint d"
    "limb_base * limb_base - (limb_base + uint di) * uint d \<le> uint d"
    using inv by (simp_all add: inverse_of_def)
  note core = preinv_core [OF d uint_limb(1) less order.refl base_pos(1) v x [unfolded x_def] q0, folded t_def]
  have res': "(if ql < r0 then qh - 1 else qh, if ql < r0 then r0 + d else r0) = (q, r)"
    using res unfolding udiv_qrnnd_preinv_0_def m Let_def prod.case mask_and qh_def [symmetric] r0_def [symmetric]
    unfolding mask_minus by (cases "ql < r0") simp_all
  define n where "n = uint nh * limb_base"
  have n: "n = (q1 + 1) * uint d + t" by (simp add: t_def n_def)
  have bound: "n < uint d * limb_base" "0 \<le> n"
    using two_limbs_less [OF less, of 0] uint_limb(1) [of nh] by (simp_all add: n_def)
  have "n = uint q * uint d + uint r \<and> uint r < uint d"
  proof (cases "t < 0")
    case True
    have "uint r0 = t + limb_base"
      by (rule limb_int) (use core True q0 in \<open>simp_all add: rt of_int_base\<close>)
    then have lt: "ql < r0" using core(2) by (simp add: limb_less_int ql)
    have r: "uint (r0 + d) = t + uint d"
      by (rule limb_int) (use core True d in \<open>simp_all add: rt\<close>)
    have "(q, r) = (of_int q1, r0 + d)" using res' lt by (simp add: qh)
    then show ?thesis using r core True
      by (intro quotient_word [where Q = q1]) (use bound in \<open>simp_all add: n algebra_simps\<close>)
  next
    case False
    then have nn: "0 \<le> t" by simp
    have t: "t < q0" "t < uint d" using core(4) by simp_all
    then have r0: "uint r0 = t" using nn q0 by (intro limb_int) (simp_all add: rt)
    have "(q, r) = (of_int (q1 + 1), r0)" using res' t by (simp add: limb_less_int qh ql r0)
    then show ?thesis using r0 nn t
      by (intro quotient_word [where Q = "q1 + 1"]) (use bound in \<open>simp_all add: n\<close>)
  qed
  then show ?thesis by (simp only: n_def)
qed

subsection \<open>Three limbs by two\<close>

lemma div_3by2_core:
  fixes B d k n2 n1 n0 q q0 v :: int
  assumes B: "0 < B" and d: "0 < d" "d < B * B" and n: "0 \<le> n2" "0 \<le> n1" "n1 < B" "0 \<le> n0" "n0 < B" "n2 * B + n1 < d"
    and v: "0 \<le> v" "(B + v) * d = B * B * B - k" "0 < k" "k \<le> d"
    and q: "q * B + q0 = v * n2 + n2 * B + n1" "0 \<le> q0" "q0 < B"
  defines "r \<equiv> n2 * (B * B) + n1 * B + n0 - (q + 1) * d"
  shows "- d \<le> r" and "q0 * B - B * B \<le> r" and "r < max (B * B - d) (q0 * B)"
proof -
  have "B * r = n2 * (B * B * B) + n1 * (B * B) + n0 * B - (q * B) * d - B * d" by (simp add: r_def algebra_simps)
  also have "q * B = (B + v) * n2 + n1 - q0" using q(1) by (simp add: algebra_simps)
  also have "n2 * (B * B * B) + n1 * (B * B) + n0 * B - ((B + v) * n2 + n1 - q0) * d - B * d =
      n2 * (B * B * B - (B + v) * d) + n1 * (B * B - d) + n0 * B + q0 * d - B * d"
    by (simp add: algebra_simps)
  also have "B * B * B - (B + v) * d = k" using v(2) by simp
  finally have r: "B * r = n2 * k + n1 * (B * B - d) + n0 * B + q0 * d - B * d" .
  have nn: "0 \<le> n2 * k" "0 \<le> n1 * (B * B - d)" "0 \<le> n0 * B" "0 \<le> q0 * d" using n v d q B by simp_all
  have "B * - d \<le> B * r" using r nn by simp
  then show "- d \<le> r" using B by (simp only: mult_le_cancel_left_pos)
  have "(B - q0) * d \<le> (B - q0) * (B * B)" using q d by (intro mult_left_mono) simp_all
  then have "B * (q0 * B - B * B) \<le> B * r" using r nn by (simp add: algebra_simps)
  then show "q0 * B - B * B \<le> r" using B by (simp only: mult_le_cancel_left_pos)
  define c where "c = max (B * B - d) (q0 * B)"
  show "r < max (B * B - d) (q0 * B)"
  proof (cases "d * (B + 1) \<le> B * B * B")
    case True
    have "0 \<le> n2 * B" using n B by simp
    then have "n1 < d" using n by linarith
    then have "n2 * B * k \<le> (d - 1 - n1) * d" using n v d B by (intro mult_mono) simp_all
    moreover have "n1 * (B * B * B - B * d - d) \<le> (B - 1) * (B * B * B - B * d - d)"
      using n True by (intro mult_right_mono) (simp_all add: algebra_simps)
    moreover have "n0 * (B * B) \<le> (B - 1) * (B * B)" using n by (intro mult_right_mono) simp_all
    moreover have "B * (B * r) = n2 * B * k + (d - 1 - n1) * d - (d - 1 - n1) * d + n1 * (B * B * B - B * d) + n0 * (B * B) +
        q0 * B * d - B * B * d"
      unfolding r by (simp add: algebra_simps)
    ultimately have "B * (B * r) \<le> (B * B - d) * (B * B - d) + d * (q0 * B) - B * B"
      by (simp add: algebra_simps)
    also have "(B * B - d) * (B * B - d) \<le> (B * B - d) * c" using d by (intro mult_left_mono) (simp_all add: c_def)
    also have "d * (q0 * B) \<le> d * c" using d by (intro mult_left_mono) (simp_all add: c_def)
    also have "(B * B - d) * c + d * c - B * B = (B * B) * (c - 1)" by (simp add: algebra_simps)
    finally have "(B * B) * r \<le> (B * B) * (c - 1)" by (simp add: mult.assoc)
    then have "r \<le> c - 1" using B by (simp only: mult_le_cancel_left_pos mult_pos_pos)
    then show ?thesis by (simp add: c_def)
  next
    case False
    then have "B * B * B - k < d * (B + 1)" using v(3) by linarith
    then have "(B + v) * d < (B + 1) * d" unfolding v(2) by (simp only: mult.commute)
    then have "B + v < B + 1" using d(1) by (simp only: mult_less_cancel_right_pos)
    then have v0: "v = 0" using v(1) by linarith
    have q': "(q - n2) * B = n1 - q0" using q(1) unfolding v0 by (simp add: algebra_simps)
    have "(q - n2) * B < 1 * B" "- 1 * B < (q - n2) * B" unfolding q' using n q by simp_all
    then have "q - n2 < 1" "- 1 < q - n2" using B by (simp_all only: mult_less_cancel_right_pos)
    then have q2: "q = n2" by simp
    then have q1: "q0 = n1" using q' by simp
    define e where "e = B * B - d"
    have "e * (B + 1) < B * B" using False by (simp add: e_def algebra_simps)
    then have "e * B < B * B" using d B by (simp add: e_def algebra_simps)
    then have "e < B" using B by (simp only: mult_less_cancel_right_pos)
    have "n2 * B < B * B" using n(2,6) d(2) by linarith
    then have "n2 < B" using B by (simp only: mult_less_cancel_right_pos)
    then have "n2 * e \<le> (B - 1) * e" using d by (intro mult_right_mono) (simp_all add: e_def)
    moreover have "B * e \<le> B * (B - 1)" using \<open>e < B\<close> B by (intro mult_left_mono) simp_all
    moreover have "r = n2 * e + q0 * B + n0 - (B * B - e)" by (simp add: r_def e_def q2 q1 algebra_simps)
    ultimately have "r < q0 * B" using n by (simp add: algebra_simps)
    then show ?thesis by simp
  qed
qed

lemma dd_ge: "c * limb_base \<le> dd h l \<longleftrightarrow> c \<le> uint h"
proof
  assume "c * limb_base \<le> dd h l"
  then have "limb_base * c < limb_base * (uint h + 1)"
    using uint_limb(2) [of l] by (simp add: dd_def algebra_simps)
  then have "c < uint h + 1" by (simp only: mult_less_cancel_left_pos [OF base_pos(1)])
  then show "c \<le> uint h" by simp
next
  assume "c \<le> uint h"
  then have "limb_base * c \<le> limb_base * uint h" by (intro mult_left_mono) simp_all
  moreover have "0 \<le> uint l" by (rule uint_limb(1))
  ultimately show "c * limb_base \<le> dd h l" unfolding dd_def by (simp only: mult.commute, linarith?)
qed

lemma dd_le: "d1 \<le> r1 \<and> (d1 < r1 \<or> d0 \<le> r0) \<longleftrightarrow> dd d1 d0 \<le> dd r1 r0"
proof -
  have less: "dd a b < dd c d" if "uint a < uint c" for a b c d
  proof -
    have "uint a * limb_base + uint b < uint c * limb_base" "0 \<le> uint d"
      by (rule two_limbs_less [OF that], rule uint_limb(1))
    then show ?thesis unfolding dd_def by (simp only: mult.commute, linarith?)
  qed
  consider "uint d1 < uint r1" | "d1 = r1" | "uint r1 < uint d1"
    by (metis linorder_less_linear word_uint_eqI)
  then show ?thesis
  proof cases
    case 1
    with less [OF 1, of d0 r0] show ?thesis by (simp add: limb_less_int)
  next
    case 2
    then show ?thesis by (simp add: limb_less_int dd_def)
  next
    case 3
    with less [OF 3, of r0 d0] show ?thesis by (simp add: limb_less_int)
  qed
qed

lemma udiv_qr_3by2_int:
  assumes norm: "limb_base * limb_base \<le> 2 * dd d1 d0" and less: "dd n2 n1 < dd d1 d0"
    and inv: "inverse_of (limb_base * limb_base * limb_base) (dd d1 d0) (uint di)"
    and res: "udiv_qr_3by2 n2 n1 n0 d1 d0 di = (q, r1, r0)"
  shows "dd n2 n1 * limb_base + uint n0 = uint q * dd d1 d0 + dd r1 r0 \<and> dd r1 r0 < dd d1 d0"
proof -
  define d where "d = dd d1 d0"
  define x where "x = uint di * uint n2 + uint n2 * limb_base + uint n1"
  define Q q0 where "Q = x div limb_base" and "q0 = x mod limb_base"
  have x: "Q * limb_base + q0 = x" by (simp add: Q_def q0_def)
  have q0: "0 \<le> q0" "q0 < limb_base" by (simp_all add: q0_def)
  obtain h0 l0 where m: "umul_ppmm n2 di = (h0, l0)" by fastforce
  obtain qh ql where a: "add_ssaaaa h0 l0 n2 n1 = (qh, ql)" by fastforce
  have "dd h0 l0 + dd n2 n1 = x"
    using umul_ppmm_int [OF m] unfolding dd_def by (simp add: x_def algebra_simps)
  then have "\<exists>k. dd qh ql = x + k * (limb_base * limb_base)" using add_ssaaaa_int [OF a] by simp
  from dd_parts [OF this] have ql: "uint ql = q0" and qh: "qh = of_int Q" by (simp_all add: q0_def Q_def)
  have n: "uint n2 * limb_base + uint n1 < d" using less by (simp add: d_def dd_def mult.commute)
  have v: "0 \<le> uint di" "(limb_base + uint di) * d = limb_base * limb_base * limb_base -
      (limb_base * limb_base * limb_base - (limb_base + uint di) * d)"
    "0 < limb_base * limb_base * limb_base - (limb_base + uint di) * d"
    "limb_base * limb_base * limb_base - (limb_base + uint di) * d \<le> d"
    using inv by (simp_all add: inverse_of_def d_def)
  have d: "0 < d" "d < limb_base * limb_base" using norm dd_range [of d1 d0] by (simp_all add: d_def)
  have Q: "uint qh = Q"
  proof (rule limb_int [OF qh])
    show "0 \<le> Q" by (simp add: Q_def x_def pos_imp_zdiv_nonneg_iff)
    have "x * limb_base \<le> (limb_base + uint di) * (uint n2 * limb_base + uint n1)"
      by (simp add: x_def algebra_simps)
    also have "\<dots> \<le> (limb_base + uint di) * d" using n by (intro mult_left_mono) simp_all
    also have "\<dots> < limb_base * limb_base * limb_base" using v(3) by simp
    finally have "x < limb_base * limb_base" by (simp only: mult_less_cancel_right_pos [OF base_pos(1)])
    then have "Q * limb_base < limb_base * limb_base" using x q0 by linarith
    then show "Q < limb_base" by (simp only: mult_less_cancel_right_pos [OF base_pos(1)])
  qed
  define t where "t = uint n2 * (limb_base * limb_base) + uint n1 * limb_base + uint n0 - (Q + 1) * d"
  note core = div_3by2_core [OF base_pos(1) d uint_limb(1) uint_limb uint_limb n v x [unfolded x_def] q0, of "n0", folded t_def]
  obtain a1 a0 where s1: "sub_ddmmss (n1 - d1 * qh) n0 d1 d0 = (a1, a0)" by fastforce
  obtain t1 t0 where m2: "umul_ppmm d0 qh = (t1, t0)" by fastforce
  obtain b1 b0 where s2: "sub_ddmmss a1 a0 t1 t0 = (b1, b0)" by fastforce
  have b: "\<exists>k. dd b1 b0 = t + k * (limb_base * limb_base)"
  proof -
    obtain i where i: "dd a1 a0 = dd (n1 - d1 * qh) n0 - dd d1 d0 + i * (limb_base * limb_base)"
      using sub_ddmmss_int [OF s1] by blast
    obtain j where j: "dd b1 b0 = dd a1 a0 - dd t1 t0 + j * (limb_base * limb_base)"
      using sub_ddmmss_int [OF s2] by blast
    have "n1 - d1 * qh = of_int (uint n1 - uint d1 * Q)" by (simp add: qh)
    then obtain k where k: "uint (n1 - d1 * qh) = uint n1 - uint d1 * Q + k * limb_base"
      using uint_of_int by metis
    have "dd b1 b0 = limb_base * (uint n1 - uint d1 * Q + k * limb_base) + uint n0 - d - uint d0 * Q +
        (i + j) * (limb_base * limb_base)"
      unfolding j i umul_ppmm_int [OF m2] dd_def [of "n1 - d1 * qh"] k Q d_def by (simp add: algebra_simps)
    also have "\<dots> = t + (i + j + k - uint n2) * (limb_base * limb_base)"
      by (simp add: t_def d_def dd_def algebra_simps)
    finally show ?thesis by blast
  qed
  obtain c1 c0 where s3: "add_ssaaaa b1 b0 (if ql \<le> b1 then d1 else 0) (if ql \<le> b1 then d0 else 0) = (c1, c0)" by fastforce
  have c: "\<exists>k. dd c1 c0 = dd b1 b0 + (if ql \<le> b1 then d else 0) + k * (limb_base * limb_base)"
    using add_ssaaaa_int [OF s3] by (simp add: d_def dd_def split: if_splits)
  obtain e1 e0 where s4: "sub_ddmmss c1 c0 d1 d0 = (e1, e0)" by fastforce
  have e: "\<exists>k. dd e1 e0 = dd c1 c0 - d + k * (limb_base * limb_base)"
    using sub_ddmmss_int [OF s4] by (simp add: d_def)
  have res': "(if dd d1 d0 \<le> dd c1 c0 then ((if ql \<le> b1 then qh else qh + 1) + 1, e1, e0)
      else (if ql \<le> b1 then qh else qh + 1, c1, c0)) = (q, r1, r0)"
    using res unfolding udiv_qr_3by2_def m a s1 m2 s2 Let_def prod.case mask_and s3 dd_le s4
    unfolding mask_minus by (cases "ql \<le> b1") (auto simp: s4 split: if_splits)
  have mask: "ql \<le> b1 \<longleftrightarrow> q0 * limb_base \<le> dd b1 b0" by (simp add: dd_ge limb_less_int ql)
  define n where "n = dd n2 n1 * limb_base + uint n0"
  have nt: "n = (Q + 1) * d + t" by (simp add: n_def t_def dd_def algebra_simps)
  have bound: "n < d * limb_base" "0 \<le> n"
  proof -
    have "(dd n2 n1 + 1) * limb_base \<le> d * limb_base" using less by (intro mult_right_mono) (simp_all add: d_def)
    then show "n < d * limb_base" using uint_limb(2) [of n0] by (simp add: n_def algebra_simps)
    show "0 \<le> n" using dd_range(1) [of n2 n1] by (simp add: n_def)
  qed
  have finish: "n = uint q * d + dd r1 r0 \<and> dd r1 r0 < d"
    if "q = of_int Q'" "dd r1 r0 = n - Q' * d" "n - Q' * d < d" for Q'
  proof -
    have "0 \<le> n - Q' * d" using that(2) dd_range(1) [of r1 r0] by simp
    then have "uint q = Q'" using quotient_limb [OF that(1) _ that(3) bound(2,1)] by simp
    then show ?thesis using that by simp
  qed
  have "n = uint q * d + dd r1 r0 \<and> dd r1 r0 < d"
  proof (cases "t < 0")
    case True
    have b': "dd b1 b0 = t + limb_base * limb_base"
    proof (rule dd_eqI)
      obtain k where "dd b1 b0 = t + k * (limb_base * limb_base)" using b by blast
      then show "\<exists>k. dd b1 b0 = t + limb_base * limb_base + k * (limb_base * limb_base)"
        by (intro exI [of _ "k - 1"]) (simp add: algebra_simps)
    qed (use core(1) True d in linarith)+
    then have up: "ql \<le> b1" using core(2) by (simp add: mask)
    have c': "dd c1 c0 = t + d"
    proof (rule dd_eqI)
      obtain k where "dd c1 c0 = dd b1 b0 + d + k * (limb_base * limb_base)" using c up by auto
      then show "\<exists>k. dd c1 c0 = t + d + k * (limb_base * limb_base)"
        by (intro exI [of _ "k + 1"]) (simp add: b' algebra_simps)
    qed (use core(1) True d in linarith)+
    have "(q, r1, r0) = (of_int Q, c1, c0)" using res' up c' True by (simp add: qh d_def)
    then show ?thesis using c' True by (intro finish [of Q]) (simp_all add: nt algebra_simps)
  next
    case False
    have small: "t < limb_base * limb_base"
    proof -
      have "q0 * limb_base \<le> limb_base * limb_base" using q0 by (intro mult_right_mono) simp_all
      then show ?thesis using core(3) d by linarith
    qed
    have b': "dd b1 b0 = t" by (rule dd_eqI [OF b]) (use False small in simp_all)
    show ?thesis
    proof (cases "q0 * limb_base \<le> t")
      case True
      then have up: "ql \<le> b1" by (simp add: mask b')
      have td: "t < limb_base * limb_base - d" using core(3) True by simp
      have c': "dd c1 c0 = t + d"
      proof (rule dd_eqI)
        show "\<exists>k. dd c1 c0 = t + d + k * (limb_base * limb_base)" using c up by (simp add: b')
      qed (use td False d in linarith)+
      have e': "dd e1 e0 = t"
      proof (rule dd_eqI)
        show "\<exists>k. dd e1 e0 = t + k * (limb_base * limb_base)" using e by (simp add: c')
      qed (use small False in linarith)+
      have "(q, r1, r0) = (of_int (Q + 1), e1, e0)" using res' up c' False by (simp add: qh d_def)
      then show ?thesis using e' td norm by (intro finish [of "Q + 1"]) (simp_all add: nt d_def)
    next
      case le: False
      then have up: "\<not> ql \<le> b1" by (simp add: mask b')
      have c': "dd c1 c0 = t"
        by (rule dd_eqI) (use c up False small in \<open>simp_all add: b'\<close>)
      show ?thesis
      proof (cases "d \<le> t")
        case True
        have e': "dd e1 e0 = t - d"
          by (rule dd_eqI) (use e True small d in \<open>simp_all add: c'\<close>)
        have "(q, r1, r0) = (of_int (Q + 2), e1, e0)"
          using res' up c' True by (simp add: qh d_def add.commute)
        then show ?thesis using e' small norm True
          by (intro finish [of "Q + 2"]) (simp_all add: nt d_def algebra_simps)
      next
        case False
        then have "(q, r1, r0) = (of_int (Q + 1), c1, c0)" using res' up c' by (simp add: qh d_def)
        then show ?thesis using c' False by (intro finish [of "Q + 1"]) (simp_all add: nt d_def)
      qed
    qed
  qed
  then show ?thesis by (simp only: n_def d_def)
qed

subsection \<open>The inverses\<close>

lemma half_core:
  fixes W d1 d0 n1 x :: int
  assumes "0 \<le> d0" "d0 < W" "W \<le> 2 * d1" and "0 \<le> n1" "n1 < d1 * W + d0" and "0 \<le> x" "x < W"
  defines "q \<equiv> n1 div d1" and "d \<equiv> d1 * W + d0"
  defines "y \<equiv> (n1 mod d1) * W + x" and "m \<equiv> n1 div d1 * d0"
  shows "n1 * W + x = q * d + (y - m)" and "0 \<le> y" and "y < d" and "y < d1 * W" and "0 \<le> m" and "m < W * W" and "m \<le> 2 * d" and "0 \<le> q"
proof -
  have W: "0 < W" and d1: "0 < d1" using assms(1-3) by linarith+
  have q: "q * d1 + n1 mod d1 = n1" "0 \<le> n1 mod d1" "n1 mod d1 < d1" using d1 by (simp_all add: q_def)
  show q0: "0 \<le> q" using d1 assms(4) by (simp add: q_def pos_imp_zdiv_nonneg_iff)
  have "n1 * W + x = q * d1 * W + y" unfolding y_def using q(1) by (metis add.assoc distrib_right)
  then show "n1 * W + x = q * d + (y - m)" by (simp add: d_def m_def q_def algebra_simps)
  show y0: "0 \<le> y" using q(2) W assms(6) by (simp add: y_def)
  have "(n1 mod d1 + 1) * W \<le> d1 * W" using q(3) W by (intro mult_right_mono) simp_all
  then show yd: "y < d1 * W" using assms(7) by (simp add: y_def algebra_simps)
  then show "y < d" using assms(1) by (simp add: d_def)
  have "q * d1 < (W + 2) * d1" using q assms(2,3,5) by (simp add: algebra_simps)
  then have "q \<le> W + 1" using d1 by (simp only: mult_less_cancel_right_pos, linarith?)
  then have "m \<le> (W + 1) * (W - 1)" unfolding m_def q_def [symmetric] using assms(1,2) q0 W by (intro mult_mono) simp_all
  then show mW: "m < W * W" by (simp add: algebra_simps)
  show "0 \<le> m" unfolding m_def q_def [symmetric] using q0 assms(1) by simp
  have "W * W \<le> 2 * d1 * W" using assms(3) W by (intro mult_right_mono) simp_all
  then show "m \<le> 2 * d" using mW assms(1) by (simp add: d_def algebra_simps)
qed

lemma limb_parts_int:
  "uint (ll_lowpart t) = uint t mod 2 ^ 32" "uint (ll_highpart t) = uint t div 2 ^ 32"
  by (simp_all only: uint_nat unat_parts zmod_int zdiv_int of_nat_power of_nat_numeral)

lemma limb_halves:
  "0 \<le> uint (ll_lowpart t)" "uint (ll_lowpart t) < 2 ^ 32" "0 \<le> uint (ll_highpart t)" "uint (ll_highpart t) < 2 ^ 32"
  "uint t = uint (ll_highpart t) * 2 ^ 32 + uint (ll_lowpart t)"
proof -
  have "unat t < 2 ^ 32 * 2 ^ 32" using unat_limb_less [of t] by simp
  then have "int (unat t div 2 ^ 32) < int (2 ^ 32)" by (simp only: of_nat_less_iff less_mult_imp_div_less)
  then have "uint t div 2 ^ 32 < 2 ^ 32" by (simp only: uint_nat zdiv_int of_nat_power of_nat_numeral)
  then show "uint (ll_highpart t) < 2 ^ 32" by (simp only: limb_parts_int)
qed (rule uint_limb(1) | simp add: limb_parts_int)+

lemma limb_small: "uint (x :: limb) < 2 ^ 32 \<longleftrightarrow> unat x < 2 ^ 32"
  by (simp only: uint_nat) (metis of_nat_less_iff of_nat_numeral of_nat_power)

lemma uint_or_high:
  assumes "uint low < 2 ^ 32" and "uint h < 2 ^ 32"
  shows "uint (h * ll_B OR low) = uint h * 2 ^ 32 + uint low"
proof -
  have "h * ll_B = push_bit 32 h" unfolding ll_B_def push_bit_eq_mult by simp
  moreover have "unat low < 2 ^ 32" "unat h < 2 ^ 32" using assms by (simp_all only: limb_small)
  ultimately have "unat (h * ll_B OR low) = unat low + unat h * 2 ^ 32"
    using limb_or_push [of low 32 h] by (simp add: or.commute)
  then have "int (unat (h * ll_B OR low)) = int (unat h) * 2 ^ 32 + int (unat low)" by simp
  then show ?thesis by (simp only: uint_nat)
qed

lemma udiv_half_int:
  assumes norm: "limb_base \<le> 2 * uint d" and less: "uint n1 < uint d" and low: "uint low < 2 ^ 32"
    and res: "udiv_half d n1 low = (q, r)"
  shows "uint n1 * 2 ^ 32 + uint low = uint q * uint d + uint r" and "uint r < uint d"
proof -
  define W :: int where "W = 2 ^ 32"
  define d1 d0 where "d1 = uint (ll_highpart d)" and "d0 = uint (ll_lowpart d)"
  have B: "limb_base = W * W" by (simp add: limb_base_def W_def)
  have d: "uint d = d1 * W + d0" using limb_halves(5) [of d] by (simp add: d1_def d0_def W_def)
  have dp: "0 \<le> d0" "d0 < W" using limb_halves(1,2) [of d] by (simp_all add: d0_def W_def)
  have "W * W < 2 * (d1 + 1) * W" using norm dp by (simp add: d B algebra_simps)
  then have "W < 2 * (d1 + 1)" using dp by (simp only: mult_less_cancel_right_pos)
  then have "W \<le> 2 * d1" by (simp add: W_def)
  define Q y m where "Q = uint n1 div d1" and "y = (uint n1 mod d1) * W + uint low" and "m = uint n1 div d1 * d0"
  note core = half_core [OF dp \<open>W \<le> 2 * d1\<close> uint_limb(1) less [unfolded d] uint_limb(1) low [folded W_def],
    folded Q_def y_def m_def d]
  define r0 where "r0 = (n1 - n1 div ll_highpart d * ll_highpart d) * ll_B OR low"
  define mw where "mw = n1 div ll_highpart d * ll_lowpart d"
  have Qw: "n1 div ll_highpart d = of_int Q"
    by (metis Q_def d1_def uint_div word_of_int_uint)
  have q0: "Q * d1 + uint n1 mod d1 = uint n1" by (simp add: Q_def)
  define rr where "rr = n1 - n1 div ll_highpart d * ll_highpart d"
  have "uint n1 mod d1 = uint n1 - Q * d1" using q0 by simp
  then have rr: "rr = of_int (uint n1 mod d1)" by (simp add: rr_def Qw d1_def)
  have d1: "0 < d1" "d1 < W" using \<open>W \<le> 2 * d1\<close> limb_halves(4) [of d] by (simp_all add: d1_def W_def)
  have mod: "0 \<le> uint n1 mod d1" "uint n1 mod d1 < d1" using d1 by simp_all
  have "d1 < limb_base" using d1 by (simp add: limb_base_def W_def)
  then have ur: "uint rr = uint n1 mod d1" by (intro limb_int [OF rr mod(1)] order.strict_trans [OF mod(2)])
  have "uint rr < 2 ^ 32" unfolding ur using order.strict_trans [OF mod(2) d1(2)] by (simp only: W_def)
  then have r0: "uint r0 = y"
    unfolding r0_def y_def W_def rr_def [symmetric] by (simp only: uint_or_high [OF low] ur)
  have mw: "uint mw = m"
    by (rule limb_int) (use core in \<open>simp_all add: mw_def Qw m_def d0_def B Q_def\<close>)
  have res': "(if mw \<le> r0 then (of_int Q, r0) else if \<not> (d \<le> r0 + d \<and> r0 + d < mw) then (of_int (Q - 1), r0 + d)
      else (of_int (Q - 2), r0 + d + d)) = (q, r + mw)"
    using res unfolding udiv_half_def Let_def r0_def [symmetric] mw_def [symmetric]
    unfolding Qw by (auto split: if_splits)
  define n where "n = uint n1 * 2 ^ 32 + uint low"
  have n: "n = Q * uint d + (y - m)" using core(1) by (simp add: n_def W_def d)
  have bound: "0 \<le> n" "n < uint d * limb_base"
  proof -
    show "0 \<le> n" using uint_limb(1) [of n1] uint_limb(1) [of low] by (simp add: n_def)
    have "(uint n1 + 1) * 2 ^ 32 \<le> uint d * 2 ^ 32" using less by (intro mult_right_mono) simp_all
    also have "\<dots> \<le> uint d * limb_base" by (intro mult_left_mono) (simp_all add: limb_base_def)
    finally show "n < uint d * limb_base" using low by (simp add: n_def algebra_simps)
  qed
  have finish: "n = uint q * uint d + uint r \<and> uint r < uint d"
    if "q = of_int Q'" "r = of_int (n - Q' * uint d)" "0 \<le> n - Q' * uint d" "n - Q' * uint d < uint d" for Q'
  proof -
    have "uint r = n - Q' * uint d"
      using limb_int [OF that(2,3)] that(4) uint_limb(2) [of d] by linarith
    then show ?thesis using that bound by (intro quotient_word) simp_all
  qed
  have rw: "r0 = of_int y" "mw = of_int m" using r0 mw by (metis word_of_int_uint)+
  have "n = uint q * uint d + uint r \<and> uint r < uint d"
  proof (cases "m \<le> y")
    case True
    then have "(q, r + mw) = (of_int Q, r0)" using res' by (simp add: limb_less_int r0 mw)
    then have "q = of_int Q" "r = r0 - mw" by (auto simp: eq_diff_eq)
    moreover have "n - Q * uint d = y - m" by (simp add: n)
    ultimately show ?thesis using True core(3,5) by (intro finish [of Q]) (simp_all add: rw d)
  next
    case False
    then have gt: "\<not> mw \<le> r0" by (simp add: limb_less_int r0 mw)
    have rd: "r0 + d = of_int (y + uint d)" by (simp add: rw)
    show ?thesis
    proof (cases "m \<le> y + uint d")
      case True
      have stop: "\<not> (d \<le> r0 + d \<and> r0 + d < mw)"
      proof (cases "y + uint d < limb_base")
        case t: True
        have "uint (r0 + d) = y + uint d" by (rule limb_int [OF rd]) (use core(2) uint_limb(1) [of d] t in auto)
        then show ?thesis using True by (simp add: limb_less_int mw)
      next
        case f: False
        have "uint (r0 + d) = y + uint d - limb_base"
          by (rule limb_int) (use core(3) f d uint_limb(2) [of d] False core(6) in \<open>auto simp: rd of_int_base\<close>)
        then show ?thesis using core(3) uint_limb(2) [of d] by (simp add: limb_less_int)
      qed
      then have "q = of_int (Q - 1)" "r = r0 + d - mw" using res' gt by (auto simp: eq_diff_eq)
      moreover have "n - (Q - 1) * uint d = y + uint d - m" by (simp add: n algebra_simps)
      ultimately show ?thesis using True False by (intro finish [of "Q - 1"]) (simp_all add: rw)
    next
      case neg: False
      have "uint (r0 + d) = y + uint d"
        by (rule limb_int [OF rd]) (use core(2,6) uint_limb(1) [of d] neg in \<open>auto simp: B\<close>)
      then have "d \<le> r0 + d \<and> r0 + d < mw" using neg core(2) by (simp add: limb_less_int mw)
      then have "q = of_int (Q - 2)" "r = r0 + d + d - mw" using res' gt by (auto simp: eq_diff_eq)
      moreover have "n - (Q - 2) * uint d = y + uint d + uint d - m" by (simp add: n algebra_simps)
      ultimately show ?thesis using neg core(2,7) by (intro finish [of "Q - 2"]) (simp_all add: rw)
    qed
  qed
  then show "uint n1 * 2 ^ 32 + uint low = uint q * uint d + uint r" "uint r < uint d" by (simp_all add: n_def)
qed

lemma digit_less:
  fixes a b q d r W :: int
  assumes "a * W + b = q * d + r" and "a < d" and "b < W" and "0 \<le> r" and "0 \<le> a" and "0 \<le> b"
  shows "q < W"
proof -
  have "(a + 1) * W \<le> d * W" using assms(2,3,6) by (intro mult_right_mono) simp_all
  then have "q * d < W * d" using assms(1,3,4) by (simp add: algebra_simps)
  then show ?thesis using assms(2,5) by (simp only: mult_less_cancel_right_pos)
qed

lemma udiv_qrnnd_int:
  assumes norm: "limb_base \<le> 2 * uint d" and less: "uint n1 < uint d" and res: "udiv_qrnnd n1 n0 d = (q, r)"
  shows "uint n1 * limb_base + uint n0 = uint q * uint d + uint r \<and> uint r < uint d"
proof -
  obtain q1 r1 where h1: "udiv_half d n1 (ll_highpart n0) = (q1, r1)" by fastforce
  obtain q0 r0 where h0: "udiv_half d r1 (ll_lowpart n0) = (q0, r0)" by fastforce
  have half: "uint (ll_highpart n0) < 2 ^ 32" "uint (ll_lowpart n0) < 2 ^ 32"
    "uint n0 = uint (ll_highpart n0) * 2 ^ 32 + uint (ll_lowpart n0)"
    by (rule limb_halves)+
  note s1 = udiv_half_int [OF norm less half(1) h1]
  note s0 = udiv_half_int [OF norm s1(2) half(2) h0]
  have B: "limb_base = 2 ^ 32 * 2 ^ 32" by (simp add: limb_base_def)
  have qs: "uint q1 < 2 ^ 32" "uint q0 < 2 ^ 32"
    by (rule digit_less [OF s1(1) less half(1) uint_limb(1) uint_limb(1) uint_limb(1)], rule digit_less [OF s0(1) s1(2) half(2) uint_limb(1) uint_limb(1) uint_limb(1)])
  have "q = q1 * ll_B OR q0" "r = r0" using res h1 h0 by (simp_all add: udiv_qrnnd_def)
  then have "uint q = uint q1 * 2 ^ 32 + uint q0" using uint_or_high [OF qs(2,1)] by simp
  then show ?thesis using s1 s0 half(3) \<open>r = r0\<close> by (simp add: B algebra_simps)
qed

definition is_inverse :: "limb \<Rightarrow> limb \<Rightarrow> bool" where
  "is_inverse d di \<longleftrightarrow> inverse_of (limb_base * limb_base) (uint d) (uint di)"

lemma invert_limb_int:
  assumes "limb_base \<le> 2 * uint d"
  shows "is_inverse d (invert_limb d)"
proof -
  obtain q r where qr: "udiv_qrnnd (NOT d) (NOT 0) d = (q, r)" by fastforce
  have not: "uint (NOT x) = limb_base - 1 - uint x" for x :: limb
  proof (rule limb_int)
    show "NOT x = of_int (limb_base - 1 - uint x)" by (simp add: of_int_base not_eq_complement)
  qed (use uint_limb [of x] in linarith)+
  have "uint (NOT d) < uint d" using assms by (simp add: not)
  from udiv_qrnnd_int [OF assms this qr]
  have "(limb_base - 1 - uint d) * limb_base + (limb_base - 1) = uint q * uint d + uint r" "uint r < uint d"
    unfolding not by simp_all
  moreover have "0 \<le> uint r" by (rule uint_limb(1))
  ultimately show ?thesis
    unfolding is_inverse_def inverse_of_def invert_limb_def qr fst_conv by (simp only: algebra_simps) linarith
qed

lemma inverse_range:
  fixes B V d :: int
  assumes "0 < B" and "0 < d" and "d < B * B" and "B * B \<le> 2 * d" and "B * B * B - d \<le> (B + V) * d" and "(B + V) * d < B * B * B"
  shows "0 \<le> V" and "V < B"
proof -
  have "B * d < B * (B * B)" using assms(1,3) by (intro mult_strict_left_mono) simp_all
  also have "\<dots> \<le> (B + V + 1) * d" using assms(5) by (simp add: algebra_simps)
  finally have "B < B + V + 1" using assms(2) by (simp only: mult_less_cancel_right_pos)
  then show "0 \<le> V" by simp
  have "B * (B * B) \<le> B * (2 * d)" using assms(1,4) by (intro mult_left_mono) simp_all
  then have "(B + V) * d < (2 * B) * d" using assms(6) by (simp add: algebra_simps)
  then have "B + V < 2 * B" using assms(2) by (simp only: mult_less_cancel_right_pos)
  then show "V < B" by simp
qed

lemma inverse_of_word:
  assumes "v = of_int V" and "0 < d" "d < limb_base * limb_base" "limb_base * limb_base \<le> 2 * d"
    and "limb_base * limb_base * limb_base - d \<le> (limb_base + V) * d"
    and "(limb_base + V) * d < limb_base * limb_base * limb_base"
  shows "inverse_of (limb_base * limb_base * limb_base) d (uint (v :: limb))"
proof -
  have "uint v = V" by (rule limb_int [OF assms(1) inverse_range [OF base_pos(1) assms(2-6)]])
  then show ?thesis using assms(5,6) by (simp add: inverse_of_def)
qed

text \<open>The first part of \<open>invert_pi1\<close>: from the inverse of \<open>d1\<close> to the one of \<open>d1\<close> followed by any limb.\<close>

lemma invert_first:
  fixes d1 d0 :: limb
  assumes norm: "limb_base \<le> 2 * uint d1"
  defines "v0 \<equiv> invert_limb d1"
  defines "p1 \<equiv> d1 * v0 + d0"
  defines "v \<equiv> (if p1 < d0 then v0 - 1 + - limb_of (d1 \<le> p1) else v0)"
    and "p \<equiv> (if p1 < d0 then p1 - d1 - (- limb_of (d1 \<le> p1) AND d1) else p1)"
  shows "(limb_base + uint v) * uint d1 + uint d0 = limb_base * limb_base - limb_base + uint p"
    and "limb_base - uint d1 \<le> uint p"
proof -
  define B where "B = limb_base"
  have d1: "0 < uint d1" "uint d1 < B" "B \<le> 2 * uint d1" using norm uint_limb(2) [of d1] base_pos(1) unfolding B_def by linarith+
  have d0: "0 \<le> uint d0" "uint d0 < B" using uint_limb [of d0] by (simp_all add: B_def)
  have inv: "B * B - uint d1 \<le> (B + uint v0) * uint d1" "(B + uint v0) * uint d1 < B * B"
    using invert_limb_int [OF norm] by (simp_all add: v0_def is_inverse_def inverse_of_def B_def)
  define P0 where "P0 = (B + uint v0) * uint d1 - B * B + B"
  have P0: "B - uint d1 \<le> P0" "P0 < B" using inv by (simp_all add: P0_def)
  have p0: "uint (d1 * v0) = P0"
  proof (rule limb_int)
    show "d1 * v0 = of_int P0" by (simp add: P0_def B_def of_int_base mult.commute)
  qed (use P0 d1 in \<open>simp_all add: B_def\<close>)
  have p1: "uint p1 = P0 + uint d0 - B * of_bool (p1 < d0)"
    using uint_limb_add [of d0 "d1 * v0"] by (simp add: p1_def p0 B_def add.commute)
  obtain V P where V: "v = of_int V" "p = of_int P" "(B + V) * uint d1 + uint d0 = B * B - B + P"
    "B - uint d1 \<le> P" "P < B"
  proof (cases "p1 < d0")
    case False
    then have p: "uint p1 = P0 + uint d0" using p1 by simp
    show thesis
    proof (rule that [of "uint v0" "uint p1"])
      show "B - uint d1 \<le> uint p1" using p P0 d0 by linarith
      show "uint p1 < B" using uint_limb(2) by (simp add: B_def)
      show "(B + uint v0) * uint d1 + uint d0 = B * B - B + uint p1" by (simp add: p P0_def)
    qed (use False in \<open>simp_all add: v_def p_def\<close>)
  next
    case True
    then have p: "uint p1 = P0 + uint d0 - B" using p1 by simp
    have pd: "uint p1 < uint d0" using True by (simp only: limb_less_int)
    show thesis
    proof (cases "d1 \<le> p1")
      case ge: True
      then have "uint d1 \<le> uint p1" by (simp add: limb_less_int)
      show thesis
      proof (rule that [of "uint v0 - 2" "uint p1 + B - 2 * uint d1"])
        show "(B + (uint v0 - 2)) * uint d1 + uint d0 = B * B - B + (uint p1 + B - 2 * uint d1)"
          by (simp add: p P0_def algebra_simps)
        show "B - uint d1 \<le> uint p1 + B - 2 * uint d1" using \<open>uint d1 \<le> uint p1\<close> by simp
        show "uint p1 + B - 2 * uint d1 < B" using pd d0 d1 by linarith
      qed (use True ge in \<open>simp_all add: v_def p_def mask_and mask_minus B_def of_int_base\<close>)
    next
      case less: False
      then have "uint p1 < uint d1" by (simp add: limb_less_int)
      show thesis
      proof (rule that [of "uint v0 - 1" "uint p1 + B - uint d1"])
        show "(B + (uint v0 - 1)) * uint d1 + uint d0 = B * B - B + (uint p1 + B - uint d1)"
          by (simp add: p P0_def algebra_simps)
        show "B - uint d1 \<le> uint p1 + B - uint d1" using uint_limb(1) [of p1] by simp
        show "uint p1 + B - uint d1 < B" using \<open>uint p1 < uint d1\<close> by simp
      qed (use True less in \<open>simp_all add: v_def p_def mask_and mask_minus B_def of_int_base\<close>)
    qed
  qed
  have p: "uint p = P" by (rule limb_int [OF V(2)]) (use V d1 in \<open>simp_all add: B_def\<close>)
  have "uint v = V"
  proof (rule limb_int [OF V(1)])
    have "B * (uint d1 + 1) \<le> B * B" using d1 by (intro mult_left_mono) simp_all
    then have "(B - 1) * uint d1 < (B + V) * uint d1" using V(3,4) d0 by (simp add: algebra_simps)
    then have "B - 1 < B + V" using d1 by (simp only: mult_less_cancel_right_pos)
    then show "0 \<le> V" by simp
    have "(B + V) * uint d1 < B * B" using V(3,5) d0 by linarith
    also have "B * B \<le> B * (2 * uint d1)" using d1 by (intro mult_left_mono) simp_all
    finally have "(B + V) * uint d1 < (2 * B) * uint d1" by (simp only: ac_simps)
    then have "B + V < 2 * B" using d1 by (simp only: mult_less_cancel_right_pos)
    then show "V < limb_base" by (simp add: B_def)
  qed
  with p V show "(limb_base + uint v) * uint d1 + uint d0 = limb_base * limb_base - limb_base + uint p"
    "limb_base - uint d1 \<le> uint p" by (simp_all add: B_def)
qed

lemma invert_pi1_int:
  assumes norm: "limb_base \<le> 2 * uint d1"
  shows "inverse_of (limb_base * limb_base * limb_base) (dd d1 d0) (uint (invert_pi1 d1 d0))"
proof -
  define v0 where "v0 = invert_limb d1"
  define p1 where "p1 = d1 * v0 + d0"
  define v where "v = (if p1 < d0 then v0 - 1 + - limb_of (d1 \<le> p1) else v0)"
  define p where "p = (if p1 < d0 then p1 - d1 - (- limb_of (d1 \<le> p1) AND d1) else p1)"
  note first = invert_first [OF norm, of d0, folded v0_def, folded p1_def, folded v_def p_def]
  obtain t1 t0 where t: "umul_ppmm d0 v = (t1, t0)" by fastforce
  have res: "invert_pi1 d1 d0 = (if p + t1 < t1 then if dd d1 d0 \<le> dd (p + t1) t0 then v - 1 - 1 else v - 1 else v)"
  proof -
    have "(if p1 < d0 then (v0 - 1 + - limb_of (d1 \<le> p1), p1 - d1 - (- limb_of (d1 \<le> p1) AND d1)) else (v0, p1)) = (v, p)"
      by (simp add: v_def p_def)
    then show ?thesis
      unfolding invert_pi1_def Let_def v0_def [symmetric] p1_def [symmetric] dd_le by (simp only: prod.case t)
  qed
  define B where "B = limb_base"
  define d where "d = dd d1 d0"
  have d: "d = B * uint d1 + uint d0" by (simp add: d_def dd_def B_def)
  have tt: "B * uint t1 + uint t0 = uint d0 * uint v" using umul_ppmm_int [OF t] by (simp add: dd_def B_def)
  have val: "(B + uint v) * d = B * B * B - B * B + (uint p + uint t1) * B + uint t0"
  proof -
    have "(B + uint v) * d = B * ((B + uint v) * uint d1 + uint d0) + uint d0 * uint v"
      by (simp add: d algebra_simps)
    also have "\<dots> = B * (B * B - B + uint p) + (B * uint t1 + uint t0)"
      unfolding tt using first(1) by (simp add: B_def)
    finally show ?thesis by (simp add: algebra_simps)
  qed
  have dr: "0 < d" "d < B * B" "B * B \<le> 2 * d"
  proof -
    have "B * B \<le> B * (2 * uint d1)" using norm by (intro mult_left_mono) (simp_all add: B_def)
    moreover have "2 * d = B * (2 * uint d1) + 2 * uint d0" by (simp add: d algebra_simps)
    moreover have "0 \<le> uint d0" by (rule uint_limb(1))
    ultimately show "B * B \<le> 2 * d" by linarith
    moreover have "0 < B * B" by (simp add: B_def)
    ultimately show "0 < d" by linarith
    show "d < B * B" unfolding d_def B_def by (rule dd_range)
  qed
  have d1: "B - uint d1 \<le> uint p" using first(2) by (simp add: B_def)
  have lim: "0 \<le> uint t0" "uint t0 < B" "0 \<le> uint d0" "uint p < B" "0 \<le> uint t1" using uint_limb by (simp_all add: B_def)
  note inv = inverse_of_word [OF _ dr [unfolded B_def], folded B_def]
  have "inverse_of (B * B * B) d (uint (invert_pi1 d1 d0))"
  proof (cases "p + t1 < t1")
    case False
    then have nc: "uint p + uint t1 < B"
      using uint_limb_add [of t1 p] uint_limb(2) [of "p + t1"] by (simp add: B_def add.commute)
    have r: "invert_pi1 d1 d0 = of_int (uint v)" using res False by simp
    show ?thesis
    proof (rule inv [OF r])
      have B0: "0 \<le> B" by (simp add: B_def)
      have "B - uint d1 \<le> uint p + uint t1" using d1 lim by linarith
      from mult_right_mono [OF this B0] show "B * B * B - d \<le> (B + uint v) * d"
        unfolding val unfolding d using lim by (simp only: algebra_simps)
      have "uint p + uint t1 \<le> B - 1" using nc by simp
      from mult_right_mono [OF this B0] show "(B + uint v) * d < B * B * B"
        unfolding val using lim by (simp only: algebra_simps, linarith?)
    qed
  next
    case True
    then have p2: "uint (p + t1) = uint p + uint t1 - B" using uint_limb_add [of t1 p] by (simp add: B_def add.commute)
    have val': "(B + uint v) * d = B * B * B + dd (p + t1) t0"
      unfolding val unfolding dd_def p2 B_def by (simp add: algebra_simps)
    have dd: "0 \<le> dd (p + t1) t0" "dd (p + t1) t0 < B * B" by (simp_all add: dd_range B_def)
    show ?thesis
    proof (cases "d \<le> dd (p + t1) t0")
      case ge: True
      have r: "invert_pi1 d1 d0 = of_int (uint v - 2)" using res True ge by (simp add: d_def)
      show ?thesis
      proof (rule inv [OF r])
        have "(B + (uint v - 2)) * d = B * B * B + dd (p + t1) t0 - 2 * d" using val' by (simp add: algebra_simps)
        then show "B * B * B - d \<le> (B + (uint v - 2)) * d" "(B + (uint v - 2)) * d < B * B * B"
          using ge dd dr by simp_all
      qed
    next
      case less: False
      have r: "invert_pi1 d1 d0 = of_int (uint v - 1)" using res True less by (simp add: d_def)
      show ?thesis
      proof (rule inv [OF r])
        have "(B + (uint v - 1)) * d = B * B * B + dd (p + t1) t0 - d" using val' by (simp add: algebra_simps)
        then show "B * B * B - d \<le> (B + (uint v - 1)) * d" "(B + (uint v - 1)) * d < B * B * B"
          using less dd by simp_all
      qed
    qed
  qed
  then show ?thesis by (simp only: d_def B_def)
qed

subsection \<open>The values of the limbs\<close>

definition is_inverse_2 :: "limb \<Rightarrow> limb \<Rightarrow> limb \<Rightarrow> bool" where
  "is_inverse_2 d1 d0 di \<longleftrightarrow> inverse_of (limb_base * limb_base * limb_base) (dd d1 d0) (uint di)"

lemma dd_limbs: "dd h l = int (limbs_val [l, h])"
  by (simp add: dd_def limb_base_def)

lemma limb_norm: "2 ^ 63 \<le> unat (d :: limb) \<longleftrightarrow> limb_base \<le> 2 * uint d"
  by (simp add: limb_base_def uint_nat del: of_nat_unat)

lemma dd_norm: "2 ^ 63 \<le> unat d1 \<Longrightarrow> limb_base * limb_base \<le> 2 * dd d1 d0"
proof -
  assume "2 ^ 63 \<le> unat d1"
  then have "limb_base * limb_base \<le> limb_base * (2 * uint d1)" by (intro mult_left_mono) (simp_all only: limb_norm base_pos)
  moreover have "2 * dd d1 d0 = limb_base * (2 * uint d1) + 2 * uint d0" by (simp add: dd_def algebra_simps)
  moreover have "0 \<le> uint d0" by (rule uint_limb(1))
  ultimately show ?thesis by linarith
qed

lemma invert_limb_val: "2 ^ 63 \<le> unat d \<Longrightarrow> is_inverse d (invert_limb d)"
  by (rule invert_limb_int) (simp only: limb_norm)

lemma invert_pi1_val: "2 ^ 63 \<le> unat d1 \<Longrightarrow> is_inverse_2 d1 d0 (invert_pi1 d1 d0)"
  unfolding is_inverse_2_def by (rule invert_pi1_int) (simp only: limb_norm)

lemma uint_less_unat: "uint (x :: limb) < uint (y :: limb) \<longleftrightarrow> unat x < unat y"
  using limb_less_int(1) [of x y] word_less_nat_alt [of x y] by blast

lemma to_unat:
  fixes a b q d r :: limb
  shows "uint a * limb_base + uint b = uint q * uint d + uint r \<and> uint r < uint d \<longleftrightarrow>
   2 ^ 64 * unat a + unat b = unat q * unat d + unat r \<and> unat r < unat d"
proof -
  have "uint a * limb_base + uint b = uint q * uint d + uint r \<longleftrightarrow>
      int (2 ^ 64 * unat a + unat b) = int (unat q * unat d + unat r)"
    by (simp add: limb_base_def mult.commute)
  then show ?thesis by (simp only: of_nat_eq_iff uint_less_unat)
qed

lemma udiv_qrnnd_val:
  assumes "2 ^ 63 \<le> unat d" and "unat nh < unat d" and "udiv_qrnnd nh nl d = (q, r)"
  shows "2 ^ 64 * unat nh + unat nl = unat q * unat d + unat r \<and> unat r < unat d"
  unfolding to_unat [symmetric]
  using assms by (intro udiv_qrnnd_int) (simp_all only: limb_norm uint_less_unat)

lemma udiv_qrnnd_preinv_val:
  assumes "2 ^ 63 \<le> unat d" and "unat nh < unat d" and "is_inverse d di" and "udiv_qrnnd_preinv nh nl d di = (q, r)"
  shows "2 ^ 64 * unat nh + unat nl = unat q * unat d + unat r \<and> unat r < unat d"
  unfolding to_unat [symmetric]
  using assms by (intro udiv_qrnnd_preinv_int) (simp_all only: limb_norm is_inverse_def uint_less_unat)

lemma udiv_qrnnd_preinv_0_val:
  assumes "2 ^ 63 \<le> unat d" and "unat nh < unat d" and "is_inverse d di" and "udiv_qrnnd_preinv_0 nh d di = (q, r)"
  shows "2 ^ 64 * unat nh = unat q * unat d + unat r \<and> unat r < unat d"
proof -
  have "uint nh * limb_base = uint q * uint d + uint r \<and> uint r < uint d"
    using assms by (intro udiv_qrnnd_preinv_0_int)
      (simp_all only: limb_norm is_inverse_def uint_less_unat)
  then show ?thesis using to_unat [of nh 0 q d r] by simp
qed

lemma udiv_qr_3by2_val:
  assumes "2 ^ 63 \<le> unat d1" and "limbs_val [n1, n2] < limbs_val [d0, d1]" and "is_inverse_2 d1 d0 di"
    and "udiv_qr_3by2 n2 n1 n0 d1 d0 di = (q, r1, r0)"
  shows "limbs_val [n0, n1, n2] = unat q * limbs_val [d0, d1] + limbs_val [r0, r1]"
    and "limbs_val [r0, r1] < limbs_val [d0, d1]"
proof -
  have "dd n2 n1 < dd d1 d0" using assms(2) by (simp only: dd_limbs of_nat_less_iff)
  from udiv_qr_3by2_int [OF dd_norm [OF assms(1)] this assms(3) [unfolded is_inverse_2_def] assms(4)]
  have "int (2 ^ 64 * limbs_val [n1, n2] + unat n0) = int (unat q * limbs_val [d0, d1] + limbs_val [r0, r1])"
    "int (limbs_val [r0, r1]) < int (limbs_val [d0, d1])"
    unfolding dd_limbs by (simp_all add: limb_base_def mult.commute)
  then show "limbs_val [n0, n1, n2] = unat q * limbs_val [d0, d1] + limbs_val [r0, r1]"
    "limbs_val [r0, r1] < limbs_val [d0, d1]" by (simp_all only: of_nat_eq_iff of_nat_less_iff) simp
qed

end
