(* ===== verification/Gmp_Div.thy ===== *)
theory Gmp_Div
  imports Gmp_Udiv
begin

unbundle bit_operations_syntax

text \<open>
  Division of limbs (\<open>gmp-6.2.1/mpn/generic\<close>): \<open>mpn_divrem_1\<close>, \<open>mpn_divrem_2\<close> and the schoolbook division
  \<open>mpn_sbpi1_div_qr\<close>. The loops go from the most significant limb, so they take the limbs reversed; the
  schoolbook division works on its array \<open>np\<close> by indices, as the code does, with \<open>np\<close> an offset. The
  thresholds of \<open>mpn_divrem_1\<close> have their defaults, with which it always multiplies by the inverse.
\<close>

subsection \<open>Counting zeros\<close>

definition clz_tab :: "nat list" where
  "clz_tab =
    [1,2,3,3,4,4,4,4,5,5,5,5,5,5,5,5,6,6,6,6,6,6,6,6,6,6,6,6,6,6,6,6,
     7,7,7,7,7,7,7,7,7,7,7,7,7,7,7,7,7,7,7,7,7,7,7,7,7,7,7,7,7,7,7,7,
     8,8,8,8,8,8,8,8,8,8,8,8,8,8,8,8,8,8,8,8,8,8,8,8,8,8,8,8,8,8,8,8,
     8,8,8,8,8,8,8,8,8,8,8,8,8,8,8,8,8,8,8,8,8,8,8,8,8,8,8,8,8,8,8,8,
     9]"

fun clz_loop :: "limb \<Rightarrow> nat \<Rightarrow> nat" where
  "clz_loop xr a = (if 0 < a \<and> drop_bit a xr AND 0xff = 0 then clz_loop xr (a - 8) else a)"

declare clz_loop.simps [simp del]

definition count_leading_zeros :: "limb \<Rightarrow> nat" where
  "count_leading_zeros x = (let a = clz_loop x 56 + 1 in 65 - a - clz_tab ! unat (drop_bit a x))"

subsection \<open>One limb\<close>

fun divrem_loop :: "limb \<Rightarrow> limb \<Rightarrow> limb \<Rightarrow> limbs \<Rightarrow> limbs \<times> limb" where
  "divrem_loop d dinv r [] = ([], r)"
| "divrem_loop d dinv r (n0 # up) =
     (let (q, r) = udiv_qrnnd_preinv r n0 d dinv; (qp, r) = divrem_loop d dinv r up in (q # qp, r))"

fun divrem_shift_loop :: "limb \<Rightarrow> limb \<Rightarrow> nat \<Rightarrow> limb \<Rightarrow> limb \<Rightarrow> limbs \<Rightarrow> limbs \<times> limb" where
  "divrem_shift_loop d dinv cnt r n1 [] =
     (let (q, r) = udiv_qrnnd_preinv r (push_bit cnt n1) d dinv in ([q], r))"
| "divrem_shift_loop d dinv cnt r n1 (n0 # up) =
     (let nshift = push_bit cnt n1 OR drop_bit (64 - cnt) n0; (q, r) = udiv_qrnnd_preinv r nshift d dinv;
          (qp, r) = divrem_shift_loop d dinv cnt r n0 up
      in (q # qp, r))"

fun divrem_fraction :: "limb \<Rightarrow> limb \<Rightarrow> limb \<Rightarrow> nat \<Rightarrow> limbs \<times> limb" where
  "divrem_fraction d dinv r 0 = ([], r)"
| "divrem_fraction d dinv r (Suc i) =
     (let (q, r) = udiv_qrnnd_preinv_0 r d dinv; (qp, r) = divrem_fraction d dinv r i in (q # qp, r))"

definition GMP_LIMB_HIGHBIT :: limb where
  "GMP_LIMB_HIGHBIT = push_bit 63 1"

text \<open>The quotient of \<open>qxn\<close> limbs more than \<open>up\<close> has, and the remainder.\<close>

definition mpn_divrem_1 :: "nat \<Rightarrow> limbs \<Rightarrow> limb \<Rightarrow> limbs \<times> limb" where
  "mpn_divrem_1 qxn up d =
     (if length up + qxn = 0 then ([], 0)
      else if d AND GMP_LIMB_HIGHBIT \<noteq> 0 then
        let (tp, r, up) =
              (case rev up of [] \<Rightarrow> ([], 0, [])
               | u # up \<Rightarrow> let q = limb_of (d \<le> u) in ([q], u - (d AND - q), up));
            dinv = invert_limb d; (qp, r) = divrem_loop d dinv r up; (fp, r) = divrem_fraction d dinv r qxn
        in (rev (tp @ qp @ fp), r)
      else
        let (tp, r, up) =
              (case rev up of [] \<Rightarrow> ([], 0, []) | n1 # up' \<Rightarrow> if n1 < d then ([0], n1, up') else ([], 0, rev up))
        in if length up + qxn = 0 then (rev tp, r)
           else
             let cnt = count_leading_zeros d; d = push_bit cnt d; r = push_bit cnt r; dinv = invert_limb d;
                 (qp, r) =
                   (case up of [] \<Rightarrow> ([], r)
                    | n1 # up \<Rightarrow> divrem_shift_loop d dinv cnt (r OR drop_bit (64 - cnt) n1) n1 up);
                 (fp, r) = divrem_fraction d dinv r qxn
             in (rev (tp @ qp @ fp), drop_bit cnt r))"

subsection \<open>Two limbs\<close>

fun divrem_2_loop :: "limb \<Rightarrow> limb \<Rightarrow> limb \<Rightarrow> limb \<Rightarrow> limb \<Rightarrow> limbs \<Rightarrow> limbs \<times> limb \<times> limb" where
  "divrem_2_loop d1 d0 di r1 r0 [] = ([], r1, r0)"
| "divrem_2_loop d1 d0 di r1 r0 (n0 # np) =
     (let (q, r1, r0) = udiv_qr_3by2 r1 r0 n0 d1 d0 di; (qp, r1, r0) = divrem_2_loop d1 d0 di r1 r0 np
      in (q # qp, r1, r0))"

text \<open>The high quotient limb, the others and the remainder.\<close>

definition mpn_divrem_2 :: "nat \<Rightarrow> limbs \<Rightarrow> limbs \<Rightarrow> limb \<times> limbs \<times> limbs" where
  "mpn_divrem_2 qxn np dp =
     (let nn = length np; d1 = dp ! 1; d0 = dp ! 0; r1 = np ! (nn - 1); r0 = np ! (nn - 2);
          (most_significant_q_limb, r1, r0) =
            (if d1 \<le> r1 \<and> (d1 < r1 \<or> d0 \<le> r0) then let (r1, r0) = sub_ddmmss r1 r0 d1 d0 in (1, r1, r0)
             else (0, r1, r0));
          di = invert_pi1 d1 d0;
          (qp, r1, r0) = divrem_2_loop d1 d0 di r1 r0 (rev (take (nn - 2) np));
          (fp, r1, r0) = divrem_2_loop d1 d0 di r1 r0 (replicate qxn 0)
      in (most_significant_q_limb, rev (qp @ fp), [r0, r1]))"

subsection \<open>The schoolbook division\<close>

text \<open>The limbs from \<open>i\<close> on become \<open>ws\<close>.\<close>

definition put :: "limbs \<Rightarrow> nat \<Rightarrow> limbs \<Rightarrow> limbs" where
  "put np i ws = take i np @ ws @ drop (i + length ws) np"

text \<open>One quotient limb. \<open>i\<close> is \<open>np - dn\<close>, \<open>dn\<close> the length of \<open>dp\<close> less 2.\<close>

definition sbpi1_step :: "limbs \<Rightarrow> limb \<Rightarrow> nat \<Rightarrow> limb \<Rightarrow> limbs \<Rightarrow> limb \<times> limb \<times> limbs" where
  "sbpi1_step dp dinv i n1 np =
     (let dn = length dp - 2; d1 = dp ! (dn + 1); d0 = dp ! dn; p = i + dn
      in if n1 = d1 \<and> np ! (p + 1) = d0 then
           let q = - 1; np = put np i (snd (mpn_submul_1 (take (dn + 2) (drop i np)) dp q))
           in (q, np ! (p + 1), np)
         else
           let (q, n1, n0) = udiv_qr_3by2 n1 (np ! (p + 1)) (np ! p) d1 d0 dinv;
               (cy, wp) = mpn_submul_1 (take dn (drop i np)) (take dn dp) q;
               cy1 = limb_of (n0 < cy); n0 = n0 - cy; cy = limb_of (n1 < cy1); n1 = n1 - cy1;
               np = put np i (wp @ [n0])
           in if cy \<noteq> 0 then
                let (c, wp) = mpn_add_n (take (dn + 1) (drop i np)) (take (dn + 1) dp)
                in (q - 1, n1 + (d1 + c), put np i wp)
              else (q, n1, np))"

fun sbpi1_loop :: "limbs \<Rightarrow> limb \<Rightarrow> nat \<Rightarrow> limb \<Rightarrow> limbs \<Rightarrow> limbs \<times> limb \<times> limbs" where
  "sbpi1_loop dp dinv 0 n1 np = ([], n1, np)"
| "sbpi1_loop dp dinv (Suc i) n1 np =
     (let (q, n1, np) = sbpi1_step dp dinv i n1 np; (qp, n1, np) = sbpi1_loop dp dinv i n1 np
      in (qp @ [q], n1, np))"

text \<open>The high quotient limb, the others and the array with the remainder in its low limbs.\<close>

definition mpn_sbpi1_div_qr :: "limbs \<Rightarrow> limbs \<Rightarrow> limb \<Rightarrow> limb \<times> limbs \<times> limbs" where
  "mpn_sbpi1_div_qr np dp dinv =
     (let nn = length np; dn = length dp; qh = limb_of (0 \<le> mpn_cmp (drop (nn - dn) np) dp);
          np = (if qh \<noteq> 0 then put np (nn - dn) (snd (mpn_sub_n (drop (nn - dn) np) dp)) else np);
          (qp, n1, np) = sbpi1_loop dp dinv (nn - dn) (np ! (nn - 1)) np
      in (qh, qp, np[dn - 1 := n1]))"

subsection \<open>Counting zeros\<close>

lemma clz_tab_entries:
  "list_all2 (\<lambda>i t. 2 ^ t \<le> 4 * i \<and> 2 * i + 1 < (2 :: nat) ^ t \<and> t \<le> 8) [1..<128] (butlast (tl clz_tab))"
  by (simp add: clz_tab_def upt_rec)

lemma clz_tab_bits:
  assumes "0 < n" and "n < 256"
  shows "2 ^ (clz_tab ! (n div 2)) \<le> 2 * n" and "n < 2 ^ (clz_tab ! (n div 2))" and "clz_tab ! (n div 2) \<le> 8"
proof -
  have "2 ^ (clz_tab ! (n div 2)) \<le> 2 * n \<and> n < 2 ^ (clz_tab ! (n div 2)) \<and> clz_tab ! (n div 2) \<le> 8"
  proof (cases "n = 1")
    case False
    define i where "i = n div 2"
    have i: "1 \<le> i" "i < 128" using assms False by (simp_all add: i_def)
    have "length clz_tab = 129" by (simp add: clz_tab_def)
    then have "butlast (tl clz_tab) ! (i - 1) = clz_tab ! i" using i by (simp add: nth_butlast nth_tl)
    moreover have "[1..<128] ! (i - 1) = i" using i by simp
    ultimately have "2 ^ (clz_tab ! i) \<le> 4 * i" "2 * i + 1 < 2 ^ (clz_tab ! i)" "clz_tab ! i \<le> 8"
      using list_all2_nthD [OF clz_tab_entries, of "i - 1"] i by simp_all
    moreover have "n = 2 * i \<or> n = 2 * i + 1" by (auto simp: i_def)
    ultimately show ?thesis by (auto simp: i_def)
  qed (simp add: clz_tab_def)
  then show "2 ^ (clz_tab ! (n div 2)) \<le> 2 * n" "n < 2 ^ (clz_tab ! (n div 2))" "clz_tab ! (n div 2) \<le> 8" by simp_all
qed

lemma clz_loop_val:
  assumes "8 dvd a" and "unat x < 2 ^ (a + 8)" and "0 < unat x"
  defines "b \<equiv> clz_loop x a"
  shows "b \<le> a \<and> 0 < unat x div 2 ^ b \<and> unat x div 2 ^ b < 256"
  using assms(1,2) unfolding b_def
proof (induction a rule: less_induct)
  case (less a)
  have lt: "unat x div 2 ^ a < 256" using less.prems(2) by (simp add: power_add less_mult_imp_div_less mult.commute)
  have "unat (drop_bit a x AND 0xff) = unat x div 2 ^ a"
  proof -
    have "drop_bit a x AND 0xff = take_bit 8 (drop_bit a x)"
      unfolding take_bit_eq_mask mask_eq_exp_minus_1 by simp
    moreover have "unat (take_bit 8 (drop_bit a x)) = take_bit 8 (unat (drop_bit a x))" by (rule unsigned_take_bit_eq)
    ultimately show ?thesis using lt unfolding unat_drop take_bit_eq_mod by simp
  qed
  then have iff: "drop_bit a x AND 0xff = 0 \<longleftrightarrow> unat x div 2 ^ a = 0" by (metis unat_0 unat_eq_zero)
  show ?case
  proof (cases "0 < a \<and> drop_bit a x AND 0xff = 0")
    case True
    then have "8 \<le> a" using less.prems(1) by (auto intro: dvd_imp_le)
    then obtain c where c: "a = c + 8" by (metis le_add_diff_inverse2)
    have "unat x < 2 ^ (c + 8)" using True iff unfolding c by (simp add: div_eq_0_iff)
    moreover have "8 dvd c" using less.prems(1) unfolding c by simp
    ultimately have "clz_loop x c \<le> c \<and> 0 < unat x div 2 ^ clz_loop x c \<and> unat x div 2 ^ clz_loop x c < 256"
      using less.IH [of c] c by simp
    moreover have "clz_loop x a = clz_loop x c" using True c by (subst clz_loop.simps) simp
    ultimately show ?thesis using c by simp
  next
    case False
    then have "clz_loop x a = a" by (subst clz_loop.simps) auto
    moreover have "0 < unat x div 2 ^ a" using False iff assms(3) by (cases "a = 0") auto
    ultimately show ?thesis using lt by simp
  qed
qed

lemma count_leading_zeros_val:
  assumes "x \<noteq> 0"
  shows "count_leading_zeros x < 64" and "2 ^ 63 \<le> 2 ^ count_leading_zeros x * unat x"
    and "2 ^ count_leading_zeros x * unat x < 2 ^ 64"
proof -
  define b where "b = clz_loop x 56"
  define n where "n = unat x div 2 ^ b"
  have "0 < unat x" using assms by (simp add: unat_gt_0)
  then have b: "b \<le> 56" and n: "0 < n" "n < 256"
    using clz_loop_val [of 56 x] unat_limb_less [of x] by (simp_all add: b_def n_def)
  define t where "t = clz_tab ! (n div 2)"
  have t: "2 ^ t \<le> 2 * n" "n < 2 ^ t" "t \<le> 8" unfolding t_def by (rule clz_tab_bits [OF n])+
  have t0: "0 < t" using t(2) n(1) by (cases t) simp_all
  have "unat (drop_bit (b + 1) x) = n div 2" 
    by (simp only: unat_drop n_def power_add power_one_right div_mult2_eq)
  then have c: "count_leading_zeros x = 64 - b - t" by (simp add: count_leading_zeros_def b_def t_def Let_def)
  show "count_leading_zeros x < 64" using t0 by (simp add: c)
  have p: "(2 :: nat) ^ count_leading_zeros x * 2 ^ b * 2 ^ t = 2 ^ 64"
    using b t(3) unfolding c by (simp flip: power_add)
  have "n * 2 ^ b \<le> unat x" unfolding n_def by (rule div_times_less_eq_dividend)
  then have "2 ^ t * 2 ^ b \<le> 2 * unat x" using mult_le_mono1 [OF t(1), of "2 ^ b"] by linarith
  moreover have p': "2 ^ count_leading_zeros x * (2 ^ t * 2 ^ b) = (2 :: nat) ^ 64" using p by (simp only: ac_simps)
  ultimately have "(2 :: nat) ^ 64 \<le> 2 ^ count_leading_zeros x * (2 * unat x)"
    unfolding p' [symmetric] by (intro mult_le_mono2)
  then show "2 ^ 63 \<le> 2 ^ count_leading_zeros x * unat x" by (simp add: mult.commute)
  have "unat x < (n + 1) * 2 ^ b" unfolding n_def using dividend_less_div_times [of "2 ^ b" "unat x"] by simp
  also have "\<dots> \<le> 2 ^ t * 2 ^ b" using t(2) by (intro mult_le_mono1) simp
  finally have "2 ^ count_leading_zeros x * unat x < 2 ^ count_leading_zeros x * (2 ^ t * 2 ^ b)" by simp
  then show "2 ^ count_leading_zeros x * unat x < 2 ^ 64" by (simp only: p')
qed

subsection \<open>One limb\<close>

text \<open>The value of limbs that are listed from the most significant one.\<close>

lemma limbs_val_rev_Cons: "limbs_val (rev (x # xs)) = limbs_val (rev xs) + 2 ^ (64 * length xs) * unat x"
  by (simp add: limbs_val_append)

lemma limbs_val_rev_append:
  "limbs_val (rev (xs @ ys)) = limbs_val (rev ys) + 2 ^ (64 * length ys) * limbs_val (rev xs)"
  by (simp add: limbs_val_append)

lemma divrem_loop_val:
  assumes "2 ^ 63 \<le> unat d" and "is_inverse d dinv" and "unat r < unat d" and "divrem_loop d dinv r up = (qp, r')"
  shows "length qp = length up \<and> unat r' < unat d \<and>
    2 ^ (64 * length up) * unat r + limbs_val (rev up) = limbs_val (rev qp) * unat d + unat r'"
  using assms(3,4)
proof (induction up arbitrary: r qp)
  case Nil
  then show ?case by simp
next
  case (Cons n0 up)
  obtain q r1 where q: "udiv_qrnnd_preinv r n0 d dinv = (q, r1)" by fastforce
  obtain qs r2 where qs: "divrem_loop d dinv r1 up = (qs, r2)" by fastforce
  have qp: "qp = q # qs" "r' = r2" using Cons.prems(2) q qs by simp_all
  have s: "2 ^ 64 * unat r + unat n0 = unat q * unat d + unat r1" "unat r1 < unat d"
    using udiv_qrnnd_preinv_val [OF assms(1) Cons.prems(1) assms(2) q] by simp_all
  have IH: "length qs = length up" "unat r2 < unat d"
    "2 ^ (64 * length up) * unat r1 + limbs_val (rev up) = limbs_val (rev qs) * unat d + unat r2"
    using Cons.IH [OF s(2)] qs qp(2) by simp_all
  have "2 ^ (64 * length up) * (2 ^ 64 * unat r + unat n0) = 2 ^ (64 * length up) * (unat q * unat d + unat r1)"
    by (simp only: s(1))
  then show ?case using IH unfolding qp limbs_val_rev_Cons by (simp add: power_add algebra_simps)
qed

lemma divrem_fraction_val:
  assumes "2 ^ 63 \<le> unat d" and "is_inverse d dinv" and "unat r < unat d" and "divrem_fraction d dinv r i = (qp, r')"
  shows "length qp = i \<and> unat r' < unat d \<and> 2 ^ (64 * i) * unat r = limbs_val (rev qp) * unat d + unat r'"
  using assms(3,4)
proof (induction i arbitrary: r qp)
  case 0
  then show ?case by simp
next
  case (Suc i)
  obtain q r1 where q: "udiv_qrnnd_preinv_0 r d dinv = (q, r1)" by fastforce
  obtain qs r2 where qs: "divrem_fraction d dinv r1 i = (qs, r2)" by fastforce
  have qp: "qp = q # qs" "r' = r2" using Suc.prems(2) q qs by simp_all
  have s: "2 ^ 64 * unat r = unat q * unat d + unat r1" "unat r1 < unat d"
    using udiv_qrnnd_preinv_0_val [OF assms(1) Suc.prems(1) assms(2) q] by simp_all
  have IH: "length qs = i" "unat r2 < unat d" "2 ^ (64 * i) * unat r1 = limbs_val (rev qs) * unat d + unat r2"
    using Suc.IH [OF s(2)] qs qp(2) by simp_all
  have "2 ^ (64 * i) * (2 ^ 64 * unat r) = 2 ^ (64 * i) * (unat q * unat d + unat r1)" by (simp only: s(1))
  then show ?case using IH unfolding qp limbs_val_rev_Cons by (simp add: power_add algebra_simps)
qed

lemma nshift_val:
  fixes n1 n0 :: limb
  assumes "0 < cnt" and "cnt < 64"
  shows "unat (push_bit cnt n1 OR drop_bit (64 - cnt) n0) =
    (unat n1 mod 2 ^ (64 - cnt)) * 2 ^ cnt + unat n0 div 2 ^ (64 - cnt)"
proof -
  have "unat (drop_bit (64 - cnt) n0) < 2 ^ cnt"
    using drop_small [of "64 - cnt" n0] assms by simp
  from limb_or_push [OF this, of n1] show ?thesis using assms by (simp add: or.commute unat_drop)
qed

lemma divrem_shift_loop_val:
  assumes "2 ^ 63 \<le> unat d" and "is_inverse d dinv" and "0 < cnt" and "cnt < 64" and "unat r < unat d"
    and "divrem_shift_loop d dinv cnt r n1 up = (qp, r')"
  shows "length qp = length up + 1 \<and> unat r' < unat d \<and>
    2 ^ (64 * (length up + 1)) * unat r +
      2 ^ cnt * (2 ^ (64 * length up) * (unat n1 mod 2 ^ (64 - cnt)) + limbs_val (rev up)) =
    limbs_val (rev qp) * unat d + unat r'"
  using assms(5,6)
proof (induction up arbitrary: r n1 qp)
  case Nil
  obtain q r1 where q: "udiv_qrnnd_preinv r (push_bit cnt n1) d dinv = (q, r1)" by fastforce
  from udiv_qrnnd_preinv_val [OF assms(1) Nil.prems(1) assms(2) q] show ?case
    using Nil.prems(2) q assms(4) by (auto simp: unat_push mult.commute)
next
  case (Cons n0 up)
  define x where "x = push_bit cnt n1 OR drop_bit (64 - cnt) n0"
  obtain q r1 where q: "udiv_qrnnd_preinv r x d dinv = (q, r1)" by fastforce
  obtain qs r2 where qs: "divrem_shift_loop d dinv cnt r1 n0 up = (qs, r2)" by fastforce
  have qp: "qp = q # qs" "r' = r2" using Cons.prems(2) q qs by (simp_all add: x_def)
  have s: "2 ^ 64 * unat r + unat x = unat q * unat d + unat r1" "unat r1 < unat d"
    using udiv_qrnnd_preinv_val [OF assms(1) Cons.prems(1) assms(2) q] by simp_all
  have IH: "length qs = length up + 1" "unat r2 < unat d"
    "2 ^ (64 * (length up + 1)) * unat r1 +
      2 ^ cnt * (2 ^ (64 * length up) * (unat n0 mod 2 ^ (64 - cnt)) + limbs_val (rev up)) =
    limbs_val (rev qs) * unat d + unat r2"
    using Cons.IH [OF s(2)] qs qp(2) by simp_all
  define m a b where "m = unat n1 mod 2 ^ (64 - cnt)" and "a = unat n0 div 2 ^ (64 - cnt)" and "b = unat n0 mod 2 ^ (64 - cnt)"
  have x: "unat x = m * 2 ^ cnt + a" unfolding x_def m_def a_def by (rule nshift_val [OF assms(3,4)])
  have n0: "2 ^ cnt * unat n0 = 2 ^ 64 * a + 2 ^ cnt * b"
  proof -
    have "unat n0 = 2 ^ (64 - cnt) * a + b" by (simp add: a_def b_def)
    then have "2 ^ cnt * unat n0 = 2 ^ cnt * 2 ^ (64 - cnt) * a + 2 ^ cnt * b" by (simp add: algebra_simps)
    also have "(2 :: nat) ^ cnt * 2 ^ (64 - cnt) = 2 ^ 64" using assms(4) by (simp flip: power_add)
    finally show ?thesis .
  qed
  define P :: nat where "P = 2 ^ (64 * length up)"
  define L where "L = limbs_val (rev up)"
  have e: "P * 2 ^ 64 * (2 ^ 64 * unat r + (m * 2 ^ cnt + a)) = P * 2 ^ 64 * (unat q * unat d + unat r1)"
    using s(1) x by simp
  have IH': "P * 2 ^ 64 * unat r1 + 2 ^ cnt * (P * b + L) = limbs_val (rev qs) * unat d + unat r2"
    using IH(3) by (simp only: P_def L_def b_def add_mult_distrib2 power_add mult_1_right)
  have "P * 2 ^ 64 * 2 ^ 64 * unat r + 2 ^ cnt * (P * 2 ^ 64 * m + (L + P * unat n0)) =
      P * 2 ^ 64 * (2 ^ 64 * unat r + (m * 2 ^ cnt + a)) + 2 ^ cnt * (P * b + L)"
    using arg_cong [OF n0, of "\<lambda>z. P * z"] by (simp add: algebra_simps)
  also have "\<dots> = P * 2 ^ 64 * unat q * unat d + (P * 2 ^ 64 * unat r1 + 2 ^ cnt * (P * b + L))"
    unfolding e by (simp add: algebra_simps)
  also have "\<dots> = (limbs_val (rev qs) + P * 2 ^ 64 * unat q) * unat d + unat r2"
    unfolding IH' by (simp add: algebra_simps)
  finally show ?case
    using IH(1,2) unfolding qp limbs_val_rev_Cons
    by (simp add: P_def L_def m_def power_add mult.assoc mult.left_commute)
qed

lemma high_bit: "d AND GMP_LIMB_HIGHBIT \<noteq> 0 \<longleftrightarrow> 2 ^ 63 \<le> unat (d :: limb)"
proof -
  have "d AND GMP_LIMB_HIGHBIT \<noteq> 0 \<longleftrightarrow> bit d 63"
    unfolding GMP_LIMB_HIGHBIT_def push_bit_eq_mult mult_1_left and_exp_eq_0_iff_not_bit by simp
  also have "\<dots> \<longleftrightarrow> bit (unat d) 63" by (simp add: bit_unsigned_iff)
  also have "\<dots> \<longleftrightarrow> odd (unat d div 2 ^ 63)" by (rule bit_iff_odd)
  also have "\<dots> \<longleftrightarrow> 2 ^ 63 \<le> unat d"
  proof -
    have "unat d div 2 ^ 63 < 2" using unat_limb_less [of d] by (simp add: less_mult_imp_div_less)
    moreover have "unat d div 2 ^ 63 = 0 \<longleftrightarrow> unat d < 2 ^ 63" by (simp add: div_eq_0_iff)
    ultimately show ?thesis by (auto simp: numeral_2_eq_2 less_Suc_eq)
  qed
  finally show ?thesis .
qed

lemma divrem_1_parts:
  fixes T R V U1 r1 r2 d S P X :: nat
  assumes "V = X * (T * d + R) + L" and "S * (X * R + L) = Q1 * (S * d) + r1" and "P * r1 = Q2 * (S * d) + r2" and "0 < S"
  shows "P * V = (Q2 + P * (Q1 + X * T)) * d + r2 div S"
proof -
  have "S * (P * V) = P * (S * (X * (T * d))) + P * (S * (X * R + L))"
    unfolding assms(1) by (simp add: algebra_simps)
  also have "P * (S * (X * R + L)) = P * (Q1 * (S * d)) + (Q2 * (S * d) + r2)"
    unfolding assms(2) assms(3) [symmetric] by (simp add: algebra_simps)
  finally have "S * (P * V) = S * ((Q2 + P * (Q1 + X * T)) * d) + r2" by (simp add: algebra_simps)
  then have "S * (P * V) div S = (S * ((Q2 + P * (Q1 + X * T)) * d) + r2) div S" by simp
  then show ?thesis using assms(4) by simp
qed

lemma limbs_short: "length xs \<le> 1 \<Longrightarrow> rev xs = xs"
  by (cases xs) simp_all

lemma divrem_1_first:
  fixes d :: limb and up :: limbs
  assumes "2 ^ 63 \<le> unat d"
  defines "tp \<equiv> (case rev up of [] \<Rightarrow> [] | u # _ \<Rightarrow> [limb_of (d \<le> u)])"
    and "r0 \<equiv> (case rev up of [] \<Rightarrow> 0 | u # _ \<Rightarrow> u - (d AND - limb_of (d \<le> u)))"
    and "us \<equiv> (case rev up of [] \<Rightarrow> [] | _ # us \<Rightarrow> us)"
  shows "length up = length tp + length us" and "unat r0 < unat d" and "length tp \<le> 1"
    and "limbs_val up = 2 ^ (64 * length us) * (limbs_val tp * unat d + unat r0) + limbs_val (rev us)"
proof -
  have "length up = length tp + length us \<and> unat r0 < unat d \<and> length tp \<le> 1 \<and>
    limbs_val up = 2 ^ (64 * length us) * (limbs_val tp * unat d + unat r0) + limbs_val (rev us)"
  proof (cases "rev up")
    case Nil
    then show ?thesis using assms(1) by (simp add: tp_def r0_def us_def)
  next
    case (Cons u vs)
    then have up: "up = rev vs @ [u]" by (metis rev.simps(2) rev_rev_ident)
    have "d AND - limb_of (d \<le> u) = (if d \<le> u then d else 0)" using mask_and [of "d \<le> u" d] by (simp add: and.commute)
    then have r0: "r0 = (if d \<le> u then u - d else u)" by (simp add: r0_def Cons)
    have "unat r0 + unat d * of_bool (d \<le> u) = unat u"
      by (simp add: r0 unat_sub word_le_nat_alt)
    moreover have "unat r0 < unat d"
      using assms(1) unat_limb_less [of u] by (auto simp: r0 unat_sub word_le_nat_alt not_le)
    ultimately show ?thesis by (auto simp: tp_def us_def Cons up limbs_val_append algebra_simps)
  qed
  then show "length up = length tp + length us" "unat r0 < unat d" "length tp \<le> 1"
    "limbs_val up = 2 ^ (64 * length us) * (limbs_val tp * unat d + unat r0) + limbs_val (rev us)" by simp_all
qed

lemma mpn_divrem_1_norm:
  assumes n: "2 ^ 63 \<le> unat d" and "length up + qxn \<noteq> 0" and "mpn_divrem_1 qxn up d = (qp, r)"
  shows "length qp = length up + qxn \<and> unat r < unat d \<and>
    2 ^ (64 * qxn) * limbs_val up = limbs_val qp * unat d + unat r"
proof -
  have hb: "d AND GMP_LIMB_HIGHBIT \<noteq> 0" using n by (simp only: high_bit)
  define tp r0 us where "tp = (case rev up of [] \<Rightarrow> [] | u # _ \<Rightarrow> [limb_of (d \<le> u)])"
    and "r0 = (case rev up of [] \<Rightarrow> 0 | u # _ \<Rightarrow> u - (d AND - limb_of (d \<le> u)))"
    and "us = (case rev up of [] \<Rightarrow> [] | _ # us \<Rightarrow> us)"
  note first = divrem_1_first [OF n, of up, folded tp_def r0_def us_def]
  obtain q1 r1 where q1: "divrem_loop d (invert_limb d) r0 us = (q1, r1)" by fastforce
  obtain q2 r2 where q2: "divrem_fraction d (invert_limb d) r1 qxn = (q2, r2)" by fastforce
  have tp: "(case rev up of [] \<Rightarrow> ([], 0, []) | u # up \<Rightarrow> let q = limb_of (d \<le> u) in ([q], u - (d AND - q), up)) = (tp, r0, us)"
    by (simp add: tp_def r0_def us_def Let_def split: list.splits)
  have res: "qp = rev (tp @ q1 @ q2)" "r = r2"
    using assms(3) unfolding mpn_divrem_1_def if_not_P [OF assms(2)] if_P [OF hb] tp
    unfolding Let_def prod.case q1 q2 by simp_all
  have s1: "length q1 = length us" "unat r1 < unat d"
    "2 ^ (64 * length us) * unat r0 + limbs_val (rev us) = limbs_val (rev q1) * unat d + unat r1"
    using divrem_loop_val [OF n invert_limb_val [OF n] first(2) q1] by simp_all
  have s2: "length q2 = qxn" "unat r2 < unat d" "2 ^ (64 * qxn) * unat r1 = limbs_val (rev q2) * unat d + unat r2"
    using divrem_fraction_val [OF n invert_limb_val [OF n] s1(2) q2] by simp_all
  have "2 ^ (64 * qxn) * limbs_val up =
      (limbs_val (rev q2) + 2 ^ (64 * qxn) * (limbs_val (rev q1) + 2 ^ (64 * length us) * limbs_val tp)) * unat d + unat r2 div 1"
    by (rule divrem_1_parts [OF first(4), where S = 1]) (use s1(3) s2(3) in simp_all)
  moreover have "limbs_val qp = limbs_val (rev q2) + 2 ^ (64 * qxn) * (limbs_val (rev q1) + 2 ^ (64 * length us) * limbs_val tp)"
    unfolding res limbs_val_rev_append using s1(1) s2(1) limbs_short [OF first(3)] by (simp add: power_add algebra_simps)
  ultimately show ?thesis using first(1) s1(1) s2 by (simp add: res)
qed

lemma mpn_divrem_1_shift:
  assumes d0: "d \<noteq> 0" and n: "\<not> 2 ^ 63 \<le> unat d" and "length up + qxn \<noteq> 0" and "mpn_divrem_1 qxn up d = (qp, r)"
  shows "length qp = length up + qxn \<and> unat r < unat d \<and>
    2 ^ (64 * qxn) * limbs_val up = limbs_val qp * unat d + unat r"
proof -
  have dp: "0 < unat d" using d0 by (simp add: unat_gt_0)
  have hb: "\<not> (d AND GMP_LIMB_HIGHBIT \<noteq> 0)" using n high_bit [of d] by blast
  define tp :: limbs where "tp = (case rev up of [] \<Rightarrow> [] | n1 # _ \<Rightarrow> if n1 < d then [0] else [])"
  define r0 where "r0 = (case rev up of [] \<Rightarrow> 0 | n1 # _ \<Rightarrow> if n1 < d then n1 else 0)"
  define us where "us = (case rev up of [] \<Rightarrow> [] | n1 # us \<Rightarrow> if n1 < d then us else n1 # us)"
  have tp: "(case rev up of [] \<Rightarrow> ([], 0, []) | n1 # up' \<Rightarrow> if n1 < d then ([0], n1, up') else ([], 0, rev up)) = (tp, r0, us)"
    by (simp add: tp_def r0_def us_def split: list.splits)
  have first: "length up = length tp + length us" "unat r0 < unat d" "length tp \<le> 1" "limbs_val tp = 0"
    "limbs_val up = 2 ^ (64 * length us) * (0 * unat d + unat r0) + limbs_val (rev us)"
  proof -
    have "length up = length tp + length us \<and> unat r0 < unat d \<and> length tp \<le> 1 \<and> limbs_val tp = 0 \<and>
      limbs_val up = 2 ^ (64 * length us) * (0 * unat d + unat r0) + limbs_val (rev us)"
    proof (cases "rev up")
      case Nil
      then show ?thesis using dp by (simp add: tp_def r0_def us_def)
    next
      case (Cons u vs)
      then have up: "up = rev vs @ [u]" by (metis rev.simps(2) rev_rev_ident)
      show ?thesis using dp by (auto simp: tp_def r0_def us_def Cons up limbs_val_append word_less_nat_alt)
    qed
    then show "length up = length tp + length us" "unat r0 < unat d" "length tp \<le> 1" "limbs_val tp = 0"
      "limbs_val up = 2 ^ (64 * length us) * (0 * unat d + unat r0) + limbs_val (rev us)" by simp_all
  qed
  show ?thesis
  proof (cases "length us + qxn = 0")
    case True
    then have "qp = rev tp" "r = r0"
      using assms(4) unfolding mpn_divrem_1_def if_not_P [OF assms(3)] if_not_P [OF hb] tp Let_def prod.case if_P [OF True]
      by simp_all
    then show ?thesis using first True limbs_short [OF first(3)] by simp
  next
    case ne: False
    define cnt where "cnt = count_leading_zeros d"
    define d2 where "d2 = push_bit cnt d"
    note clz = count_leading_zeros_val [OF d0, folded cnt_def]
    have cnt: "0 < cnt" "cnt < 64" using clz n by (auto intro: gr0I)
    have P: "(2 :: nat) ^ 64 = 2 ^ (64 - cnt) * 2 ^ cnt" using cnt by (simp flip: power_add)
    have small: "unat x < 2 ^ (64 - cnt)" if "unat x \<le> unat d" for x :: limb
    proof -
      have "2 ^ cnt * unat x < 2 ^ (64 - cnt) * 2 ^ cnt"
        using mult_le_mono2 [OF that, of "2 ^ cnt"] clz(3) unfolding P by (rule order.strict_trans1)
      then show ?thesis by (simp add: mult.commute)
    qed
    have d2: "unat d2 = 2 ^ cnt * unat d" "2 ^ 63 \<le> unat d2"
      using clz(2) small [of d] cnt by (simp_all add: d2_def unat_push mult.commute)
    have r0: "unat (push_bit cnt r0) = 2 ^ cnt * unat r0"
      using small [of r0] first(2) cnt by (simp add: unat_push mult.commute)
    define q1r where "q1r = (case us of [] \<Rightarrow> ([], push_bit cnt r0)
      | n1 # us \<Rightarrow> divrem_shift_loop d2 (invert_limb d2) cnt (push_bit cnt r0 OR drop_bit (64 - cnt) n1) n1 us)"
    obtain q1 r1 where q1: "q1r = (q1, r1)" by fastforce
    obtain q2 r2 where q2: "divrem_fraction d2 (invert_limb d2) r1 qxn = (q2, r2)" by fastforce
    have res: "qp = rev (tp @ q1 @ q2)" "r = drop_bit cnt r2"
      using assms(4) q1 unfolding mpn_divrem_1_def if_not_P [OF assms(3)] if_not_P [OF hb] tp Let_def prod.case if_not_P [OF ne]
        cnt_def [symmetric] d2_def [symmetric] q1r_def [symmetric]
      by (simp_all add: q2)
    note inv = invert_limb_val [OF d2(2)]
    have s1: "length q1 = length us \<and> unat r1 < unat d2 \<and>
      2 ^ cnt * (2 ^ (64 * length us) * unat r0 + limbs_val (rev us)) = limbs_val (rev q1) * unat d2 + unat r1"
    proof (cases us)
      case Nil
      then have "q1 = []" "r1 = push_bit cnt r0" using q1 by (simp_all add: q1r_def)
      then show ?thesis using Nil first(2) by (simp add: r0 d2)
    next
      case (Cons n1 vs)
      define x where "x = push_bit cnt r0 OR drop_bit (64 - cnt) n1"
      have x: "unat x = unat r0 * 2 ^ cnt + unat n1 div 2 ^ (64 - cnt)"
        using nshift_val [OF cnt, of r0 n1] small [of r0] first(2) by (simp add: x_def)
      have "unat n1 div 2 ^ (64 - cnt) < 2 ^ cnt"
        using unat_limb_less [of n1] unfolding P by (simp add: less_mult_imp_div_less mult.commute)
      moreover have "(unat r0 + 1) * 2 ^ cnt \<le> unat d * 2 ^ cnt" using first(2) by (intro mult_le_mono1) simp
      ultimately have xd: "unat x < unat d2" using x d2(1) by (simp add: algebra_simps)
      have "divrem_shift_loop d2 (invert_limb d2) cnt x n1 vs = (q1, r1)" using q1 by (simp add: q1r_def Cons x_def)
      note s = divrem_shift_loop_val [OF d2(2) inv cnt xd this]
      have "2 ^ (64 * (length vs + 1)) * unat x + 2 ^ cnt * (2 ^ (64 * length vs) * (unat n1 mod 2 ^ (64 - cnt)) + limbs_val (rev vs)) =
          2 ^ cnt * (2 ^ (64 * length us) * unat r0 + limbs_val (rev us))"
      proof -
        define D M where "D = unat n1 div 2 ^ (64 - cnt)" and "M = unat n1 mod 2 ^ (64 - cnt)"
        have n1: "unat n1 = 2 ^ (64 - cnt) * D + M" by (simp add: D_def M_def)
        define Y L :: nat where "Y = 2 ^ (64 * length vs)" and "L = limbs_val (rev vs)"
        have e1: "2 ^ (64 * (length vs + 1)) = Y * 2 ^ 64" by (simp add: Y_def power_add)
        have e2: "2 ^ (64 * length us) = Y * 2 ^ 64" by (simp add: Y_def power_add Cons)
        have e3: "limbs_val (rev us) = L + Y * (2 ^ (64 - cnt) * D + M)"
          by (simp only: Cons limbs_val_rev_Cons L_def Y_def n1)
        show ?thesis
          unfolding x e1 e2 e3 D_def [symmetric] M_def [symmetric] Y_def [symmetric] L_def [symmetric]
          unfolding P by (simp add: algebra_simps)
      qed
      then show ?thesis using s by (simp add: Cons)
    qed
    then have s1': "length q1 = length us" "unat r1 < unat d2"
      "2 ^ cnt * (2 ^ (64 * length us) * unat r0 + limbs_val (rev us)) = limbs_val (rev q1) * (2 ^ cnt * unat d) + unat r1"
      by (simp_all add: d2)
    have s2: "length q2 = qxn" "unat r2 < unat d2" "2 ^ (64 * qxn) * unat r1 = limbs_val (rev q2) * (2 ^ cnt * unat d) + unat r2"
      using divrem_fraction_val [OF d2(2) inv s1'(2) q2] by (simp_all add: d2)
    have "2 ^ (64 * qxn) * limbs_val up =
        (limbs_val (rev q2) + 2 ^ (64 * qxn) * (limbs_val (rev q1) + 2 ^ (64 * length us) * 0)) * unat d + unat r2 div 2 ^ cnt"
      by (rule divrem_1_parts [OF first(5) s1'(3) s2(3)]) simp
    moreover have "limbs_val qp = limbs_val (rev q2) + 2 ^ (64 * qxn) * (limbs_val (rev q1) + 2 ^ (64 * length us) * 0)"
      unfolding res limbs_val_rev_append using s1'(1) s2(1) limbs_short [OF first(3)] first(4) by simp
    moreover have "unat r2 div 2 ^ cnt < unat d" using s2(2) by (simp add: d2 less_mult_imp_div_less mult.commute)
    ultimately show ?thesis using first(1) s1'(1) s2(1) by (simp add: res unat_drop)
  qed
qed

lemma mpn_divrem_1_val:
  assumes "d \<noteq> 0" and "mpn_divrem_1 qxn up d = (qp, r)"
  shows "length qp = length up + qxn" and "unat r < unat d"
    and "2 ^ (64 * qxn) * limbs_val up = limbs_val qp * unat d + unat r"
proof -
  have "length qp = length up + qxn \<and> unat r < unat d \<and>
    2 ^ (64 * qxn) * limbs_val up = limbs_val qp * unat d + unat r"
  proof (cases "length up + qxn = 0")
    case True
    then show ?thesis using assms by (simp add: mpn_divrem_1_def unat_gt_0)
  next
    case False
    then show ?thesis using mpn_divrem_1_norm [OF _ False assms(2)] mpn_divrem_1_shift [OF assms(1) _ False assms(2)] by blast
  qed
  then show "length qp = length up + qxn" "unat r < unat d"
    "2 ^ (64 * qxn) * limbs_val up = limbs_val qp * unat d + unat r" by simp_all
qed

subsection \<open>Two limbs\<close>

lemma divrem_2_loop_val:
  assumes "2 ^ 63 \<le> unat d1" and "is_inverse_2 d1 d0 di" and "limbs_val [r0, r1] < limbs_val [d0, d1]"
    and "divrem_2_loop d1 d0 di r1 r0 np = (qp, r1', r0')"
  shows "length qp = length np \<and> limbs_val [r0', r1'] < limbs_val [d0, d1] \<and>
    2 ^ (64 * length np) * limbs_val [r0, r1] + limbs_val (rev np) =
      limbs_val (rev qp) * limbs_val [d0, d1] + limbs_val [r0', r1']"
  using assms(3,4)
proof (induction np arbitrary: r1 r0 qp)
  case Nil
  then show ?case by simp
next
  case (Cons n0 np)
  define D where "D = limbs_val [d0, d1]"
  obtain q s1 s0 where q: "udiv_qr_3by2 r1 r0 n0 d1 d0 di = (q, s1, s0)" by (metis surj_pair)
  obtain qs t1 t0 where qs: "divrem_2_loop d1 d0 di s1 s0 np = (qs, t1, t0)" by (metis surj_pair)
  have qp: "qp = q # qs" "r1' = t1" "r0' = t0" using Cons.prems(2) q qs by simp_all
  note s = udiv_qr_3by2_val [OF assms(1) Cons.prems(1) assms(2) q]
  have IH: "length qs = length np" "limbs_val [t0, t1] < D"
    "2 ^ (64 * length np) * limbs_val [s0, s1] + limbs_val (rev np) = limbs_val (rev qs) * D + limbs_val [t0, t1]"
    using Cons.IH [OF s(2), of qs] qs qp by (simp_all add: D_def)
  have "unat n0 + 2 ^ 64 * limbs_val [r0, r1] = unat q * D + limbs_val [s0, s1]" using s(1) by (simp add: D_def)
  then have "2 ^ (64 * length np) * (unat n0 + 2 ^ 64 * limbs_val [r0, r1]) =
    2 ^ (64 * length np) * (unat q * D + limbs_val [s0, s1])" by simp
  then show ?case using IH
    unfolding qp limbs_val_rev_Cons D_def [symmetric] by (simp add: power_add algebra_simps del: limbs_val.simps)
qed

lemma sub_ddmmss_val:
  assumes "limbs_val [d0, d1] \<le> limbs_val [r0, r1]" and "sub_ddmmss r1 r0 d1 d0 = (s1, s0)"
  shows "limbs_val [s0, s1] + limbs_val [d0, d1] = limbs_val [r0, r1]"
proof -
  have "dd s1 s0 = dd r1 r0 - dd d1 d0"
    by (rule dd_eqI [OF sub_ddmmss_int [OF assms(2)]])
      (use assms(1) dd_range [of r1 r0] dd_range [of d1 d0] in \<open>simp_all add: dd_limbs del: limbs_val.simps\<close>)
  then have "int (limbs_val [s0, s1] + limbs_val [d0, d1]) = int (limbs_val [r0, r1])"
    unfolding dd_limbs by simp
  then show ?thesis by (simp only: of_nat_eq_iff)
qed

lemma last_two:
  assumes "2 \<le> length np"
  shows "np = take (length np - 2) np @ [np ! (length np - 2), np ! (length np - 1)]"
proof -
  define k where "k = length np - 2"
  have k: "k < length np" "Suc k < length np" "length np - 1 = Suc k" "length np = Suc (Suc k)"
    using assms by (simp_all add: k_def)
  have "drop k np = [np ! k, np ! Suc k]"
    using Cons_nth_drop_Suc [OF k(1)] Cons_nth_drop_Suc [OF k(2)] k(4) by simp
  then show ?thesis unfolding k(3) k_def [symmetric] by (metis append_take_drop_id)
qed

lemma pair_list: "length dp = 2 \<Longrightarrow> dp = [dp ! 0, dp ! 1]"
  using last_two [of dp] by simp

lemma mpn_divrem_2_val:
  assumes "2 \<le> length np" and "length dp = 2" and n: "2 ^ 63 \<le> unat (dp ! 1)" and res: "mpn_divrem_2 qxn np dp = (qh, qp, rp)"
  shows "length qp = length np - 2 + qxn" and "length rp = 2" and "unat qh \<le> 1" and "limbs_val rp < limbs_val dp"
    and "2 ^ (64 * qxn) * limbs_val np = limbs_val (qp @ [qh]) * limbs_val dp + limbs_val rp"
proof -
  define k where "k = length np - 2"
  define L where "L = limbs_val (take k np)"
  define d1 d0 r1 r0 where "d1 = dp ! 1" and "d0 = dp ! 0" and "r1 = np ! (length np - 1)" and "r0 = np ! (length np - 2)"
  define D where "D = limbs_val [d0, d1]"
  have dp: "limbs_val dp = D" unfolding D_def d1_def d0_def using pair_list [OF assms(2)] by simp
  have len: "length (take k np) = k" by (simp add: k_def)
  have np: "limbs_val np = L + 2 ^ (64 * k) * limbs_val [r0, r1]"
    using arg_cong [OF last_two [OF assms(1)], of limbs_val] len
    by (simp add: limbs_val_append L_def k_def r1_def r0_def del: limbs_val.simps)
  have n': "2 ^ 63 \<le> unat d1" using n by (simp add: d1_def)
  have D: "0 < D" "2 ^ 64 * 2 ^ 64 \<le> 2 * D" using n' by (simp_all add: D_def)
  define ge where "ge \<longleftrightarrow> D \<le> limbs_val [r0, r1]"
  obtain s1 s0 where s: "(if ge then sub_ddmmss r1 r0 d1 d0 else (r1, r0)) = (s1, s0)" by fastforce
  have ge: "d1 \<le> r1 \<and> (d1 < r1 \<or> d0 \<le> r0) \<longleftrightarrow> ge"
    unfolding dd_le dd_limbs by (simp add: ge_def D_def del: limbs_val.simps)
  have top: "limbs_val [s0, s1] + of_bool ge * D = limbs_val [r0, r1]" "limbs_val [s0, s1] < D"
  proof -
    have "limbs_val [r0, r1] < 2 ^ 64 * 2 ^ 64" using limbs_val_bound [of "[r0, r1]"] by (simp add: power_add)
    then show "limbs_val [s0, s1] + of_bool ge * D = limbs_val [r0, r1]" "limbs_val [s0, s1] < D"
      using s sub_ddmmss_val [of d0 d1 r0 r1 s1 s0] D by (auto simp: ge_def D_def simp del: limbs_val.simps split: if_splits)
  qed
  define di where "di = invert_pi1 d1 d0"
  have inv: "is_inverse_2 d1 d0 di" unfolding di_def by (rule invert_pi1_val [OF n'])
  obtain q1 t1 t0 where q1: "divrem_2_loop d1 d0 di s1 s0 (rev (take k np)) = (q1, t1, t0)" by (metis surj_pair)
  obtain q2 u1 u0 where q2: "divrem_2_loop d1 d0 di t1 t0 (replicate qxn 0) = (q2, u1, u0)" by (metis surj_pair)
  have "mpn_divrem_2 qxn np dp = (limb_of ge, rev (q1 @ q2), [u0, u1])"
    using s q1 q2 unfolding mpn_divrem_2_def Let_def d1_def [symmetric] d0_def [symmetric] r1_def [symmetric] r0_def [symmetric]
    unfolding ge di_def [symmetric] k_def [symmetric] by (cases ge) (simp_all add: limb_of_def)
  then have r: "qh = limb_of ge" "qp = rev (q1 @ q2)" "rp = [u0, u1]" using res by simp_all
  have a: "length q1 = k" "limbs_val [t0, t1] < D" "2 ^ (64 * k) * limbs_val [s0, s1] + L = limbs_val (rev q1) * D + limbs_val [t0, t1]"
    using divrem_2_loop_val [OF n' inv top(2) [unfolded D_def] q1] len by (simp_all add: L_def D_def)
  have b: "length q2 = qxn" "limbs_val [u0, u1] < D" "2 ^ (64 * qxn) * limbs_val [t0, t1] = limbs_val (rev q2) * D + limbs_val [u0, u1]"
    using divrem_2_loop_val [OF n' inv a(2) [unfolded D_def] q2] by (simp_all add: D_def)
  show "length qp = length np - 2 + qxn" "length rp = 2" "unat qh \<le> 1" "limbs_val rp < limbs_val dp"
    using a b r dp by (simp_all add: k_def)
  have "2 ^ (64 * qxn) * limbs_val np = 2 ^ (64 * qxn) * (limbs_val (rev q1) * D + limbs_val [t0, t1] + 2 ^ (64 * k) * (of_bool ge * D))"
    unfolding np top(1) [symmetric] a(3) [symmetric] by (simp add: algebra_simps del: limbs_val.simps)
  also have "\<dots> = (limbs_val (rev q2) + 2 ^ (64 * qxn) * (limbs_val (rev q1) + 2 ^ (64 * k) * of_bool ge)) * D + limbs_val [u0, u1]"
    using b(3) by (simp add: algebra_simps del: limbs_val.simps)
  finally show "2 ^ (64 * qxn) * limbs_val np = limbs_val (qp @ [qh]) * limbs_val dp + limbs_val rp"
    unfolding r dp rev_append limbs_val_append by (simp add: a(1) b(1) power_add algebra_simps)
qed

subsection \<open>The schoolbook division\<close>

definition win :: "limbs \<Rightarrow> nat \<Rightarrow> nat \<Rightarrow> limbs" where
  "win np i n = take n (drop i np)"

lemma length_put [simp]: "i + length ws \<le> length np \<Longrightarrow> length (put np i ws) = length np"
  by (simp add: put_def)

lemma put_nth: "i + length ws \<le> length np \<Longrightarrow> j < length ws \<Longrightarrow> put np i ws ! (i + j) = ws ! j"
  by (simp add: put_def nth_append)

lemma put_win:
  assumes "i + length ws \<le> length np"
  shows "k \<le> length ws \<Longrightarrow> win (put np i ws) i k = take k ws" and "take i (put np i ws) = take i np"
    and "length vs = length ws \<Longrightarrow> put (put np i vs) i ws = put np i ws"
  using assms by (simp_all add: win_def put_def)

lemma win_Cons: "i < length np \<Longrightarrow> win np i (Suc n) = np ! i # win np (Suc i) n"
  by (simp add: win_def flip: Cons_nth_drop_Suc)

lemma win_snoc: "i + n < length np \<Longrightarrow> win np i (Suc n) = win np i n @ [np ! (i + n)]"
  by (simp add: win_def take_Suc_conv_app_nth)

lemma length_win: "i + n \<le> length np \<Longrightarrow> length (win np i n) = n"
  by (simp add: win_def)

lemma limb_sub_less: "unat (x - y :: limb) + unat y = unat x + 2 ^ 64 * of_bool (x < y)"
proof -
  have "int (unat (x - y) + unat y) = int (unat x + 2 ^ 64 * of_bool (x < y))"
    using uint_limb_sub [of x y] by (simp add: limb_base_def)
  then show ?thesis by (simp only: of_nat_eq_iff)
qed

lemma same_residue:
  fixes a b M :: nat
  assumes "a + M * k = b + M * l" and "a < M" and "b < M"
  shows "a = b"
  using assms by (metis mod_less mod_mult_self2)

text \<open>
  The partial remainder of \<open>dn + 2\<close> limbs: the array from \<open>i\<close> on and the limb in \<open>n1\<close>. The steps are stated over
  any limbs \<open>xs\<close> that stand there.
\<close>

lemma sbpi1_max_digit:
  fixes B D R x Dl P T :: nat
  assumes "R < D" and "x < B" and "D = Dl + P * T" and "Dl < P" and "P * T \<le> R" and "B \<le> T" and "0 < B"
  shows "\<exists>R'. R * B + x = (B - 1) * D + R' \<and> R' < D"
proof -
  have "Dl * B \<le> P * T" using assms(4,6) by (intro mult_le_mono) simp_all
  then have Dl: "Dl * B \<le> D" using assms(3) by simp
  have "(B - 1) * D + D = D * B" using assms(7) by (simp add: algebra_simps diff_mult_distrib2)
  moreover have "D * B = Dl * B + P * T * B" using assms(3) by (simp add: algebra_simps)
  moreover have "P * T * B \<le> R * B" using assms(5) by simp
  ultimately have lo: "(B - 1) * D \<le> R * B + x" using Dl by linarith
  have "(R + 1) * B \<le> D * B" using assms(1) by (intro mult_le_mono1) simp
  then have "R * B + x < (B - 1) * D + D" using assms(2) \<open>(B - 1) * D + D = D * B\<close> by simp
  with lo show ?thesis by (intro exI [of _ "R * B + x - (B - 1) * D"]) simp
qed

lemma sbpi1_step_val:
  assumes len: "length dp = dn + 2" and norm: "2 ^ 63 \<le> unat (dp ! (dn + 1))"
    and inv: "is_inverse_2 (dp ! (dn + 1)) (dp ! dn) dinv" and np: "i + dn + 2 \<le> length np"
    and less: "limbs_val (win np (i + 1) (dn + 1) @ [n1]) < limbs_val dp"
    and res: "sbpi1_step dp dinv i n1 np = (q, n1', np')"
  shows "length np' = length np" and "take i np' = take i np"
    and "2 ^ 64 * limbs_val (win np (i + 1) (dn + 1) @ [n1]) + unat (np ! i) =
      unat q * limbs_val dp + limbs_val (win np' i (dn + 1) @ [n1'])"
    and "limbs_val (win np' i (dn + 1) @ [n1']) < limbs_val dp"
proof -
  define P :: nat where "P = 2 ^ (64 * dn)"
  define d1 d0 Dl D2 D where "d1 = dp ! (dn + 1)" and "d0 = dp ! dn" and "Dl = limbs_val (take dn dp)"
    and "D2 = limbs_val [d0, d1]" and "D = limbs_val dp"
  have dp: "dp = take dn dp @ [d0, d1]" using last_two [of dp] len by (simp add: d0_def d1_def)
  have D: "D = Dl + P * D2" unfolding D_def using arg_cong [OF dp, of limbs_val] len
    by (simp add: limbs_val_append Dl_def D2_def P_def del: limbs_val.simps)
  have Dl: "Dl < P" using limbs_val_bound [of "take dn dp"] len by (simp add: Dl_def P_def)
  have D2: "2 ^ 63 * 2 ^ 64 \<le> D2" using norm by (simp add: D2_def d1_def)
  define x r0 where "x = np ! i" and "r0 = np ! (i + dn + 1)"
  define M where "M = limbs_val (win np i dn)"
  define R where "R = limbs_val (win np (i + 1) (dn + 1) @ [n1])"
  have w1: "win np (i + 1) (dn + 1) = win np (i + 1) dn @ [r0]" using win_snoc [of "i + 1" dn np] np by (simp add: r0_def)
  have R: "R = limbs_val (win np (i + 1) dn) + P * limbs_val [r0, n1]"
    unfolding R_def w1 using np by (simp add: limbs_val_append length_win P_def)
  have N: "2 ^ 64 * R + unat x = M + P * limbs_val [np ! (i + dn), r0, n1]"
  proof -
    have "win np i (dn + 2) @ [n1] = x # (win np (i + 1) (dn + 1) @ [n1])" using win_Cons [of i np "dn + 1"] np by (simp add: x_def)
    moreover have "win np i (dn + 2) @ [n1] = win np i dn @ [np ! (i + dn), r0, n1]"
      using win_snoc [of i dn np] win_snoc [of i "dn + 1" np] np by (simp add: r0_def)
    ultimately have eq: "x # (win np (i + 1) (dn + 1) @ [n1]) = win np i dn @ [np ! (i + dn), r0, n1]" by metis
    show ?thesis
      using arg_cong [OF eq, of limbs_val] np unfolding limbs_val.simps(2) R_def [symmetric]
      by (simp add: M_def P_def length_win limbs_val_append)
  qed
  have "length np' = length np \<and> take i np' = take i np \<and>
    2 ^ 64 * R + unat x = unat q * D + limbs_val (win np' i (dn + 1) @ [n1']) \<and>
    limbs_val (win np' i (dn + 1) @ [n1']) < D"
  proof (cases "n1 = d1 \<and> r0 = d0")
    case True
    define w where "w = snd (mpn_submul_1 (win np i (dn + 2)) dp (- 1))"
    obtain cy where sm: "mpn_submul_1 (win np i (dn + 2)) dp (- 1) = (cy, w)" unfolding w_def by (metis prod.collapse)
    have lw: "length (win np i (dn + 2)) = length dp" using np len by (simp add: length_win)
    note s = mpn_submul_1_val [OF lw sm]
    have np': "q = - 1" "np' = put np i w" "n1' = put np i w ! (i + (dn + 1))"
      using res True unfolding sbpi1_step_def Let_def d1_def d0_def r0_def
      by (auto simp: len w_def win_def)
    have lw': "length w = dn + 2" using s(1) len by simp
    have "P * D2 \<le> R" using True unfolding R D2_def by simp
    then obtain R' where R': "R * 2 ^ 64 + unat x = (2 ^ 64 - 1) * D + R'" "R' < D"
      using sbpi1_max_digit [of R D "unat x" "2 ^ 64" Dl P D2] less unat_limb_less [of x] D Dl D2
      unfolding R_def [symmetric] D_def [symmetric] by auto
    have q: "unat (- 1 :: limb) = 2 ^ 64 - 1" by (simp add: unsigned_minus_1_eq_mask mask_eq_exp_minus_1)
    define K :: nat where "K = 2 ^ (64 * (dn + 2))"
    have "M + P * limbs_val [np ! (i + dn), r0, n1] = limbs_val (win np i (dn + 2)) + K * unat n1"
    proof -
      have "win np i (dn + 2) = win np i dn @ [np ! (i + dn), r0]"
        using win_snoc [of i dn np] win_snoc [of i "dn + 1" np] np by (simp add: r0_def)
      then show ?thesis using np by (simp add: limbs_val_append M_def P_def K_def length_win power_add algebra_simps)
    qed
    then have "limbs_val w + K * unat n1 = R' + K * unat cy"
      using s(2) R'(1) N unfolding q D_def [symmetric] lw len K_def [symmetric] by (simp add: mult.commute)
    moreover have "limbs_val w < K" "D < K"
      using limbs_val_bound [of w] limbs_val_bound [of dp] lw' len by (simp_all add: K_def D_def)
    ultimately have w: "limbs_val w = R'" using same_residue R'(2) by (meson order.strict_trans)
    have "win np' i (dn + 1) @ [n1'] = w"
    proof -
      have "win np' i (dn + 1) = take (dn + 1) w" unfolding np' using np lw' by (intro put_win) simp_all
      moreover have "n1' = w ! (dn + 1)" unfolding np' by (intro put_nth) (use np lw' in simp_all)
      ultimately show ?thesis using lw' take_Suc_conv_app_nth [of "dn + 1" w] by simp
    qed
    then show ?thesis using w R' np lw' by (simp add: np' q put_win(2) mult.commute)
  next
    case False
    have lt: "limbs_val [r0, n1] < limbs_val [d0, d1]"
    proof -
      have "P * limbs_val [r0, n1] < P * (D2 + 1)"
        using less Dl unfolding R_def [symmetric] D_def [symmetric] R D by (simp del: limbs_val.simps)
      then have "limbs_val [r0, n1] < D2 + 1" by (simp only: nat_mult_less_cancel_disj)
      then have "limbs_val [r0, n1] \<le> D2" by simp
      moreover have "limbs_val [r0, n1] \<noteq> D2" using limbs_val_inj [of "[r0, n1]" "[d0, d1]"] False by (auto simp: D2_def)
      ultimately show ?thesis by (simp add: D2_def)
    qed
    obtain q0 a1 a0 where u: "udiv_qr_3by2 n1 r0 (np ! (i + dn)) d1 d0 dinv = (q0, a1, a0)" by (metis surj_pair)
    note u3 = udiv_qr_3by2_val [OF norm [folded d1_def] lt inv [folded d1_def d0_def] u]
    obtain cy w where sm: "mpn_submul_1 (win np i dn) (take dn dp) q0 = (cy, w)" by fastforce
    have lw: "length (win np i dn) = length (take dn dp)" using np len by (simp add: length_win)
    have s: "length w = dn" "limbs_val w + Dl * unat q0 = M + P * unat cy"
      using mpn_submul_1_val [OF lw sm] len by (simp_all add: Dl_def M_def P_def)
    define b0 cy1 where "b0 = a0 - cy" and "cy1 = limb_of (a0 < cy)"
    define b1 where "b1 = a1 - cy1"
    have b: "limbs_val [b0, b1] + unat cy = limbs_val [a0, a1] + 2 ^ 128 * of_bool (a1 < cy1)"
      using limb_sub_less [of a0 cy] limb_sub_less [of a1 cy1] by (simp add: b0_def b1_def cy1_def)
    define np1 where "np1 = put np i (w @ [b0])"
    have lp: "i + length (w @ [b0]) \<le> length np" using np s(1) by simp
    have w1: "win np1 i (dn + 1) = w @ [b0]" using put_win(1) [OF lp, of "dn + 1"] s(1) by (simp add: np1_def)
    have res': "(if a1 < cy1 then (let (c, wp) = mpn_add_n (w @ [b0]) (take (dn + 1) dp) in (q0 - 1, b1 + (d1 + c), put np1 i wp))
        else (q0, b1, np1)) = (q, n1', np')"
      using res u sm False w1 unfolding sbpi1_step_def Let_def r0_def d1_def d0_def
      by (simp add: len b0_def b1_def cy1_def np1_def win_def limb_of_def split: prod.splits if_splits)
    define A X N where "A = limbs_val [a0, a1]" and "X = limbs_val w + P * limbs_val [b0, b1]" and "N = 2 ^ 64 * R + unat x"
    have T3: "limbs_val [np ! (i + dn), r0, n1] = unat q0 * D2 + A" and A: "A < D2"
      using u3 by (simp_all only: D2_def A_def)
    have NP: "N + P * unat cy + P * (2 ^ 128 * of_bool (a1 < cy1)) = X + unat q0 * D + P * unat cy"
    proof -
      have "N + P * unat cy + P * (2 ^ 128 * of_bool (a1 < cy1)) = (M + P * unat cy) + P * (unat q0 * D2) + P * (A + 2 ^ 128 * of_bool (a1 < cy1))"
        unfolding N_def N T3 by (simp add: algebra_simps)
      also have "\<dots> = (limbs_val w + Dl * unat q0) + P * (unat q0 * D2) + P * (limbs_val [b0, b1] + unat cy)"
        unfolding s(2) A_def b [symmetric] by simp
      finally show ?thesis unfolding X_def D by (simp add: algebra_simps del: limbs_val.simps)
    qed
    have w: "limbs_val w < P" using limbs_val_bound [of w] s(1) by (simp add: P_def)
    show ?thesis
    proof (cases "a1 < cy1")
      case nb: False
      then have r: "q = q0" "n1' = b1" "np' = np1" using res' by simp_all
      have "P * (limbs_val [b0, b1] + 1) \<le> P * D2" using b nb A by (intro mult_le_mono2) (simp add: A_def)
      then have "X < D" using w by (simp add: X_def D algebra_simps del: limbs_val.simps)
      moreover have "limbs_val (win np' i (dn + 1) @ [n1']) = X"
        unfolding r w1 by (simp add: limbs_val_append s(1) X_def P_def algebra_simps)
      moreover have "N = unat q0 * D + X" using NP nb by simp
      ultimately show ?thesis using lp unfolding r np1_def N_def by (simp add: put_win(2))
    next
      case True
      define K1 :: nat where "K1 = 2 ^ (64 * (dn + 1))"
      have K1: "K1 = P * 2 ^ 64" by (simp add: K1_def P_def power_add)
      define K where "K = P * 2 ^ 128"
      obtain c w2 where ad: "mpn_add_n (w @ [b0]) (take (dn + 1) dp) = (c, w2)" by fastforce
      then have r: "q = q0 - 1" "n1' = b1 + (d1 + c)" "np' = put np1 i w2" using res' True by simp_all
      have le: "length (w @ [b0]) = length (take (dn + 1) dp)" using s(1) len by simp
      have ad': "length w2 = dn + 1" "limbs_val w2 + K1 * unat c = limbs_val (w @ [b0]) + limbs_val (take (dn + 1) dp)"
        using mpn_add_n_val [OF le ad] s(1) by (simp_all add: K1_def)
      have E: "D = limbs_val (take (dn + 1) dp) + K1 * unat d1"
      proof -
        have "dp = take (dn + 1) dp @ [d1]" using take_Suc_conv_app_nth [of "dn + 1" dp] len by (simp add: d1_def)
        from arg_cong [OF this, of limbs_val] show ?thesis using len by (simp add: limbs_val_append D_def K1_def)
      qed
      obtain k where k: "unat n1' + 2 ^ 64 * k = unat b1 + (unat d1 + unat c)"
      proof -
        have "unat n1' = (unat b1 + (unat d1 + unat c)) mod 2 ^ 64" by (simp add: r unat_word_ariths mod_simps)
        then have "unat n1' + 2 ^ 64 * ((unat b1 + (unat d1 + unat c)) div 2 ^ 64) = unat b1 + (unat d1 + unat c)"
          by (simp only: mod_mult_div_eq)
        then show thesis by (rule that)
      qed
      define Y where "Y = limbs_val w2 + K1 * unat n1'"
      have Yk: "Y + K * k = X + D"
      proof -
        have "Y + K * k = limbs_val w2 + K1 * (unat n1' + 2 ^ 64 * k)" by (simp add: Y_def K_def K1 algebra_simps)
        also have "\<dots> = (limbs_val w2 + K1 * unat c) + K1 * unat b1 + K1 * unat d1" unfolding k by (simp add: algebra_simps)
        also have "\<dots> = X + D"
          unfolding ad'(2) E X_def by (simp add: limbs_val_append s(1) K1 P_def algebra_simps)
        finally show ?thesis .
      qed
      have NK: "N + K = X + unat q0 * D" using NP True by (simp add: K_def)
      have "P * (limbs_val [b0, b1] + 1) \<le> P * 2 ^ 128"
        using limbs_val_bound [of "[b0, b1]"] by (intro mult_le_mono2) (simp add: power_add)
      then have "P * limbs_val [b0, b1] + P \<le> P * 2 ^ 128" by (simp only: add_mult_distrib2 mult_1_right)
      then have XK: "X < K" using w unfolding X_def K_def by linarith
      then have NqD: "N < unat q0 * D" using NK by linarith
      then have "unat q0 \<noteq> 0" by (metis mult_0 not_less_zero)
      then have q1: "unat q0 = unat q + 1" using limb_decr [of q0] by (simp add: r unat_eq_zero)
      have DK: "D < K" using limbs_val_bound [of dp] len by (simp add: D_def K_def P_def power_add)
      have "unat q0 * Dl \<le> 2 ^ 64 * P" using unat_limb_less [of q0] Dl by (intro mult_le_mono) simp_all
      also have "\<dots> \<le> P * D2" using D2 by simp
      finally have "unat q0 * Dl \<le> D" by (simp add: D)
      moreover have "P * (unat q0 * D2) \<le> N" unfolding N_def N T3 by (simp add: algebra_simps)
      ultimately have "unat q * D \<le> N" unfolding D using q1 by (simp add: D algebra_simps)
      then obtain Z where Z: "N = unat q * D + Z" by (metis le_add_diff_inverse)
      have "Z < D" using NqD Z q1 by simp
      moreover have "Y = Z"
      proof (rule same_residue)
        show "Y + K * k = Z + K * 1" using Yk NK Z q1 by simp
        have "K1 * (unat n1' + 1) \<le> K1 * 2 ^ 64" using unat_limb_less [of n1'] by (intro mult_le_mono2) simp
        then have "K1 * unat n1' + K1 \<le> K1 * 2 ^ 64" by (simp only: add_mult_distrib2 mult_1_right)
        moreover have "limbs_val w2 < K1" using limbs_val_bound [of w2] ad'(1) by (simp add: K1_def)
        moreover have "K = K1 * 2 ^ 64" by (simp add: K_def K1)
        ultimately show "Y < K" unfolding Y_def by linarith
        show "Z < K" using \<open>Z < D\<close> DK by simp
      qed
      moreover have p2: "np' = put np i w2" unfolding r np1_def using np ad'(1) s(1) by (intro put_win) simp_all
      moreover have "limbs_val (win np' i (dn + 1) @ [n1']) = Y"
      proof -
        have "win np' i (dn + 1) = take (dn + 1) w2" unfolding p2 using np ad'(1) by (intro put_win) simp_all
        then show ?thesis using ad'(1) by (simp add: limbs_val_append Y_def K1_def algebra_simps)
      qed
      ultimately show ?thesis using np ad'(1) Z unfolding N_def by (simp add: put_win(2))
    qed
  qed
  then show "length np' = length np" "take i np' = take i np"
    "2 ^ 64 * limbs_val (win np (i + 1) (dn + 1) @ [n1]) + unat (np ! i) =
      unat q * limbs_val dp + limbs_val (win np' i (dn + 1) @ [n1'])"
    "limbs_val (win np' i (dn + 1) @ [n1']) < limbs_val dp" by (simp_all only: R_def x_def D_def)
qed

lemma sbpi1_loop_val:
  assumes len: "length dp = dn + 2" and norm: "2 ^ 63 \<le> unat (dp ! (dn + 1))"
    and inv: "is_inverse_2 (dp ! (dn + 1)) (dp ! dn) dinv" and "i + dn + 1 \<le> length np"
    and "limbs_val (win np i (dn + 1) @ [n1]) < limbs_val dp" and "sbpi1_loop dp dinv i n1 np = (qp, n1', np')"
  shows "length np' = length np \<and> length qp = i \<and>
    limbs_val (take i np) + 2 ^ (64 * i) * limbs_val (win np i (dn + 1) @ [n1]) =
      limbs_val qp * limbs_val dp + limbs_val (win np' 0 (dn + 1) @ [n1']) \<and>
    limbs_val (win np' 0 (dn + 1) @ [n1']) < limbs_val dp"
  using assms(4-6)
proof (induction i arbitrary: n1 np qp)
  case 0
  then show ?case by simp
next
  case (Suc i)
  obtain q m1 np1 where st: "sbpi1_step dp dinv i n1 np = (q, m1, np1)" by (metis surj_pair)
  obtain qs m2 np2 where lp: "sbpi1_loop dp dinv i m1 np1 = (qs, m2, np2)" by (metis surj_pair)
  have r: "qp = qs @ [q]" "n1' = m2" "np' = np2" using Suc.prems(3) st lp by simp_all
  have i: "i + dn + 2 \<le> length np" "i < length np" using Suc.prems(1) by simp_all
  note s = sbpi1_step_val [OF len norm inv i(1) _ st]
  have s': "length np1 = length np" "take i np1 = take i np"
    "2 ^ 64 * limbs_val (win np (Suc i) (dn + 1) @ [n1]) + unat (np ! i) =
      unat q * limbs_val dp + limbs_val (win np1 i (dn + 1) @ [m1])"
    "limbs_val (win np1 i (dn + 1) @ [m1]) < limbs_val dp"
    using s Suc.prems(2) by simp_all
  have IH: "length np2 = length np" "length qs = i"
    "limbs_val (take i np) + 2 ^ (64 * i) * limbs_val (win np1 i (dn + 1) @ [m1]) =
      limbs_val qs * limbs_val dp + limbs_val (win np2 0 (dn + 1) @ [m2])"
    "limbs_val (win np2 0 (dn + 1) @ [m2]) < limbs_val dp"
    using Suc.IH [of np1 m1 qs] s' i lp r by simp_all
  have "limbs_val (take (Suc i) np) = limbs_val (take i np) + 2 ^ (64 * i) * unat (np ! i)"
    using i(2) by (simp add: take_Suc_conv_app_nth limbs_val_append)
  then have "limbs_val (take (Suc i) np) + 2 ^ (64 * Suc i) * limbs_val (win np (Suc i) (dn + 1) @ [n1]) =
      limbs_val (take i np) + 2 ^ (64 * i) * (2 ^ 64 * limbs_val (win np (Suc i) (dn + 1) @ [n1]) + unat (np ! i))"
    by (simp add: power_add algebra_simps)
  also have "\<dots> = limbs_val qs * limbs_val dp + limbs_val (win np2 0 (dn + 1) @ [m2]) + 2 ^ (64 * i) * (unat q * limbs_val dp)"
    unfolding s'(3) using IH(3) by (simp add: algebra_simps)
  finally show ?case using IH unfolding r by (simp add: limbs_val_append algebra_simps)
qed

lemma mpn_sbpi1_div_qr_val:
  assumes len: "2 \<le> length dp" "length dp \<le> length np" and norm: "2 ^ 63 \<le> unat (last dp)"
    and dinv: "dinv = invert_pi1 (dp ! (length dp - 1)) (dp ! (length dp - 2))"
    and res: "mpn_sbpi1_div_qr np dp dinv = (qh, qp, np')"
  shows "length qp = length np - length dp" and "unat qh \<le> 1" and "length np' = length np"
    and "limbs_val (take (length dp) np') < limbs_val dp"
    and "limbs_val np = limbs_val (qp @ [qh]) * limbs_val dp + limbs_val (take (length dp) np')"
proof -
  define m k where "m = length dp" and "k = length np - length dp"
  define D where "D = limbs_val dp"
  have m: "2 \<le> m" "k + m = length np" using len by (simp_all add: m_def k_def)
  define U where "U = drop k np"
  have lU: "length U = length dp" using m by (simp add: U_def m_def)
  have top: "dp ! (length dp - 1) = last dp" using len(1) by (subst last_conv_nth) auto
  have D2: "2 ^ (64 * m) \<le> 2 * D"
  proof -
    obtain xs where xs: "dp = xs @ [last dp]" using len(1) by (metis append_butlast_last_id list.size(3) not_numeral_le_zero)
    then have "length xs = m - 1" unfolding m_def by (metis length_append_singleton diff_Suc_1)
    then have "D = limbs_val xs + 2 ^ (64 * (m - 1)) * unat (last dp)" using arg_cong [OF xs, of limbs_val] by (simp add: limbs_val_append D_def)
    moreover have "2 ^ (64 * (m - 1)) * 2 ^ 63 \<le> 2 ^ (64 * (m - 1)) * unat (last dp)" using norm by (intro mult_le_mono2) simp
    moreover have "(2 :: nat) ^ (64 * m) = 2 * (2 ^ (64 * (m - 1)) * 2 ^ 63)"
    proof -
      have "64 * m = 64 * (m - 1) + 64" using m(1) by simp
      then have "(2 :: nat) ^ (64 * m) = 2 ^ (64 * (m - 1)) * 2 ^ 64" by (simp only: power_add)
      then show ?thesis by simp
    qed
    ultimately show ?thesis by linarith
  qed
  define h where "h \<longleftrightarrow> D \<le> limbs_val U"
  have h: "limb_of (0 \<le> mpn_cmp U dp) = limb_of h" using mpn_cmp_val [OF lU] by (simp add: h_def D_def)
  define np1 where "np1 = (if h then put np k (snd (mpn_sub_n U dp)) else np)"
  have sub: "h \<Longrightarrow> length (snd (mpn_sub_n U dp)) = m \<and> limbs_val (snd (mpn_sub_n U dp)) = limbs_val U - D"
    using mpn_sub_n_exact [of dp U] lU by (simp add: h_def D_def m_def)
  have np1: "length np1 = length np" "take k np1 = take k np" "limbs_val (drop k np1) + of_bool h * D = limbs_val U"
  proof -
    have "drop k (put np k ws) = ws" if "length ws = m" for ws
      using that m(2) by (simp add: put_def)
    then show "length np1 = length np" "take k np1 = take k np" "limbs_val (drop k np1) + of_bool h * D = limbs_val U"
      using sub m by (auto simp: np1_def put_win(2) U_def h_def)
  qed
  have "limbs_val U < 2 ^ (64 * m)" using limbs_val_bound [of U] lU by (simp add: m_def)
  then have lt: "limbs_val (drop k np1) < D" using np1(3) D2 by (cases h) (auto simp: h_def)
  obtain n where n: "m = n + 2" using m(1) by (metis le_add_diff_inverse2)
  have w: "win np1 k (n + 1) @ [np1 ! (length np - 1)] = drop k np1"
  proof -
    have "length np - 1 = k + (n + 1)" using m n by simp
    then have "win np1 k (n + 1) @ [np1 ! (length np - 1)] = win np1 k (Suc (n + 1))"
      using win_snoc [of k "n + 1" np1] m n np1(1) by simp
    then show ?thesis using m n np1(1) by (simp add: win_def)
  qed
  obtain q2 n2 np2 where lp: "sbpi1_loop dp dinv k (np1 ! (length np - 1)) np1 = (q2, n2, np2)" by (metis surj_pair)
  have r: "qh = limb_of h" "qp = q2" "np' = np2[length dp - 1 := n2]"
  proof -
    have "limb_of h \<noteq> 0 \<longleftrightarrow> h" by (simp add: limb_of_def)
    then show "qh = limb_of h" "qp = q2" "np' = np2[length dp - 1 := n2]"
      using res lp unfolding mpn_sbpi1_div_qr_def Let_def k_def [symmetric] U_def [symmetric] h
      by (simp_all add: np1_def [symmetric] k_def [symmetric])
  qed
  have ld: "length dp = n + 2" using n by (simp add: m_def)
  have inv: "is_inverse_2 (dp ! (n + 1)) (dp ! n) dinv"
    unfolding dinv using invert_pi1_val norm top ld by simp
  note s = sbpi1_loop_val [OF ld _ inv _ _ lp]
  have s': "length np2 = length np" "length q2 = k"
    "limbs_val (take k np) + 2 ^ (64 * k) * limbs_val (drop k np1) = limbs_val q2 * D + limbs_val (win np2 0 (n + 1) @ [n2])"
    "limbs_val (win np2 0 (n + 1) @ [n2]) < D"
    using s norm top ld m n np1 w lt by (simp_all add: D_def)
  have tk: "take (length dp) np' = win np2 0 (n + 1) @ [n2]"
  proof -
    have "length dp = Suc (n + 1)" "n + 1 < length np'" using ld r s'(1) m n by simp_all
    then have "take (length dp) np' = take (n + 1) np' @ [np' ! (n + 1)]" by (simp only: take_Suc_conv_app_nth)
    then show ?thesis using r(3) ld s'(1) m n by (simp add: win_def)
  qed
  show "length qp = length np - length dp" "unat qh \<le> 1" "length np' = length np"
    using r s' by (simp_all add: k_def)
  show "limbs_val (take (length dp) np') < limbs_val dp" using s'(4) tk by (simp add: D_def)
  have "limbs_val np = limbs_val (take k np) + 2 ^ (64 * k) * limbs_val U"
    using limbs_val_split [of np k] m by (simp add: U_def)
  also have "\<dots> = limbs_val (take k np) + 2 ^ (64 * k) * limbs_val (drop k np1) + 2 ^ (64 * k) * (of_bool h * D)"
    unfolding np1(3) [symmetric] by (simp add: algebra_simps)
  finally show "limbs_val np = limbs_val (qp @ [qh]) * limbs_val dp + limbs_val (take (length dp) np')"
    unfolding s'(3) tk unfolding r limbs_val_append by (simp add: s'(2) D_def algebra_simps)
qed

end
