(* ===== verification/Gmp_Tdiv.thy ===== *)
theory Gmp_Tdiv
  imports Gmp_Div
begin

unbundle bit_operations_syntax

text \<open>
  Quotient and remainder of limbs, \<open>mpn_tdiv_qr\<close> (\<open>gmp-6.2.1/mpn/generic/tdiv_qr.c\<close>), and the case of two limbs. The division normalizes the divisor; when the quotient is short, it
  divides the high limbs only, corrects the quotient by one, and then subtracts what was left out. The
  product of limbs and the division above \<open>DC_DIV_QR_THRESHOLD\<close> are arguments. A quotient that is decremented
  past its end, an array that is read past its end and a failed \<open>ASSERT_ALWAYS\<close> are outcomes.
\<close>

definition DC_DIV_QR_THRESHOLD :: nat where
  "DC_DIV_QR_THRESHOLD = 2 * MUL_TOOM22_THRESHOLD"

text \<open>\<open>mpn_decr_u (p, 1)\<close>.\<close>

fun mpn_decr_1 :: "limbs \<Rightarrow> limbs outcome" where
  "mpn_decr_1 [] = Inl OutOfBounds"
| "mpn_decr_1 (x # xs) = (if x = 0 then bindO (mpn_decr_1 xs) (\<lambda>xs. Inr ((x - 1) # xs)) else Inr ((x - 1) # xs))"

text \<open>\<open>mpn_sub_1 (rp, rp, n, v)\<close> in an area that may have less than \<open>n\<close> limbs.\<close>

definition sub_1_area :: "limbs \<Rightarrow> nat \<Rightarrow> limb \<Rightarrow> (limb \<times> limbs) outcome" where
  "sub_1_area rp n v =
     (let (cy, r) = mpn_sub_1 (take n rp) v
      in if n \<le> length rp then Inr (cy, r @ drop n rp) else if cy \<noteq> 0 then Inl OutOfBounds else Inr (0, r))"

subsection \<open>Two limbs\<close>

definition tdiv_2 :: "limbs \<Rightarrow> limbs \<Rightarrow> limbs \<times> limbs" where
  "tdiv_2 np dp =
     (let nn = length np
      in if dp ! 1 AND GMP_LIMB_HIGHBIT = 0 then
           let cnt = count_leading_zeros (dp ! 1);
               d2p = [push_bit cnt (dp ! 0), push_bit cnt (dp ! 1) OR drop_bit (64 - cnt) (dp ! 0)];
               (cy, n2p) = mpn_lshift np cnt; n2p = n2p @ [cy];
               (qhl, qp, n2p) = mpn_divrem_2 0 (take (nn + of_bool (cy \<noteq> 0)) n2p) d2p;
               qp = (if cy = 0 then qp @ [qhl] else qp)
           in (qp, [drop_bit cnt (n2p ! 0) OR push_bit (64 - cnt) (n2p ! 1), drop_bit cnt (n2p ! 1)])
         else
           let (qhl, qp, n2p) = mpn_divrem_2 0 np dp in (qp @ [qhl], n2p))"

subsection \<open>A long quotient\<close>

type_synonym div_big = "limbs \<Rightarrow> limbs \<Rightarrow> (limbs \<times> limbs) outcome"

text \<open>The call of the division for the size of the divisor; the high quotient limb is not looked at.\<close>

definition div_qr :: "div_big \<Rightarrow> limbs \<Rightarrow> limbs \<Rightarrow> (limbs \<times> limbs) outcome" where
  "div_qr div_big n2p d2p =
     (let dn = length d2p; dinv = invert_pi1 (d2p ! (dn - 1)) (d2p ! (dn - 2))
      in if dn < DC_DIV_QR_THRESHOLD then
           let (qh, qp, n2p) = mpn_sbpi1_div_qr n2p d2p dinv in Inr (qp, n2p)
         else div_big n2p d2p)"

definition tdiv_long :: "div_big \<Rightarrow> nat \<Rightarrow> limbs \<Rightarrow> limbs \<Rightarrow> (limbs \<times> limbs) outcome" where
  "tdiv_long div_big adjust np dp =
     (let nn = length np; dn = length dp;
          (cnt, d2p, n2p) =
            (if last dp AND GMP_LIMB_HIGHBIT = 0 then
               let cnt = count_leading_zeros (last dp); (cy, n2p) = mpn_lshift np cnt
               in (cnt, snd (mpn_lshift dp cnt), n2p @ [cy])
             else (0, dp, np @ [0]))
      in bindO (div_qr div_big (take (nn + adjust) n2p) d2p) (\<lambda>(qp, n2p).
         Inr (qp @ replicate (1 - adjust) 0,
              if cnt \<noteq> 0 then snd (mpn_rshift (take dn n2p) cnt) else take dn n2p)))"

subsection \<open>A short quotient\<close>

text \<open>The high limbs of the shifted operands: \<open>2 * qn\<close> of the numerator and \<open>qn\<close> of the denominator.\<close>

definition short_operands :: "nat \<Rightarrow> nat \<Rightarrow> nat \<Rightarrow> limbs \<Rightarrow> limbs \<Rightarrow> limbs \<times> limbs" where
  "short_operands adjust qn cnt np dp =
     (let k = length np - 2 * qn; i = length dp - qn
      in if cnt \<noteq> 0 then
           let d2p = snd (mpn_lshift (drop i dp) cnt); d2p = d2p[0 := d2p ! 0 OR drop_bit (64 - cnt) (dp ! (i - 1))];
               (cy, n2p) = mpn_lshift (drop k np) cnt;
               n2p = (if adjust \<noteq> 0 then tl (n2p @ [cy]) else n2p[0 := n2p ! 0 OR drop_bit (64 - cnt) (np ! (k - 1))])
           in (n2p, d2p)
         else
           let n2p = (if adjust \<noteq> 0 then tl (drop k np @ [0]) else drop k np)
           in (n2p, drop i dp))"

text \<open>The quotient of the high limbs, and their array with the remainder in its low limbs.\<close>

definition short_estimate :: "div_big \<Rightarrow> limbs \<Rightarrow> limbs \<Rightarrow> (limbs \<times> limbs) outcome" where
  "short_estimate div_big n2p d2p =
     (if length d2p = 1 then let (q0, r0) = udiv_qrnnd (n2p ! 1) (n2p ! 0) (d2p ! 0) in Inr ([q0], n2p[0 := r0])
      else if length d2p = 2 then let (_, qp, rp) = mpn_divrem_2 0 n2p d2p in Inr (qp, rp @ drop 2 n2p)
      else div_qr div_big n2p d2p)"

text \<open>
  The test that catches a quotient that is too large by two. \<open>x\<close> are the bits of the denominator behind those
  in \<open>d2p\<close>. From here on the list \<open>n2p\<close> has the \<open>rn\<close> limbs of the partial remainder.
\<close>

definition short_test :: "nat \<Rightarrow> nat \<Rightarrow> limbs \<Rightarrow> limbs \<Rightarrow> limbs \<Rightarrow> limbs \<Rightarrow> (limbs \<times> limbs) outcome" where
  "short_test qn cnt dp d2p qp n2p =
     (let i = length dp - qn; dl = (if i < 2 then 0 else dp ! (i - 2));
          x = push_bit cnt (dp ! (i - 1)) OR drop_bit (63 - cnt) (drop_bit 1 dl);
          (h, _) = umul_ppmm x (qp ! (qn - 1))
      in if n2p ! (qn - 1) < h then
           bindO (mpn_decr_1 qp) (\<lambda>qp.
           let (cy, n2p) = mpn_add_n (take qn n2p) d2p in Inr (qp, if cy \<noteq> 0 then n2p @ [cy] else n2p))
         else Inr (qp, take qn n2p))"

text \<open>
  The partial remainder with the rest of the limb \<open>in - 1\<close> of both operands, whether it is negative, and
  the new \<open>in\<close>.
\<close>

definition short_partial ::
  "nat \<Rightarrow> nat \<Rightarrow> nat \<Rightarrow> limbs \<Rightarrow> limbs \<Rightarrow> limbs \<Rightarrow> limbs \<Rightarrow> (limbs \<times> bool \<times> nat) outcome"
where
  "short_partial qn cnt i np dp qp n2p =
     (if cnt = 0 then Inr (n2p, False, i)
      else
        let rn = length n2p; low = drop_bit cnt (- 1);
            (cy1, n2p) = mpn_lshift n2p (64 - cnt); n2p = n2p[0 := n2p ! 0 OR (np ! (i - 1) AND low)];
            (cy2, wp) = mpn_submul_1 (take qn n2p) (take qn qp) (dp ! (i - 1) AND low); n2p = wp @ drop qn n2p
        in if qn \<noteq> rn then
             if n2p ! qn < cy2 then Inl AssertFail else Inr (n2p[qn := n2p ! qn - cy2], False, i - 1)
           else Inr (n2p @ [cy1 - cy2], cy1 < cy2, i - 1))"

text \<open>The rest of the product, and the last correction.\<close>

definition short_finish ::
  "(limbs \<Rightarrow> limbs \<Rightarrow> limbs outcome) \<Rightarrow> nat \<Rightarrow> nat \<Rightarrow> bool \<Rightarrow> limbs \<Rightarrow> limbs \<Rightarrow> limbs \<Rightarrow> limbs \<Rightarrow> (limbs \<times> limbs) outcome"
where
  "short_finish mul qn i large np dp qp n2p =
     (let dn = length dp; rn = length n2p
      in bindO
        (if i < qn \<and> i = 0 then if rn = dn then Inr (n2p, large) else Inl AssertFail
         else
           bindO (if i < qn then mul (take qn qp) (take i dp) else mul (take i dp) (take qn qp)) (\<lambda>tp.
           let (cy, n2p) = mpn_sub n2p (take qn (drop i tp)); high = take (dn - i) n2p; large = (large \<or> cy \<noteq> 0);
               (cy, low) = mpn_sub_n (take i np) (take i tp)
           in bindO (sub_1_area high rn cy) (\<lambda>(cy, high). Inr (low @ high, large \<or> cy \<noteq> 0))))
        (\<lambda>(rp, large).
         if large then bindO (mpn_decr_1 qp) (\<lambda>qp. Inr (qp, snd (mpn_add_n rp dp))) else Inr (qp, rp)))"

definition tdiv_short ::
  "(limbs \<Rightarrow> limbs \<Rightarrow> limbs outcome) \<Rightarrow> div_big \<Rightarrow> nat \<Rightarrow> limbs \<Rightarrow> limbs \<Rightarrow> (limbs \<times> limbs) outcome"
where
  "tdiv_short mul div_big adjust np dp =
     (let nn = length np; dn = length dp; qn = nn - dn + adjust
      in if qn = 0 then Inr ([0], take dn np)
         else
           let cnt = (if last dp AND GMP_LIMB_HIGHBIT = 0 then count_leading_zeros (last dp) else 0);
               (n2p, d2p) = short_operands adjust qn cnt np dp
           in bindO (short_estimate div_big n2p d2p) (\<lambda>(qp, n2p).
              bindO (short_test qn cnt dp d2p (qp @ replicate (1 - adjust) 0) n2p) (\<lambda>(qp, n2p).
              bindO (short_partial qn cnt (dn - qn) np dp qp n2p) (\<lambda>(n2p, large, i).
              short_finish mul qn i large np dp qp n2p))))"

subsection \<open>\<open>mpn_tdiv_qr\<close>\<close>

definition mpn_tdiv_qr ::
  "(limbs \<Rightarrow> limbs \<Rightarrow> limbs outcome) \<Rightarrow> div_big \<Rightarrow> limbs \<Rightarrow> limbs \<Rightarrow> (limbs \<times> limbs) outcome"
where
  "mpn_tdiv_qr mul div_big np dp =
     (let nn = length np; dn = length dp
      in if dn = 0 then Inl DivByZero
         else if dn = 1 then let (qp, r) = mpn_divrem_1 0 np (dp ! 0) in Inr (qp, [r])
         else if dn = 2 then Inr (tdiv_2 np dp)
         else
           let adjust = of_bool (dp ! (dn - 1) \<le> np ! (nn - 1))
           in if 2 * dn \<le> nn + adjust then tdiv_long div_big adjust np dp
              else tdiv_short mul div_big adjust np dp)"

subsection \<open>Facts about the values of limbs\<close>

lemma limbs_val_take_small:
  assumes "limbs_val xs < 2 ^ (64 * k)"
  shows "limbs_val (take k xs) = limbs_val xs"
proof (cases "k < length xs")
  case True
  then have v: "limbs_val xs = limbs_val (take k xs) + 2 ^ (64 * k) * limbs_val (drop k xs)"
    using limbs_val_split [of xs k] by simp
  have "limbs_val (drop k xs) = 0"
  proof (rule ccontr)
    assume "limbs_val (drop k xs) \<noteq> 0"
    then have "2 ^ (64 * k) * 1 \<le> 2 ^ (64 * k) * limbs_val (drop k xs)" by (intro mult_le_mono2) simp
    then show False using v assms by linarith
  qed
  then show ?thesis using v by simp
qed simp

lemma limbs_val_drop: "k \<le> length xs \<Longrightarrow> limbs_val (drop k xs) = limbs_val xs div 2 ^ (64 * k)"
  using limbs_val_split [of xs k] limbs_val_bound [of "take k xs"] by simp

lemma limbs_val_take: "k \<le> length xs \<Longrightarrow> limbs_val (take k xs) = limbs_val xs mod 2 ^ (64 * k)"
  using limbs_val_split [of xs k] limbs_val_bound [of "take k xs"] by simp

lemma limbs_val_nth:
  assumes "k < length xs"
  shows "limbs_val xs div 2 ^ (64 * k) = unat (xs ! k) + 2 ^ 64 * (limbs_val xs div 2 ^ (64 * Suc k))"
proof -
  have "drop k xs = xs ! k # drop (Suc k) xs" using assms by (simp add: Cons_nth_drop_Suc)
  then have "limbs_val (drop k xs) = unat (xs ! k) + 2 ^ 64 * limbs_val (drop (Suc k) xs)" by simp
  then show ?thesis using assms by (simp only: limbs_val_drop less_imp_le Suc_le_eq)
qed

lemma limbs_val_snoc: "limbs_val (xs @ [x]) = limbs_val xs + 2 ^ (64 * length xs) * unat x"
  by (simp add: limbs_val_append)

lemma limbs_val_last:
  assumes "length xs = Suc n"
  shows "limbs_val xs = limbs_val (take n xs) + 2 ^ (64 * n) * unat (last xs)" and "limbs_val (take n xs) < 2 ^ (64 * n)"
proof -
  have ne: "xs \<noteq> []" using assms by auto
  have "take n xs = butlast xs" using assms by (simp add: butlast_conv_take)
  then have "xs = take n xs @ [last xs]" using ne by simp
  then show "limbs_val xs = limbs_val (take n xs) + 2 ^ (64 * n) * unat (last xs)"
    using limbs_val_snoc [of "take n xs" "last xs"] assms by simp
  show "limbs_val (take n xs) < 2 ^ (64 * n)" using limbs_val_bound [of "take n xs"] assms by simp
qed

lemma last_normalized:
  assumes "xs \<noteq> []" and "2 ^ (64 * length xs) \<le> 2 * limbs_val xs"
  shows "2 ^ 63 \<le> unat (last xs)"
proof -
  obtain n where n: "length xs = Suc n" using assms(1) by (cases xs) auto
  define P where "P = (2 :: nat) ^ (64 * n)"
  have P: "0 < P" "2 ^ (64 * length xs) = 2 * (P * 2 ^ 63)" unfolding P_def n by (simp_all add: power_add)
  have "limbs_val xs < P + P * unat (last xs)" using limbs_val_last [OF n] by (simp add: P_def)
  moreover have "P * (1 + unat (last xs)) = P + P * unat (last xs)" by (simp add: algebra_simps)
  ultimately have "P * 2 ^ 63 < P * (1 + unat (last xs))" using assms(2) unfolding P(2) by linarith
  then have "2 ^ 63 < 1 + unat (last xs)" by (simp only: mult_less_cancel1)
  then show ?thesis by linarith
qed

text \<open>Bits that go into the place a shift has freed.\<close>

lemma or_low:
  fixes x y :: limb
  assumes "unat y mod 2 ^ k = 0" and "unat x < 2 ^ k" and "k \<le> 64"
  shows "unat (y OR x) = unat y + unat x"
proof -
  have e: "unat y = unat (drop_bit k y) * 2 ^ k" using assms(1) by (simp add: unat_drop dvd_eq_mod_eq_0 mod_0_imp_dvd)
  have m: "unat (drop_bit k y) mod 2 ^ (64 - k) = unat (drop_bit k y)"
    using drop_small [OF assms(3), of y] by simp
  have "unat (push_bit k (drop_bit k y)) = unat y" using unat_push [OF assms(3), of "drop_bit k y"] m e by simp
  then have "push_bit k (drop_bit k y) = y" by (simp only: word_unat_eq_iff)
  then show ?thesis using limb_or_push [OF assms(2,3), of "drop_bit k y"] m e by (simp add: or.commute)
qed

lemma or_first:
  assumes "ys \<noteq> []" and "limbs_val ys mod 2 ^ k = 0" and "unat x < 2 ^ k" and "k \<le> 64"
  shows "length (ys[0 := ys ! 0 OR x]) = length ys" and "limbs_val (ys[0 := ys ! 0 OR x]) = limbs_val ys + unat x"
proof -
  obtain y zs where ys: "ys = y # zs" using assms(1) by (cases ys) auto
  have d: "(2 :: nat) ^ k dvd 2 ^ 64 * limbs_val zs" using assms(4) by (intro dvd_mult2 le_imp_power_dvd)
  then have "unat y mod 2 ^ k = 0"
    using assms(2) by (simp add: ys dvd_add_left_iff flip: dvd_eq_mod_eq_0)
  then have "unat (y OR x) = unat y + unat x" using assms(3,4) by (rule or_low)
  then show "limbs_val (ys[0 := ys ! 0 OR x]) = limbs_val ys + unat x" by (simp add: ys)
qed simp

text \<open>What a division of limbs returns: as many quotient limbs as fit and a remainder of the divisor's size.\<close>

definition quotient_of :: "limbs \<Rightarrow> limbs \<Rightarrow> limbs \<times> limbs \<Rightarrow> bool" where
  "quotient_of np dp = (\<lambda>(qp, rp). length qp = length np - length dp + 1 \<and> length rp = length dp \<and>
     limbs_val rp < limbs_val dp \<and> limbs_val np = limbs_val qp * limbs_val dp + limbs_val rp)"

lemma scaled_division:
  fixes s :: nat
  assumes "s * N = Q * (s * D) + R" and "R < s * D"
  shows "N = Q * D + R div s" and "R div s < D" and "R = s * (R div s)"
proof -
  have s: "0 < s" using assms(2) by (cases s) auto
  have "s dvd Q * (s * D) + R" unfolding assms(1) [symmetric] by simp
  then have "s dvd R" by (simp add: dvd_add_right_iff)
  then show R: "R = s * (R div s)" by simp
  have "s * N = s * (Q * D + R div s)" using assms(1) R by (simp add: algebra_simps)
  then show "N = Q * D + R div s" using s by simp
  have "s * (R div s) < s * D" using R assms(2) by simp
  then show "R div s < D" by simp
qed

lemma shifted_pair:
  assumes "0 < cnt" and "cnt < 64" and "2 ^ cnt * unat d1 < 2 ^ 64"
  shows "limbs_val [push_bit cnt d0, push_bit cnt d1 OR drop_bit (64 - cnt) d0] = 2 ^ cnt * limbs_val [d0, d1]"
proof -
  have "(2 :: nat) ^ 64 = 2 ^ cnt * 2 ^ (64 - cnt)" using assms(2) by (metis le_add_diff_inverse less_imp_le power_add)
  then have "unat d1 < 2 ^ (64 - cnt)" using assms(3) by (simp only: mult_less_cancel1)
  then have "unat (push_bit cnt d1 OR drop_bit (64 - cnt) d0) = unat d1 * 2 ^ cnt + unat d0 div 2 ^ (64 - cnt)"
    using nshift_val [OF assms(1,2), of d1 d0] by simp
  moreover have "unat (push_bit cnt d0) = (unat d0 mod 2 ^ (64 - cnt)) * 2 ^ cnt"
    using unat_push [of cnt d0] assms(2) by simp
  moreover have "(unat d0 mod 2 ^ (64 - cnt)) * 2 ^ cnt + 2 ^ 64 * (unat d0 div 2 ^ (64 - cnt)) = 2 ^ cnt * unat d0"
    using split_limb [of "64 - cnt" d0] assms(2) by simp
  ultimately show ?thesis by (simp add: algebra_simps)
qed

lemma shifted_back_pair:
  assumes "0 < cnt" and "cnt < 64"
  shows "limbs_val [drop_bit cnt n0 OR push_bit (64 - cnt) n1, drop_bit cnt n1] = limbs_val [n0, n1] div 2 ^ cnt"
proof -
  have lo: "unat (drop_bit cnt n0 OR push_bit (64 - cnt) n1) = unat n0 div 2 ^ cnt + (unat n1 mod 2 ^ cnt) * 2 ^ (64 - cnt)"
    using limb_or_push [OF drop_small [of cnt n0], of n1] assms by (simp add: unat_drop)
  have b: "(2 :: nat) ^ 64 = 2 ^ cnt * 2 ^ (64 - cnt)" using assms(2) by (metis le_add_diff_inverse less_imp_le power_add)
  have "(unat n1 mod 2 ^ cnt) * 2 ^ (64 - cnt) + 2 ^ 64 * (unat n1 div 2 ^ cnt) = 2 ^ (64 - cnt) * unat n1"
    using split_limb [of cnt n1] assms by simp
  then have "limbs_val [drop_bit cnt n0 OR push_bit (64 - cnt) n1, drop_bit cnt n1] =
      unat n0 div 2 ^ cnt + 2 ^ (64 - cnt) * unat n1"
    using lo by (simp add: unat_drop)
  moreover have "limbs_val [n0, n1] div 2 ^ cnt = (unat n0 + 2 ^ cnt * (2 ^ (64 - cnt) * unat n1)) div 2 ^ cnt"
    unfolding mult.assoc [symmetric] b [symmetric] by simp
  ultimately show ?thesis by simp
qed

text \<open>The limbs of a shifted number, with the bits that leave the highest one.\<close>

lemma lshift_carry:
  assumes "0 < cnt" and "cnt < 64" and "up \<noteq> []" and "mpn_lshift up cnt = (c, rp)"
  shows "length (rp @ [c]) = Suc (length up)" and "limbs_val (rp @ [c]) = 2 ^ cnt * limbs_val up"
    and "2 ^ cnt * limbs_val up < 2 ^ (64 * length up) \<Longrightarrow> limbs_val rp = 2 ^ cnt * limbs_val up \<and> c = 0"
proof -
  note v = mpn_lshift_val [OF assms]
  show "length (rp @ [c]) = Suc (length up)" using v(1) by simp
  show e: "limbs_val (rp @ [c]) = 2 ^ cnt * limbs_val up" using v by (simp add: limbs_val_snoc)
  assume lt: "2 ^ cnt * limbs_val up < 2 ^ (64 * length up)"
  have "limbs_val (take (length up) (rp @ [c])) = limbs_val (rp @ [c])"
    by (rule limbs_val_take_small) (simp only: e lt)
  then have r: "limbs_val rp = 2 ^ cnt * limbs_val up" using v(1) e by simp
  then have "2 ^ (64 * length up) * unat c = 0" using v(2) by simp
  then show "limbs_val rp = 2 ^ cnt * limbs_val up \<and> c = 0" using r by (simp add: unat_eq_0)
qed

text \<open>The shift of a divisor, with what it makes of its highest limb.\<close>

lemma normalizing_shift:
  assumes "dp \<noteq> []" and "last dp \<noteq> 0" and "last dp AND GMP_LIMB_HIGHBIT = 0"
  defines "cnt \<equiv> count_leading_zeros (last dp)"
  shows "0 < cnt" and "cnt < 64" and "2 ^ cnt * limbs_val dp < 2 ^ (64 * length dp)"
    and "2 ^ (64 * length dp) \<le> 2 * (2 ^ cnt * limbs_val dp)"
proof -
  obtain n where n: "length dp = Suc n" using assms(1) by (cases dp) auto
  define P where "P = (2 :: nat) ^ (64 * n)"
  have P: "2 ^ (64 * length dp) = P * 2 ^ 64" unfolding P_def n by (simp add: power_add)
  note z = count_leading_zeros_val [OF assms(2), folded cnt_def]
  have small: "unat (last dp) < 2 ^ 63" using high_bit [of "last dp"] assms(3) by linarith
  show pos: "0 < cnt"
  proof (rule ccontr)
    assume "\<not> 0 < cnt"
    then show False using z(2) small by simp
  qed
  show "cnt < 64" by (rule z(1))
  note v = limbs_val_last [OF n, folded P_def]
  have "2 ^ cnt * unat (last dp) + 2 ^ cnt \<le> 2 ^ 64"
  proof -
    have e: "(2 :: nat) ^ 64 = 2 ^ cnt * 2 ^ (64 - cnt)" using z(1) by (metis le_add_diff_inverse less_imp_le power_add)
    then have "unat (last dp) < 2 ^ (64 - cnt)" using z(3) by (simp only: mult_less_cancel1)
    then have "2 ^ cnt * (unat (last dp) + 1) \<le> 2 ^ cnt * 2 ^ (64 - cnt)" by (intro mult_le_mono2) simp
    then show ?thesis unfolding e by simp
  qed
  then have "P * (2 ^ cnt * unat (last dp) + 2 ^ cnt) \<le> P * 2 ^ 64" by (rule mult_le_mono2)
  moreover have "2 ^ cnt * limbs_val dp < 2 ^ cnt * (P * unat (last dp) + P)" using v by simp
  moreover have "2 ^ cnt * (P * unat (last dp) + P) = P * (2 ^ cnt * unat (last dp) + 2 ^ cnt)"
    by (simp add: algebra_simps)
  ultimately show "2 ^ cnt * limbs_val dp < 2 ^ (64 * length dp)" unfolding P by linarith
  have "P * 2 ^ 63 \<le> P * (2 ^ cnt * unat (last dp))" using z(2) by (rule mult_le_mono2)
  moreover have "P * (2 ^ cnt * unat (last dp)) \<le> 2 ^ cnt * limbs_val dp" using v by (simp add: algebra_simps)
  moreover have "P * 2 ^ 64 = 2 * (P * 2 ^ 63)" by simp
  ultimately show "2 ^ (64 * length dp) \<le> 2 * (2 ^ cnt * limbs_val dp)" unfolding P by linarith
qed

lemma normalized_value:
  assumes "dp \<noteq> []" and "last dp AND GMP_LIMB_HIGHBIT \<noteq> 0"
  shows "2 ^ (64 * length dp) \<le> 2 * limbs_val dp"
proof -
  obtain n where n: "length dp = Suc n" using assms(1) by (cases dp) auto
  have "2 ^ (64 * n) * 2 ^ 63 \<le> 2 ^ (64 * n) * unat (last dp)" using assms(2) by (intro mult_le_mono2) (simp only: high_bit)
  moreover have "(2 :: nat) ^ (64 * length dp) = 2 * (2 ^ (64 * n) * 2 ^ 63)" by (simp add: n power_add)
  ultimately show ?thesis using limbs_val_last(1) [OF n] by linarith
qed

lemma tdiv_2_val:
  assumes len: "length dp = 2" "2 \<le> length np" and nz: "dp ! 1 \<noteq> 0"
  shows "quotient_of np dp (tdiv_2 np dp)"
proof -
  have ne2: "dp \<noteq> []" using len(1) by auto
  have dp: "dp \<noteq> []" "last dp = dp ! 1" "dp = [dp ! 0, dp ! 1]"
    using last_conv_nth [OF ne2] ne2 len(1) pair_list [OF len(1)] by simp_all
  show ?thesis
  proof (cases "dp ! 1 AND GMP_LIMB_HIGHBIT = 0")
    case False
    obtain qh qp rp where r: "mpn_divrem_2 0 np dp = (qh, qp, rp)" by (metis surj_pair)
    have "2 ^ 63 \<le> unat (dp ! 1)" using False by (simp only: high_bit)
    from mpn_divrem_2_val [OF len(2,1) this r] show ?thesis
      using False r len by (simp add: tdiv_2_def quotient_of_def Let_def)
  next
    case True
    define cnt where "cnt = count_leading_zeros (dp ! 1)"
    have sh: "0 < cnt" "cnt < 64" "2 ^ cnt * limbs_val dp < 2 ^ 128" "2 ^ 128 \<le> 2 * (2 ^ cnt * limbs_val dp)"
      using normalizing_shift [OF dp(1)] nz True by (simp_all add: dp(2) cnt_def len(1))
    define d2p where "d2p = [push_bit cnt (dp ! 0), push_bit cnt (dp ! 1) OR drop_bit (64 - cnt) (dp ! 0)]"
    obtain cy n2p where n2p: "mpn_lshift np cnt = (cy, n2p)" by fastforce
    define N where "N = take (length np + of_bool (cy \<noteq> 0)) (n2p @ [cy])"
    obtain qh qp rp where r: "mpn_divrem_2 0 N d2p = (qh, qp, rp)" by (metis surj_pair)
    have res: "tdiv_2 np dp = (if cy = 0 then qp @ [qh] else qp,
        [drop_bit cnt (rp ! 0) OR push_bit (64 - cnt) (rp ! 1), drop_bit cnt (rp ! 1)])"
      using True n2p r by (simp add: tdiv_2_def Let_def N_def cnt_def d2p_def)
    have "2 ^ cnt * unat (dp ! 1) < 2 ^ 64" using count_leading_zeros_val(3) [OF nz] by (simp add: cnt_def)
    then have d2: "limbs_val d2p = 2 ^ cnt * limbs_val dp"
      unfolding d2p_def using shifted_pair [OF sh(1,2)] dp(3) by metis
    have ld: "length d2p = 2" "d2p \<noteq> []" "last d2p = d2p ! 1" by (simp_all add: d2p_def)
    have top: "2 ^ 63 \<le> unat (d2p ! 1)" using last_normalized [OF ld(2)] sh(4) by (simp add: ld(1) ld(3) d2)
    have ne: "np \<noteq> []" using len(2) by auto
    note c = lshift_carry [OF sh(1,2) ne n2p]
    have N: "length N = length np + of_bool (cy \<noteq> 0)" "limbs_val N = 2 ^ cnt * limbs_val np"
      using c(1,2) by (auto simp: N_def limbs_val_snoc)
    have "2 \<le> length N" using len(2) N(1) by simp
    note d = mpn_divrem_2_val [OF this ld(1) top r]
    have eq: "2 ^ cnt * limbs_val np = limbs_val (qp @ [qh]) * (2 ^ cnt * limbs_val dp) + limbs_val rp"
      using d(5) N(2) d2 by simp
    have lt: "limbs_val rp < 2 ^ cnt * limbs_val dp" using d(4) d2 by simp
    note s = scaled_division [OF eq lt]
    have qh: "qh = 0" if "cy \<noteq> 0"
    proof (rule ccontr)
      assume "qh \<noteq> 0"
      then have "1 \<le> unat qh" by (simp add: Suc_le_eq unat_gt_0)
      define m where "m = length np - 1"
      have m: "length qp = m" "64 * length np = 64 * m + 64" using d(1) N(1) that len(2) by (simp_all add: m_def)
      have "2 ^ (64 * m) * 1 \<le> limbs_val (qp @ [qh])"
        unfolding limbs_val_snoc m(1) using \<open>1 \<le> unat qh\<close> by (intro trans_le_add2 mult_le_mono2)
      moreover have half: "2 ^ 127 \<le> 2 ^ cnt * limbs_val dp"
      proof -
        have "(2 :: nat) ^ 128 = 2 * 2 ^ 127" by simp
        then show ?thesis using sh(4) by linarith
      qed
      ultimately have "2 ^ (64 * m) * (2 ^ 127) \<le> limbs_val (qp @ [qh]) * (2 ^ cnt * limbs_val dp)"
        by (intro mult_le_mono half) simp_all
      moreover have "2 ^ cnt * limbs_val np < 2 ^ 63 * (2 ^ (64 * m) * 2 ^ 64)"
      proof -
        have "limbs_val np < 2 ^ (64 * m) * 2 ^ 64" using limbs_val_bound [of np] unfolding m(2) power_add .
        moreover have "(2 :: nat) ^ cnt \<le> 2 ^ 63" using sh(2) by (intro power_increasing) simp_all
        ultimately show ?thesis by (intro mult_le_less_imp_less) simp_all
      qed
      ultimately show False using eq by simp
    qed
    have q: "limbs_val (if cy = 0 then qp @ [qh] else qp) = limbs_val (qp @ [qh])"
      using qh by (simp add: limbs_val_snoc)
    have lq: "length (if cy = 0 then qp @ [qh] else qp) = length np - length dp + 1"
      using d(1) N(1) len by (cases "cy = 0") (simp_all, linarith?)
    have "rp = [rp ! 0, rp ! 1]" using pair_list [OF d(2)] .
    then have rv: "limbs_val [drop_bit cnt (rp ! 0) OR push_bit (64 - cnt) (rp ! 1), drop_bit cnt (rp ! 1)] = limbs_val rp div 2 ^ cnt"
      using shifted_back_pair [OF sh(1,2), of "rp ! 0" "rp ! 1"] by simp
    show ?thesis
      unfolding res quotient_of_def case_prod_conv q rv lq using s len(1) by simp
  qed
qed

text \<open>How \<open>adjust\<close> bounds the quotient: by a multiple of the divisor's highest place.\<close>

lemma adjust_bound:
  assumes "dp \<noteq> []" and "last dp \<noteq> 0" and "length dp \<le> length np"
    and "adjust = of_bool (dp ! (length dp - 1) \<le> np ! (length np - 1))"
  shows "\<exists>t. 0 < t \<and> t * 2 ^ (64 * (length dp - 1)) \<le> limbs_val dp \<and>
    limbs_val np < t * 2 ^ (64 * (length dp - 1)) * 2 ^ (64 * (length np - length dp + adjust))"
proof -
  obtain m n where m: "length dp = Suc m" and n: "length np = Suc n"
    using assms(1,3) by (cases dp; cases np) auto
  have ne: "np \<noteq> []" using n by auto
  have l: "dp ! (length dp - 1) = last dp" "np ! (length np - 1) = last np"
    using assms(1) ne by (simp_all add: last_conv_nth)
  have mn: "m \<le> n" using assms(3) m n by simp
  have e: "(2 :: nat) ^ (64 * m) * 2 ^ (64 * (n - m)) = 2 ^ (64 * n)"
    using mn by (simp flip: power_add)
  note d = limbs_val_last [OF m] and v = limbs_val_last [OF n]
  have top: "0 < unat (last dp)" using assms(2) by (simp add: unat_gt_0)
  show ?thesis
  proof (cases "last dp \<le> last np")
    case True
    have "2 ^ (64 * m) * 1 \<le> limbs_val dp" unfolding d(1) using top by (intro trans_le_add2 mult_le_mono2) simp
    moreover have "limbs_val np < 2 ^ (64 * m) * 2 ^ (64 * (n - m + 1))"
    proof -
      have "(2 :: nat) ^ (64 * m) * 2 ^ (64 * (n - m + 1)) = 2 ^ (64 * length np)"
        using mn by (simp add: n flip: power_add)
      then show ?thesis using limbs_val_bound [of np] by simp
    qed
    ultimately show ?thesis using True assms(4) l m n by (intro exI [of _ 1]) simp
  next
    case False
    then have "unat (last np) + 1 \<le> unat (last dp)" by (simp add: word_le_nat_alt)
    then have "2 ^ (64 * n) * (unat (last np) + 1) \<le> 2 ^ (64 * n) * unat (last dp)" by (rule mult_le_mono2)
    then have "limbs_val np < unat (last dp) * (2 ^ (64 * m) * 2 ^ (64 * (n - m)))" unfolding e using v by (simp add: algebra_simps)
    moreover have "unat (last dp) * 2 ^ (64 * m) \<le> limbs_val dp" unfolding d(1) by (simp add: mult.commute)
    ultimately show ?thesis using False assms(4) l m n top by (intro exI [of _ "unat (last dp)"]) (simp add: mult.assoc)
  qed
qed

end
