(* ===== verification/Gmp_Tdiv_Short.thy ===== *)
theory Gmp_Tdiv_Short
  imports Gmp_Tdiv
begin

unbundle bit_operations_syntax

text \<open>
  The short quotient of \<open>mpn_tdiv_qr\<close>, step by step: how far the estimate from the high limbs is off and what
  the test on the next limb of the denominator catches, the operands behind the shift, the partial
  remainder with its sign, and the borrows of the last subtraction.
\<close>

subsection \<open>The estimate of a short quotient\<close>

text \<open>
  With \<open>N = N' * u + Nl\<close>, \<open>D = D' * u + Dl\<close> and \<open>N' = Q * D' + R\<close>, the quotient \<open>Q\<close> of the high parts is at most
  two too large. \<open>x\<close> is the limb of \<open>D\<close> that follows \<open>D'\<close>, \<open>qt\<close> the highest limb of \<open>Q\<close>, \<open>r\<close> that of \<open>R\<close> and \<open>h\<close> the
  high limb of \<open>x * qt\<close>.
\<close>

lemma estimate_upper:
  fixes N :: int
  assumes "N = N' * u + Nl" and "Nl < u" and "D = D' * u + Dl" and "0 \<le> Dl" and "N' = Q * D' + R" and "R < D'" and "0 < u" and "0 \<le> Q"
  shows "N - Q * D < D"
proof -
  have "N - Q * D = R * u + Nl - Q * Dl" using assms(1,3,5) by (simp add: algebra_simps)
  moreover have "(R + 1) * u \<le> D' * u" using assms(6,7) by (intro mult_right_mono) simp_all
  moreover have "(R + 1) * u = R * u + u" by (simp add: algebra_simps)
  moreover have "0 \<le> Q * Dl" using assms(4,8) by simp
  ultimately show ?thesis using assms(2-4) by linarith
qed

lemma estimate_fires:
  fixes N :: int
  assumes "N = N' * u + Nl" and "Nl < u" and "D = D' * u + Dl" and "0 \<le> Dl" and "N' = Q * D' + R" and "0 < u"
    and Q: "qt * P \<le> Q" "0 \<le> qt" and R: "R < (r + 1) * P" and x: "x * u \<le> Dl * B" and h: "h * B \<le> x * qt"
    and "0 < B" and "0 < P" and "r < h"
  shows "(R + 1) * u \<le> Q * Dl" and "N < Q * D"
proof -
  have "h * u * B \<le> x * u * qt" using mult_right_mono [OF h, of u] assms(6) by (simp add: ac_simps)
  also have "\<dots> \<le> Dl * B * qt" using x Q(2) by (intro mult_right_mono) simp_all
  finally have "h * u * B \<le> Dl * qt * B" by (simp add: ac_simps)
  then have hu: "h * u \<le> Dl * qt" using \<open>0 < B\<close> by simp
  have "(r + 1) * P \<le> h * P" using \<open>r < h\<close> \<open>0 < P\<close> by (intro mult_right_mono) simp_all
  then have "R + 1 \<le> h * P" using R by linarith
  then have "(R + 1) * u \<le> h * P * u" using assms(6) by (intro mult_right_mono) simp_all
  also have "\<dots> \<le> Dl * qt * P" using mult_right_mono [OF hu, of P] \<open>0 < P\<close> by (simp add: ac_simps)
  also have "\<dots> \<le> Q * Dl" using mult_right_mono [OF Q(1) assms(4)] by (simp add: ac_simps)
  finally show le: "(R + 1) * u \<le> Q * Dl" .
  have "N - Q * D = R * u + Nl - Q * Dl" using assms(1,3,5) by (simp add: algebra_simps)
  moreover have "(R + 1) * u = R * u + u" by (simp add: algebra_simps)
  ultimately show "N < Q * D" using le assms(2) by linarith
qed

lemma estimate_quiet:
  fixes N :: int
  assumes "N = N' * u + Nl" and "0 \<le> Nl" and "D = D' * u + Dl" and "0 \<le> Dl" and "N' = Q * D' + R" and "0 < u"
    and Q: "Q < (qt + 1) * P" "0 \<le> qt" "qt < B" and R: "r * P \<le> R" and x: "Dl * B < (x + 1) * u" "0 \<le> x" "x < B"
    and h: "x * qt < (h + 1) * B" and "6 \<le> B" and "0 < P" and D': "P * B \<le> 2 * D'" and "\<not> r < h" and "0 \<le> Q"
  shows "- D \<le> N - Q * D"
proof -
  have "Q * Dl * B = Q * (Dl * B)" by simp
  also have "\<dots> \<le> (qt + 1) * P * ((x + 1) * u)"
  proof (rule mult_mono)
    show "Q \<le> (qt + 1) * P" "Dl * B \<le> (x + 1) * u" using Q(1) x(1) by simp_all
    show "0 \<le> (qt + 1) * P" using Q(2) \<open>0 < P\<close> by simp
    show "0 \<le> Dl * B" using assms(4) \<open>6 \<le> B\<close> by simp
  qed
  also have "\<dots> = P * u * (x * qt + x + qt + 1)" by (simp add: algebra_simps)
  also have "\<dots> \<le> P * u * (h * B + 3 * B)"
  proof (rule mult_left_mono)
    have "(h + 1) * B = h * B + B" by (simp add: algebra_simps)
    then show "x * qt + x + qt + 1 \<le> h * B + 3 * B" using h x(3) Q(3) by linarith
  qed (use assms(6) \<open>0 < P\<close> in simp)
  also have "\<dots> \<le> P * u * (r * B + 3 * B)"
    using \<open>\<not> r < h\<close> assms(6) \<open>0 < P\<close> \<open>6 \<le> B\<close> by (intro mult_left_mono add_right_mono mult_right_mono) simp_all
  also have "\<dots> = (r * P * u + 3 * P * u) * B" by (simp add: algebra_simps)
  finally have "Q * Dl \<le> r * P * u + 3 * P * u" using \<open>6 \<le> B\<close> by simp
  moreover have "r * P * u \<le> R * u" using R assms(6) by (intro mult_right_mono) simp_all
  moreover have "3 * P * u \<le> D' * u"
  proof (rule mult_right_mono)
    have "P * 6 \<le> P * B" using \<open>6 \<le> B\<close> \<open>0 < P\<close> by (intro mult_left_mono) simp_all
    then show "3 * P \<le> D'" using D' by linarith
  qed (use assms(6) in simp)
  moreover have "N - Q * D = R * u + Nl - Q * Dl" using assms(1,3,5) by (simp add: algebra_simps)
  ultimately show ?thesis using assms(2-4) by linarith
qed

text \<open>The bounds behind the test, with \<open>Qe\<close> and \<open>Re\<close> what it leaves.\<close>

definition estimate :: "nat \<Rightarrow> nat \<Rightarrow> nat \<Rightarrow> nat \<Rightarrow> nat \<Rightarrow> bool" where
  "estimate N D u Qe Re \<longleftrightarrow> N div u = Qe * (D div u) + Re \<and> - int D \<le> int N - int (Qe * D) \<and> int N - int (Qe * D) < int D"

lemma estimate_step:
  assumes NQ: "N div u = Q * (D div u) + R" "R < D div u" and u: "0 < u"
    and Q: "qt * P \<le> Q" "Q < (qt + 1) * P" "qt < B" and R: "r * P \<le> R" "R < (r + 1) * P"
    and x: "x = (D mod u) * B div u" and h: "h = x * qt div B" and B: "6 \<le> B" and P: "P * B \<le> 2 * (D div u)" "0 < P"
  shows "if r < h then 0 < Q \<and> estimate N D u (Q - 1) (R + D div u) \<and> (R + 1) * u \<le> Q * (D mod u) else estimate N D u Q R"
proof -
  define N' D' Nl Dl where "N' = N div u" and "D' = D div u" and "Nl = N mod u" and "Dl = D mod u"
  have nd: "N = N' * u + Nl" "D = D' * u + Dl" "N' = Q * D' + R" "R < D'" "Nl < u" "Dl < u"
    using u NQ(2) unfolding NQ(1) [symmetric] N'_def D'_def Nl_def Dl_def by simp_all
  have i: "int N = int N' * int u + int Nl" "int Nl < int u" "int D = int D' * int u + int Dl" "int Dl < int u"
    "int N' = int Q * int D' + int R" "int R < int D'" "0 < int u"
    using nd(4-6) u unfolding of_nat_mult [symmetric] of_nat_add [symmetric] nd(1-3) [symmetric] by simp_all
  have xb: "x * u \<le> Dl * B" "Dl * B < (x + 1) * u"
    using u dividend_less_div_times [of u "Dl * B"] by (simp_all add: x Dl_def)
  have "Dl * B < B * u" using i(4) B by simp
  then have xB: "x < B" using u by (simp add: x Dl_def less_mult_imp_div_less)
  have hb: "h * B \<le> x * qt" "x * qt < (h + 1) * B"
    using B dividend_less_div_times [of B "x * qt"] by (simp_all add: h)
  have z: "int x * int u \<le> int Dl * int B" "int h * int B \<le> int x * int qt" "int qt * int P \<le> int Q"
    "int r * int P \<le> int R" "int P * int B \<le> 2 * int D'"
    using xb(1) hb(1) Q(1) R(1) P(1) [folded D'_def] by (simp_all only: of_nat_le_iff of_nat_numeral flip: of_nat_mult)
  have lt: "int a < (int b + 1) * int c" if "a < (b + 1) * c" for a b c
  proof -
    have "int a < int ((b + 1) * c)" using that by (simp only: of_nat_less_iff)
    then show ?thesis by (simp add: algebra_simps)
  qed
  have z': "int Dl * int B < (int x + 1) * int u" "int x * int qt < (int h + 1) * int B" "int Q < (int qt + 1) * int P"
    "int R < (int r + 1) * int P" "int x < int B" "int qt < int B" "0 < int P" "6 \<le> int B"
    using lt [OF xb(2)] lt [OF hb(2)] lt [OF Q(2)] lt [OF R(2)] Q(3) xB P(2) B by simp_all 
  show ?thesis
  proof (cases "r < h")
    case False
    have "- int D \<le> int N - int Q * int D"
      by (rule estimate_quiet [OF i(1) _ i(3) _ i(5,7) z'(3) _ z'(6) z(4) z'(1) _ z'(5,2,8,7) z(5)]) (use False in simp_all)
    moreover have "int N - int Q * int D < int D" by (rule estimate_upper [OF i(1-3) _ i(5-7)]) simp_all
    ultimately show ?thesis using False NQ(1) by (simp add: estimate_def)
  next
    case True
    have f: "(int R + 1) * int u \<le> int Q * int Dl" "int N < int Q * int D"
      by (rule estimate_fires [OF i(1-3) _ i(5,7) z(3) _ z'(4) z(1,2) _ z'(7)]; use True B in simp)+
    have Q0: "0 < Q" using f(2) by (cases Q) simp_all
    obtain Q1 where Q1: "Q = Suc Q1" using Q0 by (cases Q) simp_all
    have "(int qt + 1) * int P \<le> int B * int P" using z'(6,7) by (intro mult_right_mono) simp_all
    then have "int Q \<le> 2 * int D'" using z'(3) z(5) by (simp add: mult.commute)
    then have "int Q * int Dl \<le> 2 * int D' * int u" using i(4) by (intro mult_mono) simp_all
    moreover have "int N - int Q * int D = int R * int u + int Nl - int Q * int Dl" using i(1,3,5) by (simp add: algebra_simps)
    moreover have "int Q * int D = int Q1 * int D + int D" by (simp add: Q1 algebra_simps)
    moreover have "0 \<le> int R * int u" by simp
    ultimately have "- int D \<le> int N - int Q1 * int D" "int N - int Q1 * int D < int D" using i(3) f(2) by linarith+
    moreover have "N' = Q1 * D' + (R + D')" using nd(3) Q1 by simp
    moreover have "(R + 1) * u \<le> Q * Dl"
    proof -
      have "int ((R + 1) * u) \<le> int (Q * Dl)" using f(1) by (simp add: algebra_simps)
      then show ?thesis by (simp only: of_nat_le_iff)
    qed
    ultimately show ?thesis using True Q0 Q1 by (simp add: estimate_def N'_def D'_def Dl_def)
  qed
qed

subsection \<open>The operands of a short quotient\<close>

lemma lshift_or_low:
  assumes "0 < cnt" and "cnt < 64" and "up \<noteq> []" and "mpn_lshift up cnt = (cy, rp)"
    and ws_def: "ws = rp[0 := rp ! 0 OR drop_bit (64 - cnt) l]"
  shows "length ws = length up" and "limbs_val (ws @ [cy]) = 2 ^ cnt * limbs_val up + unat l div 2 ^ (64 - cnt)"
proof -
  note v = mpn_lshift_val [OF assms(1-4)]
  have d: "(2 :: nat) ^ cnt dvd 2 ^ (64 * length up) * unat cy"
    using assms(2,3) by (intro dvd_mult2 le_imp_power_dvd) (cases up; simp)
  have "(2 :: nat) ^ cnt dvd limbs_val rp + 2 ^ (64 * length up) * unat cy" unfolding v(2) by simp
  then have "limbs_val rp mod 2 ^ cnt = 0" using d by (simp add: dvd_add_left_iff flip: dvd_eq_mod_eq_0)
  moreover have "rp \<noteq> []" using v(1) assms(3) by auto
  moreover have "unat (drop_bit (64 - cnt) l) < 2 ^ cnt" using drop_small [of "64 - cnt" l] assms(2) by simp
  ultimately have w: "length ws = length rp" "limbs_val ws = limbs_val rp + unat l div 2 ^ (64 - cnt)"
    unfolding ws_def using or_first assms(2) by (simp_all add: unat_drop)
  then show "length ws = length up" using v(1) by simp
  show "limbs_val (ws @ [cy]) = 2 ^ cnt * limbs_val up + unat l div 2 ^ (64 - cnt)"
    using v w by (simp add: limbs_val_snoc)
qed

text \<open>The bits of a number from a place inside of limb \<open>i - 1\<close> on.\<close>

lemma div_inside:
  assumes "0 < i" and "i \<le> length xs" and "0 < cnt" and "cnt < 64"
  shows "limbs_val xs div 2 ^ (64 * i - cnt) = 2 ^ cnt * limbs_val (drop i xs) + unat (xs ! (i - 1)) div 2 ^ (64 - cnt)"
proof -
  obtain j where i: "i = Suc j" using assms(1) by (cases i) auto
  have j: "j < length xs" using assms(2) i by simp
  have e: "64 * i - cnt = 64 * j + (64 - cnt)" using i assms(4) by simp
  have b: "(2 :: nat) ^ 64 = 2 ^ (64 - cnt) * 2 ^ cnt" using assms(4) by (metis le_add_diff_inverse2 less_imp_le power_add)
  have "limbs_val xs div 2 ^ (64 * i - cnt) = (limbs_val xs div 2 ^ (64 * j)) div 2 ^ (64 - cnt)"
    by (simp only: e power_add div_mult2_eq)
  also have "\<dots> = (unat (xs ! j) + 2 ^ (64 - cnt) * (2 ^ cnt * limbs_val (drop i xs))) div 2 ^ (64 - cnt)"
    using limbs_val_nth [OF j] assms(2) unfolding i by (simp only: limbs_val_drop b mult.assoc)
  also have "\<dots> = 2 ^ cnt * limbs_val (drop i xs) + unat (xs ! (i - 1)) div 2 ^ (64 - cnt)"
    by (simp add: i)
  finally show ?thesis .
qed

text \<open>What the shifts make of the high limbs, when the result has \<open>m\<close> limbs.\<close>

lemma high_part:
  assumes "0 < i" and "i < length xs" and "0 < cnt" and "cnt < 64" and "mpn_lshift (drop i xs) cnt = (cy, rp)"
    and "limbs_val xs div 2 ^ (64 * i - cnt) < 2 ^ (64 * (length xs - i))"
  defines "ws \<equiv> rp[0 := rp ! 0 OR drop_bit (64 - cnt) (xs ! (i - 1))]"
  shows "length ws = length xs - i" and "limbs_val ws = limbs_val xs div 2 ^ (64 * i - cnt)"
proof -
  have ne: "drop i xs \<noteq> []" using assms(2) by simp
  note w = lshift_or_low [OF assms(3,4) ne assms(5) ws_def [THEN meta_eq_to_obj_eq]]
  show l: "length ws = length xs - i" using w(1) by simp
  have "limbs_val (ws @ [cy]) = limbs_val xs div 2 ^ (64 * i - cnt)"
    using w(2) div_inside [of i xs cnt] assms(1-4) by simp
  moreover have "limbs_val (take (length xs - i) (ws @ [cy])) = limbs_val (ws @ [cy])"
    by (rule limbs_val_take_small) (simp only: calculation assms(6))
  ultimately show "limbs_val ws = limbs_val xs div 2 ^ (64 * i - cnt)" using l by simp
qed

lemma limbs_val_tl: "xs \<noteq> [] \<Longrightarrow> limbs_val (tl xs) = limbs_val xs div 2 ^ 64"
proof (cases xs)
  case (Cons x ys)
  then show ?thesis using unat_limb_less [of x] by simp
qed simp

lemma high_part_carry:
  assumes "i < length xs" and "0 < cnt" and "cnt < 64" and "mpn_lshift (drop i xs) cnt = (cy, rp)"
  shows "length (tl (rp @ [cy])) = length xs - i" and "limbs_val (tl (rp @ [cy])) = limbs_val xs div 2 ^ (64 * Suc i - cnt)"
proof -
  have ne: "drop i xs \<noteq> []" using assms(1) by simp
  note c = lshift_carry [OF assms(2,3) ne assms(4)]
  show "length (tl (rp @ [cy])) = length xs - i" using c(1) by simp
  have e: "64 * Suc i - cnt = 64 * i + (64 - cnt)" using assms(3) by simp
  have b: "(2 :: nat) ^ 64 = 2 ^ cnt * 2 ^ (64 - cnt)" using assms(3) by (metis le_add_diff_inverse less_imp_le power_add)
  have "limbs_val (tl (rp @ [cy])) = limbs_val (rp @ [cy]) div 2 ^ 64" by (rule limbs_val_tl) simp
  also have "\<dots> = 2 ^ cnt * limbs_val (drop i xs) div (2 ^ cnt * 2 ^ (64 - cnt))" by (simp only: c(2) b)
  also have "\<dots> = limbs_val (drop i xs) div 2 ^ (64 - cnt)" by simp
  also have "\<dots> = limbs_val xs div 2 ^ (64 * Suc i - cnt)"
    using assms(1) by (simp only: e power_add div_mult2_eq limbs_val_drop less_imp_le)
  finally show "limbs_val (tl (rp @ [cy])) = limbs_val xs div 2 ^ (64 * Suc i - cnt)" .
qed

lemma short_operands_val:
  assumes qn: "0 < qn" "qn < length dp" "length np + adjust = length dp + qn" "adjust \<le> 1" and cnt: "cnt < 64"
    and D: "limbs_val dp div 2 ^ (64 * (length dp - qn) - cnt) < 2 ^ (64 * qn)"
    and N: "limbs_val np div 2 ^ (64 * (length dp - qn) - cnt) < 2 ^ (64 * (2 * qn))"
    and res: "short_operands adjust qn cnt np dp = (n2p, d2p)"
  shows "length n2p = 2 * qn \<and> limbs_val n2p = limbs_val np div 2 ^ (64 * (length dp - qn) - cnt)"
    and "length d2p = qn \<and> limbs_val d2p = limbs_val dp div 2 ^ (64 * (length dp - qn) - cnt)"
proof -
  define i k where "i = length dp - qn" and "k = length np - 2 * qn"
  have i: "0 < i" "i < length dp" "length dp - i = qn" and k: "k < length np" "k + adjust = i" "length np - k = 2 * qn"
    using qn by (simp_all add: i_def k_def)
  obtain cy n1 where n1: "mpn_lshift (drop k np) cnt = (cy, n1)" by fastforce
  obtain c1 d1 where d1: "mpn_lshift (drop i dp) cnt = (c1, d1)" by fastforce
  have r: "d2p = (if cnt \<noteq> 0 then d1[0 := d1 ! 0 OR drop_bit (64 - cnt) (dp ! (i - 1))] else drop i dp)"
    "n2p = (if cnt \<noteq> 0 then if adjust \<noteq> 0 then tl (n1 @ [cy]) else n1[0 := n1 ! 0 OR drop_bit (64 - cnt) (np ! (k - 1))]
      else if adjust \<noteq> 0 then tl (drop k np @ [0]) else drop k np)"
    using res n1 d1 unfolding short_operands_def Let_def i_def [symmetric] k_def [symmetric] by (auto split: if_splits)
  show "length d2p = qn \<and> limbs_val d2p = limbs_val dp div 2 ^ (64 * (length dp - qn) - cnt)"
  proof (cases "cnt = 0")
    case True
    then show ?thesis using i by (simp add: r limbs_val_drop i_def)
  next
    case False
    then show ?thesis using high_part [OF i(1,2) _ cnt d1] D i(3) by (simp add: r i_def)
  qed
  show "length n2p = 2 * qn \<and> limbs_val n2p = limbs_val np div 2 ^ (64 * (length dp - qn) - cnt)"
  proof (cases "adjust = 0")
    case True
    then have "k = i" using k(2) by simp
    then show ?thesis
      using high_part [OF _ k(1) _ cnt n1] N k i True
      by (cases "cnt = 0") (simp_all add: r limbs_val_drop i_def)
  next
    case False
    then have ki: "i = Suc k" using k(2) qn(4) by simp
    show ?thesis
    proof (cases "cnt = 0")
      case True
      have "limbs_val (tl (drop k np @ [0])) = limbs_val (drop k np @ [0]) div 2 ^ 64" by (rule limbs_val_tl) simp
      also have "\<dots> = limbs_val np div 2 ^ (64 * k) div 2 ^ 64" using k(1) by (simp add: limbs_val_snoc limbs_val_drop)
      also have "\<dots> = limbs_val np div 2 ^ (64 * i)" by (simp add: ki power_add mult.commute flip: div_mult2_eq)
      finally show ?thesis using True False k by (simp add: r i_def)
    next
      case c: False
      then show ?thesis using high_part_carry [OF k(1) _ cnt n1] False k(3) by (simp add: r i_def [symmetric] ki)
    qed
  qed
qed

lemma no_high_limb:
  assumes "N = limbs_val (qp @ [qh]) * D + R" and "N < D * 2 ^ (64 * length qp)"
  shows "qh = 0" and "N = limbs_val qp * D + R"
proof -
  have "limbs_val (qp @ [qh]) * D < 2 ^ (64 * length qp) * D" using assms unfolding mult.commute [of D] by linarith
  then have "limbs_val (qp @ [qh]) < 2 ^ (64 * length qp)" by (simp only: mult_less_cancel2)
  then have "2 ^ (64 * length qp) * unat qh < 2 ^ (64 * length qp) * 1" unfolding limbs_val_snoc by linarith
  then have "unat qh < 1" by (simp only: mult_less_cancel1)
  then show "qh = 0" by (simp add: unat_eq_0)
  then show "N = limbs_val qp * D + R" using assms(1) by (simp add: limbs_val_snoc)
qed

text \<open>The limb of the denominator that the test looks at.\<close>

lemma short_x:
  assumes "0 < i" and "i \<le> length dp" and "cnt < 64"
  shows "unat (push_bit cnt (dp ! (i - 1)) OR drop_bit (63 - cnt) (drop_bit 1 (if i < 2 then 0 else dp ! (i - 2)))) =
    (limbs_val dp mod 2 ^ (64 * i - cnt)) * 2 ^ 64 div 2 ^ (64 * i - cnt)"
proof -
  define dl where "dl = (if i < 2 then 0 else dp ! (i - 2))"
  define u where "u = (2 :: nat) ^ (64 * i - cnt)"
  define B where "B = (2 :: nat) ^ 64"
  obtain j where i: "i = Suc j" using assms(1) by (cases i) auto
  have dl: "(0 # dp) ! (i - 1) = dl" by (cases j) (simp_all add: dl_def i)
  have dr: "drop i (0 # dp) = dp ! (i - 1) # drop i dp" using assms(2) by (simp add: i Cons_nth_drop_Suc Suc_le_eq)
  have "(limbs_val dp mod u) * B div u = (limbs_val dp * B) mod (u * B) div u" by (simp only: mult_mod_left)
  also have "\<dots> = (limbs_val dp * B div u) mod B" by (simp add: mod_mult2_eq u_def)
  also have "limbs_val dp * B = limbs_val (0 # dp)" by (simp add: B_def)
  also have "limbs_val (0 # dp) div u mod B = unat (push_bit cnt (dp ! (i - 1)) OR drop_bit (64 - cnt) dl)"
  proof (cases "cnt = 0")
    case True
    have "limbs_val (0 # dp) div u = limbs_val (drop i (0 # dp))"
      using assms(2) unfolding u_def True by (simp only: limbs_val_drop diff_zero length_Cons le_SucI)
    also have "\<dots> mod B = unat (dp ! (i - 1))"
      unfolding dr B_def limbs_val.simps mod_mult_self2 by (rule mod_less [OF unat_limb_less])
    moreover have "unat (drop_bit 64 dl) = 0" using drop_small [of 64 dl] by simp
    ultimately show ?thesis using True by (simp add: unat_eq_0)
  next
    case False
    have "limbs_val (0 # dp) div u = 2 ^ cnt * limbs_val (drop i (0 # dp)) + unat dl div 2 ^ (64 - cnt)"
      using div_inside [of i "0 # dp" cnt] False assms unfolding dl u_def by simp
    also have "\<dots> mod B = (unat (dp ! (i - 1)) mod 2 ^ (64 - cnt)) * 2 ^ cnt + unat dl div 2 ^ (64 - cnt)"
    proof -
      define d l K where "d = unat (dp ! (i - 1))" and "l = unat dl div 2 ^ (64 - cnt)" and "K = (2 :: nat) ^ (64 - cnt)"
      have B: "B = 2 ^ cnt * K" using assms(3) unfolding B_def K_def by (metis le_add_diff_inverse less_imp_le power_add)
      have "l < 2 ^ cnt" using drop_small [of "64 - cnt" dl] assms(3) by (simp add: l_def unat_drop)
      moreover have "(d mod K + 1) * 2 ^ cnt \<le> K * 2 ^ cnt" by (intro mult_le_mono1) (simp add: K_def Suc_le_eq)
      ultimately have lt: "(d mod K) * 2 ^ cnt + l < B" unfolding B by (simp add: algebra_simps)
      have "2 ^ cnt * (d mod K + K * (d div K)) = (d mod K) * 2 ^ cnt + B * (d div K)"
        unfolding B by (simp only: distrib_left ac_simps)
      then have "2 ^ cnt * d = (d mod K) * 2 ^ cnt + B * (d div K)" by (simp only: mod_mult_div_eq)
      then have "2 ^ cnt * limbs_val (drop i (0 # dp)) + l =
          (d mod K) * 2 ^ cnt + l + B * (d div K + 2 ^ cnt * limbs_val (drop i dp))"
        unfolding dr by (simp add: B_def d_def algebra_simps)
      then have "(2 ^ cnt * limbs_val (drop i (0 # dp)) + l) mod B = (d mod K) * 2 ^ cnt + l"
        by (simp only: mod_mult_self2 mod_less [OF lt])
      then show ?thesis by (simp only: d_def l_def K_def)
    qed
    also have "\<dots> = unat (push_bit cnt (dp ! (i - 1)) OR drop_bit (64 - cnt) dl)"
      using nshift_val [of cnt "dp ! (i - 1)" dl] False assms(3) by simp
    finally show ?thesis .
  qed
  moreover have "Suc (63 - cnt) = 64 - cnt" using assms(3) by simp
  ultimately show ?thesis by (simp add: dl_def [symmetric] u_def B_def)
qed

text \<open>The quotient and the partial remainder behind the test.\<close>

definition short_state :: "nat \<Rightarrow> nat \<Rightarrow> nat \<Rightarrow> nat \<Rightarrow> limbs \<Rightarrow> limbs \<Rightarrow> bool" where
  "short_state qn N D u qp n2p \<longleftrightarrow>
     limbs_val qp < 2 ^ (64 * qn) \<and> estimate N D u (limbs_val qp) (limbs_val n2p) \<and>
     (length n2p = qn \<or>
      length n2p = Suc qn \<and> 2 ^ (64 * qn) \<le> limbs_val n2p \<and> limbs_val n2p < 2 * 2 ^ (64 * qn) \<and>
      limbs_val n2p * u < limbs_val qp * (D mod u) + (D div u) * u)"

lemma mpn_decr_1_val: "0 < limbs_val xs \<Longrightarrow> \<exists>ys. mpn_decr_1 xs = Inr ys \<and> length ys = length xs \<and> limbs_val ys + 1 = limbs_val xs"
proof (induction xs)
  case (Cons x xs)
  show ?case
  proof (cases "x = 0")
    case True
    then obtain ys where "mpn_decr_1 xs = Inr ys" "length ys = length xs" "limbs_val ys + 1 = limbs_val xs"
      using Cons by auto
    then show ?thesis using True limb_decr [of x] by simp
  next
    case False
    then show ?thesis using limb_decr [of x] by simp
  qed
qed simp

lemma short_test_val:
  assumes qn: "0 < qn" "qn < length dp" and cnt: "cnt < 64"
    and u: "u = 2 ^ (64 * (length dp - qn) - cnt)" and d2p: "length d2p = qn" "limbs_val d2p = limbs_val dp div u"
    and norm: "2 ^ (64 * qn) \<le> 2 * limbs_val d2p"
    and qp: "length qp = qn" and n2p: "qn \<le> length n2p" "limbs_val (take qn n2p) < limbs_val d2p"
    and N: "N div u = limbs_val qp * limbs_val d2p + limbs_val (take qn n2p)"
  shows "\<exists>qp' n2p'. short_test qn cnt dp d2p (qp @ replicate k 0) n2p = Inr (qp', n2p') \<and> length qp' = qn + k \<and>
    short_state qn N (limbs_val dp) u qp' n2p'"
proof -
  define i D where "i = length dp - qn" and "D = limbs_val dp"
  define x where "x = push_bit cnt (dp ! (i - 1)) OR drop_bit (63 - cnt) (drop_bit 1 (if i < 2 then 0 else dp ! (i - 2)))"
  define h where "h = fst (umul_ppmm x (qp ! (qn - 1)))"
  define P where "P = (2 :: nat) ^ (64 * (qn - 1))"
  obtain m where m: "qn = Suc m" using qn(1) by (cases qn) auto
  define rp where "rp = take qn n2p"
  have rp: "length rp = qn" using n2p(1) by (simp add: rp_def)
  have l: "qp ! (qn - 1) = last qp" "n2p ! (qn - 1) = last rp"
    using qp rp qn(1) by (simp_all add: last_conv_nth rp_def flip: length_greater_0_conv)
  have Q: "unat (last qp) * P \<le> limbs_val qp" "limbs_val qp < (unat (last qp) + 1) * P"
    using limbs_val_last [of qp m] qp m by (simp_all add: P_def algebra_simps)
  have R: "unat (last rp) * P \<le> limbs_val rp" "limbs_val rp < (unat (last rp) + 1) * P"
    using limbs_val_last [of rp m] rp m by (simp_all add: P_def algebra_simps)
  have x: "unat x = (D mod u) * 2 ^ 64 div u"
    unfolding x_def u D_def i_def using qn cnt by (intro short_x) simp_all
  have hv: "unat h = unat x * unat (last qp) div 2 ^ 64"
  proof -
    obtain lo where "umul_ppmm x (qp ! (qn - 1)) = (h, lo)" unfolding h_def by (metis prod.collapse)
    from umul_ppmm_val [OF this] have "unat x * unat (last qp) = unat lo + 2 ^ 64 * unat h" unfolding l(1) [symmetric] by (rule sym)
    then show ?thesis using unat_limb_less [of lo] by simp
  qed
  have PB: "P * 2 ^ 64 = 2 ^ (64 * qn)" "0 < P" by (simp_all add: P_def m power_add)
  have PD: "P * 2 ^ 64 \<le> 2 * (D div u)" using norm d2p(2) unfolding PB(1) D_def by simp
  have u0: "0 < u" by (simp add: u)
  have NQ: "N div u = limbs_val qp * (D div u) + limbs_val rp" "limbs_val rp < D div u"
    using N n2p(2) d2p(2) by (simp_all add: rp_def D_def)
  note e = estimate_step [OF NQ u0 Q unat_limb_less R x hv _ PD PB(2)]
  have res: "short_test qn cnt dp d2p (qp @ replicate k 0) n2p =
      (if last rp < h then
         bindO (mpn_decr_1 (qp @ replicate k 0)) (\<lambda>qp.
           let (cy, n2p) = mpn_add_n rp d2p in Inr (qp, if cy \<noteq> 0 then n2p @ [cy] else n2p))
       else Inr (qp @ replicate k 0, rp))"
    unfolding short_test_def Let_def i_def [symmetric] x_def [symmetric] h_def l(2) rp_def [symmetric]
    using qp qn(1) by (simp add: nth_append case_prod_beta)
  have qb: "limbs_val qp < 2 ^ (64 * qn)" using limbs_val_bound [of qp] qp by simp
  show ?thesis
  proof (cases "last rp < h")
    case False
    then have "\<not> unat (last rp) < unat h" by (simp add: word_less_nat_alt)
    then have "estimate N D u (limbs_val qp) (limbs_val rp)" using e by simp
    then show ?thesis using False res qp rp qb by (simp add: short_state_def limbs_val_append D_def)
  next
    case True
    then have "unat (last rp) < unat h" by (simp add: word_less_nat_alt)
    then have f: "0 < limbs_val qp" "estimate N D u (limbs_val qp - 1) (limbs_val rp + D div u)"
      "(limbs_val rp + 1) * u \<le> limbs_val qp * (D mod u)" using e by simp_all
    obtain qp' where q: "mpn_decr_1 (qp @ replicate k 0) = Inr qp'" "length qp' = qn + k" "limbs_val qp' + 1 = limbs_val qp"
      using mpn_decr_1_val [of "qp @ replicate k 0"] f(1) qp by (auto simp: limbs_val_append)
    obtain cy s where s: "mpn_add_n rp d2p = (cy, s)" by fastforce
    have "length rp = length d2p" using rp d2p(1) by simp
    note a = mpn_add_n_val [OF this s]
    define n2p' where "n2p' = (if cy \<noteq> 0 then s @ [cy] else s)"
    have n': "limbs_val n2p' = limbs_val rp + D div u"
      using a rp d2p(2) by (cases "cy = 0") (simp_all add: n2p'_def limbs_val_snoc D_def)
    have "limbs_val qp * (D mod u) = limbs_val qp' * (D mod u) + D mod u" unfolding q(3) [symmetric] by (simp add: algebra_simps)
    moreover have "D mod u < u" using u0 by simp
    ultimately have ex: "limbs_val n2p' * u < limbs_val qp' * (D mod u) + (D div u) * u"
      using f(3) unfolding n' add_mult_distrib mult_1 by linarith
    have big: "length n2p' = qn \<or> length n2p' = Suc qn \<and> 2 ^ (64 * qn) \<le> limbs_val n2p' \<and> limbs_val n2p' < 2 * 2 ^ (64 * qn)"
    proof (cases "cy = 0")
      case True
      then show ?thesis using a(1) rp by (simp add: n2p'_def)
    next
      case False
      then have "1 \<le> unat cy" by (simp add: Suc_le_eq unat_gt_0)
      then have "2 ^ (64 * qn) * 1 \<le> limbs_val s + 2 ^ (64 * qn) * unat cy" by (intro trans_le_add2 mult_le_mono2)
      moreover have "limbs_val n2p' = limbs_val s + 2 ^ (64 * qn) * unat cy" using False a(1) rp by (simp add: n2p'_def limbs_val_snoc)
      moreover have "limbs_val rp < 2 ^ (64 * qn)" "limbs_val d2p < 2 ^ (64 * qn)"
        using limbs_val_bound [of rp] limbs_val_bound [of d2p] rp d2p(1) by simp_all
      ultimately show ?thesis using False a(1) rp n' d2p(2) by (simp add: n2p'_def D_def)
    qed
    have "limbs_val qp' = limbs_val qp - 1" "limbs_val qp' < 2 ^ (64 * qn)" using q(3) qb by simp_all
    then have "short_state qn N D u qp' n2p'" unfolding short_state_def using f(2) ex big n' by auto
    moreover have "short_test qn cnt dp d2p (qp @ replicate k 0) n2p = Inr (qp', n2p')"
      using True res q(1) s by (simp add: n2p'_def)
    ultimately show ?thesis using q(2) by (auto simp: D_def)
  qed
qed

text \<open>
  The partial remainder when \<open>i\<close> whole limbs of the denominator are left out: its limbs, less a power of the
  base when it is negative.
\<close>

definition partial_val :: "limbs \<Rightarrow> bool \<Rightarrow> int" where
  "partial_val n2p large = int (limbs_val n2p) - of_bool large * 2 ^ (64 * length n2p)"

definition partial_state :: "nat \<Rightarrow> nat \<Rightarrow> nat \<Rightarrow> nat \<Rightarrow> limbs \<Rightarrow> limbs \<Rightarrow> bool \<Rightarrow> nat \<Rightarrow> bool" where
  "partial_state qn dn N D qp n2p large i \<longleftrightarrow>
     limbs_val qp < 2 ^ (64 * qn) \<and> - int D \<le> int N - int (limbs_val qp * D) \<and> int N - int (limbs_val qp * D) < int D \<and>
     partial_val n2p large * 2 ^ (64 * i) + int (N mod 2 ^ (64 * i)) - int (limbs_val qp) * int (D mod 2 ^ (64 * i)) =
       int N - int (limbs_val qp * D) \<and>
     (length n2p = dn - i \<or>
      length n2p = Suc (dn - i) \<and> \<not> large \<and> 2 ^ (64 * qn) \<le> limbs_val n2p \<and> dn - i = qn \<and>
      limbs_val n2p * 2 ^ (64 * i) < limbs_val qp * (D mod 2 ^ (64 * i)) + D div 2 ^ (64 * i) * 2 ^ (64 * i))"

text \<open>The bits of limb \<open>i - 1\<close> below the shift.\<close>

lemma mask_low:
  assumes "cnt \<le> 64"
  shows "unat (x AND drop_bit cnt (- 1) :: limb) = unat x mod 2 ^ (64 - cnt)"
proof -
  have "drop_bit cnt (- 1 :: limb) = mask (64 - cnt)"
    by (rule bit_eqI) (auto simp: bit_simps)
  then have "x AND drop_bit cnt (- 1) = take_bit (64 - cnt) x" by (simp only: take_bit_eq_mask)
  then show ?thesis using assms by (simp only: unsigned_take_bit_eq) (simp add: take_bit_eq_mod)
qed

lemma mod_inside:
  assumes "0 < i" and "i \<le> length xs" and "cnt < 64"
  shows "limbs_val xs mod 2 ^ (64 * i - cnt) =
    (unat (xs ! (i - 1)) mod 2 ^ (64 - cnt)) * 2 ^ (64 * (i - 1)) + limbs_val xs mod 2 ^ (64 * (i - 1))"
proof -
  obtain j where i: "i = Suc j" using assms(1) by (cases i) auto
  have j: "j < length xs" using assms(2) i by simp
  have e: "64 * i - cnt = 64 * j + (64 - cnt)" using i assms(3) by simp
  have b: "(2 :: nat) ^ 64 = 2 ^ (64 - cnt) * 2 ^ cnt" using assms(3) by (metis le_add_diff_inverse2 less_imp_le power_add)
  have "limbs_val xs div 2 ^ (64 * j) mod 2 ^ (64 - cnt) = unat (xs ! j) mod 2 ^ (64 - cnt)"
    unfolding limbs_val_nth [OF j] b mult.assoc by simp
  then show ?thesis unfolding e power_add mod_mult2_eq by (simp add: i mult.commute)
qed

lemma short_partial_val:
  assumes qn: "0 < qn" "qn < length dp" and cnt: "cnt < 64" and i: "i = length dp - qn"
    and len: "i \<le> length np" "qn \<le> length qp" and D: "2 ^ cnt * limbs_val dp < 2 ^ (64 * length dp)"
    and st: "short_state qn (limbs_val np) (limbs_val dp) (2 ^ (64 * i - cnt)) qp n2p"
  shows "\<exists>n2p' large i'. short_partial qn cnt i np dp qp n2p = Inr (n2p', large, i') \<and> i' = i - of_bool (cnt \<noteq> 0) \<and>
    partial_state qn (length dp) (limbs_val np) (limbs_val dp) qp n2p' large i'"
proof -
  define N Dv Q R u where "N = limbs_val np" and "Dv = limbs_val dp" and "Q = limbs_val qp" and "R = limbs_val n2p"
    and "u = (2 :: nat) ^ (64 * i - cnt)"
  have i0: "0 < i" "i \<le> length dp" using qn by (simp_all add: i)
  have st': "Q < 2 ^ (64 * qn)" "N div u = Q * (Dv div u) + R" "- int Dv \<le> int N - int (Q * Dv)" "int N - int (Q * Dv) < int Dv"
    "length n2p = qn \<or> length n2p = Suc qn \<and> 2 ^ (64 * qn) \<le> R \<and> R < 2 * 2 ^ (64 * qn) \<and> R * u < Q * (Dv mod u) + (Dv div u) * u"
    using st unfolding short_state_def estimate_def N_def [symmetric] Dv_def [symmetric] Q_def [symmetric] R_def [symmetric] u_def [symmetric]
    by blast+
  have u0: "0 < u" by (simp add: u_def)
  have Z: "int R * int u + int (N mod u) - int Q * int (Dv mod u) = int N - int (Q * Dv)"
  proof -
    have "int N = int (N div u) * int u + int (N mod u)" "int Dv = int (Dv div u) * int u + int (Dv mod u)"
      by (simp_all flip: of_nat_mult of_nat_add)
    then show ?thesis using arg_cong [OF st'(2), of int] by (simp add: algebra_simps)
  qed
  show ?thesis
  proof (cases "cnt = 0")
    case True
    have "partial_state qn (length dp) N Dv qp n2p False i"
      unfolding partial_state_def partial_val_def Q_def [symmetric] R_def [symmetric]
      using st' Z True qn by (auto simp: u_def i)
    then show ?thesis using True by (auto simp: short_partial_def N_def Dv_def)
  next
    case False
    define nl dl s j where "nl = unat (np ! (i - 1)) mod 2 ^ (64 - cnt)" and "dl = unat (dp ! (i - 1)) mod 2 ^ (64 - cnt)"
      and "s = (2 :: nat) ^ (64 - cnt)" and "j = i - 1"
    have m: "N mod u = nl * 2 ^ (64 * j) + N mod 2 ^ (64 * j)" "Dv mod u = dl * 2 ^ (64 * j) + Dv mod 2 ^ (64 * j)"
      unfolding u_def N_def Dv_def nl_def dl_def j_def using mod_inside i0 len(1) cnt by simp_all
    have "64 * i - cnt = 64 * j + (64 - cnt)" using i0(1) cnt by (simp add: j_def)
    then have u: "u = s * 2 ^ (64 * j)" by (simp add: u_def s_def power_add)
    define X where "X = int R * int s + int nl - int Q * int dl"
    have XZ: "X * 2 ^ (64 * j) + int (N mod 2 ^ (64 * j)) - int Q * int (Dv mod 2 ^ (64 * j)) = int N - int (Q * Dv)"
      using Z unfolding m unfolding u X_def by (simp add: algebra_simps)
    have sc: "0 < 64 - cnt" "64 - cnt < 64" "nl < s" "dl < s" using cnt False by (simp_all add: nl_def dl_def s_def)
    have ne: "n2p \<noteq> []" using st'(5) qn(1) by auto
    obtain cy1 n1 where n1: "mpn_lshift n2p (64 - cnt) = (cy1, n1)" by fastforce
    define n2 where "n2 = n1[0 := n1 ! 0 OR (np ! (i - 1) AND drop_bit cnt (- 1))]"
    have n1v: "length n1 = length n2p" "limbs_val n1 + 2 ^ (64 * length n2p) * unat cy1 = s * R"
      using mpn_lshift_val [OF sc(1,2) ne n1] by (simp_all add: s_def R_def)
    have n2v: "length n2 = length n2p" "limbs_val n2 + 2 ^ (64 * length n2p) * unat cy1 = s * R + nl"
    proof -
      have "s dvd 2 ^ (64 * length n2p) * unat cy1"
        unfolding s_def using ne by (intro dvd_mult2 le_imp_power_dvd) (cases n2p; simp)
      moreover have "s dvd limbs_val n1 + 2 ^ (64 * length n2p) * unat cy1" unfolding n1v(2) by simp
      ultimately have "limbs_val n1 mod 2 ^ (64 - cnt) = 0" by (simp add: dvd_add_left_iff s_def flip: dvd_eq_mod_eq_0)
      moreover have "n1 \<noteq> []" using n1v(1) ne by auto
      moreover have "unat (np ! (i - 1) AND drop_bit cnt (- 1)) = nl" using mask_low [of cnt] cnt by (simp add: nl_def)
      ultimately have "length n2 = length n1" "limbs_val n2 = limbs_val n1 + nl"
        using or_first [of n1 "64 - cnt" "np ! (i - 1) AND drop_bit cnt (- 1)"] sc(3) by (simp_all add: n2_def s_def)
      then show "length n2 = length n2p" "limbs_val n2 + 2 ^ (64 * length n2p) * unat cy1 = s * R + nl" using n1v by simp_all
    qed
    obtain cy2 wp where w: "mpn_submul_1 (take qn n2) (take qn qp) (dp ! (i - 1) AND drop_bit cnt (- 1)) = (cy2, wp)" by fastforce
    have qn2: "qn \<le> length n2" using n2v(1) st'(5) by auto
    have tq: "limbs_val (take qn qp) = Q" unfolding Q_def by (rule limbs_val_take_small) (simp only: st'(1) Q_def [symmetric])
    have "length (take qn n2) = length (take qn qp)" using qn2 len(2) by simp
    from mpn_submul_1_val [OF this w] have wv: "length wp = qn"
      "limbs_val wp + Q * dl = limbs_val (take qn n2) + 2 ^ (64 * qn) * unat cy2"
      using len(2) tq mask_low [of cnt "dp ! (i - 1)"] cnt by (simp_all add: dl_def)
    have sp: "limbs_val n2 = limbs_val (take qn n2) + 2 ^ (64 * qn) * limbs_val (drop qn n2)"
      using limbs_val_split [of n2 qn] qn2 by simp
    have res: "short_partial qn cnt i np dp qp n2p =
        (if qn \<noteq> length n2p then
           if (wp @ drop qn n2) ! qn < cy2 then Inl AssertFail
           else Inr ((wp @ drop qn n2)[qn := (wp @ drop qn n2) ! qn - cy2], False, j)
         else Inr (wp @ drop qn n2 @ [cy1 - cy2], cy1 < cy2, j))"
      unfolding short_partial_def Let_def if_not_P [OF False] n1 case_prod_conv n2_def [symmetric] w j_def n2v(1) append_assoc
      by (rule refl)
    have len_j: "length dp - j = Suc qn" using qn i0 by (simp add: j_def i)
    have fin: ?thesis if "short_partial qn cnt i np dp qp n2p = Inr (n3, large, j)" "length n3 = Suc qn" "partial_val n3 large = X" for n3 large
    proof -
      have "partial_state qn (length dp) N Dv qp n3 large j"
        unfolding partial_state_def Q_def [symmetric] that(3) using st'(1,3,4) XZ that(2) len_j by simp
      then show ?thesis using that(1) False by (auto simp: j_def N_def Dv_def)
    qed
    show ?thesis
    proof (cases "qn = length n2p")
      case True
      then have dr: "drop qn n2 = []" using n2v(1) by simp
      define n3 where "n3 = wp @ [cy1 - cy2]"
      define A where "A = (2 :: nat) ^ (64 * qn)"
      have d: "int (unat (cy1 - cy2)) = int (unat cy1) - int (unat cy2) + 2 ^ 64 * of_bool (cy1 < cy2)"
        using arg_cong [OF limb_sub_less [of cy1 cy2], of int] by simp
      have e: "int A * int (unat (cy1 - cy2)) =
          int A * int (unat cy1) - int A * int (unat cy2) + of_bool (cy1 < cy2) * (int A * 2 ^ 64)"
        unfolding d by (simp only: algebra_simps)
      have "limbs_val (take qn n2) + A * unat cy1 = s * R + nl"
      proof -
        have "take qn n2 = n2" using n2v(1) True by simp
        then show ?thesis using n2v(2) unfolding True [symmetric] A_def by simp
      qed
      from arg_cong [OF this, of int] arg_cong [OF wv(2), of int, folded A_def]
      have "int (limbs_val wp) + int Q * int dl = int R * int s + int nl - int A * int (unat cy1) + int A * int (unat cy2)"
        by (simp add: mult.commute)
      moreover have "partial_val n3 (cy1 < cy2) =
          int (limbs_val wp) + int A * int (unat (cy1 - cy2)) - of_bool (cy1 < cy2) * (int A * 2 ^ 64)"
        unfolding partial_val_def n3_def A_def using wv(1) by (simp add: limbs_val_snoc power_add)
      ultimately have "partial_val n3 (cy1 < cy2) = X" unfolding X_def e by linarith
      then show ?thesis by (rule fin [rotated 2]) (use res True dr wv(1) in \<open>simp_all add: n3_def\<close>)
    next
      case long: False
      then have l: "length n2p = Suc qn" "2 ^ (64 * qn) \<le> R" "R < 2 * 2 ^ (64 * qn)" using st'(5) by auto
      define P where "P = (2 :: nat) ^ (64 * qn)"
      have P: "0 < P" "(2 :: nat) ^ (64 * length n2p) = P * 2 ^ 64" unfolding P_def l(1) by (simp_all add: power_add)
      have "2 * s \<le> 2 ^ 64"
      proof -
        have "2 * s = 2 ^ Suc (64 - cnt)" by (simp add: s_def)
        also have "\<dots> \<le> (2 :: nat) ^ 64" using sc(2) by (intro power_increasing) simp_all
        finally show ?thesis .
      qed
      have s0: "0 < s" by (simp add: s_def)
      have cy1: "cy1 = 0"
      proof -
        have "P * 2 ^ 64 * unat cy1 \<le> s * R" using n1v(2) unfolding P(2) by linarith
        also have "\<dots> < s * (2 * P)" using l(3) s0 unfolding P_def by simp
        also have "\<dots> = P * (2 * s)" by simp
        also have "\<dots> \<le> P * 2 ^ 64" using \<open>2 * s \<le> 2 ^ 64\<close> by (rule mult_le_mono2)
        finally have "P * 2 ^ 64 * unat cy1 < P * 2 ^ 64 * 1" by (simp only: mult_1_right)
        then have "unat cy1 < 1" by (simp only: mult_less_cancel1)
        then show ?thesis by (simp add: unat_eq_0)
      qed
      obtain t where dr: "drop qn n2 = [t]" using n2v(1) l(1) by (metis Cons_nth_drop_Suc drop_all le_refl lessI)
      have tv: "limbs_val n2 = limbs_val (take qn n2) + 2 ^ (64 * qn) * unat t" using sp dr by simp
      have "unat cy2 \<le> dl"
      proof -
        have "limbs_val wp < P" using limbs_val_bound [of wp] wv(1) by (simp add: P_def)
        moreover have "Q * dl \<le> P * dl" using st'(1) by (intro mult_le_mono1) (simp add: P_def)
        moreover have "P * unat cy2 \<le> limbs_val wp + Q * dl" using wv(2) by (simp add: P_def)
        moreover have "P * (1 + dl) = P + P * dl" by simp
        ultimately have "P * unat cy2 < P * (1 + dl)" by linarith
        then have "unat cy2 < 1 + dl" by (simp only: mult_less_cancel1)
        then show ?thesis by simp
      qed
      moreover have "s \<le> unat t"
      proof -
        have "limbs_val (take qn n2) < P" using limbs_val_bound [of "take qn n2"] qn2 by (simp add: P_def)
        moreover have "s * P \<le> limbs_val n2"
        proof -
          have "s * P \<le> s * R" using l(2) unfolding P_def by (rule mult_le_mono2)
          moreover have "limbs_val n2 = s * R + nl" using n2v(2) by (simp add: cy1)
          ultimately show ?thesis by linarith
        qed
        moreover have "P * (1 + unat t) = P + P * unat t" "s * P = P * s" by simp_all
        ultimately have "P * s < P * (1 + unat t)" using tv unfolding P_def [symmetric] by linarith
        then have "s < 1 + unat t" by (simp only: mult_less_cancel1)
        then show ?thesis by simp
      qed
      ultimately have le: "unat cy2 \<le> unat t" using sc(4) by simp
      define n3 where "n3 = wp @ [t - cy2]"
      have "int (unat (t - cy2)) = int (unat t) - int (unat cy2)" using le by (simp add: unat_sub word_le_nat_alt)
      then have d: "int P * int (unat (t - cy2)) = int P * int (unat t) - int P * int (unat cy2)"
        by (simp only: right_diff_distrib)
      have "int (limbs_val n3) = int (limbs_val wp) + int P * int (unat (t - cy2))"
        by (simp add: n3_def limbs_val_snoc wv(1) P_def)
      then have "int (limbs_val n3) = int (limbs_val wp) + int P * int (unat t) - int P * int (unat cy2)"
        unfolding d by simp
      also have "\<dots> = X"
        using arg_cong [OF wv(2), of int] arg_cong [OF n2v(2), of int] arg_cong [OF tv, of int]
        by (simp add: X_def cy1 P_def algebra_simps)
      finally have "int (limbs_val n3) = X" .
      then have "partial_val n3 False = X" by (simp add: partial_val_def)
      then show ?thesis
        by (rule fin [rotated 2])
          (use res long dr wv(1) le n2v(1) in \<open>simp_all add: n3_def nth_append list_update_append word_le_nat_alt not_less\<close>)
    qed
  qed
qed

subsection \<open>The last steps of a short quotient\<close>

text \<open>The correction: the quotient is one too large exactly if the remainder is negative.\<close>

lemma short_correct:
  assumes "length dp = length rp" and "- int D \<le> Z" and "Z < int D" and "D = limbs_val dp" and "Z = int N - int (limbs_val qp * D)"
    and "int (limbs_val rp) = Z + of_bool large * 2 ^ (64 * length dp)"
  shows "\<exists>qp' rp'. (if large then bindO (mpn_decr_1 qp) (\<lambda>qp. Inr (qp, snd (mpn_add_n rp dp))) else Inr (qp, rp)) = Inr (qp', rp') \<and>
    length qp' = length qp \<and> length rp' = length dp \<and> limbs_val rp' < D \<and> N = limbs_val qp' * D + limbs_val rp'"
proof (cases large)
  case False
  then have "int (limbs_val rp) = int N - int (limbs_val qp * D)" using assms(5,6) by simp
  then have "N = limbs_val qp * D + limbs_val rp" by linarith
  then show ?thesis using False assms(1,3,6) by simp
next
  case True
  have b: "limbs_val rp < 2 ^ (64 * length dp)" using limbs_val_bound [of rp] assms(1) by simp
  then have "int (limbs_val rp) < 2 ^ (64 * length dp)" by (metis of_nat_less_iff of_nat_numeral of_nat_power)
  then have Z: "Z < 0" using assms(6) True by simp
  then have "0 < limbs_val qp * D" using assms(5) by linarith
  then have "0 < limbs_val qp" by simp
  then obtain qp' where q: "mpn_decr_1 qp = Inr qp'" "length qp' = length qp" "limbs_val qp' + 1 = limbs_val qp"
    using mpn_decr_1_val by blast
  obtain c r where r: "mpn_add_n rp dp = (c, r)" by fastforce
  note a = mpn_add_n_val [OF assms(1) [symmetric] r]
  have c: "int (unat c) = 0 \<or> int (unat c) = 1" using a(2) by linarith
  have e: "int (limbs_val r) + 2 ^ (64 * length dp) * int (unat c) = Z + 2 ^ (64 * length dp) + int D"
    using arg_cong [OF a(3), of int] assms(1,4,6) True by simp
  have rb: "int (limbs_val r) < 2 ^ (64 * length dp)"
    using limbs_val_bound [of r] a(1) assms(1) by (metis of_nat_less_iff of_nat_numeral of_nat_power)
  have "0 \<le> Z + int D" using assms(2) by simp
  have c1: "int (unat c) = 1"
  proof (rule ccontr)
    assume "\<not> ?thesis"
    then have c0: "int (unat c) = 0" using c by blast
    show False using e rb \<open>0 \<le> Z + int D\<close> unfolding c0 by linarith
  qed
  have r': "int (limbs_val r) = Z + int D" using e unfolding c1 by linarith
  have "int (limbs_val qp) * int D = int (limbs_val qp') * int D + int D" unfolding q(3) [symmetric] by (simp add: algebra_simps)
  then have "int N = int (limbs_val qp') * int D + int (limbs_val r)" using r' assms(5) by simp
  then have "N = limbs_val qp' * D + limbs_val r" by (simp flip: of_nat_mult of_nat_add)
  moreover have "limbs_val r < D" using r' Z by simp
  ultimately show ?thesis using True q r a(1) assms(1) by simp
qed

text \<open>The three borrows: none or one of them occurs.\<close>

lemma borrows:
  fixes Z W M :: int
  assumes "W = Z + (of_bool a + of_bool b + of_bool c) * M" and "- M < Z" and "Z < M" and "0 \<le> W" and "W < M"
  shows "W = Z + of_bool (a \<or> b \<or> c) * M"
proof -
  have "of_bool a + of_bool b + of_bool c \<le> (1 :: int)"
  proof (rule ccontr)
    assume "\<not> ?thesis"
    then have "2 * M \<le> (of_bool a + of_bool b + of_bool c) * M" using assms(2,3) by (intro mult_right_mono) linarith+
    then show False using assms by linarith
  qed
  then show ?thesis using assms(1) by (cases a; cases b; cases c) simp_all
qed

lemma sub_1_area_val:
  assumes "rp \<noteq> []" and "n = length rp \<or> length rp < n \<and> unat v \<le> limbs_val rp"
  shows "\<exists>cy r. sub_1_area rp n v = Inr (cy, r) \<and> length r = length rp \<and> unat cy \<le> 1 \<and>
    limbs_val r + unat v = limbs_val rp + 2 ^ (64 * length rp) * unat cy \<and> (length rp < n \<longrightarrow> cy = 0)"
proof -
  obtain cy r where r: "mpn_sub_1 rp v = (cy, r)" by fastforce
  note s = mpn_sub_1_val [OF assms(1) r]
  show ?thesis
  proof (cases "n = length rp")
    case True
    then show ?thesis using r s by (simp add: sub_1_area_def)
  next
    case False
    then have n: "length rp < n" "unat v \<le> limbs_val rp" using assms(2) by simp_all
    have "limbs_val r < 2 ^ (64 * length rp)" using limbs_val_bound [of r] s by simp
    then have "2 ^ (64 * length rp) * unat cy < 2 ^ (64 * length rp) * 1" using s n(2) by linarith
    then have "unat cy < 1" by (simp only: mult_less_cancel1)
    then have "cy = 0" by (simp add: unat_eq_0)
    then show ?thesis using r s n(1) by (simp add: sub_1_area_def)
  qed
qed

text \<open>What is left of the product, subtracted: a remainder of the divisor's size and whether it is negative.\<close>

lemma short_subtract:
  assumes st: "partial_state qn (length dp) N D qp n2p large i" and D: "D = limbs_val dp" "N = limbs_val np"
    and i: "0 < i" "i + qn \<le> length dp" "length dp \<le> length np" "0 < qn"
    and tp: "length tp = qn + i" "limbs_val tp = limbs_val qp * (D mod 2 ^ (64 * i))"
    and s1: "mpn_sub n2p (take qn (drop i tp)) = (c1, n3)" and s2: "mpn_sub_n (take i np) (take i tp) = (c2, low)"
  shows "\<exists>c3 high. sub_1_area (take (length dp - i) n3) (length n2p) c2 = Inr (c3, high) \<and> length (low @ high) = length dp \<and>
    int (limbs_val (low @ high)) = (int N - int (limbs_val qp * D)) + of_bool (large \<or> c1 \<noteq> 0 \<or> c3 \<noteq> 0) * 2 ^ (64 * length dp)"
proof -
  define m where "m = length dp - i"
  define A where "A = (2 :: nat) ^ (64 * i)"
  define Th Tl where "Th = limbs_val (drop i tp)" and "Tl = limbs_val (take i tp)"
  define Z where "Z = int N - int (limbs_val qp * D)"
  have st': "- int D \<le> Z" "Z < int D"
    "partial_val n2p large * int A + int (N mod A) - int (limbs_val qp) * int (D mod A) = Z"
    "length n2p = m \<or> length n2p = Suc m \<and> \<not> large \<and> 2 ^ (64 * qn) \<le> limbs_val n2p \<and> m = qn \<and>
      limbs_val n2p * A < limbs_val qp * (D mod A) + D div A * A"
    using st unfolding partial_state_def Z_def [symmetric] m_def [symmetric] A_def by simp_all
  have mi: "length dp = i + m" "qn \<le> m" using i by (simp_all add: m_def)
  have AM: "int A * 2 ^ (64 * m) = (2 :: int) ^ (64 * length dp)" by (simp add: A_def mi(1) power_add)
  have T: "limbs_val qp * (D mod A) = Tl + A * Th" using limbs_val_split [of tp i] tp by (simp add: A_def Tl_def Th_def)
  have ds: "length (drop i tp) = qn" "take qn (drop i tp) = drop i tp" using tp(1) by simp_all
  have s1': "length n3 = length n2p" "unat c1 \<le> 1" "limbs_val n3 + Th = limbs_val n2p + 2 ^ (64 * length n2p) * unat c1"
    using mpn_sub_val [OF _ s1] ds st'(4) mi(2) by (auto simp: Th_def)
  have "length (take i np) = length (take i tp)" using i tp(1) by simp
  from mpn_sub_n_val [OF this s2] have s2': "length low = i" "unat c2 \<le> 1" "limbs_val low + Tl = N mod A + A * unat c2"
    using i by (simp_all add: Tl_def A_def D(2) limbs_val_take)
  have low: "int (limbs_val low) = int (N mod A) - int Tl + int A * int (unat c2)"
    using arg_cong [OF s2'(3), of int] by simp
  have Tz: "int (limbs_val qp) * int (D mod A) = int Tl + int A * int Th" using arg_cong [OF T, of int] by simp
  have of1: "int (unat c) = of_bool (c \<noteq> 0)" if "unat c \<le> 1" for c :: limb
    using that by (cases "unat c = 0") (auto simp: unat_eq_0 le_Suc_eq)
  have DM: "int D < 2 ^ (64 * length dp)"
    using limbs_val_bound [of dp] unfolding D(1) by (metis of_nat_less_iff of_nat_numeral of_nat_power)
  have ZM: "- (2 ^ (64 * length dp)) < Z" "Z < 2 ^ (64 * length dp)" using st'(1,2) DM by linarith+
  have bound: "int (limbs_val (low @ high)) < 2 ^ (64 * length dp)" if "length high = m" for high
    using limbs_val_bound [of "low @ high"] that s2'(1) unfolding mi(1)
    by (metis length_append of_nat_less_iff of_nat_numeral of_nat_power)
  show ?thesis
  proof (cases "length n2p = m")
    case True
    have tk: "take m n3 = n3" "n3 \<noteq> []" using s1'(1) True mi(2) i(4) by auto
    obtain c3 high where h: "sub_1_area (take m n3) (length n2p) c2 = Inr (c3, high)" "length high = m" "unat c3 \<le> 1"
      "limbs_val high + unat c2 = limbs_val n3 + 2 ^ (64 * m) * unat c3"
      using sub_1_area_val [of n3 "length n2p" c2] tk s1'(1) True by auto
    define M where "M = (2 :: int) ^ (64 * m)"
    have n3: "int (limbs_val n3) = partial_val n2p large + of_bool large * M - int Th + M * of_bool (c1 \<noteq> 0)"
      using arg_cong [OF s1'(3), of int] True of1 [OF s1'(2)] by (simp add: partial_val_def M_def)
    have high: "int (limbs_val high) = int (limbs_val n3) - int (unat c2) + M * of_bool (c3 \<noteq> 0)"
      using arg_cong [OF h(4), of int] of1 [OF h(3)] by (simp add: M_def)
    have "int (limbs_val (low @ high)) = int (limbs_val low) + int A * int (limbs_val high)"
      by (simp add: limbs_val_append s2'(1) A_def)
    also have "\<dots> = Z + (of_bool large + of_bool (c1 \<noteq> 0) + of_bool (c3 \<noteq> 0)) * (int A * M)"
      unfolding low high n3 st'(3) [symmetric] Tz by (simp add: algebra_simps)
    finally have "int (limbs_val (low @ high)) = Z + of_bool (large \<or> c1 \<noteq> 0 \<or> c3 \<noteq> 0) * (int A * M)"
      by (rule borrows) (use ZM bound [OF h(2)] in \<open>simp_all only: M_def AM of_nat_0_le_iff\<close>)
    moreover have "length (low @ high) = length dp" using h(2) s2'(1) mi(1) by simp
    ultimately show ?thesis
      using h(1) unfolding m_def [symmetric] Z_def [symmetric] M_def AM by (intro exI conjI)
  next
    case False
    then have l: "length n2p = Suc m" "\<not> large" "2 ^ (64 * qn) \<le> limbs_val n2p" "m = qn"
      "limbs_val n2p * A < limbs_val qp * (D mod A) + D div A * A" using st'(4) by auto
    have Thb: "Th < 2 ^ (64 * qn)" using limbs_val_bound [of "drop i tp"] ds(1) by (simp add: Th_def)
    have n3b: "limbs_val n3 < 2 ^ (64 * length n2p)" using limbs_val_bound [of n3] s1'(1) by simp
    have c1: "c1 = 0" 
    proof -
      have "2 ^ (64 * length n2p) * unat c1 < 2 ^ (64 * length n2p) * 1" using s1'(3) n3b Thb l(3) by linarith
      then have "unat c1 < 1" by (simp only: mult_less_cancel1)
      then show ?thesis by (simp add: unat_eq_0)
    qed
    then have n3: "limbs_val n3 + Th = limbs_val n2p" using s1'(3) by simp
    have "Tl < A" using limbs_val_bound [of "take i tp"] tp(1) by (simp add: Tl_def A_def)
    then have "limbs_val n2p * A < (Th + 1 + D div A) * A" using l(5) unfolding T by (simp add: algebra_simps)
    then have "limbs_val n2p < Th + 1 + D div A" by (simp only: mult_less_cancel2)
    then have "limbs_val n3 \<le> D div A" using n3 by linarith
    also have "D div A < 2 ^ (64 * m)"
      using limbs_val_bound [of "drop i dp"] mi(1) by (simp add: D(1) A_def limbs_val_drop)
    finally have tk: "limbs_val (take m n3) = limbs_val n3" by (rule limbs_val_take_small)
    have one: "unat c2 \<le> limbs_val (take m n3)" using tk n3 Thb l(3) s2'(2) by linarith
    have ne: "take m n3 \<noteq> []" using l(4) i(4) s1'(1) l(1) by auto
    obtain c3 high where h: "sub_1_area (take m n3) (length n2p) c2 = Inr (c3, high)" "length high = m" "c3 = 0"
      "limbs_val high + unat c2 = limbs_val n3"
      using sub_1_area_val [OF ne, of "length n2p" c2] one tk s1'(1) l(1) by auto
    have "int (limbs_val (low @ high)) = int (limbs_val low) + int A * int (limbs_val high)"
      by (simp add: limbs_val_append s2'(1) A_def)
    also have "int (limbs_val high) = partial_val n2p large - int Th - int (unat c2)"
      using arg_cong [OF h(4), of int] arg_cong [OF n3, of int] l(2) by (simp add: partial_val_def)
    finally have "int (limbs_val (low @ high)) = Z"
      unfolding low st'(3) [symmetric] Tz by (simp add: algebra_simps)
    then have "int (limbs_val (low @ high)) = Z + of_bool (large \<or> c1 \<noteq> 0 \<or> c3 \<noteq> 0) * 2 ^ (64 * length dp)"
      using c1 l(2) h(3) by simp
    moreover have "length (low @ high) = length dp" using h(2) s2'(1) mi(1) by simp
    ultimately show ?thesis using h(1) unfolding m_def [symmetric] Z_def [symmetric] by (intro exI conjI)
  qed
qed

end
