(* ===== verification/Gmp_Tdiv_Correct.thy ===== *)
theory Gmp_Tdiv_Correct
  imports Gmp_Tdiv_Short
begin

text \<open>
  \<open>mpn_tdiv_qr\<close> computes the quotient and the remainder. The product of limbs and the division of
  normalized operands are the interface \<open>limb_division\<close>, which is interpreted on \<open>mpn_mul\<close> and
  \<open>mpn_sbpi1_div_qr\<close> for divisors below \<open>DC_DIV_QR_THRESHOLD\<close>.
\<close>

subsection \<open>Divisions behind the normalization\<close>

text \<open>
  The contract of the division of a normalized divisor whose quotient has no high limb, and the product
  of limbs, which the short quotient needs.
\<close>

locale limb_division = limb_product mul sqr fits
  for mul :: "limbs \<Rightarrow> limbs \<Rightarrow> limbs outcome" and sqr :: "limbs \<Rightarrow> limbs outcome"
    and fits :: "bool \<Rightarrow> nat \<Rightarrow> nat \<Rightarrow> bool" +
  fixes div_big :: div_big and divides :: "nat \<Rightarrow> bool"
  assumes div_val: "divides (length dp) \<Longrightarrow> 3 \<le> length dp \<Longrightarrow> length dp \<le> length np \<Longrightarrow> 2 ^ 63 \<le> unat (last dp) \<Longrightarrow>
      limbs_val np < limbs_val dp * 2 ^ (64 * (length np - length dp)) \<Longrightarrow>
      \<exists>qp rp. div_qr div_big np dp = Inr (qp, rp) \<and> length qp = length np - length dp \<and> length dp \<le> length rp \<and>
        limbs_val (take (length dp) rp) < limbs_val dp \<and>
        limbs_val np = limbs_val qp * limbs_val dp + limbs_val (take (length dp) rp)"
    and divides_less: "divides n \<Longrightarrow> m \<le> n \<Longrightarrow> divides m"
    and divides_fits: "divides n \<Longrightarrow> l + m \<le> n \<Longrightarrow> fits False l m"
begin

lemma tdiv_long_val:
  assumes dn: "3 \<le> length dp" "length dp \<le> length np" "divides (length dp)" and top: "last dp \<noteq> 0"
    and adj: "adjust = of_bool (dp ! (length dp - 1) \<le> np ! (length np - 1))"
  shows "\<exists>r. tdiv_long div_big adjust np dp = Inr r \<and> quotient_of np dp r"
proof -
  define nn where "nn = length np"
  have ne: "dp \<noteq> []" "np \<noteq> []" using dn by auto
  obtain t where t: "t * 2 ^ (64 * (length dp - 1)) \<le> limbs_val dp"
    "limbs_val np < t * 2 ^ (64 * (length dp - 1)) * 2 ^ (64 * (nn - length dp + adjust))"
    using adjust_bound [OF ne(1) top dn(2) adj] by (auto simp: nn_def)
  have "t * 2 ^ (64 * (length dp - 1)) * 2 ^ (64 * (nn - length dp + adjust)) \<le>
      limbs_val dp * 2 ^ (64 * (nn - length dp + adjust))"
    using t(1) by (rule mult_le_mono1)
  with t(2) have lt: "limbs_val np < limbs_val dp * 2 ^ (64 * (nn - length dp + adjust))" by (rule less_le_trans)
  define cnt where "cnt = (if last dp AND GMP_LIMB_HIGHBIT = 0 then count_leading_zeros (last dp) else 0)"
  define d2p n2p where "d2p = (if cnt \<noteq> 0 then snd (mpn_lshift dp cnt) else dp)"
    and "n2p = (if cnt \<noteq> 0 then snd (mpn_lshift np cnt) @ [fst (mpn_lshift np cnt)] else np @ [0])"
  have sh: "cnt < 64" "2 ^ cnt * limbs_val dp < 2 ^ (64 * length dp)" "2 ^ (64 * length dp) \<le> 2 * (2 ^ cnt * limbs_val dp)"
    "last dp AND GMP_LIMB_HIGHBIT = 0 \<longleftrightarrow> cnt \<noteq> 0"
    using normalizing_shift [OF ne(1) top] normalized_value [OF ne(1)] limbs_val_bound [of dp] by (auto simp: cnt_def)
  have res: "tdiv_long div_big adjust np dp = bindO (div_qr div_big (take (nn + adjust) n2p) d2p) (\<lambda>(qp, n2p).
         Inr (qp @ replicate (1 - adjust) 0,
              if cnt \<noteq> 0 then snd (mpn_rshift (take (length dp) n2p) cnt) else take (length dp) n2p))"
    using sh(4) unfolding tdiv_long_def Let_def nn_def [symmetric]
    by (auto simp: d2p_def n2p_def cnt_def split: prod.splits)
  have d2: "length d2p = length dp" "limbs_val d2p = 2 ^ cnt * limbs_val dp"
    using lshift_carry [OF _ sh(1) ne(1) surjective_pairing] sh(2) by (auto simp: d2p_def)
  have n2: "length n2p = Suc nn" "limbs_val n2p = 2 ^ cnt * limbs_val np"
    using lshift_carry [OF _ sh(1) ne(2) surjective_pairing] by (auto simp: n2p_def nn_def limbs_val_snoc)
  define N where "N = take (nn + adjust) n2p"
  define k where "k = nn - length dp + adjust"
  have k: "nn + adjust = length dp + k" "adjust \<le> 1" using dn(2) adj by (simp_all add: k_def nn_def)
  have N'lt: "2 ^ cnt * limbs_val np < 2 ^ cnt * limbs_val dp * 2 ^ (64 * k)" using lt by (simp add: k_def)
  also have "\<dots> < 2 ^ (64 * length dp) * 2 ^ (64 * k)" using sh(2) by simp
  also have "\<dots> = 2 ^ (64 * (nn + adjust))" by (simp add: k(1) flip: power_add)
  finally have N: "limbs_val N = 2 ^ cnt * limbs_val np" "length N = nn + adjust"
    using limbs_val_take_small [of n2p "nn + adjust"] n2 k(2) by (simp_all add: N_def)
  have "d2p \<noteq> []" using d2(1) ne(1) by auto
  then have norm: "2 ^ 63 \<le> unat (last d2p)" by (rule last_normalized) (simp only: d2 sh(3))
  have lN: "length N - length d2p = k" using k(1) N(2) d2(1) by simp
  obtain qp rp where q: "div_qr div_big N d2p = Inr (qp, rp)" "length qp = k" "length dp \<le> length rp"
    "limbs_val (take (length dp) rp) < 2 ^ cnt * limbs_val dp"
    "2 ^ cnt * limbs_val np = limbs_val qp * (2 ^ cnt * limbs_val dp) + limbs_val (take (length dp) rp)"
    using div_val [of d2p N] dn N'lt norm d2 N lN k(1) by auto
  note s = scaled_division [OF q(5,4)]
  define R where "R = (if cnt \<noteq> 0 then snd (mpn_rshift (take (length dp) rp) cnt) else take (length dp) rp)"
  have R: "length R = length dp \<and> limbs_val R = limbs_val (take (length dp) rp) div 2 ^ cnt"
  proof (cases "cnt = 0")
    case False
    have "take (length dp) rp \<noteq> []" using q(3) ne(1) by auto
    from mpn_rshift_val(1,2) [OF _ sh(1) this surjective_pairing] show ?thesis
      using False q(3) by (simp add: R_def)
  qed (use q(3) in \<open>simp add: R_def\<close>)
  have "tdiv_long div_big adjust np dp = Inr (qp @ replicate (1 - adjust) 0, R)"
    unfolding res N_def [symmetric] q(1) by (simp add: R_def)
  moreover have "length qp + (1 - adjust) = length np - length dp + 1" using q(2) k(2) by (simp add: k_def nn_def)
  ultimately show ?thesis using s(1,2) R by (simp add: quotient_of_def limbs_val_append)
qed

lemma short_estimate_val:
  assumes ok: "divides (length d2p)" and d2p: "d2p \<noteq> []" "2 ^ 63 \<le> unat (last d2p)" and n2p: "length n2p = 2 * length d2p"
    and lt: "limbs_val n2p < limbs_val d2p * 2 ^ (64 * length d2p)"
  shows "\<exists>qp rp. short_estimate div_big n2p d2p = Inr (qp, rp) \<and> length qp = length d2p \<and> length d2p \<le> length rp \<and>
    limbs_val (take (length d2p) rp) < limbs_val d2p \<and>
    limbs_val n2p = limbs_val qp * limbs_val d2p + limbs_val (take (length d2p) rp)"
proof -
  have last: "last d2p = d2p ! (length d2p - 1)" using d2p(1) by (rule last_conv_nth)
  have "0 < length d2p" using d2p(1) by simp
  then have "length d2p = 1 \<or> length d2p = 2 \<or> 3 \<le> length d2p" by arith
  then consider "length d2p = 1" | "length d2p = 2" | "3 \<le> length d2p" by blast
  then show ?thesis
  proof cases
    case 1
    then obtain d where d: "d2p = [d]" by (auto simp: length_Suc_conv)
    obtain n0 n1 where n: "n2p = [n0, n1]" using n2p 1 by (auto simp: length_Suc_conv numeral_2_eq_2)
    obtain q r where r: "udiv_qrnnd n1 n0 d = (q, r)" by fastforce
    have "2 ^ 64 * unat n1 < 2 ^ 64 * unat d" using lt by (simp add: d n)
    then have "unat n1 < unat d" by (simp only: mult_less_cancel1)
    then have "2 ^ 64 * unat n1 + unat n0 = unat q * unat d + unat r \<and> unat r < unat d"
      using udiv_qrnnd_val [OF _ _ r] d2p(2) by (simp add: d)
    then show ?thesis using r by (simp add: short_estimate_def d n)
  next
    case 2
    obtain qh qp rp where r: "mpn_divrem_2 0 n2p d2p = (qh, qp, rp)" by (metis surj_pair)
    have "2 \<le> length n2p" "2 ^ 63 \<le> unat (d2p ! 1)" using n2p 2 d2p(2) last by simp_all
    note v = mpn_divrem_2_val [OF this(1) 2 this(2) r]
    have "limbs_val n2p = limbs_val (qp @ [qh]) * limbs_val d2p + limbs_val rp" using v(5) by simp
    from no_high_limb(2) [OF this] have "limbs_val n2p = limbs_val qp * limbs_val d2p + limbs_val rp"
      using v(1) lt 2 n2p by simp
    then show ?thesis using r v 2 n2p by (simp add: short_estimate_def)
  next
    case 3
    then show ?thesis using div_val [OF ok, of n2p] d2p(2) n2p lt by (auto simp: short_estimate_def)
  qed
qed

lemma short_finish_val:
  assumes st: "partial_state qn (length dp) (limbs_val np) (limbs_val dp) qp n2p large i"
    and i: "i + qn \<le> length dp" "length dp \<le> length np" "0 < qn" "qn \<le> length qp" "qn < length dp"
    and ok: "divides (length dp)"
  shows "\<exists>qp' rp'. short_finish mul qn i large np dp qp n2p = Inr (qp', rp') \<and> length qp' = length qp \<and>
    length rp' = length dp \<and> limbs_val rp' < limbs_val dp \<and> limbs_val np = limbs_val qp' * limbs_val dp + limbs_val rp'"
proof -
  define N D Z where "N = limbs_val np" and "D = limbs_val dp" and "Z = int N - int (limbs_val qp * D)"
  have Z: "- int D \<le> Z" "Z < int D" using st unfolding partial_state_def N_def [symmetric] D_def [symmetric] Z_def [symmetric] by blast+
  have fin: "\<exists>qp' rp'. (if lg then bindO (mpn_decr_1 qp) (\<lambda>qp. Inr (qp, snd (mpn_add_n rp dp))) else Inr (qp, rp)) = Inr (qp', rp') \<and>
      length qp' = length qp \<and> length rp' = length dp \<and> limbs_val rp' < limbs_val dp \<and> limbs_val np = limbs_val qp' * limbs_val dp + limbs_val rp'"
    if "length rp = length dp" "int (limbs_val rp) = Z + of_bool lg * 2 ^ (64 * length dp)" for rp lg
    using short_correct [OF that(1) [symmetric] Z D_def Z_def that(2)] by (simp add: N_def D_def)
  show ?thesis
  proof (cases "i = 0")
    case True
    have "length n2p = length dp" "partial_val n2p large = Z"
      using st i(5) True unfolding partial_state_def N_def [symmetric] D_def [symmetric] Z_def [symmetric] by auto
    then show ?thesis using fin [of n2p large] i(3) True by (simp add: short_finish_def Let_def partial_val_def)
  next
    case False
    have lens: "length (take qn qp) = qn" "length (take i dp) = i" using i by simp_all
    have tq: "limbs_val (take qn qp) = limbs_val qp" using st by (intro limbs_val_take_small) (simp add: partial_state_def)
    have di: "limbs_val (take i dp) = D mod 2 ^ (64 * i)" using i by (simp add: limbs_val_take D_def)
    have ne: "take qn qp \<noteq> []" "take i dp \<noteq> []" using lens i False by auto
    have f: "fits False i qn" "fits False qn i" using divides_fits [OF ok] i by simp_all
    define P where "P = (if i < qn then mul (take qn qp) (take i dp) else mul (take i dp) (take qn qp))"
    obtain tp where tp: "P = Inr tp" "length tp = qn + i" "limbs_val tp = limbs_val qp * (D mod 2 ^ (64 * i))"
    proof (cases "i < qn")
      case True
      then show ?thesis using mul_val [OF ne(2), of "take qn qp"] f lens that i(4) by (auto simp: P_def tq di)
    next
      case False
      then show ?thesis using mul_val [OF ne(1), of "take i dp"] f lens that i(5) by (auto simp: P_def tq di mult.commute [of _ "limbs_val qp"] add.commute [of i])
    qed
    obtain c1 n3 where s1: "mpn_sub n2p (take qn (drop i tp)) = (c1, n3)" by fastforce
    obtain c2 low where s2: "mpn_sub_n (take i np) (take i tp) = (c2, low)" by fastforce
    have i0: "0 < i" using False by simp
    obtain c3 high where h: "sub_1_area (take (length dp - i) n3) (length n2p) c2 = Inr (c3, high)" "length (low @ high) = length dp"
      "int (limbs_val (low @ high)) = Z + of_bool ((large \<or> c1 \<noteq> 0) \<or> c3 \<noteq> 0) * 2 ^ (64 * length dp)"
      using short_subtract [OF st refl refl i0 i(1-3) tp(2) _ s1 s2] tp(3) by (auto simp: Z_def N_def D_def)
    have "short_finish mul qn i large np dp qp n2p =
        (let rp = low @ high; lg = (large \<or> c1 \<noteq> 0) \<or> c3 \<noteq> 0
         in if lg then bindO (mpn_decr_1 qp) (\<lambda>qp. Inr (qp, snd (mpn_add_n rp dp))) else Inr (qp, rp))"
      using False unfolding short_finish_def Let_def P_def [symmetric] tp(1) by (simp add: s1 s2 h(1))
    then show ?thesis using fin [OF h(2,3)] by (simp only: Let_def)
  qed
qed

lemma tdiv_short_val:
  assumes dn: "3 \<le> length dp" "length dp \<le> length np" "divides (length dp)" and top: "last dp \<noteq> 0"
    and adj: "adjust = of_bool (dp ! (length dp - 1) \<le> np ! (length np - 1))"
    and short: "length np + adjust < 2 * length dp"
  shows "\<exists>r. tdiv_short mul div_big adjust np dp = Inr r \<and> quotient_of np dp r"
proof -
  define N D dl where "N = limbs_val np" and "D = limbs_val dp" and "dl = length dp"
  have ne: "dp \<noteq> []" using dn by auto
  define qn where "qn = length np - length dp + adjust"
  have a1: "adjust \<le> 1" using adj by simp
  have len: "length np + adjust = dl + qn" "qn < dl" using dn(2) short by (simp_all add: qn_def dl_def)
  obtain t where t: "t * 2 ^ (64 * (dl - 1)) \<le> D" "N < t * 2 ^ (64 * (dl - 1)) * 2 ^ (64 * qn)"
    using adjust_bound [OF ne top dn(2) adj] by (auto simp: N_def D_def dl_def qn_def)
  have NDq: "N < D * 2 ^ (64 * qn)" using t(2) mult_le_mono1 [OF t(1), of "2 ^ (64 * qn)"] by linarith
  show ?thesis
  proof (cases "qn = 0")
    case True
    then have "length np = length dp" "adjust = 0" using len dn(2) by (simp_all add: dl_def)
    then show ?thesis using True NDq
      by (simp add: tdiv_short_def Let_def qn_def [symmetric] quotient_of_def N_def D_def)
  next
    case False
    then have q0: "0 < qn" by simp
    define cnt where "cnt = (if last dp AND GMP_LIMB_HIGHBIT = 0 then count_leading_zeros (last dp) else 0)"
    have sh: "cnt < 64" "2 ^ cnt * D < 2 ^ (64 * dl)" "2 ^ (64 * dl) \<le> 2 * (2 ^ cnt * D)"
      using normalizing_shift [OF ne top] normalized_value [OF ne] limbs_val_bound [of dp] by (auto simp: cnt_def D_def dl_def)
    define i u where "i = dl - qn" and "u = (2 :: nat) ^ (64 * i - cnt)"
    have i: "0 < i" "dl = i + qn" using len(2) by (simp_all add: i_def)
    have "cnt + (64 * i - cnt) = 64 * i" using i(1) sh(1) by simp
    then have uc: "2 ^ cnt * u = 2 ^ (64 * i)" unfolding u_def by (simp flip: power_add)
    have u0: "0 < u" by (simp add: u_def)
    have B: "(2 :: nat) ^ (64 * dl) = 2 ^ cnt * u * 2 ^ (64 * qn)" unfolding uc i(2) by (simp add: power_add)
    define D' where "D' = D div u"
    have Dlt: "D' < 2 ^ (64 * qn)"
    proof -
      have "2 ^ cnt * D < 2 ^ cnt * (u * 2 ^ (64 * qn))" using sh(2) unfolding B by simp
      then have "D < u * 2 ^ (64 * qn)" by simp
      then show ?thesis by (simp add: D'_def less_mult_imp_div_less mult.commute)
    qed
    have norm: "2 ^ (64 * qn) \<le> 2 * D'"
    proof -
      obtain r where r: "qn = Suc r" using q0 by (cases qn) auto
      have h: "(2 :: nat) ^ (64 * qn) = 2 * 2 ^ (64 * r + 63)" by (simp add: r power_add)
      have "2 ^ cnt * (u * 2 ^ (64 * r + 63)) \<le> 2 ^ cnt * D" using sh(3) unfolding B h by simp
      then have "2 ^ (64 * r + 63) * u \<le> D" by (simp add: mult.commute)
      then have "2 ^ (64 * r + 63) \<le> D'" unfolding D'_def using u0 by (simp add: less_eq_div_iff_mult_less_eq)
      then show ?thesis unfolding h by simp
    qed
    have Nlt: "N div u < D' * 2 ^ (64 * qn)"
    proof -
      have "64 * (dl - 1) = (64 * i - cnt) + (64 * (dl - 1) - (64 * i - cnt))" using i q0 by simp
      then obtain w where w: "(2 :: nat) ^ (64 * (dl - 1)) = u * w" unfolding u_def by (metis power_add)
      have "t * w * u \<le> D" using t(1) unfolding w by (simp add: ac_simps)
      then have "t * w \<le> D'" unfolding D'_def using u0 by (simp add: less_eq_div_iff_mult_less_eq)
      moreover have "N div u < t * w * 2 ^ (64 * qn)"
        using t(2) unfolding w by (intro less_mult_imp_div_less) (simp add: ac_simps)
      ultimately show ?thesis using mult_le_mono1 [of "t * w" D' "2 ^ (64 * qn)"] by linarith
    qed
    have Nlt2: "N div u < 2 ^ (64 * (2 * qn))"
    proof -
      have "D' * 2 ^ (64 * qn) \<le> 2 ^ (64 * qn) * 2 ^ (64 * qn)" using Dlt by (intro mult_le_mono1) simp
      also have "\<dots> = 2 ^ (64 * (2 * qn))" by (simp flip: power_add)
      finally show ?thesis using Nlt by linarith
    qed
    obtain n2p d2p where o: "short_operands adjust qn cnt np dp = (n2p, d2p)" by fastforce
    have ov: "length n2p = 2 * qn" "limbs_val n2p = N div u" "length d2p = qn" "limbs_val d2p = D'"
      using short_operands_val [OF q0 len(2) [unfolded dl_def] len(1) [unfolded dl_def] a1 sh(1) _ _ o] Dlt Nlt2
      by (simp_all add: N_def D_def D'_def u_def i_def dl_def)
    have d2: "d2p \<noteq> []" using ov(3) q0 by auto
    have n63: "2 ^ 63 \<le> unat (last d2p)" by (rule last_normalized [OF d2]) (simp only: ov norm)
    have okq: "divides qn" using divides_less [OF dn(3)] len(2) by (simp add: dl_def)
    obtain qp1 n1 where e: "short_estimate div_big n2p d2p = Inr (qp1, n1)" "length qp1 = qn" "qn \<le> length n1"
      "limbs_val (take qn n1) < D'" "N div u = limbs_val qp1 * D' + limbs_val (take qn n1)"
      using short_estimate_val [of d2p n2p] okq d2 n63 ov Nlt by auto
    obtain qp2 n2 where s: "short_test qn cnt dp d2p (qp1 @ replicate (1 - adjust) 0) n1 = Inr (qp2, n2)"
      "length qp2 = qn + (1 - adjust)" "short_state qn N D u qp2 n2"
      using short_test_val [of qn dp cnt u d2p qp1 n1 N "1 - adjust"] q0 len(2) sh(1) ov norm e
      by (auto simp: dl_def D_def D'_def u_def i_def)
    obtain n3 large i' where p: "short_partial qn cnt i np dp qp2 n2 = Inr (n3, large, i')"
      "i' = i - of_bool (cnt \<noteq> 0)" "partial_state qn dl N D qp2 n3 large i'"
    proof -
      have "i \<le> length np" "qn \<le> length qp2" using len s(2) dn(2) by (simp_all add: i_def dl_def)
      from short_partial_val [OF q0 len(2) [unfolded dl_def] sh(1) i_def [unfolded dl_def] this sh(2) [unfolded D_def dl_def]
          s(3) [unfolded N_def D_def u_def]]
      show ?thesis using that unfolding N_def D_def dl_def by blast
    qed
    obtain qp' rp' where f: "short_finish mul qn i' large np dp qp2 n3 = Inr (qp', rp')" "length qp' = length qp2"
      "length rp' = length dp" "limbs_val rp' < limbs_val dp" "limbs_val np = limbs_val qp' * limbs_val dp + limbs_val rp'"
      using short_finish_val [of qn dp np qp2 n3 large i'] p(2,3) i q0 len(2) s(2) dn(2,3) by (auto simp: dl_def N_def D_def)
    have "tdiv_short mul div_big adjust np dp = Inr (qp', rp')"
      unfolding tdiv_short_def Let_def qn_def [symmetric] cnt_def [symmetric] if_not_P [OF False] o case_prod_conv
      unfolding e(1) bindO_Inr case_prod_conv s(1) dl_def [symmetric] i_def [symmetric] p(1) by (rule f(1))
    moreover have "length qp' = length np - length dp + 1" using f(2) s(2) a1 by (simp add: qn_def)
    ultimately show ?thesis using f(3-5) by (simp add: quotient_of_def)
  qed
qed

lemma mpn_tdiv_qr_val:
  assumes "dp \<noteq> []" and "last dp \<noteq> 0" and "length dp \<le> length np" and "divides (length dp)"
  shows "\<exists>r. mpn_tdiv_qr mul div_big np dp = Inr r \<and> quotient_of np dp r"
proof -
  define adjust where "adjust = (of_bool (dp ! (length dp - 1) \<le> np ! (length np - 1)) :: nat)"
  have "0 < length dp" using assms(1) by simp
  then have "length dp = 1 \<or> length dp = 2 \<or> 3 \<le> length dp" by arith
  then consider "length dp = 1" | "length dp = 2" | "3 \<le> length dp" by blast
  then show ?thesis
  proof cases
    case 1
    then obtain d where d: "dp = [d]" by (auto simp: length_Suc_conv)
    obtain qp r where r: "mpn_divrem_1 0 np d = (qp, r)" by fastforce
    have "d \<noteq> 0" using assms(2) by (simp add: d)
    from mpn_divrem_1_val [OF this r] show ?thesis
      using r assms(3) by (simp add: mpn_tdiv_qr_def quotient_of_def d)
  next
    case 2
    then have "dp ! 1 \<noteq> 0" using assms(1,2) by (simp add: last_conv_nth)
    then show ?thesis using tdiv_2_val [OF 2] 2 assms(3) by (simp add: mpn_tdiv_qr_def)
  next
    case 3
    have "mpn_tdiv_qr mul div_big np dp =
        (if 2 * length dp \<le> length np + adjust then tdiv_long div_big adjust np dp else tdiv_short mul div_big adjust np dp)"
      using 3 assms(1) by (simp add: mpn_tdiv_qr_def Let_def adjust_def)
    then show ?thesis
      using tdiv_long_val [OF 3 assms(3,4,2) adjust_def] tdiv_short_val [OF 3 assms(3,4,2) adjust_def]
      by (cases "2 * length dp \<le> length np + adjust") simp_all
  qed
qed

end

subsection \<open>The divisions that \<open>mpn_tdiv_qr\<close> takes\<close>

text \<open>Below the threshold of the divide-and-conquer division; half of it is the threshold of Karatsuba.\<close>

interpretation low: limb_division "mpn_mul toom32 mul_big" "mpn_sqr sqr_big" product_fits div_big "\<lambda>n. n < DC_DIV_QR_THRESHOLD"
  for toom32 mul_big :: "limbs \<Rightarrow> limbs \<Rightarrow> limbs" and sqr_big :: "limbs \<Rightarrow> limbs" and div_big :: div_big
proof unfold_locales
  fix dp np :: limbs
  assume dn: "length dp < DC_DIV_QR_THRESHOLD" "3 \<le> length dp" "length dp \<le> length np" "2 ^ 63 \<le> unat (last dp)"
    and lt: "limbs_val np < limbs_val dp * 2 ^ (64 * (length np - length dp))"
  obtain qh qp rp where r: "mpn_sbpi1_div_qr np dp (invert_pi1 (dp ! (length dp - 1)) (dp ! (length dp - 2))) = (qh, qp, rp)"
    by (metis surj_pair)
  have "2 \<le> length dp" using dn(2) by simp
  note v = mpn_sbpi1_div_qr_val [OF this dn(3,4) refl r]
  have "limbs_val np = limbs_val qp * limbs_val dp + limbs_val (take (length dp) rp)"
    by (rule no_high_limb(2) [OF v(5)]) (simp only: v(1) lt)
  then show "\<exists>qp rp. div_qr div_big np dp = Inr (qp, rp) \<and> length qp = length np - length dp \<and> length dp \<le> length rp \<and>
      limbs_val (take (length dp) rp) < limbs_val dp \<and> limbs_val np = limbs_val qp * limbs_val dp + limbs_val (take (length dp) rp)"
    using r v(1,3,4) dn(1,3) by (simp add: div_qr_def Let_def)
next
  fix l m n :: nat
  assume "n < DC_DIV_QR_THRESHOLD" "l + m \<le> n"
  then show "product_fits False l m"
    by (auto simp: product_fits_def DC_DIV_QR_THRESHOLD_def MUL_TOOM22_THRESHOLD_def)
qed simp

text \<open>
  C21: \<open>mpn_tdiv_qr\<close> divides. For every denominator of less than 60 limbs with a nonzero top limb and every
  numerator that is not shorter, on all of its paths (one limb, two limbs, the schoolbook division of all
  limbs, and the estimate from the high limbs that is tested and corrected when the quotient is
  shorter than the denominator), it returns, the areas have the lengths that the header promises, and they
  hold the quotient and the remainder.
\<close>

theorem mpn_tdiv_qr_divides:
  assumes "dp \<noteq> []" and "last dp \<noteq> 0" and "length dp \<le> length np" and "length dp < 60"
  shows "\<exists>qp rp. mpn_tdiv_qr (mpn_mul toom32 mul_big) div_big np dp = Inr (qp, rp) \<and>
    length qp = length np - length dp + 1 \<and> length rp = length dp \<and>
    limbs_val qp = limbs_val np div limbs_val dp \<and> limbs_val rp = limbs_val np mod limbs_val dp"
proof -
  have "length dp < DC_DIV_QR_THRESHOLD" using assms(4) by (simp add: DC_DIV_QR_THRESHOLD_def MUL_TOOM22_THRESHOLD_def)
  from low.mpn_tdiv_qr_val [OF assms(1-3) this, of toom32 mul_big div_big] obtain qp rp
    where r: "mpn_tdiv_qr (mpn_mul toom32 mul_big) div_big np dp = Inr (qp, rp)" "quotient_of np dp (qp, rp)" by auto
  then have q: "length qp = length np - length dp + 1" "length rp = length dp" "limbs_val rp < limbs_val dp"
    "limbs_val np = limbs_val qp * limbs_val dp + limbs_val rp"
    by (simp_all add: quotient_of_def)
  have "limbs_val qp = limbs_val np div limbs_val dp" "limbs_val rp = limbs_val np mod limbs_val dp"
    using q(3) unfolding q(4) by simp_all
  then show ?thesis using r(1) q(1,2) by blast
qed

text \<open>Four limbs by three: the estimate \<open>2 * 2 ^ 64\<close> from the high limbs is too large by one.\<close>

theorem mpn_tdiv_qr_divides_witness:
  "\<exists>qp rp. mpn_tdiv_qr (mpn_mul (\<lambda>_ _. []) (\<lambda>_ _. [])) (\<lambda>_ _. Inl AssertFail) [0, 0, 0, 6] [1, 0, 3] = Inr (qp, rp) \<and>
    limbs_val qp = 2 ^ 65 - 1 \<and> limbs_val rp = 2 ^ 64 * 3 * 2 ^ 64 - 2 ^ 65 + 1"
  using mpn_tdiv_qr_divides [of "[1, 0, 3]" "[0, 0, 0, 6]" "\<lambda>_ _. []" "\<lambda>_ _. []" "\<lambda>_ _. Inl AssertFail"]
  by auto

end
