(* ===== verification/Gmp_Mod.thy ===== *)
theory Gmp_Mod
  imports Gmp_Tdiv_Correct "HOL-Library.Signed_Division"
begin

text \<open>
  Division of numbers with its roundings: towards zero (\<open>mpz/tdiv_qr.c\<close>, \<open>tdiv_r.c\<close>), down (\<open>fdiv_qr.c\<close>,
  \<open>fdiv_r.c\<close>), up (\<open>cdiv_qr.c\<close>, \<open>cdiv_r.c\<close>), and with a remainder that is never negative (\<open>mod.c\<close>). Operands that
  are a result as well are copied first, so the result may be an operand; \<open>same\<close> says that the remainder is
  the numerator, which is then left as it is when it has fewer limbs than the denominator. \<open>w\<close> is the
  quotient's old value. The code divides a number of size zero by nothing: \<open>DIVIDE_BY_ZERO\<close> raises a signal.
\<close>

subsection \<open>The functions\<close>

definition mpz_tdiv_qr ::
  "(limbs \<Rightarrow> limbs \<Rightarrow> limbs outcome) \<Rightarrow> div_big \<Rightarrow> bool \<Rightarrow> mpz \<Rightarrow> mpz \<Rightarrow> mpz \<Rightarrow> (mpz \<times> mpz) outcome"
where
  "mpz_tdiv_qr mul div_big same w num den =
     (let ns = siz num; ds = siz den; nl = nat \<bar>ns\<bar>; dl = nat \<bar>ds\<bar>; ql = int nl - int dl + 1
      in if dl = 0 then Inl DivByZero
         else if ql \<le> 0 then Inr (w\<lparr>siz := 0\<rparr>, if same then num else \<lparr>siz = siz num, ptr = take nl (ptr num)\<rparr>)
         else bindO (mpn_tdiv_qr mul div_big (take nl (ptr num)) (take dl (ptr den))) (\<lambda>(qp, rp).
           let ql = ql - of_bool (qp ! nat (ql - 1) = 0); dl = int (mpn_normalize rp dl)
           in Inr (\<lparr>siz = (if (ns < 0) = (ds < 0) then ql else - ql), ptr = qp\<rparr>,
                   \<lparr>siz = (if 0 \<le> ns then dl else - dl), ptr = rp\<rparr>)))"

definition mpz_tdiv_r ::
  "(limbs \<Rightarrow> limbs \<Rightarrow> limbs outcome) \<Rightarrow> div_big \<Rightarrow> bool \<Rightarrow> mpz \<Rightarrow> mpz \<Rightarrow> mpz outcome"
where
  "mpz_tdiv_r mul div_big same num den =
     (let ns = siz num; nl = nat \<bar>ns\<bar>; dl = nat \<bar>siz den\<bar>; ql = int nl - int dl + 1
      in if dl = 0 then Inl DivByZero
         else if ql \<le> 0 then Inr (if same then num else \<lparr>siz = ns, ptr = take nl (ptr num)\<rparr>)
         else bindO (mpn_tdiv_qr mul div_big (take nl (ptr num)) (take dl (ptr den))) (\<lambda>(qp, rp).
           let dl = int (mpn_normalize rp dl) in Inr \<lparr>siz = (if 0 \<le> ns then dl else - dl), ptr = rp\<rparr>))"

definition mpz_mod ::
  "(limbs \<Rightarrow> limbs \<Rightarrow> limbs outcome) \<Rightarrow> div_big \<Rightarrow> bool \<Rightarrow> mpz \<Rightarrow> mpz \<Rightarrow> mpz outcome"
where
  "mpz_mod mul div_big same dividend divisor =
     (let divisor = divisor\<lparr>siz := \<bar>siz divisor\<bar>\<rparr>
      in bindO (mpz_tdiv_r mul div_big same dividend divisor) (\<lambda>rem.
         Inr (if siz rem < 0 then mpz_add rem divisor else rem)))"

definition mpz_fdiv_qr ::
  "(limbs \<Rightarrow> limbs \<Rightarrow> limbs outcome) \<Rightarrow> div_big \<Rightarrow> bool \<Rightarrow> mpz \<Rightarrow> mpz \<Rightarrow> mpz \<Rightarrow> (mpz \<times> mpz) outcome"
where
  "mpz_fdiv_qr mul div_big same w dividend divisor =
     bindO (mpz_tdiv_qr mul div_big same w dividend divisor) (\<lambda>(quot, rem).
       Inr (if (siz dividend < 0) \<noteq> (siz divisor < 0) \<and> siz rem \<noteq> 0 then (mpz_sub_ui quot 1, mpz_add rem divisor)
            else (quot, rem)))"

text \<open>These two read the sign of the dividend after the division, when it holds the remainder if it is the same object.\<close>

definition mpz_fdiv_r ::
  "(limbs \<Rightarrow> limbs \<Rightarrow> limbs outcome) \<Rightarrow> div_big \<Rightarrow> bool \<Rightarrow> mpz \<Rightarrow> mpz \<Rightarrow> mpz outcome"
where
  "mpz_fdiv_r mul div_big same dividend divisor =
     bindO (mpz_tdiv_r mul div_big same dividend divisor) (\<lambda>rem.
       let dividend = (if same then rem else dividend)
       in Inr (if (siz divisor < 0) \<noteq> (siz dividend < 0) \<and> siz rem \<noteq> 0 then mpz_add rem divisor else rem))"

definition mpz_cdiv_qr ::
  "(limbs \<Rightarrow> limbs \<Rightarrow> limbs outcome) \<Rightarrow> div_big \<Rightarrow> bool \<Rightarrow> mpz \<Rightarrow> mpz \<Rightarrow> mpz \<Rightarrow> (mpz \<times> mpz) outcome"
where
  "mpz_cdiv_qr mul div_big same w dividend divisor =
     bindO (mpz_tdiv_qr mul div_big same w dividend divisor) (\<lambda>(quot, rem).
       Inr (if (siz dividend < 0) = (siz divisor < 0) \<and> siz rem \<noteq> 0 then (mpz_add_ui quot 1, mpz_sub rem divisor)
            else (quot, rem)))"

definition mpz_cdiv_r ::
  "(limbs \<Rightarrow> limbs \<Rightarrow> limbs outcome) \<Rightarrow> div_big \<Rightarrow> bool \<Rightarrow> mpz \<Rightarrow> mpz \<Rightarrow> mpz outcome"
where
  "mpz_cdiv_r mul div_big same dividend divisor =
     bindO (mpz_tdiv_r mul div_big same dividend divisor) (\<lambda>rem.
       let dividend = (if same then rem else dividend)
       in Inr (if (siz divisor < 0) = (siz dividend < 0) \<and> siz rem \<noteq> 0 then mpz_sub rem divisor else rem))"

subsection \<open>The arithmetic they compute\<close>

lemma mpz_is_abs: "mpz_is z x \<Longrightarrow> int (limbs_val (mpz_limbs z)) = \<bar>x\<bar>"
  by (auto dest: mpz_is_limbs)

lemma mpz_is_sign:
  assumes "mpz_is z x"
  shows "siz z < 0 \<longleftrightarrow> x < 0" and "siz z = 0 \<longleftrightarrow> x = 0"
proof -
  have wf: "mpz_wf z" using assms by (simp add: mpz_is_def)
  have "siz z \<noteq> 0 \<Longrightarrow> 0 < limbs_val (mpz_limbs z)" by (rule less_le_trans [OF _ mpz_wf_top(2) [OF wf]]) simp_all
  then have "limbs_val (mpz_limbs z) = 0 \<longleftrightarrow> siz z = 0"
    using mpz_wf_top(1) [OF wf] by (cases "siz z = 0") auto
  then show "siz z < 0 \<longleftrightarrow> x < 0" "siz z = 0 \<longleftrightarrow> x = 0" using mpz_is_limbs [OF assms] by auto
qed

text \<open>The sign and size of a remainder.\<close>

lemma remainder_is:
  fixes s :: int
  assumes "length rp = n" and "int (limbs_val rp) = \<bar>x\<bar> mod \<bar>y\<bar>" and "s < 0 \<longleftrightarrow> x < 0" and "x = 0 \<Longrightarrow> 0 \<le> s"
  shows "mpz_is \<lparr>siz = (if 0 \<le> s then int (mpn_normalize rp n) else - int (mpn_normalize rp n)), ptr = rp\<rparr> (x smod y)"
  by (rule mpz_is_normalized [where neg = "s < 0"])
    (use assms in \<open>auto simp: smod_int_alt_def sgn_if not_less\<close>)

lemma smaller_is:
  assumes "mpz_is num x" and "\<bar>x\<bar> < \<bar>y\<bar>"
  shows "mpz_is (if same then num else \<lparr>siz = siz num, ptr = take (nat \<bar>siz num\<bar>) (ptr num)\<rparr>) (x smod y)"
proof -
  have "x smod y = x" using assms(2) by (simp add: smod_int_alt_def abs_mult_sgn mult.commute)
  then show ?thesis using assms(1) mpz_set_is [OF assms(1)] by (simp add: mpz_set_def Let_def)
qed

lemma shorter_abs:
  assumes "mpz_is num x" and "mpz_is den y" and "nat \<bar>siz num\<bar> < nat \<bar>siz den\<bar>"
  shows "\<bar>x\<bar> < \<bar>y\<bar>"
  using shorter_less [OF _ _ assms(3)] assms(1,2) mpz_is_abs [OF assms(1)] mpz_is_abs [OF assms(2)]
  by (simp add: mpz_is_def flip: of_nat_less_iff [where 'a = int])

lemma quotient_is:
  assumes num: "mpz_is num x" and den: "mpz_is den y" and len: "length qp = nat \<bar>siz num\<bar> - nat \<bar>siz den\<bar> + 1"
    and le: "siz den \<noteq> 0" "nat \<bar>siz den\<bar> \<le> nat \<bar>siz num\<bar>" and Q: "int (limbs_val qp) = \<bar>x\<bar> div \<bar>y\<bar>"
    and ql: "ql = int (nat \<bar>siz num\<bar>) - int (nat \<bar>siz den\<bar>) + 1"
  shows "mpz_is \<lparr>siz = (if (siz num < 0) = (siz den < 0) then ql - of_bool (qp ! nat (ql - 1) = 0)
      else - (ql - of_bool (qp ! nat (ql - 1) = 0))), ptr = qp\<rparr> (x sdiv y)"
proof -
  define m k where "m = nat \<bar>siz num\<bar> - nat \<bar>siz den\<bar>" and "k = Suc m - of_bool (qp ! m = 0)"
  have m: "length qp = Suc m" "nat (ql - 1) = m" "ql - of_bool (qp ! nat (ql - 1) = 0) = int k"
    using len le ql by (simp_all add: m_def k_def nat_diff_distrib')
  have ne: "qp \<noteq> []" using m(1) by auto
  have last: "qp ! m = last qp" using m(1) ne by (simp add: last_conv_nth)
  have N: "2 ^ (64 * (nat \<bar>siz num\<bar> - 1)) \<le> limbs_val (mpz_limbs num)"
    using num le by (intro mpz_wf_top(2)) (auto simp: mpz_is_def)
  have D: "limbs_val (mpz_limbs den) < 2 ^ (64 * nat \<bar>siz den\<bar>)" using den by (intro mpz_wf_top(3)) (simp add: mpz_is_def)
  have qv: "limbs_val qp = limbs_val (mpz_limbs num) div limbs_val (mpz_limbs den)"
    using Q unfolding mpz_is_abs [OF num, symmetric] mpz_is_abs [OF den, symmetric] by (simp flip: zdiv_int)
  have top: "2 ^ (64 * (k - 1)) \<le> limbs_val (take k qp) \<or> k = 0"
  proof (cases "last qp = 0")
    case False
    then have "k = length qp" using m(1) last by (simp add: k_def)
    then show ?thesis using limbs_top [OF ne False] by simp
  next
    case True
    then have k: "k = m" using last by (simp add: k_def)
    have "limbs_val (take k qp) = limbs_val qp" using limbs_val_last(1) [OF m(1)] True k by simp
    moreover have "2 ^ (64 * (m - 1)) \<le> limbs_val qp" if "m \<noteq> 0"
    proof -
      have d0: "0 < limbs_val (mpz_limbs den)" using mpz_wf_top(2) [of den] den le(1)
        by (metis mpz_is_def less_le_trans zero_less_numeral zero_less_power)
      have "2 ^ (64 * (m - 1)) * limbs_val (mpz_limbs den) \<le> 2 ^ (64 * (m - 1)) * 2 ^ (64 * nat \<bar>siz den\<bar>)"
        using D by (intro mult_le_mono2) simp
      also have "\<dots> = 2 ^ (64 * (m - 1 + nat \<bar>siz den\<bar>))" by (simp only: power_add distrib_left)
      also have "m - 1 + nat \<bar>siz den\<bar> = nat \<bar>siz num\<bar> - 1" using that unfolding m_def by linarith
      also note N
      finally show ?thesis unfolding qv using d0 by (simp add: less_eq_div_iff_mult_less_eq)
    qed
    ultimately show ?thesis using k by (cases "m = 0") simp_all
  qed
  have tk: "limbs_val (take k qp) = limbs_val qp"
    using limbs_val_last(1) [OF m(1)] m(1) last by (cases "last qp = 0") (simp_all add: k_def)
  have sg: "siz num < 0 \<longleftrightarrow> x < 0" "siz den < 0 \<longleftrightarrow> y < 0" using mpz_is_sign num den by blast+
  have "x sdiv y = (if (x < 0) = (y < 0) then int (limbs_val qp) else - int (limbs_val qp))"
    unfolding Q signed_divide_int_def by (auto simp: sgn_if)
  then show ?thesis
    unfolding m(3) sg by (intro mpz_is_sized [where n = k and neg = "(x < 0) \<noteq> (y < 0)"])
      (use top m(1) tk in \<open>simp_all add: k_def\<close>)
qed

text \<open>From the quotient that is cut off to the other roundings.\<close>

lemma smod_eq_0: "x smod y = 0 \<longleftrightarrow> y dvd (x :: int)"
  by (auto simp: smod_int_alt_def sgn_if)

lemma floor_from_cut:
  fixes x y :: int
  assumes "y \<noteq> 0"
  shows "x div y = (if (x < 0) \<noteq> (y < 0) \<and> x smod y \<noteq> 0 then x sdiv y - 1 else x sdiv y)"
    and "x mod y = (if (x < 0) \<noteq> (y < 0) \<and> x smod y \<noteq> 0 then x smod y + y else x smod y)"
  using assms divide_int_eq_signed_divide_int [of x y] modulo_int_eq_signed_modulo_int [of x y]
  by (auto simp: smod_eq_0 sgn_if split: if_splits)

lemma sdiv_minus: "(- x :: int) sdiv y = - (x sdiv y)" and smod_minus: "(- x :: int) smod y = - (x smod y)"
  by (simp_all add: signed_divide_int_def signed_modulo_int_def sgn_minus)

lemma ceiling_from_cut:
  fixes x y :: int
  assumes "y \<noteq> 0"
  shows "- (- x div y) = (if (x < 0) = (y < 0) \<and> x smod y \<noteq> 0 then x sdiv y + 1 else x sdiv y)"
    and "- (- x mod y) = (if (x < 0) = (y < 0) \<and> x smod y \<noteq> 0 then x smod y - y else x smod y)"
  using floor_from_cut [OF assms, of "- x"]
  by (cases "x = 0"; auto simp: sdiv_minus smod_minus smod_eq_0 split: if_splits)+

lemma mod_abs_from_cut:
  fixes x y :: int
  assumes "y \<noteq> 0"
  shows "x mod \<bar>y\<bar> = (if x smod \<bar>y\<bar> < 0 then x smod \<bar>y\<bar> + \<bar>y\<bar> else x smod \<bar>y\<bar>)"
proof -
  have "x smod \<bar>y\<bar> < 0 \<longleftrightarrow> x < 0 \<and> x smod \<bar>y\<bar> \<noteq> 0"
  proof -
    define m where "m = \<bar>x\<bar> mod \<bar>\<bar>y\<bar>\<bar>"
    have "0 \<le> m" using assms by (simp add: m_def)
    then show ?thesis unfolding smod_int_alt_def m_def [symmetric] by (auto simp: sgn_if)
  qed
  then show ?thesis using floor_from_cut(2) [of "\<bar>y\<bar>" x] assms by auto
qed

context limb_division
begin

lemma tdiv_parts:
  assumes "mpz_is num x" and "mpz_is den y" and "siz den \<noteq> 0" and "nat \<bar>siz den\<bar> \<le> nat \<bar>siz num\<bar>" and "divides (nat \<bar>siz den\<bar>)"
  shows "\<exists>qp rp. mpn_tdiv_qr mul div_big (mpz_limbs num) (mpz_limbs den) = Inr (qp, rp) \<and>
    length qp = nat \<bar>siz num\<bar> - nat \<bar>siz den\<bar> + 1 \<and> length rp = nat \<bar>siz den\<bar> \<and>
    int (limbs_val qp) = \<bar>x\<bar> div \<bar>y\<bar> \<and> int (limbs_val rp) = \<bar>x\<bar> mod \<bar>y\<bar>"
proof -
  have wf: "mpz_wf num" "mpz_wf den" using assms(1,2) by (simp_all add: mpz_is_def)
  note len = mpz_wf_top(1) [OF wf(1)] mpz_wf_top(1) [OF wf(2)]
  have ne: "mpz_limbs den \<noteq> []" using len(2) assms(3) by auto
  then have top: "last (mpz_limbs den) \<noteq> 0" using wf(2) by (simp add: mpz_wf_limbs)
  have le: "length (mpz_limbs den) \<le> length (mpz_limbs num)" "divides (length (mpz_limbs den))"
    unfolding len by (rule assms(4), rule assms(5))
  obtain qp rp where r: "mpn_tdiv_qr mul div_big (mpz_limbs num) (mpz_limbs den) = Inr (qp, rp)"
    "quotient_of (mpz_limbs num) (mpz_limbs den) (qp, rp)"
    using mpn_tdiv_qr_val [OF ne top le] by auto
  define N D Q R where "N = limbs_val (mpz_limbs num)" and "D = limbs_val (mpz_limbs den)" and "Q = limbs_val qp" and "R = limbs_val rp"
  have q: "length qp = nat \<bar>siz num\<bar> - nat \<bar>siz den\<bar> + 1" "length rp = nat \<bar>siz den\<bar>" "R < D" "N = Q * D + R"
    using r(2) len by (simp_all add: quotient_of_def N_def D_def Q_def R_def)
  have "N div D = Q" "N mod D = R" using q(3) unfolding q(4) by simp_all
  then have "int Q = int N div int D" "int R = int N mod int D" unfolding zdiv_int [symmetric] zmod_int [symmetric] by simp_all
  then have "int Q = \<bar>x\<bar> div \<bar>y\<bar>" "int R = \<bar>x\<bar> mod \<bar>y\<bar>"
    unfolding N_def D_def mpz_is_abs [OF assms(1)] mpz_is_abs [OF assms(2)] by simp_all
  then show ?thesis using r(1) q(1,2) unfolding Q_def R_def by blast
qed

lemma mpz_tdiv_qr_is:
  assumes "mpz_is num x" and "mpz_is den y" and "y \<noteq> 0" and "divides (nat \<bar>siz den\<bar>)"
  shows "\<exists>q r. mpz_tdiv_qr mul div_big same w num den = Inr (q, r) \<and> mpz_is q (x sdiv y) \<and> mpz_is r (x smod y)"
proof -
  have d0: "siz den \<noteq> 0" using mpz_is_sign(2) [OF assms(2)] assms(3) by simp
  show ?thesis
  proof (cases "nat \<bar>siz num\<bar> < nat \<bar>siz den\<bar>")
    case True
    then have lt: "\<bar>x\<bar> < \<bar>y\<bar>" by (rule shorter_abs [OF assms(1,2)])
    then have "x sdiv y = 0" by (simp add: signed_divide_int_def)
    then show ?thesis
      using True d0 smaller_is [OF assms(1) lt] by (simp add: mpz_tdiv_qr_def Let_def mpz_is_empty)
  next
    case False
    then have le: "nat \<bar>siz den\<bar> \<le> nat \<bar>siz num\<bar>" by (simp only: not_less)
    obtain qp rp where r: "mpn_tdiv_qr mul div_big (mpz_limbs num) (mpz_limbs den) = Inr (qp, rp)"
      "length qp = nat \<bar>siz num\<bar> - nat \<bar>siz den\<bar> + 1" "length rp = nat \<bar>siz den\<bar>"
      "int (limbs_val qp) = \<bar>x\<bar> div \<bar>y\<bar>" "int (limbs_val rp) = \<bar>x\<bar> mod \<bar>y\<bar>"
      using tdiv_parts [OF assms(1,2) d0 le assms(4)] by blast
    have nz: "nat \<bar>siz den\<bar> \<noteq> 0" and nle: "\<not> int (nat \<bar>siz num\<bar>) - int (nat \<bar>siz den\<bar>) + 1 \<le> 0"
      using d0 le by simp_all
    show ?thesis
      unfolding mpz_tdiv_qr_def Let_def if_not_P [OF nz] if_not_P [OF nle] mpz_limbs_def [symmetric] r(1) bindO_Inr case_prod_conv
      by (intro exI conjI, rule refl, rule quotient_is [OF assms(1,2) r(2) d0 le r(4) refl],
          rule remainder_is [OF r(3,5) mpz_is_sign(1) [OF assms(1)]]) (use mpz_is_sign [OF assms(1)] in auto)
  qed
qed

lemma mpz_tdiv_r_is:
  assumes "mpz_is num x" and "mpz_is den y" and "y \<noteq> 0" and "divides (nat \<bar>siz den\<bar>)"
  shows "\<exists>r. mpz_tdiv_r mul div_big same num den = Inr r \<and> mpz_is r (x smod y)"
proof -
  obtain q r where "mpz_tdiv_qr mul div_big same num num den = Inr (q, r)" "mpz_is r (x smod y)"
    using mpz_tdiv_qr_is [OF assms] by blast
  moreover have "mpz_tdiv_r mul div_big same num den = bindO (mpz_tdiv_qr mul div_big same num num den) (\<lambda>(q, r). Inr r)"
    by (auto simp: mpz_tdiv_r_def mpz_tdiv_qr_def Let_def bindO_def split: sum.splits)
  ultimately show ?thesis by simp
qed

lemma mpz_mod_is:
  assumes "mpz_is num x" and "mpz_is den y" and "y \<noteq> 0" and "divides (nat \<bar>siz den\<bar>)"
  shows "\<exists>r. mpz_mod mul div_big same num den = Inr r \<and> mpz_is r (x mod \<bar>y\<bar>)"
proof -
  define d where "d = den\<lparr>siz := \<bar>siz den\<bar>\<rparr>"
  have "d = mpz_abs True den" by (cases den) (simp add: d_def mpz_abs_def)
  then have d: "mpz_is d \<bar>y\<bar>" using mpz_abs_is [OF assms(2)] by simp
  have "\<bar>y\<bar> \<noteq> 0" "divides (nat \<bar>siz d\<bar>)" using assms(3,4) by (simp_all add: d_def)
  from mpz_tdiv_r_is [OF assms(1) d this] obtain r where r: "mpz_tdiv_r mul div_big same num d = Inr r" "mpz_is r (x smod \<bar>y\<bar>)"
    by blast
  have "mpz_mod mul div_big same num den = Inr (if x smod \<bar>y\<bar> < 0 then mpz_add r d else r)"
    using r mpz_is_sign(1) [OF r(2)] by (simp add: mpz_mod_def Let_def d_def)
  then show ?thesis using r(2) mpz_add_is [OF r(2) d] by (simp add: mod_abs_from_cut [OF assms(3)])
qed

lemma mpz_fdiv_cdiv_is:
  assumes "mpz_is num x" and "mpz_is den y" and "y \<noteq> 0" and "divides (nat \<bar>siz den\<bar>)"
  shows "\<exists>q r. mpz_fdiv_qr mul div_big same w num den = Inr (q, r) \<and> mpz_is q (x div y) \<and> mpz_is r (x mod y)"
    and "\<exists>r. mpz_fdiv_r mul div_big same num den = Inr r \<and> mpz_is r (x mod y)"
    and "\<exists>q r. mpz_cdiv_qr mul div_big same w num den = Inr (q, r) \<and> mpz_is q (- (- x div y)) \<and> mpz_is r (- (- x mod y))"
    and "\<exists>r. mpz_cdiv_r mul div_big same num den = Inr r \<and> mpz_is r (- (- x mod y))"
proof -
  obtain q r where qr: "mpz_tdiv_qr mul div_big same w num den = Inr (q, r)" "mpz_is q (x sdiv y)" "mpz_is r (x smod y)"
    using mpz_tdiv_qr_is [OF assms] by blast
  obtain r' where r': "mpz_tdiv_r mul div_big same num den = Inr r'" "mpz_is r' (x smod y)"
    using mpz_tdiv_r_is [OF assms] by blast
  note s = mpz_is_sign [OF assms(1)] mpz_is_sign [OF assms(2)] mpz_is_sign(2) [OF qr(3)] mpz_is_sign(2) [OF r'(2)]
  note a = mpz_sub_ui_is [OF qr(2), of 1] mpz_add_ui_is [OF qr(2), of 1] mpz_add_is [OF qr(3) assms(2)]
    mpz_sub_is [OF qr(3) assms(2)] mpz_add_is [OF r'(2) assms(2)] mpz_sub_is [OF r'(2) assms(2)]
  show "\<exists>q r. mpz_fdiv_qr mul div_big same w num den = Inr (q, r) \<and> mpz_is q (x div y) \<and> mpz_is r (x mod y)"
    using qr a by (auto simp: mpz_fdiv_qr_def s floor_from_cut [OF assms(3)])
  have nn: "\<not> z mod \<bar>y\<bar> < 0" "0 < z mod \<bar>y\<bar> \<longleftrightarrow> z mod \<bar>y\<bar> \<noteq> 0" for z
    using pos_mod_sign [of "\<bar>y\<bar>" z] assms(3) by linarith+
  have sg: "x smod y \<noteq> 0 \<Longrightarrow> siz (if same then r' else num) < 0 \<longleftrightarrow> x < 0"
    using s(1) mpz_is_sign(1) [OF r'(2)] nn
    by (auto simp: signed_modulo_int_def sgn_if zero_less_mult_iff mult_less_0_iff split: if_splits)
  show "\<exists>r. mpz_fdiv_r mul div_big same num den = Inr r \<and> mpz_is r (x mod y)"
    using r' a sg by (auto simp: mpz_fdiv_r_def Let_def s floor_from_cut [OF assms(3)])
  show "\<exists>q r. mpz_cdiv_qr mul div_big same w num den = Inr (q, r) \<and> mpz_is q (- (- x div y)) \<and> mpz_is r (- (- x mod y))"
    using qr a by (auto simp: mpz_cdiv_qr_def s ceiling_from_cut [OF assms(3)])
  show "\<exists>r. mpz_cdiv_r mul div_big same num den = Inr r \<and> mpz_is r (- (- x mod y))"
    using r' a sg by (auto simp: mpz_cdiv_r_def Let_def s ceiling_from_cut [OF assms(3)])
qed

end

subsection \<open>The divisions of the library\<close>

text \<open>
  C27: division of numbers, for every denominator of less than 60 limbs and all signs and sizes: \<open>mpz_tdiv_qr\<close>
  rounds the quotient towards zero, \<open>mpz_fdiv_qr\<close> down, \<open>mpz_cdiv_qr\<close> up, each with the remainder that belongs to it,
  \<open>mpz_mod\<close> returns the residue that is not negative, and a zero denominator raises the signal in all of them.
  It does not matter whether the remainder is the numerator's object or what the result held before.
\<close>

theorem mpz_division_int:
  assumes "mpz_is num x" and "mpz_is den y" and "nat \<bar>siz den\<bar> < 60"
  shows "if y = 0
    then mpz_tdiv_qr (mpn_mul toom32 mul_big) div_big same w num den = Inl DivByZero \<and>
      mpz_fdiv_qr (mpn_mul toom32 mul_big) div_big same w num den = Inl DivByZero \<and>
      mpz_cdiv_qr (mpn_mul toom32 mul_big) div_big same w num den = Inl DivByZero \<and>
      mpz_mod (mpn_mul toom32 mul_big) div_big same num den = Inl DivByZero
    else (\<exists>q r. mpz_tdiv_qr (mpn_mul toom32 mul_big) div_big same w num den = Inr (q, r) \<and>
        mpz_is q (x sdiv y) \<and> mpz_is r (x smod y)) \<and>
      (\<exists>q r. mpz_fdiv_qr (mpn_mul toom32 mul_big) div_big same w num den = Inr (q, r) \<and>
        mpz_is q (x div y) \<and> mpz_is r (x mod y)) \<and>
      (\<exists>q r. mpz_cdiv_qr (mpn_mul toom32 mul_big) div_big same w num den = Inr (q, r) \<and>
        mpz_is q (- (- x div y)) \<and> mpz_is r (- (- x mod y))) \<and>
      (\<exists>r. mpz_mod (mpn_mul toom32 mul_big) div_big same num den = Inr r \<and> mpz_is r (x mod \<bar>y\<bar>))"
proof (cases "y = 0")
  case True
  then have "siz den = 0" using mpz_is_sign(2) [OF assms(2)] by simp
  then show ?thesis
    using True by (simp add: mpz_tdiv_qr_def mpz_fdiv_qr_def mpz_cdiv_qr_def mpz_mod_def mpz_tdiv_r_def)
next
  case False
  have "nat \<bar>siz den\<bar> < DC_DIV_QR_THRESHOLD" using assms(3) by (simp add: DC_DIV_QR_THRESHOLD_def MUL_TOOM22_THRESHOLD_def)
  note d = assms(1,2) False this
  show ?thesis
    unfolding if_not_P [OF False]
    by (intro conjI low.mpz_tdiv_qr_is [OF d] low.mpz_fdiv_cdiv_is(1,3) [OF d] low.mpz_mod_is [OF d])
qed

theorem mpz_division_int_witness:
  "(\<exists>q r. mpz_tdiv_qr (mpn_mul (\<lambda>_ _. []) (\<lambda>_ _. [])) (\<lambda>_ _. Inl AssertFail) False (mpz_set_ui 0)
        \<lparr>siz = -2, ptr = [1, 1]\<rparr> (mpz_set_ui 10) = Inr (q, r) \<and> mpz_is q (- 1844674407370955161) \<and> mpz_is r (- 7)) \<and>
   (\<exists>r. mpz_mod (mpn_mul (\<lambda>_ _. []) (\<lambda>_ _. [])) (\<lambda>_ _. Inl AssertFail) False
        \<lparr>siz = -2, ptr = [1, 1]\<rparr> (mpz_set_ui 10) = Inr r \<and> mpz_is r 3)"
proof -
  have num: "mpz_is \<lparr>siz = -2, ptr = [1, 1]\<rparr> (- (1 + 2 ^ 64))"
    by (simp add: mpz_is_def mpz_wf_def mpz_val_def)
  have "mpz_is (mpz_set_ui 10) 10" using mpz_set_ui_is [of 10] by simp
  moreover have "nat \<bar>siz (mpz_set_ui 10)\<bar> < 60" by (simp add: mpz_set_ui_def)
  ultimately show ?thesis
    using mpz_division_int [OF num, of "mpz_set_ui 10" 10 "\<lambda>_ _. []" "\<lambda>_ _. []" "\<lambda>_ _. Inl AssertFail" False "mpz_set_ui 0"]
    by (simp add: signed_divide_int_def signed_modulo_int_def)
qed

end
