(* ===== verification/Gmp_Pow.thy ===== *)
theory Gmp_Pow
  imports Gmp_Mod
begin

unbundle bit_operations_syntax

text \<open>
  Powers with an exponent in a limb: \<open>mpz/pow_ui.c\<close> and \<open>mpz/n_pow_ui.c\<close>, without a native \<open>mpn_mul_2\<close>. The
  factors of two of the base are taken out first and put back as zero limbs and one shift; a base of one limb
  is powered in a limb as long as its square fits, and the rest goes over the bits of the exponent from the
  highest one. The list \<open>rp\<close> is what the code has in one of two areas that it swaps, the result's and a temporary one;
  \<open>pow_area\<close> follows the swaps. That the power ends in the result's area is an assertion of the code. A failed
  assertion is \<open>AssertFail\<close>, and so is the overflow of a size, which aborts the program.
\<close>

subsection \<open>Trailing zeros\<close>

function ctz_loop :: "limb \<Rightarrow> nat \<Rightarrow> limb \<times> nat" where
  "ctz_loop x c = (if c < 62 then let x = drop_bit 8 x in if x AND 0xff \<noteq> 0 then (x, c) else ctz_loop x (c + 8) else (x, c))"

  by pat_completeness auto
termination
  by (relation "measure (\<lambda>(x, c). 62 - c)") auto

declare ctz_loop.simps [simp del]

definition count_trailing_zeros :: "limb \<Rightarrow> nat" where
  "count_trailing_zeros x =
     (if x AND 0xff \<noteq> 0 then clz_tab ! unat (x AND - x) - 2
      else let (x, c) = ctz_loop x 6 in c + clz_tab ! unat (x AND - x))"

subsection \<open>The macros on a number in an area\<close>

definition drop_zero :: "limbs \<Rightarrow> limbs" where
  "drop_zero p = (if last p = 0 then butlast p else p)"

definition MPN_SQR :: "(limbs \<Rightarrow> limbs outcome) \<Rightarrow> limbs \<Rightarrow> limbs outcome" where
  "MPN_SQR sqr src = bindO (sqr src) (\<lambda>dst. Inr (drop_zero dst))"

definition MPN_MUL :: "(limbs \<Rightarrow> limbs \<Rightarrow> limbs outcome) \<Rightarrow> limbs \<Rightarrow> limbs \<Rightarrow> limbs outcome" where
  "MPN_MUL mul src src2 = bindO (mul src src2) (\<lambda>dst. Inr (drop_zero dst))"

definition MPN_MUL_1 :: "limbs \<Rightarrow> limb \<Rightarrow> limbs" where
  "MPN_MUL_1 p v = (let (cy, p) = mpn_mul_1 p v in if cy \<noteq> 0 then p @ [cy] else p)"

definition MPN_LSHIFT :: "limbs \<Rightarrow> nat \<Rightarrow> limbs" where
  "MPN_LSHIFT p shift = (let (cy, p) = mpn_lshift p shift in if cy \<noteq> 0 then p @ [cy] else p)"

definition MPN_RSHIFT_OR_COPY :: "limbs \<Rightarrow> nat \<Rightarrow> limbs" where
  "MPN_RSHIFT_OR_COPY src shift = (if shift = 0 then src else drop_zero (snd (mpn_rshift src shift)))"

subsection \<open>The power\<close>

definition GMP_NUMB_HALFMAX :: limb where
  "GMP_NUMB_HALFMAX = push_bit 32 1 - 1"

text \<open>A base of one limb, powered within the limb: the base, what the low bits of the exponent gave, the rest.\<close>

function pow_small :: "limb \<Rightarrow> limb \<Rightarrow> limb \<Rightarrow> limb \<times> limb \<times> limb" where
  "pow_small blimb rl e =
     (if blimb \<le> GMP_NUMB_HALFMAX then
        let rl = (if e AND 1 \<noteq> 0 then rl * blimb else rl)
        in if drop_bit 1 e = 0 then (blimb, rl, 0) else pow_small (blimb * blimb) rl (drop_bit 1 e)
      else (blimb, rl, e))"
  by pat_completeness auto
termination
proof (relation "measure (\<lambda>(blimb, rl, e). unat e)")
  fix e :: limb
  assume "drop_bit 1 e \<noteq> 0"
  then have "0 < unat (drop_bit 1 e)" by (simp only: unat_gt_0 simp_thms)
  then show "\<And>blimb x rl :: limb. ((blimb * blimb, x, drop_bit 1 e), blimb, rl, e) \<in> measure (\<lambda>(blimb, rl, e). unat e)"
    by (simp add: unat_drop)
qed simp

declare pow_small.simps [simp del]

text \<open>The base without its factors of two, from the limbs that are left.\<close>

definition pow_base :: "limbs \<Rightarrow> nat \<Rightarrow> limbs" where
  "pow_base bp btwos =
     (let bsize = length bp; blimb = drop_bit btwos (bp ! 0)
      in if bsize = 1 then [blimb]
         else if bsize = 2 then
           let bsecond = bp ! 1; blimb = (if btwos \<noteq> 0 then blimb OR push_bit (64 - btwos) bsecond else blimb);
               bsecond = drop_bit btwos bsecond
           in if bsecond = 0 then [blimb] else [blimb, bsecond]
         else MPN_RSHIFT_OR_COPY bp btwos)"

text \<open>The bits of the exponent below its highest one; \<open>i\<close> of them to go.\<close>

fun pow_loop :: "(limbs \<Rightarrow> limbs outcome) \<Rightarrow> (limbs \<Rightarrow> limbs outcome) \<Rightarrow> limb \<Rightarrow> nat \<Rightarrow> limbs \<Rightarrow> limbs outcome" where
  "pow_loop sq mu e 0 rp = Inr rp"
| "pow_loop sq mu e (Suc i) rp =
     bindO (sq rp) (\<lambda>rp. bindO (if e AND push_bit i 1 \<noteq> 0 then mu rp else Inr rp) (pow_loop sq mu e i))"

text \<open>
  The area the loop ends in: every square swaps, and a product swaps as well unless it works in place (\<open>mul_1\<close>).
  The parity of the exponent decides in which area to begin.
\<close>

fun pow_area :: "bool \<Rightarrow> limb \<Rightarrow> nat \<Rightarrow> bool \<Rightarrow> bool" where
  "pow_area in_place e 0 a = a"
| "pow_area in_place e (Suc i) a = pow_area in_place e i (if e AND push_bit i 1 \<noteq> 0 \<and> \<not> in_place then a else \<not> a)"

lemma unat_drop_less: "drop_bit 5 n \<noteq> (0 :: limb) \<Longrightarrow> unat (drop_bit 5 n) < unat n"
proof -
  assume "drop_bit 5 n \<noteq> 0"
  then have "0 < unat (drop_bit 5 n)" by (simp only: unat_gt_0 simp_thms)
  then show ?thesis by (simp add: unat_drop)
qed

function parity_loop :: "limb \<Rightarrow> bool \<Rightarrow> bool" where
  "parity_loop n p =
     (let p = (p \<noteq> odd (drop_bit (unat (n AND 0x1F)) (0x96696996 :: int))); n = drop_bit 5 n
      in if n \<noteq> 0 then parity_loop n p else p)"
  by pat_completeness auto
termination
  by (relation "measure (\<lambda>(n, p). unat n)") (auto intro: unat_drop_less)

declare parity_loop.simps [simp del]

definition ULONG_PARITY :: "limb \<Rightarrow> bool" where
  "ULONG_PARITY n = parity_loop n False"

definition in_result :: "bool \<Rightarrow> limbs \<Rightarrow> limbs outcome" where
  "in_result a rp = (if a then Inr rp else Inl AssertFail)"

text \<open>The power of the base without factors of two, with the factor \<open>2 ^ rtwos_bits\<close>. \<open>i\<close> is one more than in the code.\<close>

definition pow_odd ::
  "(limbs \<Rightarrow> limbs \<Rightarrow> limbs outcome) \<Rightarrow> (limbs \<Rightarrow> limbs outcome) \<Rightarrow> limbs \<Rightarrow> limb \<Rightarrow> nat \<Rightarrow> limbs outcome"
where
  "pow_odd mul sqr bp e rtwos_bits =
     (let (blimb, rl, e, rtwos_bits) =
        (if length bp = 1 then
           let (blimb, rl, e) = pow_small (bp ! 0) 1 e
           in if rtwos_bits \<noteq> 0 \<and> rl \<noteq> 1 \<and> drop_bit (64 - rtwos_bits) rl = 0
              then (blimb, push_bit rtwos_bits rl, e, 0) else (blimb, rl, e, rtwos_bits)
         else (bp ! (length bp - 1), 1, e, rtwos_bits));
        (ovfl, ralloc) = umul_ppmm (of_nat (length bp * 64 - count_leading_zeros blimb)) e
      in if ovfl \<noteq> 0 then Inl AssertFail
         else bindO
           (if e = 0 then Inr [rl]
            else let i = 63 - count_leading_zeros e
              in if length bp = 1 then
                   bindO (pow_loop (MPN_SQR sqr) (\<lambda>rp. Inr (MPN_MUL_1 rp blimb)) e i [blimb]) (\<lambda>rp.
                     in_result (pow_area True e i (even i)) (if rl \<noteq> 1 then MPN_MUL_1 rp rl else rp))
                 else
                   bindO (pow_loop (MPN_SQR sqr) (\<lambda>rp. MPN_MUL mul rp bp) e i bp) (\<lambda>rp.
                     in_result (pow_area False e i (ULONG_PARITY e = even i)) rp))
           (\<lambda>rp. Inr (if rtwos_bits \<noteq> 0 then MPN_LSHIFT rp rtwos_bits else rp)))"

definition mpz_n_pow_ui ::
  "(limbs \<Rightarrow> limbs \<Rightarrow> limbs outcome) \<Rightarrow> (limbs \<Rightarrow> limbs outcome) \<Rightarrow> mpz \<Rightarrow> limbs \<Rightarrow> int \<Rightarrow> limb \<Rightarrow> mpz outcome"
where
  "mpz_n_pow_ui mul sqr r bp bsize e =
     (if e = 0 then Inr \<lparr>siz = 1, ptr = [1]\<rparr>
      else if bsize = 0 then Inr (r\<lparr>siz := 0\<rparr>)
      else
        let rneg = (bsize < 0 \<and> e AND 1 \<noteq> 0); bp = take (nat \<bar>bsize\<bar>) bp;
            zeros = length (takeWhile (\<lambda>b. b = 0) bp); bp = drop zeros bp; rtwos_limbs = zeros * unat e;
            btwos = count_trailing_zeros (bp ! 0); (ovfl, rtwos) = umul_ppmm e (of_nat btwos)
        in if ovfl \<noteq> 0 then Inl AssertFail
           else
             let rtwos_limbs = rtwos_limbs + unat rtwos div 64; rtwos_bits = unat rtwos mod 64
             in bindO (pow_odd mul sqr (pow_base bp btwos) e rtwos_bits) (\<lambda>rp.
                let rsize = int (length rp + rtwos_limbs)
                in Inr \<lparr>siz = (if rneg then - rsize else rsize), ptr = replicate rtwos_limbs 0 @ rp\<rparr>))"

definition mpz_pow_ui ::
  "(limbs \<Rightarrow> limbs \<Rightarrow> limbs outcome) \<Rightarrow> (limbs \<Rightarrow> limbs outcome) \<Rightarrow> mpz \<Rightarrow> mpz \<Rightarrow> limb \<Rightarrow> mpz outcome"
where
  "mpz_pow_ui mul sqr r b e =
     (if e = 0 then Inr (mpz_set_ui 1) else if e = 1 then Inr (mpz_set b)
      else if e = 2 then mpz_mul mul sqr True r b b
      else mpz_n_pow_ui mul sqr r (ptr b) (siz b) e)"

definition mpz_ui_pow_ui ::
  "(limbs \<Rightarrow> limbs \<Rightarrow> limbs outcome) \<Rightarrow> (limbs \<Rightarrow> limbs outcome) \<Rightarrow> mpz \<Rightarrow> limb \<Rightarrow> limb \<Rightarrow> mpz outcome"
where
  "mpz_ui_pow_ui mul sqr r b e = mpz_n_pow_ui mul sqr r [b] (of_bool (b \<noteq> 0)) e"

subsection \<open>Trailing zeros, proved\<close>

lemma odd_part: "0 < (n :: nat) \<Longrightarrow> \<exists>k y. n = 2 ^ k * y \<and> odd y"
proof (induction n rule: less_induct)
  case (less n)
  show ?case
  proof (cases "odd n")
    case False
    then obtain m where m: "n = 2 * m" by blast
    have "m < n" "0 < m" using m less.prems by simp_all
    from less.IH [OF this] obtain k y where "m = 2 ^ k * y" "odd y" by blast
    then show ?thesis using m by (intro exI [of _ "Suc k"] exI [of _ y]) simp
  qed (auto intro: exI [of _ 0])
qed

text \<open>The lowest one bit.\<close>

lemma odd_and_minus:
  assumes "odd (y :: limb)"
  shows "y AND - y = 1"
proof (rule bit_word_eqI)
  fix n :: nat
  assume "n < LENGTH(64)"
  have "odd (unat y) \<longleftrightarrow> odd y" unfolding bit_0 [symmetric] by (simp only: bit_unsigned_iff) simp
  then have "unat y = 2 * (unat y div 2) + 1" "y \<noteq> 0" using assms by auto
  moreover have "unat (y - 1) + 1 = unat y" using limb_decr [of y] \<open>y \<noteq> 0\<close> by simp
  moreover have "unat (push_bit 1 (drop_bit 1 y)) = 2 * (unat y div 2)"
    using unat_push [of 1 "drop_bit 1 y"] drop_small [of 1 y] by (simp add: unat_drop)
  ultimately have "unat (y - 1) = unat (push_bit 1 (drop_bit 1 y))" by linarith
  then have e: "y - 1 = push_bit 1 (drop_bit 1 y)" by (simp only: word_unat_eq_iff)
  have m: "- y = NOT (push_bit 1 (drop_bit 1 y))" unfolding e [symmetric] by (rule minus_eq_not_minus_1)
  have "bit (push_bit 1 (drop_bit 1 y)) n \<longleftrightarrow> n \<noteq> 0 \<and> bit y n"
    using \<open>n < LENGTH(64)\<close> unfolding bit_push_bit_iff bit_drop_bit_eq comp_def by (cases n) (auto dest: bit_imp_le_length)
  then show "bit (y AND - y) n \<longleftrightarrow> bit (1 :: limb) n"
    using assms \<open>n < LENGTH(64)\<close> unfolding m bit_and_iff bit_not_iff bit_1_iff by (cases n) (auto simp: bit_0)
qed

lemma and_minus:
  assumes "unat (x :: limb) = 2 ^ k * y" and "odd y" and "k < 64"
  shows "unat (x AND - x) = 2 ^ k"
proof -
  define z where "z = drop_bit k x"
  have z: "unat z = y" using assms(1) by (simp add: z_def unat_drop)
  have "odd (unat z) \<longleftrightarrow> odd z" unfolding bit_0 [symmetric] by (simp only: bit_unsigned_iff) simp
  then have "odd z" using z assms(2) by simp
  have x: "x = push_bit k z"
  proof -
    have "y mod 2 ^ (64 - k) = y" using drop_small [of k x] assms(3) z by (simp add: z_def)
    then have "unat (push_bit k z) = unat x" using unat_push [of k z] assms(1,3) z by (simp add: mult.commute)
    then show ?thesis by (simp only: word_unat_eq_iff)
  qed
  have "- x = push_bit k (- z)" unfolding x by (simp add: push_bit_minus)
  then have "x AND - x = push_bit k (z AND - z)" unfolding x by simp
  also have "\<dots> = push_bit k 1" by (simp only: odd_and_minus [OF \<open>odd z\<close>])
  finally show ?thesis using unat_push [of k 1] assms(3) by simp
qed

lemma low_byte: "x AND 0xff = 0 \<longleftrightarrow> unat (x :: limb) mod 256 = 0"
proof -
  have "x AND 0xff = take_bit 8 x" by (simp add: take_bit_eq_mask mask_eq_exp_minus_1)
  then have "unat (x AND 0xff) = take_bit 8 (unat x)" by (simp only: unsigned_take_bit_eq)
  then have "unat (x AND 0xff) = unat x mod 256" by (simp add: take_bit_eq_mod)
  then show ?thesis by (metis unat_eq_0)
qed

lemma clz_tab_power: "k < 8 \<Longrightarrow> clz_tab ! (2 ^ k) = k + 2"
proof -
  have "\<forall>k \<in> {..<8}. clz_tab ! (2 ^ k) = k + 2" by (simp add: clz_tab_def lessThan_nat_numeral lessThan_Suc)
  then show "k < 8 \<Longrightarrow> clz_tab ! (2 ^ k) = k + 2" by simp
qed

lemma clz_tab_low:
  assumes "unat x = 2 ^ k * y" and "odd y" and "unat (x :: limb) mod 256 \<noteq> 0"
  shows "k < 8" and "clz_tab ! unat (x AND - x) = k + 2"
proof -
  show k: "k < 8"
  proof (rule ccontr)
    assume "\<not> k < 8"
    then have "(2 :: nat) ^ 8 dvd 2 ^ k * y" by (intro dvd_mult2 le_imp_power_dvd) simp
    then show False using assms(1,3) by simp
  qed
  then show "clz_tab ! unat (x AND - x) = k + 2" using and_minus [OF assms(1,2)] clz_tab_power [OF k] by simp
qed

lemma ctz_loop_val:
  assumes "ctz_loop x c = (x', c')" and "c < 62" and "x \<noteq> 0" and "unat x mod 256 = 0" and "unat x < 2 ^ (70 - c)" and "c mod 8 = 6"
  shows "unat x = 2 ^ (c' + 8 - c) * unat x' \<and> unat x' mod 256 \<noteq> 0 \<and> c \<le> c'"
  using assms
proof (induction x c arbitrary: x' c' rule: ctz_loop.induct)
  case (1 x c)
  define z where "z = drop_bit 8 x"
  have z: "unat x = 256 * unat z" using 1(5) mult_div_mod_eq [of 256 "unat x"] by (simp add: z_def unat_drop)
  have r: "ctz_loop x c = (if z AND 0xff \<noteq> 0 then (z, c) else ctz_loop z (c + 8))"
    using 1(3) by (subst ctz_loop.simps) (simp add: z_def)
  show ?case
  proof (cases "z AND 0xff = 0")
    case False
    then have "x' = z" "c' = c" using r 1(2) by simp_all
    then show ?thesis using z False by (simp add: low_byte)
  next
    case True
    have z0: "z \<noteq> 0" using z 1(4) by (auto simp: unat_eq_0)
    have zm: "unat z mod 256 = 0" using True by (simp add: low_byte)
    have e: "(2 :: nat) ^ (70 - c) = 256 * 2 ^ (62 - c)"
    proof -
      have "70 - c = 8 + (62 - c)" using 1(3) by simp
      then show ?thesis by (simp only: power_add) simp
    qed
    then have lt: "unat z < 2 ^ (62 - c)" using 1(6) z by simp
    have "c + 8 < 62"
    proof (rule ccontr)
      assume "\<not> c + 8 < 62"
      then have "62 - c \<le> 8" by simp
      then have "(2 :: nat) ^ (62 - c) \<le> 2 ^ 8" by (rule power_increasing) simp
      with lt have "unat z < 2 ^ 8" by (rule less_le_trans)
      then show False using zm z0 by (simp add: unat_eq_0)
    qed
    moreover have "ctz_loop z (c + 8) = (x', c')" using r True 1(2) by simp
    moreover have "(c + 8) mod 8 = 6" using 1(7) by simp
    moreover have "70 - (c + 8) = 62 - c" by simp
    ultimately have IH: "unat z = 2 ^ (c' + 8 - (c + 8)) * unat x' \<and> unat x' mod 256 \<noteq> 0 \<and> c + 8 \<le> c'"
      using 1(1) [OF 1(3) z_def, of x' c'] True z0 zm lt by simp
    moreover have "(2 :: nat) ^ (c' + 8 - c) = 256 * 2 ^ (c' + 8 - (c + 8))"
    proof -
      have "c' + 8 - c = 8 + (c' + 8 - (c + 8))" using IH by simp
      then show ?thesis by (simp only: power_add) simp
    qed
    ultimately show ?thesis using z by simp
  qed
qed

lemma count_trailing_zeros_val:
  assumes "x \<noteq> 0"
  shows "\<exists>y. unat x = 2 ^ count_trailing_zeros x * y \<and> odd y" and "count_trailing_zeros x < 64"
proof -
  have "0 < unat x" using assms by (simp add: unat_gt_0)
  have "\<exists>y. unat x = 2 ^ count_trailing_zeros x * y \<and> odd y"
  proof (cases "x AND 0xff = 0")
    case False
    obtain k y where y: "unat x = 2 ^ k * y" "odd y" using odd_part [OF \<open>0 < unat x\<close>] by blast
    then have "count_trailing_zeros x = k"
      using clz_tab_low [OF y] False low_byte [of x] by (simp add: count_trailing_zeros_def)
    then show ?thesis using y by blast
  next
    case True
    obtain x' c where l: "ctz_loop x 6 = (x', c)" by fastforce
    have v: "unat x = 2 ^ (c + 2) * unat x'" "unat x' mod 256 \<noteq> 0" "6 \<le> c"
    proof -
      have "unat x < 2 ^ (70 - 6)" using unat_limb_less [of x] by simp
      then show "unat x = 2 ^ (c + 2) * unat x'" "unat x' mod 256 \<noteq> 0" "6 \<le> c"
        using ctz_loop_val [OF l _ assms] True low_byte [of x] by simp_all
    qed
    then have "0 < unat x'" by (cases "unat x'") auto
    then obtain k y where y: "unat x' = 2 ^ k * y" "odd y" using odd_part by blast
    have "count_trailing_zeros x = c + (k + 2)"
      using clz_tab_low(2) [OF y v(2)] True l by (simp add: count_trailing_zeros_def)
    then show ?thesis using v(1) y by (auto simp: power_add)
  qed
  then show "\<exists>y. unat x = 2 ^ count_trailing_zeros x * y \<and> odd y" .
  then obtain y where y: "unat x = 2 ^ count_trailing_zeros x * y" "odd y" by blast
  show "count_trailing_zeros x < 64"
  proof (rule ccontr)
    assume "\<not> count_trailing_zeros x < 64"
    then have "(2 :: nat) ^ 64 \<le> 2 ^ count_trailing_zeros x" by (intro power_increasing) simp_all
    also have "\<dots> \<le> unat x" unfolding y(1) using y(2) by (cases y) simp_all
    finally show False using unat_limb_less [of x] by linarith
  qed
qed

subsection \<open>Numbers in areas\<close>

definition is_limbs :: "limbs \<Rightarrow> nat \<Rightarrow> bool" where
  "is_limbs xs x \<longleftrightarrow> xs \<noteq> [] \<and> last xs \<noteq> 0 \<and> limbs_val xs = x"

lemma is_limbs_bounds:
  assumes "is_limbs xs x"
  shows "2 ^ (64 * (length xs - 1)) \<le> x" and "x < 2 ^ (64 * length xs)" and "0 < x" and "0 < length xs"
proof -
  show b: "2 ^ (64 * (length xs - 1)) \<le> x" using limbs_top [of xs] assms by (simp add: is_limbs_def)
  show "x < 2 ^ (64 * length xs)" using limbs_val_bound [of xs] assms by (simp add: is_limbs_def)
  show "0 < x" by (rule less_le_trans [OF _ b]) simp
  show "0 < length xs" using assms by (simp add: is_limbs_def)
qed

lemma is_limbsI: "2 ^ (64 * (length xs - 1)) \<le> limbs_val xs \<Longrightarrow> limbs_val xs = x \<Longrightarrow> is_limbs xs x"
  unfolding is_limbs_def using limbs_top_nonzero [of xs] by blast

lemma drop_zero_is:
  assumes "length p = Suc (Suc n)" and "2 ^ (64 * n) \<le> limbs_val p"
  shows "is_limbs (drop_zero p) (limbs_val p)"
proof -
  have ne: "p \<noteq> []" using assms(1) by auto
  show ?thesis
  proof (cases "last p = 0")
    case False
    then show ?thesis using ne by (simp add: is_limbs_def drop_zero_def)
  next
    case True
    have "butlast p = take (Suc n) p" using assms(1) by (simp add: butlast_conv_take)
    then have "limbs_val (butlast p) = limbs_val p" using limbs_val_last(1) [OF assms(1)] True by simp
    then show ?thesis using assms True by (intro is_limbsI) (simp_all add: drop_zero_def)
  qed
qed

lemma append_carry_is:
  assumes "limbs_val (p @ [cy]) = x" and "2 ^ (64 * (length p - 1)) \<le> x"
  shows "is_limbs (if cy \<noteq> 0 then p @ [cy] else p) x"
proof (cases "cy = 0")
  case True
  then have "limbs_val p = x" using assms(1) by (simp add: limbs_val_snoc)
  then show ?thesis using True assms(2) by (simp add: is_limbsI)
next
  case False
  then show ?thesis using assms(1) by (simp add: is_limbs_def)
qed

lemma MPN_MUL_1_is:
  assumes "is_limbs xs x" and "v \<noteq> 0"
  shows "is_limbs (MPN_MUL_1 xs v) (x * unat v)"
proof -
  obtain cy p where r: "mpn_mul_1 xs v = (cy, p)" by fastforce
  note m = mpn_mul_1_val [OF r]
  have "limbs_val (p @ [cy]) = x * unat v" using m assms(1) by (simp add: limbs_val_snoc is_limbs_def)
  moreover have "x * 1 \<le> x * unat v" using assms(2) by (intro mult_le_mono2) (simp add: Suc_le_eq unat_gt_0)
  moreover have "2 ^ (64 * (length p - 1)) \<le> x" using is_limbs_bounds(1) [OF assms(1)] m(1) by simp
  ultimately have "is_limbs (if cy \<noteq> 0 then p @ [cy] else p) (x * unat v)" by (intro append_carry_is) linarith+
  then show ?thesis using r by (simp add: MPN_MUL_1_def)
qed

lemma MPN_LSHIFT_is:
  assumes "is_limbs xs x" and "0 < n" and "n < 64"
  shows "is_limbs (MPN_LSHIFT xs n) (2 ^ n * x)"
proof -
  obtain cy p where r: "mpn_lshift xs n = (cy, p)" by fastforce
  have ne: "xs \<noteq> []" using assms(1) by (simp add: is_limbs_def)
  note m = lshift_carry(1,2) [OF assms(2,3) ne r]
  have "limbs_val (p @ [cy]) = 2 ^ n * x" using m assms(1) by (simp add: is_limbs_def)
  moreover have "1 * x \<le> 2 ^ n * x" by (intro mult_le_mono1) simp
  moreover have "2 ^ (64 * (length p - 1)) \<le> x" using is_limbs_bounds(1) [OF assms(1)] m(1) by simp
  ultimately have "is_limbs (if cy \<noteq> 0 then p @ [cy] else p) (2 ^ n * x)" by (intro append_carry_is) linarith+
  then show ?thesis using r by (simp add: MPN_LSHIFT_def)
qed

lemma MPN_RSHIFT_OR_COPY_is:
  assumes "is_limbs xs x" and "n < 64" and "2 \<le> length xs"
  shows "is_limbs (MPN_RSHIFT_OR_COPY xs n) (x div 2 ^ n)"
proof (cases "n = 0")
  case False
  obtain k where k: "length xs = Suc (Suc k)" using le_Suc_ex [OF assms(3)] by auto
  obtain c p where r: "mpn_rshift xs n = (c, p)" by fastforce
  have ne: "xs \<noteq> []" using k by auto
  note m = mpn_rshift_val(1,2) [OF _ assms(2) ne r]
  have "(2 :: nat) ^ (64 * k) * 2 ^ n \<le> 2 ^ (64 * k) * 2 ^ 64" using assms(2) by (intro mult_le_mono2 power_increasing) simp_all
  also have "\<dots> = 2 ^ (64 * (length xs - 1))" by (simp add: k power_add)
  also note is_limbs_bounds(1) [OF assms(1)]
  finally have "2 ^ (64 * k) \<le> x div 2 ^ n" by (simp add: less_eq_div_iff_mult_less_eq)
  then show ?thesis using drop_zero_is [of p k] m k False assms(1) r by (simp add: MPN_RSHIFT_OR_COPY_def is_limbs_def)
qed (use assms in \<open>simp add: MPN_RSHIFT_OR_COPY_def\<close>)

lemma pow_base_is:
  assumes "is_limbs bp x" and "bp ! 0 \<noteq> 0"
  shows "is_limbs (pow_base bp (count_trailing_zeros (bp ! 0))) (x div 2 ^ count_trailing_zeros (bp ! 0))"
    and "2 ^ count_trailing_zeros (bp ! 0) dvd x"
proof -
  define k where "k = count_trailing_zeros (bp ! 0)"
  obtain b bs where bp: "bp = b # bs" using assms(1) by (cases bp) (auto simp: is_limbs_def)
  obtain y where y: "unat b = 2 ^ k * y" "odd y" and k: "k < 64"
    using count_trailing_zeros_val [OF assms(2)] by (auto simp: k_def bp)
  have x: "x = unat b + 2 ^ 64 * limbs_val bs" using assms(1) by (simp add: is_limbs_def bp)
  have "(2 :: nat) ^ k dvd 2 ^ 64 * limbs_val bs" using k by (intro dvd_mult2 le_imp_power_dvd) simp
  then show dv: "2 ^ count_trailing_zeros (bp ! 0) dvd x" using y(1) unfolding x k_def by (intro dvd_add) simp_all
  have pos: "0 < x div 2 ^ k"
    using dv is_limbs_bounds(3) [OF assms(1)] by (auto simp: k_def div_greater_zero_iff dest: dvd_imp_le)
  consider "bs = []" | c where "bs = [c]" | "2 \<le> length bs" by (cases bs rule: list.exhaust; cases "tl bs"; auto)
  then show "is_limbs (pow_base bp (count_trailing_zeros (bp ! 0))) (x div 2 ^ count_trailing_zeros (bp ! 0))"
    unfolding k_def [symmetric]
  proof cases
    case 1
    have "unat (drop_bit k b) = x div 2 ^ k" using x 1 by (simp add: unat_drop)
    then show "is_limbs (pow_base bp k) (x div 2 ^ k)"
      using pos 1 by (auto simp: pow_base_def bp is_limbs_def)
  next
    case 2
    define l where "l = (if k \<noteq> 0 then drop_bit k b OR push_bit (64 - k) c else drop_bit k b)"
    have v: "limbs_val [l, drop_bit k c] = x div 2 ^ k"
    proof (cases "k = 0")
      case True
      then show ?thesis using x 2 by (simp add: l_def)
    next
      case False
      then show ?thesis using shifted_back_pair [of k b c] k x 2 by (simp add: l_def)
    qed
    have "pow_base bp k = (if drop_bit k c = 0 then [l] else [l, drop_bit k c])"
      by (simp add: pow_base_def bp 2 l_def Let_def)
    then show "is_limbs (pow_base bp k) (x div 2 ^ k)"
      using v pos by (auto simp: is_limbs_def)
  next
    case 3
    then have "length bp \<noteq> 1" "length bp \<noteq> 2" "2 \<le> length bp" by (auto simp: bp)
    then show "is_limbs (pow_base bp k) (x div 2 ^ k)"
      using MPN_RSHIFT_OR_COPY_is [OF assms(1) k] by (simp add: pow_base_def Let_def)
  qed
qed

lemma and_1_odd: "e AND 1 \<noteq> 0 \<longleftrightarrow> odd (unat (e :: limb))"
proof -
  have "e AND 1 \<noteq> 0 \<longleftrightarrow> bit e 0" using and_exp_eq_0_iff_not_bit [of e 0] by simp
  also have "\<dots> \<longleftrightarrow> bit (unat e) 0" by (simp add: bit_unsigned_iff)
  finally show ?thesis by (simp add: bit_0)
qed

lemma pow_small_val:
  assumes "pow_small blimb rl e = (b, r, e')" and "blimb \<noteq> 0" and "rl \<noteq> 0" and "unat rl \<le> unat blimb" and "e \<noteq> 0"
  shows "unat r * unat b ^ unat e' = unat rl * unat blimb ^ unat e \<and> b \<noteq> 0 \<and> r \<noteq> 0 \<and> unat e' \<le> unat e"
  using assms
proof (induction blimb rl e arbitrary: b r e' rule: pow_small.induct)
  case (1 blimb rl e)
  define rl1 where "rl1 = (if e AND 1 \<noteq> 0 then rl * blimb else rl)"
  define m n where "m = unat blimb" and "n = unat e"
  have o: "e AND 1 \<noteq> 0 \<longleftrightarrow> odd n" unfolding n_def by (rule and_1_odd)
  have pos: "0 < m" "0 < unat rl" "0 < n" using 1(3,4,6) by (simp_all add: m_def n_def unat_gt_0)
  have r: "pow_small blimb rl e =
     (if blimb \<le> GMP_NUMB_HALFMAX then
        if drop_bit 1 e = 0 then (blimb, rl1, 0) else pow_small (blimb * blimb) rl1 (drop_bit 1 e)
      else (blimb, rl, e))"
    by (subst pow_small.simps) (simp add: rl1_def)
  show ?case
  proof (cases "blimb \<le> GMP_NUMB_HALFMAX")
    case False
    then show ?thesis using r 1(2-6) by simp
  next
    case True
    then have h: "m \<le> 2 ^ 32 - 1" by (simp add: word_le_nat_alt m_def GMP_NUMB_HALFMAX_def)
    have sq: "m * m \<le> (2 ^ 32 - 1) * (2 ^ 32 - 1)" using h by (intro mult_le_mono)
    have bb: "unat (blimb * blimb) = m * m" using sq by (subst limb_mult_small) (simp_all add: m_def)
    have "unat rl * m \<le> m * m" using 1(5) by (intro mult_le_mono1) (simp add: m_def)
    also have "m * m < 2 ^ 64" using sq by simp
    finally have rb: "unat (rl * blimb) = unat rl * m" unfolding m_def by (rule limb_mult_small)
    have rl1: "unat rl1 = unat rl * m ^ (n mod 2)"
      using rb o by (cases "odd n") (simp_all add: rl1_def odd_iff_mod_2_eq_one even_iff_mod_2_eq_zero)
    have le: "unat rl1 \<le> m * m"
    proof -
      have "m ^ (n mod 2) \<le> m" using pos(1) by (cases "even n") (simp_all add: odd_iff_mod_2_eq_one)
      then have "unat rl1 \<le> m * m" unfolding rl1 using 1(5) by (intro mult_le_mono) (simp_all add: m_def)
      then show ?thesis .
    qed
    have nz: "rl1 \<noteq> 0" "blimb * blimb \<noteq> 0" using rl1 bb pos by (auto simp: unat_gt_0 [symmetric])
    have e2: "unat (drop_bit 1 e) = n div 2" by (simp add: unat_drop n_def)
    have "m ^ n = m ^ (n mod 2 + 2 * (n div 2))" by simp
    also have "\<dots> = m ^ (n mod 2) * (m * m) ^ (n div 2)" by (simp only: power_add power_mult power2_eq_square)
    finally have pw: "unat rl * m ^ n = unat rl1 * (m * m) ^ (n div 2)" by (simp add: rl1)
    show ?thesis
    proof (cases "drop_bit 1 e = 0")
      case z: True
      then have "b = blimb" "r = rl1" "e' = 0" using r True 1(2) by simp_all
      moreover have "n div 2 = 0" using e2 z by simp
      ultimately show ?thesis using pw nz(1) 1(3) unfolding m_def [symmetric] n_def [symmetric] by simp
    next
      case nz2: False
      then have "pow_small (blimb * blimb) rl1 (drop_bit 1 e) = (b, r, e')" using r True 1(2) by simp
      from 1(1) [OF True rl1_def nz2 this nz(2,1) _ nz2]
      have "unat r * unat b ^ unat e' = unat rl1 * (m * m) ^ (n div 2) \<and> b \<noteq> 0 \<and> r \<noteq> 0 \<and> unat e' \<le> n div 2"
        using le unfolding bb e2 by blast
      moreover have "n div 2 \<le> n" by (rule div_le_dividend)
      ultimately show ?thesis unfolding m_def [symmetric] n_def [symmetric] pw by (meson order_trans)
    qed
  qed
qed

subsection \<open>Powers of numbers\<close>

text \<open>The products up to the size of a result can be computed.\<close>

definition fits_below :: "(bool \<Rightarrow> nat \<Rightarrow> nat \<Rightarrow> bool) \<Rightarrow> nat \<Rightarrow> bool" where
  "fits_below fits y \<longleftrightarrow> (\<forall>same l m. (same \<longrightarrow> l = m) \<longrightarrow> 2 ^ (64 * (l + m - 2)) \<le> y \<longrightarrow> fits same l m)"

lemma fits_below_mono:
  assumes "fits_below fits y" and "x \<le> y"
  shows "fits_below fits x"
proof -
  have "fits same l m" if "same \<longrightarrow> l = m" "2 ^ (64 * (l + m - 2)) \<le> x" for same l m
    using assms(1) that(1) order_trans [OF that(2) assms(2)] unfolding fits_below_def by blast
  then show ?thesis unfolding fits_below_def by blast
qed

lemma bits_of_exponent:
  assumes "i < 64"
  shows "unat e div 2 ^ i = 2 * (unat e div 2 ^ Suc i) + of_bool (e AND push_bit i 1 \<noteq> (0 :: limb))"
proof -
  have "e AND push_bit i 1 \<noteq> 0 \<longleftrightarrow> bit e i" using and_exp_eq_0_iff_not_bit [of e i] by (simp add: push_bit_eq_mult)
  also have "\<dots> \<longleftrightarrow> bit (unat e) i" using assms by (simp add: bit_unsigned_iff)
  also have "\<dots> \<longleftrightarrow> odd (unat e div 2 ^ i)" by (rule bit_iff_odd)
  finally have "of_bool (e AND push_bit i 1 \<noteq> 0) = unat e div 2 ^ i mod 2" by (simp add: odd_iff_mod_2_eq_one)
  moreover have "unat e div 2 ^ Suc i = unat e div 2 ^ i div 2" by (simp only: power_Suc2 div_mult2_eq)
  ultimately show ?thesis by simp
qed

lemma top_bit:
  assumes "e \<noteq> (0 :: limb)"
  shows "unat e div 2 ^ (63 - count_leading_zeros e) = 1" and "63 - count_leading_zeros e < 64"
proof -
  define c where "c = count_leading_zeros e"
  have c: "c < 64" "2 ^ 63 \<le> 2 ^ c * unat e" "2 ^ c * unat e < 2 ^ 64"
    using count_leading_zeros_val [OF assms] by (simp_all add: c_def)
  have p: "(2 :: nat) ^ 63 = 2 ^ c * 2 ^ (63 - c)" using c(1) by (simp flip: power_add)
  have "2 ^ (63 - c) \<le> unat e" using c(2) unfolding p by simp
  moreover have "(2 :: nat) ^ 64 = 2 ^ c * (2 * 2 ^ (63 - c))" using p by simp
  then have "unat e < 2 * 2 ^ (63 - c)" using c(3) by (simp only: mult_less_cancel1)
  ultimately show "unat e div 2 ^ (63 - count_leading_zeros e) = 1"
    unfolding c_def [symmetric] by (intro div_nat_eqI) simp_all
qed simp

text \<open>The areas. \<open>ones_odd e i\<close> is the parity of the \<open>i\<close> low bits.\<close>

fun ones_odd :: "limb \<Rightarrow> nat \<Rightarrow> bool" where
  "ones_odd e 0 = False"
| "ones_odd e (Suc i) = (ones_odd e i \<noteq> bit e i)"

lemma ones_odd_add: "ones_odd e (i + k) = (ones_odd e i \<noteq> ones_odd (drop_bit i e) k)"
  by (induction k) (auto simp: bit_drop_bit_eq)

lemma ones_odd_0 [simp]: "ones_odd 0 k = False"
  by (induction k) simp_all

lemma ones_odd_take: "i \<le> k \<Longrightarrow> ones_odd (take_bit k e) i = ones_odd e i"
  by (induction i) (auto simp: bit_take_bit_iff)

lemma parity_table:
  "odd (drop_bit (unat (n AND 0x1F)) (0x96696996 :: int)) = ones_odd n 5"
proof -
  have t: "n AND 0x1F = take_bit 5 n" by (simp add: take_bit_eq_mask mask_eq_exp_minus_1)
  define m where "m = unat (take_bit 5 n)"
  have "m = take_bit 5 (unat n)" by (simp only: m_def unsigned_take_bit_eq)
  then have "m = unat n mod 2 ^ 5" by (simp only: take_bit_eq_mod)
  then have "m < 32" by simp
  moreover have n: "take_bit 5 n = of_nat m" by (simp add: m_def)
  have "\<forall>m \<in> {..<32}. odd (drop_bit m (0x96696996 :: int)) = ones_odd (of_nat m) 5"
    by (simp add: lessThan_nat_numeral lessThan_Suc numeral_eq_Suc drop_bit_Suc)
  ultimately have "odd (drop_bit m (0x96696996 :: int)) = ones_odd (of_nat m) 5" by simp
  then show ?thesis unfolding t m_def [symmetric] by (simp add: ones_odd_take [of 5 5 n] flip: n)
qed

lemma parity_loop_val: "parity_loop n p = (p \<noteq> ones_odd n 64)"
proof (induction n p rule: parity_loop.induct)
  case (1 n p)
  have s: "ones_odd n 69 = (ones_odd n 5 \<noteq> ones_odd (drop_bit 5 n) 64)" using ones_odd_add [of n 5 64] by simp
  have h: "ones_odd n (64 + k) = ones_odd n 64" for k
  proof (induction k)
    case (Suc k)
    have "\<not> bit n (64 + k)" by (auto dest: bit_imp_le_length)
    then show ?case using Suc by (simp only: add_Suc_right ones_odd.simps simp_thms)
  qed simp
  have "ones_odd n 69 = ones_odd n 64" using h [of 5] by simp
  then show ?case
    using s 1 by (cases "drop_bit 5 n = 0") (auto simp: parity_loop.simps [of n p] Let_def parity_table)
qed

lemma pow_area_swaps:
  "i < 64 \<Longrightarrow> pow_area in_place e i a = (a = (even i = (in_place \<or> \<not> ones_odd e i)))"
proof (induction i arbitrary: a)
  case (Suc i)
  have "e AND push_bit i 1 \<noteq> 0 \<longleftrightarrow> bit e i" using and_exp_eq_0_iff_not_bit [of e i] by (simp add: push_bit_eq_mult)
  then show ?case using Suc by auto
qed simp

lemma ends_in_place: "in_result (pow_area True e (63 - i) (even (63 - i))) rp = Inr rp"
  by (simp add: pow_area_swaps in_result_def)

text \<open>The highest bit is the one that the loop does not see.\<close>

lemma ends_in_result:
  assumes "e \<noteq> 0"
  shows "in_result (pow_area False e (63 - count_leading_zeros e) (ULONG_PARITY e = even (63 - count_leading_zeros e))) rp = Inr rp"
proof -
  define i where "i = 63 - count_leading_zeros e"
  have i: "unat e div 2 ^ i = 1" "i < 64" using top_bit [OF assms] by (simp_all add: i_def)
  then have "drop_bit i e = 1" by (simp add: word_unat_eq_iff unat_drop)
  moreover have "ones_odd 1 (Suc k) = True" for k by (induction k) (simp_all add: bit_1_iff)
  moreover obtain k where "64 = i + Suc k" using i(2) less_iff_Suc_add by auto
  ultimately have "ones_odd e 64 = (\<not> ones_odd e i)" using ones_odd_add [of e i "Suc k"] by simp
  then show ?thesis
    unfolding i_def [symmetric] using i(2) by (auto simp: in_result_def pow_area_swaps ULONG_PARITY_def parity_loop_val)
qed

context limb_product
begin

lemma product_size:
  assumes "is_limbs xs x" and "is_limbs ys y"
  shows "2 ^ (64 * (length xs + length ys - 2)) \<le> x * y"
proof -
  have "2 ^ (64 * (length xs - 1)) * 2 ^ (64 * (length ys - 1)) \<le> x * y"
    using is_limbs_bounds(1) [OF assms(1)] is_limbs_bounds(1) [OF assms(2)] by (rule mult_le_mono)
  moreover have "64 * (length xs - 1) + 64 * (length ys - 1) = 64 * (length xs + length ys - 2)"
    using is_limbs_bounds(4) [OF assms(1)] is_limbs_bounds(4) [OF assms(2)] by arith
  ultimately show ?thesis by (simp only: flip: power_add)
qed

lemma product_is:
  assumes "is_limbs xs x" and "is_limbs ys y" and p: "length p = length xs + length ys" "limbs_val p = x * y"
  shows "is_limbs (drop_zero p) (x * y)"
proof -
  have "length p = Suc (Suc (length xs + length ys - 2))"
    using is_limbs_bounds(4) [OF assms(1)] is_limbs_bounds(4) [OF assms(2)] p(1) by arith
  from drop_zero_is [OF this] show ?thesis using product_size [OF assms(1,2)] p(2) by simp
qed

lemma MPN_SQR_is:
  assumes "is_limbs xs x" and "fits_below fits (x * x)"
  shows "\<exists>p. MPN_SQR sqr xs = Inr p \<and> is_limbs p (x * x)"
proof -
  have "fits True (length xs) (length xs)" using assms(2) product_size [OF assms(1,1)] by (simp add: fits_below_def)
  moreover have "xs \<noteq> []" "limbs_val xs = x" using assms(1) by (simp_all add: is_limbs_def)
  ultimately obtain p where "sqr xs = Inr p" "length p = length xs + length xs" "limbs_val p = x * x" using sqr_val by blast
  then show ?thesis using product_is [OF assms(1,1)] by (simp add: MPN_SQR_def)
qed

lemma MPN_MUL_is:
  assumes "is_limbs xs x" and "is_limbs ys y" and "y \<le> x" and "fits_below fits (x * y)"
  shows "\<exists>p. MPN_MUL mul xs ys = Inr p \<and> is_limbs p (x * y)"
proof -
  have "fits False (length xs) (length ys)" using assms(4) product_size [OF assms(1,2)] by (simp add: fits_below_def)
  moreover have "ys \<noteq> []" "limbs_val xs = x" "limbs_val ys = y" using assms(1,2) by (simp_all add: is_limbs_def)
  moreover have "length ys \<le> length xs"
  proof (rule ccontr)
    assume "\<not> length ys \<le> length xs"
    then have "(2 :: nat) ^ (64 * length xs) \<le> 2 ^ (64 * (length ys - 1))" by (intro power_increasing) simp_all
    also note is_limbs_bounds(1) [OF assms(2)]
    finally show False using is_limbs_bounds(2) [OF assms(1)] assms(3) by linarith
  qed
  ultimately obtain p where "mul xs ys = Inr p" "length p = length xs + length ys" "limbs_val p = x * y" using mul_val by blast
  then show ?thesis using product_is [OF assms(1,2)] by (simp add: MPN_MUL_def)
qed

lemma pow_loop_val:
  assumes b: "0 < b" and fit: "fits_below fits (b ^ unat e)"
    and mu: "\<And>xs k. is_limbs xs (b ^ k) \<Longrightarrow> 0 < k \<Longrightarrow> Suc k \<le> unat e \<Longrightarrow> \<exists>p. mu xs = Inr p \<and> is_limbs p (b ^ Suc k)"
    and i: "i < 64" "0 < unat e div 2 ^ i" and rp: "is_limbs rp (b ^ (unat e div 2 ^ i))"
  shows "\<exists>p. pow_loop (MPN_SQR sqr) mu e i rp = Inr p \<and> is_limbs p (b ^ unat e)"
  using i rp
proof (induction i arbitrary: rp)
  case (Suc i)
  define k where "k = unat e div 2 ^ Suc i"
  define t where "t \<longleftrightarrow> e AND push_bit i 1 \<noteq> 0"
  have i: "i < 64" using Suc.prems(1) by simp
  have k: "unat e div 2 ^ i = 2 * k + of_bool t" unfolding k_def t_def by (rule bits_of_exponent [OF i])
  have le: "2 * k + of_bool t \<le> unat e" unfolding k [symmetric] by (rule div_le_dividend)
  have k0: "0 < k" using Suc.prems(2) by (simp only: k_def)
  have "b ^ k * b ^ k = b ^ (2 * k)" by (simp add: mult_2 flip: power_add)
  moreover have "b ^ (2 * k) \<le> b ^ unat e" using le b by (intro power_increasing) simp_all
  ultimately have "fits_below fits (b ^ k * b ^ k)" using fits_below_mono [OF fit] by simp
  from MPN_SQR_is [OF Suc.prems(3) [folded k_def] this]
  obtain p where p: "MPN_SQR sqr rp = Inr p" "is_limbs p (b ^ (2 * k))" by (auto simp: mult_2 simp flip: power_add)
  have "\<exists>q. (if t then mu p else Inr p) = Inr q \<and> is_limbs q (b ^ (2 * k + of_bool t))"
    using mu [OF p(2)] k0 le p(2) by (cases t) auto
  then obtain q where q: "(if t then mu p else Inr p) = Inr q" "is_limbs q (b ^ (unat e div 2 ^ i))" unfolding k by blast
  have "0 < unat e div 2 ^ i" unfolding k using k0 by simp
  from Suc.IH [OF i this q(2)] show ?case using p(1) q(1) by (simp add: t_def)
qed simp

text \<open>The loop from the highest bit of the exponent on.\<close>

lemma pow_from_top:
  assumes "e \<noteq> 0" and "is_limbs bp b" and "fits_below fits (b ^ unat e)"
    and "\<And>xs k. is_limbs xs (b ^ k) \<Longrightarrow> 0 < k \<Longrightarrow> Suc k \<le> unat e \<Longrightarrow> \<exists>p. mu xs = Inr p \<and> is_limbs p (b ^ Suc k)"
  shows "\<exists>p. pow_loop (MPN_SQR sqr) mu e (63 - count_leading_zeros e) bp = Inr p \<and> is_limbs p (b ^ unat e)"
  using pow_loop_val [OF is_limbs_bounds(3) [OF assms(2)] assms(3,4) top_bit(2)] top_bit [OF assms(1)] assms(1,2) by simp

lemma pow_odd_val:
  assumes bp: "is_limbs bp b" and e: "e \<noteq> 0" and t: "t < 64" and fit: "fits_below fits (b ^ unat e)"
    and size: "unat e * (64 * length bp) < 2 ^ 64"
  shows "\<exists>p. pow_odd mul sqr bp e t = Inr p \<and> is_limbs p (2 ^ t * b ^ unat e)"
proof -
  define d where "d = pow_small (bp ! 0) 1 e"
  define one where "one \<longleftrightarrow> length bp = 1"
  have e1: "1 \<le> unat e" using e by (simp add: Suc_le_eq unat_gt_0)
  have n: "0 < length bp" by (rule is_limbs_bounds(4) [OF bp])
  have onev: "unat (bp ! 0) = b" "bp ! 0 \<noteq> 0" if o1: one
  proof -
    obtain x where "bp = [x]" using o1 unfolding one_def by (auto simp: length_Suc_conv)
    then show "unat (bp ! 0) = b" "bp ! 0 \<noteq> 0" using bp by (simp_all add: is_limbs_def)
  qed
  define Q where "Q =
    (if one then let (blimb, rl, e) = pow_small (bp ! 0) 1 e
         in if t \<noteq> 0 \<and> rl \<noteq> 1 \<and> drop_bit (64 - t) rl = 0 then (blimb, push_bit t rl, e, 0) else (blimb, rl, e, t)
      else (bp ! (length bp - 1), 1, e, t))"
  obtain blimb r e' t' where "Q = (blimb, r, e', t')" by (cases Q) auto
  note q = this [unfolded Q_def]
  define c where "c = (if one then unat blimb else b)"
  have "blimb \<noteq> 0 \<and> r \<noteq> 0 \<and> unat e' \<le> unat e \<and> t' < 64 \<and> 2 ^ t' * (unat r * c ^ unat e') = 2 ^ t * b ^ unat e \<and>
    (\<not> one \<longrightarrow> r = 1 \<and> e' = e) \<and> c ^ unat e' \<le> b ^ unat e"
  proof (cases one)
    case False
    then have "blimb = bp ! (length bp - 1)" "r = 1" "e' = e" "t' = t" using q by simp_all
    moreover have "bp ! (length bp - 1) \<noteq> 0" using bp last_conv_nth [of bp] by (auto simp: is_limbs_def)
    ultimately show ?thesis using False t by (simp add: c_def)
  next
    case True
    obtain b1 r1 e1 where s: "pow_small (bp ! 0) 1 e = (b1, r1, e1)" by (metis surj_pair)
    have "0 < unat (bp ! 0)" using onev(2) [OF True] by (simp only: unat_gt_0 not_False_eq_True)
    then have "unat (1 :: limb) \<le> unat (bp ! 0)" by (simp add: Suc_le_eq)
    from pow_small_val [OF s onev(2) [OF True] _ this e] have v: "unat r1 * unat b1 ^ unat e1 = b ^ unat e" "b1 \<noteq> 0" "r1 \<noteq> 0" "unat e1 \<le> unat e"
      using onev(1) [OF True] by simp_all
    have q': "(if t \<noteq> 0 \<and> r1 \<noteq> 1 \<and> drop_bit (64 - t) r1 = 0 then (b1, push_bit t r1, e1, 0) else (b1, r1, e1, t)) = (blimb, r, e', t')"
      using q True s by simp
    have be: "blimb = b1" "e' = e1" using q' by (simp_all split: if_splits)
    have rt: "r \<noteq> 0 \<and> t' < 64 \<and> 2 ^ t' * unat r = 2 ^ t * unat r1"
    proof (cases "t \<noteq> 0 \<and> r1 \<noteq> 1 \<and> drop_bit (64 - t) r1 = 0")
      case False
      then show ?thesis using q' v(3) t by auto
    next
      case m: True
      then have r: "r = push_bit t r1" "t' = 0" using q' by auto
      have "unat r1 div 2 ^ (64 - t) = 0" using m unat_drop [of "64 - t" r1] by simp
      then have "unat r1 mod 2 ^ (64 - t) = unat r1" by (simp add: div_eq_0_iff)
      then have "unat r = 2 ^ t * unat r1" using unat_push [of t r1] t r by (simp add: mult.commute)
      moreover have "0 < unat r1" using v(3) by (simp add: unat_gt_0)
      ultimately show ?thesis using r(2) by (auto simp: unat_gt_0 [symmetric])
    qed
    have c: "c = unat b1" using True be by (simp add: c_def)
    have "2 ^ t' * (unat r * c ^ unat e') = 2 ^ t' * unat r * unat b1 ^ unat e1" by (simp add: c be)
    also have "\<dots> = 2 ^ t * (unat r1 * unat b1 ^ unat e1)" using rt by (simp only: mult.assoc)
    finally have "2 ^ t' * (unat r * c ^ unat e') = 2 ^ t * b ^ unat e" by (simp only: v(1))
    moreover have "1 * c ^ unat e' \<le> unat r1 * c ^ unat e'" using v(3) by (intro mult_le_mono1) (simp add: Suc_le_eq unat_gt_0)
    then have "c ^ unat e' \<le> b ^ unat e" using v(1) by (simp add: c be)
    ultimately show ?thesis using be v rt True by simp
  qed
  then have p: "blimb \<noteq> 0" "r \<noteq> 0" "unat e' \<le> unat e" "t' < 64" "2 ^ t' * (unat r * c ^ unat e') = 2 ^ t * b ^ unat e"
    "\<not> one \<Longrightarrow> r = 1 \<and> e' = e" and bound: "c ^ unat e' \<le> b ^ unat e" by blast+
  obtain ovfl ralloc where o: "umul_ppmm (of_nat (length bp * 64 - count_leading_zeros blimb)) e' = (ovfl, ralloc)" by fastforce
  have "ovfl = 0"
  proof -
    have "length bp * 64 - count_leading_zeros blimb \<le> 64 * length bp" by simp
    then have "unat (of_nat (length bp * 64 - count_leading_zeros blimb) :: limb) \<le> 64 * length bp"
      by (metis order_trans unat_of_nat mod_less_eq_dividend)
    then have "unat (of_nat (length bp * 64 - count_leading_zeros blimb) :: limb) * unat e' \<le> 64 * length bp * unat e"
      using p(3) by (rule mult_le_mono)
    moreover have "64 * length bp * unat e < 2 ^ 64" using size by (simp only: ac_simps)
    ultimately have "2 ^ 64 * unat ovfl < 2 ^ 64 * 1" using umul_ppmm_val [OF o] by linarith
    then have "unat ovfl < 1" by (simp only: mult_less_cancel1)
    then show ?thesis by (simp add: unat_eq_0)
  qed
  define body where "body = (if e' = 0 then Inr [r]
      else let i = 63 - count_leading_zeros e'
        in if one then bindO (pow_loop (MPN_SQR sqr) (\<lambda>rp. Inr (MPN_MUL_1 rp blimb)) e' i [blimb]) (\<lambda>rp.
               in_result (pow_area True e' i (even i)) (if r \<noteq> 1 then MPN_MUL_1 rp r else rp))
           else bindO (pow_loop (MPN_SQR sqr) (\<lambda>rp. MPN_MUL mul rp bp) e' i bp) (\<lambda>rp.
             in_result (pow_area False e' i (ULONG_PARITY e' = even i)) rp))"
  have res: "pow_odd mul sqr bp e t = bindO body (\<lambda>rp. Inr (if t' \<noteq> 0 then MPN_LSHIFT rp t' else rp))"
    using q o \<open>ovfl = 0\<close> unfolding pow_odd_def one_def [symmetric] by (simp add: body_def Let_def)
  have fit': "fits_below fits (c ^ unat e')" by (rule fits_below_mono [OF fit bound])
  have "\<exists>p. body = Inr p \<and> is_limbs p (unat r * c ^ unat e')"
  proof (cases "e' = 0")
    case True
    then show ?thesis using p(2) by (simp add: body_def is_limbs_def)
  next
    case e0: False
    show ?thesis
    proof (cases one)
      case True
      have base: "is_limbs [blimb] c" using p(1) True by (simp add: is_limbs_def c_def)
      have mul1: "\<exists>q. Inr (MPN_MUL_1 xs blimb) = Inr q \<and> is_limbs q (c ^ Suc k)"
        if "is_limbs xs (c ^ k)" "0 < k" "Suc k \<le> unat e'" for xs k
        using MPN_MUL_1_is [OF that(1) p(1)] True by (simp add: c_def mult.commute)
      have "\<exists>q. pow_loop (MPN_SQR sqr) (\<lambda>rp. Inr (MPN_MUL_1 rp blimb)) e' (63 - count_leading_zeros e') [blimb] = Inr q \<and>
          is_limbs q (c ^ unat e')"
        by (rule pow_from_top [OF e0 base fit']) (rule mul1)
      then obtain q where
        q: "pow_loop (MPN_SQR sqr) (\<lambda>rp. Inr (MPN_MUL_1 rp blimb)) e' (63 - count_leading_zeros e') [blimb] = Inr q"
        "is_limbs q (c ^ unat e')" by blast
      have "is_limbs (if r \<noteq> 1 then MPN_MUL_1 q r else q) (unat r * c ^ unat e')"
        using MPN_MUL_1_is [OF q(2) p(2)] q(2) by (cases "r = 1") (simp_all add: mult.commute [of "unat r"])
      moreover have "body = Inr (if r \<noteq> 1 then MPN_MUL_1 q r else q)"
        unfolding body_def Let_def if_not_P [OF e0] if_P [OF True] q(1) bindO_Inr ends_in_place by (rule refl)
      ultimately show ?thesis by blast
    next
      case False
      then have b: "c = b" "r = 1" "e' = e" using p(6) by (simp_all add: c_def)
      have muln: "\<exists>q. MPN_MUL mul xs bp = Inr q \<and> is_limbs q (b ^ Suc k)" if "is_limbs xs (b ^ k)" "0 < k" "Suc k \<le> unat e" for xs k
      proof -
        have b0: "0 < b" by (rule is_limbs_bounds(3) [OF bp])
        have "b \<le> b ^ k" using b0 that(2) by (simp add: self_le_power)
        moreover have "fits_below fits (b ^ k * b)"
          using fits_below_mono [OF fit, of "b ^ k * b"] power_increasing [OF that(3), of b] b0 by (simp add: mult.commute)
        ultimately show ?thesis using MPN_MUL_is [OF that(1) bp] by (simp add: mult.commute)
      qed
      have "\<exists>q. pow_loop (MPN_SQR sqr) (\<lambda>rp. MPN_MUL mul rp bp) e (63 - count_leading_zeros e) bp = Inr q \<and>
          is_limbs q (b ^ unat e)"
        by (rule pow_from_top [OF e bp fit]) (rule muln)
      moreover have "body = bindO (pow_loop (MPN_SQR sqr) (\<lambda>rp. MPN_MUL mul rp bp) e (63 - count_leading_zeros e) bp) Inr"
        unfolding body_def Let_def b(3) if_not_P [OF e] if_not_P [OF False] ends_in_result [OF e] by (rule refl)
      ultimately show ?thesis by (auto simp: b)
    qed
  qed
  then obtain q where q': "body = Inr q" "is_limbs q (unat r * c ^ unat e')" by blast
  show ?thesis
    using MPN_LSHIFT_is [OF q'(2) _ p(4)] q' p(5) unfolding res by (cases "t' = 0") simp_all
qed

lemma mpz_n_pow_ui_is:
  assumes b: "mpz_is b x" and fit: "fits_below fits (nat \<bar>x\<bar> ^ unat e)" and size: "unat e * (64 * nat \<bar>siz b\<bar>) < 2 ^ 64"
  shows "\<exists>z. mpz_n_pow_ui mul sqr r (ptr b) (siz b) e = Inr z \<and> mpz_is z (x ^ unat e)"
proof -
  define n where "n = nat \<bar>siz b\<bar>"
  have wf: "mpz_wf b" using b by (simp add: mpz_is_def)
  show ?thesis
  proof (cases "e = 0 \<or> siz b = 0")
    case True
    have "mpz_is \<lparr>siz = 1, ptr = [1]\<rparr> 1" by (rule mpz_is_sized [where n = 1 and neg = False]) simp_all
    moreover have "x ^ unat e = (if e = 0 then 1 else 0)" using True mpz_is_sign(2) [OF b] by (auto simp: unat_eq_0 zero_power unat_gt_0)
    ultimately show ?thesis using True by (auto simp: mpz_n_pow_ui_def mpz_is_empty)
  next
    case False
    then have e: "e \<noteq> 0" and s0: "siz b \<noteq> 0" by simp_all
    define bs X where "bs = mpz_limbs b" and "X = limbs_val bs"
    have bs: "length bs = n" "bs \<noteq> []" "last bs \<noteq> 0"
      using mpz_wf_top(1) [OF wf] wf s0 by (auto simp: bs_def n_def mpz_wf_limbs)
    define zs where "zs = length (takeWhile (\<lambda>b. b = 0) bs)"
    define cs where "cs = drop zs bs"
    have tw: "takeWhile (\<lambda>b. b = 0) bs = replicate zs 0" unfolding zs_def
      by (rule replicate_eqI) (auto dest: set_takeWhileD)
    have dw: "cs = dropWhile (\<lambda>b. b = 0) bs" unfolding cs_def zs_def by (rule dropWhile_eq_drop [symmetric])
    have bsc: "bs = replicate zs 0 @ cs" unfolding dw tw [symmetric] by simp
    have cne: "cs \<noteq> []"    proof
      assume "cs = []"
      then have "bs = replicate zs 0" "zs \<noteq> 0" using bsc bs(2) by auto
      then show False using bs(3) by simp
    qed
    have c0: "cs ! 0 \<noteq> 0" using hd_dropWhile [of "\<lambda>b. b = 0" bs] cne unfolding dw [symmetric] by (simp add: hd_conv_nth)
    have csl: "is_limbs cs (limbs_val cs)" using bs(3) cne by (simp add: is_limbs_def bsc)
    have X: "X = 2 ^ (64 * zs) * limbs_val cs" unfolding X_def bsc by (simp add: limbs_val_append)
    define k where "k = count_trailing_zeros (cs ! 0)"
    define v where "v = limbs_val cs div 2 ^ k"
    have k: "k < 64" using count_trailing_zeros_val(2) [OF c0] by (simp add: k_def)
    have pb: "is_limbs (pow_base cs k) v" and dv: "2 ^ k dvd limbs_val cs"
      using pow_base_is [OF csl c0] by (simp_all add: k_def v_def)
    have cv: "limbs_val cs = 2 ^ k * v" using dv by (simp add: v_def)
    have xX: "nat \<bar>x\<bar> = X" using mpz_is_abs [OF b] by (simp add: X_def bs_def)
    have "1 * (1 * v) \<le> 2 ^ (64 * zs) * (2 ^ k * v)" by (intro mult_le_mono) simp_all
    then have "v \<le> X" unfolding X cv by simp
    then have fit': "fits_below fits (v ^ unat e)" using fits_below_mono [OF fit] by (simp add: xX power_mono)
    have n1: "1 \<le> n" using bs by (cases bs) auto
    have "v < 2 ^ (64 * length cs)" unfolding v_def by (rule le_less_trans [OF div_le_dividend limbs_val_bound])
    then have "(2 :: nat) ^ (64 * (length (pow_base cs k) - 1)) < 2 ^ (64 * length cs)"
      using is_limbs_bounds(1) [OF pb] by linarith
    then have "length (pow_base cs k) \<le> length cs" using is_limbs_bounds(4) [OF pb] by simp
    also have "\<dots> \<le> n" using bs(1) by (simp add: cs_def)
    finally have "unat e * (64 * length (pow_base cs k)) \<le> unat e * (64 * n)" by (intro mult_le_mono) simp_all
    then have size': "unat e * (64 * length (pow_base cs k)) < 2 ^ 64" using size unfolding n_def by (rule le_less_trans)
    obtain ovfl rt where o: "umul_ppmm e (of_nat k) = (ovfl, rt)" by fastforce
    have "unat (of_nat k :: limb) = k" using k by (simp add: unat_of_nat)
    then have rt: "unat rt + 2 ^ 64 * unat ovfl = unat e * k" using umul_ppmm_val [OF o] by simp
    have "unat e * k \<le> unat e * (64 * n)" using k n1 by (intro mult_le_mono) simp_all
    then have "2 ^ 64 * unat ovfl < 2 ^ 64 * 1" using rt size [folded n_def] by linarith
    then have "unat ovfl < 1" by (simp only: mult_less_cancel1)
    then have ov: "ovfl = 0" by (simp add: unat_eq_0)
    then have rt': "unat rt = unat e * k" using rt by simp
    define L t where "L = zs * unat e + unat rt div 64" and "t = unat rt mod 64"
    have t: "t < 64" by (simp add: t_def)
    obtain p where p: "pow_odd mul sqr (pow_base cs k) e t = Inr p" "is_limbs p (2 ^ t * v ^ unat e)"
      using pow_odd_val [OF pb e t fit' size'] by blast
    define rneg where "rneg \<longleftrightarrow> siz b < 0 \<and> e AND 1 \<noteq> 0"
    have "64 * L + t = 64 * zs * unat e + k * unat e" using rt' by (simp add: L_def t_def algebra_simps)
    then have "2 ^ (64 * L) * (2 ^ t * v ^ unat e) = (2 ^ (64 * zs)) ^ unat e * ((2 ^ k) ^ unat e * v ^ unat e)"
      by (simp only: mult.assoc [symmetric] flip: power_add power_mult)
    also have "\<dots> = X ^ unat e" by (simp only: X cv power_mult_distrib)
    finally have val: "limbs_val (replicate L 0 @ p) = X ^ unat e" using p(2) by (simp add: limbs_val_append is_limbs_def)
    have res: "mpz_n_pow_ui mul sqr r (ptr b) (siz b) e =
        Inr \<lparr>siz = (if rneg then - int (length p + L) else int (length p + L)), ptr = replicate L 0 @ p\<rparr>"
      using e s0 o ov p(1) unfolding mpz_n_pow_ui_def mpz_limbs_def [symmetric] bs_def [symmetric] Let_def zs_def [symmetric]
        cs_def [symmetric] k_def [symmetric] rneg_def [symmetric]
      by (simp add: L_def t_def)
    have "int (unat e) = int (unat e)" ..
    have xp: "x ^ unat e = (if rneg then - int (X ^ unat e) else int (X ^ unat e))"
    proof -
      have "x = (if siz b < 0 then - int X else int X)" using mpz_is_limbs [OF b] by (simp add: X_def bs_def)
      then show ?thesis by (cases "siz b < 0") (simp_all add: rneg_def and_1_odd power_minus_odd power_minus_even)
    qed
    have ne: "replicate L 0 @ p \<noteq> []" "last (replicate L 0 @ p) \<noteq> 0" using p(2) by (simp_all add: is_limbs_def)
    have "mpz_is \<lparr>siz = (if rneg then - int (length p + L) else int (length p + L)), ptr = replicate L 0 @ p\<rparr> (x ^ unat e)"
      by (rule mpz_is_sized [where n = "length p + L" and neg = rneg])
        (use limbs_top [OF ne] val xp in \<open>simp_all add: add.commute\<close>)
    then show ?thesis unfolding res by blast
  qed
qed

lemma mpz_pow_ui_is:
  assumes "mpz_is b x" and "fits_below fits (nat \<bar>x\<bar> ^ unat e)" and "unat e * (64 * nat \<bar>siz b\<bar>) < 2 ^ 64"
  shows "\<exists>z. mpz_pow_ui mul sqr r b e = Inr z \<and> mpz_is z (x ^ unat e)"
proof -
  consider "e = 0" | "e = 1" | "e = 2" | "e \<noteq> 0" "e \<noteq> 1" "e \<noteq> 2" by blast
  then show ?thesis
  proof cases
    case 1
    then show ?thesis using mpz_set_ui_is [of 1] by (simp add: mpz_pow_ui_def)
  next
    case 2
    then show ?thesis using mpz_set_is [OF assms(1)] by (simp add: mpz_pow_ui_def)
  next
    case 3
    show ?thesis
    proof (cases "siz b = 0")
      case True
      then show ?thesis
        using mpz_is_sign(2) [OF assms(1)] 3 by (simp add: mpz_pow_ui_def mpz_mul_def mpz_is_empty)
    next
      case False
      have wf: "mpz_wf b" using assms(1) by (simp add: mpz_is_def)
      then have "is_limbs (mpz_limbs b) (nat \<bar>x\<bar>)"
        using False mpz_wf_top(1) [OF wf] mpz_is_abs [OF assms(1)] by (auto simp: is_limbs_def mpz_wf_limbs)
      from product_size [OF this this] have "fits True (nat \<bar>siz b\<bar>) (nat \<bar>siz b\<bar>)"
        using assms(2) mpz_wf_top(1) [OF wf] 3 by (simp add: fits_below_def power2_eq_square)
      then show ?thesis using mpz_mul_is [OF assms(1,1), of True r] 3 by (simp add: mpz_pow_ui_def power2_eq_square)
    qed
  next
    case 4
    then show ?thesis using mpz_n_pow_ui_is [OF assms, of r] by (simp add: mpz_pow_ui_def)
  qed
qed

lemma mpz_ui_pow_ui_is:
  assumes "fits_below fits (unat b ^ unat e)" and "unat e * 64 < 2 ^ 64"
  shows "\<exists>z. mpz_ui_pow_ui mul sqr r b e = Inr z \<and> mpz_is z (int (unat b) ^ unat e)"
  using mpz_n_pow_ui_is [OF mpz_set_ui_is [of b], of e r] assms
  by (cases "b = 0") (simp_all add: mpz_ui_pow_ui_def mpz_set_ui_def)

end

text \<open>Results of up to 59 limbs are below the thresholds of the products.\<close>

lemma product_fits_below:
  assumes "y < 2 ^ (64 * 59)"
  shows "fits_below product_fits y"
  unfolding fits_below_def
proof (intro allI impI)
  fix same :: bool and l m :: nat
  assume s: "same \<longrightarrow> l = m" and le: "2 ^ (64 * (l + m - 2)) \<le> y"
  have "(2 :: nat) ^ (64 * (l + m - 2)) < 2 ^ (64 * 59)" using le assms by (rule le_less_trans)
  then have "64 * (l + m - 2) < 64 * 59" by (rule power_less_imp_less_exp [rotated]) simp
  then have "l + m \<le> 60" by simp
  then show "product_fits same l m"
    using s by (auto simp: product_fits_def MUL_TOOM22_THRESHOLD_def MUL_TOOM33_THRESHOLD_def SQR_TOOM2_THRESHOLD_def)
qed

lemma power_fits:
  assumes "\<bar>x :: int\<bar> ^ n < 2 ^ (64 * 59)"
  shows "fits_below product_fits (nat \<bar>x\<bar> ^ n)"
proof (rule product_fits_below)
  have "int (nat \<bar>x\<bar> ^ n) < int (2 ^ (64 * 59))" using assms by simp
  then show "nat \<bar>x\<bar> ^ n < 2 ^ (64 * 59)" by (simp only: of_nat_less_iff)
qed

subsection \<open>The powers of the library\<close>

text \<open>
  C30: \<open>mpz_pow_ui\<close> computes the power, for every number and every exponent such that the result has at most 59
  limbs and the size computed for it does not overflow. This covers the limb in which a
  small base is powered, the factors of two that are removed and put back, the sign, and that the power ends in
  the result's area and not in the temporary one, for which the code counts the ones of the exponent.
\<close>

theorem mpz_pow_ui_power:
  assumes "mpz_is b x" and "\<bar>x\<bar> ^ unat e < 2 ^ (64 * 59)" and "unat e * (64 * nat \<bar>siz b\<bar>) < 2 ^ 64"
  shows "\<exists>z. mpz_pow_ui (mpn_mul toom32 mul_big) (mpn_sqr sqr_big) r b e = Inr z \<and> mpz_is z (x ^ unat e)"
  by (rule below.mpz_pow_ui_is [OF assms(1) power_fits [OF assms(2)] assms(3)])

text \<open>A negative base with factors of two and an odd exponent.\<close>

theorem mpz_pow_ui_power_witness:
  "\<exists>z. mpz_pow_ui (mpn_mul (\<lambda>_ _. []) (\<lambda>_ _. [])) (mpn_sqr (\<lambda>_. [])) (mpz_set_ui 0) \<lparr>siz = -1, ptr = [1000]\<rparr> 13 = Inr z \<and>
    mpz_is z (- (10 ^ 39))"
proof -
  have "mpz_is \<lparr>siz = -1, ptr = [1000]\<rparr> (- 1000)" by (simp add: mpz_is_def mpz_wf_def mpz_val_def)
  from mpz_pow_ui_power [OF this, of 13 "\<lambda>_ _. []" "\<lambda>_ _. []" "\<lambda>_. []" "mpz_set_ui 0"] show ?thesis by simp
qed

subsection \<open>The invariant of all numbers\<close>

text \<open>The numbers that the functions make from limbs, bytes and each other.\<close>

inductive mpz_made :: "mpz \<Rightarrow> bool" where
  made_set_ui: "mpz_made (mpz_set_ui k)"
| made_import: "mpz_made z"
    if "mpz_import count order sz endian nail aligned data = Inr z" and "length data = count * sz"
      and "order = 1 \<or> order = -1" and "endian = 1 \<or> endian = 0 \<or> endian = -1"
| made_set: "mpz_made u \<Longrightarrow> mpz_made (mpz_set u)"
| made_neg: "mpz_made u \<Longrightarrow> mpz_made (mpz_neg same u)"
| made_abs: "mpz_made u \<Longrightarrow> mpz_made (mpz_abs same u)"
| made_add: "mpz_made u \<Longrightarrow> mpz_made v \<Longrightarrow> mpz_made (mpz_add u v)"
| made_sub: "mpz_made u \<Longrightarrow> mpz_made v \<Longrightarrow> mpz_made (mpz_sub u v)"
| made_add_ui: "mpz_made u \<Longrightarrow> mpz_made (mpz_add_ui u k)"
| made_sub_ui: "mpz_made u \<Longrightarrow> mpz_made (mpz_sub_ui u k)"
| made_mul_ui: "mpz_made u \<Longrightarrow> mpz_made (mpz_mul_ui w u k)"
| made_mul: "mpz_made z"
    if "mpz_made u" and "mpz_made v" and "product_fits False (nat \<bar>siz u\<bar>) (nat \<bar>siz v\<bar>)"
      and "mpz_mul (mpn_mul toom32 mul_big) (mpn_sqr sqr_big) False w u v = Inr z"
| made_sqr: "mpz_made z"
    if "mpz_made u" and "product_fits True (nat \<bar>siz u\<bar>) (nat \<bar>siz u\<bar>)"
      and "mpz_mul (mpn_mul toom32 mul_big) (mpn_sqr sqr_big) True w u u = Inr z"
| made_quotient: "mpz_made q"
    if "mpz_made u" and "mpz_made v" and "nat \<bar>siz v\<bar> < DC_DIV_QR_THRESHOLD"
      and "mpz_tdiv_qr (mpn_mul toom32 mul_big) div_big same w u v = Inr (q, r)"
| made_remainder: "mpz_made r"
    if "mpz_made u" and "mpz_made v" and "nat \<bar>siz v\<bar> < DC_DIV_QR_THRESHOLD"
      and "mpz_tdiv_r (mpn_mul toom32 mul_big) div_big same u v = Inr r"
| made_mod: "mpz_made r"
    if "mpz_made u" and "mpz_made v" and "nat \<bar>siz v\<bar> < DC_DIV_QR_THRESHOLD"
      and "mpz_mod (mpn_mul toom32 mul_big) div_big same u v = Inr r"
| made_pow: "mpz_made z"
    if "mpz_made u" and "\<bar>mpz_val u\<bar> ^ unat e < 2 ^ (64 * 59)" and "unat e * (64 * nat \<bar>siz u\<bar>) < 2 ^ 64"
      and "mpz_pow_ui (mpn_mul toom32 mul_big) (mpn_sqr sqr_big) w u e = Inr z"

text \<open>
  C37: Every number made in this way has its limbs within what was written and no zero limb at the end,
  so that a number has one representation; on this the comparisons of sizes in these functions rest.
\<close>

theorem mpz_made_normalized:
  assumes "mpz_made z"
  shows "mpz_wf z"
  using assms
proof (induction rule: mpz_made.induct)
  case (made_import count order sz endian nail aligned data z)
  then show ?case using mpz_import_limbs [of data count sz order endian nail aligned] mpz_of_limbs(1) by auto
next
  case (made_mul u v toom32 mul_big sqr_big w z)
  then obtain x y where "mpz_is u x" "mpz_is v y" by (auto simp: mpz_wf_is)
  from below.mpz_mul_is [OF this _ made_mul.hyps(3), of toom32 mul_big sqr_big w] made_mul.hyps(4)
  show ?case by (auto simp: mpz_wf_is)
next
  case (made_sqr u toom32 mul_big sqr_big w z)
  then obtain x where "mpz_is u x" by (auto simp: mpz_wf_is)
  from below.mpz_mul_is [OF this this _ made_sqr.hyps(2), of toom32 mul_big sqr_big w] made_sqr.hyps(3)
  show ?case by (auto simp: mpz_wf_is)
next
  case (made_quotient u v toom32 mul_big div_big same w q r)
  then obtain x y where n: "mpz_is u x" "mpz_is v y" by (auto simp: mpz_wf_is)
  have "siz v \<noteq> 0" using made_quotient.hyps(4) by (auto simp: mpz_tdiv_qr_def)
  then have "y \<noteq> 0" using mpz_is_sign(2) [OF n(2)] by simp
  from low.mpz_tdiv_qr_is [OF n this made_quotient.hyps(3), of toom32 mul_big div_big same w] made_quotient.hyps(4)
  show ?case by (auto simp: mpz_wf_is)
next
  case (made_remainder u v toom32 mul_big div_big same r)
  then obtain x y where n: "mpz_is u x" "mpz_is v y" by (auto simp: mpz_wf_is)
  have "siz v \<noteq> 0" using made_remainder.hyps(4) by (auto simp: mpz_tdiv_r_def)
  then have "y \<noteq> 0" using mpz_is_sign(2) [OF n(2)] by simp
  from low.mpz_tdiv_r_is [OF n this made_remainder.hyps(3), of toom32 mul_big div_big same] made_remainder.hyps(4)
  show ?case by (auto simp: mpz_wf_is)
next
  case (made_mod u v toom32 mul_big div_big same r)
  then obtain x y where n: "mpz_is u x" "mpz_is v y" by (auto simp: mpz_wf_is)
  have "siz v \<noteq> 0" using made_mod.hyps(4) by (auto simp: mpz_mod_def mpz_tdiv_r_def)
  then have "y \<noteq> 0" using mpz_is_sign(2) [OF n(2)] by simp
  from low.mpz_mod_is [OF n this made_mod.hyps(3), of toom32 mul_big div_big same] made_mod.hyps(4)
  show ?case by (auto simp: mpz_wf_is)
next
  case (made_pow u e toom32 mul_big sqr_big w z)
  then have "mpz_is u (mpz_val u)" by (simp add: mpz_is_def)
  from below.mpz_pow_ui_is [OF this power_fits [OF made_pow.hyps(2)] made_pow.hyps(3), of toom32 mul_big sqr_big w] made_pow.hyps(4)
  show ?case by (auto simp: mpz_wf_is)
qed (auto simp: mpz_wf_is intro: mpz_set_ui_is mpz_set_is mpz_neg_is mpz_abs_is mpz_add_is mpz_sub_is
      mpz_add_ui_is mpz_sub_ui_is mpz_mul_ui_is)

text \<open>Two numbers of two limbs whose difference has one.\<close>

theorem mpz_made_normalized_witness:
  "mpz_wf (mpz_sub (mpz_mul_ui \<lparr>siz = 0, ptr = []\<rparr> (mpz_set_ui 0xFFFFFFFFFFFFFFFF) 16)
     (mpz_mul_ui \<lparr>siz = 0, ptr = []\<rparr> (mpz_set_ui 0xFFFFFFFFFFFFFFFE) 16))"
  by (rule mpz_made_normalized) (intro made_sub made_mul_ui made_set_ui)

end
