(* ===== verification/Bf_Limbs.thy ===== *)
theory Bf_Limbs
  imports Bf_Hash Gmp_Pow
begin

text \<open>
  \<open>hash_to_range\<close> of \<open>bfibe/src/hash.c\<close> once more, now with every call of GMP on limbs: \<open>mpz_set_ui\<close>,
  \<open>mpz_pow_ui\<close>, \<open>mpz_import\<close>, \<open>mpz_mul\<close>, \<open>mpz_add\<close> and \<open>mpz_mod\<close>. It refines the function on integers, which the
  rest of the development uses.
\<close>

subsection \<open>The code\<close>

type_synonym gmp_big = "(limbs \<Rightarrow> limbs \<Rightarrow> limbs outcome) \<times> (limbs \<Rightarrow> limbs outcome) \<times> div_big"

fun hash_range_limbs ::
  "gmp_big \<Rightarrow> ('par, 'g1, 'g2, 'gt, 'pp) lib \<Rightarrow> BFSecurityLevel \<Rightarrow> bytes \<Rightarrow> mpz \<Rightarrow> nat \<Rightarrow> bytes \<Rightarrow> mpz \<Rightarrow> mpz outcome"
where
  "hash_range_limbs G L s input vmul 0 h v = Inr v"
| "hash_range_limbs G L s input vmul (Suc k) h v =
     (let (mul, sqr, div_big) = G
      in bindO (hash_into L s h (take (hashlen s) h @ input)) (\<lambda>h.
         bindO (mpz_import (hashlen s) 1 1 0 0 True (take (hashlen s) h)) (\<lambda>a.
         bindO (mpz_mul mul sqr False v v vmul) (\<lambda>v.
         hash_range_limbs G L s input vmul k h (mpz_add v a)))))"

definition hash_to_range_limbs ::
  "gmp_big \<Rightarrow> ('par, 'g1, 'g2, 'gt, 'pp) lib \<Rightarrow> ('par, 'g1, 'pp) BFPublicParameters \<Rightarrow> bytes \<Rightarrow> mpz \<Rightarrow> mpz outcome"
where
  "hash_to_range_limbs G L params input q =
     (let (mul, sqr, div_big) = G; s = security params; v = mpz_set_ui 0; vmul = mpz_set_ui 256
      in bindO (mpz_pow_ui mul sqr vmul vmul (of_nat (hashlen s))) (\<lambda>vmul.
         bindO (hash_range_limbs G L s input vmul 2 (replicate (hashlen s) 0) v) (\<lambda>v.
         mpz_mod mul div_big False v q)))"

subsection \<open>The refinement\<close>

text \<open>GMP as it is below its thresholds, whatever it has above them.\<close>

definition gmp :: "(limbs \<Rightarrow> limbs \<Rightarrow> limbs) \<Rightarrow> (limbs \<Rightarrow> limbs \<Rightarrow> limbs) \<Rightarrow> (limbs \<Rightarrow> limbs) \<Rightarrow> div_big \<Rightarrow> gmp_big" where
  "gmp toom32 mul_big sqr_big div_big = (mpn_mul toom32 mul_big, mpn_sqr sqr_big, div_big)"

text \<open>An outcome on limbs and the one on integers: the same crash or a number with the value.\<close>

definition outcome_is :: "mpz outcome \<Rightarrow> int outcome \<Rightarrow> bool" where
  "outcome_is l r \<longleftrightarrow> (case r of Inl c \<Rightarrow> l = Inl c | Inr x \<Rightarrow> \<exists>z. l = Inr z \<and> mpz_is z x)"

lemma outcome_is_bind:
  assumes "outcome_is l r" and "\<And>z x. l = Inr z \<Longrightarrow> r = Inr x \<Longrightarrow> mpz_is z x \<Longrightarrow> outcome_is (f z) (g x)"
  shows "outcome_is (bindO l f) (bindO r g)"
proof (cases r)
  case (Inl c)
  then show ?thesis using assms(1) by (simp add: outcome_is_def)
next
  case (Inr x)
  then obtain z where "l = Inr z" "mpz_is z x" using assms(1) by (auto simp: outcome_is_def)
  then show ?thesis using assms(2) Inr by simp
qed

lemma mpz_is_size:
  assumes "mpz_is z x" and "\<bar>x\<bar> < 2 ^ (64 * k)"
  shows "nat \<bar>siz z\<bar> \<le> k"
proof (rule ccontr)
  assume "\<not> nat \<bar>siz z\<bar> \<le> k"
  then have "siz z \<noteq> 0" "k \<le> nat \<bar>siz z\<bar> - 1" by auto
  moreover have "mpz_wf z" using assms(1) by (simp add: mpz_is_def)
  ultimately have "2 ^ (64 * (nat \<bar>siz z\<bar> - 1)) \<le> limbs_val (mpz_limbs z)" by (intro mpz_wf_top(2))
  moreover have "(2 :: nat) ^ (64 * k) \<le> 2 ^ (64 * (nat \<bar>siz z\<bar> - 1))"
    using \<open>k \<le> nat \<bar>siz z\<bar> - 1\<close> by (intro power_increasing) simp_all
  ultimately have "2 ^ (64 * k) \<le> limbs_val (mpz_limbs z)" by linarith
  then have "2 ^ (64 * k) \<le> int (limbs_val (mpz_limbs z))" by (metis of_nat_le_iff of_nat_numeral of_nat_power)
  then show False using mpz_is_abs [OF assms(1)] assms(2) by linarith
qed

lemma hash_into_length:
  assumes "hash_into L s h x = Inr h'"
  shows "length h' = length h"
proof (cases "hashfcn s")
  case (Some f)
  then show ?thesis using buf_write_length [of h 0 "hash_fn L f x" h'] assms by (simp add: hash_into_def)
qed (use assms in \<open>simp add: hash_into_def\<close>)

lemma import_hash:
  assumes "length h = n"
  shows "\<exists>a. mpz_import n 1 1 0 0 True (take n h) = Inr a \<and> mpz_is a (int (be_val (take n h)))"
  using mpz_import_bytes [of "take n h" True] assms by (auto simp: mpz_is_def)

lemma hash_range_limbs_is:
  assumes s: "hashlen s \<le> 64" and vmul: "mpz_is vmul (256 ^ hashlen s)" and G: "G = gmp toom32 mul_big sqr_big div_big"
  shows "length h = hashlen s \<Longrightarrow> mpz_is v x \<Longrightarrow> 0 \<le> x \<Longrightarrow> x < 256 ^ (hashlen s * (2 - k)) \<Longrightarrow> k \<le> 2 \<Longrightarrow>
    outcome_is (hash_range_limbs G L s input vmul k h v) (hash_range_loop L s input k h x)"
proof (induction k arbitrary: h v x)
  case 0
  then show ?case by (simp add: outcome_is_def)
next
  case (Suc k)
  define n where "n = hashlen s"
  show ?case
  proof (cases "hash_into L s h (take n h @ input)")
    case (Inl c)
    then show ?thesis by (simp add: outcome_is_def G gmp_def n_def)
  next
    case (Inr h')
    have h': "length h' = n" using hash_into_length [OF Inr] Suc.prems(1) by (simp add: n_def)
    obtain a where a: "mpz_import n 1 1 0 0 True (take n h') = Inr a" "mpz_is a (int (be_val (take n h')))"
      using import_hash [OF h'] by blast
    have k: "k = 0 \<or> k = 1" using Suc.prems(5) by auto
    have p: "(256 :: int) ^ n \<le> 256 ^ 64" using s by (intro power_increasing) (simp_all add: n_def)
    have two: "(256 :: int) ^ 64 = 2 ^ (64 * 8)" "(2 :: int) ^ (64 * 8) < 2 ^ (64 * 9)" by simp_all
    have xn: "x < 256 ^ (n * (1 - k))" using Suc.prems(4) by (simp add: n_def)
    also have "\<dots> \<le> 256 ^ n" by (intro power_increasing) simp_all
    finally have x: "\<bar>x\<bar> < 2 ^ (64 * 8)" using p Suc.prems(3) unfolding two(1) by linarith
    have v9: "\<bar>(256 :: int) ^ n\<bar> < 2 ^ (64 * 9)" using p two by simp
    have "product_fits False (nat \<bar>siz v\<bar>) (nat \<bar>siz vmul\<bar>)"
      using mpz_is_size [OF Suc.prems(2) x] mpz_is_size [OF vmul [folded n_def] v9]
      by (simp add: product_fits_def MUL_TOOM22_THRESHOLD_def)
    then obtain z where z: "mpz_mul (mpn_mul toom32 mul_big) (mpn_sqr sqr_big) False v v vmul = Inr z" "mpz_is z (x * 256 ^ n)"
      using below.mpz_mul_is [OF Suc.prems(2) vmul [folded n_def], of False toom32 mul_big sqr_big v] by blast
    define x' where "x' = x * 256 ^ n + int (be_val (take n h'))"
    have za: "mpz_is (mpz_add z a) x'" using mpz_add_is [OF z(2) a(2)] by (simp add: x'_def)
    have be: "be_val (take n h') < 256 ^ n" using be_val_bound [of "take n h'"] h' by simp
    have x'0: "0 \<le> x'" using Suc.prems(3) by (simp add: x'_def)
    have x'1: "x' < 256 ^ (n * (2 - k))"
    proof -
      have "int (be_val (take n h')) < 256 ^ n" using be by (metis of_nat_less_iff of_nat_numeral of_nat_power)
      moreover have "(x + 1) * 256 ^ n \<le> 256 ^ (n * (1 - k)) * 256 ^ n" using xn by (intro mult_right_mono) simp_all
      moreover have e: "n * (2 - k) = n * (1 - k) + n" using k by auto
      moreover have "(x + 1) * 256 ^ n = x * 256 ^ n + 256 ^ n" by (simp add: algebra_simps)
      moreover have "(256 :: int) ^ (n * (1 - k) + n) = 256 ^ (n * (1 - k)) * 256 ^ n" by (rule power_add)
      ultimately show ?thesis unfolding x'_def e by linarith
    qed
    have "outcome_is (hash_range_limbs G L s input vmul k h' (mpz_add z a)) (hash_range_loop L s input k h' x')"
      by (rule Suc.IH) (use h' za x'0 x'1 Suc.prems(5) in \<open>simp_all only: n_def Suc_leD\<close>)
    then show ?thesis using Inr a z by (simp add: G gmp_def n_def [symmetric] x'_def)
  qed
qed

text \<open>
  C19: \<open>hash_to_range\<close> with every number in limbs and every operation that of GMP's code (the power of 256, the
  import of the digest, product, sum and the division) does what the function on integers does: it fails in
  the same way or returns a number with the same value. The digest has at most 64 bytes and the
  modulus less than 60 limbs, so that no algorithm above Karatsuba and the schoolbook division is called.
\<close>

theorem hash_to_range_on_limbs:
  assumes "mpz_is q x" and "nat \<bar>siz q\<bar> < 60" and "hashlen (security params) \<le> 64"
  shows "outcome_is (hash_to_range_limbs (gmp toom32 mul_big sqr_big div_big) L params input q) (hash_to_range L params input x)"
proof -
  define n where "n = hashlen (security params)"
  define G where "G = gmp toom32 mul_big sqr_big div_big"
  have n: "n \<le> 64" using assms(3) by (simp add: n_def)
  have n': "unat (of_nat n :: limb) = n" using n by (simp add: unat_of_nat)
  have v256: "mpz_is (mpz_set_ui 256) 256" using mpz_set_ui_is [of 256] by simp
  have "(256 :: nat) ^ n \<le> 256 ^ 64" using n by (intro power_increasing) simp_all
  also have "\<dots> < 2 ^ (64 * 59)" by simp
  finally have "fits_below product_fits (nat \<bar>256\<bar> ^ unat (of_nat n :: limb))" unfolding n' by (intro product_fits_below) simp
  moreover have "unat (of_nat n :: limb) * (64 * nat \<bar>siz (mpz_set_ui 256)\<bar>) < 2 ^ 64" using n by (simp add: n' mpz_set_ui_def)
  ultimately obtain vmul where vmul: "mpz_pow_ui (mpn_mul toom32 mul_big) (mpn_sqr sqr_big) (mpz_set_ui 256) (mpz_set_ui 256) (of_nat n) = Inr vmul"
    "mpz_is vmul (256 ^ n)" using below.mpz_pow_ui_is [OF v256, of "of_nat n"] unfolding n' by blast
  have "mpz_is (mpz_set_ui 0) 0" using mpz_set_ui_is [of 0] by simp
  then have loop: "outcome_is (hash_range_limbs G L (security params) input vmul 2 (replicate n 0) (mpz_set_ui 0))
      (hash_range_loop L (security params) input 2 (replicate n 0) 0)"
    unfolding n_def
    by (intro hash_range_limbs_is [OF assms(3) vmul(2) [unfolded n_def] G_def]) simp_all
  have m: "outcome_is (mpz_mod (mpn_mul toom32 mul_big) div_big False v q) (mpz_mod_int y x)" if "mpz_is v y" for v y
  proof (cases "x = 0")
    case True
    then have "siz q = 0" using mpz_is_sign(2) [OF assms(1)] by simp
    then show ?thesis using True by (simp add: outcome_is_def mpz_mod_def mpz_tdiv_r_def mpz_mod_int_def)
  next
    case False
    have "nat \<bar>siz q\<bar> < DC_DIV_QR_THRESHOLD" using assms(2) by (simp add: DC_DIV_QR_THRESHOLD_def MUL_TOOM22_THRESHOLD_def)
    from low.mpz_mod_is [OF that assms(1) False this, of toom32 mul_big div_big False] show ?thesis
      using False by (auto simp: outcome_is_def mpz_mod_int_def)
  qed
  have "hash_to_range_limbs G L params input q =
      bindO (hash_range_limbs G L (security params) input vmul 2 (replicate n 0) (mpz_set_ui 0))
        (\<lambda>v. mpz_mod (mpn_mul toom32 mul_big) div_big False v q)"
    using vmul(1) by (simp add: hash_to_range_limbs_def Let_def G_def gmp_def n_def)
  moreover have "outcome_is \<dots> (bindO (hash_range_loop L (security params) input 2 (replicate n 0) 0) (\<lambda>y. mpz_mod_int y x))"
    by (rule outcome_is_bind [OF loop m])
  ultimately show ?thesis by (simp add: hash_to_range_def Let_def n_def G_def)
qed

theorem hash_to_range_on_limbs_witness:
  "\<exists>z. hash_to_range_limbs (gmp (\<lambda>_ _. []) (\<lambda>_ _. []) (\<lambda>_. []) (\<lambda>_ _. Inl AssertFail)) sample_lib sample_params [1, 2, 3] (mpz_set_ui 251) = Inr z \<and>
    mpz_is z (range_spec (sample_digest SHA1) 20 [1, 2, 3] 251)"
proof -
  have "mpz_is (mpz_set_ui 251) 251" using mpz_set_ui_is [of 251] by simp
  moreover have "nat \<bar>siz (mpz_set_ui 251)\<bar> < 60" by (simp add: mpz_set_ui_def)
  moreover have "hashlen (security sample_params) \<le> 64" by simp
  ultimately have "outcome_is (hash_to_range_limbs (gmp (\<lambda>_ _. []) (\<lambda>_ _. []) (\<lambda>_. []) (\<lambda>_ _. Inl AssertFail)) sample_lib sample_params
      [1, 2, 3] (mpz_set_ui 251)) (hash_to_range sample_lib sample_params [1, 2, 3] 251)"
    by (rule hash_to_range_on_limbs)
  moreover have "hash_to_range sample_lib sample_params [1, 2, 3] 251 = Inr (range_spec (sample_digest SHA1) 20 [1, 2, 3] 251)"
    using hash_to_range_eq [OF sample_hash_laws, of sample_params SHA1] by simp
  ultimately show ?thesis by (simp add: outcome_is_def)
qed

end
