(* ===== verification/Gmp_SetStr.thy ===== *)
theory Gmp_SetStr
  imports Gmp_Mpz Gmp_Text
begin

text \<open>
  Digits into limbs (\<open>gmp-6.2.1/mpn/generic/set_str.c\<close>): \<open>mpn_set_str\<close> for the bases that are powers of
  two and, for up to 2000 digits of another base, \<open>mpn_bc_set_str\<close>; longer strings are an argument. The
  table \<open>mp_bases\<close> is what \<open>gen-bases.c\<close> computes. The limbs hold the number \<open>digits_val\<close> of
  \<open>Gmp_Text\<close>, so that the numbers which \<open>mpz_set_str\<close> reads have this form in memory.
\<close>

subsection \<open>The table of the bases\<close>

text \<open>\<open>generate\<close>: the loop, from \<open>big_base = base\<close> and \<open>chars_per_limb = 0\<close>.\<close>

partial_function (option) generate_loop :: "nat \<Rightarrow> nat \<Rightarrow> nat \<Rightarrow> nat option" where
  "generate_loop base big_base chars_per_limb =
     (if big_base \<le> 2 ^ 64 then generate_loop base (big_base * base) (chars_per_limb + 1)
      else Some chars_per_limb)"

declare generate_loop.simps [code]

fun ulog2_loop :: "nat \<Rightarrow> nat \<Rightarrow> nat" where
  "ulog2_loop x i = (if x \<noteq> 0 then ulog2_loop (x div 2) (i + 1) else i)"

declare ulog2_loop.simps [simp del]

definition ulog2 :: "nat \<Rightarrow> nat" where
  "ulog2 x = ulog2_loop x 0"

definition POW2_P :: "nat \<Rightarrow> bool" where
  "POW2_P n \<longleftrightarrow> n AND (n - 1) = 0"

text \<open>\<open>chars_per_limb\<close> and \<open>big_base\<close> of an entry of \<open>mp_bases\<close>.\<close>

definition mp_bases :: "nat \<Rightarrow> (nat \<times> nat) option" where
  "mp_bases base =
     (if base < 2 then Some (0, 0)
      else case generate_loop base base 0 of None \<Rightarrow> None
      | Some chars_per_limb \<Rightarrow>
          Some (chars_per_limb, if POW2_P base then ulog2 base - 1 else base ^ chars_per_limb))"

subsection \<open>The functions\<close>

text \<open>\<open>res_digit\<close> of some digits.\<close>

fun chunk_digit :: "nat \<Rightarrow> bytes \<Rightarrow> limb" where
  "chunk_digit base [] = 0"
| "chunk_digit base (d # ds) = foldl (\<lambda>res_digit d. res_digit * of_nat base + ucast d) (ucast d) ds"

definition bc_step :: "limb \<Rightarrow> limb \<Rightarrow> limbs \<Rightarrow> limbs" where
  "bc_step big_base res_digit rp =
     (if rp = [] then (if res_digit \<noteq> 0 then [res_digit] else [])
      else
        let (cy_limb, rp) = mpn_mul_1 rp big_base; (c, rp) = mpn_add_1 rp res_digit; cy_limb = cy_limb + c
        in if cy_limb \<noteq> 0 then rp @ [cy_limb] else rp)"

text \<open>The loop over the full chunks; the digits that are left and the limbs.\<close>

partial_function (option) bc_loop :: "nat \<Rightarrow> nat \<Rightarrow> limb \<Rightarrow> bytes \<Rightarrow> limbs \<Rightarrow> (bytes \<times> limbs) option" where
  "bc_loop base chars_per_limb big_base str rp =
     (if chars_per_limb < length str then
        bc_loop base chars_per_limb big_base (drop chars_per_limb str)
          (bc_step big_base (chunk_digit base (take chars_per_limb str)) rp)
      else Some (str, rp))"

definition mpn_bc_set_str :: "nat \<Rightarrow> bytes \<Rightarrow> limbs option" where
  "mpn_bc_set_str base str =
     (case mp_bases base of None \<Rightarrow> None
      | Some (chars_per_limb, big_base) \<Rightarrow>
          case bc_loop base chars_per_limb (of_nat big_base) str [] of None \<Rightarrow> None
          | Some (str, rp) \<Rightarrow>
              let big_base = foldl (\<lambda>big_base _. big_base * of_nat base) (of_nat base) (tl str)
              in Some (bc_step big_base (chunk_digit base str) rp))"

text \<open>A power of two: the digits from the last one on, as \<open>ACCUMULATE\<close> of \<open>mpz_import\<close>.\<close>

definition mpn_set_str :: "(nat \<Rightarrow> bytes \<Rightarrow> limbs option) \<Rightarrow> nat \<Rightarrow> bytes \<Rightarrow> limbs option" where
  "mpn_set_str set_str_big base str =
     (if POW2_P base then
        case mp_bases base of None \<Rightarrow> None
        | Some (_, bits_per_indigit) \<Rightarrow>
            let (rp, res_digit, next_bitpos) =
              fold (\<lambda>inp_digit. acc_bits bits_per_indigit (ucast inp_digit)) (rev str) ([], 0, 0)
            in Some (if res_digit \<noteq> 0 then rp @ [res_digit] else rp)
      else if length str < 2000 then mpn_bc_set_str base str
      else set_str_big base str)"

subsection \<open>The table\<close>

lemma generate_loop_val:
  assumes "2 \<le> base" and "base ^ c \<le> (2 ^ 64 :: nat)"
  shows "\<exists>k. generate_loop base (base ^ (c + 1)) c = Some k \<and> c \<le> k \<and> base ^ k \<le> 2 ^ 64"
  using assms(2)
proof (induction "64 - c" arbitrary: c rule: less_induct)
  case less
  show ?case
  proof (cases "base ^ (c + 1) \<le> 2 ^ 64")
    case True
    have "(2 :: nat) ^ (c + 1) \<le> base ^ (c + 1)" using assms(1) by (rule power_mono) simp
    then have "(2 :: nat) ^ (c + 1) \<le> 2 ^ 64" using True by (rule order_trans)
    then have "c + 1 \<le> 64" by (rule power_le_imp_le_exp [rotated]) simp
    then have "64 - (c + 1) < 64 - c" by simp
    then obtain k where "generate_loop base (base ^ (c + 1 + 1)) (c + 1) = Some k" "c + 1 \<le> k" "base ^ k \<le> 2 ^ 64"
      using less.hyps [of "c + 1"] True by blast
    then show ?thesis
      using True generate_loop.simps [of base "base ^ (c + 1)" c] by (auto simp: mult.commute)
  next
    case False
    then show ?thesis using less.prems generate_loop.simps [of base "base ^ (c + 1)" c] by auto
  qed
qed

lemma POW2_P_power: "POW2_P (2 ^ k)"
proof -
  have "(2 :: nat) ^ k - 1 = mask k" by (simp add: mask_eq_exp_minus_1)
  then have "(2 :: nat) ^ k AND (2 ^ k - 1) = take_bit k (2 ^ k)" by (simp only: take_bit_eq_mask)
  then show ?thesis by (simp add: POW2_P_def)
qed

lemma POW2_P_is_power: "POW2_P n \<Longrightarrow> 0 < n \<Longrightarrow> \<exists>k. n = 2 ^ k"
proof (induction n rule: less_induct)
  case (less n)
  show ?case
  proof (cases "even n")
    case True
    then obtain m where m: "n = 2 * m" "0 < m" using less.prems(2) by (auto elim: evenE)
    have "n AND (n - 1) = 2 * (m AND (m - 1))"
      using m and_rec [of n "n - 1"] by (cases m) simp_all
    then have "POW2_P m" using less.prems(1) by (simp add: POW2_P_def)
    then obtain k where "m = 2 ^ k" using less.IH [of m] m by auto
    then have "n = 2 ^ Suc k" by (simp add: m)
    then show ?thesis ..
  next
    case False
    then obtain m where m: "n = 2 * m + 1" by (auto elim: oddE)
    have "n AND (n - 1) = 2 * (m AND m)" using m and_rec [of n "n - 1"] by simp
    then have "n = 2 ^ 0" using less.prems(1) m by (simp add: POW2_P_def)
    then show ?thesis ..
  qed
qed

lemma dvd_power_of_2: "n dvd (2 :: nat) ^ k \<Longrightarrow> \<exists>i. n = 2 ^ i"
proof (induction k arbitrary: n)
  case (Suc k)
  show ?case
  proof (cases "even n")
    case True
    then obtain m where m: "n = 2 * m" by (auto elim: evenE)
    then have "m dvd 2 ^ k" using Suc.prems by simp
    then obtain i where "m = 2 ^ i" using Suc.IH by blast
    then have "n = 2 ^ Suc i" by (simp add: m)
    then show ?thesis ..
  next
    case False
    then have "coprime n 2" by simp
    then have "n dvd 2 ^ k" using Suc.prems by (simp add: coprime_dvd_mult_right_iff)
    then show ?thesis by (rule Suc.IH)
  qed
qed (auto intro: exI [of _ 0])

lemma ulog2_power: "ulog2 (2 ^ k) = k + 1"
proof -
  have "ulog2_loop (2 ^ k) i = i + k + 1" for i
  proof (induction k arbitrary: i)
    case 0
    show ?case by (subst ulog2_loop.simps, simp, subst ulog2_loop.simps) simp
  next
    case (Suc k)
    then show ?case by (subst ulog2_loop.simps) simp
  qed
  then show ?thesis by (simp add: ulog2_def)
qed

lemma mp_bases_val:
  assumes "2 \<le> base" and "base \<le> 256"
  shows "\<exists>chars big. mp_bases base = Some (chars, big) \<and> 1 \<le> chars \<and>
    (POW2_P base \<longrightarrow> base = 2 ^ big \<and> 1 \<le> big \<and> big \<le> 8) \<and>
    (\<not> POW2_P base \<longrightarrow> big = base ^ chars \<and> base ^ chars < 2 ^ 64)"
proof -
  obtain k where k: "generate_loop base (base ^ (1 + 1)) 1 = Some k" "1 \<le> k" "base ^ k \<le> 2 ^ 64"
    using generate_loop_val [of base 1] assms by auto
  have "generate_loop base base 0 = generate_loop base (base * base) 1"
    using assms(2) by (subst generate_loop.simps) simp
  then have g: "generate_loop base base 0 = Some k" using k(1) by (simp add: power2_eq_square numeral_2_eq_2)
  have pow2: "base = 2 ^ (ulog2 base - 1) \<and> 1 \<le> ulog2 base - 1 \<and> ulog2 base - 1 \<le> 8" if "POW2_P base"
  proof -
    have "0 < base" using assms(1) by simp
    with \<open>POW2_P base\<close> obtain i where i: "base = 2 ^ i" using POW2_P_is_power by blast
    then have "i \<noteq> 0" using assms(1) by (cases i) simp_all
    moreover have "(2 :: nat) ^ i \<le> 2 ^ 8" using assms(2) by (simp flip: i)
    then have "i \<le> 8" by (rule power_le_imp_le_exp [rotated]) simp
    ultimately show ?thesis by (simp add: i ulog2_power)
  qed
  have "base ^ k < 2 ^ 64" if "\<not> POW2_P base"
  proof (rule le_neq_implies_less [OF k(3)])
    have "base dvd base ^ k" using k(2) by (intro dvd_power) simp
    then show "base ^ k \<noteq> 2 ^ 64" using dvd_power_of_2 [of base 64] POW2_P_power that by metis
  qed
  then show ?thesis using pow2 g k(2) assms by (auto simp: mp_bases_def)
qed

subsection \<open>Any base\<close>

lemma digits_val_Nil [simp]: "digits_val b [] = 0"
  by (simp add: digits_val_def)

lemma digits_val_snoc: "digits_val b (xs @ [d]) = digits_val b xs * b + d"
  by (simp add: digits_val_def)

lemma digits_val_app: "digits_val b (xs @ ys) = digits_val b xs * b ^ length ys + digits_val b ys"
  by (induction ys rule: rev_induct) (simp_all add: digits_val_snoc algebra_simps flip: append_assoc)

lemma digits_val_bound: "list_all (\<lambda>d. d < b) ds \<Longrightarrow> digits_val b ds < b ^ length ds"
proof (induction ds rule: rev_induct)
  case (snoc d ds)
  then have "(digits_val b ds + 1) * b \<le> b ^ length ds * b" by (intro mult_le_mono1) simp
  then show ?case using snoc.prems by (simp add: digits_val_snoc algebra_simps)
qed simp

abbreviation digits_of :: "nat \<Rightarrow> bytes \<Rightarrow> bool" where
  "digits_of base str \<equiv> list_all (\<lambda>d. d < base) (map unat str)"

lemma chunk_digit_val:
  assumes "digits_of base ds" and "base ^ length ds < 2 ^ 64" and "base < 2 ^ 64" and "2 \<le> base"
  shows "unat (chunk_digit base ds) = digits_val base (map unat ds)"
proof (cases ds)
  case (Cons d es)
  have "unat (foldl (\<lambda>r d. r * of_nat base + ucast d) (ucast d) es :: limb) = digits_val base (map unat (d # es))"
    using assms(1,2) unfolding Cons
  proof (induction es rule: rev_induct)
    case Nil
    show ?case using digits_val_snoc [of base "[]" "unat d"] by (simp add: unat_ucast_byte)
  next
    case (snoc e es)
    have "base ^ length (d # es) \<le> base ^ length (d # es @ [e])" using assms(4) by (intro power_increasing) simp_all
    then have "base ^ length (d # es) < 2 ^ 64" using snoc.prems(2) by (rule le_less_trans)
    then have IH: "unat (foldl (\<lambda>r d. r * of_nat base + ucast d) (ucast d) es :: limb) = digits_val base (map unat (d # es))"
      using snoc.IH snoc.prems(1) by simp
    have v: "digits_val base (map unat (d # es @ [e])) = digits_val base (map unat (d # es)) * base + unat e"
      using digits_val_snoc [of base "map unat (d # es)" "unat e"] by simp
    have "digits_val base (map unat (d # es @ [e])) < 2 ^ 64"
      using digits_val_bound [OF snoc.prems(1)] snoc.prems(2) by simp
    then have small: "digits_val base (map unat (d # es)) * base + unat e < 2 ^ 64" unfolding v .
    have "unat (of_nat base :: limb) = base" using assms(3) by (simp add: unat_of_nat)
    then have "unat (foldl (\<lambda>r d. r * of_nat base + ucast d) (ucast d) es * of_nat base :: limb) =
        digits_val base (map unat (d # es)) * base"
      using small IH by (subst limb_mult_small) simp_all
    then show ?case
      using small v by (simp add: limb_add_small unat_ucast_byte)
  qed
  then show ?thesis by (simp add: Cons)
qed simp

definition top_ok :: "limbs \<Rightarrow> bool" where
  "top_ok rp \<longleftrightarrow> (rp \<noteq> [] \<longrightarrow> last rp \<noteq> 0)"

lemma bc_step_val:
  assumes "top_ok rp" and "big \<noteq> 0"
  shows "limbs_val (bc_step big res rp) = limbs_val rp * unat big + unat res \<and> top_ok (bc_step big res rp)"
proof (cases "rp = []")
  case True
  then show ?thesis by (simp add: bc_step_def top_ok_def)
next
  case False
  obtain cy wp where m: "mpn_mul_1 rp big = (cy, wp)" by fastforce
  note mv = mpn_mul_1_val [OF m]
  have "wp \<noteq> []" using False mv(1) by auto
  obtain c xp where a: "mpn_add_1 wp res = (c, xp)" by fastforce
  note av = mpn_add_1_val [OF \<open>wp \<noteq> []\<close> a]
  define B :: nat where "B = 2 ^ (64 * length rp)"
  have sum: "limbs_val xp + B * (unat cy + unat c) = limbs_val rp * unat big + unat res"
    using mv av unfolding B_def by (simp add: algebra_simps)
  have le: "limbs_val rp * unat big + unat res \<le> B * (2 ^ 64 - 1)"
  proof -
    have "limbs_val rp * unat big + unat res \<le> limbs_val rp * (2 ^ 64 - 1) + (2 ^ 64 - 1)"
      using limb_le [of big] limb_le [of res] by (intro add_mono mult_le_mono2)
    also have "\<dots> = (limbs_val rp + 1) * (2 ^ 64 - 1)" by (simp add: algebra_simps)
    also have "\<dots> \<le> B * (2 ^ 64 - 1)"
      using limbs_val_bound [of rp] by (intro mult_le_mono1) (simp add: B_def)
    finally show ?thesis .
  qed
  have "B * (unat cy + unat c) \<le> limbs_val xp + B * (unat cy + unat c)" by (rule le_add2)
  also have "\<dots> \<le> B * (2 ^ 64 - 1)" unfolding sum by (rule le)
  finally have "B * (unat cy + unat c) \<le> B * (2 ^ 64 - 1)" .
  then have "unat cy + unat c < 2 ^ 64" by (simp add: B_def)
  then have cc: "unat (cy + c) = unat cy + unat c" by (rule limb_add_small)
  have top: "2 ^ (64 * (length rp - 1)) \<le> limbs_val rp" using limbs_top assms(1) False by (auto simp: top_ok_def)
  have "0 < unat big" using assms(2) by (simp add: unat_gt_0)
  from product_top [OF top False this]
  have top': "2 ^ (64 * (length rp - 1)) \<le> limbs_val rp * unat big + unat res" by (rule trans_le_add1)
  have len: "length xp = length rp" using mv(1) av(1) by simp
  have r: "bc_step big res rp = (if cy + c \<noteq> 0 then xp @ [cy + c] else xp)"
    using False m a by (simp add: bc_step_def Let_def)
  show ?thesis
  proof (cases "cy + c = 0")
    case True
    then have "unat cy + unat c = 0" using cc by simp
    then have "limbs_val xp = limbs_val rp * unat big + unat res" using sum by simp
    then show ?thesis
      using True r top' limbs_top_nonzero [of xp] len by (simp add: top_ok_def)
  next
    case False
    then show ?thesis
      using r sum cc len by (simp add: top_ok_def limbs_val_append B_def)
  qed
qed

lemma bc_loop_val:
  assumes "1 \<le> chars" and "base ^ chars < 2 ^ 64" and "2 \<le> base" and "base < 2 ^ 64"
    and "unat big = base ^ chars" and "digits_of base str" and "str \<noteq> []" and "top_ok rp"
  shows "\<exists>str' rp'. bc_loop base chars big str rp = Some (str', rp') \<and> str' \<noteq> [] \<and> length str' \<le> chars \<and>
    digits_of base str' \<and> top_ok rp' \<and>
    limbs_val rp' * base ^ length str' + digits_val base (map unat str') =
      limbs_val rp * base ^ length str + digits_val base (map unat str)"
  using assms(6-8)
proof (induction "length str" arbitrary: str rp rule: less_induct)
  case less
  show ?case
  proof (cases "chars < length str")
    case False
    then show ?thesis using less.prems by (subst bc_loop.simps) auto
  next
    case True
    define a b where ab: "a = take chars str" "b = drop chars str"
    have str: "str = a @ b" "length a = chars" using True by (simp_all add: ab)
    have dg: "digits_of base a" "digits_of base b" using less.prems(1) by (simp_all add: str(1))
    define rp' where "rp' = bc_step big (chunk_digit base a) rp"
    have "big \<noteq> 0" using assms(3,5) by auto
    then have r: "limbs_val rp' = limbs_val rp * base ^ chars + digits_val base (map unat a)" "top_ok rp'"
      using bc_step_val [OF less.prems(3)] chunk_digit_val [OF dg(1)] assms(2-5) str(2) by (simp_all add: rp'_def)
    have lt: "length b < length str" "b \<noteq> []" using True assms(1) by (simp_all add: ab)
    have step: "bc_loop base chars big str rp = bc_loop base chars big b rp'"
      using True by (subst bc_loop.simps) (simp add: ab rp'_def)
    have "limbs_val rp' * base ^ length b + digits_val base (map unat b) =
        limbs_val rp * base ^ length str + digits_val base (map unat str)"
      by (simp add: r(1) str digits_val_app power_add algebra_simps)
    then show ?thesis using less.hyps [OF lt(1) dg(2) lt(2) r(2)] unfolding step by simp
  qed
qed

lemma unat_of_nat_limb: "n < 2 ^ 64 \<Longrightarrow> unat (of_nat n :: limb) = n"
  by (simp add: unat_of_nat)

lemma big_base_val:
  assumes "base ^ (length ds + 1) < 2 ^ 64" and "2 \<le> base"
  shows "unat (foldl (\<lambda>big_base _. big_base * of_nat base) (of_nat base) ds :: limb) = base ^ (length ds + 1)"
  using assms(1)
proof (induction ds rule: rev_induct)
  case Nil
  then show ?case by (simp add: unat_of_nat)
next
  case (snoc d ds)
  have "base ^ (length ds + 1) \<le> base ^ (length (ds @ [d]) + 1)" using assms(2) by (intro power_increasing) simp_all
  then have "base ^ (length ds + 1) < 2 ^ 64" using snoc.prems by (rule le_less_trans)
  note IH = snoc.IH [OF this]
  have "base ^ 1 \<le> base ^ (length (ds @ [d]) + 1)" using assms(2) by (intro power_increasing) simp_all
  then have "base ^ 1 < 2 ^ 64" using snoc.prems by (rule le_less_trans)
  then have b: "unat (of_nat base :: limb) = base" by (simp add: unat_of_nat)
  show ?case using snoc.prems IH b by (simp add: limb_mult_small mult.commute)
qed

lemma mpn_bc_set_str_val:
  assumes "2 \<le> base" and "base \<le> 256" and "\<not> POW2_P base" and "digits_of base str" and "str \<noteq> []"
  shows "\<exists>rp. mpn_bc_set_str base str = Some rp \<and> top_ok rp \<and> limbs_val rp = digits_val base (map unat str)"
proof -
  obtain chars where c: "mp_bases base = Some (chars, base ^ chars)" "1 \<le> chars" "base ^ chars < 2 ^ 64"
    using mp_bases_val [OF assms(1,2)] assms(3) by auto
  have b: "base < 2 ^ 64" using assms(2) by simp
  have big: "unat (of_nat (base ^ chars) :: limb) = base ^ chars" using c(3) by (rule unat_of_nat_limb)
  obtain str' rp where l: "bc_loop base chars (of_nat (base ^ chars)) str [] = Some (str', rp)" "str' \<noteq> []"
    "length str' \<le> chars" "digits_of base str'" "top_ok rp"
    "limbs_val rp * base ^ length str' + digits_val base (map unat str') = digits_val base (map unat str)"
    using bc_loop_val [OF c(2,3) assms(1) b big assms(4,5), of "[]"] by (auto simp: top_ok_def)
  have "base ^ length str' \<le> base ^ chars" using l(3) assms(1) by (intro power_increasing) simp_all
  then have lt: "base ^ length str' < 2 ^ 64" using c(3) by (rule le_less_trans)
  define bb :: limb where "bb = foldl (\<lambda>big_base _. big_base * of_nat base) (of_nat base) (tl str')"
  have bb: "unat bb = base ^ length str'"
    using big_base_val [of base "tl str'"] lt assms(1) l(2) by (simp add: bb_def)
  then have "bb \<noteq> 0" using assms(1) by auto
  note s = bc_step_val [OF l(5) this, of "chunk_digit base str'"]
  have "mpn_bc_set_str base str = Some (bc_step bb (chunk_digit base str') rp)"
    using c(1) l(1) by (simp add: mpn_bc_set_str_def bb_def Let_def)
  then show ?thesis
    using s bb l(6) chunk_digit_val [OF l(4) lt b assms(1)] by simp
qed

subsection \<open>Powers of two\<close>

lemma fold_acc_bits:
  assumes "digits_of (2 ^ N) str" and "N \<le> 8"
  defines "a \<equiv> fold (\<lambda>inp_digit. acc_bits N (ucast inp_digit)) (rev str) ([], 0, 0)"
  shows "acc_ok a \<and> acc_len a = N * length str \<and> acc_val a = digits_val (2 ^ N) (map unat str)"
  using assms(1) unfolding a_def
proof (induction str)
  case Nil
  show ?case by (simp add: acc_ok_def acc_len_def acc_val_def)
next
  case (Cons d str)
  define a where "a = fold (\<lambda>inp_digit. acc_bits N (ucast inp_digit)) (rev str) ([], 0, 0)"
  have IH: "acc_ok a" "acc_len a = N * length str" "acc_val a = digits_val (2 ^ N) (map unat str)"
    using Cons by (simp_all add: a_def)
  have "unat (ucast d :: limb) < 2 ^ N" "N \<le> 64" using Cons.prems assms(2) by (simp_all add: unat_ucast_byte)
  note s = acc_bits_step [OF IH(1) this]
  have "digits_val (2 ^ N) (map unat (d # str)) = unat d * 2 ^ (N * length str) + digits_val (2 ^ N) (map unat str)"
    using digits_val_app [of "2 ^ N" "[unat d]" "map unat str"] digits_val_snoc [of "2 ^ N" "[]" "unat d"]
    by (simp add: power_mult)
  moreover have "fold (\<lambda>inp_digit. acc_bits N (ucast inp_digit)) (rev (d # str)) ([], 0, 0) = acc_bits N (ucast d) a"
    by (simp add: a_def)
  ultimately show ?case using s IH by (simp add: unat_ucast_byte algebra_simps)
qed

text \<open>A first digit that is not zero makes the last limb not zero.\<close>

lemma acc_top:
  assumes "acc_ok (zp, res, bitpos)" and "acc_len (zp, res, bitpos) = N * Suc n" and "N \<le> 8"
    and "2 ^ (N * n) \<le> acc_val (zp, res, bitpos)"
  shows "top_ok (if res \<noteq> 0 then zp @ [res] else zp) \<and>
    limbs_val (if res \<noteq> 0 then zp @ [res] else zp) = acc_val (zp, res, bitpos)"
proof (cases "res = 0")
  case False
  then show ?thesis by (simp add: top_ok_def acc_val_def limbs_val_append)
next
  case True
  have "last zp \<noteq> 0" if "zp \<noteq> []"
  proof -
    have "64 * (length zp - 1) \<le> N * n"
      using that assms(2,3) by (cases zp) (simp_all add: acc_len_def)
    then have "(2 :: nat) ^ (64 * (length zp - 1)) \<le> 2 ^ (N * n)" by (intro power_increasing) simp_all
    also have "\<dots> \<le> limbs_val zp" using assms(4) True by (simp add: acc_val_def)
    finally show ?thesis using limbs_top_nonzero by blast
  qed
  then show ?thesis using True by (simp add: top_ok_def acc_val_def)
qed

lemma digits_val_lead:
  assumes "str = d # ds" and "d \<noteq> 0"
  shows "b ^ length ds \<le> digits_val b (map unat str)"
proof -
  have "digits_val b (map unat str) = unat d * b ^ length ds + digits_val b (map unat ds)"
    using digits_val_app [of b "[unat d]" "map unat ds"] digits_val_snoc [of b "[]" "unat d"] by (simp add: assms(1))
  moreover obtain k where "unat d = Suc k" using assms(2) by (metis unat_eq_zero not0_implies_Suc)
  ultimately show ?thesis by simp
qed

lemma mpn_set_str_val:
  assumes "2 \<le> base" and "base \<le> 256" and "digits_of base str" and "str \<noteq> []" and "hd str \<noteq> 0"
    and "POW2_P base \<or> length str < 2000"
  shows "\<exists>rp. mpn_set_str set_str_big base str = Some rp \<and> top_ok rp \<and> limbs_val rp = digits_val base (map unat str)"
proof (cases "POW2_P base")
  case True
  obtain chars N where N: "mp_bases base = Some (chars, N)" "base = 2 ^ N" "N \<le> 8"
    using mp_bases_val [OF assms(1,2)] True by auto
  obtain zp res bitpos where a: "fold (\<lambda>inp_digit. acc_bits N (ucast inp_digit)) (rev str) ([], 0, 0) = (zp, res, bitpos)"
    by (metis prod_cases3)
  have f: "acc_ok (zp, res, bitpos)" "acc_len (zp, res, bitpos) = N * length str"
    "acc_val (zp, res, bitpos) = digits_val base (map unat str)"
    using fold_acc_bits [of N str] assms(3) N(2,3) by (simp_all add: a)
  obtain d ds where str: "str = d # ds" "d \<noteq> 0" using assms(4,5) by (cases str) auto
  have "2 ^ (N * length ds) \<le> acc_val (zp, res, bitpos)"
    using digits_val_lead [OF str, of base] unfolding f(3) N(2) by (simp add: power_mult)
  from acc_top [OF f(1) _ N(3) this] f(2,3) True N(1) a show ?thesis
    by (simp add: mpn_set_str_def str(1))
next
  case False
  then show ?thesis
    using mpn_bc_set_str_val [OF assms(1,2) False assms(3,4)] assms(6) by (simp add: mpn_set_str_def)
qed

text \<open>
  For the bases up to 256 and digits of which the first is not zero, \<open>mpn_set_str\<close> returns and
  stores the limbs of the number the digits denote, without a zero limb at the end; for a base that is no
  power of two up to the 2000 digits from which on it takes another algorithm.
\<close>

theorem mpn_set_str_digits:
  assumes "2 \<le> base" and "base \<le> 256" and "list_all (\<lambda>d. unat d < base) str" and "str \<noteq> []" and "hd str \<noteq> 0"
    and "POW2_P base \<or> length str < 2000"
  shows "\<exists>rp. mpn_set_str set_str_big base str = Some rp \<and>
    mpz_is \<lparr>siz = int (length rp), ptr = rp\<rparr> (int (digits_val base (map unat str)))"
proof -
  have "digits_of base str" using assms(3) by (simp add: list_all_iff)
  then obtain rp where rp: "mpn_set_str set_str_big base str = Some rp" "top_ok rp"
    "limbs_val rp = digits_val base (map unat str)"
    using mpn_set_str_val [OF assms(1,2) _ assms(4-6)] by blast
  have "2 ^ (64 * (length rp - 1)) \<le> limbs_val (take (length rp) rp) \<or> length rp = 0"
    using rp(2) limbs_top [of rp] by (auto simp: top_ok_def)
  then have "mpz_is \<lparr>siz = int (length rp), ptr = rp\<rparr> (int (digits_val base (map unat str)))"
    by (intro mpz_is_sized [where neg = False and n = "length rp"]) (simp_all add: rp(3))
  with rp(1) show ?thesis by blast
qed

text \<open>A number of 21 decimal digits takes up two limbs.\<close>

theorem mpn_set_str_digits_witness:
  "\<exists>rp. mpn_set_str (\<lambda>_ _. None) 10 [1, 0, 0, 0, 0, 0, 0, 0, 0, 0, 0, 0, 0, 0, 0, 0, 0, 0, 0, 0, 7] = Some rp \<and>
    mpz_is \<lparr>siz = int (length rp), ptr = rp\<rparr> 100000000000000000007"
  using mpn_set_str_digits [of 10 "[1, 0, 0, 0, 0, 0, 0, 0, 0, 0, 0, 0, 0, 0, 0, 0, 0, 0, 0, 0, 7]" "\<lambda>_ _. None"]
  by (simp add: digits_val_def)

end
