(* ===== verification/Gmp_GetStr.thy ===== *)
theory Gmp_GetStr
  imports Gmp_SetStr Gmp_Div
begin

unbundle bit_operations_syntax

text \<open>
  Limbs into digits (\<open>gmp-6.2.1/mpn/generic/get_str.c\<close>): \<open>mpn_get_str\<close> for the bases that are powers of two
  and, for less than 35 limbs, \<open>mpn_bc_get_str\<close>, which divides by the largest power of the base that fits a
  limb (\<open>pre_divrem_1.c\<close>) and develops the digits of each remainder from the fraction of the division,
  with one extra limb of quotient. More limbs are an argument. The digits are stored in bytes. \<open>None\<close> is a loop
  that does not end.
\<close>

subsection \<open>The division\<close>

definition mpn_preinv_divrem_1 :: "nat \<Rightarrow> limbs \<Rightarrow> limb \<Rightarrow> limb \<Rightarrow> nat \<Rightarrow> limbs \<times> limb" where
  "mpn_preinv_divrem_1 xsize ap d_unnorm dinv shift =
     (let ahigh = last ap; d = push_bit shift d_unnorm;
          (tp, qp, r) =
            (if shift = 0 then
               let qhigh = limb_of (d \<le> ahigh); r = (if qhigh \<noteq> 0 then ahigh - d else ahigh);
                   (qp, r) = divrem_loop d dinv r (tl (rev ap))
               in ([qhigh], qp, r)
             else
               let (tp, r, ap) = (if ahigh < d_unnorm then ([0], push_bit shift ahigh, tl (rev ap)) else ([], 0, rev ap))
               in case ap of [] \<Rightarrow> (tp, [], r)
                  | n1 # ap \<Rightarrow> (tp, divrem_shift_loop d dinv shift (r OR drop_bit (64 - shift) n1) n1 ap));
          (fp, r) = divrem_fraction d dinv r xsize
      in (rev (tp @ qp @ fp), drop_bit shift r))"

subsection \<open>More of the table\<close>

text \<open>\<open>mpz_sizeinbase (big_base, 2)\<close> is \<open>ulog2\<close>.\<close>

definition mp_normalization_steps :: "nat \<Rightarrow> nat" where
  "mp_normalization_steps big_base = 64 - ulog2 big_base"

definition mp_big_base_inverted :: "nat \<Rightarrow> nat" where
  "mp_big_base_inverted big_base =
     (let t = 2 ^ (2 * 64 - mp_normalization_steps big_base) in unset_bit 64 (t div big_base))"

subsection \<open>The digits of a fraction\<close>

fun frac_digits :: "limb \<Rightarrow> nat \<Rightarrow> limb \<Rightarrow> bytes \<times> limb" where
  "frac_digits base 0 frac = ([], frac)"
| "frac_digits base (Suc i) frac =
     (let (digit, frac) = umul_ppmm frac base; (s, frac) = frac_digits base i frac in (ucast digit # s, frac))"

text \<open>Base 10 where the processor is not an x86: the last digits with plain products, on 60 bits.\<close>

fun frac_digits_10 :: "nat \<Rightarrow> limb \<Rightarrow> bytes" where
  "frac_digits_10 0 frac = []"
| "frac_digits_10 (Suc i) frac =
     (let frac = frac * 10; digit = drop_bit 60 frac in ucast digit # frac_digits_10 i (frac AND drop_bit 4 (- 1)))"

definition chunk_digits_10 :: "nat \<Rightarrow> nat \<Rightarrow> limb \<Rightarrow> bytes" where
  "chunk_digits_10 normalization_steps chars_per_limb frac =
     (let k = 4 - normalization_steps; (s, frac) = frac_digits 10 k frac
      in s @ frac_digits_10 (chars_per_limb - k) (drop_bit 4 (frac + 0xf)))"

definition chunk_digits :: "bool \<Rightarrow> nat \<Rightarrow> nat \<Rightarrow> nat \<Rightarrow> limb \<Rightarrow> bytes" where
  "chunk_digits x86 base normalization_steps chars_per_limb frac =
     (if base = 10 \<and> \<not> x86 then chunk_digits_10 normalization_steps chars_per_limb frac
      else fst (frac_digits (of_nat base) chars_per_limb frac))"

subsection \<open>Up to 34 limbs\<close>

partial_function (option) get_loop ::
  "(limb \<Rightarrow> bytes) \<Rightarrow> limb \<Rightarrow> limb \<Rightarrow> nat \<Rightarrow> limbs \<Rightarrow> bytes \<Rightarrow> (limbs \<times> bytes) option"
where
  "get_loop chunk big_base inverted steps up s =
     (if 1 < length up then
        let (rp, r) = mpn_preinv_divrem_1 1 up big_base inverted steps; up = tl rp
        in get_loop chunk big_base inverted steps (if last up = 0 then butlast up else up) (chunk (hd rp + 1) @ s)
      else Some (up, s))"

declare get_loop.simps [code]

partial_function (option) limb_digits :: "limb \<Rightarrow> limb \<Rightarrow> bytes \<Rightarrow> bytes option" where
  "limb_digits base ul s =
     (if ul \<noteq> 0 then
        let q = ul div base; rl = ul - q * base in limb_digits base q (ucast rl # s)
      else Some s)"

declare limb_digits.simps [code]

definition GET_STR_PRECOMPUTE_THRESHOLD :: nat where
  "GET_STR_PRECOMPUTE_THRESHOLD = 35"

definition BUF_ALLOC :: nat where
  "BUF_ALLOC = GET_STR_PRECOMPUTE_THRESHOLD * 64 * 7 div 11"

text \<open>The digits go into \<open>buf\<close> from its end.\<close>

definition mpn_bc_get_str :: "bool \<Rightarrow> nat \<Rightarrow> limbs \<Rightarrow> bytes outcome option" where
  "mpn_bc_get_str x86 base up =
     (case mp_bases base of None \<Rightarrow> None
      | Some (chars_per_limb, big_base) \<Rightarrow>
          let steps = (if base = 10 then mp_normalization_steps big_base else count_leading_zeros (of_nat big_base))
          in case get_loop (chunk_digits x86 base steps chars_per_limb) (of_nat big_base)
                (of_nat (mp_big_base_inverted big_base)) steps up [] of None \<Rightarrow> None
             | Some (up, s) \<Rightarrow>
                 case limb_digits (of_nat base) (hd up) s of None \<Rightarrow> None
                 | Some s \<Rightarrow> Some (if length s \<le> BUF_ALLOC then Inr s else Inl OutOfBounds))"

subsection \<open>Powers of two\<close>

partial_function (option) pow2_limb :: "nat \<Rightarrow> limb \<Rightarrow> int \<Rightarrow> bytes \<Rightarrow> (int \<times> bytes) option" where
  "pow2_limb bits_per_digit n1 bit_pos s =
     (if 0 \<le> bit_pos then
        pow2_limb bits_per_digit n1 (bit_pos - int bits_per_digit)
          (s @ [ucast (drop_bit (nat bit_pos) n1 AND (push_bit bits_per_digit 1 - 1))])
      else Some (bit_pos, s))"

declare pow2_limb.simps [code]

text \<open>From the limb \<open>n1\<close> on; the lower ones, from the most significant one.\<close>

fun pow2_digits :: "nat \<Rightarrow> int \<Rightarrow> limb \<Rightarrow> limbs \<Rightarrow> bytes \<Rightarrow> bytes option" where
  "pow2_digits bits_per_digit bit_pos n1 up s =
     (case pow2_limb bits_per_digit n1 (bit_pos - int bits_per_digit) s of None \<Rightarrow> None
      | Some (bit_pos, s) \<Rightarrow>
          case up of [] \<Rightarrow> Some s
          | n1' # up \<Rightarrow>
              let n0 = push_bit (nat (- bit_pos)) n1 AND (push_bit bits_per_digit 1 - 1); bit_pos = bit_pos + 64
              in pow2_digits bits_per_digit bit_pos n1' up (s @ [ucast (n0 OR drop_bit (nat bit_pos) n1')]))"

declare pow2_digits.simps [simp del]

definition mpn_get_str :: "bool \<Rightarrow> (nat \<Rightarrow> limbs \<Rightarrow> bytes outcome option) \<Rightarrow> nat \<Rightarrow> limbs \<Rightarrow> bytes outcome option" where
  "mpn_get_str x86 get_str_big base up =
     (let un = length up
      in if un = 0 then Some (Inr [0])
         else if POW2_P base then
           case mp_bases base of None \<Rightarrow> None
           | Some (_, bits_per_digit) \<Rightarrow>
               let n1 = last up; bits = 64 * un - count_leading_zeros n1; cnt = bits mod bits_per_digit;
                   bits = (if cnt \<noteq> 0 then bits + (bits_per_digit - cnt) else bits)
               in map_option Inr
                    (pow2_digits bits_per_digit (int bits - int ((un - 1) * 64)) n1 (tl (rev up)) [])
         else if un < GET_STR_PRECOMPUTE_THRESHOLD then mpn_bc_get_str x86 base up
         else get_str_big base up)"

subsection \<open>The division, proved\<close>

lemma clz_normalized:
  assumes "2 ^ 63 \<le> unat d"
  shows "count_leading_zeros d = 0"
proof (rule ccontr)
  assume "count_leading_zeros d \<noteq> 0"
  then have "(2 :: nat) ^ 1 \<le> 2 ^ count_leading_zeros d" by (intro power_increasing) simp_all
  then have "2 * unat d \<le> 2 ^ count_leading_zeros d * unat d" by (intro mult_le_mono1) simp
  moreover have "(2 :: nat) ^ 64 = 2 * 2 ^ 63" by simp
  moreover have "d \<noteq> 0" using assms by auto
  ultimately show False using count_leading_zeros_val(3) [of d] assms by linarith
qed

text \<open>With the right inverse this is \<open>mpn_divrem_1\<close>.\<close>

lemma preinv_divrem_1_eq:
  assumes "d \<noteq> 0" and "ap \<noteq> []"
  shows "mpn_preinv_divrem_1 xsize ap d (invert_limb (push_bit (count_leading_zeros d) d)) (count_leading_zeros d) =
    mpn_divrem_1 xsize ap d"
proof -
  obtain us u where ap: "ap = us @ [u]" using assms(2) by (cases ap rule: rev_cases) auto
  have n: "length ap + xsize \<noteq> 0" by (simp add: ap)
  show ?thesis
  proof (cases "2 ^ 63 \<le> unat d")
    case True
    have "count_leading_zeros d = 0" by (rule clz_normalized [OF True])
    moreover have "u - (d AND - limb_of (d \<le> u)) = (if d \<le> u then u - d else u)" by (simp add: limb_of_def)
    moreover have "d AND GMP_LIMB_HIGHBIT \<noteq> 0" using True by (simp only: high_bit)
    ultimately show ?thesis
      unfolding mpn_preinv_divrem_1_def mpn_divrem_1_def if_not_P [OF n]
      by (simp add: ap Let_def limb_of_def split: prod.splits)
  next
    case False
    have c: "count_leading_zeros d \<noteq> 0" using count_leading_zeros_val(2) [OF assms(1)] False by (auto intro: ccontr)
    have "\<not> d AND GMP_LIMB_HIGHBIT \<noteq> 0" using False by (simp only: high_bit not_False_eq_True)
    moreover have "drop_bit (count_leading_zeros d) (push_bit (count_leading_zeros d) u) = u" if "u < d"
    proof -
      define c where "c = count_leading_zeros d"
      have k: "c < 64" "2 ^ c * unat d < 2 ^ 64" using count_leading_zeros_val [OF assms(1)] by (simp_all add: c_def)
      have "2 ^ c * unat u \<le> 2 ^ c * unat d" using that by (simp add: word_less_nat_alt)
      moreover have "(2 :: nat) ^ 64 = 2 ^ c * 2 ^ (64 - c)" using k(1) by (simp flip: power_add)
      ultimately have "2 ^ c * unat u < 2 ^ c * 2 ^ (64 - c)" using k(2) by linarith
      then have "unat u mod 2 ^ (64 - c) = unat u" by simp
      then have "unat (drop_bit c (push_bit c u)) = unat u" using unat_push [of c u] k(1) by (simp add: unat_drop)
      then show ?thesis by (simp only: c_def word_unat_eq_iff)
    qed
    ultimately show ?thesis using c
      unfolding mpn_preinv_divrem_1_def mpn_divrem_1_def if_not_P [OF n]
      by (cases "u < d") (auto simp: ap Let_def split: prod.splits list.splits)
  qed
qed

subsection \<open>The fractions\<close>

lemma digits_val_Cons: "digits_val b (d # ds) = d * b ^ length ds + digits_val b ds"
  using digits_val_app [of b "[d]" ds] digits_val_snoc [of b "[]" d] by simp

lemma unat_digit: "unat x < 256 \<Longrightarrow> unat (ucast (x :: limb) :: 8 word) = unat x"
  by (simp only: unsigned_ucast_eq) (simp add: take_bit_eq_mod)

lemma frac_digits_val:
  assumes "frac_digits base i frac = (s, frac')" and "0 < unat base" and "unat base \<le> 256"
  shows "length s = i \<and> digits_of (unat base) s \<and>
    2 ^ 64 * digits_val (unat base) (map unat s) + unat frac' = unat frac * unat base ^ i"
  using assms(1)
proof (induction i arbitrary: frac s)
  case (Suc i)
  obtain digit f where d: "umul_ppmm frac base = (digit, f)" by fastforce
  obtain s1 where s1: "frac_digits base i f = (s1, frac')" "s = ucast digit # s1"
    using Suc.prems d by (auto simp: split: prod.splits)
  note IH = Suc.IH [OF s1(1)]
  note v = umul_ppmm_val [OF d]
  have lt: "unat digit < unat base"
  proof -
    have "unat frac * unat base < 2 ^ 64 * unat base" using assms(2) unat_limb_less [of frac] by simp
    then have "2 ^ 64 * unat digit < 2 ^ 64 * unat base" using v by linarith
    then show ?thesis by simp
  qed
  then have u: "unat (ucast digit :: 8 word) = unat digit" using assms(3) by (intro unat_digit) simp
  have "2 ^ 64 * (unat digit * unat base ^ i + digits_val (unat base) (map unat s1)) + unat frac' =
      (2 ^ 64 * unat digit + unat f) * unat base ^ i"
    using IH by (simp add: algebra_simps)
  also have "\<dots> = unat frac * unat base ^ Suc i" using v by (simp add: ac_simps)
  finally show ?case using IH lt u by (simp add: s1(2) digits_val_Cons)
qed simp


lemma frac_digits_10_val:
  assumes "unat frac < 2 ^ 60"
  shows "length (frac_digits_10 i frac) = i \<and> digits_of 10 (frac_digits_10 i frac) \<and>
    (\<exists>r < 2 ^ 60. 2 ^ 60 * digits_val 10 (map unat (frac_digits_10 i frac)) + r = unat frac * 10 ^ i)"
  using assms
proof (induction i arbitrary: frac)
  case (Suc i)
  define f digit f' where "f = frac * 10" and "digit = drop_bit 60 f" and "f' = f AND drop_bit 4 (- 1)"
  have "unat frac * unat (10 :: limb) < 2 ^ 64" using Suc.prems by simp
  then have f: "unat f = unat frac * 10" unfolding f_def by (subst limb_mult_small) simp_all
  have digit: "unat digit = unat f div 2 ^ 60" by (simp add: digit_def unat_drop)
  have "drop_bit 4 (- 1) = (mask 60 :: limb)" by (rule bit_word_eqI) (auto simp: bit_drop_bit_eq bit_mask_iff)
  then have "f' = take_bit 60 f" by (simp add: f'_def take_bit_eq_mask)
  then have "unat f' = take_bit 60 (unat f)" by (simp only: unsigned_take_bit_eq)
  then have f': "unat f' = unat f mod 2 ^ 60" by (simp only: take_bit_eq_mod)
  have "unat digit < 10" unfolding digit f using Suc.prems by (intro less_mult_imp_div_less) simp
  then have u: "unat (ucast digit :: 8 word) = unat digit" by (intro unat_digit) simp
  have "unat f' < 2 ^ 60" unfolding f' by simp
  note IH = Suc.IH [OF this]
  obtain r where r: "r < 2 ^ 60" "2 ^ 60 * digits_val 10 (map unat (frac_digits_10 i f')) + r = unat f' * 10 ^ i"
    using IH by blast
  have s: "frac_digits_10 (Suc i) frac = ucast digit # frac_digits_10 i f'"
    by (simp add: Let_def f_def digit_def f'_def)
  have "2 ^ 60 * (unat digit * 10 ^ i + digits_val 10 (map unat (frac_digits_10 i f'))) + r = (2 ^ 60 * unat digit + unat f') * 10 ^ i"
    using r(2) by (simp add: algebra_simps)
  also have "2 ^ 60 * unat digit + unat f' = unat f" unfolding digit f' by (rule mult_div_mod_eq)
  finally have "2 ^ 60 * digits_val 10 (map unat (frac_digits_10 (Suc i) frac)) + r = unat frac * 10 ^ Suc i"
    using IH u unfolding s f by (simp add: digits_val_Cons)
  then show ?case using IH u \<open>unat digit < 10\<close> r(1) unfolding s by auto
qed (simp add: exI [of _ "unat frac" for frac])

lemma mp_bases_10: "mp_bases 10 = Some (19, 10000000000000000000)"
  by (simp add: mp_bases_def POW2_P_def generate_loop.simps)

text \<open>The digits of a chunk, from a fraction \<open>f / 2 ^ 64\<close>. After four digits the last four bits are 0.\<close>

lemma chunk_digits_10_val:
  "length (chunk_digits_10 0 19 frac) = 19 \<and> digits_of 10 (chunk_digits_10 0 19 frac) \<and>
    digits_val 10 (map unat (chunk_digits_10 0 19 frac)) = unat frac * 10 ^ 19 div 2 ^ 64"
proof -
  obtain s f where f: "frac_digits 10 4 frac = (s, f)" by fastforce
  have v: "length s = 4 \<and> digits_of 10 s \<and> 2 ^ 64 * digits_val 10 (map unat s) + unat f = unat frac * 10 ^ 4"
    using frac_digits_val [OF f] by simp
  define m where "m = unat f div 16"
  have "16 dvd unat frac * 10 ^ 4" "16 dvd 2 ^ 64 * digits_val 10 (map unat s)" by (simp_all add: dvd_mult dvd_mult2)
  then have "16 dvd unat f" using v by (metis dvd_add_right_iff)
  then have m: "unat f = 16 * m" by (simp add: m_def)
  have m60: "m < 2 ^ 60" using unat_limb_less [of f] m by simp
  have "unat (f + 0xf) = 16 * m + 15" using m m60 by (subst limb_add_small) simp_all
  then have g: "unat (drop_bit 4 (f + 0xf)) = m" by (simp add: unat_drop)
  obtain r where r: "r < 2 ^ 60" "length (frac_digits_10 15 (drop_bit 4 (f + 0xf))) = 15" "digits_of 10 (frac_digits_10 15 (drop_bit 4 (f + 0xf)))"
    "2 ^ 60 * digits_val 10 (map unat (frac_digits_10 15 (drop_bit 4 (f + 0xf)))) + r = m * 10 ^ 15"
    using frac_digits_10_val [of "drop_bit 4 (f + 0xf)" 15] m60 unfolding g by blast
  define A B where "A = digits_val 10 (map unat s)" and "B = digits_val 10 (map unat (frac_digits_10 15 (drop_bit 4 (f + 0xf))))"
  have c: "chunk_digits_10 0 19 frac = s @ frac_digits_10 15 (drop_bit 4 (f + 0xf))"
    by (simp add: chunk_digits_10_def f)
  have e: "unat frac * 10 ^ 4 = 2 ^ 64 * A + 16 * m" "m * 10 ^ 15 = 2 ^ 60 * B + r"
    using v r(4) m by (simp_all add: A_def B_def)
  have "unat frac * 10 ^ 19 = unat frac * 10 ^ 4 * 10 ^ 15" by simp
  also have "\<dots> = 2 ^ 64 * (A * 10 ^ 15) + 16 * (m * 10 ^ 15)" unfolding e(1) by simp
  also have "\<dots> = 2 ^ 64 * (A * 10 ^ 15 + B) + 16 * r" unfolding e(2) by simp
  finally have "unat frac * 10 ^ 19 = 2 ^ 64 * (A * 10 ^ 15 + B) + 16 * r" .
  moreover have "16 * r < 2 ^ 64" using r(1) by simp
  ultimately have "unat frac * 10 ^ 19 div 2 ^ 64 = A * 10 ^ 15 + B" by (simp only: div_mult_self4 div_less)
  then show ?thesis using v r(2,3) by (simp add: c digits_val_app A_def B_def)
qed

lemma chunk_digits_val:
  assumes "2 \<le> base" and "base \<le> 256" and "mp_bases base = Some (chars, big)"
    and "base = 10 \<longrightarrow> steps = 0"
  shows "length (chunk_digits x86 base steps chars frac) = chars \<and> digits_of base (chunk_digits x86 base steps chars frac) \<and>
    digits_val base (map unat (chunk_digits x86 base steps chars frac)) = unat frac * base ^ chars div 2 ^ 64"
proof (cases "base = 10 \<and> \<not> x86")
  case True
  then have "chars = 19" using assms(3) mp_bases_10 by simp
  then show ?thesis using True assms(4) chunk_digits_10_val by (simp add: chunk_digits_def)
next
  case False
  obtain s f where f: "frac_digits (of_nat base) chars frac = (s, f)" by fastforce
  have b: "unat (of_nat base :: limb) = base" using assms(2) by (simp add: unat_of_nat_limb)
  have v: "length s = chars \<and> digits_of base s \<and> 2 ^ 64 * digits_val base (map unat s) + unat f = unat frac * base ^ chars"
    using frac_digits_val [OF f] assms(1,2) unfolding b by simp
  have "(2 ^ 64 * digits_val base (map unat s) + unat f) div 2 ^ 64 = digits_val base (map unat s)"
    using unat_limb_less [of f] by (simp only: div_mult_self4 div_less)
  then show ?thesis using False v f by (auto simp: chunk_digits_def)
qed

subsection \<open>The table, proved\<close>

lemma ulog2_loop_add: "ulog2_loop x i = ulog2_loop x 0 + i"
proof (induction x arbitrary: i rule: less_induct)
  case (less x)
  show ?case
  proof (cases "x = 0")
    case False
    have s: "ulog2_loop x j = ulog2_loop (x div 2) 0 + (j + 1)" for j
      using False less.IH [of "x div 2" "j + 1"] by (subst ulog2_loop.simps) simp
    show ?thesis unfolding s [of i] s [of 0] by simp
  qed (simp add: ulog2_loop.simps)
qed

lemma ulog2_half: "x \<noteq> 0 \<Longrightarrow> ulog2 x = ulog2 (x div 2) + 1"
  using ulog2_loop.simps [of x 0] ulog2_loop_add [of "x div 2" 1] by (simp add: ulog2_def)

lemma ulog2_bounds: "x < 2 ^ ulog2 x \<and> (x \<noteq> 0 \<longrightarrow> 2 ^ ulog2 x \<le> 2 * x)"
proof (induction x rule: less_induct)
  case (less x)
  show ?case
  proof (cases "x \<le> 1")
    case True
    then consider "x = 0" | "x = 1" by linarith
    then show ?thesis by cases (simp_all add: ulog2_def ulog2_loop.simps)
  next
    case False
    then have "x div 2 < 2 ^ ulog2 (x div 2)" "2 ^ ulog2 (x div 2) \<le> 2 * (x div 2)" using less.IH [of "x div 2"] by auto
    moreover have "(2 :: nat) ^ ulog2 x = 2 * 2 ^ ulog2 (x div 2)" using False by (subst ulog2_half) simp_all
    ultimately show ?thesis by linarith
  qed
qed

text \<open>The table has the count of leading zeros and the inverse that the division wants.\<close>

lemma steps_val:
  assumes "0 < big" and "big < 2 ^ 64"
  shows "mp_normalization_steps big = count_leading_zeros (of_nat big)"
proof -
  define u c where "u = ulog2 big" and "c = count_leading_zeros (of_nat big)"
  have b: "unat (of_nat big :: limb) = big" using assms(2) by (rule unat_of_nat_limb)
  then have "(of_nat big :: limb) \<noteq> 0" using assms(1) by (metis not_less_zero unat_0)
  from count_leading_zeros_val [OF this] have c: "c < 64" "2 ^ 63 \<le> 2 ^ c * big" "2 ^ c * big < 2 ^ 64"
    unfolding b c_def by simp_all
  have u: "big < 2 ^ u" "2 ^ u \<le> 2 * big" using ulog2_bounds [of big] assms(1) by (simp_all add: u_def)
  have "2 ^ c * big < 2 ^ c * 2 ^ u" using u(1) by simp
  with c(2) have "2 ^ 63 < 2 ^ c * (2 :: nat) ^ u" by (rule le_less_trans)
  then have "(2 :: nat) ^ 63 < 2 ^ (c + u)" by (simp only: power_add)
  then have "63 < c + u" by (rule power_less_imp_less_exp [rotated]) simp
  moreover have "2 ^ c * 2 ^ u \<le> 2 * (2 ^ c * big)" using u(2) mult_le_mono2 [of "2 ^ u" "2 * big" "2 ^ c"] by simp
  then have "2 ^ c * 2 ^ u < 2 * (2 :: nat) ^ 64" using c(3) by linarith
  then have "(2 :: nat) ^ (c + u) < 2 ^ 65" by (simp add: power_add)
  then have "c + u < 65" by (rule power_less_imp_less_exp [rotated]) simp
  ultimately show ?thesis using c(1) by (simp add: mp_normalization_steps_def u_def c_def)
qed

lemma inverse_unique:
  assumes "2 ^ 63 \<le> unat d" and "unat v < 2 ^ 64" and "2 ^ 128 - unat d \<le> (2 ^ 64 + unat v) * unat d" and "(2 ^ 64 + unat v) * unat d < 2 ^ 128"
  shows "v = invert_limb d"
proof -
  have "is_inverse d (invert_limb d)" by (rule invert_limb_val [OF assms(1)])
  then have i: "limb_base * limb_base - uint d \<le> (limb_base + uint (invert_limb d)) * uint d"
    "(limb_base + uint (invert_limb d)) * uint d < limb_base * limb_base" by (simp_all add: is_inverse_def inverse_of_def)
  define D V W where "D = uint d" and "V = uint v" and "W = uint (invert_limb d)"
  have int: "int (unat d) = D" "int (unat v) = V" by (simp_all add: D_def V_def)
  have "int (2 ^ 128 - unat d) \<le> int ((2 ^ 64 + unat v) * unat d)" using assms(3) by (simp only: of_nat_le_iff)
  moreover have "int (2 ^ 128 - unat d) = 2 ^ 128 - D" using unat_limb_less [of d] by (simp add: D_def of_nat_diff)
  ultimately have a: "2 ^ 128 - D \<le> (2 ^ 64 + V) * D" by (simp add: D_def V_def)
  have "int ((2 ^ 64 + unat v) * unat d) < int (2 ^ 128)" using assms(4) by (simp only: of_nat_less_iff)
  then have b: "(2 ^ 64 + V) * D < 2 ^ 128" by (simp add: D_def V_def)
  have i': "2 ^ 128 - D \<le> (2 ^ 64 + W) * D" "(2 ^ 64 + W) * D < 2 ^ 128"
    using i by (simp_all add: limb_base_def D_def W_def)
  have "0 < unat d" by (rule less_le_trans [OF _ assms(1)]) simp
  then have "0 < D" using int(1) by linarith
  have "(2 ^ 64 + V) * D < (2 ^ 64 + W + 1) * D" using b i'(1) by (simp add: algebra_simps)
  then have "V < W + 1" using \<open>0 < D\<close> by simp
  moreover have "(2 ^ 64 + W) * D < (2 ^ 64 + V + 1) * D" using a i'(2) by (simp add: algebra_simps)
  then have "W < V + 1" using \<open>0 < D\<close> by simp
  ultimately have "V = W" by simp
  then show ?thesis by (simp only: V_def W_def word_uint_eq_iff)
qed

lemma unset_top:
  assumes "2 ^ k \<le> q" and "q < 2 ^ Suc k"
  shows "unset_bit k q = q - (2 ^ k :: nat)"
proof -
  have "unset_bit k q = take_bit k q"
  proof (rule bit_eqI)
    fix n
    have "\<not> bit q n" if "k < n"
    proof -
      have "(2 :: nat) ^ Suc k \<le> 2 ^ n" using that by (intro power_increasing) simp_all
      then have "q div 2 ^ n = 0" using assms(2) by simp
      then show ?thesis by (simp add: bit_iff_odd)
    qed
    then show "bit (unset_bit k q) n \<longleftrightarrow> bit (take_bit k q) n"
      by (cases n k rule: linorder_cases) (auto simp: bit_unset_bit_iff bit_take_bit_iff)
  qed
  also have "\<dots> = q - 2 ^ k"
  proof -
    have "q div 2 ^ k = 1" using assms by (intro div_nat_eqI) simp_all
    then show ?thesis using minus_mult_div_eq_mod [of q "2 ^ k"] by (simp add: take_bit_eq_mod)
  qed
  finally show ?thesis .
qed

lemma not_power_of_2:
  assumes "\<not> POW2_P base" and "1 \<le> chars"
  shows "\<not> base ^ chars dvd 2 ^ k"
proof
  assume "base ^ chars dvd 2 ^ k"
  then have "base dvd 2 ^ k" using assms(2) dvd_power [of chars base] by (meson dvd_trans less_le_trans zero_less_one)
  then show False using dvd_power_of_2 assms(1) POW2_P_power by blast
qed

lemma inverted_val:
  assumes "1 < big" and "big < 2 ^ 64" and "\<And>k. \<not> big dvd 2 ^ k"
  shows "of_nat (mp_big_base_inverted big) = invert_limb (push_bit (count_leading_zeros (of_nat big)) (of_nat big))"
proof -
  define c d D q where "c = count_leading_zeros (of_nat big)" and "d = push_bit c (of_nat big :: limb)" and "D = 2 ^ c * big"
    and "q = 2 ^ (128 - c) div big"
  have b: "unat (of_nat big :: limb) = big" using assms(2) by (rule unat_of_nat_limb)
  then have "(of_nat big :: limb) \<noteq> 0" using assms(1) by (metis less_one not_less_zero unat_0)
  from count_leading_zeros_val [OF this] have c: "c < 64" "2 ^ 63 \<le> D" "D < 2 ^ 64" unfolding b c_def D_def by simp_all
  have d: "unat d = D"
  proof -
    have "(2 :: nat) ^ 64 = 2 ^ c * 2 ^ (64 - c)" using c(1) by (simp flip: power_add)
    then have "2 ^ c * big < 2 ^ c * 2 ^ (64 - c)" using c(3) by (simp only: D_def)
    then have "big mod 2 ^ (64 - c) = big" by simp
    then show ?thesis using unat_push [of c "of_nat big"] c(1) b by (simp add: d_def D_def mult.commute)
  qed
  have p: "(2 :: nat) ^ 128 = 2 ^ c * 2 ^ (128 - c)" using c(1) by (simp flip: power_add)
  have big0: "0 < big" using assms(1) by simp
  have "q * big \<le> 2 ^ (128 - c)" by (simp add: q_def)
  then have "2 ^ c * (q * big) \<le> 2 ^ c * 2 ^ (128 - c)" by (rule mult_le_mono2)
  then have q1: "q * D \<le> 2 ^ 128" unfolding p by (simp only: D_def ac_simps)
  have "q * D \<noteq> 2 ^ 128"
  proof
    assume "q * D = 2 ^ 128"
    then have "2 ^ 128 = big * (q * 2 ^ c)" by (simp only: D_def ac_simps)
    then show False using assms(3) [of 128] by (metis dvd_triv_left)
  qed
  with q1 have q2: "q * D < 2 ^ 128" by simp
  have "2 ^ (128 - c) < (q + 1) * big"
    using big0 dividend_less_div_times [of big "2 ^ (128 - c)"] by (simp add: q_def algebra_simps)
  then have "2 ^ c * 2 ^ (128 - c) < 2 ^ c * ((q + 1) * big)" by simp
  then have q3: "2 ^ 128 < q * D + D" unfolding p by (simp add: D_def algebra_simps)
  have "2 ^ 64 \<le> q"
  proof (rule ccontr)
    assume "\<not> 2 ^ 64 \<le> q"
    then have "(q + 1) * D \<le> 2 ^ 64 * 2 ^ 64" using c(3) by (intro mult_le_mono) simp_all
    then show False using q3 by simp
  qed
  moreover have "q < 2 ^ 65"
  proof (rule ccontr)
    assume "\<not> q < 2 ^ 65"
    then have "2 ^ 65 * 2 ^ 63 \<le> q * D" using c(2) by (intro mult_le_mono) simp_all
    then show False using q2 by simp
  qed
  ultimately have u: "unset_bit 64 q = q - 2 ^ 64" using unset_top [of 64 q] by simp
  have "mp_big_base_inverted big = q - 2 ^ 64"
    unfolding mp_big_base_inverted_def Let_def steps_val [OF big0 assms(2)] u [symmetric] by (simp add: q_def c_def)
  moreover have "q - 2 ^ 64 < 2 ^ 64" using \<open>q < 2 ^ 65\<close> by simp
  ultimately have v: "unat (of_nat (mp_big_base_inverted big) :: limb) = q - 2 ^ 64" by (simp add: unat_of_nat_limb)
  have "of_nat (mp_big_base_inverted big) = invert_limb d"
  proof (rule inverse_unique)
    have e: "2 ^ 64 + (q - 2 ^ 64) = q" using \<open>2 ^ 64 \<le> q\<close> by simp
    show "2 ^ 128 - unat d \<le> (2 ^ 64 + unat (of_nat (mp_big_base_inverted big) :: limb)) * unat d"
      "(2 ^ 64 + unat (of_nat (mp_big_base_inverted big) :: limb)) * unat d < 2 ^ 128"
      unfolding v d e using q2 q3 by simp_all
  qed (use c(2) d unat_limb_less in simp_all)
  then show ?thesis by (simp only: d_def c_def)
qed

subsection \<open>Digits\<close>

text \<open>Digits without a leading zero are the digits of their number.\<close>

lemma digits_be_val:
  assumes "2 \<le> b" and "list_all (\<lambda>d. d < b) ds" and "ds \<noteq> []" and "hd ds \<noteq> 0"
  shows "digits_be b (digits_val b ds) = ds"
  using assms(2-4)
proof (induction ds rule: rev_induct)
  case (snoc d ds)
  show ?case
  proof (cases "ds = []")
    case True
    then show ?thesis using snoc.prems(1) by (simp add: digits_be.simps digits_val_def)
  next
    case False
    then have IH: "digits_be b (digits_val b ds) = ds" using snoc by simp
    obtain e es where ds: "ds = e # es" "e \<noteq> 0" using False snoc.prems(3) by (cases ds) auto
    have "0 < e * b ^ length es" using ds(2) assms(1) by simp
    then have "0 < digits_val b ds" unfolding ds(1) digits_val_Cons by (rule trans_less_add1)
    then have "1 \<le> digits_val b ds" by simp
    then have "1 * b \<le> digits_val b ds * b" by (rule mult_le_mono1)
    then have "b \<le> digits_val b (ds @ [d])" unfolding digits_val_snoc by linarith
    then have "\<not> (b < 2 \<or> digits_val b (ds @ [d]) < b)" using assms(1) by simp
    moreover have d: "d < b" using snoc.prems(1) by simp
    then have "digits_val b (ds @ [d]) div b = digits_val b ds" "digits_val b (ds @ [d]) mod b = d"
      using d by (simp_all add: digits_val_snoc)
    ultimately show ?thesis using IH by (subst digits_be.simps) simp
  qed
qed simp

text \<open>What is left below a limb.\<close>

lemma limb_digits_val:
  assumes "unat base = b" and "2 \<le> b" and "b \<le> 256"
  shows "\<exists>s'. limb_digits base ul s = Some (s' @ s) \<and> digits_of b s' \<and> digits_val b (map unat s') = unat ul \<and>
    (ul \<noteq> 0 \<longrightarrow> s' \<noteq> [] \<and> hd s' \<noteq> 0)"
proof (induction "unat ul" arbitrary: ul s rule: less_induct)
  case less
  show ?case
  proof (cases "ul = 0")
    case True
    then show ?thesis by (simp add: limb_digits.simps)
  next
    case False
    define q rl where "q = ul div base" and "rl = ul - q * base"
    have pos: "0 < unat ul" using False by (simp add: unat_gt_0)
    have q: "unat q = unat ul div b" by (simp add: q_def unat_div assms(1))
    have qb: "unat q * b \<le> unat ul" by (simp add: q)
    then have "unat (q * base) = unat q * b" using unat_limb_less [of ul] by (subst limb_mult_small) (simp_all add: assms(1))
    then have rl: "unat rl = unat ul mod b" using limb_sub [of ul "q * base"] qb
      by (simp add: rl_def word_le_nat_alt unat_sub q minus_div_mult_eq_mod)
    have "unat ul mod b < b" using assms(2) by simp
    then have c: "unat (ucast rl :: 8 word) = unat ul mod b" using assms(3) rl unat_digit [of rl] by simp
    have lt: "unat q < unat ul" unfolding q using pos assms(2) by simp
    from less [OF lt, of "ucast rl # s"] obtain s' where
      s': "limb_digits base q (ucast rl # s) = Some (s' @ ucast rl # s)" "digits_of b s'" "digits_val b (map unat s') = unat q"
      "q \<noteq> 0 \<longrightarrow> s' \<noteq> [] \<and> hd s' \<noteq> 0" by blast
    have "limb_digits base ul s = Some ((s' @ [ucast rl]) @ s)"
      using s'(1) False by (subst limb_digits.simps) (simp add: Let_def q_def rl_def)
    moreover have "digits_of b (s' @ [ucast rl])" using s'(2) c \<open>unat ul mod b < b\<close> by simp
    moreover have "digits_val b (map unat (s' @ [ucast rl])) = unat ul"
      using s'(3) by (simp add: digits_val_snoc c q)
    moreover have "s' @ [ucast rl] \<noteq> [] \<and> hd (s' @ [ucast rl]) \<noteq> 0"
    proof (cases "q = 0")
      case True
      then have "unat ul div b = 0" using q by simp
      then have "unat ul mod b = unat ul" using div_mult_mod_eq [of "unat ul" b] by simp
      then have "ucast rl \<noteq> (0 :: 8 word)" using c pos by (metis less_not_refl unat_0)
      moreover have "s' = []" using s'(1) True by (simp add: limb_digits.simps)
      ultimately show ?thesis by simp
    next
      case False
      then show ?thesis using s'(4) by simp
    qed
    ultimately show ?thesis by blast
  qed
qed

text \<open>One division of the loop: the fraction of the remainder plus one, and the quotient without a zero on top.\<close>

lemma get_step:
  assumes up: "1 < length up" "last up \<noteq> 0" and big: "1 < big" "big < 2 ^ 64" "\<And>k. \<not> big dvd 2 ^ k"
    and steps: "steps = count_leading_zeros (of_nat big)"
    and r: "mpn_preinv_divrem_1 1 up (of_nat big) (of_nat (mp_big_base_inverted big)) steps = (rp, r)"
  shows "unat (hd rp + 1) * big div 2 ^ 64 = limbs_val up mod big"
    and "limbs_val (if last (tl rp) = 0 then butlast (tl rp) else tl rp) = limbs_val up div big"
    and "(if last (tl rp) = 0 then butlast (tl rp) else tl rp) \<noteq> []"
    and "last (if last (tl rp) = 0 then butlast (tl rp) else tl rp) \<noteq> 0"
proof -
  define V where "V = limbs_val up"
  have b: "unat (of_nat big :: limb) = big" using big(2) by (rule unat_of_nat_limb)
  then have nz: "(of_nat big :: limb) \<noteq> 0" using big(1) by (metis less_one not_less_zero unat_0)
  have "up \<noteq> []" using up(1) by auto
  from preinv_divrem_1_eq [OF nz this, of 1] r have "mpn_divrem_1 1 up (of_nat big) = (rp, r)"
    unfolding steps inverted_val [OF big] by simp
  from mpn_divrem_1_val [OF nz this] have v: "length rp = Suc (length up)" "unat r < big" "2 ^ 64 * V = limbs_val rp * big + unat r"
    by (simp_all add: V_def b)
  obtain f qp where rp: "rp = f # qp" "length qp = length up" using v(1) by (cases rp) auto
  define Q where "Q = limbs_val qp"
  have e: "2 ^ 64 * V = (unat f + 2 ^ 64 * Q) * big + unat r" using v(3) by (simp add: rp Q_def)
  define m where "m = V - Q * big"
  have le: "Q * big \<le> V"
  proof -
    have "2 ^ 64 * (Q * big) \<le> 2 ^ 64 * V" unfolding e by (simp add: algebra_simps)
    then show ?thesis by simp
  qed
  then have "V = Q * big + m" by (simp add: m_def)
  then have m: "2 ^ 64 * m = unat f * big + unat r" using e by (simp add: algebra_simps)
  have "unat f * big + unat r < (unat f + 1) * big" using v(2) by simp
  also have "\<dots> \<le> 2 ^ 64 * big" using unat_limb_less [of f] by (intro mult_le_mono1) simp
  finally have "m < big" using m by simp
  then have Q: "Q = V div big" "V mod big = m" using \<open>V = Q * big + m\<close> by simp_all
  have f1: "unat (f + 1) = unat f + 1"
  proof (rule ccontr)
    assume "unat (f + 1) \<noteq> unat f + 1"
    then have "unat f = 2 ^ 64 - 1" using limb_add_small [of f 1] unat_limb_less [of f] by fastforce
    then have "2 ^ 64 * m = (2 ^ 64 - 1) * big + unat r" using m by simp
    moreover have "(2 ^ 64 - 1) * big = 2 ^ 64 * big - big" by (simp add: diff_mult_distrib)
    moreover have "2 ^ 64 * (m + 1) \<le> 2 ^ 64 * big" using \<open>m < big\<close> by (intro mult_le_mono2) simp
    ultimately show False using big(2) by simp
  qed
  have "2 ^ 64 * m \<le> (unat f + 1) * big" "(unat f + 1) * big < 2 ^ 64 * (m + 1)"
    using m v(2) big(2) by simp_all
  then have "(unat f + 1) * big div 2 ^ 64 = m" by (intro div_nat_eqI) (simp_all add: ac_simps)
  then show "unat (hd rp + 1) * big div 2 ^ 64 = limbs_val up mod big" using f1 Q(2) by (simp add: rp V_def)
  obtain n where n: "length qp = Suc (Suc n)" using rp(2) up(1) by (metis One_nat_def less_imp_Suc_add plus_1_eq_Suc add_Suc)
  have bl: "limbs_val (butlast qp) = Q" if l: "last qp = 0"
  proof -
    have "qp \<noteq> []" using n by auto
    then have "qp = butlast qp @ [0]" using append_butlast_last_id [of qp] l by metis
    then have "limbs_val qp = limbs_val (butlast qp @ [0])" by (rule arg_cong)
    then show ?thesis by (simp add: Q_def limbs_val_append)
  qed
  have "2 ^ (64 * (length up - 1)) \<le> V" using limbs_top [OF \<open>up \<noteq> []\<close> up(2)] by (simp only: V_def)
  moreover have "64 * (length up - 1) = 64 * n + 64" using n rp(2) by simp
  ultimately have "2 ^ (64 * n) * 2 ^ 64 \<le> V" by (simp only: power_add)
  moreover have "2 ^ (64 * n) * big \<le> 2 ^ (64 * n) * 2 ^ 64" using big(2) by (intro mult_le_mono2) simp
  ultimately have "2 ^ (64 * n) * big \<le> V" by linarith
  then have top: "2 ^ (64 * n) \<le> Q" unfolding Q(1) using big(1) by (simp add: less_eq_div_iff_mult_less_eq)
  show "limbs_val (if last (tl rp) = 0 then butlast (tl rp) else tl rp) = limbs_val up div big"
    using bl Q(1) by (simp add: rp Q_def V_def)
  have "last (butlast qp) \<noteq> 0" if "last qp = 0"
    by (rule limbs_top_nonzero [THEN conjunct2]) (use bl [OF that] top n in simp)
  then show "last (if last (tl rp) = 0 then butlast (tl rp) else tl rp) \<noteq> 0" by (simp add: rp)
  show "(if last (tl rp) = 0 then butlast (tl rp) else tl rp) \<noteq> []" using n by (cases qp rule: rev_cases) (auto simp: rp)
qed

lemma steps_10: "count_leading_zeros (of_nat 10000000000000000000) = 0"
  by (rule clz_normalized) (subst unat_of_nat_limb, simp_all)

text \<open>The whole loop.\<close>

lemma get_loop_val:
  assumes base: "2 \<le> base" "base \<le> 256" "\<not> POW2_P base" and mp: "mp_bases base = Some (chars, big)"
    and steps: "steps = count_leading_zeros (of_nat big)"
  shows "up \<noteq> [] \<Longrightarrow> last up \<noteq> 0 \<Longrightarrow>
    \<exists>ul s'. get_loop (chunk_digits x86 base steps chars) (of_nat big) (of_nat (mp_big_base_inverted big)) steps up s =
        Some ([ul], s' @ s) \<and>
      ul \<noteq> 0 \<and> digits_of base s' \<and> limbs_val up = unat ul * base ^ length s' + digits_val base (map unat s')"
proof (induction "limbs_val up" arbitrary: up s rule: less_induct)
  case less
  have t: "big = base ^ chars" "1 \<le> chars" "big < 2 ^ 64" using mp_bases_val [OF base(1,2)] base(3) mp by auto
  have "base ^ 1 \<le> base ^ chars" using t(2) base(1) by (intro power_increasing) simp_all
  then have big1: "1 < big" using t(1) base(1) by simp
  have nd: "\<not> big dvd 2 ^ k" for k unfolding t(1) by (rule not_power_of_2 [OF base(3) t(2)])
  show ?case
  proof (cases "1 < length up")
    case False
    then obtain ul where "up = [ul]" using less.prems(1) by (cases up) auto
    then show ?thesis using less.prems(2) by (simp add: get_loop.simps)
  next
    case True
    obtain rp r where r: "mpn_preinv_divrem_1 1 up (of_nat big) (of_nat (mp_big_base_inverted big)) steps = (rp, r)" by fastforce
    define up' where "up' = (if last (tl rp) = 0 then butlast (tl rp) else tl rp)"
    note step = get_step [OF True less.prems(2) big1 t(3) nd steps r, folded up'_def]
    define c where "c = chunk_digits x86 base steps chars (hd rp + 1)"
    have st: "base = 10 \<longrightarrow> steps = 0" using mp mp_bases_10 steps_10 steps by auto
    have c: "length c = chars" "digits_of base c" "digits_val base (map unat c) = limbs_val up mod big"
      using chunk_digits_val [OF base(1,2) mp st, of x86 "hd rp + 1"] step(1) by (simp_all add: c_def t(1))
    have "0 < limbs_val up"
      by (rule less_le_trans [OF _ limbs_top [OF less.prems]]) simp
    then have lt: "limbs_val up' < limbs_val up" unfolding step(2) using big1 by simp
    from less.hyps [OF lt step(3,4), of "c @ s"] obtain ul s' where
      IH: "get_loop (chunk_digits x86 base steps chars) (of_nat big) (of_nat (mp_big_base_inverted big)) steps up' (c @ s) = Some ([ul], s' @ c @ s)"
      "ul \<noteq> 0" "digits_of base s'" "limbs_val up' = unat ul * base ^ length s' + digits_val base (map unat s')" by blast
    have "get_loop (chunk_digits x86 base steps chars) (of_nat big) (of_nat (mp_big_base_inverted big)) steps up s = Some ([ul], (s' @ c) @ s)"
      using IH(1) True r by (subst get_loop.simps) (simp add: Let_def up'_def c_def)
    moreover have "limbs_val up = unat ul * base ^ length (s' @ c) + digits_val base (map unat (s' @ c))"
    proof -
      have "limbs_val up = limbs_val up' * big + digits_val base (map unat c)"
        unfolding step(2) c(3) by (rule div_mult_mod_eq [symmetric])
      then show ?thesis unfolding IH(4) t(1) by (simp add: digits_val_app c(1) power_add algebra_simps)
    qed
    moreover have "digits_of base (s' @ c)" using IH(3) c(2) by simp
    ultimately show ?thesis using IH(2) by blast
  qed
qed

lemma mpn_bc_get_str_val:
  assumes base: "2 \<le> base" "base \<le> 256" "\<not> POW2_P base" and up: "up \<noteq> []" "last up \<noteq> 0" "length up < 35"
  shows "\<exists>s. mpn_bc_get_str x86 base up = Some (Inr s) \<and> digits_of base s \<and> s \<noteq> [] \<and> hd s \<noteq> 0 \<and>
    digits_val base (map unat s) = limbs_val up"
proof -
  obtain chars big where mp: "mp_bases base = Some (chars, big)" and t: "big = base ^ chars" "1 \<le> chars" "big < 2 ^ 64"
    using mp_bases_val [OF base(1,2)] base(3) by auto
  have "0 < big" using t(1) base(1) by simp
  define steps where "steps = (if base = 10 then mp_normalization_steps big else count_leading_zeros (of_nat big))"
  have steps: "steps = count_leading_zeros (of_nat big)" using steps_val [OF \<open>0 < big\<close> t(3)] by (simp add: steps_def)
  obtain ul s' where l: "get_loop (chunk_digits x86 base steps chars) (of_nat big) (of_nat (mp_big_base_inverted big)) steps up [] = Some ([ul], s')"
    "ul \<noteq> 0" "digits_of base s'" "limbs_val up = unat ul * base ^ length s' + digits_val base (map unat s')"
    using get_loop_val [OF base mp steps up(1,2), of x86 "[]"] by auto
  have "unat (of_nat base :: limb) = base" using base(2) by (simp add: unat_of_nat_limb)
  from limb_digits_val [OF this base(1,2), of ul s'] l(2) obtain s0 where
    d: "limb_digits (of_nat base) ul s' = Some (s0 @ s')" "digits_of base s0" "digits_val base (map unat s0) = unat ul" "s0 \<noteq> []" "hd s0 \<noteq> 0"
    by auto
  define s where "s = s0 @ s'"
  have v: "digits_val base (map unat s) = limbs_val up" using d(3) l(4) by (simp add: s_def digits_val_app)
  obtain e es where s: "s = e # es" "e \<noteq> 0" using d(4,5) by (cases s0) (auto simp: s_def)
  have "length s \<le> BUF_ALLOC"
  proof (rule ccontr)
    assume "\<not> length s \<le> BUF_ALLOC"
    then have "1425 \<le> length es" by (simp add: s BUF_ALLOC_def GET_STR_PRECOMPUTE_THRESHOLD_def)
    have "base \<noteq> 2" using base(3) POW2_P_power [of 1] by auto
    then have "3 \<le> base" using base(1) by simp
    have "(2 :: nat) ^ (64 * 34) \<le> 2 ^ (19 * 118)" by (intro power_increasing) simp_all
    also have "\<dots> \<le> (3 ^ 12) ^ 118" unfolding power_mult by (intro power_mono) simp_all
    also have "\<dots> \<le> (3 :: nat) ^ 1425" unfolding power_mult [symmetric] by (intro power_increasing) simp_all
    also have "\<dots> \<le> base ^ 1425" using \<open>3 \<le> base\<close> by (rule power_mono) simp
    also have "\<dots> \<le> base ^ length es" using \<open>1425 \<le> length es\<close> base(1) by (intro power_increasing) simp_all
    also have "\<dots> \<le> limbs_val up" using digits_val_lead [OF s, of base] v by simp
    also have "\<dots> < 2 ^ (64 * length up)" by (rule limbs_val_bound)
    also have "\<dots> \<le> 2 ^ (64 * 34)" using up(3) by (intro power_increasing) simp_all
    finally show False by (simp only: less_irrefl)
  qed
  then have "mpn_bc_get_str x86 base up = Some (Inr s)"
    using mp l(1) d(1) by (simp add: mpn_bc_get_str_def Let_def s_def flip: steps_def)
  moreover have "digits_of base s" using d(2) l(3) by (simp add: s_def)
  ultimately show ?thesis using v s by auto
qed

subsection \<open>Powers of two, proved\<close>

lemma and_mask_val: "b < 64 \<Longrightarrow> unat (x AND (push_bit b 1 - 1) :: limb) = unat x mod 2 ^ b"
proof -
  have "push_bit b 1 - 1 = (mask b :: limb)" by (simp add: mask_eq_exp_minus_1 push_bit_eq_mult)
  then have "x AND (push_bit b 1 - 1) = take_bit b x" by (simp add: take_bit_eq_mask)
  then have "unat (x AND (push_bit b 1 - 1)) = take_bit b (unat x)" by (simp only: unsigned_take_bit_eq)
  then show ?thesis by (simp only: take_bit_eq_mod)
qed

lemma pow2_limb_val:
  assumes b: "1 \<le> b" "b \<le> 8" and W: "W = H * 2 ^ 64 + unat n1"
  shows "digits_of (2 ^ b) s \<Longrightarrow> digits_val (2 ^ b) (map unat s) = W div 2 ^ p \<Longrightarrow> p \<le> 64 \<or> H = 0 \<Longrightarrow>
    \<exists>t s'. pow2_limb b n1 (int p - int b) s = Some (int t - int b, s') \<and> t < b \<and> digits_of (2 ^ b) s' \<and>
      digits_val (2 ^ b) (map unat s') = W div 2 ^ t \<and> b * length s' + t = b * length s + p"
proof (induction p arbitrary: s rule: less_induct)
  case (less p)
  show ?case
  proof (cases "p < b")
    case True
    then show ?thesis using less.prems by (intro exI [of _ p] exI [of _ s]) (simp add: pow2_limb.simps)
  next
    case False
    define q where "q = p - b"
    have q: "p = q + b" "q < p" using False b(1) by (simp_all add: q_def)
    define digit where "digit = drop_bit q n1 AND (push_bit b 1 - 1)"
    have dv: "unat digit = W div 2 ^ q mod 2 ^ b"
    proof -
      have "b < 64" using b(2) by simp
      then have "unat digit = unat n1 div 2 ^ q mod 2 ^ b" unfolding digit_def by (simp only: and_mask_val unat_drop)
      moreover have "W div 2 ^ q mod 2 ^ b = unat n1 div 2 ^ q mod 2 ^ b"
      proof (cases "H = 0")
        case False
        then have "q + b \<le> 64" using less.prems(3) q(1) by simp
        then obtain k where k: "64 = q + (b + k)" by (metis le_Suc_ex add.assoc)
        have "W = unat n1 + 2 ^ q * (2 ^ b * (2 ^ k * H))" unfolding W k by (simp add: power_add)
        then show ?thesis by (simp add: div_mult_self2)
      qed (simp add: W)
      ultimately show ?thesis by simp
    qed
    have lt: "unat digit < 2 ^ b" unfolding dv by simp
    have "(2 :: nat) ^ b \<le> 2 ^ 8" using b(2) by (intro power_increasing) simp_all
    then have u: "unat (ucast digit :: 8 word) = unat digit" using lt by (intro unat_digit) simp
    have "digits_val (2 ^ b) (map unat (s @ [ucast digit])) = W div 2 ^ q"
    proof -
      have "W div 2 ^ p = W div 2 ^ q div 2 ^ b" by (simp add: q(1) power_add div_mult2_eq)
      then show ?thesis
        using less.prems(2) u dv div_mult_mod_eq [of "W div 2 ^ q" "2 ^ b"] by (simp add: digits_val_snoc)
    qed
    moreover have "digits_of (2 ^ b) (s @ [ucast digit])" using less.prems(1) lt u by simp
    moreover have "q \<le> 64 \<or> H = 0" using less.prems(3) q(2) by auto
    ultimately obtain t s' where IH: "pow2_limb b n1 (int q - int b) (s @ [ucast digit]) = Some (int t - int b, s')" "t < b"
      "digits_of (2 ^ b) s'" "digits_val (2 ^ b) (map unat s') = W div 2 ^ t" "b * length s' + t = b * length (s @ [ucast digit]) + q"
      using less.IH [OF q(2), of "s @ [ucast digit]"] by blast
    have i: "int p - int b = int q" by (simp add: q(1))
    have "pow2_limb b n1 (int p - int b) s = Some (int t - int b, s')"
      unfolding i using IH(1) by (subst pow2_limb.simps) (simp add: digit_def)
    then show ?thesis using IH(2-5) q(1) by (intro exI [of _ t] exI [of _ s']) (simp add: algebra_simps)
  qed
qed

lemma pow2_digits_val:
  assumes b: "1 \<le> b" "b \<le> 8"
  shows "W = H * 2 ^ 64 + unat n1 \<Longrightarrow> digits_of (2 ^ b) s \<Longrightarrow> digits_val (2 ^ b) (map unat s) = W div 2 ^ p \<Longrightarrow>
    p \<le> 64 \<or> H = 0 \<Longrightarrow> b dvd p + 64 * length up \<Longrightarrow>
    \<exists>s'. pow2_digits b (int p) n1 up s = Some s' \<and> digits_of (2 ^ b) s' \<and>
      digits_val (2 ^ b) (map unat s') = W * 2 ^ (64 * length up) + limbs_val (rev up) \<and>
      b * length s' = b * length s + p + 64 * length up"
proof (induction up arbitrary: W H n1 s p)
  case Nil
  obtain t s' where l: "pow2_limb b n1 (int p - int b) s = Some (int t - int b, s')" "t < b" "digits_of (2 ^ b) s'"
    "digits_val (2 ^ b) (map unat s') = W div 2 ^ t" "b * length s' + t = b * length s + p"
    using pow2_limb_val [OF b Nil.prems(1-4)] by blast
  have "b dvd b * length s' + t" unfolding l(5) using Nil.prems(5) by simp
  then have "b dvd t" by (simp add: dvd_add_right_iff)
  then have "t = 0" using l(2) by (auto dest: dvd_imp_le)
  then show ?case using l by (simp add: pow2_digits.simps)
next
  case (Cons n1' up)
  obtain t s' where l: "pow2_limb b n1 (int p - int b) s = Some (int t - int b, s')" "t < b" "digits_of (2 ^ b) s'"
    "digits_val (2 ^ b) (map unat s') = W div 2 ^ t" "b * length s' + t = b * length s + p"
    using pow2_limb_val [OF b Cons.prems(1-4)] by blast
  define r p' W' where "r = b - t" and "p' = 64 - r" and "W' = W * 2 ^ 64 + unat n1'"
  have r: "b = t + r" "1 \<le> r" "r \<le> 8" using l(2) b by (simp_all add: r_def)
  have p': "64 = p' + r" using r by (simp add: p'_def)
  define n0 digit where "n0 = push_bit r n1 AND (push_bit b 1 - 1)" and "digit = n0 OR drop_bit p' n1'"
  define low where "low = unat n1' div 2 ^ p'"
  have low: "low < 2 ^ r"
  proof -
    have "unat n1' < 2 ^ p' * 2 ^ r" using unat_limb_less [of n1'] unfolding power_add [symmetric] p' [symmetric] .
    then show ?thesis unfolding low_def by (intro less_mult_imp_div_less) (simp add: mult.commute)
  qed
  have n0: "unat n0 = unat n1 mod 2 ^ t * 2 ^ r"
  proof -
    have "b < 64" "r \<le> 64" using b(2) r(3) by simp_all
    then have "unat n0 = unat n1 mod 2 ^ (64 - r) * 2 ^ r mod 2 ^ b"
      unfolding n0_def by (simp only: and_mask_val unat_push)
    also have "\<dots> = unat n1 mod 2 ^ (64 - r) mod 2 ^ t * 2 ^ r" unfolding r(1) power_add by (rule mod_mult_mult2)
    also have "unat n1 mod 2 ^ (64 - r) mod 2 ^ t = unat n1 mod 2 ^ t"
      by (rule mod_mod_cancel) (use r(1) b(2) in \<open>simp add: le_imp_power_dvd\<close>)
    finally show ?thesis .
  qed
  have digit: "unat digit = unat n1 mod 2 ^ t * 2 ^ r + low"
  proof -
    define y where "y = drop_bit r n0"
    have y: "unat y = unat n1 mod 2 ^ t" by (simp add: y_def unat_drop n0)
    have "(2 :: nat) ^ t \<le> 2 ^ (64 - r)" using r(1) b(2) by (intro power_increasing) simp_all
    then have "unat y < 2 ^ (64 - r)" unfolding y by (intro less_le_trans [OF mod_less_divisor]) simp_all
    then have m: "unat y mod 2 ^ (64 - r) = unat y" by simp
    have "r \<le> 64" using r(3) by simp
    then have "unat (push_bit r y) = unat n0" unfolding n0 by (simp only: unat_push m) (simp only: y)
    then have n0y: "n0 = push_bit r y" by (simp only: word_unat_eq_iff)
    have x: "unat (drop_bit p' n1') = low" by (simp add: low_def unat_drop)
    have "digit = drop_bit p' n1' OR push_bit r y" unfolding digit_def n0y by (rule or.commute)
    then show ?thesis using limb_or_push [of "drop_bit p' n1'" r y] x low \<open>r \<le> 64\<close> m y by simp
  qed
  have W't: "W' div 2 ^ p' = W * 2 ^ r + low"
  proof -
    have "W' = unat n1' + 2 ^ p' * (W * 2 ^ r)" unfolding W'_def p' power_add by simp
    then show ?thesis by (simp add: low_def)
  qed
  have Wt: "W mod 2 ^ t = unat n1 mod 2 ^ t"
  proof -
    have "t \<le> 64" using l(2) b(2) by simp
    then obtain k where k: "64 = t + k" by (metis le_Suc_ex)
    have "W = unat n1 + 2 ^ t * (2 ^ k * H)" unfolding Cons.prems(1) k power_add by simp
    then show ?thesis by simp
  qed
  have eq: "W div 2 ^ t * 2 ^ b + unat digit = W' div 2 ^ p'"
  proof -
    have "W * 2 ^ r = (W div 2 ^ t * 2 ^ t + W mod 2 ^ t) * 2 ^ r" by (simp only: div_mult_mod_eq)
    also have "\<dots> = W div 2 ^ t * 2 ^ b + W mod 2 ^ t * 2 ^ r" unfolding r(1) power_add distrib_right by simp
    finally show ?thesis unfolding W't digit Wt by simp
  qed
  have lt: "unat digit < 2 ^ b"
  proof -
    have "unat n1 mod 2 ^ t + 1 \<le> 2 ^ t" by (simp add: Suc_le_eq)
    then have "(unat n1 mod 2 ^ t + 1) * 2 ^ r \<le> 2 ^ t * 2 ^ r" by (rule mult_le_mono1)
    then show ?thesis using low unfolding digit r(1) power_add by (simp add: algebra_simps)
  qed
  have "(2 :: nat) ^ b \<le> 2 ^ 8" using b(2) by (intro power_increasing) simp_all
  then have u: "unat (ucast digit :: 8 word) = unat digit" using lt by (intro unat_digit) simp
  have "W' = W * 2 ^ 64 + unat n1'" by (simp add: W'_def)
  moreover have "digits_of (2 ^ b) (s' @ [ucast digit])" using l(3) lt u by simp
  moreover have "digits_val (2 ^ b) (map unat (s' @ [ucast digit])) = W' div 2 ^ p'"
    using l(4) u eq by (simp add: digits_val_snoc)
  moreover have "p' \<le> 64 \<or> W = 0" by (simp add: p'_def)
  moreover have "b dvd p' + 64 * length up"
  proof -
    have "b dvd b * length s' + t + 64 * length (n1' # up)" unfolding l(5) using Cons.prems(5) by (simp add: add.assoc)
    moreover have "b * length s' + t + 64 * length (n1' # up) = b * (length s' + 1) + (p' + 64 * length up)"
      using r(1) p' by (simp add: algebra_simps)
    ultimately show ?thesis by (metis dvd_add_right_iff dvd_triv_left)
  qed
  ultimately obtain s'' where IH: "pow2_digits b (int p') n1' up (s' @ [ucast digit]) = Some s''" "digits_of (2 ^ b) s''"
    "digits_val (2 ^ b) (map unat s'') = W' * 2 ^ (64 * length up) + limbs_val (rev up)"
    "b * length s'' = b * length (s' @ [ucast digit]) + p' + 64 * length up"
    using Cons.IH [of W' W n1' "s' @ [ucast digit]" p'] by blast
  have i: "nat (int b - int t) = r" "int t - int b + 64 = int p'" using r(1) p' by simp_all
  have "pow2_digits b (int p) n1 (n1' # up) s = Some s''"
    using IH(1) unfolding pow2_digits.simps [of b "int p"] l(1)
    by (simp add: i Let_def digit_def n0_def)
  moreover have "b * length s'' = b * length s + p + 64 * length (n1' # up)"
  proof -
    have "b * length s'' = b * length s' + (b + p') + 64 * length up" using IH(4) by simp
    moreover have "b + p' = t + 64" using r(1) p' by linarith
    ultimately show ?thesis using l(5) by simp
  qed
  moreover have "W' * 2 ^ (64 * length up) + limbs_val (rev up) = W * 2 ^ (64 * length (n1' # up)) + limbs_val (rev (n1' # up))"
    by (simp add: W'_def limbs_val_append power_add algebra_simps)
  ultimately show ?case using IH(2,3) by simp
qed

text \<open>From the highest bit on, rounded up to whole digits.\<close>

lemma pow2_all:
  assumes b: "1 \<le> b" "b \<le> 8" and up: "up \<noteq> []" "last up \<noteq> 0"
    and bits0: "bits0 = 64 * length up - count_leading_zeros (last up)"
    and bits: "bits = (if bits0 mod b \<noteq> 0 then bits0 + (b - bits0 mod b) else bits0)"
  shows "\<exists>s. pow2_digits b (int bits - int ((length up - 1) * 64)) (last up) (tl (rev up)) [] = Some s \<and>
    digits_of (2 ^ b) s \<and> s \<noteq> [] \<and> hd s \<noteq> 0 \<and> digits_val (2 ^ b) (map unat s) = limbs_val up"
proof -
  obtain us u where us: "up = us @ [u]" "u \<noteq> 0" using up by (cases up rule: rev_cases) auto
  define c p where "c = count_leading_zeros u" and "p = bits - 64 * length us"
  have c: "c < 64" "2 ^ 63 \<le> 2 ^ c * unat u" "2 ^ c * unat u < 2 ^ 64"
    using count_leading_zeros_val [OF us(2)] by (simp_all add: c_def)
  have bits0': "bits0 = 64 * length us + (64 - c)" using c(1) by (simp add: bits0 us(1) c_def)
  have r: "bits0 \<le> bits" "bits < bits0 + b" "b dvd bits"
  proof -
    have "bits0 mod b < b" using b(1) by simp
    moreover define m where "m = bits0 mod b"
    ultimately have "bits = bits0 + (if m \<noteq> 0 then b - m else 0)" "m < b" by (simp_all add: bits)
    then show "bits0 \<le> bits" "bits < bits0 + b" by simp_all
    show "b dvd bits"
    proof (cases "bits0 mod b = 0")
      case True
      then show ?thesis by (simp add: bits dvd_eq_mod_eq_0)
    next
      case False
      have "bits0 + (b - bits0 mod b) = b * (bits0 div b) + b"
        using mult_div_mod_eq [of b bits0] \<open>bits0 mod b < b\<close> by linarith
      then have "bits = b * (bits0 div b + 1)" using False by (simp add: bits)
      then show ?thesis by simp
    qed
  qed
  have p: "bits = p + 64 * length us" using r(1) bits0' by (simp add: p_def)
  have "64 - c \<le> p" using r(1) bits0' p by linarith
  have cc: "(2 :: nat) ^ 64 = 2 ^ c * 2 ^ (64 - c)" "(2 :: nat) ^ 63 = 2 ^ c * 2 ^ (63 - c)"
    using c(1) by (simp_all flip: power_add)
  have "unat u < 2 ^ (64 - c)" using c(3) unfolding cc(1) by (simp only: mult_less_cancel1)
  also have "\<dots> \<le> 2 ^ p" using \<open>64 - c \<le> p\<close> by (intro power_increasing) simp_all
  finally have "unat u < 2 ^ p" .
  then have z: "digits_val (2 ^ b) (map unat []) = unat u div 2 ^ p" by simp
  have "b dvd p + 64 * length (rev us)" using r(3) unfolding p by simp
  from pow2_digits_val [OF b _ _ z _ this, of 0 u] obtain s where
    s: "pow2_digits b (int p) u (rev us) [] = Some s" "digits_of (2 ^ b) s"
    "digits_val (2 ^ b) (map unat s) = unat u * 2 ^ (64 * length us) + limbs_val us" "b * length s = p + 64 * length us"
    by auto
  have v: "digits_val (2 ^ b) (map unat s) = limbs_val up" using s(3) by (simp add: us(1) limbs_val_append)
  have "bits \<noteq> 0" using r(1) bits0' c(1) by simp
  then have "s \<noteq> []" using s(4) p by auto
  moreover have "hd s \<noteq> 0"
  proof
    assume "hd s = 0"
    then obtain es where es: "s = 0 # es" using \<open>s \<noteq> []\<close> by (cases s) auto
    have "digits_of (2 ^ b) es" using s(2) by (simp add: es)
    then have "digits_val (2 ^ b) (map unat es) < (2 ^ b) ^ length es" using digits_val_bound [of "2 ^ b" "map unat es"] by simp
    then have "limbs_val up < 2 ^ (b * length es)" using v by (simp add: es digits_val_Cons power_mult)
    also have "b * length es = bits - b" using s(4) p by (simp add: es)
    also have "(2 :: nat) ^ (bits - b) \<le> 2 ^ (64 * length us + (63 - c))"
      using r(2) bits0' c(1) by (intro power_increasing) simp_all
    also have "\<dots> \<le> 2 ^ (64 * length us) * unat u"
    proof -
      have "2 ^ (63 - c) \<le> unat u" using c(2) unfolding cc(2) by simp
      then show ?thesis by (simp add: power_add)
    qed
    also have "\<dots> \<le> limbs_val up" by (simp add: us(1) limbs_val_append)
    finally show False by (simp only: less_irrefl)
  qed
  moreover have "int bits - int ((length up - 1) * 64) = int p" by (simp add: p us(1))
  ultimately show ?thesis using s(1,2) v by (simp add: us(1))
qed

subsection \<open>\<open>mpn_get_str\<close>\<close>

lemma mpn_get_str_val:
  assumes "2 \<le> base" and "base \<le> 256" and "up \<noteq> [] \<longrightarrow> last up \<noteq> 0" and "POW2_P base \<or> length up < 35"
  shows "\<exists>s. mpn_get_str x86 get_str_big base up = Some (Inr s) \<and> map unat s = digits_be base (limbs_val up)"
proof (cases "up = []")
  case True
  have "digits_be base 0 = [0]" using assms(1) by (simp add: digits_be.simps)
  then show ?thesis using True by (simp add: mpn_get_str_def)
next
  case False
  have "\<exists>s. mpn_get_str x86 get_str_big base up = Some (Inr s) \<and> digits_of base s \<and> s \<noteq> [] \<and> hd s \<noteq> 0 \<and>
    digits_val base (map unat s) = limbs_val up"
  proof (cases "POW2_P base")
    case pow: True
    then obtain chars b where mp: "mp_bases base = Some (chars, b)" "base = 2 ^ b" "1 \<le> b" "b \<le> 8"
      using mp_bases_val [OF assms(1,2)] by auto
    obtain s where "pow2_digits b (int (if (64 * length up - count_leading_zeros (last up)) mod b \<noteq> 0
        then 64 * length up - count_leading_zeros (last up) + (b - (64 * length up - count_leading_zeros (last up)) mod b)
        else 64 * length up - count_leading_zeros (last up)) - int ((length up - 1) * 64)) (last up) (tl (rev up)) [] = Some s \<and>
      digits_of (2 ^ b) s \<and> s \<noteq> [] \<and> hd s \<noteq> 0 \<and> digits_val (2 ^ b) (map unat s) = limbs_val up"
      using pow2_all [OF mp(3,4) False _ refl refl] assms(3) False by blast
    then show ?thesis using False pow mp(1) by (simp add: mpn_get_str_def Let_def mp(2) del: of_nat_mult)
  next
    case npow: False
    then show ?thesis
      using mpn_bc_get_str_val [OF assms(1,2) npow False, of x86] assms(3,4) False
      by (simp add: mpn_get_str_def GET_STR_PRECOMPUTE_THRESHOLD_def)
  qed
  then obtain s where s: "mpn_get_str x86 get_str_big base up = Some (Inr s)" "digits_of base s" "s \<noteq> []" "hd s \<noteq> 0"
    "digits_val base (map unat s) = limbs_val up" by blast
  have "hd (map unat s) \<noteq> 0" using s(3,4) by (simp add: hd_map unat_eq_0)
  then have "digits_be base (limbs_val up) = map unat s"
    using digits_be_val [OF assms(1) s(2)] s(3) by (simp add: s(5))
  then show ?thesis using s(1) by simp
qed

end
