(* ===== verification/Gmp_Str.thy ===== *)
theory Gmp_Str
  imports Gmp_GetStr Gmp_Mod
begin

text \<open>
  Numbers in limbs as text: \<open>mpz_get_str\<close>, \<open>mpz_out_str\<close>, \<open>mpz_set_str\<close> and \<open>mpz_inp_str\<close> (\<open>gmp-6.2.1/mpz\<close>) over
  \<open>mpn_get_str\<close> and \<open>mpn_set_str\<close>, and that they do what the functions of \<open>Gmp_Text\<close> do on integers. \<open>None\<close> is a
  loop that does not end. The sizes of the areas for the digits, which the code computes from logarithms of
  the base, are not modelled.
\<close>

subsection \<open>The functions\<close>

type_synonym get_str_big = "nat \<Rightarrow> limbs \<Rightarrow> bytes outcome option"
type_synonym set_str_big = "nat \<Rightarrow> bytes \<Rightarrow> limbs option"

definition limbs_text :: "bool \<Rightarrow> get_str_big \<Rightarrow> string \<times> nat \<Rightarrow> mpz \<Rightarrow> string outcome option" where
  "limbs_text x86 get_str_big = (\<lambda>(num_to_text, base) x.
     map_option (\<lambda>r. bindO r (\<lambda>s. Inr ((if siz x < 0 then ''-'' else []) @ map (\<lambda>d. num_to_text ! unat d) s)))
       (mpn_get_str x86 get_str_big base (take (nat \<bar>siz x\<bar>) (ptr x))))"

definition mpz_get_str_limbs :: "bool \<Rightarrow> get_str_big \<Rightarrow> int \<Rightarrow> mpz \<Rightarrow> string option outcome option" where
  "mpz_get_str_limbs x86 get_str_big base x =
     (case output_base base of None \<Rightarrow> Some (Inr None)
      | Some nb \<Rightarrow> map_option (\<lambda>r. bindO r (\<lambda>s. Inr (Some s))) (limbs_text x86 get_str_big nb x))"

definition mpz_out_str_limbs :: "bool \<Rightarrow> get_str_big \<Rightarrow> int \<Rightarrow> mpz \<Rightarrow> (nat \<times> string) outcome option" where
  "mpz_out_str_limbs x86 get_str_big base x =
     (case output_base base of None \<Rightarrow> Some (Inr (0, []))
      | Some nb \<Rightarrow> map_option (\<lambda>r. bindO r (\<lambda>s. Inr (length s, s))) (limbs_text x86 get_str_big nb x))"

text \<open>What the digits are stored as.\<close>

definition store_digits :: "set_str_big \<Rightarrow> bool \<Rightarrow> nat \<Rightarrow> nat list \<Rightarrow> mpz option" where
  "store_digits set_str_big negative base ds =
     map_option (\<lambda>xp. let xsize = int (length xp) in \<lparr>siz = (if negative then - xsize else xsize), ptr = xp\<rparr>)
       (mpn_set_str set_str_big base (map of_nat ds))"

definition mpz_set_str_limbs :: "set_str_big \<Rightarrow> mpz \<Rightarrow> string \<Rightarrow> int \<Rightarrow> (int \<times> mpz) option" where
  "mpz_set_str_limbs set_str_big x str base =
     (let off = (if base > 36 then 208 else 0)
      in if base > 62 then Some (-1, x)
         else
           let (c, str) = next_char (dropWhile isspace str);
               negative = is_ch c (CHR ''-'');
               (c, str) = (if negative then next_char str else (c, str))
           in if int (dig_of off c) \<ge> (if base = 0 then 10 else base) then Some (-1, x)
              else
                let (base, c, str) = (if base = 0 then detect_base c str else (base, c, str));
                    rest = dropWhile (\<lambda>c. c = CHR ''0'' \<or> isspace c)
                             ((case c of None \<Rightarrow> [] | Some c \<Rightarrow> [c]) @ str)
                in if rest = [] then Some (0, x\<lparr>siz := 0\<rparr>)
                   else case collect_digits off base rest of
                          None \<Rightarrow> Some (-1, x)
                        | Some ds \<Rightarrow> map_option (\<lambda>x. (0, x)) (store_digits set_str_big negative (nat base) ds))"

definition mpz_inp_str_nowhite_limbs ::
  "set_str_big \<Rightarrow> mpz \<Rightarrow> string \<Rightarrow> int \<Rightarrow> char option \<Rightarrow> nat \<Rightarrow> (nat \<times> mpz \<times> string) option"
where
  "mpz_inp_str_nowhite_limbs set_str_big x s base c nread =
     (let off = (if base > 36 then 208 else 0)
      in if base > 62 then Some (0, x, s)
         else
           let negative = is_ch c (CHR ''-'');
               (c, s, nread) =
                 (if negative then let (c, s) = next_char s in (c, s, nread + 1) else (c, s, nread))
           in if c = None \<or> int (dig_of off c) \<ge> (if base = 0 then 10 else base) then Some (0, x, s)
              else
                let (base, c, s, nread) =
                      (if base = 0 then detect_base_n c s nread else (base, c, s, nread));
                    (c, s, nread) =
                      (case c of None \<Rightarrow> (None, s, nread) | Some c \<Rightarrow> skip_zeros c s nread);
                    (ds, c, s) =
                      (case c of None \<Rightarrow> ([], None, s) | Some c \<Rightarrow> read_digits off base c s);
                    nread = nread + length ds - 1
                in map_option (\<lambda>x. (nread, x, ungetc c s))
                     (if ds = [] then Some (x\<lparr>siz := 0\<rparr>) else store_digits set_str_big negative (nat base) ds))"

definition mpz_inp_str_limbs :: "set_str_big \<Rightarrow> mpz \<Rightarrow> FILE \<Rightarrow> int \<Rightarrow> (nat \<times> mpz \<times> FILE) option" where
  "mpz_inp_str_limbs set_str_big x stream base =
     (let (c, s, nread) = skip_space (f_rest stream) 0
      in map_option (\<lambda>(ret, x, s). (ret, x, upto_rest stream s))
           (mpz_inp_str_nowhite_limbs set_str_big x s base c nread))"

subsection \<open>Writing\<close>

lemma output_base_range: "output_base base = Some (abc, b) \<Longrightarrow> 2 \<le> b \<and> b \<le> 62"
  by (auto simp: output_base_def split: if_splits)

lemma limbs_text_val:
  assumes "mpz_is z x" and "nat \<bar>siz z\<bar> < 35" and "output_base base = Some nb"
  shows "limbs_text x86 get_str_big nb z = Some (Inr (number_text nb x))"
proof -
  obtain abc b where nb: "nb = (abc, b)" by fastforce
  have b: "2 \<le> b" "b \<le> 256" using output_base_range [of base abc b] assms(3) by (simp_all add: nb)
  have wf: "mpz_wf z" using assms(1) by (simp add: mpz_is_def)
  have len: "length (mpz_limbs z) = nat \<bar>siz z\<bar>" by (rule mpz_wf_top(1) [OF wf])
  have "mpz_limbs z \<noteq> [] \<longrightarrow> last (mpz_limbs z) \<noteq> 0" using wf by (simp add: mpz_wf_limbs)
  from mpn_get_str_val [OF b this, of x86 get_str_big] assms(2) len obtain s where
    s: "mpn_get_str x86 get_str_big b (mpz_limbs z) = Some (Inr s)" "map unat s = digits_be b (limbs_val (mpz_limbs z))" by auto
  have "int (limbs_val (mpz_limbs z)) = \<bar>x\<bar>" using mpz_is_limbs [OF assms(1)] by auto
  then have "limbs_val (mpz_limbs z) = nat \<bar>x\<bar>" by simp
  moreover have "siz z < 0 \<longleftrightarrow> x < 0" by (rule mpz_is_sign(1) [OF assms(1)])
  moreover have "map (\<lambda>d. abc ! unat d) s = map ((!) abc) (map unat s)" by simp
  ultimately show ?thesis
    using s by (simp add: limbs_text_def number_text_def nb mpz_limbs_def del: map_map)
qed

subsection \<open>Reading\<close>

lemma zero_in_table:
  "0 \<notin> set (take 48 digit_value_tab)" "0 \<notin> set (take 207 (drop 49 digit_value_tab))"
  "0 \<notin> set (take 48 (drop 208 digit_value_tab))" "0 \<notin> set (take 207 (drop 257 digit_value_tab))"
  by (simp_all add: digit_value_tab_def)

lemma table_zero:
  assumes "0 \<notin> set (take 48 (drop off digit_value_tab))" and "0 \<notin> set (take 207 (drop (off + 49) digit_value_tab))"
    and "n < 256" and "off + 256 \<le> 464" and "digit_value_tab ! (off + n) = 0"
  shows "n = 48"
proof (rule ccontr)
  assume "n \<noteq> 48"
  then consider "n < 48" | "49 \<le> n" by linarith
  then show False
  proof cases
    case 1
    then have "take 48 (drop off digit_value_tab) ! n = 0" "n < length (take 48 (drop off digit_value_tab))"
      using assms(4,5) table_parts(6) by simp_all
    then show False using assms(1) nth_mem by metis
  next
    case 2
    then obtain k where k: "n = 49 + k" by (metis le_Suc_ex)
    then have "take 207 (drop (off + 49) digit_value_tab) ! k = 0" "k < length (take 207 (drop (off + 49) digit_value_tab))"
      using assms(3-5) table_parts(6) by (simp_all add: add.assoc)
    then show False using assms(2) nth_mem by metis
  qed
qed

lemma digit_value_0:
  assumes "digit_value (if 36 < base then 208 else 0) c = 0"
  shows "c = CHR ''0''"
proof -
  have "of_char c < (256 :: nat)" by simp
  then have "of_char c = (48 :: nat)"
    using assms table_zero [of 0 "of_char c"] table_zero [of 208 "of_char c"] zero_in_table
    by (simp add: digit_value_def split: if_splits)
  also have "\<dots> = of_char (CHR ''0'')" by simp
  finally show ?thesis by (simp only: of_char_eq_iff)
qed

lemma collected:
  assumes "collect_digits off base s = Some ds"
  shows "list_all (\<lambda>d. int d < base) ds \<and> length ds \<le> length s \<and>
    (s \<noteq> [] \<longrightarrow> \<not> isspace (hd s) \<longrightarrow> ds \<noteq> [] \<and> hd ds = digit_value off (hd s))"
  using assms
proof (induction s arbitrary: ds)
  case (Cons c s)
  show ?case
  proof (cases "isspace c")
    case True
    then show ?thesis using Cons by fastforce
  next
    case False
    then obtain es where "collect_digits off base s = Some es" "ds = digit_value off c # es" "int (digit_value off c) < base"
      using Cons.prems by (auto simp: Let_def split: if_splits)
    then show ?thesis using Cons.IH by simp
  qed
qed simp

lemma next_char_length: "next_char s = (c, s') \<Longrightarrow> length (case c of None \<Rightarrow> [] | Some c \<Rightarrow> [c]) + length s' = length s"
  by (cases s) auto

lemma detect_base_val:
  assumes "detect_base c s = (b, c', s')"
  shows "b \<le> 62" and "length (case c' of None \<Rightarrow> [] | Some c \<Rightarrow> [c]) + length s' \<le> length (case c of None \<Rightarrow> [] | Some c \<Rightarrow> [c]) + length s"
proof -
  obtain c1 s1 where n1: "next_char s = (c1, s1)" by fastforce
  obtain c2 s2 where n2: "next_char s1 = (c2, s2)" by fastforce
  show "b \<le> 62"
    using assms unfolding detect_base_def n1 n2 case_prod_conv Let_def by (auto split: if_splits)
  show "length (case c' of None \<Rightarrow> [] | Some c \<Rightarrow> [c]) + length s' \<le> length (case c of None \<Rightarrow> [] | Some c \<Rightarrow> [c]) + length s"
    using assms next_char_length [OF n1] next_char_length [OF n2]
    unfolding detect_base_def n1 n2 case_prod_conv Let_def by (auto split: if_splits)
qed

text \<open>Storing the digits.\<close>

lemma store_digits_val:
  assumes "list_all (\<lambda>d. int d < b) ds" and "ds \<noteq> []" and "hd ds \<noteq> 0" and "length ds < 2000" and "b \<le> 62"
  shows "\<exists>z. store_digits set_str_big negative (nat b) ds = Some z \<and>
    mpz_is z (let v = int (digits_val (nat b) ds) in if negative then - v else v)"
proof -
  have d: "unat (of_nat d :: 8 word) = d" "d < nat b" if "d \<in> set ds" for d
  proof -
    have "int d < b" using assms(1) that by (simp add: list_all_iff)
    then show "d < nat b" "unat (of_nat d :: 8 word) = d" using assms(5) by (simp_all add: unat_of_nat)
  qed
  have m: "map unat (map of_nat ds :: bytes) = ds" using d(1) by (simp add: map_idI)
  have "hd ds < nat b" using d(2) assms(2) by simp
  then have b: "2 \<le> nat b" "nat b \<le> 256" using assms(3,5) by simp_all
  have "hd (map of_nat ds :: bytes) \<noteq> 0"
    using d(1) [of "hd ds"] assms(2,3) by (metis hd_in_set hd_map unat_0)
  moreover have "list_all (\<lambda>d. unat d < nat b) (map of_nat ds :: bytes)" using d by (simp add: list_all_iff)
  ultimately obtain rp where rp: "mpn_set_str set_str_big (nat b) (map of_nat ds) = Some rp"
    "mpz_is \<lparr>siz = int (length rp), ptr = rp\<rparr> (int (digits_val (nat b) (map unat (map of_nat ds :: bytes))))"
    using mpn_set_str_digits [OF b, of "map of_nat ds" set_str_big] assms(2,4) by auto
  note stored = rp(2) [unfolded m]
  show ?thesis
    using stored mpz_neg_is [OF stored, of True] by (cases negative) (simp_all add: store_digits_def rp(1) mpz_neg_def)
qed

lemma mpz_set_str_limbs_val:
  assumes "mpz_is z x" and "length str < 2000"
  shows "\<exists>z'. mpz_set_str_limbs set_str_big z str base = Some (fst (mpz_set_str x str base), z') \<and>
    mpz_is z' (snd (mpz_set_str x str base))"
proof -
  define off where "off = (if 36 < base then 208 else (0 :: nat))"
  obtain c0 str0 where n0: "next_char (dropWhile isspace str) = (c0, str0)" by fastforce
  define negative where "negative = is_ch c0 (CHR ''-'')"
  obtain c1 str1 where n1: "(if negative then next_char str0 else (c0, str0)) = (c1, str1)" by fastforce
  obtain b c2 str2 where n2: "(if base = 0 then detect_base c1 str1 else (base, c1, str1)) = (b, c2, str2)" by (metis prod_cases3)
  define rest where "rest = dropWhile (\<lambda>c. c = CHR ''0'' \<or> isspace c) ((case c2 of None \<Rightarrow> [] | Some c \<Rightarrow> [c]) @ str2)"
  note eqs = Let_def off_def [symmetric] n0 case_prod_conv negative_def [symmetric] n1 n2 rest_def [symmetric]
  have l: "mpz_set_str_limbs set_str_big z str base =
      (if base > 62 then Some (-1, z)
       else if int (dig_of off c1) \<ge> (if base = 0 then 10 else base) then Some (-1, z)
       else if rest = [] then Some (0, z\<lparr>siz := 0\<rparr>)
       else case collect_digits off b rest of None \<Rightarrow> Some (-1, z)
         | Some ds \<Rightarrow> map_option (\<lambda>x. (0, x)) (store_digits set_str_big negative (nat b) ds))"
    unfolding mpz_set_str_limbs_def eqs by (rule refl)
  have r: "mpz_set_str x str base =
      (if base > 62 then (-1, x)
       else if int (dig_of off c1) \<ge> (if base = 0 then 10 else base) then (-1, x)
       else if rest = [] then (0, 0)
       else case collect_digits off b rest of None \<Rightarrow> (-1, x)
         | Some ds \<Rightarrow> let v = int (digits_val (nat b) ds) in (0, if negative then - v else v))"
    unfolding mpz_set_str_def eqs by (rule refl)
  consider "base > 62 \<or> int (dig_of off c1) \<ge> (if base = 0 then 10 else base) \<or> rest \<noteq> [] \<and> collect_digits off b rest = None"
    | "\<not> base > 62" "\<not> int (dig_of off c1) \<ge> (if base = 0 then 10 else base)" "rest = []"
    | ds where "\<not> base > 62" "\<not> int (dig_of off c1) \<ge> (if base = 0 then 10 else base)" "rest \<noteq> []" "collect_digits off b rest = Some ds"
    by (cases "collect_digits off b rest") blast+
  then show ?thesis
  proof cases
    case 1
    then show ?thesis unfolding l r using assms(1) by auto
  next
    case 2
    then show ?thesis unfolding l r using mpz_is_empty by auto
  next
    case 3
    have "\<not> (hd rest = CHR ''0'' \<or> isspace (hd rest))" using 3(3) hd_dropWhile unfolding rest_def by blast
    moreover have "length rest < 2000"
    proof -
      have "length rest \<le> length (case c2 of None \<Rightarrow> [] | Some c \<Rightarrow> [c]) + length str2"
        unfolding rest_def by (metis length_append length_dropWhile_le)
      also have "\<dots> \<le> length (case c1 of None \<Rightarrow> [] | Some c \<Rightarrow> [c]) + length str1"
        using n2 detect_base_val(2) [of c1 str1 b c2 str2] by (cases "base = 0") simp_all
      also have "\<dots> \<le> length (case c0 of None \<Rightarrow> [] | Some c \<Rightarrow> [c]) + length str0"
        using n1 next_char_length [of str0 c1 str1] by (cases negative) simp_all
      also have "\<dots> \<le> length str" using next_char_length [OF n0] length_dropWhile_le [of isspace str] by simp
      finally show ?thesis using assms(2) by simp
    qed
    moreover have "b \<le> 62" using n2 detect_base_val(1) [of c1 str1 b c2 str2] 3(1) by (cases "base = 0") simp_all
    moreover have "list_all (\<lambda>d. int d < b) ds" "length ds \<le> length rest" "ds \<noteq> []" "hd ds = digit_value off (hd rest)"
      using collected [OF 3(4)] 3(3) calculation(1) by simp_all
    moreover have "hd ds \<noteq> 0" using digit_value_0 [of base "hd rest"] calculation(1) unfolding calculation(7) off_def by blast
    ultimately show ?thesis
      using store_digits_val [of b ds set_str_big negative] 3 unfolding l r by (auto simp: Let_def)
  qed
qed

subsection \<open>Reading a stream\<close>

text \<open>The characters before the next white space, with the one that was read already.\<close>

abbreviation word :: "string \<Rightarrow> string" where
  "word s \<equiv> takeWhile (\<lambda>c. \<not> isspace c) s"

definition ahead :: "char option \<Rightarrow> string \<Rightarrow> nat" where
  "ahead c s = (case c of None \<Rightarrow> 0 | Some c \<Rightarrow> length (word (c # s)))"

lemma ahead_next: "next_char s = (c, s') \<Longrightarrow> ahead c s' = length (word s)"
  by (cases s) (auto simp: ahead_def)

lemma ahead_ch: "is_ch c d \<Longrightarrow> \<not> isspace d \<Longrightarrow> ahead c s = Suc (length (word s))"
  by (simp add: ahead_def is_ch_def)

lemma skip_space_ahead: "skip_space s n = (c, s', n') \<Longrightarrow> ahead c s' = length (word (dropWhile isspace s))"
  by (induction s n rule: skip_space.induct) (auto simp: ahead_def split: if_splits)

lemma no_space: "\<not> isspace (CHR ''-'')" "\<not> isspace (CHR ''0'')" "\<not> isspace (CHR ''x'')" "\<not> isspace (CHR ''X'')"
  "\<not> isspace (CHR ''b'')" "\<not> isspace (CHR ''B'')"
  by (simp_all add: isspace_def)

lemma detect_base_n_ahead:
  assumes "detect_base_n c s n = (b, c', s', n')"
  shows "b \<le> 62" and "ahead c' s' \<le> ahead c s"
proof -
  obtain c1 s1 where n1: "next_char s = (c1, s1)" by fastforce
  obtain c2 s2 where n2: "next_char s1 = (c2, s2)" by fastforce
  note d = assms [unfolded detect_base_n_def n1 n2 case_prod_conv Let_def]
  show "b \<le> 62" using d n2 by (auto split: if_splits)
  have "ahead c2 s2 \<le> ahead c1 s1" if "is_ch c1 d" "\<not> isspace d" for d
    using ahead_next [OF n2] ahead_ch [OF that, of s1] by simp
  moreover have "ahead c1 s1 \<le> ahead c s" if "is_ch c (CHR ''0'')"
    using ahead_next [OF n1] ahead_ch [OF that no_space(2), of s] by simp
  ultimately show "ahead c' s' \<le> ahead c s"
    using d n2 no_space by (auto split: if_splits) (meson order_trans)+
qed

lemma skip_zeros_ahead:
  "skip_zeros c s n = (c', s', n') \<Longrightarrow> ahead c' s' \<le> ahead (Some c) s \<and> c' \<noteq> Some (CHR ''0'')"
proof (induction c s n rule: skip_zeros.induct)
  case (2 c d s n)
  then show ?case using no_space by (cases "c = CHR ''0''") (auto simp: ahead_def)
qed (auto simp: ahead_def split: if_splits)

lemma digit_value_space:
  assumes "isspace c"
  shows "digit_value (if 36 < base then 208 else 0) c = 255"
proof -
  have "of_char c \<in> {32 :: nat, 9, 10, 11, 12, 13}" using assms by (auto simp: isspace_def Let_def)
  then show ?thesis by (auto simp: digit_value_def digit_value_tab_def)
qed

lemma read_digits_val:
  fixes base :: int
  defines "off \<equiv> (if 36 < base then 208 else 0)"
  assumes "read_digits off b c s = (ds, e, r)" and "b \<le> 62"
  shows "list_all (\<lambda>d. int d < b) ds \<and> length ds \<le> ahead (Some c) s \<and> (ds \<noteq> [] \<longrightarrow> hd ds = digit_value off c)"
  using assms(2)
proof (induction s arbitrary: c ds)
  case Nil
  then show ?case using digit_value_space [of c base] assms(3) by (auto simp: ahead_def off_def split: if_splits)
next
  case (Cons d s)
  show ?case
  proof (cases "b \<le> int (digit_value off c)")
    case True
    then show ?thesis using Cons.prems by simp
  next
    case False
    then have "\<not> isspace c" using digit_value_space [of c base] assms(3) by (auto simp: off_def)
    then show ?thesis using Cons False by (fastforce simp: ahead_def split: prod.splits)
  qed
qed

lemma mpz_inp_str_nowhite_limbs_val:
  assumes "mpz_is z x" and "ahead c s < 2000"
  shows "\<exists>z'. mpz_inp_str_nowhite_limbs set_str_big z s base c nread =
      Some (fst (mpz_inp_str_nowhite x s base c nread), z', snd (snd (mpz_inp_str_nowhite x s base c nread))) \<and>
    mpz_is z' (fst (snd (mpz_inp_str_nowhite x s base c nread)))"
proof -
  define off where "off = (if 36 < base then 208 else (0 :: nat))"
  define negative where "negative = is_ch c (CHR ''-'')"
  obtain c1 s1 n1 where d1: "(if negative then case next_char s of (c, s) \<Rightarrow> (c, s, nread + 1) else (c, s, nread)) = (c1, s1, n1)"
    by (metis prod_cases3)
  obtain b c2 s2 n2 where d2: "(if base = 0 then detect_base_n c1 s1 n1 else (base, c1, s1, n1)) = (b, c2, s2, n2)" by (metis prod_cases4)
  obtain c3 s3 n3 where d3: "(case c2 of None \<Rightarrow> (None, s2, n2) | Some c \<Rightarrow> skip_zeros c s2 n2) = (c3, s3, n3)" by (metis prod_cases3)
  obtain ds c4 s4 where d4: "(case c3 of None \<Rightarrow> ([], None, s3) | Some c \<Rightarrow> read_digits off b c s3) = (ds, c4, s4)" by (metis prod_cases3)
  note eqs = Let_def off_def [symmetric] negative_def [symmetric] d1 case_prod_conv d2 d3 d4
  have l: "mpz_inp_str_nowhite_limbs set_str_big z s base c nread =
      (if base > 62 then Some (0, z, s)
       else if c1 = None \<or> int (dig_of off c1) \<ge> (if base = 0 then 10 else base) then Some (0, z, s1)
       else map_option (\<lambda>x. (n3 + length ds - 1, x, ungetc c4 s4))
         (if ds = [] then Some (z\<lparr>siz := 0\<rparr>) else store_digits set_str_big negative (nat b) ds))"
    unfolding mpz_inp_str_nowhite_limbs_def eqs by (rule refl)
  have r: "mpz_inp_str_nowhite x s base c nread =
      (if base > 62 then (0, x, s)
       else if c1 = None \<or> int (dig_of off c1) \<ge> (if base = 0 then 10 else base) then (0, x, s1)
       else (n3 + length ds - 1,
         if negative then - (if ds = [] then 0 else int (digits_val (nat b) ds)) else (if ds = [] then 0 else int (digits_val (nat b) ds)), ungetc c4 s4))"
    unfolding mpz_inp_str_nowhite_def eqs by (rule refl)
  show ?thesis
  proof (cases "base > 62 \<or> c1 = None \<or> int (dig_of off c1) \<ge> (if base = 0 then 10 else base)")
    case True
    then show ?thesis unfolding l r using assms(1) by auto
  next
    case False
    then have k: "\<not> base > 62" "\<not> (c1 = None \<or> int (dig_of off c1) \<ge> (if base = 0 then 10 else base))" by simp_all
    show ?thesis
    proof (cases "ds = []")
      case True
      then show ?thesis unfolding l r if_not_P [OF k(1)] if_not_P [OF k(2)] using mpz_is_empty by simp
    next
      case False
      then obtain ch where ch: "c3 = Some ch" "read_digits off b ch s3 = (ds, c4, s4)" using d4 by (cases c3) simp_all
      have b: "b \<le> 62" using d2 detect_base_n_ahead(1) [of c1 s1 n1 b c2 s2 n2] k(1) by (cases "base = 0") simp_all
      note digits = read_digits_val [OF ch(2) [unfolded off_def] b, folded off_def]
      have skipped: "ahead c3 s3 \<le> ahead c2 s2 \<and> c3 \<noteq> Some (CHR ''0'')"
        using d3 skip_zeros_ahead [of _ s2 n2 c3 s3 n3] ch(1) by (cases c2) auto
      have "ahead c3 s3 < 2000"
      proof -
        have "ahead c2 s2 \<le> ahead c1 s1"
          using d2 detect_base_n_ahead(2) [of c1 s1 n1 b c2 s2 n2] by (cases "base = 0") simp_all
        also have "\<dots> \<le> ahead c s"
        proof (cases negative)
          case True
          then have "next_char s = (c1, s1)" using d1 by (simp split: prod.splits)
          then show ?thesis
            using ahead_next [of s c1 s1] ahead_ch [OF True [unfolded negative_def] no_space(1), of s] by simp
        next
          case False
          then show ?thesis using d1 by simp
        qed
        finally show ?thesis using skipped assms(2) by simp
      qed
      then have "length ds < 2000" using digits ch(1) by simp
      moreover have "hd ds \<noteq> 0"
        using digit_value_0 [of base ch] digits False skipped ch(1) unfolding off_def by metis
      ultimately obtain z' where "store_digits set_str_big negative (nat b) ds = Some z'"
        "mpz_is z' (let v = int (digits_val (nat b) ds) in if negative then - v else v)"
        using store_digits_val [of b ds set_str_big negative] digits False b by blast
      then show ?thesis unfolding l r if_not_P [OF k(1)] if_not_P [OF k(2)] using False
        by (cases negative) (simp_all add: Let_def)
    qed
  qed
qed

lemma mpz_inp_str_limbs_val:
  assumes "mpz_is z x" and "length (word (dropWhile isspace (f_rest stream))) < 2000"
  shows "\<exists>z'. mpz_inp_str_limbs set_str_big z stream base =
      Some (fst (mpz_inp_str x stream base), z', snd (snd (mpz_inp_str x stream base))) \<and>
    mpz_is z' (fst (snd (mpz_inp_str x stream base)))"
proof -
  obtain c s n where k: "skip_space (f_rest stream) 0 = (c, s, n)" by (metis prod_cases3)
  then have "ahead c s < 2000" using skip_space_ahead [OF k] assms(2) by simp
  from mpz_inp_str_nowhite_limbs_val [OF assms(1) this, of set_str_big base n] show ?thesis
    by (cases "mpz_inp_str_nowhite x s base c n") (auto simp: mpz_inp_str_limbs_def mpz_inp_str_def k)
qed

subsection \<open>The text functions of the library\<close>

text \<open>
  C28: the text of a number in limbs. For every base argument and every number of less than 35 limbs, \<open>mpz_get_str\<close>
  and \<open>mpz_out_str\<close> on limbs return, inside their buffer, the text of the integer that the limbs denote, on every
  kind of processor: shifted out of the limbs for powers of two, and otherwise by dividing by a power of the base
  with its inverse from the table and multiplying the fractions of the remainders. For every string of less
  than 2000 characters, \<open>mpz_set_str\<close> on limbs returns what it returns on integers and stores a well-formed number
  with the same value; so does \<open>mpz_inp_str\<close> on every stream whose next word is that short, and it leaves the stream
  at the same place.
\<close>

theorem mpz_text_on_limbs:
  assumes "mpz_is z x" and "nat \<bar>siz z\<bar> < 35" and "length str < 2000"
    and "length (word (dropWhile isspace (f_rest stream))) < 2000"
  shows "mpz_get_str_limbs x86 get_str_big base z = Some (Inr (mpz_get_str base x)) \<and>
    mpz_out_str_limbs x86 get_str_big base z = Some (Inr (mpz_out_str base x)) \<and>
    (\<exists>z'. mpz_set_str_limbs set_str_big z str base = Some (fst (mpz_set_str x str base), z') \<and>
      mpz_is z' (snd (mpz_set_str x str base))) \<and>
    (\<exists>z'. mpz_inp_str_limbs set_str_big z stream base =
        Some (fst (mpz_inp_str x stream base), z', snd (snd (mpz_inp_str x stream base))) \<and>
      mpz_is z' (fst (snd (mpz_inp_str x stream base))))"
proof (intro conjI)
  have t: "limbs_text x86 get_str_big nb z = Some (Inr (number_text nb x))" if "output_base base = Some nb" for nb
    using limbs_text_val [OF assms(1,2) that] .
  show "mpz_get_str_limbs x86 get_str_big base z = Some (Inr (mpz_get_str base x))"
    using t by (cases "output_base base") (simp_all add: mpz_get_str_limbs_def mpz_get_str_def)
  show "mpz_out_str_limbs x86 get_str_big base z = Some (Inr (mpz_out_str base x))"
    using t by (cases "output_base base") (simp_all add: mpz_out_str_limbs_def mpz_out_str_def Let_def)
  show "\<exists>z'. mpz_set_str_limbs set_str_big z str base = Some (fst (mpz_set_str x str base), z') \<and>
      mpz_is z' (snd (mpz_set_str x str base))"
    by (rule mpz_set_str_limbs_val [OF assms(1,3)])
  show "\<exists>z'. mpz_inp_str_limbs set_str_big z stream base =
        Some (fst (mpz_inp_str x stream base), z', snd (snd (mpz_inp_str x stream base))) \<and>
      mpz_is z' (fst (snd (mpz_inp_str x stream base)))"
    by (rule mpz_inp_str_limbs_val [OF assms(1,4)])
qed

text \<open>Two limbs: a chunk of 19 digits and one digit.\<close>

theorem mpz_text_on_limbs_witness:
  "mpz_get_str_limbs False (\<lambda>_ _. None) 10 \<lparr>siz = -2, ptr = [7, 1]\<rparr> = Some (Inr (Some ''-18446744073709551623''))"
proof -
  have "mpz_is \<lparr>siz = -2, ptr = [7, 1]\<rparr> (- (7 + 2 ^ 64))" by (simp add: mpz_is_def mpz_wf_def mpz_val_def)
  from mpz_text_on_limbs [OF this, of "[]" "\<lparr>f_before = [], f_rest = []\<rparr>" False "\<lambda>_ _. None" 10 "\<lambda>_ _. None"]
  have "mpz_get_str_limbs False (\<lambda>_ _. None) 10 \<lparr>siz = -2, ptr = [7, 1]\<rparr> = Some (Inr (mpz_get_str 10 (- (7 + 2 ^ 64))))"
    by simp
  also have "mpz_get_str 10 (- (7 + 2 ^ 64)) = Some ''-18446744073709551623''"
    by (simp add: mpz_get_str_def output_base_def number_text_def digits_be.simps alphabet36_def)
  finally show ?thesis .
qed

end
