(* ===== verification/Spec2Isabelle.thy ===== *)
theory Spec2Isabelle
  imports Bf_Params Bf_Base64 Sha512_Digest Bf_Limbs Gmp_Str
begin

text \<open>
  A verification library for bfibe, the C library in which PRISM has its identity-based
  encryption (\<open>src/bfibe\<close>), and for what it runs on of the sources in the tree: GMP 6.2.1 and OpenSSL 1.1.1t
  (\<open>src/rib/client/android/src\<close>).

  \<^bold>\<open>The program.\<close> bfibe implements the scheme of Boneh and Franklin as RFC 5091 has it.
  \<open>bf_setup\<close> makes public parameters and a secret, or one shard of both; a private key belongs to an
  identity; \<open>bf_encrypt\<close> masks a message with a session key that \<open>bf_decrypt\<close> recovers and checks. The
  hash functions to points, ranges and bytes are built on a digest of OpenSSL and on GMP's numbers.
  Parameters and keys travel as text with numbers in base 36 that GMP reads and writes, messages as bytes or
  as base64 text that goes through OpenSSL's base64 filter before a memory BIO. Around this are a C
  interface that Python calls, a JNI wrapper that the Android client calls, and two command line programs.
  The pairings come from PBC, which the build downloads.

  \<^bold>\<open>The theories\<close>, from the bottom up; each opens with what it holds.

  \<^item> \<open>Prelude\<close>: outcomes of C code that can crash (\<open>outcome\<close>, chained by \<open>bindO\<close>), buffers, byte loops, the
    numbers that byte strings denote.

  \<^item> bfibe: \<open>Bf_Types\<close> (the structs of \<open>bfibe.h\<close>, the levels of \<open>security.c\<close>, the record \<open>lib\<close> of the
    library functions), \<open>Bf_Hash\<close> (\<open>hash.c\<close>), \<open>Bf_Limbs\<close> (\<open>hash_to_range\<close> of \<open>hash.c\<close> on the model of GMP), \<open>Bf_Ibe\<close> (\<open>bfibe.c\<close>), \<open>Bf_Message\<close> and \<open>Bf_Export\<close> (the binary
    and the text forms of \<open>export.c\<close>), \<open>Bf_Api\<close> (\<open>api.c\<close>, \<open>bfibejni.c\<close>, \<open>genibe.c\<close>, \<open>genprivatekey.c\<close>),
    \<open>Bf_Params\<close> (the ways in which all of these make parameters, and their invariant),
    \<open>Bf_Base64\<close> (\<open>base64.c\<close> and the base64 forms of \<open>export.c\<close>). \<open>Bf_Sample\<close> is a small instance of the
    libraries, on which the examples compute.

  \<^item> The C library: \<open>C_Stdio\<close>, the streams and formats that the text forms use.

  \<^item> OpenSSL: \<open>Sha512\<close>, \<open>Sha512_Correct\<close>, \<open>Sha512_Digest\<close> (\<open>crypto/sha/sha512.c\<close>), against \<open>Sha2_Spec\<close>
    (FIPS 180-4, written down without the code); \<open>Evp_Encode\<close>,
    \<open>Evp_Encode_Correct\<close>, \<open>Evp_Stream\<close> (\<open>crypto/evp/encode.c\<close>); \<open>Bio_Mem\<close> (\<open>crypto/buffer/buffer.c\<close>,
    \<open>crypto/bio/bss_mem.c\<close>); \<open>Bio_B64\<close>, \<open>Bio_B64_Write\<close>, \<open>Bio_B64_Read\<close>, \<open>Bio_B64_Decode\<close>
    (\<open>crypto/evp/bio_b64.c\<close>).

  \<^item> GMP: \<open>Gmp_Text\<close> (\<open>mpz/set_str.c\<close>, \<open>get_str.c\<close>, \<open>inp_str.c\<close>, \<open>out_str.c\<close> on numbers as integers);
    \<open>Gmp_Limbs\<close>, \<open>Gmp_Limbs_Correct\<close> (the loops of \<open>mpn/generic\<close> and of \<open>gmp.h\<close> on limbs); \<open>Gmp_Import\<close>
    (\<open>mpz/import.c\<close>); \<open>Gmp_Mpz\<close> (sums, differences, products and comparisons of \<open>mpz\<close>); \<open>Gmp_Mul\<close>
    (\<open>mpn_mul\<close>, Karatsuba, squares); \<open>Gmp_Udiv\<close> (the division macros of \<open>longlong.h\<close> and \<open>gmp-impl.h\<close>),
    \<open>Gmp_Div\<close> (\<open>divrem_1.c\<close>, \<open>divrem_2.c\<close>, \<open>sbpi1_div_qr.c\<close>), \<open>Gmp_Tdiv\<close>, \<open>Gmp_Tdiv_Short\<close>, \<open>Gmp_Tdiv_Correct\<close>
    (\<open>mpn/generic/tdiv_qr.c\<close>: the definitions, its estimated quotients, its correctness); \<open>Gmp_Mod\<close> (the divisions
    of \<open>mpz\<close>); \<open>Gmp_Pow\<close> (\<open>mpz/n_pow_ui.c\<close>, \<open>pow_ui.c\<close>, \<open>ui_pow_ui.c\<close>); \<open>Gmp_SetStr\<close>
    (\<open>mpn/generic/set_str.c\<close>, \<open>gen-bases.c\<close>); \<open>Gmp_GetStr\<close> (\<open>mpn/generic/get_str.c\<close>, \<open>pre_divrem_1.c\<close>);
    \<open>Gmp_Str\<close> (\<open>mpz_set_str\<close>, \<open>mpz_get_str\<close>, \<open>mpz_inp_str\<close>, \<open>mpz_out_str\<close> on limbs).

  \<^bold>\<open>How the code is read.\<close> A definition has the name of the function it models, and its branches are those of
  the code, in order. A struct is a record, an array the list of its elements, a pointer into an
  array an offset. Integers that wrap are words of their width; \<open>size_t\<close>, limbs and \<open>long\<close> have 64 bits
  and the machine is little-endian, as on the targets the Android build has. A function that can fail, read
  or write outside of its memory, or dereference null returns an \<open>outcome\<close>, and every access is checked where a
  length comes from the input. Loops are recursive functions that end by a measure; those that
  need not end for all arguments (\<open>find_generator\<close>, \<open>b64_read\<close> and the flush of the filter, the loops over chunks
  of digits) are partial functions with \<open>None\<close> for not returning, and it is proved when they
  return. Nothing has fuel.
  Allocation is a parameter (\<open>fresh\<close>, \<open>malloc\<close>, \<open>zeroed\<close>, \<open>garbage\<close>) where the code looks at it or where
  old contents are visible.

  \<^bold>\<open>What is proved.\<close>

  \<^item> The scheme: decryption with the right key returns the message and a message is accepted exactly if
    it is an encryption of what is returned; \<open>bf_setup\<close> establishes the public key and returns exactly if
    a random point survives; shards of two parties add up to one system. What goes wrong is stated as well:
    a message longer than the digest is encrypted with its tail in clear and the JNI wrapper garbles it,
    \<open>decrypt_ibe\<close> hides a failed check, decoders read past their buffers or do not check.

  \<^item> The hash functions are those of RFC 5091, on any digest (locale \<open>digest_fn\<close>, interpreted on SHA-384
    and SHA-512 of OpenSSL), up to the block that \<open>hash_to_bytes\<close> misplaces.

  \<^item> Text and binary forms are read back, alone or with something behind them (locale \<open>front_codec\<close>).
    All parameters that setups, imports, copies, shards and sums make have the pairing of their parameter and the
    preprocessed form of their key; they have the security record of their level (\<open>canonical\<close>, what the text form
    needs) exactly if the level is known, which an import does not check.

  \<^item> The three block functions of \<open>sha512.c\<close> are the compression function of FIPS 180-4, and a message
    collected in pieces has the digest of the whole: a refinement with the invariant \<open>sha_repr\<close>. The functions,
    padding and byte order of the standard are stated on their own, its tables computed as the fractional parts
    of roots of primes, so that a wrong constant in the code would show.

  \<^item> The base64 encoder and decoder give the same result however their input is split (\<open>enc_repr\<close>,
    \<open>dec_repr\<close>). A memory BIO is a byte queue (locale \<open>byte_queue\<close>) that drains; the filter works before
    any sink or source with such laws (locales \<open>byte_sink\<close>, \<open>byte_source\<close>, interpreted on the memory
    BIO). On this rest the round trip of \<open>base64.c\<close> and the fact that \<open>base64_decode\<close> returns on every string,
    inside its buffers. The size of the filter's buffer is \<open>bufsz\<close>, since its formula is in a missing header;
    what the decoder stores there is checked against it, counting blocks that are dropped again
    (\<open>EVP_DecodeUpdate_end\<close>). The theorems hold from 1430 bytes on, OpenSSL has 1502.

  \<^item> GMP reads back the numbers it writes, in all bases. On limbs, every loop computes the arithmetic of natural
    numbers with its carry or borrow, \<open>mpz_add\<close> and the others the arithmetic of integers, and all
    numbers made are normalized. Karatsuba's algorithm is the schoolbook product. Products are the interface
    \<open>limb_product\<close>, from which \<open>mpz_mul\<close> is proved; it is interpreted on \<open>mpn_mul\<close> and \<open>mpn_sqr\<close> below
    the thresholds. The divisions by one limb, by two and by many return quotient and remainder, with the
    inverses, estimates and corrections that the code makes; \<open>mpn_tdiv_qr\<close> is proved over an interface for the
    divisions it chooses from (locale \<open>limb_division\<close>, interpreted on the schoolbook division), and on it rest the
    roundings of \<open>mpz_tdiv_qr\<close> and the others and \<open>mpz_mod\<close>. \<open>mpz_pow_ui\<close> computes powers. With these,
    \<open>hash_to_range\<close> on limbs is a refinement of the function on integers that the scheme is proved with.
    \<open>mpz_import\<close> and \<open>mpn_set_str\<close> store the numbers of their words and digits, \<open>mpn_get_str\<close> returns the digits
    of a number inside its buffer, and with them the text functions of \<open>mpz\<close> on limbs are refinements of those on integers.

  \<^bold>\<open>Parameters and their laws.\<close> PBC is the record \<open>lib\<close>; what is used of it is bilinearity and the group laws
  (\<open>pairing_laws\<close>), lengths and round trips of the element formats (\<open>wire_laws\<close>, \<open>text_laws\<close>), and the output
  length of a digest (\<open>hash_laws\<close>). Random draws are the record \<open>draws\<close>. The algorithms of GMP for large
  operands are arguments, called only above the default thresholds of \<open>gmp-impl.h\<close> (30 limbs for
  Karatsuba, 100 for Toom-33, 50 for squares, 60 for division, so powers of up to 59 limbs; 2000 digits and 35 limbs for text) and excluded by the hypotheses of the
  theorems.

  \<^bold>\<open>Not modelled.\<close> The Python, Java and build code of PRISM and RACE, which is of another language and
  reaches bfibe through its interfaces; the benchmark program; PBC, which is not in the tree; of GMP
  gcd, roots, modular powers, random numbers, the algorithms for large operands, floats and rationals; of OpenSSL all that bfibe does not
  call: TLS, certificates, other ciphers. The assembly versions of the loops are not C. Time,
  secrecy of memory and the hardness assumptions of the scheme are outside of what these models say. Some sums
  of lengths are numbers without a width: the size of a message in bytes (\<open>bf_message_to_bytes\<close>), the bits
  of \<open>mpz_import\<close>, the \<open>_mp_size\<close> of an \<open>mpz\<close> and \<open>blen + inl\<close> of \<open>mem_write\<close>, which only wrap for objects
  that do not fit into memory. The encoders' terminating zero behind their output is left out.
\<close>

end
